(* ===== verification/JS_Prelude.thy ===== *)
theory JS_Prelude
  imports Main "HOL-Library.AList" "HOL-Library.Multiset" "HOL-Library.Char_ord"
begin

text \<open>
  What the JavaScript language itself provides and every component uses.

  Strings are lists of UTF-16 code units. The model keeps them as \<^typ>\<open>string\<close>, whose
  characters are the code units below 256; on that range the standard functions below
  (\<open>toLowerCase\<close>, the class \<open>\s\<close>, \<open>indexOf\<close>, \<open>substr\<close>, ...) are exact. Functions
  whose result depends on higher code units take the character type as a parameter.

  Objects used as dictionaries are association lists in insertion order, the order
  \<open>for .. in\<close> visits them; exceptions are values of a sum type with \<open>js_error\<close>.
\<close>

named_theorems js_string "equations of the string operations"
named_theorems js_obj "equations of the property maps"

section \<open>Errors\<close>

datatype js_error = TypeError | URIError | RangeError

type_synonym 'a result = "js_error + 'a"

definition bind_result :: "'a result \<Rightarrow> ('a \<Rightarrow> 'b result) \<Rightarrow> 'b result" where
  "bind_result r f = (case r of Inl e \<Rightarrow> Inl e | Inr x \<Rightarrow> f x)"

lemma bind_result_simps [simp]:
  "bind_result (Inl e) f = Inl e"
  "bind_result (Inr x) f = f x"
  by (simp_all add: bind_result_def)

lemma bind_result_eq_Inr:
  "bind_result r f = Inr y \<longleftrightarrow> (\<exists>x. r = Inr x \<and> f x = Inr y)"
  by (cases r) auto

fun map_result :: "('a \<Rightarrow> 'b result) \<Rightarrow> 'a list \<Rightarrow> 'b list result" where
  "map_result f [] = Inr []"
| "map_result f (x # xs) =
     bind_result (f x) (\<lambda>y. bind_result (map_result f xs) (\<lambda>ys. Inr (y # ys)))"

lemma map_result_total:
  "(\<And>x. x \<in> set xs \<Longrightarrow> f x = Inr (g x)) \<Longrightarrow> map_result f xs = Inr (map g xs)"
  by (induction xs) auto

section \<open>Strings\<close>

text \<open>The position of the first occurrence, \<open>None\<close> where JavaScript answers -1.\<close>

fun find_sub :: "'a list \<Rightarrow> 'a list \<Rightarrow> nat option" where
  "find_sub p [] = (if p = [] then Some 0 else None)"
| "find_sub p (c # s) =
     (if take (length p) (c # s) = p then Some 0 else map_option Suc (find_sub p s))"

definition indexOf :: "'a list \<Rightarrow> 'a list \<Rightarrow> int" where
  "indexOf s p = (case find_sub p s of None \<Rightarrow> -1 | Some i \<Rightarrow> int i)"

text \<open>
  The string methods \<open>s.substr(from, len)\<close>, \<open>s.substr(from)\<close>, \<open>s.substring(a, b)\<close>
  and \<open>s.slice(a, b)\<close>, with the clamping of the language: \<open>substr\<close> and \<open>slice\<close> count
  a negative position from the end, \<open>substring\<close> clamps to 0 and orders its arguments.
\<close>

definition from_end :: "'a list \<Rightarrow> int \<Rightarrow> nat" where
  "from_end s i = nat (if i < 0 then int (length s) + i else i)"

definition substr :: "'a list \<Rightarrow> int \<Rightarrow> int \<Rightarrow> 'a list" where
  "substr s i n = take (nat n) (drop (from_end s i) s)"

definition substr1 :: "'a list \<Rightarrow> int \<Rightarrow> 'a list" where
  "substr1 s i = drop (from_end s i) s"

definition substring :: "'a list \<Rightarrow> int \<Rightarrow> int \<Rightarrow> 'a list" where
  "substring s a b =
     (let a' = min (nat a) (length s); b' = min (nat b) (length s)
      in take (max a' b' - min a' b') (drop (min a' b') s))"

definition substring1 :: "'a list \<Rightarrow> int \<Rightarrow> 'a list" where
  "substring1 s a = drop (nat a) s"

definition slice :: "'a list \<Rightarrow> int \<Rightarrow> int \<Rightarrow> 'a list" where
  "slice s a b = take (from_end s b - from_end s a) (drop (from_end s a) s)"

text \<open>\<open>s.split(sep)\<close> for a separator of one character, and \<open>parts.join(sep)\<close>.\<close>

fun split1 :: "'a \<Rightarrow> 'a list \<Rightarrow> 'a list list" where
  "split1 c [] = [[]]"
| "split1 c (x # xs) =
     (if x = c then [] # split1 c xs
      else (case split1 c xs of [] \<Rightarrow> [[x]] | w # ws \<Rightarrow> (x # w) # ws))"

fun join1 :: "'a list \<Rightarrow> 'a list list \<Rightarrow> 'a list" where
  "join1 sep [] = []"
| "join1 sep [w] = w"
| "join1 sep (w # ws) = w @ sep @ join1 sep ws"

lemma split1_nonempty [simp]: "split1 c xs \<noteq> []"
  by (induction xs) (auto split: list.splits)

lemma join_split [simp]: "join1 [c] (split1 c xs) = xs"
proof (induction xs)
  case (Cons x xs)
  then show ?case
    by (cases "split1 c xs"; cases "tl (split1 c xs)") auto
qed simp

lemma split1_piece: "c \<notin> set w \<Longrightarrow> split1 c w = [w]"
  by (induction w) auto

lemma split1_append: "c \<notin> set w \<Longrightarrow> split1 c (w @ c # r) = w # split1 c r"
  by (induction w) auto

lemma split_join:
  "ws \<noteq> [] \<Longrightarrow> (\<forall>w \<in> set ws. c \<notin> set w) \<Longrightarrow> split1 c (join1 [c] ws) = ws"
proof (induction ws)
  case (Cons w ws)
  then show ?case
    by (cases ws) (auto simp: split1_piece split1_append)
qed simp

lemma split1_no_sep: "w \<in> set (split1 c xs) \<Longrightarrow> c \<notin> set w"
proof (induction xs arbitrary: w)
  case (Cons x xs)
  then show ?case
    by (cases "split1 c xs") (auto split: if_splits)
qed simp

section \<open>Character classes and case mapping\<close>

definition code :: "char \<Rightarrow> nat" where
  "code c = of_char c"

text \<open>
  \<open>toLowerCase\<close> on a code unit below 256: the ASCII capitals and the Latin-1 capitals
  (192 to 222 without the multiplication sign 215) move up by 32.
\<close>

definition lower_char :: "char \<Rightarrow> char" where
  "lower_char c =
     (let n = code c in
      if 65 \<le> n \<and> n \<le> 90 \<or> 192 \<le> n \<and> n \<le> 222 \<and> n \<noteq> 215 then char_of (n + 32) else c)"

definition toLowerCase :: "string \<Rightarrow> string" where
  "toLowerCase = map lower_char"

text \<open>\<open>toUpperCase\<close>, which the code applies to ASCII letters only.\<close>

definition upper_ascii :: "char \<Rightarrow> char" where
  "upper_ascii c = (let n = code c in if 97 \<le> n \<and> n \<le> 122 then char_of (n - 32) else c)"

definition is_space :: "char \<Rightarrow> bool" where
  "is_space c = (let n = code c in 9 \<le> n \<and> n \<le> 13 \<or> n = 32 \<or> n = 160)"

definition is_digit :: "char \<Rightarrow> bool" where
  "is_digit c = (let n = code c in 48 \<le> n \<and> n \<le> 57)"

definition is_word :: "char \<Rightarrow> bool" where
  "is_word c =
     (let n = code c in 48 \<le> n \<and> n \<le> 57 \<or> 65 \<le> n \<and> n \<le> 90 \<or> n = 95 \<or> 97 \<le> n \<and> n \<le> 122)"

definition trim :: "string \<Rightarrow> string" where
  "trim s = rev (dropWhile is_space (rev (dropWhile is_space s)))"

lemma code_less: "code c < 256"
  by (simp add: code_def)

lemma code_char_of: "n < 256 \<Longrightarrow> code (char_of n) = n"
  by (simp add: code_def)

lemma code_lower_char:
  "code (lower_char c) =
     (if 65 \<le> code c \<and> code c \<le> 90 \<or> 192 \<le> code c \<and> code c \<le> 222 \<and> code c \<noteq> 215
      then code c + 32 else code c)"
  by (auto simp: lower_char_def Let_def code_char_of)

lemma code_eq_iff: "code c = code d \<longleftrightarrow> c = d"
  by (simp add: code_def)

lemma lower_char_idem [simp]: "lower_char (lower_char c) = lower_char c"
  by (simp add: code_eq_iff [symmetric] code_lower_char)

lemma toLowerCase_idem [simp]: "toLowerCase (toLowerCase s) = toLowerCase s"
  by (simp add: toLowerCase_def)

lemma length_toLowerCase [simp]: "length (toLowerCase s) = length s"
  by (simp add: toLowerCase_def)

lemma toLowerCase_append: "toLowerCase (s @ t) = toLowerCase s @ toLowerCase t"
  by (simp add: toLowerCase_def)

subsection \<open>Decimal numerals\<close>

text \<open>\<open>String(n)\<close> for a natural number.\<close>

fun show_nat :: "nat \<Rightarrow> string" where
  "show_nat n =
     (if n < 10 then [char_of (48 + n)] else show_nat (n div 10) @ [char_of (48 + n mod 10)])"

declare show_nat.simps [simp del]

definition show_int :: "int \<Rightarrow> string" where
  "show_int i = (if i < 0 then ''-'' @ show_nat (nat (- i)) else show_nat (nat i))"

lemma show_nat_nonempty: "show_nat n \<noteq> []"
  by (subst show_nat.simps) simp

section \<open>The first occurrence of a substring\<close>

lemma find_sub_Some:
  "find_sub p s = Some i \<Longrightarrow> i + length p \<le> length s \<and> take (length p) (drop i s) = p"
proof (induction s arbitrary: i)
  case Nil
  then show ?case by (simp split: if_splits)
next
  case (Cons c s)
  show ?case
  proof (cases "take (length p) (c # s) = p")
    case True
    moreover from True have "length p \<le> length (c # s)"
      by (metis length_take min.cobounded1)
    ultimately show ?thesis using Cons.prems by simp
  next
    case False
    with Cons.prems obtain j where "find_sub p s = Some j" and "i = Suc j" by auto
    with Cons.IH [of j] show ?thesis by simp
  qed
qed

lemma find_sub_split:
  "find_sub p s = Some i \<Longrightarrow> s = take i s @ p @ drop (i + length p) s"
  by (metis append_take_drop_id drop_drop add.commute find_sub_Some)

lemma find_sub_None_iff: "find_sub p s = None \<longleftrightarrow> (\<nexists>a b. s = a @ p @ b)"
proof (induction s)
  case Nil
  then show ?case by simp
next
  case (Cons c s)
  have "(\<exists>a b. c # s = a @ p @ b) \<longleftrightarrow>
      take (length p) (c # s) = p \<or> (\<exists>a b. s = a @ p @ b)" (is "?L \<longleftrightarrow> ?R")
  proof
    assume ?L
    then obtain a b where ab: "c # s = a @ p @ b" by blast
    show ?R
    proof (cases a)
      case Nil
      with ab show ?thesis by simp
    next
      case (Cons d a')
      with ab show ?thesis by auto
    qed
  next
    assume ?R
    then show ?L
      by (metis append_Cons append_Nil append_take_drop_id)
  qed
  with Cons.IH show ?case by simp
qed

lemma indexOf_nonneg_iff: "0 \<le> indexOf s p \<longleftrightarrow> (\<exists>a b. s = a @ p @ b)"
  using find_sub_None_iff [of p s] by (auto simp: indexOf_def split: option.splits)

lemma indexOf_ge: "-1 \<le> indexOf s p"
  by (simp add: indexOf_def split: option.splits)

section \<open>Property maps\<close>

text \<open>
  The contract of an object used as a dictionary: reading back what was stored, and the
  enumeration of the keys. The clients are the query parameters, the maps of the search, and
  the containers of the libraries; \<open>push_with\<close> is their common idiom
  \<open>if (k in m) m[k].push(v); else m[k] = [v]\<close>.
\<close>

definition push_with ::
    "('m \<Rightarrow> 'k \<Rightarrow> 'v list option) \<Rightarrow> ('k \<Rightarrow> 'v list \<Rightarrow> 'm \<Rightarrow> 'm) \<Rightarrow> 'k \<times> 'v \<Rightarrow> 'm \<Rightarrow> 'm" where
  "push_with get put kv m =
     (case get m (fst kv) of
        Some vs \<Rightarrow> put (fst kv) (vs @ [snd kv]) m
      | None \<Rightarrow> put (fst kv) [snd kv] m)"

definition values_at :: "'k \<Rightarrow> ('k \<times> 'v) list \<Rightarrow> 'v list" where
  "values_at k kvs = map snd (filter (\<lambda>kv. fst kv = k) kvs)"

lemma values_at_simps [simp]:
  "values_at k [] = []"
  "values_at k (kv # kvs) = (if fst kv = k then snd kv # values_at k kvs else values_at k kvs)"
  by (simp_all add: values_at_def)

lemma values_at_append [simp]: "values_at k (xs @ ys) = values_at k xs @ values_at k ys"
  by (simp add: values_at_def)

lemma values_at_Nil_iff: "values_at k kvs = [] \<longleftrightarrow> k \<notin> fst ` set kvs"
  by (induction kvs) auto

locale property_map =
  fixes empty :: 'm
    and get :: "'m \<Rightarrow> 'k \<Rightarrow> 'v option"
    and put :: "'k \<Rightarrow> 'v \<Rightarrow> 'm \<Rightarrow> 'm"
    and keys :: "'m \<Rightarrow> 'k list"
  assumes get_empty [simp]: "get empty k = None"
    and get_put: "get (put k v m) k' = (if k' = k then Some v else get m k')"
    and keys_empty [simp]: "keys empty = []"
    and keys_put: "keys (put k v m) = (if k \<in> set (keys m) then keys m else keys m @ [k])"
    and in_keys: "k \<in> set (keys m) \<longleftrightarrow> get m k \<noteq> None"
begin

lemma get_put_same [simp]: "get (put k v m) k = Some v"
  by (simp add: get_put)

lemma get_put_other [simp]: "k' \<noteq> k \<Longrightarrow> get (put k v m) k' = get m k'"
  by (simp add: get_put)

lemma distinct_keys_put: "distinct (keys m) \<Longrightarrow> distinct (keys (put k v m))"
  by (simp add: keys_put)

end

locale multi_map = property_map empty get put keys
  for empty :: 'm
    and get :: "'m \<Rightarrow> 'k \<Rightarrow> 'v list option"
    and put :: "'k \<Rightarrow> 'v list \<Rightarrow> 'm \<Rightarrow> 'm"
    and keys :: "'m \<Rightarrow> 'k list"
begin

lemma get_push:
  "get (push_with get put kv m) k =
     (if k = fst kv
      then Some ((case get m k of None \<Rightarrow> [] | Some vs \<Rightarrow> vs) @ [snd kv]) else get m k)"
  by (auto simp: push_with_def get_put split: option.splits)

lemma keys_push:
  "keys (push_with get put kv m) =
     (if fst kv \<in> set (keys m) then keys m else keys m @ [fst kv])"
  by (simp add: push_with_def keys_put split: option.splits)

text \<open>After a run of pushes a key holds its values in the order they came.\<close>

lemma get_push_all:
  "get (fold (push_with get put) kvs m) k =
     (if values_at k kvs = [] then get m k
      else Some ((case get m k of None \<Rightarrow> [] | Some vs \<Rightarrow> vs) @ values_at k kvs))"
proof (induction kvs arbitrary: m)
  case (Cons kv kvs)
  then show ?case by (auto simp: get_push split: option.splits)
qed simp

lemma keys_push_all_set:
  "set (keys (fold (push_with get put) kvs m)) = set (keys m) \<union> fst ` set kvs"
  by (induction kvs arbitrary: m) (auto simp: keys_push)

lemma keys_push_all_distinct:
  "distinct (keys m) \<Longrightarrow> distinct (keys (fold (push_with get put) kvs m))"
  by (induction kvs arbitrary: m) (auto simp: keys_push)

end

text \<open>The model of an object: an association list in insertion order.\<close>

type_synonym ('k, 'v) jsobj = "('k \<times> 'v) list"

definition obj_get :: "('k, 'v) jsobj \<Rightarrow> 'k \<Rightarrow> 'v option" where
  "obj_get m k = map_of m k"

definition obj_put :: "'k \<Rightarrow> 'v \<Rightarrow> ('k, 'v) jsobj \<Rightarrow> ('k, 'v) jsobj" where
  "obj_put k v m = AList.update k v m"

definition obj_keys :: "('k, 'v) jsobj \<Rightarrow> 'k list" where
  "obj_keys m = map fst m"

definition obj_del :: "'k \<Rightarrow> ('k, 'v) jsobj \<Rightarrow> ('k, 'v) jsobj" where
  "obj_del k m = filter (\<lambda>kv. fst kv \<noteq> k) m"

lemma obj_get_empty [js_obj]: "obj_get [] k = None"
  by (simp add: obj_get_def)

lemma obj_get_put [js_obj]: "obj_get (obj_put k v m) k' = (if k' = k then Some v else obj_get m k')"
  by (simp add: obj_get_def obj_put_def update_conv')

lemma obj_get_del [js_obj]: "obj_get (obj_del k m) k' = (if k' = k then None else obj_get m k')"
  by (induction m) (auto simp: obj_get_def obj_del_def)

lemma obj_keys_put [js_obj]:
  "obj_keys (obj_put k v m) = (if k \<in> set (obj_keys m) then obj_keys m else obj_keys m @ [k])"
  by (simp add: obj_keys_def obj_put_def update_keys)

lemma obj_in_keys: "k \<in> set (obj_keys m) \<longleftrightarrow> obj_get m k \<noteq> None"
  by (simp add: obj_keys_def obj_get_def map_of_eq_None_iff)

interpretation obj: property_map "[]" obj_get obj_put obj_keys
  by unfold_locales (auto simp: js_obj obj_in_keys, simp add: obj_keys_def)

interpretation multi: multi_map "[]" obj_get obj_put obj_keys
  by unfold_locales

text \<open>
  An object literal inherits from \<open>Object.prototype\<close>: the names found there, with the \<open>length\<close>
  of the functions they name. The accessor \<open>__proto__\<close>, whose value is an object, is not
  among them.
\<close>

definition object_prototype :: "(string \<times> nat) list" where
  "object_prototype =
    [(''constructor'', 1), (''hasOwnProperty'', 1), (''isPrototypeOf'', 1),
     (''propertyIsEnumerable'', 1), (''toLocaleString'', 0), (''toString'', 0), (''valueOf'', 0),
     (''__defineGetter__'', 2), (''__defineSetter__'', 2), (''__lookupGetter__'', 1),
     (''__lookupSetter__'', 1)]"

definition obj_push :: "'k \<times> 'v \<Rightarrow> ('k, 'v list) jsobj \<Rightarrow> ('k, 'v list) jsobj" where
  "obj_push = push_with obj_get obj_put"

section \<open>Sorting with a comparator\<close>

text \<open>
  \<open>xs.sort(cmp)\<close>: \<open>cmp a b > 0\<close> means that \<open>a\<close> goes after \<open>b\<close>. The language fixes the
  result only for a consistent comparator; the model is the stable insertion sort, which
  agrees with every engine whose sort is stable.
\<close>

fun ins_cmp :: "('a \<Rightarrow> 'a \<Rightarrow> int) \<Rightarrow> 'a \<Rightarrow> 'a list \<Rightarrow> 'a list" where
  "ins_cmp cmp x [] = [x]"
| "ins_cmp cmp x (y # ys) = (if cmp x y > 0 then y # ins_cmp cmp x ys else x # y # ys)"

definition sort_cmp :: "('a \<Rightarrow> 'a \<Rightarrow> int) \<Rightarrow> 'a list \<Rightarrow> 'a list" where
  "sort_cmp cmp xs = foldr (ins_cmp cmp) xs []"

lemma mset_ins_cmp [simp]: "mset (ins_cmp cmp x ys) = add_mset x (mset ys)"
  by (induction ys) auto

lemma mset_sort_cmp [simp]: "mset (sort_cmp cmp xs) = mset xs"
  by (induction xs) (auto simp: sort_cmp_def)

lemma set_sort_cmp [simp]: "set (sort_cmp cmp xs) = set xs"
  by (metis mset_sort_cmp set_mset_mset)

lemma length_sort_cmp [simp]: "length (sort_cmp cmp xs) = length xs"
  by (metis mset_sort_cmp size_mset)

lemma set_ins_cmp [simp]: "set (ins_cmp cmp x ys) = insert x (set ys)"
  by (metis mset_ins_cmp set_mset_add_mset_insert set_mset_mset)

text \<open>The contract of a comparator on the values \<open>ok\<close>, and what sorting with it gives.\<close>

locale comparator =
  fixes cmp :: "'a \<Rightarrow> 'a \<Rightarrow> int"
    and ok :: "'a \<Rightarrow> bool"
  assumes cmp_flip: "ok a \<Longrightarrow> ok b \<Longrightarrow> cmp a b > 0 \<Longrightarrow> cmp b a \<le> 0"
    and cmp_trans: "ok a \<Longrightarrow> ok b \<Longrightarrow> ok c \<Longrightarrow> cmp a b \<le> 0 \<Longrightarrow> cmp b c \<le> 0 \<Longrightarrow> cmp a c \<le> 0"
begin

lemma sorted_ins:
  "ok x \<Longrightarrow> list_all ok ys \<Longrightarrow> sorted_wrt (\<lambda>a b. cmp a b \<le> 0) ys \<Longrightarrow>
     sorted_wrt (\<lambda>a b. cmp a b \<le> 0) (ins_cmp cmp x ys)"
proof (induction ys)
  case (Cons y ys)
  then show ?case
    by (auto simp: not_less list_all_iff intro: cmp_flip dest: cmp_trans [of x y])
qed simp

lemma sorted_sort:
  "list_all ok xs \<Longrightarrow> sorted_wrt (\<lambda>a b. cmp a b \<le> 0) (sort_cmp cmp xs)"
proof (induction xs)
  case (Cons x xs)
  have "list_all ok (sort_cmp cmp xs)" using Cons.prems by (simp add: list_all_iff)
  with Cons show ?case by (simp add: sort_cmp_def sorted_ins)
qed (simp add: sort_cmp_def)

end

section \<open>Array reads\<close>

text \<open>\<open>xs[n]\<close>: \<open>undefined\<close> is \<open>None\<close>; \<open>jstr\<close> is what concatenation makes of it.\<close>

definition nth_opt :: "'a list \<Rightarrow> nat \<Rightarrow> 'a option" where
  "nth_opt xs n = (if n < length xs then Some (xs ! n) else None)"

definition jstr :: "string option \<Rightarrow> string" where
  "jstr v = (case v of None \<Rightarrow> ''undefined'' | Some s \<Rightarrow> s)"

lemma jstr_Some [simp]: "jstr (Some s) = s"
  by (simp add: jstr_def)

end
