(* ===== verification/JS_Regex.thy ===== *)
theory JS_Regex
  imports JS_Prelude
begin

text \<open>
  Regular expressions with the backtracking semantics of ECMAScript: a pattern is a
  \<open>re\<close>, and \<open>rm r st\<close> lists every way \<open>r\<close> matches at the state \<open>st\<close>, in the order
  the engine tries them, so the head of the list is the match the engine reports. A
  state is the position, the rest of the subject and the captures so far.
\<close>

named_theorems js_regex "equations of the regular expression engine"

datatype re =
    Eps
  | Cls "char \<Rightarrow> bool"
  | Seq re re
  | Alt re re
  | Star re
  | Lazy re
  | Grp nat re
  | Ref nat
  | Bol
  | Eol

type_synonym caps = "(nat \<times> string) list"
type_synonym mstate = "nat \<times> string \<times> caps"

fun groups :: "re \<Rightarrow> nat list" where
  "groups (Seq a b) = groups a @ groups b"
| "groups (Alt a b) = groups a @ groups b"
| "groups (Star a) = groups a"
| "groups (Lazy a) = groups a"
| "groups (Grp n a) = n # groups a"
| "groups _ = []"

definition cap :: "nat \<Rightarrow> caps \<Rightarrow> string option" where
  "cap n cs = map_of cs n"

definition clear :: "nat list \<Rightarrow> caps \<Rightarrow> caps" where
  "clear ns cs = filter (\<lambda>(n, _). n \<notin> set ns) cs"

text \<open>
  One more iteration of a starred pattern counts only when it consumed something, as the
  language requires; the captures of its body are undefined again at each iteration. A
  reference to a group that did not take part matches the empty string.
\<close>

function rm :: "re \<Rightarrow> mstate \<Rightarrow> mstate list" where
  "rm Eps st = [st]"
| "rm (Cls p) (i, s, cs) =
     (case s of [] \<Rightarrow> [] | c # s' \<Rightarrow> if p c then [(Suc i, s', cs)] else [])"
| "rm (Seq a b) st = concat (map (rm b) (rm a st))"
| "rm (Alt a b) st = rm a st @ rm b st"
| "rm (Star a) (i, s, cs) =
     concat (map (\<lambda>(i', s', cs'). if length s' < length s then rm (Star a) (i', s', cs') else [])
       (rm a (i, s, clear (groups a) cs))) @ [(i, s, cs)]"
| "rm (Lazy a) (i, s, cs) =
     (i, s, cs) #
     concat (map (\<lambda>(i', s', cs'). if length s' < length s then rm (Lazy a) (i', s', cs') else [])
       (rm a (i, s, clear (groups a) cs)))"
| "rm (Grp n a) (i, s, cs) =
     map (\<lambda>(i', s', cs'). (i', s', (n, take (i' - i) s) # cs')) (rm a (i, s, cs))"
| "rm (Ref n) (i, s, cs) =
     (case cap n cs of None \<Rightarrow> [(i, s, cs)]
      | Some t \<Rightarrow> if take (length t) s = t then [(i + length t, drop (length t) s, cs)] else [])"
| "rm Bol (i, s, cs) = (if i = 0 then [(i, s, cs)] else [])"
| "rm Eol (i, s, cs) = (if s = [] then [(i, s, cs)] else [])"
  by pat_completeness auto
termination
  by (relation "measures [\<lambda>(r, _). size r, \<lambda>(_, _, s, _). length s]") auto

declare rm.simps [simp del]

lemmas rm_simps [js_regex] = rm.simps

section \<open>Matching, testing, replacing, splitting\<close>

text \<open>\<open>match_at r s k\<close> is the match of \<open>r\<close> at position \<open>k\<close>: its end and its captures.\<close>

definition match_at :: "re \<Rightarrow> string \<Rightarrow> nat \<Rightarrow> (nat \<times> caps) option" where
  "match_at r s k =
     (case rm r (k, drop k s, []) of [] \<Rightarrow> None | (j, _, cs) # _ \<Rightarrow> Some (j, cs))"

text \<open>\<open>re.exec(s)\<close>: the first position from \<open>k\<close> on where the pattern matches.\<close>

function exec_from :: "re \<Rightarrow> string \<Rightarrow> nat \<Rightarrow> (nat \<times> nat \<times> caps) option" where
  "exec_from r s k =
     (if length s < k then None
      else case match_at r s k of
             Some (j, cs) \<Rightarrow> Some (k, j, cs)
           | None \<Rightarrow> exec_from r s (Suc k))"
  by pat_completeness auto
termination
  by (relation "measure (\<lambda>(r, s, k). Suc (length s) - k)") auto

declare exec_from.simps [simp del]

definition exec :: "re \<Rightarrow> string \<Rightarrow> (nat \<times> nat \<times> caps) option" where
  "exec r s = exec_from r s 0"

definition test :: "re \<Rightarrow> string \<Rightarrow> bool" where
  "test r s \<longleftrightarrow> exec r s \<noteq> None"

text \<open>\<open>exec(s)[n]\<close>; \<open>undefined\<close> is the empty string where the code only concatenates it.\<close>

definition group :: "nat \<Rightarrow> caps \<Rightarrow> string" where
  "group n cs = (case cap n cs of None \<Rightarrow> [] | Some t \<Rightarrow> t)"

text \<open>\<open>s.replace(re, f)\<close> without the flag \<open>g\<close>.\<close>

definition replace1 :: "re \<Rightarrow> (caps \<Rightarrow> string) \<Rightarrow> string \<Rightarrow> string" where
  "replace1 r f s =
     (case exec r s of None \<Rightarrow> s | Some (k, j, cs) \<Rightarrow> take k s @ f cs @ drop j s)"

text \<open>
  \<open>s.replace(re, f)\<close> with the flag \<open>g\<close>, from position \<open>k\<close>: the pieces between the matches
  are copied; after an empty match one character is copied and the search moves on. The
  replacement may fail or yield any value, so the matches are collected first.
\<close>

function matches_from :: "re \<Rightarrow> string \<Rightarrow> nat \<Rightarrow> (nat \<times> nat \<times> caps) list" where
  "matches_from r s k =
     (case exec_from r s k of
        None \<Rightarrow> []
      | Some (a, b, cs) \<Rightarrow>
          (a, b, cs) # (if k \<le> a \<and> k \<le> b \<and> a \<le> length s
                        then matches_from r s (if b \<le> a then Suc a else b) else []))"
  by pat_completeness auto
termination
  by (relation "measure (\<lambda>(r, s, k). Suc (length s) - k)") (auto split: if_splits)

declare matches_from.simps [simp del]

fun paste :: "string \<Rightarrow> nat \<Rightarrow> ((nat \<times> nat) \<times> string) list \<Rightarrow> string" where
  "paste s k [] = drop k s"
| "paste s k (((a, b), t) # ms) = take (a - k) (drop k s) @ t @ paste s b ms"

definition replace_all :: "re \<Rightarrow> (caps \<Rightarrow> string) \<Rightarrow> string \<Rightarrow> string" where
  "replace_all r f s = paste s 0 (map (\<lambda>(a, b, cs). ((a, b), f cs)) (matches_from r s 0))"

section \<open>Pattern abbreviations\<close>

abbreviation "Ch c \<equiv> Cls (\<lambda>d. d = c)"
abbreviation "Opt r \<equiv> Alt r Eps"
abbreviation "Plus r \<equiv> Seq r (Star r)"
abbreviation "LazyPlus r \<equiv> Seq r (Lazy r)"

text \<open>The class \<open>.\<close>: everything but a line terminator.\<close>

definition Dot :: re where
  "Dot = Cls (\<lambda>c. code c \<noteq> 10 \<and> code c \<noteq> 13)"

fun Lit :: "string \<Rightarrow> re" where
  "Lit [] = Eps"
| "Lit (c # s) = Seq (Ch c) (Lit s)"

fun Alts :: "string list \<Rightarrow> re" where
  "Alts [] = Cls (\<lambda>_. False)"
| "Alts [w] = Lit w"
| "Alts (w # ws) = Alt (Lit w) (Alts ws)"

declare Lit.simps [simp del] Alts.simps [simp del]

section \<open>Soundness of the engine\<close>

text \<open>A match consumes a prefix of the rest and advances the position by its length.\<close>

definition advances :: "mstate \<Rightarrow> mstate \<Rightarrow> bool" where
  "advances st st' \<longleftrightarrow>
     (\<exists>u. fst (snd st) = u @ fst (snd st') \<and> fst st' = fst st + length u)"

lemma advances_refl [simp]: "fst st' = fst st \<Longrightarrow> fst (snd st') = fst (snd st) \<Longrightarrow> advances st st'"
  by (simp add: advances_def)

lemma advances_trans [trans]: "advances a b \<Longrightarrow> advances b c \<Longrightarrow> advances a c"
  by (auto simp: advances_def)

lemma rm_advances: "st' \<in> set (rm r st) \<Longrightarrow> advances st st'"
proof (induction r st arbitrary: st' rule: rm.induct)
  case (2 p i s cs)
  then show ?case by (auto simp: rm.simps advances_def split: list.splits if_splits)
next
  case (3 a b st)
  from "3.prems" obtain m where m: "m \<in> set (rm a st)" "st' \<in> set (rm b m)"
    by (auto simp: rm.simps)
  from "3.IH"(1) [OF m(1)] "3.IH"(2) [OF m] show ?case by (rule advances_trans)
next
  case (5 a i s cs)
  from "5.prems" consider "st' = (i, s, cs)"
    | i' s' cs' where "(i', s', cs') \<in> set (rm a (i, s, clear (groups a) cs))"
        "length s' < length s" "st' \<in> set (rm (Star a) (i', s', cs'))"
    by (auto simp: rm.simps(5) [of a i s] split: if_splits)
  then show ?case
  proof cases
    case 2
    have "advances (i, s, clear (groups a) cs) (i', s', cs')"
      by (rule "5.IH"(1)) fact
    moreover have "advances (i', s', cs') st'"
      by (rule "5.IH"(2) [OF 2(1) refl refl 2(2,3)])
    ultimately show ?thesis by (auto simp: advances_def)
  qed simp
next
  case (6 a i s cs)
  from "6.prems" consider "st' = (i, s, cs)"
    | i' s' cs' where "(i', s', cs') \<in> set (rm a (i, s, clear (groups a) cs))"
        "length s' < length s" "st' \<in> set (rm (Lazy a) (i', s', cs'))"
    by (auto simp: rm.simps(6) [of a i s] split: if_splits)
  then show ?case
  proof cases
    case 2
    have "advances (i, s, clear (groups a) cs) (i', s', cs')"
      by (rule "6.IH"(1)) fact
    moreover have "advances (i', s', cs') st'"
      by (rule "6.IH"(2) [OF 2(1) refl refl 2(2,3)])
    ultimately show ?thesis by (auto simp: advances_def)
  qed simp
next
  case (7 n a i s cs)
  then show ?case by (fastforce simp: rm.simps advances_def)
next
  case (8 n i s cs)
  then show ?case
    by (auto simp: rm.simps advances_def split: option.splits if_splits)
      (metis append_take_drop_id)
qed (auto simp: rm.simps split: if_splits)

text \<open>A pattern sets no capture but those of its own groups.\<close>

lemma cap_clear: "n \<notin> set ns \<Longrightarrow> cap n (clear ns cs) = cap n cs"
  by (induction cs) (auto simp: cap_def clear_def)

lemma rm_cap:
  "st' \<in> set (rm r st) \<Longrightarrow> n \<notin> set (groups r) \<Longrightarrow> cap n (snd (snd st')) = cap n (snd (snd st))"
proof (induction r st arbitrary: st' rule: rm.induct)
  case (2 p i s cs)
  then show ?case by (auto simp: rm.simps split: list.splits if_splits)
next
  case (3 a b st)
  from "3.prems"(1) obtain m where m: "m \<in> set (rm a st)" "st' \<in> set (rm b m)"
    by (auto simp: rm.simps)
  from "3.IH"(1) [OF m(1)] "3.IH"(2) [OF m] "3.prems"(2) show ?case by simp
next
  case (5 a i s cs)
  from "5.prems" consider "st' = (i, s, cs)"
    | i' s' cs' where "(i', s', cs') \<in> set (rm a (i, s, clear (groups a) cs))"
        "length s' < length s" "st' \<in> set (rm (Star a) (i', s', cs'))"
    by (auto simp: rm.simps(5) [of a i s] split: if_splits)
  then show ?case
  proof cases
    case 2
    from "5.IH"(1) [OF 2(1)] "5.IH"(2) [OF 2(1) refl refl 2(2,3)] "5.prems"(2)
    show ?thesis by (simp add: cap_clear)
  qed simp
next
  case (6 a i s cs)
  from "6.prems" consider "st' = (i, s, cs)"
    | i' s' cs' where "(i', s', cs') \<in> set (rm a (i, s, clear (groups a) cs))"
        "length s' < length s" "st' \<in> set (rm (Lazy a) (i', s', cs'))"
    by (auto simp: rm.simps(6) [of a i s] split: if_splits)
  then show ?case
  proof cases
    case 2
    from "6.IH"(1) [OF 2(1)] "6.IH"(2) [OF 2(1) refl refl 2(2,3)] "6.prems"(2)
    show ?thesis by (simp add: cap_clear)
  qed simp
next
  case (7 m a i s cs)
  from "7.prems"(1) obtain i' s' cs' where
    m: "(i', s', cs') \<in> set (rm a (i, s, cs))" and st: "st' = (i', s', (m, take (i' - i) s) # cs')"
    by (auto simp: rm.simps)
  have "cap n cs' = cap n cs" using "7.IH" [OF m] "7.prems"(2) by simp
  then show ?case using "7.prems"(2) by (simp add: st cap_def)
next
  case (8 m i s cs)
  then show ?case by (auto simp: rm.simps split: option.splits if_splits)
qed (auto simp: rm.simps split: if_splits)

lemma match_at_bounds:
  assumes "match_at r s k = Some (j, cs)" and "k \<le> length s"
  shows "k \<le> j \<and> j \<le> length s"
proof -
  from assms(1) obtain s' where "(j, s', cs) \<in> set (rm r (k, drop k s, []))"
    by (auto simp: match_at_def split: list.splits)
  then have "advances (k, drop k s, []) (j, s', cs)" by (rule rm_advances)
  then obtain u where u: "drop k s = u @ s'" "j = k + length u"
    by (auto simp: advances_def)
  from u(1) have "length (drop k s) = length u + length s'" by simp
  then show ?thesis using u(2) assms(2) by simp
qed

lemma exec_from_bounds:
  "exec_from r s k = Some (a, b, cs) \<Longrightarrow> k \<le> a \<and> a \<le> b \<and> b \<le> length s"
proof (induction r s k rule: exec_from.induct)
  case (1 r s k)
  show ?case
  proof (cases "match_at r s k")
    case None
    with 1 show ?thesis
      by (auto simp: exec_from.simps [of r s k] split: if_splits)
  next
    case (Some p)
    with "1.prems" show ?thesis
      by (auto simp: exec_from.simps [of r s k] dest: match_at_bounds split: if_splits)
  qed
qed

lemma exec_bounds: "exec r s = Some (a, b, cs) \<Longrightarrow> a \<le> b \<and> b \<le> length s"
  unfolding exec_def by (drule exec_from_bounds) simp

text \<open>\<open>exec\<close> reports the first position with a match.\<close>

lemma from_Suc_iff:
  "Q k \<Longrightarrow> (\<forall>j. k \<le> j \<and> R j \<longrightarrow> Q j) \<longleftrightarrow> (\<forall>j. Suc k \<le> j \<and> R j \<longrightarrow> Q j)"
  by (metis Suc_leD Suc_leI le_neq_implies_less)

lemma exec_from_skip:
  assumes "k \<le> length s" and "match_at r s k = None"
  shows "exec_from r s k = exec_from r s (Suc k)"
  using assms by (simp add: exec_from.simps [of r s k])

lemma exec_from_Some_iff:
  "exec_from r s k = Some (a, b, cs) \<longleftrightarrow>
     k \<le> a \<and> a \<le> length s \<and> match_at r s a = Some (b, cs) \<and>
     (\<forall>j. k \<le> j \<and> j < a \<longrightarrow> match_at r s j = None)"
proof (induction r s k rule: exec_from.induct)
  case (1 r s k)
  consider "length s < k" | p where "k \<le> length s" "match_at r s k = Some p"
    | "k \<le> length s" "match_at r s k = None"
    by (cases "match_at r s k") (auto simp: not_less [symmetric])
  then show ?case
  proof cases
    case 1
    then show ?thesis by (auto simp: exec_from.simps [of r s k])
  next
    case (2 p)
    then show ?thesis
      by (cases p) (auto simp: exec_from.simps [of r s k], (metis le_neq_implies_less
            le_refl option.distinct(1) option.inject prod.inject)+)
  next
    case 3
    then have "exec_from r s k = Some (a, b, cs) \<longleftrightarrow>
        Suc k \<le> a \<and> a \<le> length s \<and> match_at r s a = Some (b, cs) \<and>
        (\<forall>j. Suc k \<le> j \<and> j < a \<longrightarrow> match_at r s j = None)"
      using "1.IH" by (simp add: exec_from_skip)
    also have "\<dots> \<longleftrightarrow> k \<le> a \<and> a \<le> length s \<and> match_at r s a = Some (b, cs) \<and>
        (\<forall>j. Suc k \<le> j \<and> j < a \<longrightarrow> match_at r s j = None)"
      using 3(2) by (metis Suc_leD Suc_leI le_neq_implies_less option.distinct(1))
    finally show ?thesis
      using from_Suc_iff [of "\<lambda>j. match_at r s j = None" k "\<lambda>j. j < a"] 3(2) by simp
  qed
qed

lemma exec_Some_iff:
  "exec r s = Some (a, b, cs) \<longleftrightarrow>
     a \<le> length s \<and> match_at r s a = Some (b, cs) \<and> (\<forall>j < a. match_at r s j = None)"
  by (simp add: exec_def exec_from_Some_iff)

lemma exec_from_None_iff:
  "exec_from r s k = None \<longleftrightarrow> (\<forall>j. k \<le> j \<and> j \<le> length s \<longrightarrow> match_at r s j = None)"
proof (induction r s k rule: exec_from.induct)
  case (1 r s k)
  consider "length s < k" | p where "k \<le> length s" "match_at r s k = Some p"
    | "k \<le> length s" "match_at r s k = None"
    by (cases "match_at r s k") (auto simp: not_less [symmetric])
  then show ?case
  proof cases
    case 1
    then show ?thesis by (auto simp: exec_from.simps [of r s k])
  next
    case (2 p)
    then show ?thesis by (cases p) (auto simp: exec_from.simps [of r s k])
  next
    case 3
    then show ?thesis
      using "1.IH" from_Suc_iff [of "\<lambda>j. match_at r s j = None" k "\<lambda>j. j \<le> length s"]
      by (simp add: exec_from_skip)
  qed
qed

lemma exec_None_iff: "exec r s = None \<longleftrightarrow> (\<forall>j \<le> length s. match_at r s j = None)"
  by (simp add: exec_def exec_from_None_iff)

lemma match_at_None_iff: "match_at r s k = None \<longleftrightarrow> rm r (k, drop k s, []) = []"
  by (auto simp: match_at_def split: list.splits)

lemma match_at_Some_in:
  "match_at r s k = Some (j, cs) \<Longrightarrow> \<exists>t. (j, t, cs) \<in> set (rm r (k, drop k s, []))"
  by (auto simp: match_at_def split: list.splits)

text \<open>A pattern that starts with \<open>^\<close> only matches at position 0.\<close>

lemma rm_Bol_Seq: "rm (Seq Bol r) (i, s, cs) = (if i = 0 then rm r (i, s, cs) else [])"
  by (simp add: rm.simps)

lemma exec_from_Bol_late: "0 < k \<Longrightarrow> exec_from (Seq Bol r) s k = None"
proof (induction "Seq Bol r" s k rule: exec_from.induct)
  case (1 s k)
  then show ?case
    by (simp add: exec_from.simps [of _ s k] match_at_def rm_Bol_Seq)
qed

lemma exec_Bol:
  "exec (Seq Bol r) s =
     (case rm r (0, s, []) of [] \<Rightarrow> None | (j, _, cs) # _ \<Rightarrow> Some (0, j, cs))"
  by (simp add: exec_def exec_from.simps [of _ s 0] match_at_def rm_Bol_Seq exec_from_Bol_late
      split: list.splits)

lemma test_Bol: "test (Seq Bol r) s \<longleftrightarrow> rm r (0, s, []) \<noteq> []"
  by (auto simp: test_def exec_Bol split: list.splits)

subsection \<open>Literals and classes\<close>

lemma rm_Lit:
  "rm (Lit w) (i, s, cs) =
     (if take (length w) s = w then [(i + length w, drop (length w) s, cs)] else [])"
proof (induction w arbitrary: i s)
  case Nil
  then show ?case by (simp add: rm.simps Lit.simps)
next
  case (Cons c w)
  then show ?case by (cases s) (auto simp: rm.simps Lit.simps)
qed

lemma rm_Alts:
  "rm (Alts ws) (i, s, cs) =
     concat (map (\<lambda>w. if take (length w) s = w then [(i + length w, drop (length w) s, cs)] else []) ws)"
  by (induction ws rule: Alts.induct) (auto simp: rm.simps rm_Lit Alts.simps split: list.splits)

text \<open>A starred class takes any prefix inside the class, the longest first.\<close>

fun star_cls :: "(char \<Rightarrow> bool) \<Rightarrow> nat \<Rightarrow> string \<Rightarrow> caps \<Rightarrow> mstate list" where
  "star_cls p i [] cs = [(i, [], cs)]"
| "star_cls p i (c # s) cs =
     (if p c then star_cls p (Suc i) s cs else []) @ [(i, c # s, cs)]"

lemma clear_Nil [simp]: "clear [] cs = cs"
  by (simp add: clear_def)

lemma rm_Star_Cls: "rm (Star (Cls p)) (i, s, cs) = star_cls p i s cs"
proof (induction s arbitrary: i)
  case (Cons c s)
  then show ?case by (subst rm.simps) (simp add: rm.simps(2))
qed (subst rm.simps, simp add: rm.simps(2))

fun lazy_cls :: "(char \<Rightarrow> bool) \<Rightarrow> nat \<Rightarrow> string \<Rightarrow> caps \<Rightarrow> mstate list" where
  "lazy_cls p i [] cs = [(i, [], cs)]"
| "lazy_cls p i (c # s) cs =
     (i, c # s, cs) # (if p c then lazy_cls p (Suc i) s cs else [])"

lemma rm_Lazy_Cls: "rm (Lazy (Cls p)) (i, s, cs) = lazy_cls p i s cs"
proof (induction s arbitrary: i)
  case (Cons c s)
  then show ?case by (subst rm.simps) (simp add: rm.simps(2))
qed (subst rm.simps, simp add: rm.simps(2))

lemma star_cls_iff:
  "(j, t, ds) \<in> set (star_cls p i s cs) \<longleftrightarrow>
     ds = cs \<and> (\<exists>u. s = u @ t \<and> j = i + length u \<and> (\<forall>c \<in> set u. p c))"
proof (induction s arbitrary: i)
  case (Cons c s)
  have "(\<exists>u. c # s = u @ t \<and> j = i + length u \<and> (\<forall>c \<in> set u. p c)) \<longleftrightarrow>
      (t = c # s \<and> j = i) \<or> (p c \<and> (\<exists>u. s = u @ t \<and> j = Suc i + length u \<and> (\<forall>c \<in> set u. p c)))"
    (is "?L \<longleftrightarrow> ?R")
  proof
    assume ?L
    then obtain u where u: "c # s = u @ t" "j = i + length u" "\<forall>c \<in> set u. p c" by blast
    then show ?R by (cases u) auto
  next
    assume ?R
    then show ?L
    proof
      assume "p c \<and> (\<exists>u. s = u @ t \<and> j = Suc i + length u \<and> (\<forall>c \<in> set u. p c))"
      then obtain u where "p c" "s = u @ t" "j = Suc i + length u" "\<forall>c \<in> set u. p c" by blast
      then show ?L by (intro exI [of _ "c # u"]) simp
    qed (intro exI [of _ "[]"], simp)
  qed
  with Cons show ?case by auto
qed auto

lemma lazy_cls_set: "set (lazy_cls p i s cs) = set (star_cls p i s cs)"
  by (induction s arbitrary: i) auto

lemma lazy_cls_iff:
  "(j, t, ds) \<in> set (lazy_cls p i s cs) \<longleftrightarrow>
     ds = cs \<and> (\<exists>u. s = u @ t \<and> j = i + length u \<and> (\<forall>c \<in> set u. p c))"
  by (simp add: lazy_cls_set star_cls_iff)

section \<open>Moving the subject\<close>

text \<open>
  A pattern without \<open>^\<close> does not see where it stands: with a prefix \<open>u\<close> before the subject
  all positions move by its length.
\<close>

fun bol_free :: "re \<Rightarrow> bool" where
  "bol_free (Seq a b) \<longleftrightarrow> bol_free a \<and> bol_free b"
| "bol_free (Alt a b) \<longleftrightarrow> bol_free a \<and> bol_free b"
| "bol_free (Star a) \<longleftrightarrow> bol_free a"
| "bol_free (Lazy a) \<longleftrightarrow> bol_free a"
| "bol_free (Grp n a) \<longleftrightarrow> bol_free a"
| "bol_free Bol \<longleftrightarrow> False"
| "bol_free _ \<longleftrightarrow> True"

fun shift :: "nat \<Rightarrow> mstate \<Rightarrow> mstate" where
  "shift d (i, s, cs) = (i + d, s, cs)"

lemma rm_shift: "bol_free r \<Longrightarrow> rm r (shift d st) = map (shift d) (rm r st)"
proof (induction r st rule: rm.induct)
  case (2 p i s cs)
  then show ?case by (auto simp: rm.simps split: list.splits)
next
  case (3 a b st)
  have "rm (Seq a b) (shift d st) = concat (map (rm b) (map (shift d) (rm a st)))"
    using 3 by (simp add: rm.simps)
  also have "map (rm b) (map (shift d) (rm a st)) = map (\<lambda>m. map (shift d) (rm b m)) (rm a st)"
    using "3.IH"(2) "3.prems" by simp
  also have "concat \<dots> = map (shift d) (rm (Seq a b) st)"
    by (simp add: rm.simps map_concat o_def)
  finally show ?case .
next
  case (5 a i s cs)
  let ?ms = "rm a (i, s, clear (groups a) cs)"
  let ?G = "\<lambda>(i', s', cs'). if length s' < length s then rm (Star a) (i', s', cs') else []"
  have a: "rm a (i + d, s, clear (groups a) cs) = map (shift d) ?ms"
    using "5.IH"(1) "5.prems" by simp
  have again: "?G (shift d m) = map (shift d) (?G m)" if "m \<in> set ?ms" for m
    using "5.IH"(2) "5.prems" that by (cases m) auto
  have "rm (Star a) (i + d, s, cs) = concat (map ?G (map (shift d) ?ms)) @ [(i + d, s, cs)]"
    by (subst rm.simps(5)) (simp only: a)
  also have "\<dots> = concat (map (\<lambda>m. map (shift d) (?G m)) ?ms) @ [(i + d, s, cs)]"
    using again by (simp add: o_def cong: map_cong)
  also have "\<dots> = map (shift d) (rm (Star a) (i, s, cs))"
    by (subst rm.simps(5)) (simp add: map_concat o_def)
  finally show ?case by simp
next
  case (6 a i s cs)
  let ?ms = "rm a (i, s, clear (groups a) cs)"
  let ?G = "\<lambda>(i', s', cs'). if length s' < length s then rm (Lazy a) (i', s', cs') else []"
  have a: "rm a (i + d, s, clear (groups a) cs) = map (shift d) ?ms"
    using "6.IH"(1) "6.prems" by simp
  have again: "?G (shift d m) = map (shift d) (?G m)" if "m \<in> set ?ms" for m
    using "6.IH"(2) "6.prems" that by (cases m) auto
  have "rm (Lazy a) (i + d, s, cs) = (i + d, s, cs) # concat (map ?G (map (shift d) ?ms))"
    by (subst rm.simps(6)) (simp only: a)
  also have "\<dots> = (i + d, s, cs) # concat (map (\<lambda>m. map (shift d) (?G m)) ?ms)"
    using again by (simp add: o_def cong: map_cong)
  also have "\<dots> = map (shift d) (rm (Lazy a) (i, s, cs))"
    by (subst rm.simps(6)) (simp add: map_concat o_def)
  finally show ?case by simp
next
  case (7 n a i s cs)
  have a: "rm a (i + d, s, cs) = map (shift d) (rm a (i, s, cs))"
    using "7.IH" "7.prems" by simp
  show ?case by (auto simp: rm.simps(7) a)
next
  case (8 n i s cs)
  then show ?case by (auto simp: rm.simps split: option.splits)
qed (auto simp: rm.simps)

lemma match_at_shift:
  assumes "bol_free r"
  shows "match_at r (u @ s) (length u + k) = map_option (\<lambda>(j, cs). (length u + j, cs)) (match_at r s k)"
proof -
  have "rm r (length u + k, drop k s, []) = map (shift (length u)) (rm r (k, drop k s, []))"
    using rm_shift [OF assms, of "length u" "(k, drop k s, [])"] by (simp add: add.commute)
  then show ?thesis
    by (cases "rm r (k, drop k s, [])") (auto simp: match_at_def)
qed

definition shift_match :: "nat \<Rightarrow> nat \<times> nat \<times> caps \<Rightarrow> nat \<times> nat \<times> caps" where
  "shift_match d m = (case m of (a, b, cs) \<Rightarrow> (d + a, d + b, cs))"

lemma exec_from_shift:
  "bol_free r \<Longrightarrow> exec_from r (u @ s) (length u + k) = map_option (shift_match (length u)) (exec_from r s k)"
proof (induction r s k rule: exec_from.induct)
  case (1 r s k)
  show ?case
  proof (cases "match_at r s k")
    case None
    with 1 show ?thesis
      by (simp add: exec_from.simps [of r s k] exec_from.simps [of r "u @ s" "length u + k"] match_at_shift)
  next
    case (Some p)
    with 1 show ?thesis
      by (cases p) (simp add: exec_from.simps [of r s k] exec_from.simps [of r "u @ s" "length u + k"]
          match_at_shift shift_match_def)
  qed
qed

lemma matches_from_unfold:
  "matches_from r s k =
     (case exec_from r s k of None \<Rightarrow> []
      | Some (a, b, cs) \<Rightarrow> (a, b, cs) # matches_from r s (if b \<le> a then Suc a else b))"
  by (subst matches_from.simps) (auto split: option.splits dest!: exec_from_bounds)

lemma matches_from_shift:
  "bol_free r \<Longrightarrow> matches_from r (u @ s) (length u + k) = map (shift_match (length u)) (matches_from r s k)"
proof (induction r s k rule: matches_from.induct)
  case (1 r s k)
  show ?case
  proof (cases "exec_from r s k")
    case None
    with 1 show ?thesis
      by (simp add: matches_from_unfold [of r s k] matches_from_unfold [of r "u @ s" "length u + k"] exec_from_shift)
  next
    case (Some m)
    obtain a b cs where m: "m = (a, b, cs)" by (cases m)
    have bounds: "k \<le> a" "a \<le> b" "b \<le> length s"
      using exec_from_bounds Some m by blast+
    then have "matches_from r (u @ s) (length u + (if b \<le> a then Suc a else b)) =
        map (shift_match (length u)) (matches_from r s (if b \<le> a then Suc a else b))"
      using "1.IH" [OF Some m [symmetric] refl] "1.prems" by simp
    moreover have "(if length u + b \<le> length u + a then Suc (length u + a) else length u + b) =
        length u + (if b \<le> a then Suc a else b)" by simp
    ultimately show ?thesis
      using Some m "1.prems"
      by (simp add: matches_from_unfold [of r s k] matches_from_unfold [of r "u @ s" "length u + k"]
          exec_from_shift shift_match_def del: if_split)
  qed
qed

lemma exec_from_none_before:
  "\<forall>j < n. match_at r s j = None \<Longrightarrow> n \<le> length s \<Longrightarrow> exec_from r s 0 = exec_from r s n"
proof (induction n)
  case (Suc n)
  then show ?case using exec_from_skip [of n s r] by simp
qed simp

lemma matches_from_none_before:
  "\<forall>j < n. match_at r s j = None \<Longrightarrow> n \<le> length s \<Longrightarrow> matches_from r s 0 = matches_from r s n"
  using exec_from_none_before [of n r s]
  by (simp add: matches_from_unfold [of r s 0] matches_from_unfold [of r s n])

definition shift_paste :: "nat \<Rightarrow> (nat \<times> nat) \<times> 'a \<Rightarrow> (nat \<times> nat) \<times> 'a" where
  "shift_paste d m = (case m of ((a, b), t) \<Rightarrow> ((d + a, d + b), t))"

lemma paste_shift: "paste (u @ s) (length u + k) (map (shift_paste (length u)) ms) = paste s k ms"
  by (induction s k ms rule: paste.induct) (auto simp: shift_paste_def)

lemma paste_prefix: "paste (u @ s) 0 (map (shift_paste (length u)) ms) = u @ paste s 0 ms"
  using paste_shift [of u s _ "tl ms"]
  by (cases ms) (auto simp: shift_paste_def)

section \<open>The language of a pattern\<close>

text \<open>Without regard to captures: \<open>L u\<close> when the pattern can match \<open>u\<close>.\<close>

definition recognizes :: "re \<Rightarrow> (string \<Rightarrow> bool) \<Rightarrow> bool" where
  "recognizes r L \<longleftrightarrow>
     (\<forall>i s cs t. (\<exists>j ds. (j, t, ds) \<in> set (rm r (i, s, cs))) \<longleftrightarrow> (\<exists>u. s = u @ t \<and> L u))"

lemma recognizes_nonempty:
  "recognizes r L \<Longrightarrow> (\<exists>m\<in>set (rm r (i, s, cs)). P (fst (snd m))) \<longleftrightarrow> (\<exists>u t. s = u @ t \<and> L u \<and> P t)"
  unfolding recognizes_def by (metis fst_conv snd_conv surj_pair)

lemma recognizes_Lit: "recognizes (Lit w) (\<lambda>u. u = w)"
  unfolding recognizes_def
proof (intro allI iffI)
  fix i s cs t
  assume "\<exists>j ds. (j, t, ds) \<in> set (rm (Lit w) (i, s, cs))"
  then have "take (length w) s = w" "t = drop (length w) s" by (auto simp: rm_Lit split: if_splits)
  then show "\<exists>u. s = u @ t \<and> u = w" by (metis append_take_drop_id)
qed (auto simp: rm_Lit)

lemma recognizes_Cls: "recognizes (Cls p) (\<lambda>u. \<exists>c. u = [c] \<and> p c)"
  unfolding recognizes_def by (auto simp: rm.simps(2) split: list.splits if_splits)

lemma recognizes_Star_Cls: "recognizes (Star (Cls p)) (\<lambda>u. \<forall>c\<in>set u. p c)"
  unfolding recognizes_def rm_Star_Cls star_cls_iff by blast

lemma recognizes_Eps: "recognizes Eps (\<lambda>u. u = [])"
  unfolding recognizes_def by (auto simp: rm.simps(1))

lemma recognizes_Alt: "recognizes a L \<Longrightarrow> recognizes b M \<Longrightarrow> recognizes (Alt a b) (\<lambda>u. L u \<or> M u)"
  unfolding recognizes_def
proof (intro allI)
  fix i s cs t
  assume ab: "\<forall>i s cs t. (\<exists>j ds. (j, t, ds) \<in> set (rm a (i, s, cs))) \<longleftrightarrow> (\<exists>u. s = u @ t \<and> L u)"
    "\<forall>i s cs t. (\<exists>j ds. (j, t, ds) \<in> set (rm b (i, s, cs))) \<longleftrightarrow> (\<exists>u. s = u @ t \<and> M u)"
  have "(\<exists>j ds. (j, t, ds) \<in> set (rm (Alt a b) (i, s, cs))) \<longleftrightarrow>
      (\<exists>j ds. (j, t, ds) \<in> set (rm a (i, s, cs))) \<or> (\<exists>j ds. (j, t, ds) \<in> set (rm b (i, s, cs)))"
    by (auto simp: rm.simps(4))
  also have "\<dots> \<longleftrightarrow> (\<exists>u. s = u @ t \<and> L u) \<or> (\<exists>u. s = u @ t \<and> M u)"
    by (simp only: ab(1) [rule_format, of t i s cs] ab(2) [rule_format, of t i s cs])
  finally show "(\<exists>j ds. (j, t, ds) \<in> set (rm (Alt a b) (i, s, cs))) \<longleftrightarrow> (\<exists>u. s = u @ t \<and> (L u \<or> M u))"
    by (simp only: conj_disj_distribL ex_disj_distrib)
qed

lemma recognizes_Seq:
  assumes "recognizes a L" "recognizes b M"
  shows "recognizes (Seq a b) (\<lambda>u. \<exists>v w. u = v @ w \<and> L v \<and> M w)"
  unfolding recognizes_def
proof (intro allI)
  fix i s cs t
  have "(\<exists>j ds. (j, t, ds) \<in> set (rm (Seq a b) (i, s, cs))) \<longleftrightarrow>
      (\<exists>m\<in>set (rm a (i, s, cs)). \<exists>j ds. (j, t, ds) \<in> set (rm b m))"
    by (auto simp: rm.simps(3))
  also have "\<dots> \<longleftrightarrow> (\<exists>m\<in>set (rm a (i, s, cs)). \<exists>w. fst (snd m) = w @ t \<and> M w)"
    using assms(2) unfolding recognizes_def by (metis prod.collapse)
  also have "\<dots> \<longleftrightarrow> (\<exists>u q. s = u @ q \<and> L u \<and> (\<exists>w. q = w @ t \<and> M w))"
    by (rule recognizes_nonempty [OF assms(1)])
  also have "\<dots> \<longleftrightarrow> (\<exists>u. s = u @ t \<and> (\<exists>v w. u = v @ w \<and> L v \<and> M w))"
  proof
    assume "\<exists>u q. s = u @ q \<and> L u \<and> (\<exists>w. q = w @ t \<and> M w)"
    then obtain u w where "s = (u @ w) @ t" "L u" "M w" by auto
    then show "\<exists>u. s = u @ t \<and> (\<exists>v w. u = v @ w \<and> L v \<and> M w)" by blast
  next
    assume "\<exists>u. s = u @ t \<and> (\<exists>v w. u = v @ w \<and> L v \<and> M w)"
    then obtain v w where "s = v @ (w @ t)" "L v" "M w" by auto
    then show "\<exists>u q. s = u @ q \<and> L u \<and> (\<exists>w. q = w @ t \<and> M w)" by blast
  qed
  finally show "(\<exists>j ds. (j, t, ds) \<in> set (rm (Seq a b) (i, s, cs))) \<longleftrightarrow>
      (\<exists>u. s = u @ t \<and> (\<exists>v w. u = v @ w \<and> L v \<and> M w))" .
qed

lemma test_at: "j \<le> length s \<Longrightarrow> match_at r s j \<noteq> None \<Longrightarrow> test r s"
  by (auto simp: test_def exec_None_iff)

text \<open>A pattern between two boundaries, \<open>(^|p) r (p|$)\<close>.\<close>

definition bounded :: "(char \<Rightarrow> bool) \<Rightarrow> re \<Rightarrow> re" where
  "bounded p r = Seq (Grp 1 (Alt Bol (Cls p))) (Seq r (Grp 2 (Alt (Cls p) Eol)))"

lemma bounded_end:
  assumes "recognizes r L"
  shows "rm (Seq r (Grp 2 (Alt (Cls p) Eol))) (i, s, cs) \<noteq> [] \<longleftrightarrow> (\<exists>u b. s = u @ b \<and> L u \<and> (b = [] \<or> p (hd b)))"
proof -
  have e: "rm (Grp 2 (Alt (Cls p) Eol)) m \<noteq> [] \<longleftrightarrow> fst (snd m) = [] \<or> p (hd (fst (snd m)))" for m
    by (cases m) (auto simp: rm.simps(2,4,7,10) split: list.splits)
  have "rm (Seq r (Grp 2 (Alt (Cls p) Eol))) (i, s, cs) \<noteq> [] \<longleftrightarrow>
      (\<exists>m\<in>set (rm r (i, s, cs)). fst (snd m) = [] \<or> p (hd (fst (snd m))))"
    using e by (auto simp: rm.simps(3))
  also have "\<dots> \<longleftrightarrow> (\<exists>u b. s = u @ b \<and> L u \<and> (b = [] \<or> p (hd b)))"
    by (rule recognizes_nonempty [OF assms])
  finally show ?thesis .
qed

lemma bounded_test:
  assumes "recognizes r L"
  shows "test (bounded p r) s \<longleftrightarrow>
    (\<exists>a u b. s = a @ u @ b \<and> L u \<and> (a = [] \<or> p (last a)) \<and> (b = [] \<or> p (hd b)))"
proof -
  let ?stop_at = "\<lambda>t. \<exists>u b. t = u @ b \<and> L u \<and> (b = [] \<or> p (hd b))"
  have at: "match_at (bounded p r) s j \<noteq> None \<longleftrightarrow>
      (j = 0 \<and> ?stop_at s) \<or> (\<exists>c t. drop j s = c # t \<and> p c \<and> ?stop_at t)" for j
  proof -
    let ?e = "Seq r (Grp 2 (Alt (Cls p) Eol))"
    have "rm (bounded p r) (j, drop j s, []) \<noteq> [] \<longleftrightarrow>
      (j = 0 \<and> rm ?e (0, s, [(1, [])]) \<noteq> []) \<or>
      (\<exists>c t. drop j s = c # t \<and> p c \<and> rm ?e (Suc j, t, [(1, [c])]) \<noteq> [])"
      unfolding bounded_def
      by (subst rm.simps(3), subst rm.simps(7), subst rm.simps(4), cases "drop j s")
        (auto simp: rm.simps(2,9) split: if_splits)
    then show ?thesis by (simp add: match_at_None_iff bounded_end [OF assms])
  qed
  show ?thesis
  proof
    assume "test (bounded p r) s"
    then obtain j where "j \<le> length s" "match_at (bounded p r) s j \<noteq> None"
      by (auto simp: test_def exec_None_iff)
    then consider u b where "s = u @ b" "L u" "b = [] \<or> p (hd b)"
      | c u b where "drop j s = c # u @ b" "p c" "L u" "b = [] \<or> p (hd b)"
      unfolding at by blast
    then show "\<exists>a u b. s = a @ u @ b \<and> L u \<and> (a = [] \<or> p (last a)) \<and> (b = [] \<or> p (hd b))"
    proof cases
      case 1
      then have "s = [] @ u @ b \<and> L u \<and> ([] = [] \<or> p (last [])) \<and> (b = [] \<or> p (hd b))" by simp
      then show ?thesis by blast
    next
      case (2 c u b)
      then have "s = (take j s @ [c]) @ u @ b" by (metis append_Cons append_Nil append_assoc append_take_drop_id)
      with 2 show ?thesis by (metis last_snoc)
    qed
  next
    assume "\<exists>a u b. s = a @ u @ b \<and> L u \<and> (a = [] \<or> p (last a)) \<and> (b = [] \<or> p (hd b))"
    then obtain a u b where s: "s = a @ u @ b" "L u" "a = [] \<or> p (last a)" "b = [] \<or> p (hd b)" by blast
    show "test (bounded p r) s"
    proof (cases "a = []")
      case True
      then have "match_at (bounded p r) s 0 \<noteq> None" using s unfolding at by auto
      then show ?thesis by (rule test_at [OF le0])
    next
      case False
      then have d: "drop (length a - 1) s = last a # u @ b"
      proof -
        have "s = butlast a @ (last a # u @ b)" using s(1) False by simp
        then show ?thesis using append_eq_conv_conj [of "butlast a" "last a # u @ b" s] by simp
      qed
      then have "match_at (bounded p r) s (length a - 1) \<noteq> None" using s(2-4) False unfolding at by auto
      then show ?thesis by (rule test_at [rotated]) (simp add: s(1))
    qed
  qed
qed

end
