(* ===== verification/JS_URI.thy ===== *)
theory JS_URI
  imports JS_Prelude
begin

text \<open>
  \<open>encodeURIComponent\<close> and \<open>decodeURIComponent\<close> as the language defines them. Encoding takes
  code units below 256 (two bytes of UTF-8 at most). Decoding can produce any code unit, so
  its result is a list of numbers: bytes of a percent sequence are checked as UTF-8, and a
  code point above the basic plane becomes a surrogate pair.
\<close>

section \<open>Hexadecimal digits\<close>

definition hex_digit :: "nat \<Rightarrow> char" where
  "hex_digit n = (if n < 10 then char_of (48 + n) else char_of (55 + n))"

definition hex_value :: "char \<Rightarrow> nat option" where
  "hex_value c =
     (let n = code c in
      if 48 \<le> n \<and> n \<le> 57 then Some (n - 48)
      else if 65 \<le> n \<and> n \<le> 70 then Some (n - 55)
      else if 97 \<le> n \<and> n \<le> 102 then Some (n - 87) else None)"

definition percent :: "nat \<Rightarrow> string" where
  "percent b = [CHR ''%'', hex_digit (b div 16), hex_digit (b mod 16)]"

lemma hex_roundtrip: "n < 16 \<Longrightarrow> hex_value (hex_digit n) = Some n"
  by (auto simp: hex_value_def hex_digit_def Let_def code_char_of)

section \<open>Encoding\<close>

definition unreserved :: "char \<Rightarrow> bool" where
  "unreserved c \<longleftrightarrow> is_word c \<or> c \<in> set ''-.!~*'' \<or> code c \<in> {39, 40, 41}"

definition utf8 :: "nat \<Rightarrow> nat list" where
  "utf8 n = (if n < 128 then [n] else [192 + n div 64, 128 + n mod 64])"

definition encode_char :: "char \<Rightarrow> string" where
  "encode_char c = (if unreserved c then [c] else concat (map percent (utf8 (code c))))"

definition encodeURIComponent :: "string \<Rightarrow> string" where
  "encodeURIComponent s = concat (map encode_char s)"

section \<open>Decoding\<close>

text \<open>
  The number of bytes a first byte announces, the bits it carries, and the least code point
  that needs so many bytes.
\<close>

definition utf8_lead :: "nat \<Rightarrow> (nat \<times> nat \<times> nat) option" where
  "utf8_lead b =
     (if b < 128 then Some (1, b, 0)
      else if 192 \<le> b \<and> b < 224 then Some (2, b - 192, 128)
      else if 224 \<le> b \<and> b < 240 then Some (3, b - 224, 2048)
      else if 240 \<le> b \<and> b < 248 then Some (4, b - 240, 65536)
      else None)"

fun take_percent :: "string \<Rightarrow> (nat \<times> string) option" where
  "take_percent (p # x # y # s) =
     (if p = CHR ''%'' then
        (case (hex_value x, hex_value y) of
           (Some a, Some b) \<Rightarrow> Some (16 * a + b, s)
         | _ \<Rightarrow> None)
      else None)"
| "take_percent _ = None"

fun take_tail :: "nat \<Rightarrow> nat \<Rightarrow> string \<Rightarrow> (nat \<times> string) option" where
  "take_tail 0 v s = Some (v, s)"
| "take_tail (Suc n) v s =
     (case take_percent s of
        Some (b, s') \<Rightarrow> if 128 \<le> b \<and> b < 192 then take_tail n (64 * v + (b - 128)) s' else None
      | None \<Rightarrow> None)"

definition units_of :: "nat \<Rightarrow> nat list" where
  "units_of v =
     (if v < 65536 then [v]
      else [55296 + (v - 65536) div 1024, 56320 + (v - 65536) mod 1024])"

text \<open>One percent sequence: its code units and the rest, or a \<open>URIError\<close>.\<close>

definition decode_seq :: "string \<Rightarrow> (nat list \<times> string) option" where
  "decode_seq s =
     (case take_percent s of
        None \<Rightarrow> None
      | Some (b, s1) \<Rightarrow>
          (case utf8_lead b of
             None \<Rightarrow> None
           | Some (n, v0, least) \<Rightarrow>
               (case take_tail (n - 1) v0 s1 of
                  None \<Rightarrow> None
                | Some (v, s2) \<Rightarrow>
                    if v < least \<or> 1114111 < v \<or> 55296 \<le> v \<and> v < 57344 then None
                    else Some (units_of v, s2))))"

lemma take_percent_shorter: "take_percent s = Some (b, s') \<Longrightarrow> length s' < length s"
  by (induction s rule: take_percent.induct) (auto split: if_splits option.splits)

lemma take_tail_shorter: "take_tail n v s = Some (w, s') \<Longrightarrow> length s' \<le> length s"
proof (induction n v s rule: take_tail.induct)
  case (2 n v s)
  then show ?case by (fastforce split: option.splits if_splits dest: take_percent_shorter)
qed simp

lemma decode_seq_shorter: "decode_seq s = Some (us, s') \<Longrightarrow> length s' < length s"
  by (fastforce simp: decode_seq_def split: option.splits prod.splits if_splits
      dest: take_percent_shorter take_tail_shorter)

function decodeURIComponent :: "string \<Rightarrow> nat list result" where
  "decodeURIComponent [] = Inr []"
| "decodeURIComponent (c # s) =
     (if c = CHR ''%'' then
        (case decode_seq (c # s) of
           None \<Rightarrow> Inl URIError
         | Some (us, s') \<Rightarrow> bind_result (decodeURIComponent s') (\<lambda>vs. Inr (us @ vs)))
      else bind_result (decodeURIComponent s) (\<lambda>vs. Inr (code c # vs)))"
  by pat_completeness auto
termination
  by (relation "measure length") (auto dest!: decode_seq_shorter)

section \<open>Decoding undoes encoding\<close>

lemma take_percent_percent: "b < 256 \<Longrightarrow> take_percent (percent b @ s) = Some (b, s)"
  by (simp add: percent_def hex_roundtrip)

lemma decode_encode_char:
  "decodeURIComponent (encode_char c @ s) =
     bind_result (decodeURIComponent s) (\<lambda>vs. Inr (code c # vs))"
proof (cases "unreserved c")
  case True
  then have "c \<noteq> CHR ''%''" by (auto simp: unreserved_def is_word_def code_def)
  with True show ?thesis by (simp add: encode_char_def)
next
  case False
  have less: "code c < 256" by (rule code_less)
  obtain r where p: "encode_char c @ s = CHR ''%'' # r"
    using False by (cases "code c < 128") (auto simp: encode_char_def utf8_def percent_def)
  have "decode_seq (encode_char c @ s) = Some ([code c], s)"
  proof (cases "code c < 128")
    case True
    with False show ?thesis
      by (simp add: encode_char_def utf8_def decode_seq_def take_percent_percent utf8_lead_def units_of_def)
  next
    case big: False
    have "192 + code c div 64 < 256" "192 \<le> 192 + code c div 64" "192 + code c div 64 < 224"
      using less by auto
    moreover have "64 * (code c div 64) + code c mod 64 = code c" by simp
    moreover have "\<not> code c div 64 < 2" using big by simp
    ultimately show ?thesis using False big less
      by (simp add: encode_char_def utf8_def decode_seq_def take_percent_percent utf8_lead_def units_of_def)
  qed
  with p show ?thesis by simp
qed

lemma decode_encode_append:
  "decodeURIComponent (encodeURIComponent s @ t) =
     bind_result (decodeURIComponent t) (\<lambda>vs. Inr (map code s @ vs))"
proof (induction s)
  case Nil
  then show ?case by (cases "decodeURIComponent t") (simp_all add: encodeURIComponent_def)
next
  case (Cons c s)
  have "encodeURIComponent (c # s) @ t = encode_char c @ (encodeURIComponent s @ t)"
    by (simp add: encodeURIComponent_def)
  with Cons show ?case
    by (cases "decodeURIComponent t") (simp_all add: decode_encode_char del: decodeURIComponent.simps)
qed

lemma decode_encode: "decodeURIComponent (encodeURIComponent s) = Inr (map code s)"
  using decode_encode_append [of s "[]"] by simp

text \<open>An encoded component holds none of the characters that structure a query string.\<close>

lemma hex_digit_word: "n < 16 \<Longrightarrow> is_word (hex_digit n)"
  by (auto simp: is_word_def hex_digit_def Let_def code_char_of)

lemma encode_char_safe: "d \<in> set (encode_char c) \<Longrightarrow> unreserved d \<or> d = CHR ''%''"
proof -
  assume d: "d \<in> set (encode_char c)"
  have b: "b \<in> set (utf8 (code c)) \<Longrightarrow> b < 256" for b
    using code_less [of c] by (auto simp: utf8_def split: if_splits)
  have "b < 256 \<Longrightarrow> x \<in> set (percent b) \<Longrightarrow> unreserved x \<or> x = CHR ''%''" for b x
    by (auto simp: percent_def unreserved_def hex_digit_word less_mult_imp_div_less)
  with d b show ?thesis by (auto simp: encode_char_def split: if_splits)
qed

lemma encode_safe: "d \<in> set (encodeURIComponent s) \<Longrightarrow> unreserved d \<or> d = CHR ''%''"
  by (auto simp: encodeURIComponent_def dest: encode_char_safe)

lemma encode_no_delim: "CHR ''&'' \<notin> set (encodeURIComponent s) \<and> CHR ''='' \<notin> set (encodeURIComponent s) \<and>
    CHR ''+'' \<notin> set (encodeURIComponent s) \<and> CHR ''?'' \<notin> set (encodeURIComponent s)"
  by (auto dest!: encode_safe simp: unreserved_def is_word_def code_def)

end
