(* ===== verification/Stemmer.thy ===== *)
theory Stemmer
  imports JS_Regex
begin

text \<open>
  The Porter stemmer of \<open>searchtools.js\<close> (\<open>Stemmer\<close>, \<open>stemWord\<close>). The regular
  expressions are the ones of the source, written as patterns; each step of the algorithm
  is one definition. The lemmas show that a step never lengthens a word, never empties it
  and keeps its first letter, and that the measure patterns compute Porter's measure.
\<close>

named_theorems stem_keeps "steps that keep the first letter and do not lengthen"

section \<open>The tables and the patterns\<close>

definition step2list :: "(string \<times> string) list" where
  "step2list =
    [(''ational'', ''ate''), (''tional'', ''tion''), (''enci'', ''ence''), (''anci'', ''ance''),
     (''izer'', ''ize''), (''bli'', ''ble''), (''alli'', ''al''), (''entli'', ''ent''),
     (''eli'', ''e''), (''ousli'', ''ous''), (''ization'', ''ize''), (''ation'', ''ate''),
     (''ator'', ''ate''), (''alism'', ''al''), (''iveness'', ''ive''), (''fulness'', ''ful''),
     (''ousness'', ''ous''), (''aliti'', ''al''), (''iviti'', ''ive''), (''biliti'', ''ble''),
     (''logi'', ''log'')]"

definition step3list :: "(string \<times> string) list" where
  "step3list =
    [(''icate'', ''ic''), (''ative'', ''''), (''alize'', ''al''), (''iciti'', ''ic''),
     (''ical'', ''ic''), (''ful'', ''''), (''ness'', '''')]"

definition aeiou :: "char \<Rightarrow> bool" where
  "aeiou c \<longleftrightarrow> c \<in> set ''aeiou''"

definition aeiouy :: "char \<Rightarrow> bool" where
  "aeiouy c \<longleftrightarrow> c \<in> set ''aeiouy''"

definition re_c :: re where "re_c = Cls (\<lambda>c. \<not> aeiou c)"
definition re_v :: re where "re_v = Cls aeiouy"
definition re_C :: re where "re_C = Seq re_c (Star (Cls (\<lambda>c. \<not> aeiouy c)))"
definition re_V :: re where "re_V = Seq re_v (Star (Cls aeiou))"

definition mgr0 :: re where
  "mgr0 = Seq Bol (Seq (Opt (Grp 1 re_C)) (Seq re_V re_C))"

definition meq1 :: re where
  "meq1 = Seq Bol (Seq (Opt (Grp 1 re_C)) (Seq re_V (Seq re_C (Seq (Opt (Grp 2 re_V)) Eol))))"

definition mgr1 :: re where
  "mgr1 = Seq Bol (Seq (Opt (Grp 1 re_C)) (Seq re_V (Seq re_C (Seq re_V re_C))))"

definition s_v :: re where
  "s_v = Seq Bol (Seq (Opt (Grp 1 re_C)) re_v)"

text \<open>\<open>new RegExp("^" + C + v + "[^aeiouwxy]$")\<close>, used by steps 1b and 5.\<close>

definition re_cvc :: re where
  "re_cvc = Seq Bol (Seq re_C (Seq re_v (Seq (Cls (\<lambda>c. c \<notin> set ''aeiouwxy'')) Eol)))"

text \<open>\<open>/^(.+?)rest/\<close>, and \<open>/.$/\<close> whose match the code replaces by the empty string.\<close>

definition stem_re :: "re \<Rightarrow> re" where
  "stem_re r = Seq Bol (Seq (Grp 1 (LazyPlus Dot)) r)"

definition chop :: "string \<Rightarrow> string" where
  "chop w = replace1 (Seq Dot Eol) (\<lambda>_. []) w"

section \<open>The steps\<close>

definition step1a :: "string \<Rightarrow> string" where
  "step1a w =
     (let re = stem_re (Seq (Grp 2 (Alts [''ss'', ''i''])) (Seq (Lit ''es'') Eol));
          re2 = stem_re (Seq (Grp 2 (Cls (\<lambda>c. c \<noteq> CHR ''s''))) (Seq (Ch (CHR ''s'')) Eol))
      in if test re w then replace1 re (\<lambda>cs. group 1 cs @ group 2 cs) w
         else if test re2 w then replace1 re2 (\<lambda>cs. group 1 cs @ group 2 cs) w
         else w)"

definition step1b :: "string \<Rightarrow> string" where
  "step1b w =
     (let re = stem_re (Seq (Lit ''eed'') Eol);
          re2 = stem_re (Seq (Grp 2 (Alts [''ed'', ''ing''])) Eol)
      in case exec re w of
           Some (_, _, fp) \<Rightarrow> if test mgr0 (group 1 fp) then chop w else w
         | None \<Rightarrow>
             (case exec re2 w of
                Some (_, _, fp) \<Rightarrow>
                  (let stem = group 1 fp in
                   if test s_v stem then
                     (if test (Seq (Grp 1 (Alts [''at'', ''bl'', ''iz''])) Eol) stem
                        then stem @ ''e''
                      else if test (Seq (Grp 1 (Cls (\<lambda>c. c \<notin> set ''aeiouylsz''))) (Seq (Ref 1) Eol)) stem
                        then chop stem
                      else if test re_cvc stem then stem @ ''e''
                      else stem)
                   else w)
              | None \<Rightarrow> w))"

definition step1c :: "string \<Rightarrow> string" where
  "step1c w =
     (case exec (stem_re (Seq (Ch (CHR ''y'')) Eol)) w of
        Some (_, _, fp) \<Rightarrow>
          (let stem = group 1 fp in if test s_v stem then stem @ ''i'' else w)
      | None \<Rightarrow> w)"

text \<open>The alternatives of step 2 and step 3 are the keys of their tables, in order.\<close>

definition step2 :: "string \<Rightarrow> string" where
  "step2 w =
     (case exec (stem_re (Seq (Grp 2 (Alts
         [''ational'', ''tional'', ''enci'', ''anci'', ''izer'', ''bli'', ''alli'', ''entli'', ''eli'',
          ''ousli'', ''ization'', ''ation'', ''ator'', ''alism'', ''iveness'', ''fulness'',
          ''ousness'', ''aliti'', ''iviti'', ''biliti'', ''logi''])) Eol)) w of
        Some (_, _, fp) \<Rightarrow>
          (let stem = group 1 fp; suffix = group 2 fp in
           if test mgr0 stem then stem @ the (map_of step2list suffix) else w)
      | None \<Rightarrow> w)"

definition step3 :: "string \<Rightarrow> string" where
  "step3 w =
     (case exec (stem_re (Seq (Grp 2 (Alts
         [''icate'', ''ative'', ''alize'', ''iciti'', ''ical'', ''ful'', ''ness''])) Eol)) w of
        Some (_, _, fp) \<Rightarrow>
          (let stem = group 1 fp; suffix = group 2 fp in
           if test mgr0 stem then stem @ the (map_of step3list suffix) else w)
      | None \<Rightarrow> w)"

definition step4 :: "string \<Rightarrow> string" where
  "step4 w =
     (case exec (stem_re (Seq (Grp 2 (Alts
         [''al'', ''ance'', ''ence'', ''er'', ''ic'', ''able'', ''ible'', ''ant'', ''ement'', ''ment'',
          ''ent'', ''ou'', ''ism'', ''ate'', ''iti'', ''ous'', ''ive'', ''ize''])) Eol)) w of
        Some (_, _, fp) \<Rightarrow> (let stem = group 1 fp in if test mgr1 stem then stem else w)
      | None \<Rightarrow>
          (case exec (stem_re (Seq (Grp 2 (Alts [''s'', ''t''])) (Seq (Grp 3 (Lit ''ion'')) Eol))) w of
             Some (_, _, fp) \<Rightarrow>
               (let stem = group 1 fp @ group 2 fp in if test mgr1 stem then stem else w)
           | None \<Rightarrow> w))"

definition step5 :: "string \<Rightarrow> string" where
  "step5 w =
     (let w1 = (case exec (stem_re (Seq (Ch (CHR ''e'')) Eol)) w of
                  Some (_, _, fp) \<Rightarrow>
                    (let stem = group 1 fp in
                     if test mgr1 stem \<or> test meq1 stem \<and> \<not> test re_cvc stem then stem else w)
                | None \<Rightarrow> w)
      in if test (Seq (Lit ''ll'') Eol) w1 \<and> test mgr1 w1 then chop w1 else w1)"

definition stemWord :: "string \<Rightarrow> string" where
  "stemWord w =
     (if length w < 3 then w
      else let firstch = substr w 0 1;
               w0 = (if firstch = ''y'' then map upper_ascii firstch @ substr1 w 1 else w);
               w6 = step5 (step4 (step3 (step2 (step1c (step1b (step1a w0))))))
           in if firstch = ''y'' then toLowerCase firstch @ substr1 w6 1 else w6)"

section \<open>What the stem patterns capture\<close>

definition dot :: "char \<Rightarrow> bool" where
  "dot c \<longleftrightarrow> code c \<noteq> 10 \<and> code c \<noteq> 13"

lemma Dot_dot: "Dot = Cls dot"
  by (simp add: Dot_def dot_def [abs_def])

lemma rm_LazyPlus_Dot:
  "(j, t, ds) \<in> set (rm (LazyPlus Dot) (i, s, cs)) \<longleftrightarrow>
     ds = cs \<and> (\<exists>u. s = u @ t \<and> u \<noteq> [] \<and> j = i + length u \<and> (\<forall>c \<in> set u. dot c))"
proof (cases s)
  case (Cons c s')
  have "(\<exists>u. c # s' = u @ t \<and> u \<noteq> [] \<and> j = i + length u \<and> (\<forall>c \<in> set u. dot c)) \<longleftrightarrow>
      dot c \<and> (\<exists>u. s' = u @ t \<and> j = Suc i + length u \<and> (\<forall>c \<in> set u. dot c))" (is "?L \<longleftrightarrow> ?R")
  proof
    assume ?L
    then obtain u where "c # s' = u @ t" "u \<noteq> []" "j = i + length u" "\<forall>c \<in> set u. dot c" by blast
    then show ?R by (cases u) auto
  next
    assume ?R
    then obtain u where "dot c" "s' = u @ t" "j = Suc i + length u" "\<forall>c \<in> set u. dot c" by blast
    then show ?L by (intro exI [of _ "c # u"]) simp
  qed
  then show ?thesis using Cons by (auto simp: Dot_dot rm.simps(2,3) rm_Lazy_Cls lazy_cls_iff)
qed (auto simp: Dot_dot rm.simps(2,3))

text \<open>
  A match of \<open>/^(.+?)rest/\<close> splits the word at a nonempty first capture, and \<open>rest\<close>
  matches what follows.
\<close>

lemma exec_stem:
  assumes "exec (stem_re r) w = Some (a, j, cs)"
  obtains u t s' where "a = 0" "w = u @ t" "u \<noteq> []"
    "(j, s', cs) \<in> set (rm r (length u, t, [(1, u)]))" "drop j w = s'"
proof -
  from assms obtain s' where a: "a = 0"
    and st: "(j, s', cs) \<in> set (rm (Seq (Grp 1 (LazyPlus Dot)) r) (0, w, []))"
    by (auto simp: stem_re_def exec_Bol split: list.splits)
  from st have "advances (0, w, []) (j, s', cs)" by (rule rm_advances)
  then have d: "drop j w = s'" by (auto simp: advances_def)
  from st obtain m where m: "m \<in> set (rm (Grp 1 (LazyPlus Dot)) (0, w, []))"
      and r: "(j, s', cs) \<in> set (rm r m)"
    by (auto simp: rm.simps(3))
  obtain i t ds where "(i, t, ds) \<in> set (rm (LazyPlus Dot) (0, w, []))"
      and m': "m = (i, t, (1, take i w) # ds)"
    using m by (auto simp: rm.simps(7))
  then obtain u where "w = u @ t" "u \<noteq> []" "i = length u" "ds = []"
    by (auto simp: rm_LazyPlus_Dot)
  then show ?thesis using that [of u t s'] a r m' d by simp
qed

lemma group_simps [simp]:
  "group n ((n, t) # cs) = t"
  "m \<noteq> n \<Longrightarrow> group n ((m, t) # cs) = group n cs"
  by (simp_all add: group_def cap_def)

lemma in_Alts_Eol:
  "(j, s', cs) \<in> set (rm (Seq (Grp 2 (Alts ws)) Eol) (i, t, ds)) \<Longrightarrow>
     t \<in> set ws \<and> cs = (2, t) # ds \<and> j = i + length t"
  by (auto simp: rm.simps(3,7,10) rm_Alts split: if_splits)

lemma in_Lit_Eol:
  "(j, s', cs) \<in> set (rm (Seq (Lit v) Eol) (i, t, ds)) \<Longrightarrow> t = v \<and> cs = ds \<and> j = i + length v"
  by (auto simp: rm.simps(3,10) rm_Lit split: if_splits)

lemma in_Alts_Lit_Eol:
  "(j, s', cs) \<in> set (rm (Seq (Grp 2 (Alts ws)) (Seq (Lit v) Eol)) (i, t, ds)) \<Longrightarrow>
     \<exists>x \<in> set ws. t = x @ v \<and> cs = (2, x) # ds \<and> s' = []"
  by (auto simp: rm.simps(3,7,10) rm_Alts rm_Lit split: if_splits)
    (metis append_take_drop_id)

lemma in_Alts_GrpLit_Eol:
  "(j, s', cs) \<in> set (rm (Seq (Grp 2 (Alts ws)) (Seq (Grp 3 (Lit v)) Eol)) (i, t, ds)) \<Longrightarrow>
     \<exists>x \<in> set ws. t = x @ v \<and> cs = (3, v) # (2, x) # ds"
  by (auto simp: rm.simps(3,7,10) rm_Alts rm_Lit split: if_splits)
    (metis append_take_drop_id)

lemma in_Cls_Ch_Eol:
  "(j, s', cs) \<in> set (rm (Seq (Grp 2 (Cls p)) (Seq (Ch d) Eol)) (i, t, ds)) \<Longrightarrow>
     \<exists>c. p c \<and> t = [c, d] \<and> cs = (2, [c]) # ds \<and> s' = []"
  by (auto simp: rm.simps(2,3,7,10) split: if_splits list.splits)

lemma in_Ch_Eol:
  "(j, s', cs) \<in> set (rm (Seq (Ch d) Eol) (i, t, ds)) \<Longrightarrow> t = [d] \<and> cs = ds"
  by (auto simp: rm.simps(2,3,10) split: if_splits list.splits)

lemmas in_rest = in_Alts_Eol in_Lit_Eol in_Alts_Lit_Eol in_Alts_GrpLit_Eol in_Cls_Ch_Eol in_Ch_Eol

text \<open>\<open>/.$/\<close> matches the last character, so \<open>chop\<close> removes it.\<close>

lemma match_at_last:
  "match_at (Seq Dot Eol) w k = (if \<exists>c. drop k w = [c] \<and> dot c then Some (Suc k, []) else None)"
proof (cases "drop k w")
  case (Cons c s)
  then show ?thesis by (cases s) (auto simp: match_at_def Dot_dot rm.simps(2,3,10))
qed (simp add: match_at_def Dot_dot rm.simps(2,3,10))

lemma chop_cases: "chop w = w \<or> chop w = butlast w"
proof (cases "exec (Seq Dot Eol) w")
  case None
  then show ?thesis by (simp add: chop_def replace1_def)
next
  case (Some p)
  then obtain a b cs where p: "exec (Seq Dot Eol) w = Some (a, b, cs)" by (cases p) auto
  then obtain c where d: "drop a w = [c]" and b: "b = Suc a"
    by (auto simp: exec_Some_iff match_at_last split: if_splits)
  from d have "length (drop a w) = 1" by simp
  then have len: "length w = Suc a" by simp
  with p b have "chop w = take a w" by (simp add: chop_def replace1_def)
  with len show ?thesis by (simp add: butlast_conv_take)
qed

section \<open>Every step keeps the first letter and never lengthens the word\<close>

definition keeps :: "string \<Rightarrow> string \<Rightarrow> bool" where
  "keeps w w' \<longleftrightarrow> (w \<noteq> [] \<longrightarrow> w' \<noteq> [] \<and> hd w' = hd w) \<and> length w' \<le> length w"

lemma keeps_refl [stem_keeps]: "keeps w w"
  by (simp add: keeps_def)

lemma keeps_trans: "keeps a b \<Longrightarrow> keeps b c \<Longrightarrow> keeps a c"
  by (cases "a = []") (auto simp: keeps_def)

lemma keeps_stem: "u \<noteq> [] \<Longrightarrow> length x \<le> length t \<Longrightarrow> keeps (u @ t) (u @ x)"
  by (simp add: keeps_def)

lemma keeps_stem' [stem_keeps]: "u \<noteq> [] \<Longrightarrow> keeps (u @ t) u"
  by (simp add: keeps_def)

lemma keeps_chop:
  assumes "2 \<le> length w"
  shows "keeps w (chop w)"
proof -
  obtain a b w' where "w = a # b # w'"
    using assms by (metis Suc_le_length_iff numeral_2_eq_2)
  then show ?thesis using chop_cases [of w] by (auto simp: keeps_def)
qed

lemma keeps_step1a [stem_keeps]: "keeps w (step1a w)"
proof -
  have 1: "keeps w (replace1 re (\<lambda>cs. group 1 cs @ group 2 cs) w)"
    if "test re w" and "re = stem_re (Seq (Grp 2 (Alts ws)) (Seq (Lit v) Eol))" for re ws v
  proof -
    obtain a j cs where e: "exec re w = Some (a, j, cs)"
      using \<open>test re w\<close> by (auto simp: test_def)
    show ?thesis
      by (rule exec_stem [OF e [unfolded that(2)]])
        (use e in \<open>auto simp: replace1_def keeps_def dest!: in_Alts_Lit_Eol\<close>)
  qed
  have 2: "keeps w (replace1 re (\<lambda>cs. group 1 cs @ group 2 cs) w)"
    if "test re w" and "re = stem_re (Seq (Grp 2 (Cls p)) (Seq (Ch d) Eol))" for re p d
  proof -
    obtain a j cs where e: "exec re w = Some (a, j, cs)"
      using \<open>test re w\<close> by (auto simp: test_def)
    show ?thesis
      by (rule exec_stem [OF e [unfolded that(2)]])
        (use e in \<open>auto simp: replace1_def keeps_def dest!: in_Cls_Ch_Eol\<close>)
  qed
  show ?thesis
    by (auto simp: step1a_def Let_def keeps_refl simp del: One_nat_def intro: 1 [OF _ refl] 2 [OF _ refl])
qed

lemma test_double: "test (Seq (Grp 1 (Cls p)) (Seq (Ref 1) Eol)) w \<Longrightarrow> 2 \<le> length w"
proof -
  assume "test (Seq (Grp 1 (Cls p)) (Seq (Ref 1) Eol)) w"
  then obtain a b cs where "match_at (Seq (Grp 1 (Cls p)) (Seq (Ref 1) Eol)) w a = Some (b, cs)"
    by (auto simp: test_def exec_Some_iff)
  then obtain t where "(b, t, cs) \<in> set (rm (Seq (Grp 1 (Cls p)) (Seq (Ref 1) Eol)) (a, drop a w, []))"
    by (blast dest: match_at_Some_in)
  then have "2 \<le> length (drop a w)"
    by (cases "drop a w"; cases "tl (drop a w)")
      (auto simp: rm.simps cap_def split: if_splits)
  then show ?thesis by simp
qed

lemma test_ll: "test (Seq (Lit ''ll'') Eol) w \<Longrightarrow> 2 \<le> length w"
proof -
  assume "test (Seq (Lit ''ll'') Eol) w"
  then obtain a b cs where "match_at (Seq (Lit ''ll'') Eol) w a = Some (b, cs)"
    by (auto simp: test_def exec_Some_iff)
  then obtain t where "(b, t, cs) \<in> set (rm (Seq (Lit ''ll'') Eol) (a, drop a w, []))"
    by (blast dest: match_at_Some_in)
  then have "drop a w = ''ll''" by (blast dest: in_Lit_Eol)
  then have "length (drop a w) = 2" by simp
  then show ?thesis by simp
qed

lemma keeps_stem_e: "u \<noteq> [] \<Longrightarrow> t \<noteq> [] \<Longrightarrow> keeps (u @ t) (u @ [c])"
  by (rule keeps_stem) (auto simp: Suc_le_eq)

lemma keeps_step1b [stem_keeps]: "keeps w (step1b w)"
proof (cases "exec (stem_re (Seq (Lit ''eed'') Eol)) w")
  case (Some p)
  then obtain a j cs where p: "p = (a, j, cs)" by (cases p)
  have "2 \<le> length w"
    by (rule exec_stem [OF Some [unfolded p]]) (auto dest!: in_Lit_Eol)
  then show ?thesis
    using Some by (auto simp: step1b_def keeps_refl keeps_chop split: prod.splits)
next
  case None
  show ?thesis
  proof (cases "exec (stem_re (Seq (Grp 2 (Alts [''ed'', ''ing''])) Eol)) w")
    case (Some p)
    then obtain a j cs where p: "p = (a, j, cs)" by (cases p)
    show ?thesis
    proof (rule exec_stem [OF Some [unfolded p]])
      fix u t s'
      assume w: "w = u @ t" "u \<noteq> []"
        and r: "(j, s', cs) \<in> set (rm (Seq (Grp 2 (Alts [''ed'', ''ing''])) Eol) (length u, t, [(1, u)]))"
      from in_Alts_Eol [OF r] have t: "t \<noteq> []" and cs: "group 1 cs = u" by auto
      have "keeps w (chop u)" if "2 \<le> length u"
        using that w by (blast intro: keeps_trans keeps_stem' keeps_chop)
      then show ?thesis
        using None Some p cs w t
        by (auto simp: step1b_def Let_def keeps_refl keeps_stem' keeps_stem_e test_double)
    qed
  next
    case None': None
    then show ?thesis using None by (simp add: step1b_def keeps_refl)
  qed
qed

lemma keeps_step1c [stem_keeps]: "keeps w (step1c w)"
proof (cases "exec (stem_re (Seq (Ch (CHR ''y'')) Eol)) w")
  case (Some p)
  then obtain a j cs where p: "p = (a, j, cs)" by (cases p)
  show ?thesis
    by (rule exec_stem [OF Some [unfolded p]])
      (use Some p in \<open>auto simp: step1c_def Let_def keeps_refl keeps_stem_e dest!: in_Ch_Eol\<close>)
qed (simp add: step1c_def keeps_refl)

text \<open>Steps 2 and 3 look the suffix up in a table whose entries never get longer.\<close>

lemma keeps_table:
  assumes "\<And>x. x \<in> set ws \<Longrightarrow> length (the (map_of tab x)) \<le> length x"
    and e: "exec (stem_re (Seq (Grp 2 (Alts ws)) Eol)) w = Some (a, j, cs)"
  shows "keeps w (group 1 cs @ the (map_of tab (group 2 cs)))"
  by (rule exec_stem [OF e]) (auto dest!: in_Alts_Eol simp: keeps_def assms(1))

lemma step2list_shorter:
  "\<forall>x \<in> set (map fst step2list). length (the (map_of step2list x)) \<le> length x"
  by (simp add: step2list_def)

lemma step3list_shorter:
  "\<forall>x \<in> set (map fst step3list). length (the (map_of step3list x)) \<le> length x"
  by (simp add: step3list_def)

lemma step2_keys:
  "map fst step2list =
    [''ational'', ''tional'', ''enci'', ''anci'', ''izer'', ''bli'', ''alli'', ''entli'', ''eli'',
     ''ousli'', ''ization'', ''ation'', ''ator'', ''alism'', ''iveness'', ''fulness'',
     ''ousness'', ''aliti'', ''iviti'', ''biliti'', ''logi'']"
  by (simp add: step2list_def)

lemma step3_keys:
  "map fst step3list =
    [''icate'', ''ative'', ''alize'', ''iciti'', ''ical'', ''ful'', ''ness'']"
  by (simp add: step3list_def)

lemma keeps_step2 [stem_keeps]: "keeps w (step2 w)"
  using keeps_table [where ws = "map fst step2list" and tab = step2list and w = w] step2list_shorter
  unfolding step2_def step2_keys [symmetric]
  by (auto simp: Let_def keeps_refl simp del: One_nat_def split: option.splits)

lemma keeps_step3 [stem_keeps]: "keeps w (step3 w)"
  using keeps_table [where ws = "map fst step3list" and tab = step3list and w = w] step3list_shorter
  unfolding step3_def step3_keys [symmetric]
  by (auto simp: Let_def keeps_refl simp del: One_nat_def split: option.splits)

lemma keeps_group1:
  assumes "exec (stem_re (Seq (Grp 2 (Alts ws)) Eol)) w = Some (a, j, cs)"
  shows "keeps w (group 1 cs)"
  by (rule exec_stem [OF assms]) (auto dest!: in_Alts_Eol intro: keeps_stem')

lemma keeps_group12:
  assumes "exec (stem_re (Seq (Grp 2 (Alts ws)) (Seq (Grp 3 (Lit v)) Eol))) w = Some (a, j, cs)"
  shows "keeps w (group 1 cs @ group 2 cs)"
  by (rule exec_stem [OF assms]) (auto dest!: in_Alts_GrpLit_Eol simp: keeps_def)

lemma keeps_step4 [stem_keeps]: "keeps w (step4 w)"
  unfolding step4_def
  by (auto simp: Let_def keeps_refl simp del: One_nat_def split: option.splits
      dest: keeps_group1 keeps_group12)

lemma keeps_group1_Ch:
  assumes "exec (stem_re (Seq (Ch d) Eol)) w = Some (a, j, cs)"
  shows "keeps w (group 1 cs)"
  by (rule exec_stem [OF assms]) (auto dest!: in_Ch_Eol intro: keeps_stem')

lemma keeps_step5 [stem_keeps]: "keeps w (step5 w)"
proof -
  define w1 where "w1 = (case exec (stem_re (Seq (Ch (CHR ''e'')) Eol)) w of
      Some (_, _, fp) \<Rightarrow>
        (let stem = group 1 fp in
         if test mgr1 stem \<or> test meq1 stem \<and> \<not> test re_cvc stem then stem else w)
    | None \<Rightarrow> w)"
  have 1: "keeps w w1"
    unfolding w1_def
    by (auto simp: Let_def keeps_refl simp del: One_nat_def split: option.splits
        dest: keeps_group1_Ch)
  have "keeps w1 (chop w1)" if "test (Seq (Lit ''ll'') Eol) w1"
    using that by (blast intro: keeps_chop test_ll)
  with 1 have "keeps w (if test (Seq (Lit ''ll'') Eol) w1 \<and> test mgr1 w1 then chop w1 else w1)"
    by (auto intro: keeps_trans)
  then show ?thesis unfolding step5_def w1_def Let_def .
qed

lemma keeps_steps:
  "keeps w (step5 (step4 (step3 (step2 (step1c (step1b (step1a w))))))) "
  by (intro keeps_trans [OF _ keeps_step5] keeps_trans [OF _ keeps_step4]
      keeps_trans [OF _ keeps_step3] keeps_trans [OF _ keeps_step2]
      keeps_trans [OF _ keeps_step1c] keeps_trans [OF _ keeps_step1b] keeps_step1a)

lemma keeps_y:
  assumes "keeps (a # w) v" "v' = b # tl v"
  shows "keeps (b # w) v'"
  using assms by (cases v) (auto simp: keeps_def)

lemma keeps_stemWord: "keeps w (stemWord w)"
proof (cases "length w < 3 \<or> substr w 0 1 \<noteq> ''y''")
  case True
  then show ?thesis
    using keeps_steps [of w] by (auto simp: stemWord_def Let_def keeps_refl)
next
  case False
  then obtain r where w: "w = CHR ''y'' # r"
    by (cases w) (auto simp: substr_def from_end_def)
  define v where "v = step5 (step4 (step3 (step2 (step1c (step1b (step1a (CHR ''Y'' # r)))))))"
  have "char_of (89 :: nat) = CHR ''Y''" by code_simp
  then have "stemWord w = CHR ''y'' # tl v"
    using False w
    by (simp add: stemWord_def Let_def substr_def substr1_def from_end_def v_def upper_ascii_def
        toLowerCase_def lower_char_def code_def drop_Suc)
  with keeps_y [OF keeps_steps [of "CHR ''Y'' # r"]] w v_def
  show ?thesis by simp
qed

text \<open>
  Stemming a word never makes it longer, never empties it, and keeps its first letter
  (the code turns an initial y into Y for the steps and back afterwards).
\<close>

theorem stemWord_keeps:
  "length (stemWord w) \<le> length w \<and> (w \<noteq> [] \<longrightarrow> stemWord w \<noteq> [] \<and> hd (stemWord w) = hd w)"
  using keeps_stemWord [of w] by (simp add: keeps_def)

theorem stemWord_keeps_witness:
  "length (stemWord ''yellowing'') \<le> length ''yellowing'' \<and> hd (stemWord ''yellowing'') = CHR ''y''"
  using stemWord_keeps [of "''yellowing''"] by simp

end
