(* ===== verification/Stemmer_Measure.thy ===== *)
theory Stemmer_Measure
  imports Stemmer
begin

text \<open>
  The measure of the Porter stemmer. \<open>searchtools.js\<close> decides "\<open>m > 0\<close>", "\<open>m = 1\<close>" and
  "\<open>m > 1\<close>" with the regular expressions \<open>mgr0\<close>, \<open>meq1\<close> and \<open>mgr1\<close>; here the measure is
  defined as Porter's paper defines it, by reading the word once, and the expressions are
  shown to compute it.
\<close>

section \<open>Porter's measure\<close>

text \<open>
  A letter is a vowel if it is one of \<open>aeiou\<close>, or a \<open>y\<close> after a consonant; the measure
  counts the changes from a vowel to a consonant. The state remembers the letter before.
\<close>

datatype before = Start | Cons_before | Vowel_before

definition vowel_after :: "before \<Rightarrow> char \<Rightarrow> bool" where
  "vowel_after b c \<longleftrightarrow> aeiou c \<or> c = CHR ''y'' \<and> b = Cons_before"

fun porter_m :: "before \<Rightarrow> string \<Rightarrow> nat" where
  "porter_m b [] = 0"
| "porter_m b (c # s) =
     (if vowel_after b c then porter_m Vowel_before s
      else (if b = Vowel_before then 1 else 0) + porter_m Cons_before s)"

definition porter_measure :: "string \<Rightarrow> nat" where
  "porter_measure = porter_m Start"

lemma aeiouy_iff: "aeiouy c \<longleftrightarrow> aeiou c \<or> c = CHR ''y''"
  by (auto simp: aeiou_def aeiouy_def)

lemma porter_m_Vowel: "porter_m Vowel_before (c # s) =
    (if aeiou c then porter_m Vowel_before s else 1 + porter_m Cons_before s)"
  by (simp add: vowel_after_def)

lemma porter_m_Cons: "porter_m Cons_before (c # s) =
    (if aeiouy c then porter_m Vowel_before s else porter_m Cons_before s)"
  by (simp add: vowel_after_def aeiouy_iff)

lemma porter_m_Start: "porter_m Start (c # s) =
    (if aeiou c then porter_m Vowel_before s else porter_m Cons_before s)"
  by (simp add: vowel_after_def)

lemma skip_consonants: "(\<forall>c \<in> set u. \<not> aeiouy c) \<Longrightarrow> porter_m Cons_before (u @ t) = porter_m Cons_before t"
  by (induction u) (auto simp: porter_m_Cons simp del: porter_m.simps)

lemma skip_vowels: "(\<forall>c \<in> set u. aeiou c) \<Longrightarrow> porter_m Vowel_before (u @ t) = porter_m Vowel_before t"
  by (induction u) (auto simp: porter_m_Vowel simp del: porter_m.simps)

section \<open>What the pattern pieces match\<close>

definition in_C :: "string \<Rightarrow> bool" where
  "in_C u \<longleftrightarrow> (\<exists>c r. u = c # r \<and> \<not> aeiou c \<and> (\<forall>d \<in> set r. \<not> aeiouy d))"

definition in_V :: "string \<Rightarrow> bool" where
  "in_V u \<longleftrightarrow> (\<exists>c r. u = c # r \<and> aeiouy c \<and> (\<forall>d \<in> set r. aeiou d))"

lemma rm_cls_star:
  "(j, t, ds) \<in> set (rm (Seq (Cls p) (Star (Cls q))) (i, s, cs)) \<longleftrightarrow>
     ds = cs \<and> (\<exists>c r. s = (c # r) @ t \<and> j = i + length (c # r) \<and> p c \<and> (\<forall>d \<in> set r. q d))"
  by (cases s) (auto simp: rm.simps(2,3) rm_Star_Cls star_cls_iff)

lemma rm_C: "(j, t, ds) \<in> set (rm re_C (i, s, cs)) \<longleftrightarrow>
    ds = cs \<and> (\<exists>u. s = u @ t \<and> j = i + length u \<and> in_C u)"
  unfolding re_C_def re_c_def rm_cls_star in_C_def by fastforce

lemma rm_V: "(j, t, ds) \<in> set (rm re_V (i, s, cs)) \<longleftrightarrow>
    ds = cs \<and> (\<exists>u. s = u @ t \<and> j = i + length u \<and> in_V u)"
  unfolding re_V_def re_v_def rm_cls_star in_V_def by fastforce

text \<open>
  \<open>piece r P\<close>: the pattern can take the prefix \<open>u\<close> of \<open>u @ t\<close> exactly when \<open>P u t\<close>, at
  any position and with any captures.
\<close>

definition piece :: "re \<Rightarrow> (string \<Rightarrow> string \<Rightarrow> bool) \<Rightarrow> bool" where
  "piece r P \<longleftrightarrow>
     (\<forall>i s cs t. (\<exists>j ds. (j, t, ds) \<in> set (rm r (i, s, cs))) \<longleftrightarrow> (\<exists>u. s = u @ t \<and> P u t))"

lemma pieceD:
  "piece r P \<Longrightarrow> (j, t, ds) \<in> set (rm r (i, s, cs)) \<Longrightarrow> \<exists>u. s = u @ t \<and> P u t"
  unfolding piece_def by blast

lemma pieceE:
  assumes "piece r P" and "P u t"
  obtains j ds where "(j, t, ds) \<in> set (rm r (i, u @ t, cs))"
  using assms unfolding piece_def by blast

lemma pieceI:
  assumes "\<And>i s cs j t ds. (j, t, ds) \<in> set (rm r (i, s, cs)) \<Longrightarrow> \<exists>u. s = u @ t \<and> P u t"
    and "\<And>i u cs t. P u t \<Longrightarrow> \<exists>j ds. (j, t, ds) \<in> set (rm r (i, u @ t, cs))"
  shows "piece r P"
  using assms unfolding piece_def by blast

lemma piece_C: "piece re_C (\<lambda>u t. in_C u)"
  by (simp add: piece_def rm_C)

lemma piece_V: "piece re_V (\<lambda>u t. in_V u)"
  by (simp add: piece_def rm_V)

lemma piece_Eol: "piece Eol (\<lambda>u t. u = [] \<and> t = [])"
  by (auto simp: piece_def rm.simps(10))

lemma piece_Seq:
  assumes a: "piece a P" and b: "piece b Q"
  shows "piece (Seq a b) (\<lambda>u t. \<exists>v w. u = v @ w \<and> P v (w @ t) \<and> Q w t)"
proof (rule pieceI)
  fix i s cs j t ds
  assume "(j, t, ds) \<in> set (rm (Seq a b) (i, s, cs))"
  then obtain i' s' cs' where m: "(i', s', cs') \<in> set (rm a (i, s, cs))"
      and r: "(j, t, ds) \<in> set (rm b (i', s', cs'))"
    by (auto simp: rm.simps(3))
  obtain v where v: "s = v @ s'" "P v s'" using pieceD [OF a m] by blast
  obtain w where w: "s' = w @ t" "Q w t" using pieceD [OF b r] by blast
  have "s = (v @ w) @ t" using v(1) w(1) by simp
  moreover have "\<exists>v' w'. v @ w = v' @ w' \<and> P v' (w' @ t) \<and> Q w' t"
    using v(2) w by (intro exI [of _ v] exI [of _ w]) simp
  ultimately show "\<exists>u. s = u @ t \<and> (\<exists>v w. u = v @ w \<and> P v (w @ t) \<and> Q w t)"
    by blast
next
  fix i u cs t
  assume "\<exists>v w. u = v @ w \<and> P v (w @ t) \<and> Q w t"
  then obtain v w where u: "u = v @ w" and v: "P v (w @ t)" and w: "Q w t" by blast
  obtain i' cs' where m: "(i', w @ t, cs') \<in> set (rm a (i, v @ w @ t, cs))"
    by (rule pieceE [OF a v])
  obtain j ds where "(j, t, ds) \<in> set (rm b (i', w @ t, cs'))"
    by (rule pieceE [OF b w])
  with m u show "\<exists>j ds. (j, t, ds) \<in> set (rm (Seq a b) (i, u @ t, cs))"
    by (auto simp: rm.simps(3))
qed

lemma rm_Opt_Grp:
  "(\<exists>j ds. (j, t, ds) \<in> set (rm (Opt (Grp n a)) (i, s, cs))) \<longleftrightarrow>
     s = t \<or> (\<exists>j ds. (j, t, ds) \<in> set (rm a (i, s, cs)))"
proof -
  have "rm (Opt (Grp n a)) (i, s, cs) =
      map (\<lambda>(i', s', cs'). (i', s', (n, take (i' - i) s) # cs')) (rm a (i, s, cs)) @ [(i, s, cs)]"
    by (simp add: rm.simps(1,4,7))
  then have "set (rm (Opt (Grp n a)) (i, s, cs)) =
      (\<lambda>(i', s', cs'). (i', s', (n, take (i' - i) s) # cs')) ` set (rm a (i, s, cs)) \<union> {(i, s, cs)}"
    by simp
  then have "(j, t, ds) \<in> set (rm (Opt (Grp n a)) (i, s, cs)) \<longleftrightarrow> (j = i \<and> t = s \<and> ds = cs) \<or>
      (\<exists>cs'. (j, t, cs') \<in> set (rm a (i, s, cs)) \<and> ds = (n, take (j - i) s) # cs')" for j ds
    by (auto simp: image_iff)
  then show ?thesis by metis
qed

lemma piece_Opt_Grp:
  assumes "piece a P"
  shows "piece (Opt (Grp n a)) (\<lambda>u t. u = [] \<or> P u t)"
  using assms unfolding piece_def rm_Opt_Grp by auto

lemma test_piece:
  assumes "piece r P"
  shows "test (Seq Bol r) s \<longleftrightarrow> (\<exists>u t. s = u @ t \<and> P u t)"
proof -
  have "rm r (0, s, []) \<noteq> [] \<longleftrightarrow> (\<exists>t j ds. (j, t, ds) \<in> set (rm r (0, s, [])))"
    by (cases "rm r (0, s, [])") auto
  also have "\<dots> \<longleftrightarrow> (\<exists>t u. s = u @ t \<and> P u t)"
    using assms unfolding piece_def by simp
  finally show ?thesis by (auto simp: test_Bol)
qed

lemmas pieces = piece_Seq piece_Opt_Grp piece_C piece_V piece_Eol

section \<open>The patterns as decompositions\<close>

lemma ex_split:
  "(\<exists>u t. s = u @ t \<and> (\<exists>v w. u = v @ w \<and> P v \<and> Q w t)) \<longleftrightarrow>
     (\<exists>v r. s = v @ r \<and> P v \<and> (\<exists>w t. r = w @ t \<and> Q w t))"
  by (metis append.assoc)

lemma test_mgr0: "test mgr0 s \<longleftrightarrow>
    (\<exists>a r. s = a @ r \<and> (a = [] \<or> in_C a) \<and>
       (\<exists>b r'. r = b @ r' \<and> in_V b \<and> (\<exists>d t. r' = d @ t \<and> in_C d)))"
  unfolding mgr0_def by (subst test_piece, (rule pieces)+) (simp only: ex_split)

lemma test_mgr1: "test mgr1 s \<longleftrightarrow>
    (\<exists>a r. s = a @ r \<and> (a = [] \<or> in_C a) \<and>
       (\<exists>b q. r = b @ q \<and> in_V b \<and> (\<exists>d r'. q = d @ r' \<and> in_C d \<and>
         (\<exists>e r. r' = e @ r \<and> in_V e \<and> (\<exists>f t. r = f @ t \<and> in_C f)))))"
  unfolding mgr1_def by (subst test_piece, (rule pieces)+) (simp only: ex_split)

lemma test_mgr1I:
  assumes "a = [] \<or> in_C a" "in_V b" "in_C d" "in_V e" "in_C f"
  shows "test mgr1 (a @ b @ d @ e @ f @ t)"
proof -
  have "\<exists>g t'. f @ t = g @ t' \<and> in_C g" using assms(5) by blast
  then have "\<exists>v q. e @ f @ t = v @ q \<and> in_V v \<and> (\<exists>g t'. q = g @ t' \<and> in_C g)"
    using assms(4) by blast
  then have "\<exists>v q. d @ e @ f @ t = v @ q \<and> in_C v \<and>
      (\<exists>v r. q = v @ r \<and> in_V v \<and> (\<exists>g t'. r = g @ t' \<and> in_C g))"
    using assms(3) by blast
  then have "\<exists>v q. b @ d @ e @ f @ t = v @ q \<and> in_V v \<and> (\<exists>v r. q = v @ r \<and> in_C v \<and>
      (\<exists>v q. r = v @ q \<and> in_V v \<and> (\<exists>g t'. q = g @ t' \<and> in_C g)))"
    using assms(2) by (intro exI [of _ b] exI [of _ "d @ e @ f @ t"]) simp
  then show ?thesis unfolding test_mgr1
    using assms(1) by (intro exI [of _ a] exI [of _ "b @ d @ e @ f @ t"]) simp
qed

lemma test_meq1: "test meq1 s \<longleftrightarrow>
    (\<exists>a r. s = a @ r \<and> (a = [] \<or> in_C a) \<and>
       (\<exists>b r'. r = b @ r' \<and> in_V b \<and> (\<exists>d e. r' = d @ e \<and> in_C d \<and> (e = [] \<or> in_V e))))"
  unfolding meq1_def by (subst test_piece, (rule pieces)+) (simp only: ex_split, simp)

section \<open>Decompositions and the measure\<close>

lemma m_in_V: "in_V b \<Longrightarrow> porter_m Cons_before (b @ t) = porter_m Vowel_before t"
  by (auto simp: in_V_def porter_m_Cons skip_vowels simp del: porter_m.simps)

lemma m_in_C: "in_C d \<Longrightarrow> porter_m Vowel_before (d @ t) = 1 + porter_m Cons_before t"
  by (auto simp: in_C_def porter_m_Vowel skip_consonants simp del: porter_m.simps)

lemma m_start:
  assumes "a = [] \<or> in_C a" and "in_V b" and "a @ b \<noteq> [] \<Longrightarrow> hd (a @ b) \<noteq> CHR ''y''"
  shows "porter_m Start (a @ b @ t) = porter_m Vowel_before t"
proof (cases "a = []")
  case True
  with assms show ?thesis
    by (auto simp: in_V_def porter_m_Start aeiouy_iff skip_vowels simp del: porter_m.simps)
next
  case False
  with assms obtain c r where "a = c # r" "\<not> aeiou c" "\<forall>d \<in> set r. \<not> aeiouy d"
    by (auto simp: in_C_def)
  then have "porter_m Start (a @ b @ t) = porter_m Cons_before (b @ t)"
    by (simp add: porter_m_Start skip_consonants del: porter_m.simps)
  with assms(2) show ?thesis by (simp add: m_in_V)
qed

text \<open>A word whose measure is positive after a consonant has a \<open>VC\<close> block to take off.\<close>

lemma take_vowels:
  obtains u t where "s = u @ t" "\<forall>c \<in> set u. aeiou c" "t = [] \<or> \<not> aeiou (hd t)"
  using that [of "takeWhile aeiou s" "dropWhile aeiou s"]
  by (metis hd_dropWhile set_takeWhileD takeWhile_dropWhile_id)

lemma take_consonants:
  obtains u t where "s = u @ t" "\<forall>c \<in> set u. \<not> aeiouy c" "t = [] \<or> aeiouy (hd t)"
  using that [of "takeWhile (\<lambda>c. \<not> aeiouy c) s" "dropWhile (\<lambda>c. \<not> aeiouy c) s"]
  by (metis (mono_tags, lifting) hd_dropWhile set_takeWhileD takeWhile_dropWhile_id)

lemma in_V_I: "t \<noteq> [] \<Longrightarrow> aeiouy (hd t) \<Longrightarrow>
    \<exists>b r. t = b @ r \<and> in_V b \<and> (r = [] \<or> \<not> aeiou (hd r))"
proof -
  assume t: "t \<noteq> []" "aeiouy (hd t)"
  obtain u r where "tl t = u @ r" "\<forall>c \<in> set u. aeiou c" "r = [] \<or> \<not> aeiou (hd r)"
    by (rule take_vowels [of "tl t"])
  with t have "t = (hd t # u) @ r \<and> in_V (hd t # u) \<and> (r = [] \<or> \<not> aeiou (hd r))"
    by (cases t) (auto simp: in_V_def)
  then show ?thesis by blast
qed

lemma in_C_I: "t \<noteq> [] \<Longrightarrow> \<not> aeiou (hd t) \<Longrightarrow>
    \<exists>d r. t = d @ r \<and> in_C d \<and> (r = [] \<or> aeiouy (hd r))"
proof -
  assume t: "t \<noteq> []" "\<not> aeiou (hd t)"
  obtain u r where "tl t = u @ r" "\<forall>c \<in> set u. \<not> aeiouy c" "r = [] \<or> aeiouy (hd r)"
    by (rule take_consonants [of "tl t"])
  with t have "t = (hd t # u) @ r \<and> in_C (hd t # u) \<and> (r = [] \<or> aeiouy (hd r))"
    by (cases t) (auto simp: in_C_def)
  then show ?thesis by blast
qed

lemma m_Cons_V:
  assumes "porter_m Cons_before s = n" and "s = [] \<or> aeiouy (hd s)"
  shows "(s = [] \<or> in_V s) \<and> n = 0 \<or>
     (\<exists>b d t. s = b @ d @ t \<and> in_V b \<and> in_C d \<and> (t = [] \<or> aeiouy (hd t)) \<and>
        n = 1 + porter_m Cons_before t)"
proof (cases "s = []")
  case False
  with assms(2) obtain b r where b: "s = b @ r" "in_V b" "r = [] \<or> \<not> aeiou (hd r)"
    using in_V_I by blast
  show ?thesis
  proof (cases "r = []")
    case True
    with b assms(1) m_in_V [of b "[]"] show ?thesis by simp
  next
    case False
    with b(3) obtain d t where d: "r = d @ t" "in_C d" "t = [] \<or> aeiouy (hd t)"
      using in_C_I by blast
    have "n = 1 + porter_m Cons_before t"
      using assms(1) b d by (simp add: m_in_V m_in_C)
    with b d show ?thesis by blast
  qed
qed (use assms(1) in simp)

section \<open>The measure theorem\<close>

text \<open>A word that starts like the code's words do: not with a small \<open>y\<close>.\<close>

definition plain_start :: "string \<Rightarrow> bool" where
  "plain_start s \<longleftrightarrow> (s \<noteq> [] \<longrightarrow> hd s \<noteq> CHR ''y'')"

lemma m_two_blocks:
  assumes "a = [] \<or> in_C a" "in_V b" "in_C d" "plain_start (a @ b @ d @ t)"
  shows "porter_measure (a @ b @ d @ t) = 1 + porter_m Cons_before t"
proof -
  have "b \<noteq> []" using assms(2) by (auto simp: in_V_def)
  with assms have "a @ b \<noteq> [] \<Longrightarrow> hd (a @ b) \<noteq> CHR ''y''"
    by (auto simp: plain_start_def hd_append)
  from m_start [OF assms(1,2) this] assms(3) show ?thesis
    by (simp add: porter_measure_def m_in_C)
qed

lemma start_decomposition:
  assumes "plain_start s"
  obtains a r where "s = a @ r" "a = [] \<or> in_C a" "r = [] \<or> aeiouy (hd r)"
    "porter_measure s = porter_m Cons_before r"
proof (cases "s = [] \<or> aeiou (hd s)")
  case True
  then have "porter_measure s = porter_m Cons_before s"
    by (cases s) (auto simp: porter_measure_def vowel_after_def)
  with True show ?thesis using that [of "[]" s] by (auto simp: aeiouy_iff)
next
  case False
  then obtain d r where d: "s = d @ r" "in_C d" "r = [] \<or> aeiouy (hd r)"
    using in_C_I [of s] by auto
  then obtain c u where "d = c # u" "\<not> aeiou c" "\<forall>c \<in> set u. \<not> aeiouy c" by (auto simp: in_C_def)
  with d have "porter_measure s = porter_m Cons_before r"
    by (simp add: porter_measure_def porter_m_Start skip_consonants del: porter_m.simps)
  with d show ?thesis using that [of d r] by blast
qed

lemma mgr0_measure:
  assumes s: "plain_start s"
  shows "test mgr0 s \<longleftrightarrow> 0 < porter_measure s"
proof
  assume "test mgr0 s"
  then obtain a b d t where "s = a @ b @ d @ t" "a = [] \<or> in_C a" "in_V b" "in_C d"
    unfolding test_mgr0 by blast
  with s show "0 < porter_measure s" using m_two_blocks [of a b d t] by simp
next
  assume m: "0 < porter_measure s"
  obtain a r where a: "s = a @ r" "a = [] \<or> in_C a" "r = [] \<or> aeiouy (hd r)"
      "porter_measure s = porter_m Cons_before r"
    by (rule start_decomposition [OF s])
  from m_Cons_V [OF refl a(3)] m a(4) obtain b d t where "r = b @ d @ t" "in_V b" "in_C d" by auto
  with a(1,2) show "test mgr0 s" unfolding test_mgr0 by blast
qed

lemma mgr1_measure:
  assumes s: "plain_start s"
  shows "test mgr1 s \<longleftrightarrow> 1 < porter_measure s"
proof
  assume "test mgr1 s"
  then obtain a b d e f t where "s = a @ b @ d @ e @ f @ t" "a = [] \<or> in_C a"
      "in_V b" "in_C d" "in_V e" "in_C f"
    unfolding test_mgr1 by blast
  moreover from this have "porter_m Cons_before (e @ f @ t) = 1 + porter_m Cons_before t"
    by (simp add: m_in_V m_in_C)
  ultimately show "1 < porter_measure s" using s m_two_blocks [of a b d "e @ f @ t"] by simp
next
  assume m: "1 < porter_measure s"
  obtain a r where a: "s = a @ r" "a = [] \<or> in_C a" "r = [] \<or> aeiouy (hd r)"
      "porter_measure s = porter_m Cons_before r"
    by (rule start_decomposition [OF s])
  from m_Cons_V [OF refl a(3)] m a(4) obtain b d t
    where 1: "r = b @ d @ t" "in_V b" "in_C d" "t = [] \<or> aeiouy (hd t)"
      and n: "porter_measure s = 1 + porter_m Cons_before t" by auto
  from m_Cons_V [OF refl 1(4)] m n obtain e f t' where "t = e @ f @ t'" "in_V e" "in_C f" by auto
  with a(1,2) 1(1-3) show "test mgr1 s" using test_mgr1I [of a b d e f t'] by simp
qed

lemma meq1_measure:
  assumes s: "plain_start s"
  shows "test meq1 s \<longleftrightarrow> porter_measure s = 1"
proof
  assume "test meq1 s"
  then obtain a b d e where 1: "s = a @ b @ d @ e" "a = [] \<or> in_C a"
      "in_V b" "in_C d" "e = [] \<or> in_V e"
    unfolding test_meq1 by blast
  moreover have "porter_m Cons_before e = 0" using 1(5) m_in_V [of e "[]"] by auto
  ultimately show "porter_measure s = 1" using s m_two_blocks [of a b d e] by simp
next
  assume m: "porter_measure s = 1"
  obtain a r where a: "s = a @ r" "a = [] \<or> in_C a" "r = [] \<or> aeiouy (hd r)"
      "porter_measure s = porter_m Cons_before r"
    by (rule start_decomposition [OF s])
  from m_Cons_V [OF refl a(3)] m a(4) obtain b d t
    where 1: "r = b @ d @ t" "in_V b" "in_C d" "t = [] \<or> aeiouy (hd t)"
      and n: "porter_measure s = 1 + porter_m Cons_before t" by auto
  from m_Cons_V [OF refl 1(4)] m n have "t = [] \<or> in_V t" by auto
  with a(1,2) 1(1-3) show "test meq1 s" unfolding test_meq1 by blast
qed

text \<open>
  C15: on every word that does not start with a small y (the code capitalises an initial y
  before it tests), the three regular expressions decide m > 0, m > 1 and m = 1 for
  Porter's measure m.
\<close>

theorem measure_patterns:
  assumes "plain_start s"
  shows "(test mgr0 s \<longleftrightarrow> 0 < porter_measure s) \<and>
     (test mgr1 s \<longleftrightarrow> 1 < porter_measure s) \<and> (test meq1 s \<longleftrightarrow> porter_measure s = 1)"
  using assms by (simp add: mgr0_measure mgr1_measure meq1_measure)

theorem measure_patterns_witness:
  "porter_measure ''troubl'' = 1 \<and> test meq1 ''troubl'' \<and> \<not> test mgr1 ''troubl''"
proof -
  have "porter_measure ''troubl'' = 1"
    by (simp add: porter_measure_def vowel_after_def aeiou_def)
  then show ?thesis using measure_patterns [of "''troubl''"] by (simp add: plain_start_def)
qed

end
