(* ===== verification/SplitQuery.thy ===== *)
theory SplitQuery
  imports JS_Prelude
begin

text \<open>
  \<open>splitChars\<close> and \<open>splitQuery\<close> of \<open>searchtools.js\<close>: the table of UTF-16 code units that
  separate words and the loop that cuts a query into words. The character type is a
  parameter \<open>'c\<close> read through \<open>charCodeAt\<close>, so the lemmas hold for all 65536 code units.
\<close>

section \<open>The table of separators\<close>

definition singles :: "nat list" where
  "singles =
    [96, 180, 187, 191, 215, 247, 749, 885, 903, 907, 909, 930, 1014, 1648, 1748, 1809, 2416,
     2473, 2481, 2526, 2601, 2609, 2612, 2615, 2653, 2702, 2706, 2729, 2737, 2740, 2857, 2865,
     2868, 2910, 2928, 2948, 2961, 2971, 2973, 3085, 3089, 3113, 3124, 3213, 3217, 3241, 3252,
     3295, 3341, 3345, 3369, 3506, 3516, 3633, 3715, 3721, 3736, 3744, 3748, 3750, 3756, 3761,
     3781, 3912, 4239, 4347, 4681, 4695, 4697, 4745, 4785, 4799, 4801, 4823, 4881, 5760, 5901,
     5997, 6313, 7405, 8024, 8026, 8028, 8030, 8117, 8125, 8133, 8181, 8468, 8485, 8487, 8489,
     8494, 8527, 11311, 11359, 11687, 11695, 11703, 11711, 11719, 11727, 11735, 12448, 12539,
     43010, 43014, 43019, 43587, 43696, 43713, 64286, 64297, 64311, 64317, 64319, 64322, 64325,
     65141]"

definition ranges :: "(nat \<times> nat) list" where
  "ranges =
    [(0,47), (58,64), (91,94), (123,169), (171,177), (182,184), (706,709), (722,735), (741,747),
     (751,879), (888,889), (894,901), (1154,1161), (1318,1328), (1367,1368), (1370,1376),
     (1416,1487), (1515,1519), (1523,1568), (1611,1631), (1642,1645), (1750,1764), (1767,1773),
     (1789,1790), (1792,1807), (1840,1868), (1958,1968), (1970,1983), (2027,2035), (2038,2041),
     (2043,2047), (2070,2073), (2075,2083), (2085,2087), (2089,2307), (2362,2364), (2366,2383),
     (2385,2391), (2402,2405), (2419,2424), (2432,2436), (2445,2446), (2449,2450), (2483,2485),
     (2490,2492), (2494,2509), (2511,2523), (2530,2533), (2546,2547), (2554,2564), (2571,2574),
     (2577,2578), (2618,2648), (2655,2661), (2672,2673), (2677,2692), (2746,2748), (2750,2767),
     (2769,2783), (2786,2789), (2800,2820), (2829,2830), (2833,2834), (2874,2876), (2878,2907),
     (2914,2917), (2930,2946), (2955,2957), (2966,2968), (2976,2978), (2981,2983), (2987,2989),
     (3002,3023), (3025,3045), (3059,3076), (3130,3132), (3134,3159), (3162,3167), (3170,3173),
     (3184,3191), (3199,3204), (3258,3260), (3262,3293), (3298,3301), (3312,3332), (3386,3388),
     (3390,3423), (3426,3429), (3446,3449), (3456,3460), (3479,3481), (3518,3519), (3527,3584),
     (3636,3647), (3655,3663), (3674,3712), (3717,3718), (3723,3724), (3726,3731), (3752,3753),
     (3764,3772), (3774,3775), (3783,3791), (3802,3803), (3806,3839), (3841,3871), (3892,3903),
     (3949,3975), (3980,4095), (4139,4158), (4170,4175), (4182,4185), (4190,4192), (4194,4196),
     (4199,4205), (4209,4212), (4226,4237), (4250,4255), (4294,4303), (4349,4351), (4686,4687),
     (4702,4703), (4750,4751), (4790,4791), (4806,4807), (4886,4887), (4955,4968), (4989,4991),
     (5008,5023), (5109,5120), (5741,5742), (5787,5791), (5867,5869), (5873,5887), (5906,5919),
     (5938,5951), (5970,5983), (6001,6015), (6068,6102), (6104,6107), (6109,6111), (6122,6127),
     (6138,6159), (6170,6175), (6264,6271), (6315,6319), (6390,6399), (6429,6469), (6510,6511),
     (6517,6527), (6572,6592), (6600,6607), (6619,6655), (6679,6687), (6741,6783), (6794,6799),
     (6810,6822), (6824,6916), (6964,6980), (6988,6991), (7002,7042), (7073,7085), (7098,7167),
     (7204,7231), (7242,7244), (7294,7400), (7410,7423), (7616,7679), (7958,7959), (7966,7967),
     (8006,8007), (8014,8015), (8062,8063), (8127,8129), (8141,8143), (8148,8149), (8156,8159),
     (8173,8177), (8189,8303), (8306,8307), (8314,8318), (8330,8335), (8341,8449), (8451,8454),
     (8456,8457), (8470,8472), (8478,8483), (8506,8507), (8512,8516), (8522,8525), (8586,9311),
     (9372,9449), (9472,10101), (10132,11263), (11493,11498), (11503,11516), (11518,11519),
     (11558,11567), (11622,11630), (11632,11647), (11671,11679), (11743,11822), (11824,12292),
     (12296,12320), (12330,12336), (12342,12343), (12349,12352), (12439,12444), (12544,12548),
     (12590,12592), (12687,12689), (12694,12703), (12728,12783), (12800,12831), (12842,12880),
     (12896,12927), (12938,12976), (12992,13311), (19894,19967), (40908,40959), (42125,42191),
     (42238,42239), (42509,42511), (42540,42559), (42592,42593), (42607,42622), (42648,42655),
     (42736,42774), (42784,42785), (42889,42890), (42893,43002), (43043,43055), (43062,43071),
     (43124,43137), (43188,43215), (43226,43249), (43256,43258), (43260,43263), (43302,43311),
     (43335,43359), (43389,43395), (43443,43470), (43482,43519), (43561,43583), (43596,43599),
     (43610,43615), (43639,43641), (43643,43647), (43698,43700), (43703,43704), (43710,43711),
     (43715,43738), (43742,43967), (44003,44015), (44026,44031), (55204,55215), (55239,55242),
     (55292,55295), (57344,63743), (64046,64047), (64110,64111), (64218,64255), (64263,64274),
     (64280,64284), (64434,64466), (64830,64847), (64912,64913), (64968,65007), (65020,65135),
     (65277,65295), (65306,65312), (65339,65344), (65371,65381), (65471,65473), (65480,65481),
     (65488,65489), (65496,65497)]"

text \<open>\<open>result[j] = true\<close> for every single and every \<open>j\<close> of a range, the bounds included.\<close>

definition splitChars :: "nat \<Rightarrow> bool" where
  "splitChars n \<longleftrightarrow> n \<in> set singles \<or> list_ex (\<lambda>(start, end'). start \<le> n \<and> n \<le> end') ranges"

text \<open>Among the ASCII characters, the letters, the digits and the underscore are no separators.\<close>

lemma splitChars_ascii:
  assumes "n < 128"
  shows "splitChars n \<longleftrightarrow> n < 48 \<or> 58 \<le> n \<and> n \<le> 64 \<or> 91 \<le> n \<and> n \<le> 94 \<or> n = 96 \<or> 123 \<le> n"
proof -
  have "n \<in> set singles \<longleftrightarrow> n = 96" using assms by (simp add: singles_def)
  moreover have "list_ex (\<lambda>(start, end'). start \<le> n \<and> n \<le> end') ranges \<longleftrightarrow>
      n \<le> 47 \<or> 58 \<le> n \<and> n \<le> 64 \<or> 91 \<le> n \<and> n \<le> 94 \<or> 123 \<le> n"
  proof -
    have "list_ex (\<lambda>(start, end'). start \<le> n \<and> n \<le> end') (drop 4 ranges) = False"
      using assms by (simp add: ranges_def)
    moreover have "ranges = [(0, 47), (58, 64), (91, 94), (123, 169)] @ drop 4 ranges"
      by (simp add: ranges_def)
    ultimately have "list_ex (\<lambda>(start, end'). start \<le> n \<and> n \<le> end') ranges =
        list_ex (\<lambda>(start, end'). start \<le> n \<and> n \<le> end') [(0, 47), (58, 64), (91, 94), (123, 169)]"
      by (metis list_ex_append)
    then show ?thesis using assms by auto
  qed
  ultimately show ?thesis by (auto simp: splitChars_def)
qed

section \<open>The loop\<close>

text \<open>
  One pass over the positions: \<open>start\<close> is -1 between words and the first position of the
  current word inside one.
\<close>

function splitQuery_loop ::
    "('c \<Rightarrow> nat) \<Rightarrow> 'c list \<Rightarrow> nat \<Rightarrow> int \<Rightarrow> 'c list list \<Rightarrow> 'c list list \<times> int" where
  "splitQuery_loop charCodeAt query i start result =
     (if i < length query then
        (if splitChars (charCodeAt (query ! i)) then
           (if start \<noteq> -1
            then splitQuery_loop charCodeAt query (Suc i) (-1) (result @ [slice query start (int i)])
            else splitQuery_loop charCodeAt query (Suc i) start result)
         else if start = -1 then splitQuery_loop charCodeAt query (Suc i) (int i) result
         else splitQuery_loop charCodeAt query (Suc i) start result)
      else (result, start))"
  by pat_completeness auto
termination
  by (relation "measure (\<lambda>(cc, query, i, start, result). length query - i)") auto

declare splitQuery_loop.simps [simp del]

definition splitQuery :: "('c \<Rightarrow> nat) \<Rightarrow> 'c list \<Rightarrow> 'c list list" where
  "splitQuery charCodeAt query =
     (let (result, start) = splitQuery_loop charCodeAt query 0 (-1) [] in
      if start \<noteq> -1 then result @ [substr1 query start] else result)"

section \<open>Specification: the maximal runs of word characters\<close>

function runs :: "('c \<Rightarrow> bool) \<Rightarrow> 'c list \<Rightarrow> 'c list list" where
  "runs p [] = []"
| "runs p (c # cs) =
     (if p c then (c # takeWhile p cs) # runs p (dropWhile p cs) else runs p cs)"
  by pat_completeness auto
termination
  by (relation "measure (\<lambda>(p, cs). length cs)") (auto simp: le_imp_less_Suc length_dropWhile_le)

lemma runs_skip: "\<not> p c \<Longrightarrow> runs p (c # cs) = runs p cs"
  by simp

lemma runs_word: "w \<noteq> [] \<Longrightarrow> (\<forall>c \<in> set w. p c) \<Longrightarrow> runs p (w @ cs) =
    (w @ takeWhile p cs) # runs p (dropWhile p cs)"
  by (cases w) (auto simp: takeWhile_append dropWhile_append)

lemma runs_word_sep:
  "w \<noteq> [] \<Longrightarrow> (\<forall>c \<in> set w. p c) \<Longrightarrow> \<not> p d \<Longrightarrow> runs p (w @ d # cs) = w # runs p cs"
  by (simp add: runs_word)

lemma runs_word_end: "w \<noteq> [] \<Longrightarrow> (\<forall>c \<in> set w. p c) \<Longrightarrow> runs p w = [w]"
  using runs_word [of w p "[]"] by simp

lemma concat_runs: "concat (runs p cs) = filter p cs"
proof (induction p cs rule: runs.induct)
  case (2 p c cs)
  have "filter p cs = takeWhile p cs @ filter p (dropWhile p cs)"
    by (metis filter_append filter_True set_takeWhileD takeWhile_dropWhile_id)
  with 2 show ?case by auto
qed simp

lemma in_runs: "w \<in> set (runs p cs) \<Longrightarrow> w \<noteq> [] \<and> (\<forall>c \<in> set w. p c)"
proof (induction p cs rule: runs.induct)
  case (2 p c cs)
  show ?case
  proof (cases "p c")
    case True
    then consider "w = c # takeWhile p cs" | "w \<in> set (runs p (dropWhile p cs))"
      using "2.prems" by auto
    then show ?thesis
    proof cases
      case 1
      have "\<forall>d \<in> set (takeWhile p cs). p d" by (meson set_takeWhileD)
      with 1 True show ?thesis by simp
    next
      case 2
      with True show ?thesis by (rule "2.IH"(1))
    qed
  qed (use "2.IH"(2) "2.prems" in simp)
qed simp

section \<open>The loop computes the runs\<close>

definition word_char :: "('c \<Rightarrow> nat) \<Rightarrow> 'c \<Rightarrow> bool" where
  "word_char charCodeAt c \<longleftrightarrow> \<not> splitChars (charCodeAt c)"

definition finish :: "'c list \<Rightarrow> 'c list list \<times> int \<Rightarrow> 'c list list" where
  "finish query rs = (if snd rs \<noteq> -1 then fst rs @ [substr1 query (snd rs)] else fst rs)"

lemma slice_nat: "a \<le> b \<Longrightarrow> slice s (int a) (int b) = take (b - a) (drop a s)"
  by (simp add: slice_def from_end_def)

lemma word_so_far:
  "start \<le> i \<Longrightarrow> i < length q \<Longrightarrow> drop start q = take (i - start) (drop start q) @ q ! i # drop (Suc i) q"
proof -
  assume "start \<le> i" "i < length q"
  have "drop start q = take (i - start) (drop start q) @ drop (i - start) (drop start q)"
    by (simp only: append_take_drop_id)
  also have "drop (i - start) (drop start q) = q ! i # drop (Suc i) q"
    using \<open>start \<le> i\<close> \<open>i < length q\<close> by (simp add: Cons_nth_drop_Suc)
  finally show ?thesis .
qed

text \<open>
  Between words the loop still has to emit the runs of the rest; inside a word that began at
  \<open>start\<close> it still has to emit the runs of everything from \<open>start\<close> on.
\<close>

lemma loop_runs:
  fixes cc :: "'c \<Rightarrow> nat" and q :: "'c list"
  assumes "i \<le> length q"
  shows "finish q (splitQuery_loop cc q i (-1) res) = res @ runs (word_char cc) (drop i q) \<and>
     (start < i \<longrightarrow> (\<forall>c \<in> set (take (i - start) (drop start q)). word_char cc c) \<longrightarrow>
       finish q (splitQuery_loop cc q i (int start) res) = res @ runs (word_char cc) (drop start q))"
  using assms
proof (induction "length q - i" arbitrary: i start res)
  case 0
  then have i: "i = length q" by simp
  have "finish q (splitQuery_loop cc q i (int start) res) = res @ runs (word_char cc) (drop start q)"
    if "start < i" "\<forall>c \<in> set (take (i - start) (drop start q)). word_char cc c"
  proof -
    have "runs (word_char cc) (drop start q) = [drop start q]"
      using that i by (intro runs_word_end) auto
    then show ?thesis
      using i by (simp add: splitQuery_loop.simps finish_def substr1_def from_end_def)
  qed
  with i show ?case by (auto simp: splitQuery_loop.simps finish_def)
next
  case (Suc n)
  then have i: "i < length q" and n: "n = length q - Suc i" by auto
  note IH = Suc.hyps(1) [OF n Suc_leI [OF i]]
  have d: "drop i q = q ! i # drop (Suc i) q" using i by (simp add: Cons_nth_drop_Suc)
  show ?case
  proof (cases "word_char cc (q ! i)")
    case False
    then have sc: "splitChars (cc (q ! i))" by (simp add: word_char_def)
    have "finish q (splitQuery_loop cc q i (-1) res) = res @ runs (word_char cc) (drop i q)"
      using IH [of res] i sc d False by (simp add: splitQuery_loop.simps [of cc q i])
    moreover have "finish q (splitQuery_loop cc q i (int start) res) = res @ runs (word_char cc) (drop start q)"
      if "start < i" "\<forall>c \<in> set (take (i - start) (drop start q)). word_char cc c"
    proof -
      have "runs (word_char cc) (drop start q) =
          take (i - start) (drop start q) # runs (word_char cc) (drop (Suc i) q)"
        by (subst word_so_far [of start i]) (use that i False in \<open>auto intro: runs_word_sep\<close>)
      then show ?thesis
        using IH [of "res @ [slice q (int start) (int i)]"] i sc that
        by (simp add: splitQuery_loop.simps [of cc q i] slice_nat)
    qed
    ultimately show ?thesis by blast
  next
    case True
    then have sc: "\<not> splitChars (cc (q ! i))" by (simp add: word_char_def)
    have "finish q (splitQuery_loop cc q i (-1) res) = res @ runs (word_char cc) (drop i q)"
      using IH [of res i] i sc True d by (simp add: splitQuery_loop.simps [of cc q i])
    moreover have "finish q (splitQuery_loop cc q i (int start) res) = res @ runs (word_char cc) (drop start q)"
      if "start < i" "\<forall>c \<in> set (take (i - start) (drop start q)). word_char cc c"
    proof -
      have "take (Suc i - start) (drop start q) = take (i - start) (drop start q) @ [q ! i]"
        using that(1) i by (simp add: Suc_diff_le take_Suc_conv_app_nth)
      then show ?thesis
        using IH [of res start] i sc that True by (simp add: splitQuery_loop.simps [of cc q i])
    qed
    ultimately show ?thesis by blast
  qed
qed

lemma splitQuery_eq_runs: "splitQuery charCodeAt q = runs (word_char charCodeAt) q"
proof -
  have "splitQuery charCodeAt q = finish q (splitQuery_loop charCodeAt q 0 (-1) [])"
    by (simp add: splitQuery_def finish_def case_prod_beta Let_def)
  then show ?thesis using loop_runs [of 0 q charCodeAt "[]"] by simp
qed

lemma splitQuery_words:
  "w \<in> set (splitQuery charCodeAt q) \<Longrightarrow> w \<noteq> [] \<and> (\<forall>c \<in> set w. \<not> splitChars (charCodeAt c))"
  by (auto simp: splitQuery_eq_runs word_char_def dest: in_runs)

text \<open>
  The words of a query are exactly the maximal runs of characters that are not in the
  separator table, in order; no character of a word is lost.
\<close>

theorem splitQuery_runs:
  "splitQuery charCodeAt q = runs (word_char charCodeAt) q \<and>
   concat (splitQuery charCodeAt q) = filter (word_char charCodeAt) q"
  by (simp add: splitQuery_eq_runs concat_runs)

end
