(* ===== verification/TermSearch.thy ===== *)
theory TermSearch
  imports JS_Prelude
begin

text \<open>
  The full-text lookup of \<open>searchtools.js\<close> (\<open>Search.performTermsSearch\<close>): the search
  index, the maps from documents to matched words and to scores, and the result rows. The
  lemmas show which documents a search returns on an index as Sphinx writes it, and two
  places where the code does something else than its comments say.
\<close>

section \<open>The index\<close>

text \<open>
  \<open>terms[word]\<close> is absent, one document number, or an array of them. The index is an object
  literal, so a word that names a method of \<open>Object.prototype\<close> reads that function: \<open>Native\<close>
  with its name and its \<open>length\<close>. (The accessor \<open>__proto__\<close> is left out.)
\<close>

datatype posting = Absent | One nat | Many "nat list" | Native string nat

type_synonym term_table = "(string, posting) jsobj"

definition lookup_term :: "term_table \<Rightarrow> string \<Rightarrow> posting" where
  "lookup_term tab w =
     (case obj_get tab w of
        Some p \<Rightarrow> p
      | None \<Rightarrow> (case map_of object_prototype w of Some n \<Rightarrow> Native w n | None \<Rightarrow> Absent))"

record obj_entry =
  o_doc :: nat
  o_type :: nat
  o_prio :: int
  o_anchor :: string

record search_index =
  docnames :: "string list"
  filenames :: "string list"
  objects :: "(string \<times> (string \<times> obj_entry) list) list"
  objnames :: "(string \<times> string \<times> string) list"
  terms :: term_table
  titles :: "string list"
  titleterms :: term_table

text \<open>
  A result row \<open>[docname, title, '#' + anchor, descr, score, filename]\<close>; \<open>None\<close> is \<open>null\<close>.
\<close>

record result_row =
  r_doc :: string
  r_title :: string
  r_anchor :: string
  r_descr :: "string option"
  r_score :: int
  r_file :: string

section \<open>Scores\<close>

definition objNameMatch :: int where "objNameMatch = 11"
definition objPartialMatch :: int where "objPartialMatch = 6"
definition objPrio :: "(int, int) jsobj" where "objPrio = [(0, 15), (1, 5), (2, -5)]"
definition objPrioDefault :: int where "objPrioDefault = 0"
definition score_title :: int where "score_title = 15"
definition score_term :: int where "score_term = 5"

section \<open>The search\<close>

text \<open>The keys of \<open>fileMap\<close> and \<open>scoreMap\<close>: what a posting's element is as a property name.\<close>

datatype fkey = Doc nat | Native_key string | Undef_key

type_synonym file_map = "(fkey, string list) jsobj"
type_synonym score_map = "(fkey, (string, int) jsobj) jsobj"

text \<open>
  \<open>files.concat(_files)\<close> appends the elements of an array, and a function as one element;
  \<open>_files[0], _files[1], ...\<close> up to \<open>_files.length\<close> are undefined for a function.
\<close>

fun concat_keys :: "posting \<Rightarrow> fkey list" where
  "concat_keys Absent = []"
| "concat_keys (One d) = [Doc d]"
| "concat_keys (Many ds) = map Doc ds"
| "concat_keys (Native f n) = [Native_key f]"

fun index_keys :: "posting \<Rightarrow> fkey list" where
  "index_keys Absent = []"
| "index_keys (One d) = [Doc d]"
| "index_keys (Many ds) = map Doc ds"
| "index_keys (Native f n) = replicate n Undef_key"

definition set_score :: "string \<Rightarrow> int \<Rightarrow> fkey \<Rightarrow> score_map \<Rightarrow> score_map" where
  "set_score word score file sm =
     obj_put file (obj_put word score (case obj_get sm file of None \<Rightarrow> [] | Some m \<Rightarrow> m)) sm"

text \<open>The body of the loop over the search words, for one word that some table knows.\<close>

definition score_word :: "search_index \<Rightarrow> string \<Rightarrow> score_map \<Rightarrow> score_map" where
  "score_word ix word sm =
     fold (set_score word score_title) (index_keys (lookup_term (titleterms ix) word))
       (fold (set_score word score_term) (index_keys (lookup_term (terms ix) word)) sm)"

definition word_files :: "search_index \<Rightarrow> string \<Rightarrow> fkey list" where
  "word_files ix word =
     concat_keys (lookup_term (terms ix) word) @ concat_keys (lookup_term (titleterms ix) word)"

definition map_word :: "search_index \<Rightarrow> string \<Rightarrow> file_map \<Rightarrow> file_map" where
  "map_word ix word fm = fold (\<lambda>file. obj_push (file, word)) (word_files ix word) fm"

definition word_unknown :: "search_index \<Rightarrow> string \<Rightarrow> bool" where
  "word_unknown ix word \<longleftrightarrow>
     lookup_term (terms ix) word = Absent \<and> lookup_term (titleterms ix) word = Absent"

text \<open>The loop; a required word that no table knows ends it.\<close>

fun terms_loop :: "search_index \<Rightarrow> string list \<Rightarrow> file_map \<times> score_map \<Rightarrow> file_map \<times> score_map" where
  "terms_loop ix [] (fm, sm) = (fm, sm)"
| "terms_loop ix (word # ws) (fm, sm) =
     (if word_unknown ix word then (fm, sm)
      else terms_loop ix ws (map_word ix word fm, score_word ix word sm))"

text \<open>
  \<open>terms[excluded[i]] == file\<close> compares with the property name as a string, so it holds for
  the one document of the posting, also inside an array of length one; \<open>contains\<close> compares a
  number with a string by \<open>===\<close> and never holds.
\<close>

fun loosely_equal :: "posting \<Rightarrow> fkey \<Rightarrow> bool" where
  "loosely_equal (One d) file = (file = Doc d)"
| "loosely_equal (Many [d]) file = (file = Doc d)"
| "loosely_equal (Native f n) file = (file = Native_key f)"
| "loosely_equal _ file = False"

definition contains_strict :: "posting \<Rightarrow> fkey \<Rightarrow> bool" where
  "contains_strict p file = False"

definition is_excluded :: "search_index \<Rightarrow> string list \<Rightarrow> fkey \<Rightarrow> bool" where
  "is_excluded ix excluded file =
     list_ex (\<lambda>e. loosely_equal (lookup_term (terms ix) e) file \<or>
                  loosely_equal (lookup_term (titleterms ix) e) file \<or>
                  contains_strict (lookup_term (terms ix) e) file \<or>
                  contains_strict (lookup_term (titleterms ix) e) file) excluded"

text \<open>\<open>for (file in fileMap)\<close>: the document numbers in ascending order, then the rest.\<close>

definition doc_numbers :: "fkey list \<Rightarrow> nat list" where
  "doc_numbers ks = sort (List.map_filter (\<lambda>k. case k of Doc d \<Rightarrow> Some d | _ \<Rightarrow> None) ks)"

definition enum_keys :: "fkey list \<Rightarrow> fkey list" where
  "enum_keys ks =
     map Doc (doc_numbers ks) @ filter (\<lambda>k. case k of Doc _ \<Rightarrow> False | _ \<Rightarrow> True) ks"

definition doc_read :: "string list \<Rightarrow> fkey \<Rightarrow> string" where
  "doc_read xs file = (case file of Doc d \<Rightarrow> jstr (nth_opt xs d) | _ \<Rightarrow> ''undefined'')"

definition max_score :: "int list \<Rightarrow> int" where
  "max_score ss = fold max (tl ss) (hd ss)"

text \<open>
  One row, or nothing when the file misses a word or is excluded; reading the score of a
  file that \<open>scoreMap\<close> does not have raises.
\<close>

definition term_row ::
    "search_index \<Rightarrow> string list \<Rightarrow> string list \<Rightarrow> file_map \<Rightarrow> score_map \<Rightarrow> fkey \<Rightarrow> result_row list result" where
  "term_row ix searchterms excluded fm sm file =
     (let ws = (case obj_get fm file of None \<Rightarrow> [] | Some ws \<Rightarrow> ws) in
      if length ws \<noteq> length searchterms then Inr []
      else if is_excluded ix excluded file then Inr []
      else case obj_get sm file of
             None \<Rightarrow> Inl TypeError
           | Some scores \<Rightarrow>
               Inr [\<lparr>r_doc = doc_read (docnames ix) file, r_title = doc_read (titles ix) file,
                     r_anchor = '''', r_descr = None,
                     r_score = max_score (map (\<lambda>w. case obj_get scores w of None \<Rightarrow> 0 | Some s \<Rightarrow> s) ws),
                     r_file = doc_read (filenames ix) file\<rparr>])"

definition performTermsSearch ::
    "string list \<Rightarrow> string list \<Rightarrow> search_index \<Rightarrow> result_row list result" where
  "performTermsSearch searchterms excluded ix =
     (let (fm, sm) = terms_loop ix searchterms ([], []) in
      bind_result (map_result (term_row ix searchterms excluded fm sm) (enum_keys (obj_keys fm)))
        (\<lambda>rows. Inr (concat rows)))"

section \<open>The maps after the loop\<close>

definition taken :: "search_index \<Rightarrow> string list \<Rightarrow> string list" where
  "taken ix ws = takeWhile (\<lambda>w. \<not> word_unknown ix w) ws"

definition pushes :: "search_index \<Rightarrow> string list \<Rightarrow> (fkey \<times> string) list" where
  "pushes ix ws = concat (map (\<lambda>w. map (\<lambda>k. (k, w)) (word_files ix w)) ws)"

lemma map_word_pushes: "map_word ix w fm = fold obj_push (pushes ix [w]) fm"
proof -
  have "fold (\<lambda>file. obj_push (file, w)) ks fm = fold obj_push (map (\<lambda>k. (k, w)) ks) fm" for ks
    by (induction ks arbitrary: fm) auto
  then show ?thesis by (simp add: map_word_def pushes_def)
qed

lemma pushes_Cons: "pushes ix (w # ws) = pushes ix [w] @ pushes ix ws"
  by (simp add: pushes_def)

lemma terms_loop_eq:
  "terms_loop ix ws (fm, sm) =
     (fold obj_push (pushes ix (taken ix ws)) fm, fold (score_word ix) (taken ix ws) sm)"
proof (induction ws arbitrary: fm sm)
  case Nil
  then show ?case by (simp add: taken_def pushes_def)
next
  case (Cons w ws)
  then show ?case
    by (simp add: taken_def pushes_def map_word_pushes)
qed

lemma values_one_word: "values_at k (map (\<lambda>k. (k, w)) ks) = replicate (count_list ks k) w"
  by (induction ks) auto

lemma values_pushes:
  "values_at k (pushes ix ws) = concat (map (\<lambda>w. replicate (count_list (word_files ix w) k) w) ws)"
  by (induction ws) (simp_all add: pushes_def values_one_word)

lemma keys_pushes: "fst ` set (pushes ix ws) = (\<Union>w \<in> set ws. set (word_files ix w))"
  by (induction ws) (auto simp: pushes_def image_Un image_image)

subsection \<open>Scores\<close>

definition score_at :: "score_map \<Rightarrow> fkey \<Rightarrow> string \<Rightarrow> int option" where
  "score_at sm k w = (case obj_get sm k of None \<Rightarrow> None | Some m \<Rightarrow> obj_get m w)"

lemma score_at_set:
  "score_at (set_score w s k sm) k' w' = (if k' = k \<and> w' = w then Some s else score_at sm k' w')"
  by (auto simp: score_at_def set_score_def js_obj split: option.splits)

lemma score_at_set_all:
  "score_at (fold (set_score w s) ks sm) k' w' =
     (if k' \<in> set ks \<and> w' = w then Some s else score_at sm k' w')"
  by (induction ks arbitrary: sm) (auto simp: score_at_set)

lemma score_at_word:
  "score_at (score_word ix w sm) k w' =
     (if w' \<noteq> w then score_at sm k w'
      else if k \<in> set (index_keys (lookup_term (titleterms ix) w)) then Some score_title
      else if k \<in> set (index_keys (lookup_term (terms ix) w)) then Some score_term
      else score_at sm k w')"
  by (auto simp: score_word_def score_at_set_all)

lemma score_at_words_other:
  "w \<notin> set ws \<Longrightarrow> score_at (fold (score_word ix) ws sm) k w = score_at sm k w"
  by (induction ws arbitrary: sm) (auto simp: score_at_word)

lemma score_at_words:
  "w \<in> set ws \<Longrightarrow> distinct ws \<Longrightarrow>
     score_at (fold (score_word ix) ws sm) k w = score_at (score_word ix w sm) k w"
proof (induction ws arbitrary: sm)
  case (Cons v ws)
  show ?case
  proof (cases "v = w")
    case True
    with Cons.prems show ?thesis by (simp add: score_at_words_other)
  next
    case False
    with Cons show ?thesis by (auto simp: score_at_word)
  qed
qed simp

section \<open>Which documents a search returns\<close>

text \<open>
  The documents of a word, and an index as Sphinx writes it: a word's postings list a
  document once, and a word of a title is not also listed as a word of that page's text.
\<close>

fun docs_of :: "posting \<Rightarrow> nat list" where
  "docs_of (One d) = [d]"
| "docs_of (Many ds) = ds"
| "docs_of _ = []"

definition word_docs :: "search_index \<Rightarrow> string \<Rightarrow> nat list" where
  "word_docs ix w = docs_of (lookup_term (terms ix) w) @ docs_of (lookup_term (titleterms ix) w)"

definition sphinx_index :: "search_index \<Rightarrow> string list \<Rightarrow> bool" where
  "sphinx_index ix ws \<longleftrightarrow> list_all (\<lambda>w. distinct (word_docs ix w)) ws"

fun is_native :: "posting \<Rightarrow> bool" where
  "is_native (Native f n) = True"
| "is_native _ = False"

definition own_word :: "search_index \<Rightarrow> string \<Rightarrow> bool" where
  "own_word ix w \<longleftrightarrow>
     \<not> is_native (lookup_term (terms ix) w) \<and> \<not> is_native (lookup_term (titleterms ix) w)"

definition has_all :: "search_index \<Rightarrow> string list \<Rightarrow> nat \<Rightarrow> bool" where
  "has_all ix ws d \<longleftrightarrow> list_all (\<lambda>w. d \<in> set (word_docs ix w)) ws"

lemma keys_own: "\<not> is_native p \<Longrightarrow> concat_keys p = map Doc (docs_of p) \<and> index_keys p = map Doc (docs_of p)"
  by (cases p) auto

lemma word_files_own: "own_word ix w \<Longrightarrow> word_files ix w = map Doc (word_docs ix w)"
  by (simp add: own_word_def word_files_def word_docs_def keys_own)

lemma unknown_no_docs: "word_unknown ix w \<Longrightarrow> word_docs ix w = []"
  by (simp add: word_unknown_def word_docs_def)

lemma count_list_Doc: "distinct ds \<Longrightarrow> count_list (map Doc ds) (Doc d) = (if d \<in> set ds then 1 else 0)"
  by (induction ds) auto

lemma taken_subset: "w \<in> set (taken ix ws) \<Longrightarrow> w \<in> set ws \<and> \<not> word_unknown ix w"
  using set_takeWhileD [of w "\<lambda>w. \<not> word_unknown ix w" ws] by (simp add: taken_def)

lemma taken_all: "has_all ix ws d \<Longrightarrow> taken ix ws = ws"
  unfolding taken_def takeWhile_eq_all_conv has_all_def list_all_iff
  by (metis empty_iff empty_set unknown_no_docs)

text \<open>The words recorded for a document are the taken words that list it.\<close>

lemma recorded_words:
  assumes "\<And>w. w \<in> set ws \<Longrightarrow> own_word ix w" and "sphinx_index ix ws"
  shows "values_at (Doc d) (pushes ix (taken ix ws)) =
     filter (\<lambda>w. d \<in> set (word_docs ix w)) (taken ix ws)"
proof -
  have "concat (map (\<lambda>w. replicate (count_list (word_files ix w) (Doc d)) w) vs) =
      filter (\<lambda>w. d \<in> set (word_docs ix w)) vs" if "set vs \<subseteq> set ws" for vs
    using that assms
    by (induction vs)
      (auto simp: word_files_own count_list_Doc sphinx_index_def list_all_iff)
  moreover have "set (taken ix ws) \<subseteq> set ws" using taken_subset by blast
  ultimately show ?thesis by (simp add: values_pushes)
qed

lemma complete_iff:
  "length (filter (\<lambda>w. d \<in> set (word_docs ix w)) (taken ix ws)) = length ws \<longleftrightarrow> has_all ix ws d"
    (is "?L \<longleftrightarrow> ?R")
proof
  assume r: ?R
  then show ?L using taken_all [OF r] by (simp add: has_all_def list_all_iff filter_id_conv)
next
  assume l: ?L
  have "length (taken ix ws) \<le> length ws"
    by (simp add: taken_def length_takeWhile_le)
  with l have f: "length (filter (\<lambda>w. d \<in> set (word_docs ix w)) (taken ix ws)) = length (taken ix ws)"
      and t: "length (taken ix ws) = length ws"
    using length_filter_le [of "\<lambda>w. d \<in> set (word_docs ix w)" "taken ix ws"] by simp_all
  have "ws = taken ix ws @ dropWhile (\<lambda>w. \<not> word_unknown ix w) ws"
    by (simp add: taken_def)
  with t have "taken ix ws = ws" by (metis append_Nil2 append_eq_append_conv)
  moreover have "\<forall>w \<in> set (taken ix ws). d \<in> set (word_docs ix w)"
    using f by (metis length_filter_less less_irrefl)
  ultimately show ?R by (simp add: has_all_def list_all_iff)
qed

definition doc_opt :: "fkey \<Rightarrow> nat option" where
  "doc_opt k = (case k of Doc d \<Rightarrow> Some d | _ \<Rightarrow> None)"

lemma doc_numbers_set: "set (doc_numbers ks) = {d. Doc d \<in> set ks}"
proof -
  have "set (List.map_filter (\<lambda>k. case k of Doc d \<Rightarrow> Some d | _ \<Rightarrow> None) ks) = {d. Doc d \<in> set ks}"
    by (induction ks) (auto simp: List.map_filter_simps split: fkey.splits)
  then show ?thesis by (simp add: doc_numbers_def)
qed

lemma doc_numbers_distinct: "distinct ks \<Longrightarrow> distinct (doc_numbers ks)"
proof -
  have s: "set (List.map_filter (\<lambda>k. case k of Doc d \<Rightarrow> Some d | _ \<Rightarrow> None) ks) = {d. Doc d \<in> set ks}" for ks
    using doc_numbers_set [of ks] by (simp add: doc_numbers_def)
  have "distinct ks \<Longrightarrow> distinct (List.map_filter (\<lambda>k. case k of Doc d \<Rightarrow> Some d | _ \<Rightarrow> None) ks)"
    by (induction ks) (auto simp: List.map_filter_simps s split: fkey.splits)
  then show "distinct ks \<Longrightarrow> distinct (doc_numbers ks)" by (simp add: doc_numbers_def)
qed

lemma doc_numbers_sorted: "sorted (doc_numbers ks)"
  by (simp add: doc_numbers_def)

text \<open>The row the search builds for a document.\<close>

definition doc_row :: "search_index \<Rightarrow> string list \<Rightarrow> nat \<Rightarrow> result_row" where
  "doc_row ix ws d =
     \<lparr>r_doc = jstr (nth_opt (docnames ix) d), r_title = jstr (nth_opt (titles ix) d),
      r_anchor = '''', r_descr = None,
      r_score = (if list_ex (\<lambda>w. d \<in> set (docs_of (lookup_term (titleterms ix) w))) ws
                 then score_title else score_term),
      r_file = jstr (nth_opt (filenames ix) d)\<rparr>"

lemma score_at_doc:
  assumes "own_word ix w" and "d \<in> set (word_docs ix w)"
  shows "score_at (score_word ix w sm) (Doc d) w =
     Some (if d \<in> set (docs_of (lookup_term (titleterms ix) w)) then score_title else score_term)"
  using assms by (auto simp: score_at_word own_word_def word_docs_def keys_own)

lemma max_score_two:
  assumes "ws \<noteq> []"
  shows "max_score (map (\<lambda>w. if P w then score_title else score_term) ws) =
     (if list_ex P ws then score_title else score_term)"
proof -
  have "fold max (map (\<lambda>w. if P w then score_title else score_term) vs) a =
      (if list_ex P vs then score_title else a)" if "a = score_title \<or> a = score_term" for vs a
    using that
  proof (induction vs arbitrary: a)
    case (Cons v vs)
    have "max (if P v then score_title else score_term) a = (if P v then score_title else a)"
      using Cons.prems by (auto simp: score_title_def score_term_def)
    moreover have "(if P v then score_title else a) \<in> {score_title, score_term}"
      using Cons.prems by auto
    ultimately show ?case using Cons.IH by (cases "P v") auto
  qed simp
  then show ?thesis using assms by (cases ws) (auto simp: max_score_def)
qed

text \<open>
  What excluding a word does: the document goes when it is the only one that the table of words, or the one of title
  words, lists for it.
\<close>

definition only_listed :: "search_index \<Rightarrow> string list \<Rightarrow> nat \<Rightarrow> bool" where
  "only_listed ix excluded d \<longleftrightarrow>
     (\<exists>e\<in>set excluded. docs_of (lookup_term (terms ix) e) = [d] \<or> docs_of (lookup_term (titleterms ix) e) = [d])"

lemma loosely_equal_doc: "loosely_equal p (Doc d) \<longleftrightarrow> docs_of p = [d]"
  by (cases "(p, Doc d)" rule: loosely_equal.cases) auto

lemma is_excluded_doc: "is_excluded ix excluded (Doc d) \<longleftrightarrow> only_listed ix excluded d"
  by (auto simp: is_excluded_def only_listed_def contains_strict_def list_ex_iff loosely_equal_doc)

text \<open>What the row function does on the maps the loop leaves, for one document.\<close>

lemma term_row_doc:
  assumes own: "\<And>w. w \<in> set ws \<Longrightarrow> own_word ix w" and sph: "sphinx_index ix ws"
    and ws: "distinct ws" "ws \<noteq> []"
    and maps: "terms_loop ix ws ([], []) = (fm, sm)"
  shows "term_row ix ws excluded fm sm (Doc d) =
    Inr (if has_all ix ws d \<and> \<not> only_listed ix excluded d then [doc_row ix ws d] else [])"
proof -
  let ?v = "filter (\<lambda>w. d \<in> set (word_docs ix w)) (taken ix ws)"
  have fm: "fm = fold obj_push (pushes ix (taken ix ws)) []"
    and sm: "sm = fold (score_word ix) (taken ix ws) []"
    using maps by (simp_all add: terms_loop_eq)
  have v: "(case obj_get fm (Doc d) of None \<Rightarrow> [] | Some vs \<Rightarrow> vs) = ?v"
    using recorded_words [of ws ix d] own sph
    by (simp add: fm obj_push_def multi.get_push_all js_obj)
  show ?thesis
  proof (cases "has_all ix ws d")
    case False
    then have "length ?v \<noteq> length ws" by (simp add: complete_iff)
    with v False show ?thesis by (simp add: term_row_def)
  next
    case True
    then have taken: "taken ix ws = ws" by (rule taken_all)
    have in_docs: "d \<in> set (word_docs ix w)" if "w \<in> set ws" for w
      using True that by (simp add: has_all_def list_all_iff)
    then have v': "(case obj_get fm (Doc d) of None \<Rightarrow> [] | Some vs \<Rightarrow> vs) = ws"
      using v taken by (simp add: filter_id_conv)
    have sc: "score_at sm (Doc d) w =
        Some (if d \<in> set (docs_of (lookup_term (titleterms ix) w)) then score_title else score_term)"
      if "w \<in> set ws" for w
      using that ws own in_docs sm taken score_at_words [of w ws] by (simp add: score_at_doc)
    then have "score_at sm (Doc d) (hd ws) \<noteq> None" using ws by simp
    then obtain m where m: "obj_get sm (Doc d) = Some m"
      by (auto simp: score_at_def split: option.splits)
    then have me: "map (\<lambda>w. case obj_get m w of None \<Rightarrow> 0 | Some s \<Rightarrow> s) ws =
        map (\<lambda>w. if d \<in> set (docs_of (lookup_term (titleterms ix) w)) then score_title else score_term) ws"
      using sc by (simp add: score_at_def)
    have "max_score (map (\<lambda>w. case obj_get m w of None \<Rightarrow> 0 | Some s \<Rightarrow> s) ws) = r_score (doc_row ix ws d)"
      unfolding me max_score_two [OF ws(2)] by (simp add: doc_row_def)
    then show ?thesis
      using v' m True by (simp add: term_row_def is_excluded_doc doc_row_def doc_read_def)
  qed
qed

lemma keys_of_loop:
  assumes own: "\<And>w. w \<in> set ws \<Longrightarrow> own_word ix w"
    and maps: "terms_loop ix ws ([], []) = (fm, sm)"
  shows "distinct (obj_keys fm)"
    and "set (obj_keys fm) = Doc ` (\<Union>w \<in> set (taken ix ws). set (word_docs ix w))"
proof -
  have fm: "fm = fold (push_with obj_get obj_put) (pushes ix (taken ix ws)) []"
    using maps by (simp add: terms_loop_eq obj_push_def)
  show "distinct (obj_keys fm)"
    unfolding fm by (rule multi.keys_push_all_distinct) simp
  have "w \<in> set (taken ix ws) \<Longrightarrow> set (word_files ix w) = Doc ` set (word_docs ix w)" for w
    using own taken_subset [of w ix ws] by (simp add: word_files_own)
  then show "set (obj_keys fm) = Doc ` (\<Union>w \<in> set (taken ix ws). set (word_docs ix w))"
    unfolding fm multi.keys_push_all_set keys_pushes by auto
qed

lemma enum_keys_docs:
  assumes "set ks \<subseteq> range Doc"
  shows "enum_keys ks = map Doc (doc_numbers ks)"
  using assms by (auto simp: enum_keys_def filter_empty_conv split: fkey.splits)

lemma concat_singletons: "concat (map (\<lambda>d. if P d then [f d] else []) ds) = map f (filter P ds)"
  by (induction ds) auto

lemma performTermsSearch_docs:
  assumes own: "list_all (own_word ix) ws" and sph: "sphinx_index ix ws"
    and ws: "distinct ws" "ws \<noteq> []"
  shows "\<exists>ds. performTermsSearch ws excluded ix = Inr (map (doc_row ix ws) ds) \<and>
     sorted ds \<and> distinct ds \<and> set ds = {d. has_all ix ws d \<and> \<not> only_listed ix excluded d}"
proof -
  obtain fm sm where maps: "terms_loop ix ws ([], []) = (fm, sm)" by fastforce
  have own': "w \<in> set ws \<Longrightarrow> own_word ix w" for w using own by (simp add: list_all_iff)
  note keys = keys_of_loop [OF own' maps]
  define ds where "ds = doc_numbers (obj_keys fm)"
  have enum: "enum_keys (obj_keys fm) = map Doc ds"
    unfolding ds_def by (rule enum_keys_docs) (use keys(2) in auto)
  have "map_result (term_row ix ws excluded fm sm) (map Doc ds) =
      Inr (map (\<lambda>k. case k of Doc d \<Rightarrow> if has_all ix ws d \<and> \<not> only_listed ix excluded d then [doc_row ix ws d] else []) (map Doc ds))"
    by (rule map_result_total) (auto simp: term_row_doc [OF own' sph ws maps])
  then have "performTermsSearch ws excluded ix = Inr (map (doc_row ix ws) (filter (\<lambda>d. has_all ix ws d \<and> \<not> only_listed ix excluded d) ds))"
    using maps enum by (simp add: performTermsSearch_def comp_def concat_singletons)
  moreover have "set (filter (\<lambda>d. has_all ix ws d \<and> \<not> only_listed ix excluded d) ds) = {d. has_all ix ws d \<and> \<not> only_listed ix excluded d}"
  proof -
    have "d \<in> set ds" if "has_all ix ws d" for d
    proof -
      have "hd ws \<in> set (taken ix ws)" using taken_all [OF that] ws by simp
      moreover have "d \<in> set (word_docs ix (hd ws))"
        using that ws by (simp add: has_all_def list_all_iff)
      ultimately show ?thesis by (auto simp: ds_def doc_numbers_set keys(2))
    qed
    then show ?thesis by auto
  qed
  moreover have "sorted (filter (\<lambda>d. has_all ix ws d \<and> \<not> only_listed ix excluded d) ds)" "distinct (filter (\<lambda>d. has_all ix ws d \<and> \<not> only_listed ix excluded d) ds)"
    by (simp_all add: ds_def doc_numbers_sorted doc_numbers_distinct keys(1) sorted_wrt_filter)
  ultimately show ?thesis by blast
qed

section \<open>Properties\<close>

text \<open>
  C1: On an index as Sphinx writes it, a search for distinct words of which none is a name of \<open>Object.prototype\<close> that a
  table lacks raises no error and returns one row for each document that has every word (in its text or its title) and
  is not the only document listed for an excluded word, and for no other document, in ascending order of the document
  number, scored 15 if a word is in the title and 5 otherwise. A word that more than one document has excludes none.
\<close>

theorem performTermsSearch_correct:
  assumes "list_all (own_word ix) ws" and "sphinx_index ix ws" and "distinct ws" and "ws \<noteq> []"
  shows "\<exists>ds. performTermsSearch ws excluded ix = Inr (map (doc_row ix ws) ds) \<and>
     sorted ds \<and> distinct ds \<and> set ds = {d. has_all ix ws d \<and> \<not> only_listed ix excluded d}"
  using assms by (rule performTermsSearch_docs)

definition example_index :: search_index where
  "example_index =
     \<lparr>docnames = [''developer'', ''index'', ''user''],
      filenames = [''developer.rst'', ''index.rst'', ''user.rst''],
      objects = [], objnames = [],
      terms = [(''regist'', Many [0, 1]), (''field'', One 0), (''constructor'', One 2)],
      titles = [''Developer Manual'', ''Contents'', ''User Manual''],
      titleterms = [(''manual'', Many [0, 2]), (''regist'', One 2)]\<rparr>"

theorem performTermsSearch_correct_witness:
  "\<exists>ds. performTermsSearch [''regist'', ''manual''] [''field''] example_index =
      Inr (map (doc_row example_index [''regist'', ''manual'']) ds) \<and> set ds = {2}"
proof -
  have docs: "word_docs example_index ''regist'' = [0, 1, 2]" "word_docs example_index ''manual'' = [0, 2]"
    by (simp_all add: word_docs_def example_index_def lookup_term_def obj_get_def object_prototype_def)
  have own: "list_all (own_word example_index) [''regist'', ''manual'']"
    by (simp add: own_word_def example_index_def lookup_term_def obj_get_def object_prototype_def)
  have "sphinx_index example_index [''regist'', ''manual'']"
    by (simp add: sphinx_index_def docs)
  from performTermsSearch_correct [OF own this, of "[''field'']"]
  obtain ds where "performTermsSearch [''regist'', ''manual''] [''field''] example_index =
      Inr (map (doc_row example_index [''regist'', ''manual'']) ds)"
    and "set ds = {d. has_all example_index [''regist'', ''manual''] d \<and> \<not> only_listed example_index [''field''] d}"
    by auto
  moreover have "{d. has_all example_index [''regist'', ''manual''] d \<and> \<not> only_listed example_index [''field''] d} = {2}"
    by (auto simp: has_all_def docs)
      (auto simp: only_listed_def example_index_def lookup_term_def obj_get_def object_prototype_def)
  ultimately show ?thesis by auto
qed

text \<open>
  The exclusion test compares document numbers with property names by \<open>===\<close>, so it misses
  every word that more than one document lists.
\<close>

fun several_or_none :: "posting \<Rightarrow> bool" where
  "several_or_none Absent = True"
| "several_or_none (Many ds) = (length ds \<noteq> 1)"
| "several_or_none _ = False"

lemma several_not_equal: "several_or_none p \<Longrightarrow> \<not> loosely_equal p file"
  by (cases "(p, file)" rule: loosely_equal.cases) auto

text \<open>
  Excluding words changes nothing when each of them is listed by no document or by
  several: the rows are those of the search without exclusion, although the excluded words
  may well be in the documents returned.
\<close>

theorem exclusion_ineffective:
  assumes "\<And>e. e \<in> set excluded \<Longrightarrow>
     several_or_none (lookup_term (terms ix) e) \<and> several_or_none (lookup_term (titleterms ix) e)"
  shows "performTermsSearch ws excluded ix = performTermsSearch ws [] ix"
proof -
  have "is_excluded ix excluded k = is_excluded ix [] k" for k
    using assms by (auto simp: is_excluded_def contains_strict_def list_ex_iff several_not_equal)
  then have "term_row ix ws excluded fm sm = term_row ix ws [] fm sm" for fm sm
    by (simp add: term_row_def fun_eq_iff Let_def)
  then show ?thesis by (simp add: performTermsSearch_def)
qed

theorem exclusion_ineffective_witness:
  "performTermsSearch [''manual''] [''regist''] (example_index\<lparr>titleterms := [(''manual'', Many [0, 2])]\<rparr>) =
   performTermsSearch [''manual''] [] (example_index\<lparr>titleterms := [(''manual'', Many [0, 2])]\<rparr>)"
  by (rule exclusion_ineffective)
    (auto simp: example_index_def lookup_term_def obj_get_def object_prototype_def)

text \<open>
  Searching for the word "constructor" raises a TypeError when one document has the word
  in its text and the table of title words does not have it: the title table then answers
  with the inherited function, whose score entry does not exist.
\<close>

theorem search_constructor_raises:
  assumes "obj_get (terms ix) ''constructor'' = Some (One d)"
    and "obj_get (titleterms ix) ''constructor'' = None"
  shows "performTermsSearch [''constructor''] [] ix = Inl TypeError"
proof -
  have l: "lookup_term (terms ix) ''constructor'' = One d"
      "lookup_term (titleterms ix) ''constructor'' = Native ''constructor'' 1"
    using assms by (simp_all add: lookup_term_def object_prototype_def)
  then have loop: "terms_loop ix [''constructor''] ([], []) =
      ([(Doc d, [''constructor'']), (Native_key ''constructor'', [''constructor''])],
       [(Doc d, [(''constructor'', score_term)]), (Undef_key, [(''constructor'', score_title)])])"
    by (simp add: word_unknown_def map_word_def word_files_def score_word_def set_score_def obj_push_def
        push_with_def obj_get_def obj_put_def)
  have "enum_keys [Doc d, Native_key ''constructor''] = [Doc d, Native_key ''constructor'']"
    by (simp add: enum_keys_def doc_numbers_def List.map_filter_simps)
  then show ?thesis
    unfolding performTermsSearch_def loop
    by (simp add: obj_keys_def term_row_def is_excluded_def obj_get_def)
qed

theorem search_constructor_raises_witness:
  "performTermsSearch [''constructor''] [] example_index = Inl TypeError"
  by (rule search_constructor_raises [of _ 2]) (simp_all add: example_index_def obj_get_def)

end
