(* ===== verification/Search.thy ===== *)
theory Search
  imports Stemmer SplitQuery TermSearch JS_URI "HOL-Library.List_Lexorder"
begin

text \<open>
  \<open>Search.query\<close> of \<open>searchtools.js\<close> from the query string to the rows it displays: the
  words, their stems and the lists they go to, the lookup among the documented objects, the
  ranking, and the links and summaries of the displayed items. The translation function
  \<open>_\<close> is the argument \<open>tr\<close>.
\<close>

section \<open>The words of a query\<close>

definition stopwords :: "string list" where
  "stopwords =
    [''a'', ''and'', ''are'', ''as'', ''at'', ''be'', ''but'', ''by'', ''for'', ''if'', ''in'',
     ''into'', ''is'', ''it'', ''near'', ''no'', ''not'', ''of'', ''on'', ''or'', ''such'',
     ''that'', ''the'', ''their'', ''then'', ''there'', ''these'', ''they'', ''this'', ''to'',
     ''was'', ''will'', ''with'']"

record query_words =
  searchterms :: "string list"
  excluded :: "string list"
  hlterms :: "string list"
  objectterms :: "string list"

definition add_new :: "string \<Rightarrow> string list \<Rightarrow> string list" where
  "add_new w ws = (if w \<in> set ws then ws else ws @ [w])"

text \<open>\<open>tmp[i].match(/^\d+$/)\<close>\<close>

definition all_digits :: "string \<Rightarrow> bool" where
  "all_digits w = test (Seq Bol (Seq (Plus (Cls is_digit)) Eol)) w"

definition stem_of :: "string \<Rightarrow> string" where
  "stem_of w =
     (let word = stemWord (toLowerCase w)
      in if length word < 3 \<and> 3 \<le> length w then w else word)"

definition query_word :: "query_words \<Rightarrow> string \<Rightarrow> query_words" where
  "query_word q w =
     (let q1 = (if w \<noteq> [] then q\<lparr>objectterms := objectterms q @ [toLowerCase w]\<rparr> else q)
      in if toLowerCase w \<in> set stopwords \<or> all_digits w \<or> w = [] then q1
         else let word = stem_of w in
              if nth_opt word 0 = Some (CHR ''-'')
              then q1\<lparr>excluded := add_new (substr1 word 1) (excluded q1)\<rparr>
              else q1\<lparr>hlterms := hlterms q1 @ [toLowerCase w],
                      searchterms := add_new word (searchterms q1)\<rparr>)"

definition query_words :: "string \<Rightarrow> query_words" where
  "query_words query =
     foldl query_word \<lparr>searchterms = [], excluded = [], hlterms = [], objectterms = []\<rparr>
       (splitQuery code query)"

definition highlightstring :: "query_words \<Rightarrow> string" where
  "highlightstring q = ''?highlight='' @ encodeURIComponent (join1 '' '' (hlterms q))"

section \<open>The lookup among objects\<close>

definition anchor_of :: "string \<Rightarrow> string \<Rightarrow> string \<Rightarrow> string" where
  "anchor_of anchor typ fullname =
     (if anchor = '''' then fullname
      else if anchor = ''-'' then typ @ ''-'' @ fullname else anchor)"

definition object_row ::
    "(string \<Rightarrow> string) \<Rightarrow> search_index \<Rightarrow> string \<Rightarrow> string list \<Rightarrow> string \<Rightarrow> string \<times> obj_entry \<Rightarrow>
     result_row list result" where
  "object_row tr ix object otherterms prefix entry =
     (let (name, m) = entry;
          fullname = (if prefix \<noteq> [] then prefix @ ''.'' else '''') @ name
      in if indexOf (toLowerCase fullname) object > -1 then
           let parts = split1 (CHR ''.'') fullname;
               score = (if fullname = object \<or> last parts = object then objNameMatch
                        else if indexOf (last parts) object > -1 then objPartialMatch else 0)
           in case nth_opt (objnames ix) (o_type m) of
                None \<Rightarrow> Inl TypeError
              | Some (_, typ, objname) \<Rightarrow>
                  (let title = jstr (nth_opt (titles ix) (o_doc m));
                       haystack = toLowerCase (prefix @ '' '' @ name @ '' '' @ objname @ '' '' @ title)
                   in if otherterms \<noteq> [] \<and> list_ex (\<lambda>t. indexOf haystack t = -1) otherterms
                      then Inr []
                      else Inr [\<lparr>r_doc = jstr (nth_opt (docnames ix) (o_doc m)), r_title = fullname,
                                 r_anchor = ''#'' @ anchor_of (o_anchor m) typ fullname,
                                 r_descr = Some (objname @ tr '', in '' @ title),
                                 r_score = score + (case obj_get objPrio (o_prio m) of
                                                      Some p \<Rightarrow> p | None \<Rightarrow> objPrioDefault),
                                 r_file = jstr (nth_opt (filenames ix) (o_doc m))\<rparr>])
         else Inr [])"

definition performObjectSearch ::
    "(string \<Rightarrow> string) \<Rightarrow> search_index \<Rightarrow> string \<Rightarrow> string list \<Rightarrow> result_row list result" where
  "performObjectSearch tr ix object otherterms =
     bind_result
       (map_result (\<lambda>(prefix, names).
          bind_result (map_result (object_row tr ix object otherterms prefix) names)
            (\<lambda>rows. Inr (concat rows))) (objects ix))
       (\<lambda>rows. Inr (concat rows))"

section \<open>Collecting and ranking\<close>

definition object_rows :: "(string \<Rightarrow> string) \<Rightarrow> search_index \<Rightarrow> string list \<Rightarrow> result_row list result" where
  "object_rows tr ix ots =
     bind_result
       (map_result (\<lambda>i. performObjectSearch tr ix (ots ! i) (take i ots @ drop (Suc i) ots)) [0..<length ots])
       (\<lambda>rows. Inr (concat rows))"

text \<open>The comparator: by score, then by title in reverse, because the display pops from the end.\<close>

definition result_cmp :: "result_row \<Rightarrow> result_row \<Rightarrow> int" where
  "result_cmp a b =
     (if r_score a > r_score b then 1
      else if r_score a < r_score b then -1
      else let left = toLowerCase (r_title a); right = toLowerCase (r_title b)
           in if left > right then -1 else if left < right then 1 else 0)"

definition query_results :: "(string \<Rightarrow> string) \<Rightarrow> search_index \<Rightarrow> string \<Rightarrow> result_row list result" where
  "query_results tr ix query =
     (let q = query_words query in
      bind_result (object_rows tr ix (objectterms q)) (\<lambda>os.
      bind_result (performTermsSearch (searchterms q) (excluded q) ix) (\<lambda>ts.
      Inr (sort_cmp result_cmp (os @ ts)))))"

section \<open>Display\<close>

record doc_options =
  URL_ROOT :: string
  FILE_SUFFIX :: string
  HAS_SOURCE :: bool
  SOURCELINK_SUFFIX :: string

definition dir_name :: "string \<Rightarrow> string" where
  "dir_name doc =
     (let dirname = doc @ ''/'' in
      if test (Seq (Lit ''/index/'') Eol) dirname then substring dirname 0 (int (length dirname) - 6)
      else if dirname = ''index/'' then '''' else dirname)"

definition item_href :: "doc_options \<Rightarrow> string \<Rightarrow> result_row \<Rightarrow> string" where
  "item_href opts hl item =
     (if FILE_SUFFIX opts = '''' then URL_ROOT opts @ dir_name (r_doc item) @ hl @ r_anchor item
      else r_doc item @ FILE_SUFFIX opts @ hl @ r_anchor item)"

definition source_url :: "doc_options \<Rightarrow> string \<Rightarrow> string" where
  "source_url opts fname =
     (let suffix = SOURCELINK_SUFFIX opts in
      URL_ROOT opts @ ''_sources/'' @ fname @
      (if substr1 fname (- int (length suffix)) = suffix then '''' else suffix))"

text \<open>What is shown after the link: the description, a summary of the fetched source, or nothing.\<close>

datatype item_body = Description string | Fetch_summary string | Title_only

definition item_body :: "doc_options \<Rightarrow> result_row \<Rightarrow> item_body" where
  "item_body opts item =
     (case r_descr item of
        Some d \<Rightarrow>
          if d \<noteq> [] then Description d
          else if HAS_SOURCE opts then Fetch_summary (source_url opts (r_file item)) else Title_only
      | None \<Rightarrow>
          if HAS_SOURCE opts then Fetch_summary (source_url opts (r_file item)) else Title_only)"

record display_item =
  d_href :: string
  d_title :: string
  d_body :: item_body

text \<open>\<open>displayNextItem\<close> pops the last row, shows it, and calls itself until none is left.\<close>

function display_items :: "doc_options \<Rightarrow> string \<Rightarrow> result_row list \<Rightarrow> display_item list" where
  "display_items opts hl results =
     (if results = [] then []
      else let item = last results in
           \<lparr>d_href = item_href opts hl item, d_title = r_title item, d_body = item_body opts item\<rparr> #
           display_items opts hl (butlast results))"
  by pat_completeness auto
termination
  by (relation "measure (\<lambda>(opts, hl, results). length results)") auto

declare display_items.simps [simp del]

definition status_text :: "(string \<Rightarrow> string) \<Rightarrow> nat \<Rightarrow> string" where
  "status_text tr resultCount =
     (if resultCount = 0
      then tr ''Your search did not match any documents. Please make sure that all words are spelled correctly and that you've selected enough categories.''
      else replace1 (Lit ''%s'') (\<lambda>_. show_nat resultCount)
             (tr ''Search finished, found %s page(s) matching the search query.''))"

section \<open>The summary of a page\<close>

definition keyword_start :: "string \<Rightarrow> string list \<Rightarrow> int" where
  "keyword_start textLower keywords =
     foldl (\<lambda>start k. let i = indexOf textLower (toLowerCase k) in if i > -1 then i else start) 0 keywords"

definition summary_start :: "string \<Rightarrow> string list \<Rightarrow> int" where
  "summary_start txt keywords = max (keyword_start (toLowerCase txt) keywords - 120) 0"

definition excerpt :: "string \<Rightarrow> string list \<Rightarrow> string" where
  "excerpt txt keywords =
     (let start = summary_start txt keywords in
      (if start > 0 then ''...'' else '''') @ trim (substr txt start 240) @
      (if start + 240 - int (length txt) \<noteq> 0 then ''...'' else ''''))"

section \<open>Where the words go\<close>

lemma lower_char_dash: "lower_char c = CHR ''-'' \<Longrightarrow> c = CHR ''-''"
proof -
  assume "lower_char c = CHR ''-''"
  then have "code (lower_char c) = 45" by (simp add: code_def)
  then have "code c = code (CHR ''-'')"
    unfolding code_lower_char by (simp add: code_def split: if_splits)
  then show ?thesis by (simp only: code_eq_iff)
qed

lemma split_dash: "splitChars 45"
  by (simp add: splitChars_def ranges_def)

lemma stem_of_head: "w \<noteq> [] \<Longrightarrow> stem_of w \<noteq> [] \<and> (hd (stem_of w) = hd w \<or> hd (stem_of w) = lower_char (hd w))"
  using keeps_stemWord [of "toLowerCase w"]
  by (auto simp: stem_of_def Let_def keeps_def toLowerCase_def hd_map)

lemma no_dash:
  assumes "w \<in> set (splitQuery code query)"
  shows "nth_opt (stem_of w) 0 \<noteq> Some (CHR ''-'')"
proof -
  have w: "w \<noteq> []" "\<not> splitChars (code (hd w))"
    using splitQuery_words [OF assms] by auto
  then have "hd w \<noteq> CHR ''-''" using split_dash by (auto simp: code_def)
  with stem_of_head [OF w(1)] show ?thesis
    by (auto simp: nth_opt_def hd_conv_nth [symmetric] dest: lower_char_dash)
qed

text \<open>The lists after the words \<open>ws\<close>: nothing is excluded, no term occurs twice.\<close>

lemma query_words_lists:
  assumes "\<And>w. w \<in> set ws \<Longrightarrow> nth_opt (stem_of w) 0 \<noteq> Some (CHR ''-'')"
    and "excluded q = []" "distinct (searchterms q)"
  shows "excluded (foldl query_word q ws) = [] \<and> distinct (searchterms (foldl query_word q ws))"
  using assms
proof (induction ws arbitrary: q)
  case (Cons w ws)
  have "excluded (query_word q w) = [] \<and> distinct (searchterms (query_word q w))"
    using Cons.prems by (simp add: query_word_def Let_def add_new_def)
  with Cons show ?case by simp
qed simp

text \<open>
  A query never excludes anything, although the code sorts words that start with a minus
  sign into the excluded list: the minus sign separates words, so it never reaches the test.
  The search terms carry no duplicates.
\<close>

theorem query_never_excludes: "excluded (query_words query) = [] \<and> distinct (searchterms (query_words query))"
  unfolding query_words_def by (rule query_words_lists) (auto dest: no_dash)

section \<open>Ranking\<close>

interpretation ranking: comparator result_cmp "\<lambda>_. True"
  by unfold_locales (auto simp: result_cmp_def Let_def split: if_splits)

text \<open>\<open>a\<close> is shown before \<open>b\<close>.\<close>

definition shown_before :: "result_row \<Rightarrow> result_row \<Rightarrow> bool" where
  "shown_before a b \<longleftrightarrow>
     r_score b < r_score a \<or>
     r_score a = r_score b \<and> toLowerCase (r_title a) \<le> toLowerCase (r_title b)"

lemma result_cmp_shown: "result_cmp a b \<le> 0 \<Longrightarrow> shown_before b a"
  by (auto simp: result_cmp_def shown_before_def Let_def split: if_splits)

lemma display_items_rev:
  "display_items opts hl results =
     map (\<lambda>item. \<lparr>d_href = item_href opts hl item, d_title = r_title item, d_body = item_body opts item\<rparr>)
       (rev results)"
proof (induction results rule: rev_induct)
  case Nil
  then show ?case by (simp add: display_items.simps)
next
  case (snoc r rs)
  then show ?case by (simp add: display_items.simps [of opts hl "rs @ [r]"])
qed

lemma query_results_sorted:
  assumes "query_results tr ix query = Inr rows"
  shows "sorted_wrt shown_before (rev rows)"
proof -
  from assms obtain rs where "rows = sort_cmp result_cmp rs"
    by (auto simp: query_results_def Let_def bind_result_eq_Inr)
  then have "sorted_wrt (\<lambda>a b. result_cmp a b \<le> 0) rows"
    using ranking.sorted_sort [of rs] by (simp add: list_all_iff)
  then show ?thesis
    unfolding sorted_wrt_rev by (rule sorted_wrt_mono_rel [rotated]) (rule result_cmp_shown)
qed

text \<open>
  C11: what a query displays is its object rows and its full-text rows, each exactly once, by
  descending score and alphabetically among equal scores.
\<close>

theorem display_ranked:
  assumes "object_rows tr ix (objectterms (query_words query)) = Inr os"
    and "performTermsSearch (searchterms (query_words query)) [] ix = Inr ts"
  shows "\<exists>rows. query_results tr ix query = Inr rows \<and> mset rows = mset os + mset ts \<and>
     sorted_wrt shown_before (rev rows) \<and>
     map d_title (display_items opts hl rows) = map r_title (rev rows)"
proof -
  have "excluded (query_words query) = []"
    using query_words_lists [of "splitQuery code query"] no_dash by (simp add: query_words_def)
  with assms have r: "query_results tr ix query = Inr (sort_cmp result_cmp (os @ ts))"
    by (simp add: query_results_def Let_def)
  then show ?thesis
    using query_results_sorted [OF r] by (simp add: display_items_rev comp_def)
qed

theorem display_ranked_witness:
  "\<exists>rows. query_results id example_index ''Manual'' = Inr rows \<and> sorted_wrt shown_before (rev rows)"
proof -
  let ?q = "query_words ''Manual''"
  have split: "splitQuery code ''Manual'' = [''Manual'']"
    by (simp add: splitQuery_eq_runs word_char_def code_def splitChars_ascii)
  have "searchterms (foldl query_word \<lparr>searchterms = [], excluded = [], hlterms = [], objectterms = []\<rparr>
      [''Manual'']) = [''manual''] \<and>
    objectterms (foldl query_word \<lparr>searchterms = [], excluded = [], hlterms = [], objectterms = []\<rparr>
      [''Manual'']) = [''manual'']"
    by code_simp
  then have q: "searchterms ?q = [''manual''] \<and> objectterms ?q = [''manual'']"
    by (simp only: query_words_def split)
  have os: "object_rows id example_index (objectterms ?q) = Inr []"
    unfolding conjunct2 [OF q] by code_simp
  have "\<not> isl (performTermsSearch [''manual''] [] example_index)"
    by code_simp
  then obtain ts where "performTermsSearch (searchterms ?q) [] example_index = Inr ts"
    unfolding conjunct1 [OF q] by (cases "performTermsSearch [''manual''] [] example_index") auto
  from display_ranked [OF os this] show ?thesis by blast
qed

section \<open>The window of a summary\<close>

lemma length_trim_le: "length (trim s) \<le> length s"
  unfolding trim_def
  by (metis length_dropWhile_le length_rev order_trans)

lemma length_excerpt: "length (excerpt txt ks) \<le> 246"
proof -
  have "length (trim (substr txt (summary_start txt ks) 240)) \<le> 240"
    by (rule order_trans [OF length_trim_le]) (simp add: substr_def)
  then show ?thesis by (simp add: excerpt_def Let_def)
qed

lemma toLowerCase_substr: "toLowerCase (substr s i n) = substr (toLowerCase s) i n"
  by (simp add: substr_def from_end_def toLowerCase_def take_map drop_map)

text \<open>
  The summary of a page for one keyword of at most 120 characters that occurs in the page
  is at most 246 characters long, and the window of 240 characters it is cut from contains
  the keyword's first occurrence.
\<close>

theorem excerpt_window:
  assumes "0 \<le> indexOf (toLowerCase txt) (toLowerCase k)" and "length k \<le> 120"
  shows "length (excerpt txt [k]) \<le> 246 \<and>
     (\<exists>pre post. toLowerCase (substr txt (summary_start txt [k]) 240) = pre @ toLowerCase k @ post)"
proof -
  let ?t = "toLowerCase txt" and ?k = "toLowerCase k"
  obtain i where i: "find_sub ?k ?t = Some i"
    using assms(1) by (auto simp: indexOf_def split: option.splits)
  then have ks: "keyword_start ?t [k] = int i"
    by (simp add: keyword_start_def indexOf_def)
  define a where "a = i - 120"
  have st: "summary_start txt [k] = int a"
    by (simp add: summary_start_def ks a_def)
  have "take (length ?k) (drop (i - a) (take 240 (drop a ?t))) = take (length ?k) (drop i ?t)"
    using assms(2) by (simp add: a_def drop_take min_def)
  also have "\<dots> = ?k" using find_sub_Some [OF i] by blast
  finally have "?k = take (length ?k) (drop (i - a) (take 240 (drop a ?t)))" by simp
  then have "take 240 (drop a ?t) = take (i - a) (take 240 (drop a ?t)) @ ?k @
      drop (length ?k) (drop (i - a) (take 240 (drop a ?t)))"
    by (metis append_take_drop_id)
  then have "\<exists>pre post. take 240 (drop a ?t) = pre @ ?k @ post" by blast
  then show ?thesis
    unfolding toLowerCase_substr st by (simp add: substr_def from_end_def length_excerpt)
qed

theorem excerpt_window_witness:
  "\<exists>pre post. toLowerCase (substr ''The Register map'' (summary_start ''The Register map'' [''register'']) 240) =
     pre @ ''register'' @ post"
proof -
  have h: "0 \<le> indexOf (toLowerCase ''The Register map'') (toLowerCase ''register'')" by code_simp
  have l: "toLowerCase ''register'' = ''register''" by code_simp
  show ?thesis using excerpt_window [OF h] by (simp add: l)
qed

end
