(* ===== verification/SearchUI.thy ===== *)
theory SearchUI
  imports Search
begin

text \<open>
  The state of the \<open>Search\<close> object of \<open>searchtools.js\<close>: the index that arrives by itself, the
  query that may have to wait for it, and the pulse of the progress dots. The asynchronous
  events (a timer fires, the index script runs, the last item is shown) are the steps of a
  transition relation.
\<close>

section \<open>State and operations\<close>

text \<open>
  \<open>ran\<close> records the calls of \<open>query\<close> with the index they used; \<open>timers\<close> counts the pending
  \<open>setTimeout(pulse, 500)\<close> and \<open>showing\<close> the queries whose rows are still being displayed.
\<close>

record search_state =
  index_of :: "search_index option"
  queued_query :: "string option"
  pulse_status :: int
  dots :: string
  timers :: nat
  showing :: nat
  ran :: "(string \<times> search_index) list"

definition init_state :: search_state where
  "init_state = \<lparr>index_of = None, queued_query = None, pulse_status = -1, dots = '''',
                 timers = 0, showing = 0, ran = []\<rparr>"

definition run_query :: "string \<Rightarrow> search_index \<Rightarrow> search_state \<Rightarrow> search_state" where
  "run_query q ix s = s\<lparr>ran := ran s @ [(q, ix)], showing := Suc (showing s)\<rparr>"

definition setIndex :: "search_index \<Rightarrow> search_state \<Rightarrow> search_state" where
  "setIndex ix s =
     (let s1 = s\<lparr>index_of := Some ix\<rparr> in
      case queued_query s1 of
        Some q \<Rightarrow> run_query q ix (s1\<lparr>queued_query := None\<rparr>)
      | None \<Rightarrow> s1)"

definition hasIndex :: "search_state \<Rightarrow> bool" where
  "hasIndex s \<longleftrightarrow> index_of s \<noteq> None"

definition deferQuery :: "string \<Rightarrow> search_state \<Rightarrow> search_state" where
  "deferQuery q s = s\<lparr>queued_query := Some q\<rparr>"

definition stopPulse :: "search_state \<Rightarrow> search_state" where
  "stopPulse s = s\<lparr>pulse_status := 0\<rparr>"

text \<open>The inner function \<open>pulse\<close>: the next number of dots, and a timer for the next pulse.\<close>

definition pulse :: "search_state \<Rightarrow> search_state" where
  "pulse s =
     (let p = (pulse_status s + 1) mod 4;
          s1 = s\<lparr>pulse_status := p, dots := concat (replicate (nat p) ''.'')\<rparr>
      in if pulse_status s1 > -1 then s1\<lparr>timers := Suc (timers s1)\<rparr> else s1)"

definition startPulse :: "search_state \<Rightarrow> search_state" where
  "startPulse s = (if pulse_status s \<ge> 0 then s else pulse s)"

definition performSearch :: "string \<Rightarrow> search_state \<Rightarrow> search_state" where
  "performSearch q s =
     (let s1 = startPulse s in
      case index_of s1 of
        Some ix \<Rightarrow> run_query q ix s1
      | None \<Rightarrow> deferQuery q s1)"

section \<open>The events\<close>

inductive ui_step :: "search_state \<Rightarrow> search_state \<Rightarrow> bool" where
  search: "ui_step s (performSearch q s)"
| index_loaded: "ui_step s (setIndex ix s)"
| timer: "0 < timers s \<Longrightarrow> ui_step s (pulse (s\<lparr>timers := timers s - 1\<rparr>))"
| shown: "0 < showing s \<Longrightarrow> ui_step s (stopPulse (s\<lparr>showing := showing s - 1\<rparr>))"

inductive_cases ui_stepE: "ui_step s t"

inductive ui_reachable :: "search_state \<Rightarrow> bool" where
  start: "ui_reachable init_state"
| step: "ui_reachable s \<Longrightarrow> ui_step s t \<Longrightarrow> ui_reachable t"

inductive ui_steps :: "search_state \<Rightarrow> search_state \<Rightarrow> bool" where
  none: "ui_steps s s"
| more: "ui_steps s t \<Longrightarrow> ui_step t u \<Longrightarrow> ui_steps s u"

section \<open>The invariant\<close>

text \<open>
  A query waits only while there is no index, every query ran on the index of its time, and
  a timer is pending exactly when the pulse was ever started.
\<close>

definition ui_inv :: "search_state \<Rightarrow> bool" where
  "ui_inv s \<longleftrightarrow>
     (queued_query s \<noteq> None \<longrightarrow> index_of s = None) \<and>
     (index_of s = None \<longrightarrow> ran s = []) \<and>
     (pulse_status s = -1 \<and> timers s = 0 \<or>
      0 \<le> pulse_status s \<and> pulse_status s < 4 \<and> timers s = 1)"

lemma ui_inv_init: "ui_inv init_state"
  by (simp add: ui_inv_def init_state_def)

lemma pulse_fields:
  assumes "-1 \<le> pulse_status s"
  shows "index_of (pulse s) = index_of s" "queued_query (pulse s) = queued_query s" "ran (pulse s) = ran s"
    "pulse_status (pulse s) = (pulse_status s + 1) mod 4" "timers (pulse s) = Suc (timers s)"
proof -
  have "-1 < (pulse_status s + 1) mod 4"
    using pos_mod_sign [of 4 "pulse_status s + 1"] by linarith
  then show "index_of (pulse s) = index_of s" "queued_query (pulse s) = queued_query s" "ran (pulse s) = ran s"
    "pulse_status (pulse s) = (pulse_status s + 1) mod 4" "timers (pulse s) = Suc (timers s)"
    by (simp_all add: pulse_def Let_def)
qed

lemma pulse_inv:
  assumes "ui_inv s" and "timers s = 0 \<or> timers s = 1"
  shows "ui_inv (pulse (s\<lparr>timers := 0\<rparr>))"
proof -
  have "-1 \<le> pulse_status (s\<lparr>timers := 0\<rparr>)" using assms by (auto simp: ui_inv_def)
  note f = pulse_fields [OF this]
  show ?thesis
    using assms(1) f by (auto simp: ui_inv_def)
qed

lemma startPulse_inv: "ui_inv s \<Longrightarrow> ui_inv (startPulse s)"
proof -
  assume i: "ui_inv s"
  show ?thesis
  proof (cases "pulse_status s \<ge> 0")
    case False
    with i have "timers s = 0" by (auto simp: ui_inv_def)
    then have same: "s\<lparr>timers := 0\<rparr> = s" by simp
    show ?thesis
      using pulse_inv [OF i, unfolded same] False \<open>timers s = 0\<close> by (simp add: startPulse_def)
  qed (simp add: startPulse_def i)
qed

lemma performSearch_inv: "ui_inv s \<Longrightarrow> ui_inv (performSearch q s)"
  using startPulse_inv [of s]
  by (auto simp: performSearch_def Let_def run_query_def deferQuery_def ui_inv_def split: option.splits)

lemma setIndex_inv: "ui_inv s \<Longrightarrow> ui_inv (setIndex ix s)"
  by (auto simp: setIndex_def Let_def run_query_def ui_inv_def split: option.splits)

lemma stopPulse_inv: "ui_inv s \<Longrightarrow> 0 < showing s \<Longrightarrow> timers s = 1 \<Longrightarrow> ui_inv (stopPulse (s\<lparr>showing := n\<rparr>))"
  by (auto simp: stopPulse_def ui_inv_def)

text \<open>Rows are shown only after a search started the pulse.\<close>

definition ui_full :: "search_state \<Rightarrow> bool" where
  "ui_full s \<longleftrightarrow> ui_inv s \<and> (0 < showing s \<or> queued_query s \<noteq> None \<longrightarrow> timers s = 1)"

lemma timers_startPulse: "ui_inv s \<Longrightarrow> timers (startPulse s) = 1"
  using startPulse_inv [of s] pulse_fields(4) [of s]
  by (auto simp: ui_inv_def startPulse_def)

lemma ui_step_full: "ui_step s t \<Longrightarrow> ui_full s \<Longrightarrow> ui_full t"
proof (induction rule: ui_step.induct)
  case (search s q)
  then have "ui_inv s" by (simp add: ui_full_def)
  then show ?case
    using performSearch_inv [of s q] timers_startPulse [of s]
    by (auto simp: ui_full_def performSearch_def Let_def run_query_def deferQuery_def split: option.splits)
next
  case (index_loaded s ix)
  then show ?case
    using setIndex_inv [of s ix]
    by (auto simp: ui_full_def setIndex_def Let_def run_query_def split: option.splits)
next
  case (timer s)
  then have "timers s = 1" by (auto simp: ui_full_def ui_inv_def)
  with timer have "ui_inv (pulse (s\<lparr>timers := timers s - 1\<rparr>))"
    using pulse_inv [of s] by (simp add: ui_full_def)
  moreover have "timers (pulse (s\<lparr>timers := timers s - 1\<rparr>)) = 1"
    using timer \<open>timers s = 1\<close> pulse_fields(5) [of "s\<lparr>timers := 0\<rparr>"]
    by (auto simp: ui_full_def ui_inv_def)
  ultimately show ?case by (simp add: ui_full_def)
next
  case (shown s)
  then show ?case
    using stopPulse_inv [of s] by (auto simp: ui_full_def stopPulse_def)
qed

lemma ui_init_full: "ui_full init_state"
  by (simp add: ui_full_def ui_inv_init) (simp add: init_state_def)

lemma ui_reachable_full: "ui_reachable s \<Longrightarrow> ui_full s"
  by (induction rule: ui_reachable.induct) (auto intro: ui_init_full ui_step_full)

section \<open>Properties\<close>

text \<open>
  C37: in every reachable state a query waits only while the index is missing, and no query
  has run before the index arrived.
\<close>

theorem query_waits_for_index:
  assumes "ui_reachable s"
  shows "(queued_query s \<noteq> None \<longrightarrow> \<not> hasIndex s) \<and> (\<not> hasIndex s \<longrightarrow> ran s = [])"
  using ui_reachable_full [OF assms] by (auto simp: ui_full_def ui_inv_def hasIndex_def)

theorem query_waits_for_index_witness:
  "queued_query (performSearch ''vhdl'' init_state) = Some ''vhdl'' \<and>
   \<not> hasIndex (performSearch ''vhdl'' init_state)"
proof -
  have "ui_reachable (performSearch ''vhdl'' init_state)"
    by (rule ui_reachable.step [OF ui_reachable.start ui_step.search])
  then show ?thesis
    using query_waits_for_index [of "performSearch ''vhdl'' init_state"]
    by (simp add: performSearch_def startPulse_def pulse_def Let_def init_state_def deferQuery_def)
qed

text \<open>
  Whichever comes first, the search or the index, the query runs exactly once, on that
  index, and nothing is left waiting.
\<close>

theorem search_runs_once:
  "ran (setIndex ix (performSearch q init_state)) = [(q, ix)] \<and>
   queued_query (setIndex ix (performSearch q init_state)) = None \<and>
   ran (performSearch q (setIndex ix init_state)) = [(q, ix)] \<and>
   queued_query (performSearch q (setIndex ix init_state)) = None"
  by (simp add: performSearch_def setIndex_def startPulse_def pulse_def Let_def init_state_def
      deferQuery_def run_query_def)

text \<open>
  \<open>stopPulse\<close> does not stop the pulse: once a search has started it, a timer is pending
  in every later state, also after the results are complete and \<open>stopPulse\<close> was called.
\<close>

theorem pulse_never_stops:
  assumes "ui_reachable s" and "0 \<le> pulse_status s" and "ui_steps s t"
  shows "timers t = 1 \<and> 0 \<le> pulse_status t"
proof -
  have pos: "0 \<le> pulse_status v \<Longrightarrow> ui_step v u \<Longrightarrow> ui_full v \<Longrightarrow> 0 \<le> pulse_status u" for u v
    by (erule ui_stepE)
      (auto simp: performSearch_def setIndex_def startPulse_def run_query_def deferQuery_def stopPulse_def
        pulse_def Let_def split: option.splits)
  from assms(3,1,2) have "ui_full t \<and> 0 \<le> pulse_status t"
  proof (induction rule: ui_steps.induct)
    case (none s)
    then show ?case by (simp add: ui_reachable_full)
  next
    case (more s t u)
    then show ?case using ui_step_full pos by blast
  qed
  then show ?thesis by (auto simp: ui_full_def ui_inv_def)
qed

theorem pulse_never_stops_witness:
  "timers (stopPulse ((performSearch ''vhdl'' (setIndex example_index init_state))\<lparr>showing := 0\<rparr>)) = 1"
proof -
  let ?s = "performSearch ''vhdl'' (setIndex example_index init_state)"
  have r: "ui_reachable ?s"
    by (rule ui_reachable.step [OF ui_reachable.step [OF ui_reachable.start ui_step.index_loaded]
          ui_step.search])
  have p: "0 \<le> pulse_status ?s" and n: "showing ?s = 1"
    by (simp_all add: performSearch_def setIndex_def startPulse_def pulse_def Let_def init_state_def
        run_query_def)
  have "ui_steps ?s (stopPulse (?s\<lparr>showing := showing ?s - 1\<rparr>))"
    by (rule ui_steps.more [OF ui_steps.none], rule ui_step.shown) (simp add: n)
  from pulse_never_stops [OF r p this] n show ?thesis by simp
qed

end
