(* ===== verification/Doctools.thy ===== *)
theory Doctools
  imports JS_Regex JS_URI
begin

text \<open>
  \<open>doctools.js\<close>: the URL helpers and the query parameters, the translations, the browser
  detection, the index toggles and the key listener. Decoded strings are lists of code
  units (\<open>nat\<close>), since a percent sequence can produce any of them.
\<close>

section \<open>Query parameters\<close>

type_synonym units = "nat list"
type_synonym params = "(units, units list) jsobj"

definition plus_space :: "nat \<Rightarrow> nat" where
  "plus_space u = (if u = 43 then 32 else u)"

text \<open>\<open>jQuery.urldecode\<close>: the plus signs are replaced after decoding.\<close>

definition urldecode :: "string \<Rightarrow> units result" where
  "urldecode x = bind_result (decodeURIComponent x) (\<lambda>us. Inr (map plus_space us))"

text \<open>
  \<open>key in result\<close> is also true of the names the empty object inherits; what is read there
  has no method \<open>push\<close>.
\<close>

definition inherited :: "units list" where
  "inherited = map (map code) (''__proto__'' # map fst object_prototype)"

definition add_param :: "units \<Rightarrow> units \<Rightarrow> params \<Rightarrow> params result" where
  "add_param key value m =
     (if obj_get m key = None \<and> key \<in> set inherited then Inl TypeError
      else Inr (obj_push (key, value) m))"

fun add_params :: "string list \<Rightarrow> params \<Rightarrow> params result" where
  "add_params [] m = Inr m"
| "add_params (p # ps) m =
     (let tmp = take 2 (split1 (CHR ''='') p) in
      bind_result (urldecode (jstr (nth_opt tmp 0))) (\<lambda>key.
      bind_result (urldecode (jstr (nth_opt tmp 1))) (\<lambda>value.
      bind_result (add_param key value m) (add_params ps))))"

definition getQueryParameters :: "string \<Rightarrow> params result" where
  "getQueryParameters s = add_params (split1 (CHR ''&'') (substr1 s (indexOf s ''?'' + 1))) []"

subsection \<open>The words to highlight\<close>

text \<open>White space as \<open>\s\<close> understands it.\<close>

definition unit_space :: "nat \<Rightarrow> bool" where
  "unit_space u \<longleftrightarrow> 9 \<le> u \<and> u \<le> 13 \<or> 8192 \<le> u \<and> u \<le> 8202 \<or>
     u \<in> {32, 160, 5760, 8232, 8233, 8239, 8287, 12288, 65279}"

text \<open>\<open>s.split(/\s+/)\<close>: each maximal run of white space separates two pieces.\<close>

function split_space :: "units \<Rightarrow> units list" where
  "split_space s =
     (case dropWhile (\<lambda>u. \<not> unit_space u) s of
        [] \<Rightarrow> [s]
      | r \<Rightarrow> takeWhile (\<lambda>u. \<not> unit_space u) s # split_space (dropWhile unit_space r))"
  by pat_completeness auto
termination
proof (relation "measure length")
  fix s :: units and u us
  assume r: "dropWhile (\<lambda>u. \<not> unit_space u) s = u # us"
  then have "unit_space u" by (metis hd_dropWhile list.sel(1) list.distinct(1))
  moreover have "length (u # us) \<le> length s" by (metis r length_dropWhile_le)
  moreover have "length (dropWhile unit_space us) \<le> length us" by (rule length_dropWhile_le)
  ultimately show "(dropWhile unit_space (u # us), s) \<in> measure length" by simp
qed simp

declare split_space.simps [simp del]

text \<open>
  \<open>Documentation.highlightSearchWords\<close>: the terms of the parameter \<open>highlight\<close>; a function
  inherited under that name there is not. The case mapping is the argument \<open>lower\<close>.
\<close>

definition highlight_terms :: "(nat \<Rightarrow> nat) \<Rightarrow> string \<Rightarrow> units list result" where
  "highlight_terms lower search =
     bind_result (getQueryParameters search) (\<lambda>params.
       case obj_get params (map code ''highlight'') of
         Some (v # _) \<Rightarrow> Inr (map (map lower) (split_space v))
       | _ \<Rightarrow> Inr [])"

lemma split_space_word: "(\<forall>u \<in> set w. \<not> unit_space u) \<Longrightarrow> split_space w = [w]"
proof -
  assume "\<forall>u \<in> set w. \<not> unit_space u"
  then have none: "dropWhile (\<lambda>u. \<not> unit_space u) w = []" by simp
  show ?thesis by (subst split_space.simps) (simp only: none list.case)
qed

lemma split_space_sep:
  assumes "\<forall>u \<in> set w. \<not> unit_space u" and "r \<noteq> []" and "\<not> unit_space (hd r)"
  shows "split_space (w @ 32 # r) = w # split_space r"
proof -
  have sp: "unit_space 32" by (simp add: unit_space_def)
  have d: "dropWhile (\<lambda>u. \<not> unit_space u) (w @ 32 # r) = 32 # r"
    using assms(1) sp by (simp add: dropWhile_append2)
  have t: "takeWhile (\<lambda>u. \<not> unit_space u) (w @ 32 # r) = w"
    using assms(1) sp by (simp add: takeWhile_append2)
  have "dropWhile unit_space (32 # r) = r" using assms(2,3) sp by (cases r) auto
  then show ?thesis by (subst split_space.simps) (simp add: d t)
qed

section \<open>Lemmas on the parameters\<close>

lemma urldecode_encode: "urldecode (encodeURIComponent s) = Inr (map (plus_space \<circ> code) s)"
  by (simp add: urldecode_def decode_encode)

definition query_part :: "string \<times> string \<Rightarrow> string" where
  "query_part kv = encodeURIComponent (fst kv) @ ''='' @ encodeURIComponent (snd kv)"

definition query_string :: "(string \<times> string) list \<Rightarrow> string" where
  "query_string kvs = ''?'' @ join1 ''&'' (map query_part kvs)"

definition param_of :: "string \<times> string \<Rightarrow> units \<times> units" where
  "param_of kv = (map (plus_space \<circ> code) (fst kv), map (plus_space \<circ> code) (snd kv))"

lemma split_query_part:
  "take 2 (split1 (CHR ''='') (query_part kv)) = [encodeURIComponent (fst kv), encodeURIComponent (snd kv)]"
  using encode_no_delim [of "fst kv"] encode_no_delim [of "snd kv"]
  by (simp add: query_part_def split1_append split1_piece)

lemma query_part_no_amp: "CHR ''&'' \<notin> set (query_part kv)"
  using encode_no_delim [of "fst kv"] encode_no_delim [of "snd kv"] by (simp add: query_part_def)

lemma obj_push_simp: "obj_push = push_with obj_get obj_put"
  by (simp add: obj_push_def)

lemma add_params_encoded:
  assumes "\<And>kv. kv \<in> set kvs \<Longrightarrow> fst (param_of kv) \<notin> set inherited"
  shows "add_params (map query_part kvs) m = Inr (fold obj_push (map param_of kvs) m)"
  using assms
proof (induction kvs arbitrary: m)
  case (Cons kv kvs)
  have k: "fst (param_of kv) \<notin> set inherited" using Cons.prems by simp
  then have "add_param (fst (param_of kv)) (snd (param_of kv)) m = Inr (obj_push (param_of kv) m)"
    by (simp add: add_param_def)
  moreover have "add_params (map query_part kvs) (obj_push (param_of kv) m) =
      Inr (fold obj_push (map param_of kvs) (obj_push (param_of kv) m))"
    using Cons by simp
  ultimately show ?case
    by (simp add: split_query_part nth_opt_def urldecode_encode Let_def)
      (simp add: param_of_def o_def cong: map_cong)
qed simp

lemma split_query_string:
  assumes "kvs \<noteq> []"
  shows "split1 (CHR ''&'') (substr1 (query_string kvs) (indexOf (query_string kvs) ''?'' + 1)) =
    map query_part kvs"
proof -
  have "find_sub ''?'' (query_string kvs) = Some 0" by (simp add: query_string_def)
  then have "substr1 (query_string kvs) (indexOf (query_string kvs) ''?'' + 1) =
      join1 ''&'' (map query_part kvs)"
    by (simp add: indexOf_def substr1_def from_end_def query_string_def)
  then show ?thesis
    using assms query_part_no_amp by (simp add: split_join)
qed

lemma params_of_query_string:
  assumes "kvs \<noteq> []" and "\<And>kv. kv \<in> set kvs \<Longrightarrow> fst (param_of kv) \<notin> set inherited"
  shows "getQueryParameters (query_string kvs) = Inr (fold obj_push (map param_of kvs) [])"
  using assms by (simp add: getQueryParameters_def split_query_string add_params_encoded)

lemma add_params_inherited:
  assumes "\<exists>kv \<in> set kvs. fst (param_of kv) \<in> set inherited"
    and "\<forall>k \<in> set (obj_keys m). k \<notin> set inherited"
  shows "add_params (map query_part kvs) m = Inl TypeError"
  using assms
proof (induction kvs arbitrary: m)
  case (Cons kv kvs)
  have step: "add_params (map query_part (kv # kvs)) m =
      bind_result (add_param (fst (param_of kv)) (snd (param_of kv)) m) (add_params (map query_part kvs))"
    by (simp add: split_query_part nth_opt_def urldecode_encode Let_def param_of_def)
  show ?case
  proof (cases "fst (param_of kv) \<in> set inherited")
    case True
    with Cons.prems(2) have "obj_get m (fst (param_of kv)) = None"
      by (metis obj_in_keys)
    with True show ?thesis by (simp only: step) (simp add: add_param_def)
  next
    case False
    then have "add_param (fst (param_of kv)) (snd (param_of kv)) m = Inr (obj_push (param_of kv) m)"
      by (simp add: add_param_def)
    moreover have "\<forall>k \<in> set (obj_keys (obj_push (param_of kv) m)). k \<notin> set inherited"
      using Cons.prems(2) False by (auto simp: obj_push_simp multi.keys_push)
    ultimately show ?thesis
      using Cons False by (simp only: step) auto
  qed
qed simp

section \<open>Translations\<close>

text \<open>
  The members of \<open>Documentation\<close> that the translation functions read. A catalogue maps a
  message to a string or to the array of its plural forms; \<open>TRANSLATIONS\<close> is an object literal,
  so it also inherits functions. \<open>plural_expr\<close> is source text that the code compiles with
  \<open>new Function\<close>: the model takes the compiled function.
\<close>

datatype translation = Text string | Forms "string list" | Inherited

datatype member =
    Table "(string, translation) jsobj"
  | Plural "int \<Rightarrow> int"
  | Locale string

type_synonym documentation = "(string, member) jsobj"

record catalog =
  messages :: "(string, translation) jsobj"
  plural_expr :: "int \<Rightarrow> int"
  locale_name :: string

definition Documentation :: documentation where
  "Documentation =
     [(''TRANSLATIONS'', Table []), (''PLURAL_EXPR'', Plural (\<lambda>n. if n = 1 then 0 else 1)),
      (''LOCALE'', Locale ''unknown'')]"

definition translation_table :: "documentation \<Rightarrow> (string, translation) jsobj" where
  "translation_table d = (case obj_get d ''TRANSLATIONS'' of Some (Table t) \<Rightarrow> t | _ \<Rightarrow> [])"

definition translated :: "documentation \<Rightarrow> string \<Rightarrow> translation option" where
  "translated d s =
     (case obj_get (translation_table d) s of
        Some t \<Rightarrow> Some t
      | None \<Rightarrow> if s \<in> set (''__proto__'' # map fst object_prototype) then Some Inherited else None)"

text \<open>\<open>translated[i]\<close>: a character of a string, an element of an array, \<open>undefined\<close> otherwise.\<close>

definition element :: "translation \<Rightarrow> int \<Rightarrow> string option" where
  "element t i =
     (if i < 0 then None
      else case t of
        Text s \<Rightarrow> map_option (\<lambda>c. [c]) (nth_opt s (nat i))
      | Forms fs \<Rightarrow> nth_opt fs (nat i)
      | Inherited \<Rightarrow> None)"

definition gettext :: "documentation \<Rightarrow> string \<Rightarrow> string option" where
  "gettext d s =
     (case translated d s of
        None \<Rightarrow> Some s
      | Some (Text t) \<Rightarrow> Some t
      | Some t \<Rightarrow> element t 0)"

text \<open>A call of a member that is not a function raises a \<open>TypeError\<close>.\<close>

definition call_plural :: "documentation \<Rightarrow> string \<Rightarrow> int \<Rightarrow> int result" where
  "call_plural d f n = (case obj_get d f of Some (Plural p) \<Rightarrow> Inr (p n) | _ \<Rightarrow> Inl TypeError)"

definition ngettext :: "documentation \<Rightarrow> string \<Rightarrow> string \<Rightarrow> int \<Rightarrow> string option result" where
  "ngettext d singular plural n =
     (case translated d singular of
        None \<Rightarrow> Inr (Some (if n = 1 then singular else plural))
      | Some t \<Rightarrow> bind_result (call_plural d ''PLURALEXPR'' n) (\<lambda>i. Inr (element t i)))"

definition addTranslations :: "catalog \<Rightarrow> documentation \<Rightarrow> documentation" where
  "addTranslations c d =
     (let t = foldl (\<lambda>t km. obj_put (fst km) (snd km) t) (translation_table d) (messages c);
          d1 = obj_put ''TRANSLATIONS'' (Table t) d;
          d2 = obj_put ''PLURAL_EXPR'' (Plural (plural_expr c)) d1
      in obj_put ''LOCALE'' (Locale (locale_name c)) d2)"

inductive documentation_reachable :: "documentation \<Rightarrow> bool" where
  initial: "documentation_reachable Documentation"
| loaded: "documentation_reachable d \<Longrightarrow> documentation_reachable (addTranslations c d)"

lemma obj_get_foldl_put:
  "obj_get (foldl (\<lambda>t km. obj_put (fst km) (snd km) t) t kms) k =
     (case map_of (rev kms) k of Some v \<Rightarrow> Some v | None \<Rightarrow> obj_get t k)"
  by (induction kms arbitrary: t) (auto simp: js_obj map_add_def split: option.splits)

lemma translation_table_add:
  "obj_get (translation_table (addTranslations c d)) k =
     (case map_of (rev (messages c)) k of Some v \<Rightarrow> Some v | None \<Rightarrow> obj_get (translation_table d) k)"
  by (simp add: addTranslations_def translation_table_def [of "obj_put _ _ _"] js_obj Let_def obj_get_foldl_put)

lemma no_PLURALEXPR: "documentation_reachable d \<Longrightarrow> obj_get d ''PLURALEXPR'' = None"
proof (induction rule: documentation_reachable.induct)
  case initial
  show ?case by (simp add: Documentation_def obj_get_def)
next
  case (loaded d c)
  then show ?case by (simp add: addTranslations_def js_obj Let_def)
qed

section \<open>URLs\<close>

definition makeURL :: "string \<Rightarrow> string \<Rightarrow> string" where
  "makeURL root relativeURL = root @ ''/'' @ relativeURL"

definition lastIndexOf1 :: "'a list \<Rightarrow> 'a \<Rightarrow> int" where
  "lastIndexOf1 s c =
     (case find_sub [c] (rev s) of None \<Rightarrow> -1 | Some i \<Rightarrow> int (length s) - 1 - int i)"

definition getCurrentURL :: "string \<Rightarrow> string \<Rightarrow> string" where
  "getCurrentURL root path =
     (let parts = foldl (\<lambda>ps r. if r = ''..'' then butlast ps else ps)
                    (split1 (CHR ''/'') path) (split1 (CHR ''/'') root);
          url = join1 ''/'' parts
      in substring path (lastIndexOf1 url (CHR ''/'') + 1) (int (length path) - 1))"

lemma pops: "foldl (\<lambda>ps r. if r = x then butlast ps else ps) ps rs =
    take (length ps - length (filter (\<lambda>r. r = x) rs)) ps"
proof (induction rs arbitrary: ps)
  case (Cons r rs)
  show ?case
  proof (cases "r = x")
    case True
    have "foldl (\<lambda>ps r. if r = x then butlast ps else ps) ps (r # rs) =
        take (length (butlast ps) - length (filter (\<lambda>r. r = x) rs)) (butlast ps)"
      using True Cons by simp
    also have "\<dots> = take (length ps - length (filter (\<lambda>r. r = x) (r # rs))) ps"
      using True by (simp add: butlast_conv_take min_def)
    finally show ?thesis .
  next
    case False
    with Cons show ?thesis by simp
  qed
qed simp

lemma find_sub_absent: "c \<notin> set s \<Longrightarrow> find_sub [c] s = None"
  by (auto simp: find_sub_None_iff)

lemma find_sub_first: "c \<notin> set u \<Longrightarrow> find_sub [c] (u @ c # v) = Some (length u)"
  by (induction u) auto

lemma lastIndexOf1_absent: "c \<notin> set s \<Longrightarrow> lastIndexOf1 s c = -1"
  by (simp add: lastIndexOf1_def find_sub_absent)

lemma lastIndexOf1_last: "c \<notin> set v \<Longrightarrow> lastIndexOf1 (u @ c # v) c = int (length u)"
  using find_sub_first [of c "rev v" "rev u"] by (simp add: lastIndexOf1_def)

lemma join1_snoc: "ws \<noteq> [] \<Longrightarrow> join1 sep (ws @ [w]) = join1 sep ws @ sep @ w"
  by (induction sep ws rule: join1.induct) auto

lemma join1_append: "ws \<noteq> [] \<Longrightarrow> vs \<noteq> [] \<Longrightarrow> join1 sep (ws @ vs) = join1 sep ws @ sep @ join1 sep vs"
proof (induction sep ws rule: join1.induct)
  case (2 sep w)
  then show ?case by (cases vs) auto
qed auto

lemma substring_butlast:
  assumes "path = a @ b" and "b \<noteq> []"
  shows "substring path (int (length a)) (int (length path) - 1) = butlast b"
proof -
  have "nat (int (length path) - 1) = length path - 1" using assms by (simp add: nat_diff_distrib')
  moreover have "length a \<le> length path - 1" using assms by (cases b) auto
  moreover have "length path - 1 - length a = length b - 1" using assms by simp
  ultimately show ?thesis using assms(1)
    by (simp add: substring_def Let_def butlast_conv_take max_absorb2 min_absorb1
        del: One_nat_def length_append)
qed

lemma getCurrentURL_butlast:
  assumes ps: "\<forall>p \<in> set ps. CHR ''/'' \<notin> set p"
    and n: "n = length (filter (\<lambda>r. r = ''..'') (split1 (CHR ''/'') root))" "n < length ps"
    and rest: "rest = join1 ''/'' (drop (length ps - 1 - n) ps)" "rest \<noteq> []"
  shows "getCurrentURL root (join1 ''/'' ps) = butlast rest"
proof -
  let ?k = "length ps - 1 - n" and ?path = "join1 ''/'' ps"
  have k: "?k < length ps" using n by simp
  have parts: "foldl (\<lambda>ps r. if r = ''..'' then butlast ps else ps)
        (split1 (CHR ''/'') ?path) (split1 (CHR ''/'') root) = take ?k ps @ [ps ! ?k]"
  proof -
    have "ps \<noteq> []" using n by auto
    then have "split1 (CHR ''/'') ?path = ps" using ps by (simp add: split_join)
    moreover have "length ps - n = Suc ?k" using n by simp
    ultimately show ?thesis using k by (simp add: pops n(1) [symmetric] take_Suc_conv_app_nth)
  qed
  have last: "CHR ''/'' \<notin> set (ps ! ?k)" using ps k by simp
  have dropped: "drop ?k ps \<noteq> []" using k by simp
  show ?thesis
  proof (cases "?k = 0")
    case True
    with parts last rest show ?thesis
      using substring_butlast [of ?path "[]" rest]
      by (simp add: getCurrentURL_def lastIndexOf1_absent)
  next
    case False
    have nonempty: "take ?k ps \<noteq> []" using False k by auto
    then have "join1 ''/'' (take ?k ps @ [ps ! ?k]) = join1 ''/'' (take ?k ps) @ CHR ''/'' # ps ! ?k"
      by (simp add: join1_snoc)
    then have idx: "lastIndexOf1 (join1 ''/'' (take ?k ps @ [ps ! ?k])) (CHR ''/'') + 1 =
        int (length (join1 ''/'' (take ?k ps) @ ''/''))"
      using last by (simp add: lastIndexOf1_last)
    have "?path = join1 ''/'' (take ?k ps @ drop ?k ps)" by simp
    then have "?path = (join1 ''/'' (take ?k ps) @ ''/'') @ rest"
      using join1_append [OF nonempty dropped] rest(1) by simp
    from substring_butlast [OF this rest(2)] show ?thesis
      by (simp only: getCurrentURL_def parts Let_def idx)
  qed
qed

section \<open>The key listener\<close>

text \<open>
  A \<open>switch\<close> runs the statements of the matching case and, unless one returns, those of the
  cases below it.
\<close>

fun fall_through :: "(int \<times> 'a option) list \<Rightarrow> 'a option" where
  "fall_through [] = None"
| "fall_through ((l, b) # cs) = (case b of Some v \<Rightarrow> Some v | None \<Rightarrow> fall_through cs)"

fun switch :: "int \<Rightarrow> (int \<times> 'a option) list \<Rightarrow> 'a option" where
  "switch k [] = None"
| "switch k ((l, b) # cs) = (if k = l then fall_through ((l, b) # cs) else switch k cs)"

definition truthy :: "string option \<Rightarrow> string option" where
  "truthy s = (if s = Some [] then None else s)"

text \<open>Where the key leads, if anywhere: \<open>None\<close> leaves the event to the browser.\<close>

definition on_keyup :: "string \<Rightarrow> int \<Rightarrow> string option \<Rightarrow> string option \<Rightarrow> string option" where
  "on_keyup activeElementType keyCode prevHref nextHref =
     (if activeElementType \<notin> {''TEXTAREA'', ''INPUT'', ''SELECT''}
      then switch keyCode [(37, truthy prevHref), (39, truthy nextHref)]
      else None)"

section \<open>The index toggles\<close>

record toggler =
  t_id :: string
  t_src :: string

text \<open>The images and, per row, its class and whether it is shown.\<close>

record index_page =
  togglers :: "toggler list"
  rows :: "(string \<times> bool) list"

definition toggled_src :: "string \<Rightarrow> string" where
  "toggled_src src =
     (if substr1 src (-9) = ''minus.png''
      then substr src 0 (int (length src) - 9) @ ''plus.png''
      else substr src 0 (int (length src) - 8) @ ''minus.png'')"

definition toggle_rows :: "string \<Rightarrow> (string \<times> bool) list \<Rightarrow> (string \<times> bool) list" where
  "toggle_rows cls = map (\<lambda>(c, shown). (c, if c = cls then \<not> shown else shown))"

definition row_class :: "toggler \<Rightarrow> string" where
  "row_class t = ''cg-'' @ substr1 (t_id t) 7"

definition click :: "nat \<Rightarrow> index_page \<Rightarrow> index_page" where
  "click i p =
     (case nth_opt (togglers p) i of
        None \<Rightarrow> p
      | Some t \<Rightarrow>
          p\<lparr>rows := toggle_rows (row_class t) (rows p),
            togglers := (togglers p)[i := t\<lparr>t_src := toggled_src (t_src t)\<rparr>]\<rparr>)"

definition initIndexTable :: "bool \<Rightarrow> index_page \<Rightarrow> index_page" where
  "initIndexTable collapse p = (if collapse then fold click [0..<length (togglers p)] p else p)"

lemma toggled_minus: "toggled_src (u @ ''minus.png'') = u @ ''plus.png''"
  by (simp add: toggled_src_def substr1_def substr_def from_end_def)

lemma toggled_plus: "toggled_src (u @ ''plus.png'') = u @ ''minus.png''"
proof -
  have "substr1 (u @ ''plus.png'') (-9) \<noteq> ''minus.png''"
  proof
    assume a: "substr1 (u @ ''plus.png'') (-9) = ''minus.png''"
    have "substr1 (u @ ''plus.png'') (-9) = drop (length u - 1) u @ ''plus.png''"
      by (simp add: substr1_def from_end_def nat_diff_distrib')
    with a have "rev (drop (length u - 1) u @ ''plus.png'') = rev ''minus.png''" by (simp only:)
    then show False by simp
  qed
  then show ?thesis by (simp add: toggled_src_def substr_def from_end_def)
qed

lemma toggle_rows_twice: "toggle_rows c (toggle_rows c rs) = rs"
  by (induction rs) (auto simp: toggle_rows_def split: if_splits)

text \<open>What a run of clicks does to the two parts of the page.\<close>

lemma togglers_click: "togglers (click i p) =
    (if i < length (togglers p)
     then (togglers p)[i := (togglers p ! i)\<lparr>t_src := toggled_src (t_src (togglers p ! i))\<rparr>]
     else togglers p)"
  by (simp add: click_def nth_opt_def)

lemma rows_click: "rows (click i p) =
    (if i < length (togglers p) then toggle_rows (row_class (togglers p ! i)) (rows p) else rows p)"
  by (simp add: click_def nth_opt_def)

lemma length_togglers_click [simp]: "length (togglers (click i p)) = length (togglers p)"
  by (simp add: togglers_click)

lemma fold_click_length [simp]: "length (togglers (fold click is p)) = length (togglers p)"
  by (induction "is" arbitrary: p) auto

lemma row_class_click: "row_class (togglers (click i p) ! j) = row_class (togglers p ! j)"
  by (cases "i = j"; cases "j < length (togglers p)") (auto simp: togglers_click row_class_def nth_list_update)

lemma rows_fold_click:
  "\<forall>i \<in> set is. i < length (togglers p) \<Longrightarrow>
   rows (fold click is p) = fold (\<lambda>i. toggle_rows (row_class (togglers p ! i))) is (rows p)"
  by (induction "is" arbitrary: p) (auto simp: rows_click row_class_click)

lemma togglers_fold_click:
  "distinct is \<Longrightarrow> \<forall>i \<in> set is. i < length (togglers p) \<Longrightarrow> j < length (togglers p) \<Longrightarrow>
   togglers (fold click is p) ! j =
     (if j \<in> set is then (togglers p ! j)\<lparr>t_src := toggled_src (t_src (togglers p ! j))\<rparr>
      else togglers p ! j)"
proof (induction "is" arbitrary: p)
  case (Cons i "is")
  then show ?case by (cases "i = j") (auto simp: togglers_click nth_list_update)
qed simp

lemma toggle_rows_map:
  "fold toggle_rows cs rs = map (\<lambda>(c, shown). (c, (even (count_list cs c)) = shown)) rs"
proof (induction cs arbitrary: rs)
  case (Cons d cs)
  have "fold toggle_rows (d # cs) rs =
      map (\<lambda>(c, shown). (c, (even (count_list cs c)) = shown)) (toggle_rows d rs)"
    using Cons by simp
  also have "\<dots> = map (\<lambda>(c, shown). (c, (even (count_list (d # cs) c)) = shown)) rs"
    unfolding toggle_rows_def map_map by (rule map_cong [OF refl]) (auto split: if_splits)
  finally show ?case .
qed (simp add: case_prod_unfold)

lemma count_list_distinct: "distinct cs \<Longrightarrow> count_list cs c = (if c \<in> set cs then 1 else 0)"
  by (induction cs) auto

lemma initIndexTable_collapse:
  assumes "distinct (map row_class (togglers p))"
  shows "initIndexTable True p =
    p\<lparr>togglers := map (\<lambda>t. t\<lparr>t_src := toggled_src (t_src t)\<rparr>) (togglers p),
      rows := map (\<lambda>(c, shown). (c, (c \<notin> row_class ` set (togglers p)) = shown)) (rows p)\<rparr>"
proof -
  let ?is = "[0..<length (togglers p)]"
  have t: "togglers (fold click ?is p) = map (\<lambda>t. t\<lparr>t_src := toggled_src (t_src t)\<rparr>) (togglers p)"
    by (rule nth_equalityI) (auto simp: togglers_fold_click)
  have "rows (fold click ?is p) = fold (\<lambda>i. toggle_rows (row_class (togglers p ! i))) ?is (rows p)"
    by (rule rows_fold_click) simp
  also have "\<dots> = fold toggle_rows (map (\<lambda>i. row_class (togglers p ! i)) ?is) (rows p)"
    by (simp add: fold_map o_def)
  also have "map (\<lambda>i. row_class (togglers p ! i)) ?is = map row_class (togglers p)"
    by (rule nth_equalityI) simp_all
  also have "fold toggle_rows (map row_class (togglers p)) (rows p) =
      map (\<lambda>(c, shown). (c, (c \<notin> row_class ` set (togglers p)) = shown)) (rows p)"
    unfolding toggle_rows_map
    by (rule map_cong [OF refl]) (auto simp: count_list_distinct [OF assms])
  finally show ?thesis
    using t by (simp add: initIndexTable_def)
qed

section \<open>Browser detection\<close>

definition version_re :: re where
  "version_re = Grp 2 (Plus (Cls (\<lambda>c. is_word c \<or> c = CHR ''.'')))"

definition named_re :: "string \<Rightarrow> re \<Rightarrow> re" where
  "named_re name r = Seq (Grp 1 (Lit name)) r"

definition sep_re :: re where
  "sep_re = Cls (\<lambda>c. c = CHR '' '' \<or> c = CHR ''/'')"

definition chrome_re :: re where "chrome_re = named_re ''chrome'' (Seq sep_re version_re)"
definition webkit_re :: re where "webkit_re = named_re ''webkit'' (Seq sep_re version_re)"
definition opera_re :: re where
  "opera_re = named_re ''opera''
     (Seq (Opt (Seq (Star Dot) (Lit ''version''))) (Seq sep_re version_re))"
definition msie_re :: re where "msie_re = named_re ''msie'' (Seq (Ch (CHR '' '')) version_re)"
definition mozilla_re :: re where
  "mozilla_re = named_re ''mozilla'' (Opt (Seq (Lazy Dot) (Seq (Lit '' rv:'') version_re)))"

fun first_match :: "re list \<Rightarrow> string \<Rightarrow> caps option" where
  "first_match [] s = None"
| "first_match (r # rs) s = (case exec r s of Some (_, _, cs) \<Rightarrow> Some cs | None \<Rightarrow> first_match rs s)"

text \<open>The pair of \<open>browser\<close> and \<open>version\<close>.\<close>

definition uaMatch :: "string \<Rightarrow> string \<times> string" where
  "uaMatch agent =
     (let ua = toLowerCase agent;
          res = [chrome_re, webkit_re, opera_re, msie_re] @
                (if indexOf ua ''compatible'' < 0 then [mozilla_re] else [])
      in case first_match res ua of
           None \<Rightarrow> ('''', ''0'')
         | Some cs \<Rightarrow> (group 1 cs, if group 2 cs = '''' then ''0'' else group 2 cs))"

lemma exec_named:
  assumes "exec (named_re name r) s = Some (a, b, cs)" and "1 \<notin> set (groups r)"
  shows "cap 1 cs = Some name"
proof -
  from assms(1) have "match_at (named_re name r) s a = Some (b, cs)"
    by (simp add: exec_Some_iff)
  then obtain t where "(b, t, cs) \<in> set (rm (named_re name r) (a, drop a s, []))"
    using match_at_Some_in by blast
  then obtain m where m: "m \<in> set (rm (Grp 1 (Lit name)) (a, drop a s, []))" "(b, t, cs) \<in> set (rm r m)"
    by (auto simp: named_re_def rm.simps(3))
  have "cap 1 (snd (snd m)) = Some name"
    using m(1) by (auto simp: rm.simps(7) rm_Lit cap_def split: if_splits)
  moreover have "cap 1 cs = cap 1 (snd (snd m))"
    using rm_cap [OF m(2)] assms(2) by simp
  ultimately show ?thesis by simp
qed

lemma version_groups: "groups version_re = [2]" "groups sep_re = []" "groups Dot = []"
  by (simp_all add: version_re_def sep_re_def Dot_def)

lemma groups_Lit: "groups (Lit w) = []"
  by (induction w) (auto simp: Lit.simps)

section \<open>Properties\<close>

text \<open>
  Reading the parameters fails exactly when one of the keys names a property of
  \<open>Object.prototype\<close>, and then with a \<open>TypeError\<close>.
\<close>

theorem query_parameters_inherited:
  assumes "kvs \<noteq> []"
  shows "getQueryParameters (query_string kvs) = Inl TypeError \<longleftrightarrow>
     (\<exists>kv \<in> set kvs. fst (param_of kv) \<in> set inherited)"
proof
  assume "getQueryParameters (query_string kvs) = Inl TypeError"
  then show "\<exists>kv \<in> set kvs. fst (param_of kv) \<in> set inherited"
    using params_of_query_string [OF assms] by fastforce
next
  assume "\<exists>kv \<in> set kvs. fst (param_of kv) \<in> set inherited"
  then have "add_params (map query_part kvs) [] = Inl TypeError"
    by (rule add_params_inherited) (simp add: obj_keys_def)
  then show "getQueryParameters (query_string kvs) = Inl TypeError"
    using assms by (simp add: getQueryParameters_def split_query_string)
qed

text \<open>A query string without parameters gives one with an empty name, whose value is the text of \<open>undefined\<close>.\<close>

definition sent_params :: "(string \<times> string) list \<Rightarrow> (units \<times> units) list" where
  "sent_params kvs = (if kvs = [] then [([], map code ''undefined'')] else map param_of kvs)"

lemma no_params: "getQueryParameters (query_string []) = Inr [([], [map code ''undefined''])]"
  by code_simp

text \<open>
  C39: Reading the parameters of a query string gives back, for every key, the values it was built from, in their order,
  with every plus sign turned into a space, unless one of the keys names a property that objects inherit: then it fails
  with a \<open>TypeError\<close>. Of a query string without parameters it makes one, with an empty name.
\<close>

theorem query_parameters_roundtrip:
  "if \<exists>kv\<in>set kvs. fst (param_of kv) \<in> set inherited then getQueryParameters (query_string kvs) = Inl TypeError
   else \<exists>m. getQueryParameters (query_string kvs) = Inr m \<and> distinct (obj_keys m) \<and>
     (\<forall>k. obj_get m k = (let vs = values_at k (sent_params kvs) in if vs = [] then None else Some vs))"
proof (cases "\<exists>kv\<in>set kvs. fst (param_of kv) \<in> set inherited")
  case True
  then have "kvs \<noteq> []" by auto
  with True query_parameters_inherited show ?thesis by simp
next
  case names: False
  show ?thesis
  proof (cases "kvs = []")
    case True
    then show ?thesis by (auto simp: no_params sent_params_def obj_keys_def obj_get_def Let_def)
  next
    case False
    have "getQueryParameters (query_string kvs) = Inr (fold obj_push (map param_of kvs) [])"
      using False names by (intro params_of_query_string) auto
    moreover have "distinct (obj_keys (fold obj_push (map param_of kvs) []))"
      unfolding obj_push_simp by (rule multi.keys_push_all_distinct) simp
    moreover have "obj_get (fold obj_push (map param_of kvs) []) k =
        (let vs = values_at k (map param_of kvs) in if vs = [] then None else Some vs)" for k
      unfolding obj_push_simp by (simp add: multi.get_push_all Let_def)
    ultimately show ?thesis using False names by (simp add: sent_params_def)
  qed
qed

theorem query_parameters_roundtrip_witness:
  "\<exists>m. getQueryParameters (query_string [(''q'', ''a+b''), (''r'', ''x''), (''q'', ''c&d'')]) = Inr m \<and>
     obj_get m (map code ''q'') = Some [map code ''a b'', map code ''c&d'']"
proof -
  let ?kvs = "[(''q'', ''a+b''), (''r'', ''x''), (''q'', ''c&d'')]"
  have "\<not> (\<exists>kv\<in>set ?kvs. fst (param_of kv) \<in> set inherited)"
    by (auto simp: param_of_def inherited_def object_prototype_def plus_space_def code_def)
  with query_parameters_roundtrip [of ?kvs] show ?thesis
    by (auto simp: param_of_def plus_space_def code_def sent_params_def)
qed

theorem query_parameters_inherited_witness:
  "getQueryParameters (query_string [(''q'', ''a''), (''constructor'', ''b'')]) = Inl TypeError"
  using query_parameters_inherited [of "[(''q'', ''a''), (''constructor'', ''b'')]"]
  by (simp add: param_of_def inherited_def object_prototype_def plus_space_def code_def)

text \<open>
  C40: Whatever catalogues are loaded, \<open>ngettext\<close> raises a \<open>TypeError\<close> for every message the
  catalogues translate, because it calls \<open>PLURALEXPR\<close> while the member is \<open>PLURAL_EXPR\<close>;
  for a message without translation it picks the singular exactly for 1.
\<close>

theorem ngettext_raises:
  assumes "documentation_reachable d"
  shows "ngettext d s pl n =
     (if translated d s = None then Inr (Some (if n = 1 then s else pl)) else Inl TypeError)"
  using no_PLURALEXPR [OF assms] by (auto simp: ngettext_def call_plural_def)

theorem ngettext_raises_witness:
  "ngettext (addTranslations \<lparr>messages = [(''page'', Forms [''Seite'', ''Seiten''])],
      plural_expr = (\<lambda>n. if n = 1 then 0 else 1), locale_name = ''de''\<rparr> Documentation)
     ''page'' ''pages'' 2 = Inl TypeError"
proof -
  let ?d = "addTranslations \<lparr>messages = [(''page'', Forms [''Seite'', ''Seiten''])],
      plural_expr = (\<lambda>n. if n = 1 then 0 else 1), locale_name = ''de''\<rparr> Documentation"
  have "translated ?d ''page'' = Some (Forms [''Seite'', ''Seiten''])"
    by (simp add: translated_def translation_table_add)
  then show ?thesis
    using ngettext_raises [OF documentation_reachable.loaded [OF documentation_reachable.initial]]
    by simp
qed

text \<open>
  \<open>getCurrentURL\<close> answers the part of the path below the documentation root without its
  last character, whatever that character is.
\<close>

theorem getCurrentURL_cuts:
  assumes "\<forall>p \<in> set ps. CHR ''/'' \<notin> set p"
    and "n = length (filter (\<lambda>r. r = ''..'') (split1 (CHR ''/'') root))" and "n < length ps"
    and "rest = join1 ''/'' (drop (length ps - 1 - n) ps)" and "rest \<noteq> []"
  shows "getCurrentURL root (join1 ''/'' ps) = butlast rest"
  using assms by (rule getCurrentURL_butlast)

theorem getCurrentURL_cuts_witness: "getCurrentURL ''../'' ''/doc/user/manual.html'' = ''user/manual.htm''"
  using getCurrentURL_cuts [of "['''', ''doc'', ''user'', ''manual.html'']" 1 "''../''" "''user/manual.html''"]
  by simp

text \<open>
  With \<open>COLLAPSE_INDEX\<close> the initialisation hides exactly the rows of the toggles and
  turns every image to \<open>plus.png\<close>.
\<close>

theorem collapse_index:
  assumes "distinct (map row_class (togglers p))"
    and "\<forall>t \<in> set (togglers p). \<exists>u. t_src t = u @ ''minus.png''"
    and "\<forall>r \<in> set (rows p). snd r"
  shows "(\<forall>t \<in> set (togglers (initIndexTable True p)). \<exists>u. t_src t = u @ ''plus.png'') \<and>
    rows (initIndexTable True p) = map (\<lambda>r. (fst r, fst r \<notin> row_class ` set (togglers p))) (rows p)"
proof -
  note eq = initIndexTable_collapse [OF assms(1)]
  have "\<forall>t \<in> set (togglers (initIndexTable True p)). \<exists>u. t_src t = u @ ''plus.png''"
    using assms(2) by (fastforce simp: eq toggled_minus)
  moreover have "rows (initIndexTable True p) =
      map (\<lambda>r. (fst r, fst r \<notin> row_class ` set (togglers p))) (rows p)"
    unfolding eq using assms(3) by (simp add: case_prod_unfold)
  ultimately show ?thesis by blast
qed

definition example_page :: index_page where
  "example_page = \<lparr>togglers = [\<lparr>t_id = ''toggle-1'', t_src = ''_static/minus.png''\<rparr>],
     rows = [(''cg-1'', True), (''cap'', True), (''cg-1'', True)]\<rparr>"

theorem collapse_index_witness:
  "rows (initIndexTable True example_page) = [(''cg-1'', False), (''cap'', True), (''cg-1'', False)]"
proof -
  have "rows (initIndexTable True example_page) =
      map (\<lambda>r. (fst r, fst r \<notin> row_class ` set (togglers example_page))) (rows example_page)"
    by (rule conjunct2 [OF collapse_index])
      (auto simp: example_page_def intro: exI [of _ "''_static/''"])
  then show ?thesis
    by (simp add: example_page_def row_class_def substr1_def from_end_def)
qed

text \<open>
  Browser detection answers one of five names or the empty one, and the name of the
  first pattern in its order that matches.
\<close>

theorem uaMatch_browser:
  "fst (uaMatch ua) \<in> {''chrome'', ''webkit'', ''opera'', ''msie'', ''mozilla'', ''''} \<and>
   (test chrome_re (toLowerCase ua) \<longrightarrow> fst (uaMatch ua) = ''chrome'') \<and>
   (indexOf (toLowerCase ua) ''compatible'' \<ge> 0 \<longrightarrow> fst (uaMatch ua) \<noteq> ''mozilla'')"
proof -
  note gs = version_groups groups_Lit
  have c: "exec chrome_re s = Some (a, b, cs) \<Longrightarrow> group 1 cs = ''chrome''" for s a b cs
    using exec_named [of "''chrome''"] by (auto simp: chrome_re_def group_def gs)
  have w: "exec webkit_re s = Some (a, b, cs) \<Longrightarrow> group 1 cs = ''webkit''" for s a b cs
    using exec_named [of "''webkit''"] by (auto simp: webkit_re_def group_def gs)
  have o: "exec opera_re s = Some (a, b, cs) \<Longrightarrow> group 1 cs = ''opera''" for s a b cs
    using exec_named [of "''opera''"] by (auto simp: opera_re_def group_def gs)
  have i: "exec msie_re s = Some (a, b, cs) \<Longrightarrow> group 1 cs = ''msie''" for s a b cs
    using exec_named [of "''msie''"] by (auto simp: msie_re_def group_def gs)
  have m: "exec mozilla_re s = Some (a, b, cs) \<Longrightarrow> group 1 cs = ''mozilla''" for s a b cs
    using exec_named [of "''mozilla''"] by (auto simp: mozilla_re_def group_def gs)
  show ?thesis
    by (auto simp: uaMatch_def test_def Let_def split: option.splits if_splits
        dest!: c w o i m simp del: One_nat_def)
qed

theorem uaMatch_browser_witness: "fst (uaMatch ''Mozilla/5.0 Chrome/52.0'') = ''chrome''"
proof -
  have "match_at chrome_re (toLowerCase ''Mozilla/5.0 Chrome/52.0'') 12 \<noteq> None" by code_simp
  then have "test chrome_re (toLowerCase ''Mozilla/5.0 Chrome/52.0'')"
    unfolding test_def exec_None_iff by (auto simp: toLowerCase_def intro: exI [of _ 12])
  then show ?thesis using uaMatch_browser by blast
qed

text \<open>
  Outside the input elements the left key on a page without a previous page acts as the
  right key, because its case falls through.
\<close>

theorem left_key_falls_through:
  assumes "activeElementType \<notin> {''TEXTAREA'', ''INPUT'', ''SELECT''}" and "truthy prevHref = None"
  shows "on_keyup activeElementType 37 prevHref nextHref = on_keyup activeElementType 39 None nextHref \<and>
     on_keyup activeElementType 39 None nextHref = truthy nextHref"
  using assms by (simp add: on_keyup_def split: option.splits)

theorem left_key_falls_through_witness:
  "on_keyup ''BODY'' 37 None (Some ''user.html'') = Some ''user.html''"
  using left_key_falls_through [of "''BODY''" None "Some ''user.html''"] by (simp add: truthy_def)

end
