(* ===== verification/Highlight.thy ===== *)
theory Highlight
  imports JS_Prelude
begin

text \<open>
  \<open>jQuery.fn.highlightText\<close> of \<open>doctools.js\<close> on a tree of nodes. A child list is walked by
  \<open>jQuery.each\<close>, which reads the length of the live list once, before the first call, while a
  match inserts two nodes after the current one: the walk takes the old number of steps over
  the new list.
\<close>

section \<open>The document\<close>

text \<open>A text node, an element with its tag, classes and children, or any other leaf.\<close>

datatype node = Text string | Elem string "string list" "node list" | Leaf

fun text_of :: "node \<Rightarrow> string" and texts_of :: "node list \<Rightarrow> string" where
  "text_of (Text v) = v"
| "text_of (Elem tag cs kids) = texts_of kids"
| "text_of Leaf = []"
| "texts_of [] = []"
| "texts_of (n # ns) = text_of n @ texts_of ns"

lemma texts_of_append [simp]: "texts_of (ms @ ns) = texts_of ms @ texts_of ns"
  by (induction ms) auto

section \<open>The walk\<close>

text \<open>
  How deep a node can still send the walk: a text node outside a marked parent may be replaced
  by a marked element, one level deeper.
\<close>

fun depth :: "string \<Rightarrow> bool \<Rightarrow> node \<Rightarrow> nat" and depths :: "string \<Rightarrow> bool \<Rightarrow> node list \<Rightarrow> nat" where
  "depth cls inside (Text v) = (if inside then 1 else 3)"
| "depth cls inside (Elem tag cs kids) = Suc (depths cls (cls \<in> set cs) kids)"
| "depth cls inside Leaf = 0"
| "depths cls inside [] = 0"
| "depths cls inside (n # ns) = max (depth cls inside n) (depths cls inside ns)"

definition marked :: "string \<Rightarrow> string \<Rightarrow> node" where
  "marked cls s = Elem ''span'' [cls] [Text s]"

text \<open>
  \<open>walk t cls inside k ns\<close>: \<open>k\<close> more steps of the loop whose current node is the head of \<open>ns\<close>;
  \<open>inside\<close> says that the parent has the class. A step on an element runs the loop over its
  children with their number of steps.
\<close>

function walk :: "string \<Rightarrow> string \<Rightarrow> bool \<Rightarrow> nat \<Rightarrow> node list \<Rightarrow> node list" where
  "walk t cls inside 0 ns = ns"
| "walk t cls inside (Suc k) [] = []"
| "walk t cls inside (Suc k) (Text v # ns) =
     (let pos = indexOf (toLowerCase v) t in
      if pos \<ge> 0 \<and> \<not> inside
      then Text (substr v 0 pos) #
           walk t cls inside k
             (marked cls (substr v pos (int (length t))) #
              Text (substr1 v (pos + int (length t))) # ns)
      else Text v # walk t cls inside k ns)"
| "walk t cls inside (Suc k) (Elem tag cs kids # ns) =
     (if tag \<in> {''button'', ''select'', ''textarea''} then Elem tag cs kids
      else Elem tag cs (walk t cls (cls \<in> set cs) (length kids) kids)) #
     walk t cls inside k ns"
| "walk t cls inside (Suc k) (Leaf # ns) = Leaf # walk t cls inside k ns"
  by pat_completeness auto
termination
  by (relation "measures [\<lambda>(_, cls, inside, _, ns). depths cls inside ns, \<lambda>(_, _, _, k, _). k]")
    (auto simp: marked_def max_def)

definition highlightText :: "string \<Rightarrow> string \<Rightarrow> node \<Rightarrow> node" where
  "highlightText t cls root = hd (walk t cls False 1 [root])"

text \<open>\<open>Documentation.hideSearchWords\<close>: the marked spans lose the class.\<close>

fun hide :: "string \<Rightarrow> node \<Rightarrow> node" where
  "hide cls (Elem tag cs kids) =
     Elem tag (if tag = ''span'' then filter (\<lambda>c. c \<noteq> cls) cs else cs) (map (hide cls) kids)"
| "hide cls n = n"

section \<open>Nothing of the text is lost\<close>

lemma cut_text: "0 \<le> pos \<Longrightarrow> substr v 0 pos @ substr v pos (int n) @ substr1 v (pos + int n) = v"
proof -
  assume "0 \<le> pos"
  then have "take (nat pos) v @ take n (drop (nat pos) v) @ drop (nat pos + n) v = v"
    by (metis add.commute append_take_drop_id drop_drop)
  with \<open>0 \<le> pos\<close> show ?thesis
    by (simp add: substr_def substr1_def from_end_def nat_add_distrib)
qed

lemma texts_of_walk: "texts_of (walk t cls inside k ns) = texts_of ns"
proof (induction t cls inside k ns rule: walk.induct)
  case (3 t cls inside k v ns)
  then show ?case
    using cut_text [of "indexOf (toLowerCase v) t" v "length t"]
    by (auto simp: Let_def marked_def)
qed auto

lemma length_walk_single: "length (walk t cls False (Suc 0) [Elem tag cs kids]) = 1"
  by simp

section \<open>What gets marked\<close>

text \<open>Every element with the class holds one text, equal to the searched one up to case.\<close>

fun marks_ok :: "string \<Rightarrow> string \<Rightarrow> node \<Rightarrow> bool" where
  "marks_ok t cls (Elem tag cs kids) \<longleftrightarrow>
     (cls \<in> set cs \<longrightarrow> (\<exists>s. kids = [Text s] \<and> toLowerCase s = t)) \<and> list_all (marks_ok t cls) kids"
| "marks_ok t cls n \<longleftrightarrow> True"

lemma lower_substr: "toLowerCase (substr v i n) = substr (toLowerCase v) i n"
  by (simp add: toLowerCase_def substr_def from_end_def take_map drop_map)

lemma indexOf_found:
  "0 \<le> indexOf s p \<Longrightarrow> substr s (indexOf s p) (int (length p)) = p"
  by (auto simp: indexOf_def substr_def from_end_def split: option.splits dest: find_sub_Some)

lemma marked_ok: "0 \<le> indexOf (toLowerCase v) t \<Longrightarrow>
    marks_ok t cls (marked cls (substr v (indexOf (toLowerCase v) t) (int (length t))))"
  by (simp add: marked_def lower_substr indexOf_found)

lemma walk_inside_text: "walk t cls True k [Text s] = [Text s]"
  by (cases k; cases "k - 1") (auto simp: Let_def)

lemma walk_marks_ok: "list_all (marks_ok t cls) ns \<Longrightarrow> list_all (marks_ok t cls) (walk t cls inside k ns)"
proof (induction t cls inside k ns rule: walk.induct)
  case (3 t cls inside k v ns)
  then show ?case using marked_ok [of v t cls] by (auto simp: Let_def)
next
  case (4 t cls inside k tag cs kids ns)
  then show ?case by (auto simp: walk_inside_text)
qed auto

section \<open>What the walk does not reach\<close>

lemma drop_suffix: "k \<le> n \<Longrightarrow> \<exists>r. drop k xs = r @ drop n xs"
  by (metis append_take_drop_id drop_drop le_add_diff_inverse2)

lemma walk_drop: "k \<le> length ns \<Longrightarrow> \<exists>r. walk t cls inside k ns = r @ drop k ns"
proof (induction t cls inside k ns rule: walk.induct)
  case (3 t cls inside k v ns)
  show ?case
  proof (cases "0 \<le> indexOf (toLowerCase v) t \<and> \<not> inside")
    case True
    let ?new = "marked cls (substr v (indexOf (toLowerCase v) t) (int (length t))) #
      Text (substr1 v (indexOf (toLowerCase v) t + int (length t))) # ns"
    obtain r where "walk t cls inside k ?new = r @ drop k ?new"
      using "3.IH"(1) [OF refl True] "3.prems" by auto
    moreover obtain r' where "drop k ?new = r' @ drop (Suc (Suc k)) ?new"
      using drop_suffix [of k "Suc (Suc k)" ?new] by auto
    ultimately have "walk t cls inside k ?new = (r @ r') @ drop k ns" by simp
    then show ?thesis
      using True by (auto simp: Let_def intro: exI [of _ "Text (substr v 0 (indexOf (toLowerCase v) t)) # r @ r'"])
  next
    case False
    then obtain r where "walk t cls inside k ns = r @ drop k ns"
      using "3.IH"(2) [OF refl] "3.prems" by auto
    then show ?thesis
      using False by (auto simp: Let_def intro: exI [of _ "Text v # r"])
  qed
next
  case (4 t cls inside k tag cs kids ns)
  then obtain r where "walk t cls inside k ns = r @ drop k ns" by auto
  then show ?case by (auto intro: exI [of _ "_ # r"])
next
  case (5 t cls inside k ns)
  then obtain r where "walk t cls inside k ns = r @ drop k ns" by auto
  then show ?case by (auto intro: exI [of _ "Leaf # r"])
qed auto

lemma highlightText_Elem:
  "tag \<notin> {''button'', ''select'', ''textarea''} \<Longrightarrow>
   highlightText t cls (Elem tag cs kids) = Elem tag cs (walk t cls (cls \<in> set cs) (length kids) kids)"
  by (simp add: highlightText_def)

section \<open>Hiding the marks\<close>

fun has_mark :: "string \<Rightarrow> node \<Rightarrow> bool" where
  "has_mark cls (Elem tag cs kids) \<longleftrightarrow> cls \<in> set cs \<or> list_ex (has_mark cls) kids"
| "has_mark cls n \<longleftrightarrow> False"

lemma text_of_hide: "text_of (hide cls n) = text_of n" "texts_of (map (hide cls) ns) = texts_of ns"
  by (induction n and ns rule: text_of_texts_of.induct) auto

text \<open>Outside spans the walk adds no class: only spans it made can carry a new mark.\<close>

fun marks_on_spans :: "string \<Rightarrow> node \<Rightarrow> bool" where
  "marks_on_spans cls (Elem tag cs kids) \<longleftrightarrow>
     (cls \<in> set cs \<longrightarrow> tag = ''span'') \<and> list_all (marks_on_spans cls) kids"
| "marks_on_spans cls n \<longleftrightarrow> True"

lemma walk_marks_on_spans:
  "list_all (marks_on_spans cls) ns \<Longrightarrow> list_all (marks_on_spans cls) (walk t cls inside k ns)"
  by (induction t cls inside k ns rule: walk.induct) (auto simp: Let_def marked_def)

lemma hide_no_mark: "marks_on_spans cls n \<Longrightarrow> \<not> has_mark cls (hide cls n)"
  by (induction cls n rule: hide.induct) (auto simp: list_ex_iff list_all_iff)

lemma no_mark_spans: "\<not> has_mark cls n \<Longrightarrow> marks_on_spans cls n"
  by (induction cls n rule: has_mark.induct) (auto simp: list_ex_iff list_all_iff)

lemma no_mark_ok: "\<not> has_mark cls n \<Longrightarrow> marks_ok t cls n"
  by (induction cls n rule: has_mark.induct) (auto simp: list_ex_iff list_all_iff)

section \<open>Properties\<close>

text \<open>
  C33: highlighting keeps the text of the page, and in a page without marks every mark it makes
  is one text that equals the searched one up to case; hiding the marks keeps the text
  and leaves none.
\<close>

theorem highlight_sound:
  assumes "\<not> has_mark cls (Elem tag cs kids)"
  shows "text_of (highlightText t cls (Elem tag cs kids)) = texts_of kids \<and>
    marks_ok t cls (highlightText t cls (Elem tag cs kids)) \<and>
    text_of (hide cls (highlightText t cls (Elem tag cs kids))) = texts_of kids \<and>
    \<not> has_mark cls (hide cls (highlightText t cls (Elem tag cs kids)))"
proof -
  have r: "walk t cls False 1 [Elem tag cs kids] = [highlightText t cls (Elem tag cs kids)]"
    by (simp add: highlightText_def)
  have ok: "list_all (marks_ok t cls) [Elem tag cs kids]" "list_all (marks_on_spans cls) [Elem tag cs kids]"
    using no_mark_ok [OF assms] no_mark_spans [OF assms] by simp_all
  have "text_of (highlightText t cls (Elem tag cs kids)) = texts_of kids"
    using texts_of_walk [of t cls False 1 "[Elem tag cs kids]"] unfolding r by simp
  moreover have "marks_ok t cls (highlightText t cls (Elem tag cs kids))"
    using walk_marks_ok [OF ok(1), of False 1] unfolding r by simp
  moreover have "marks_on_spans cls (highlightText t cls (Elem tag cs kids))"
    using walk_marks_on_spans [OF ok(2), of t False 1] unfolding r by simp
  ultimately show ?thesis by (simp add: text_of_hide hide_no_mark)
qed

theorem highlight_sound_witness:
  "text_of (highlightText ''fpga'' ''highlighted'' (Elem ''p'' [] [Text ''The FPGA'', Leaf])) = ''The FPGA''"
proof -
  have "\<not> has_mark ''highlighted'' (Elem ''p'' [] [Text ''The FPGA'', Leaf])" by simp
  from highlight_sound [OF this, of "''fpga''"] show ?thesis by simp
qed

text \<open>
  In an element with a single text only the first occurrence is marked: the text after it
  stays one text node, whatever further occurrences it holds.
\<close>

theorem highlight_first_only:
  assumes "0 \<le> indexOf (toLowerCase v) t" and "cls \<notin> set cs"
    and "tag \<notin> {''button'', ''select'', ''textarea''}"
  shows "\<exists>a m b. v = a @ m @ b \<and> toLowerCase m = t \<and> int (length a) = indexOf (toLowerCase v) t \<and>
    highlightText t cls (Elem tag cs [Text v]) = Elem tag cs [Text a, marked cls m, Text b]"
proof (intro exI conjI)
  let ?p = "indexOf (toLowerCase v) t"
  show "v = substr v 0 ?p @ substr v ?p (int (length t)) @ substr1 v (?p + int (length t))"
    using cut_text [OF assms(1)] by (rule sym)
  show "toLowerCase (substr v ?p (int (length t))) = t"
    using assms(1) by (simp add: lower_substr indexOf_found)
  show "int (length (substr v 0 ?p)) = ?p"
    using assms(1) by (auto simp: indexOf_def substr_def from_end_def split: option.splits dest: find_sub_Some)
  show "highlightText t cls (Elem tag cs [Text v]) =
      Elem tag cs [Text (substr v 0 ?p), marked cls (substr v ?p (int (length t))),
        Text (substr1 v (?p + int (length t)))]"
    using assms by (simp add: highlightText_Elem Let_def)
qed

theorem highlight_first_only_witness:
  "\<exists>a m b. ''pcie to PCIe'' = a @ m @ b \<and> int (length a) = 0 \<and>
    highlightText ''pcie'' ''highlighted'' (Elem ''p'' [] [Text ''pcie to PCIe'']) =
      Elem ''p'' [] [Text a, marked ''highlighted'' m, Text b]"
proof -
  have "indexOf (toLowerCase ''pcie to PCIe'') ''pcie'' = 0" by code_simp
  with highlight_first_only [of "''pcie to PCIe''" "''pcie''" "''highlighted''" "[]" "''p''"]
  show ?thesis by auto
qed

text \<open>
  A match in the first text of an element hides its last two children from the walk: they
  come out as they went in.
\<close>

theorem highlight_skips_siblings:
  assumes "0 \<le> indexOf (toLowerCase v) t" and "cls \<notin> set cs"
    and "tag \<notin> {''button'', ''select'', ''textarea''}"
  shows "\<exists>r. highlightText t cls (Elem tag cs (Text v # ms @ [x, y])) = Elem tag cs (r @ [x, y])"
proof -
  let ?p = "indexOf (toLowerCase v) t"
  let ?k = "Suc (Suc (length ms))"
  let ?new = "marked cls (substr v ?p (int (length t))) # Text (substr1 v (?p + int (length t))) # ms @ [x, y]"
  obtain r where "walk t cls False ?k ?new = r @ drop ?k ?new"
    using walk_drop [of ?k ?new t cls False] by auto
  then show ?thesis
    using assms by (auto simp: highlightText_Elem Let_def intro: exI [of _ "Text (substr v 0 ?p) # r"])
qed

theorem highlight_skips_siblings_witness:
  "\<exists>r. highlightText ''dma'' ''highlighted''
      (Elem ''p'' [] [Text ''The DMA'', Elem ''b'' [] [Text ''dma''], Text ''dma'']) =
    Elem ''p'' [] (r @ [Elem ''b'' [] [Text ''dma''], Text ''dma''])"
proof -
  have "indexOf (toLowerCase ''The DMA'') ''dma'' = 4" by code_simp
  then show ?thesis
    using highlight_skips_siblings [of "''The DMA''" "''dma''" "''highlighted''" "[]" "''p''" "[]"] by simp
qed

end
