(* ===== verification/SearchLink.thy ===== *)
theory SearchLink
  imports Search Doctools Highlight
begin

text \<open>
  The link between the two scripts: a search result carries the words of the query in its URL
  (\<open>searchtools.js\<close>, \<open>highlightstring\<close>), and the page it opens reads them back to highlight
  them (\<open>doctools.js\<close>, \<open>highlightSearchWords\<close>).
\<close>

section \<open>Splitting at white space\<close>

definition plain_word :: "units \<Rightarrow> bool" where
  "plain_word w \<longleftrightarrow> w \<noteq> [] \<and> (\<forall>u \<in> set w. \<not> unit_space u \<and> u \<noteq> 43)"

lemma split_space_join:
  "ws \<noteq> [] \<Longrightarrow> \<forall>w \<in> set ws. plain_word w \<Longrightarrow> split_space (join1 [32] ws) = ws"
proof (induction ws)
  case (Cons w ws)
  show ?case
  proof (cases ws)
    case Nil
    with Cons.prems show ?thesis by (simp add: split_space_word plain_word_def)
  next
    case (Cons v vs)
    have v: "v \<noteq> []" "\<not> unit_space (hd v)"
      using Cons.prems(2) \<open>ws = v # vs\<close> by (auto simp: plain_word_def)
    have h: "join1 [32] ws \<noteq> []" "hd (join1 [32] ws) = hd v"
      using v \<open>ws = v # vs\<close> by (cases vs; simp)+
    have "split_space (w @ 32 # join1 [32] ws) = w # split_space (join1 [32] ws)"
      using Cons.prems(2) h v by (intro split_space_sep) (auto simp: plain_word_def)
    then show ?thesis using Cons.IH Cons.prems \<open>ws = v # vs\<close> by simp
  qed
qed simp

section \<open>The words of a query survive the URL\<close>

lemma lower_word_char:
  assumes "\<not> splitChars (code c)"
  shows "\<not> unit_space (code (lower_char c)) \<and> code (lower_char c) \<noteq> 43"
proof -
  have "\<not> (code c \<le> 47)" and "\<not> (123 \<le> code c \<and> code c \<le> 169)"
    using assms by (auto simp: splitChars_def ranges_def)
  moreover have "code c < 256" by (rule code_less)
  ultimately show ?thesis by (auto simp: unit_space_def code_lower_char)
qed

lemma hlterms_foldl:
  "set (hlterms (foldl query_word q ws)) \<subseteq> set (hlterms q) \<union> toLowerCase ` set ws"
proof (induction ws arbitrary: q)
  case (Cons w ws)
  have "set (hlterms (query_word q w)) \<subseteq> set (hlterms q) \<union> {toLowerCase w}"
    by (auto simp: query_word_def Let_def)
  then show ?case using Cons [of "query_word q w"] by auto
qed simp

lemma hlterms_plain: "w \<in> set (hlterms (query_words q)) \<Longrightarrow> plain_word (map code w)"
proof -
  assume "w \<in> set (hlterms (query_words q))"
  then obtain v where "v \<in> set (splitQuery code q)" "w = toLowerCase v"
    using hlterms_foldl unfolding query_words_def by fastforce
  then show ?thesis
    using splitQuery_words [of v code q] lower_word_char
    by (auto simp: plain_word_def toLowerCase_def)
qed

lemma hlterms_lower: "w \<in> set (hlterms (query_words q)) \<Longrightarrow> map lower_char w = w"
proof -
  assume "w \<in> set (hlterms (query_words q))"
  then obtain v where "w = toLowerCase v"
    using hlterms_foldl unfolding query_words_def by fastforce
  then show ?thesis by (simp add: toLowerCase_def)
qed

lemma map_join1: "map f (join1 sep ws) = join1 (map f sep) (map (map f) ws)"
  by (induction sep ws rule: join1.induct) auto

lemma encode_highlight: "encodeURIComponent ''highlight'' = ''highlight''"
  by (simp add: encodeURIComponent_def encode_char_def unreserved_def is_word_def code_def)

lemma highlightstring_query: "highlightstring q = query_string [(''highlight'', join1 '' '' (hlterms q))]"
  by (simp add: highlightstring_def query_string_def query_part_def encode_highlight)

lemma highlight_terms_join:
  assumes "\<forall>w \<in> set ws. plain_word (map code w) \<and> map lower_char w = w"
    and "\<And>c. lower (code c) = code (lower_char c)"
  shows "highlight_terms lower (query_string [(''highlight'', join1 '' '' ws)]) =
    Inr (if ws = [] then [[]] else map (map code) ws)"
proof -
  let ?kv = "(''highlight'', join1 '' '' ws)"
  have k: "fst (param_of ?kv) = map code ''highlight''"
    by (simp add: param_of_def plus_space_def code_def)
  have "fst (param_of ?kv) \<notin> set inherited"
    unfolding k by (simp add: inherited_def object_prototype_def code_def)
  then have p: "getQueryParameters (query_string [?kv]) = Inr (obj_push (param_of ?kv) [])"
    using params_of_query_string [of "[?kv]"] by simp
  have g: "obj_get (obj_push (param_of ?kv) []) (map code ''highlight'') = Some [snd (param_of ?kv)]"
    using multi.get_push [of "param_of ?kv" "[]" "map code ''highlight''"]
    by (simp add: obj_push_simp k js_obj)
  have same: "plus_space (code c) = code c" if "c \<in> set w" "w \<in> set ws" for c w
    using assms(1) that by (auto simp: plain_word_def plus_space_def)
  have "snd (param_of ?kv) = join1 [32] (map (map (plus_space \<circ> code)) ws)"
    by (simp add: param_of_def map_join1 plus_space_def code_def)
  also have "map (map (plus_space \<circ> code)) ws = map (map code) ws"
    using same by auto
  finally have v: "snd (param_of ?kv) = join1 [32] (map (map code) ws)" .
  have low: "map (lower \<circ> code) w = map code w" if "w \<in> set ws" for w
  proof -
    have "map code (map lower_char w) = map code w" using assms(1) that by simp
    then show ?thesis by (simp add: assms(2) o_def)
  qed
  have terms: "highlight_terms lower (query_string [?kv]) =
      Inr (map (map lower) (split_space (join1 [32] (map (map code) ws))))"
    by (simp only: highlight_terms_def p bind_result_simps g v option.case list.case)
  show ?thesis
  proof (cases "ws = []")
    case True
    have "map (map lower) (split_space (join1 [32] (map (map code) ws))) = [[]]"
      by (simp add: True split_space_word)
    then show ?thesis unfolding terms by (simp only: True if_True simp_thms)
  next
    case False
    then have "split_space (join1 [32] (map (map code) ws)) = map (map code) ws"
      using assms(1) by (intro split_space_join) auto
    with False low show ?thesis by (simp add: terms)
  qed
qed

section \<open>Properties\<close>

text \<open>
  The page opened from a search result highlights exactly the words of the query, in their
  order, whatever the query; a query without such words makes it highlight the empty string.
\<close>

theorem search_link_highlights:
  assumes "\<And>c. lower (code c) = code (lower_char c)"
  shows "highlight_terms lower (highlightstring (query_words query)) =
    Inr (if hlterms (query_words query) = [] then [[]]
         else map (map code) (hlterms (query_words query)))"
  unfolding highlightstring_query using hlterms_plain hlterms_lower assms
  by (intro highlight_terms_join) auto

definition latin1_lower :: "nat \<Rightarrow> nat" where
  "latin1_lower u = (if u < 256 then code (lower_char (char_of u)) else u)"

theorem search_link_highlights_witness:
  "highlight_terms latin1_lower (highlightstring (query_words ''the 1'')) = Inr [[]]"
proof -
  have l: "latin1_lower (code c) = code (lower_char c)" for c
    by (simp add: latin1_lower_def code_less) (simp add: code_def)
  have sep: "splitChars 32" "\<not> splitChars 116" "\<not> splitChars 104" "\<not> splitChars 101" "\<not> splitChars 49"
    by (simp_all add: splitChars_ascii)
  have words: "splitQuery code ''the 1'' = [''the'', ''1'']"
    by (simp add: splitQuery_eq_runs word_char_def code_def sep runs.simps)
  have "all_digits ''1''" by code_simp
  then have "hlterms (query_words ''the 1'') = []"
    by (simp add: query_words_def words query_word_def Let_def stopwords_def toLowerCase_def
        lower_char_def code_def)
  with search_link_highlights [of latin1_lower "''the 1''"] l show ?thesis by simp
qed

end
