(* ===== verification/Template.thy ===== *)
theory Template
  imports JS_Regex
begin

text \<open>
  \<open>renderTemplate\<close> of \<open>websupport.js\<close> and the three templates it is used with. The placeholders
  \<open><%path%>\<close> and \<open><#path#>\<close> are found by a regular expression; the main lemma shows that on a
  text made of plain pieces and placeholders the renderer treats each piece by itself.
\<close>

section \<open>Values\<close>

text \<open>
  The values a context holds. The properties that strings, numbers and booleans have
  themselves, and those every object inherits, are read as \<open>undefined\<close>.
\<close>

datatype jsval = VUndefined | VNull | VBool bool | VNum int | VStr string | VObj "(string \<times> jsval) list"

type_synonym tcontext = "(string, jsval) jsobj"

fun read_property :: "string \<Rightarrow> jsval \<Rightarrow> jsval result" where
  "read_property k VUndefined = Inl TypeError"
| "read_property k VNull = Inl TypeError"
| "read_property k (VObj m) = Inr (case obj_get m k of Some v \<Rightarrow> v | None \<Rightarrow> VUndefined)"
| "read_property k _ = Inr VUndefined"

fun read_path :: "string list \<Rightarrow> jsval \<Rightarrow> jsval result" where
  "read_path [] v = Inr v"
| "read_path (k # ks) v = bind_result (read_property k v) (read_path ks)"

text \<open>\<open>String(v)\<close>, and \<open>v || ""\<close> as a string.\<close>

fun to_string :: "jsval \<Rightarrow> string" where
  "to_string VUndefined = ''undefined''"
| "to_string VNull = ''null''"
| "to_string (VBool b) = (if b then ''true'' else ''false'')"
| "to_string (VNum n) = show_int n"
| "to_string (VStr s) = s"
| "to_string (VObj m) = ''[object Object]''"

fun falsy :: "jsval \<Rightarrow> bool" where
  "falsy VUndefined = True"
| "falsy VNull = True"
| "falsy (VBool b) = (\<not> b)"
| "falsy (VNum n) = (n = 0)"
| "falsy (VStr s) = (s = [])"
| "falsy (VObj m) = False"

text \<open>\<open>esc.text(s).html()\<close>: the serialisation of a text node.\<close>

definition html_char :: "char \<Rightarrow> string" where
  "html_char c =
     (if c = CHR ''&'' then ''&amp;'' else if c = CHR ''<'' then ''&lt;''
      else if c = CHR ''>'' then ''&gt;'' else if code c = 160 then ''&nbsp;'' else [c])"

definition html_text :: "string \<Rightarrow> string" where
  "html_text s = concat (map html_char s)"

section \<open>The renderer\<close>

definition name_char :: "char \<Rightarrow> bool" where
  "name_char c \<longleftrightarrow> is_word c \<or> c = CHR ''.''"

definition placeholder_re :: re where
  "placeholder_re =
     Seq (Ch (CHR ''<''))
      (Seq (Grp 1 (Cls (\<lambda>c. c = CHR ''%'' \<or> c = CHR ''#'')))
       (Seq (Grp 2 (Star (Cls name_char))) (Seq (Ref 1) (Ch (CHR ''>'')))))"

definition handle :: "tcontext \<Rightarrow> string \<Rightarrow> bool \<Rightarrow> string result" where
  "handle ctx ph escape =
     bind_result (read_path (split1 (CHR ''.'') ph) (VObj ctx)) (\<lambda>cur.
       Inr (if escape then html_text (if falsy cur then '''' else to_string cur) else to_string cur))"

definition renderTemplate :: "string \<Rightarrow> tcontext \<Rightarrow> string result" where
  "renderTemplate template ctx =
     bind_result
       (map_result
         (\<lambda>(a, b, cs). bind_result (handle ctx (group 2 cs) (group 1 cs = ''%'')) (\<lambda>v. Inr ((a, b), v)))
         (matches_from placeholder_re template 0))
       (\<lambda>ms. Inr (paste template 0 ms))"

section \<open>The templates\<close>

definition popupTemplate :: string where
  "popupTemplate = concat
    [''    <div class=\"sphinx-comments\" id=\"sc<%id%>\">'',
     ''      <p class=\"sort-options\">'',
     ''        Sort by:'',
     ''        <a href=\"#\" class=\"sort-option byrating\">best rated</a>'',
     ''        <a href=\"#\" class=\"sort-option byascage\">newest</a>'',
     ''        <a href=\"#\" class=\"sort-option byage\">oldest</a>'',
     ''      </p>'',
     ''      <div class=\"comment-header\">Comments</div>'',
     ''      <div class=\"comment-loading\" id=\"cn<%id%>\">'',
     ''        loading comments... <img src=\"<%loadingImage%>\" alt=\"\" /></div>'',
     ''      <ul id=\"cl<%id%>\" class=\"comment-ul\"></ul>'',
     ''      <div id=\"ca<%id%>\">'',
     ''      <p class=\"add-a-comment\">Add a comment        (<a href=\"#\" class=\"comment-markup\" id=\"ab<%id%>\">markup</a>):</p>'',
     ''      <div class=\"comment-markup-box\" id=\"mb<%id%>\">'',
     ''        reStructured text markup: <i>*emph*</i>, <b>**strong**</b>, '',
     ''        <code>``code``</code>, '',
     ''        code blocks: <code>::</code> and an indented block after blank line</div>'',
     ''      <form method=\"post\" id=\"cf<%id%>\" class=\"comment-form\" action=\"\">'',
     ''        <textarea name=\"comment\" cols=\"80\"></textarea>'',
     ''        <p class=\"propose-button\">'',
     ''          <a href=\"#\" id=\"pc<%id%>\" class=\"show-propose-change\">'',
     ''            Propose a change &#9657;'',
     ''          </a>'',
     ''          <a href=\"#\" id=\"hc<%id%>\" class=\"hide-propose-change\">'',
     ''            Propose a change &#9663;'',
     ''          </a>'',
     ''        </p>'',
     ''        <textarea name=\"proposal\" id=\"pt<%id%>\" cols=\"80\"'',
     ''                  spellcheck=\"false\"></textarea>'',
     ''        <input type=\"submit\" value=\"Add comment\" />'',
     ''        <input type=\"hidden\" name=\"node\" value=\"<%id%>\" />'',
     ''        <input type=\"hidden\" name=\"parent\" value=\"\" />'',
     ''      </form>'',
     ''      </div>'',
     ''    </div>'']"

definition commentTemplate :: string where
  "commentTemplate = concat
    [''    <div id=\"cd<%id%>\" class=\"sphinx-comment<%css_class%>\">'',
     ''      <div class=\"vote\">'',
     ''        <div class=\"arrow\">'',
     ''          <a href=\"#\" id=\"uv<%id%>\" class=\"vote\" title=\"vote up\">'',
     ''            <img src=\"<%upArrow%>\" />'',
     ''          </a>'',
     ''          <a href=\"#\" id=\"uu<%id%>\" class=\"un vote\" title=\"vote up\">'',
     ''            <img src=\"<%upArrowPressed%>\" />'',
     ''          </a>'',
     ''        </div>'',
     ''        <div class=\"arrow\">'',
     ''          <a href=\"#\" id=\"dv<%id%>\" class=\"vote\" title=\"vote down\">'',
     ''            <img src=\"<%downArrow%>\" id=\"da<%id%>\" />'',
     ''          </a>'',
     ''          <a href=\"#\" id=\"du<%id%>\" class=\"un vote\" title=\"vote down\">'',
     ''            <img src=\"<%downArrowPressed%>\" />'',
     ''          </a>'',
     ''        </div>'',
     ''      </div>'',
     ''      <div class=\"comment-content\">'',
     ''        <p class=\"tagline comment\">'',
     ''          <span class=\"user-id\"><%username%></span>'',
     ''          <span class=\"rating\"><%pretty_rating%></span>'',
     ''          <span class=\"delta\"><%time.delta%></span>'',
     ''        </p>'',
     ''        <div class=\"comment-text comment\"><#text#></div>'',
     ''        <p class=\"comment-opts comment\">'',
     ''          <a href=\"#\" class=\"reply hidden\" id=\"rl<%id%>\">reply &#9657;</a>'',
     ''          <a href=\"#\" class=\"close-reply\" id=\"cr<%id%>\">reply &#9663;</a>'',
     ''          <a href=\"#\" id=\"sp<%id%>\" class=\"show-proposal\">proposal &#9657;</a>'',
     ''          <a href=\"#\" id=\"hp<%id%>\" class=\"hide-proposal\">proposal &#9663;</a>'',
     ''          <a href=\"#\" id=\"dc<%id%>\" class=\"delete-comment hidden\">delete</a>'',
     ''          <span id=\"cm<%id%>\" class=\"moderation hidden\">'',
     ''            <a href=\"#\" id=\"ac<%id%>\" class=\"accept-comment\">accept</a>'',
     ''          </span>'',
     ''        </p>'',
     ''        <pre class=\"proposal\" id=\"pr<%id%>\">'',
     ''<#proposal_diff#>'',
     ''        </pre>'',
     ''          <ul class=\"comment-children\" id=\"cl<%id%>\"></ul>'',
     ''        </div>'',
     ''        <div class=\"clearleft\"></div>'',
     ''      </div>'',
     ''    </div>'']"

definition replyTemplate :: string where
  "replyTemplate = concat
    [''    <li>'',
     ''      <div class=\"reply-div\" id=\"rd<%id%>\">'',
     ''        <form id=\"rf<%id%>\">'',
     ''          <textarea name=\"comment\" cols=\"80\"></textarea>'',
     ''          <input type=\"submit\" value=\"Add reply\" />'',
     ''          <input type=\"button\" value=\"Cancel\" />'',
     ''          <input type=\"hidden\" name=\"parent\" value=\"<%id%>\" />'',
     ''          <input type=\"hidden\" name=\"node\" value=\"\" />'',
     ''        </form>'',
     ''      </div>'',
     ''    </li>'']"

section \<open>Where the placeholders are\<close>

text \<open>The placeholder a text begins with: its delimiter, its path and the text after it.\<close>

definition placeholder_at :: "string \<Rightarrow> (char \<times> string \<times> string) option" where
  "placeholder_at s =
     (case s of
        c # q # r \<Rightarrow>
          if c = CHR ''<'' \<and> (q = CHR ''%'' \<or> q = CHR ''#'')
          then (case dropWhile name_char r of
                  a # b # t \<Rightarrow>
                    if a = q \<and> b = CHR ''>'' then Some (q, takeWhile name_char r, t) else None
                | _ \<Rightarrow> None)
          else None
      | _ \<Rightarrow> None)"

datatype piece = Plain char | Escaped string | Raw string

lemma placeholder_at_Some:
  assumes "placeholder_at s = Some (q, n, t)"
  shows "s = (CHR ''<'' # q # n @ [q, CHR ''>'']) @ t" "q = CHR ''%'' \<or> q = CHR ''#''" "list_all name_char n"
proof -
  from assms obtain r where r: "s = CHR ''<'' # q # r" "q = CHR ''%'' \<or> q = CHR ''#''"
    "dropWhile name_char r = q # CHR ''>'' # t" "n = takeWhile name_char r"
    by (auto simp: placeholder_at_def split: list.splits if_splits)
  then have "r = n @ q # CHR ''>'' # t" by (metis takeWhile_dropWhile_id)
  with r(1) show "s = (CHR ''<'' # q # n @ [q, CHR ''>'']) @ t" by simp
  show "q = CHR ''%'' \<or> q = CHR ''#''" by fact
  show "list_all name_char n" unfolding r(4) list_all_iff
    using set_takeWhileD [of _ name_char r] by simp
qed

function pieces :: "string \<Rightarrow> piece list" where
  "pieces s =
     (case placeholder_at s of
        Some (q, n, t) \<Rightarrow> (if q = CHR ''%'' then Escaped n else Raw n) # pieces t
      | None \<Rightarrow> (case s of [] \<Rightarrow> [] | c # t \<Rightarrow> Plain c # pieces t))"
  by pat_completeness auto
termination
  by (relation "measure length") (auto dest!: placeholder_at_Some(1))

declare pieces.simps [simp del]

fun render_piece :: "tcontext \<Rightarrow> piece \<Rightarrow> string result" where
  "render_piece ctx (Plain c) = Inr [c]"
| "render_piece ctx (Escaped n) = handle ctx n True"
| "render_piece ctx (Raw n) = handle ctx n False"

lemma rm_Seq_Cls:
  "rm (Seq (Cls p) r) (i, s, cs) =
     (case s of [] \<Rightarrow> [] | c # s' \<Rightarrow> if p c then rm r (Suc i, s', cs) else [])"
  by (simp add: rm.simps(2) rm.simps(3) [of "Cls p"] split: list.split)

lemma rm_Seq_Grp_Cls:
  "rm (Seq (Grp n (Cls p)) r) (i, s, cs) =
     (case s of [] \<Rightarrow> [] | c # s' \<Rightarrow> if p c then rm r (Suc i, s', (n, [c]) # cs) else [])"
  by (simp add: rm.simps(2,7) rm.simps(3) [of "Grp n (Cls p)"] split: list.split)

lemma placeholder_at_None: "placeholder_at s = None \<Longrightarrow> rm placeholder_re (i, s, []) = []"
proof (rule ccontr)
  assume none: "placeholder_at s = None" and "rm placeholder_re (i, s, []) \<noteq> []"
  then obtain st where st: "st \<in> set (rm placeholder_re (i, s, []))" by (meson list.set_sel(1))
  from st obtain q r where q: "s = CHR ''<'' # q # r" "q = CHR ''%'' \<or> q = CHR ''#''"
    and rest: "st \<in> set (rm (Seq (Grp 2 (Star (Cls name_char))) (Seq (Ref 1) (Ch (CHR ''>'')))) (Suc (Suc i), r, [(1, [q])]))"
    unfolding placeholder_re_def rm_Seq_Cls rm_Seq_Grp_Cls
    by (simp only: split: list.splits if_splits) auto
  from rest obtain j t ds where star: "(j, t, ds) \<in> set (star_cls name_char (Suc (Suc i)) r [(1, [q])])"
    and tail: "st \<in> set (rm (Seq (Ref 1) (Ch (CHR ''>''))) (j, t, (2, take (j - Suc (Suc i)) r) # ds))"
    by (auto simp: rm.simps(3) [of "Grp 2 _"] rm.simps(7) [of 2] rm_Star_Cls simp del: One_nat_def)
  from star obtain u where u: "r = u @ t" "\<forall>c \<in> set u. name_char c" "ds = [(1, [q])]"
    by (auto simp: star_cls_iff)
  from tail u(3) obtain t' where t: "t = q # CHR ''>'' # t'"
    by (cases t; cases "tl t") (auto simp: rm.simps(2,3,8) cap_def split: if_splits)
  have "\<not> name_char q" using q(2) by (auto simp: name_char_def is_word_def code_def)
  then have "dropWhile name_char r = q # CHR ''>'' # t'" using u(1,2) t by simp
  with none q show False by (auto simp: placeholder_at_def)
qed

lemma star_cls_first:
  "list_all p u \<Longrightarrow> \<not> p c \<Longrightarrow> \<exists>ms. star_cls p i (u @ c # r) cs = (i + length u, c # r, cs) # ms"
proof (induction u arbitrary: i)
  case (Cons d u)
  then obtain ms where "star_cls p (Suc i) (u @ c # r) cs = (Suc i + length u, c # r, cs) # ms"
    using Cons.IH [of "Suc i"] by auto
  with Cons.prems show ?case by simp
qed simp

lemma placeholder_match:
  assumes "q = CHR ''%'' \<or> q = CHR ''#''" and "list_all name_char n"
  shows "match_at placeholder_re (u @ CHR ''<'' # q # n @ q # CHR ''>'' # t) (length u) =
     Some (length u + length n + 4, [(2, n), (1, [q])])"
proof -
  let ?i = "length u"
  have q: "\<not> name_char q" using assms(1) by (auto simp: name_char_def is_word_def code_def)
  obtain ms where star: "star_cls name_char (Suc (Suc ?i)) (n @ q # CHR ''>'' # t) [(1, [q])] =
      (Suc (Suc ?i) + length n, q # CHR ''>'' # t, [(1, [q])]) # ms"
    using star_cls_first [OF assms(2) q, of "Suc (Suc ?i)"] by blast
  have "\<exists>ms. rm placeholder_re (?i, CHR ''<'' # q # n @ q # CHR ''>'' # t, []) =
      (?i + length n + 4, t, [(2, n), (1, [q])]) # ms"
    using assms(1) star by (auto simp: placeholder_re_def rm.simps(2,3,7,8) rm_Star_Cls cap_def)
  then show ?thesis by (auto simp: match_at_def)
qed

section \<open>Rendering piece by piece\<close>

lemma bol_free_placeholder: "bol_free placeholder_re"
  by (simp add: placeholder_re_def)

definition fill :: "tcontext \<Rightarrow> nat \<times> nat \<times> caps \<Rightarrow> ((nat \<times> nat) \<times> string) result" where
  "fill ctx m = (case m of (a, b, cs) \<Rightarrow>
     bind_result (handle ctx (group 2 cs) (group 1 cs = ''%'')) (\<lambda>v. Inr ((a, b), v)))"

lemma renderTemplate_fill:
  "renderTemplate t ctx =
     bind_result (map_result (fill ctx) (matches_from placeholder_re t 0)) (\<lambda>ms. Inr (paste t 0 ms))"
  by (simp add: renderTemplate_def fill_def [abs_def])

lemma fill_shift:
  "fill ctx (shift_match d m) = bind_result (fill ctx m) (\<lambda>x. Inr (shift_paste d x))"
  by (cases m; cases "handle ctx (group 2 (snd (snd m))) (group 1 (snd (snd m)) = ''%'')")
    (auto simp: fill_def shift_match_def shift_paste_def)

lemma fill_shift_all:
  "map_result (fill ctx) (map (shift_match d) ms) =
     bind_result (map_result (fill ctx) ms) (\<lambda>xs. Inr (map (shift_paste d) xs))"
proof (induction ms)
  case (Cons m ms)
  then show ?case
    by (cases "fill ctx m"; cases "map_result (fill ctx) ms") (auto simp: fill_shift)
qed simp

lemma render_plain:
  assumes "placeholder_at (c # t) = None"
  shows "renderTemplate (c # t) ctx = bind_result (renderTemplate t ctx) (\<lambda>s. Inr (c # s))"
proof -
  have "match_at placeholder_re (c # t) 0 = None"
    using placeholder_at_None [OF assms] by (simp add: match_at_None_iff)
  then have "matches_from placeholder_re (c # t) 0 = matches_from placeholder_re ([c] @ t) (length [c] + 0)"
    using matches_from_none_before [of 1 placeholder_re "c # t"] by simp
  also have "\<dots> = map (shift_match (length [c])) (matches_from placeholder_re t 0)"
    by (rule matches_from_shift [OF bol_free_placeholder])
  finally show ?thesis
    using paste_prefix [of "[c]" t]
    by (cases "map_result (fill ctx) (matches_from placeholder_re t 0)")
      (simp_all add: renderTemplate_fill fill_shift_all)
qed

lemma render_placeholder:
  assumes "q = CHR ''%'' \<or> q = CHR ''#''" and "list_all name_char n"
  shows "renderTemplate ((CHR ''<'' # q # n @ [q, CHR ''>'']) @ t) ctx =
    bind_result (handle ctx n (q = CHR ''%'')) (\<lambda>v. bind_result (renderTemplate t ctx) (\<lambda>s. Inr (v @ s)))"
proof -
  let ?u = "CHR ''<'' # q # n @ [q, CHR ''>'']"
  have len: "length n + 4 = length ?u" by simp
  have m: "match_at placeholder_re (?u @ t) 0 = Some (length ?u, [(2, n), (1, [q])])"
    using placeholder_match [OF assms, of "[]" t] by simp
  then have "exec_from placeholder_re (?u @ t) 0 = Some (0, length ?u, [(2, n), (1, [q])])"
    by (simp add: exec_from_Some_iff)
  then have "matches_from placeholder_re (?u @ t) 0 =
      (0, length ?u, [(2, n), (1, [q])]) # matches_from placeholder_re (?u @ t) (length ?u + 0)"
    by (subst matches_from_unfold) simp
  also have "matches_from placeholder_re (?u @ t) (length ?u + 0) =
      map (shift_match (length ?u)) (matches_from placeholder_re t 0)"
    by (rule matches_from_shift [OF bol_free_placeholder])
  finally have ms: "matches_from placeholder_re (?u @ t) 0 =
      (0, length ?u, [(2, n), (1, [q])]) # map (shift_match (length ?u)) (matches_from placeholder_re t 0)" .
  have f: "fill ctx (0, length ?u, [(2, n), (1, [q])]) =
      bind_result (handle ctx n (q = CHR ''%'')) (\<lambda>v. Inr ((0, length ?u), v))"
    using assms(1) by (auto simp: fill_def group_def cap_def)
  have p: "paste (?u @ t) 0 (((0, length ?u), v) # map (shift_paste (length ?u)) xs) = v @ paste t 0 xs" for v xs
    using paste_shift [of ?u t 0 xs] by simp
  show ?thesis
    by (cases "handle ctx n (q = CHR ''%'')"; cases "map_result (fill ctx) (matches_from placeholder_re t 0)")
      (simp_all only: renderTemplate_fill ms map_result.simps f bind_result_simps fill_shift_all p)
qed

lemma render_pieces:
  "renderTemplate s ctx = bind_result (map_result (render_piece ctx) (pieces s)) (\<lambda>vs. Inr (concat vs))"
proof (induction s rule: pieces.induct)
  case (1 s)
  show ?case
  proof (cases "placeholder_at s")
    case (Some m)
    obtain q n t where m: "m = (q, n, t)" by (cases m)
    note ph = placeholder_at_Some [OF Some [unfolded m]]
    have IH: "renderTemplate t ctx = bind_result (map_result (render_piece ctx) (pieces t)) (\<lambda>vs. Inr (concat vs))"
      using "1.IH"(2) [OF Some m [symmetric] refl] .
    have ps: "pieces s = (if q = CHR ''%'' then Escaped n else Raw n) # pieces t"
      using Some m by (simp add: pieces.simps [of s])
    have "render_piece ctx (if q = CHR ''%'' then Escaped n else Raw n) = handle ctx n (q = CHR ''%'')"
      by simp
    then show ?thesis
      unfolding ps map_result.simps
      by (subst ph(1), subst render_placeholder [OF ph(2,3)])
        (cases "handle ctx n (q = CHR ''%'')"; cases "map_result (render_piece ctx) (pieces t)"; simp add: IH)
  next
    case None
    show ?thesis
    proof (cases s)
      case Nil
      have "match_at placeholder_re [] 0 = None"
        using None Nil placeholder_at_None by (simp add: match_at_None_iff)
      then have "matches_from placeholder_re [] 0 = []"
        by (subst matches_from_unfold) (simp add: exec_from.simps)
      moreover have "pieces [] = []" using None Nil by (simp add: pieces.simps [of "[]"])
      ultimately show ?thesis by (simp add: renderTemplate_fill Nil)
    next
      case (Cons c t)
      have IH: "renderTemplate t ctx = bind_result (map_result (render_piece ctx) (pieces t)) (\<lambda>vs. Inr (concat vs))"
        using "1.IH"(1) [OF None Cons] .
      have "pieces s = Plain c # pieces t"
        by (subst pieces.simps, subst None) (simp only: Cons option.case list.case)
      then show ?thesis
        using None Cons render_plain [of c t ctx]
        by (cases "map_result (render_piece ctx) (pieces t)") (simp_all add: IH)
    qed
  qed
qed

section \<open>Escaping\<close>

lemma html_char_safe: "d \<in> set (html_char c) \<Longrightarrow> d \<noteq> CHR ''<'' \<and> d \<noteq> CHR ''>''"
  by (auto simp: html_char_def split: if_splits)

lemma html_char_head: "html_char c \<noteq> [] \<and> (hd (html_char c) = CHR ''&'' \<or> html_char c = [c] \<and> c \<noteq> CHR ''&'')"
  by (auto simp: html_char_def)

lemma html_char_inj: "html_char c @ s = html_char d @ t \<Longrightarrow> c = d \<and> s = t"
proof -
  assume eq: "html_char c @ s = html_char d @ t"
  have nb: "code x = 160 \<Longrightarrow> code y = 160 \<Longrightarrow> x = y" for x y by (simp add: code_eq_iff [symmetric])
  from eq show ?thesis
    by (auto simp: html_char_def nb split: if_splits)
qed

lemma html_text_inj: "html_text s = html_text t \<Longrightarrow> s = t"
proof (induction s arbitrary: t)
  case Nil
  then show ?case using html_char_head by (cases t) (auto simp: html_text_def)
next
  case (Cons c s)
  then obtain d t' where t: "t = d # t'"
    using html_char_head [of c] by (cases t) (auto simp: html_text_def)
  with Cons.prems have "html_char c @ html_text s = html_char d @ html_text t'"
    by (simp add: html_text_def)
  from html_char_inj [OF this] Cons.IH t show ?case by simp
qed

section \<open>The placeholders of the templates\<close>

text \<open>The paths of the placeholders, with \<open>True\<close> for the escaped ones.\<close>

fun paths :: "piece list \<Rightarrow> (bool \<times> string) list" where
  "paths [] = []"
| "paths (Plain c # ps) = paths ps"
| "paths (Escaped n # ps) = (True, n) # paths ps"
| "paths (Raw n # ps) = (False, n) # paths ps"

lemma paths_append: "paths (ps @ qs) = paths ps @ paths qs"
  by (induction ps rule: paths.induct) auto

lemma paths_concat: "paths (concat pss) = concat (map paths pss)"
  by (induction pss) (auto simp: paths_append)

text \<open>No placeholder reaches over the end of a text whose last character cannot be inside one.\<close>

definition closed :: "string \<Rightarrow> bool" where
  "closed s \<longleftrightarrow> s = [] \<or> (\<not> name_char (last s) \<and> last s \<notin> {CHR ''<'', CHR ''%'', CHR ''#''})"

lemma closed_tl: "closed (c # t) \<Longrightarrow> closed t"
  by (auto simp: closed_def)

lemma closed_suffix: "closed (u @ t) \<Longrightarrow> closed t"
  by (induction u) (auto dest: closed_tl)

lemma placeholder_at_append:
  assumes "closed s" and "s \<noteq> []"
  shows "placeholder_at (s @ t) = map_option (\<lambda>(q, n, r). (q, n, r @ t)) (placeholder_at s)"
proof -
  obtain c s' where s: "s = c # s'" using assms(2) by (cases s) auto
  show ?thesis
  proof (cases s')
    case Nil
    with assms s show ?thesis
      by (cases t) (auto simp: placeholder_at_def closed_def split: list.splits)
  next
    case (Cons q r)
    show ?thesis
    proof (cases "r = []")
      case True
      with assms(1) s Cons show ?thesis by (auto simp: placeholder_at_def closed_def)
    next
      case False
      with assms(1) s Cons have l: "\<not> name_char (last r)" "last r \<noteq> CHR ''%''" "last r \<noteq> CHR ''#''"
        by (auto simp: closed_def)
      have x: "\<exists>x \<in> set r. \<not> name_char x" using l False last_in_set by blast
      then have d: "dropWhile name_char (r @ t) = dropWhile name_char r @ t"
        and w: "takeWhile name_char (r @ t) = takeWhile name_char r"
        by (auto simp: dropWhile_append1 takeWhile_append1)
      obtain a rest where ar: "dropWhile name_char r = a # rest"
        using x by (cases "dropWhile name_char r") (auto simp: dropWhile_eq_Nil_conv)
      have "last (a # rest) = last r"
        using ar by (metis last_appendR list.distinct(1) takeWhile_dropWhile_id)
      with l have "rest = [] \<Longrightarrow> a \<noteq> CHR ''%'' \<and> a \<noteq> CHR ''#''" by auto
      then show ?thesis
        using s Cons d w ar by (auto simp: placeholder_at_def split: list.splits)
    qed
  qed
qed

lemma pieces_None: "placeholder_at (c # t) = None \<Longrightarrow> pieces (c # t) = Plain c # pieces t"
  by (subst pieces.simps) simp

lemma pieces_Some: "placeholder_at s = Some (q, n, t) \<Longrightarrow>
    pieces s = (if q = CHR ''%'' then Escaped n else Raw n) # pieces t"
  by (subst pieces.simps) simp

lemma pieces_Nil [simp]: "pieces [] = []"
  by (subst pieces.simps) (simp add: placeholder_at_def)

lemma pieces_append: "closed s \<Longrightarrow> pieces (s @ t) = pieces s @ pieces t"
proof (induction s rule: pieces.induct)
  case (1 s)
  show ?case
  proof (cases "s = []")
    case False
    note app = placeholder_at_append [OF "1.prems" False, of t]
    show ?thesis
    proof (cases "placeholder_at s")
      case None
      obtain c u where cu: "s = c # u" using False by (cases s) auto
      have "pieces (u @ t) = pieces u @ pieces t"
        using "1.IH"(1) [OF None cu] "1.prems" cu closed_tl by blast
      with None app cu show ?thesis by (simp add: pieces_None)
    next
      case (Some m)
      obtain q n r where m: "m = (q, n, r)" by (cases m)
      have "closed r" using "1.prems" placeholder_at_Some(1) [OF Some [unfolded m]] closed_suffix by metis
      then have "pieces (r @ t) = pieces r @ pieces t"
        using "1.IH"(2) [OF Some m [symmetric] refl] by simp
      with Some m app show ?thesis by (simp add: pieces_Some)
    qed
  qed simp
qed

lemma pieces_lines: "list_all closed ls \<Longrightarrow> paths (pieces (concat ls)) = concat (map (\<lambda>l. paths (pieces l)) ls)"
  by (induction ls) (auto simp: pieces_append paths_append)

lemma paths_skip: "c \<noteq> CHR ''<'' \<Longrightarrow> paths (pieces (c # t)) = paths (pieces t)"
  by (simp add: pieces_None placeholder_at_def split: list.splits)

lemma paths_skip2: "q \<noteq> CHR ''%'' \<Longrightarrow> q \<noteq> CHR ''#'' \<Longrightarrow> paths (pieces (CHR ''<'' # q # t)) = paths (pieces (q # t))"
  by (simp add: pieces_None placeholder_at_def split: list.splits)

lemma paths_Some: "placeholder_at (CHR ''<'' # s) = Some (q, n, t) \<Longrightarrow>
    paths (pieces (CHR ''<'' # s)) = (q = CHR ''%'', n) # paths (pieces t)"
  by (simp add: pieces_Some)

lemmas template_scan = closed_def name_char_def is_word_def code_def paths_skip paths_skip2 paths_Some
  placeholder_at_def

lemma popup_paths: "paths (pieces popupTemplate) =
    map (Pair True) [''id'', ''id'', ''loadingImage'', ''id'', ''id'', ''id'', ''id'', ''id'', ''id'', ''id'', ''id'', ''id'']"
  unfolding popupTemplate_def by (subst pieces_lines) (simp_all add: template_scan)

lemma reply_paths: "paths (pieces replyTemplate) = map (Pair True) [''id'', ''id'', ''id'']"
  unfolding replyTemplate_def by (subst pieces_lines) (simp_all add: template_scan)

lemma comment_paths: "paths (pieces commentTemplate) =
    map (Pair True) [''id'', ''css_class'', ''id'', ''upArrow'', ''id'', ''upArrowPressed'', ''id'', ''downArrow'', ''id'', ''id'',
      ''downArrowPressed'', ''username'', ''pretty_rating'', ''time.delta''] @
    (False, ''text'') #
    map (Pair True) [''id'', ''id'', ''id'', ''id'', ''id'', ''id'', ''id'', ''id''] @
    [(False, ''proposal_diff''), (True, ''id'')]"
  unfolding commentTemplate_def by (subst pieces_lines) (simp_all add: template_scan)

section \<open>Properties\<close>

text \<open>
  C16: the renderer, which collects the matches of its regular expression and pastes the values
  between them, renders a template piece by piece: characters are copied, each placeholder is
  replaced by its value, and the first missing object on a path raises the error.
\<close>

theorem renderTemplate_pieces:
  "renderTemplate s ctx = bind_result (map_result (render_piece ctx) (pieces s)) (\<lambda>vs. Inr (concat vs))"
  by (rule render_pieces)

text \<open>
  What an escaped placeholder inserts holds no angle bracket, and distinct texts are inserted
  as distinct markup.
\<close>

theorem escaped_value_inert:
  assumes "read_path (split1 (CHR ''.'') n) (VObj ctx) = Inr (VStr s)"
  shows "handle ctx n True = Inr (html_text s) \<and> handle ctx n False = Inr s \<and>
    CHR ''<'' \<notin> set (html_text s) \<and> CHR ''>'' \<notin> set (html_text s) \<and>
    (html_text s = html_text s' \<longleftrightarrow> s = s')"
  using assms html_text_inj [of s s']
  by (auto simp: handle_def) (auto simp: html_text_def dest: html_char_safe)

theorem escaped_value_inert_witness:
  "handle [(''username'', VStr ''<b>eve</b>'')] ''username'' True = Inr ''&lt;b&gt;eve&lt;/b&gt;''"
proof -
  have "handle [(''username'', VStr ''<b>eve</b>'')] ''username'' True = Inr (html_text ''<b>eve</b>'')"
    by (rule conjunct1 [OF escaped_value_inert [where s' = "[]"]]) (simp add: obj_get_def)
  then show ?thesis by (simp add: html_text_def html_char_def code_def)
qed

lemma read_property_error: "read_property k v = Inl e \<Longrightarrow> e = TypeError"
  by (cases v) auto

lemma read_path_error: "read_path ks v = Inl e \<Longrightarrow> e = TypeError"
proof (induction ks arbitrary: v)
  case (Cons k ks)
  then show ?case by (cases "read_property k v") (auto dest: read_property_error)
qed simp

lemma handle_Inr_iff: "(\<exists>s. handle ctx n e = Inr s) \<longleftrightarrow> (\<exists>v. read_path (split1 (CHR ''.'') n) (VObj ctx) = Inr v)"
  by (cases "read_path (split1 (CHR ''.'') n) (VObj ctx)") (auto simp: handle_def)

lemma handle_error: "handle ctx n e = Inl x \<Longrightarrow> x = TypeError"
  by (cases "read_path (split1 (CHR ''.'') n) (VObj ctx)") (auto simp: handle_def dest: read_path_error)

lemma render_all_Inr: "(\<exists>vs. map_result (render_piece ctx) ps = Inr vs) \<longleftrightarrow>
    (\<forall>(e, n) \<in> set (paths ps). \<exists>v. handle ctx n e = Inr v)"
proof (induction ps rule: paths.induct)
  case (3 n ps)
  then show ?case by (cases "handle ctx n True") (auto simp: bind_result_eq_Inr)
next
  case (4 n ps)
  then show ?case by (cases "handle ctx n False") (auto simp: bind_result_eq_Inr)
qed (auto simp: bind_result_eq_Inr)

lemma render_error: "map_result (render_piece ctx) ps = Inl e \<Longrightarrow> e = TypeError"
proof (induction ps)
  case (Cons p ps)
  have "render_piece ctx p = Inl x \<Longrightarrow> x = TypeError" for x
    by (cases p) (auto dest: handle_error)
  with Cons show ?case
    by (cases "render_piece ctx p"; cases "map_result (render_piece ctx) ps") auto
qed simp

lemma render_Inr_iff: "(\<exists>s. renderTemplate t ctx = Inr s) \<longleftrightarrow>
    (\<forall>(e, n) \<in> set (paths (pieces t)). \<exists>v. handle ctx n e = Inr v)"
  by (simp add: render_pieces bind_result_eq_Inr render_all_Inr [symmetric] ex_comm)

lemma render_Inl_iff: "renderTemplate t ctx = Inl TypeError \<longleftrightarrow> \<not> (\<exists>s. renderTemplate t ctx = Inr s)"
  by (cases "map_result (render_piece ctx) (pieces t)") (auto simp: render_pieces dest: render_error)

lemma handle_plain: "CHR ''.'' \<notin> set n \<Longrightarrow> \<exists>v. handle ctx n e = Inr v"
  by (simp add: handle_Inr_iff split1_piece)

text \<open>
  The popup and the reply form render in every context, the comment fails exactly where the
  context has no object under \<open>time\<close>; of all placeholders only the text and the proposed change
  of a comment are inserted without escaping.
\<close>

theorem template_placeholders:
  "(\<exists>s. renderTemplate popupTemplate ctx = Inr s) \<and> (\<exists>s. renderTemplate replyTemplate ctx = Inr s) \<and>
   (renderTemplate commentTemplate ctx = Inl TypeError \<longleftrightarrow>
      obj_get ctx ''time'' \<in> {None, Some VUndefined, Some VNull}) \<and>
   map snd (filter (\<lambda>p. \<not> fst p) (paths (pieces popupTemplate) @ paths (pieces replyTemplate) @
      paths (pieces commentTemplate))) = [''text'', ''proposal_diff'']"
proof -
  have popup: "\<exists>s. renderTemplate popupTemplate ctx = Inr s" "\<exists>s. renderTemplate replyTemplate ctx = Inr s"
    unfolding render_Inr_iff popup_paths reply_paths by (auto intro: handle_plain)
  have delta: "(\<exists>v. handle ctx ''time.delta'' e = Inr v) \<longleftrightarrow>
      obj_get ctx ''time'' \<notin> {None, Some VUndefined, Some VNull}" for e
  proof (cases "obj_get ctx ''time''")
    case (Some v)
    then show ?thesis by (cases v) (auto simp: handle_Inr_iff)
  qed (auto simp: handle_Inr_iff)
  have plain: "(\<exists>v. handle ctx n e = Inr v) = True" if "CHR ''.'' \<notin> set n" for n e
    using handle_plain [OF that] by simp
  have "(\<exists>s. renderTemplate commentTemplate ctx = Inr s) \<longleftrightarrow>
      obj_get ctx ''time'' \<notin> {None, Some VUndefined, Some VNull}"
    unfolding render_Inr_iff comment_paths by (simp add: plain delta del: not_None_eq)
  then have "renderTemplate commentTemplate ctx = Inl TypeError \<longleftrightarrow>
      obj_get ctx ''time'' \<in> {None, Some VUndefined, Some VNull}"
    unfolding render_Inl_iff by blast
  with popup show ?thesis by (simp add: popup_paths reply_paths comment_paths)
qed

end
