(* ===== verification/Comments.thy ===== *)
theory Comments
  imports Doctools
begin

text \<open>
  The comments of \<open>websupport.js\<close>: the comparator and the cookie it is remembered in, sorting and
  inserting in the tree of comments, the list items the tree is shown as, and sorting them
  again.
\<close>

section \<open>Comments\<close>

record comment_info =
  c_id :: nat
  c_node :: string
  c_parent :: string
  c_user :: string
  c_text :: string
  c_proposal :: string
  c_rating :: int
  c_age :: int
  c_vote :: int
  c_displayed :: bool

datatype comment = Comment (info: comment_info) (replies: "comment list")

fun infos :: "comment \<Rightarrow> comment_info list" where
  "infos (Comment i kids) = i # concat (map infos kids)"

section \<open>The comparator\<close>

text \<open>
  \<open>a[i]\<close> as a number: the properties that hold numbers; the difference of any other two is not a
  number. A key is a list of code units, as it can come from the cookie.
\<close>

definition field :: "units \<Rightarrow> comment_info \<Rightarrow> int option" where
  "field k c =
     (if k = map code ''rating'' then Some (c_rating c)
      else if k = map code ''age'' then Some (c_age c)
      else if k = map code ''vote'' then Some (c_vote c)
      else if k = map code ''id'' then Some (int (c_id c))
      else None)"

definition minus_field :: "units \<Rightarrow> comment_info \<Rightarrow> comment_info \<Rightarrow> int option" where
  "minus_field k a b =
     (case (field k a, field k b) of (Some x, Some y) \<Rightarrow> Some (x - y) | _ \<Rightarrow> None)"

text \<open>\<open>comp\<close> as \<open>setComparator\<close> sets it; \<open>None\<close> is NaN.\<close>

definition comp_by :: "units \<Rightarrow> comment_info \<Rightarrow> comment_info \<Rightarrow> int option" where
  "comp_by by =
     (if substring by 0 3 = map code ''asc''
      then (\<lambda>a b. minus_field (substring1 by 3) a b)
      else (\<lambda>a b. minus_field by b a))"

text \<open>\<open>sort\<close> takes NaN for 0.\<close>

definition sort_value :: "units \<Rightarrow> comment_info \<Rightarrow> comment_info \<Rightarrow> int" where
  "sort_value by a b = (case comp_by by a b of None \<Rightarrow> 0 | Some d \<Rightarrow> d)"

definition numeric :: "units \<Rightarrow> bool" where
  "numeric k \<longleftrightarrow> k \<in> {map code ''rating'', map code ''age'', map code ''vote'', map code ''id''}"

lemma field_some: "numeric k \<Longrightarrow> \<exists>x. field k c = Some x"
  by (auto simp: field_def numeric_def)

lemma field_none: "\<not> numeric k \<Longrightarrow> field k c = None"
  by (simp add: field_def numeric_def)

lemma sort_value_cases:
  "(\<forall>a b. sort_value by a b = 0) \<or> (\<exists>f. \<forall>a b. sort_value by a b = f a - f b)"
proof (cases "substring by 0 3 = map code ''asc''")
  case True
  show ?thesis
  proof (cases "numeric (substring1 by 3)")
    case n: True
    then have "sort_value by a b = the (field (substring1 by 3) a) - the (field (substring1 by 3) b)" for a b
      using True field_some [OF n, of a] field_some [OF n, of b]
      by (auto simp: sort_value_def comp_by_def minus_field_def)
    then show ?thesis
      by (intro disjI2 exI [of _ "\<lambda>c. the (field (substring1 by 3) c)"]) simp
  next
    case n: False
    with True show ?thesis
      by (simp add: sort_value_def comp_by_def minus_field_def field_none [OF n])
  qed
next
  case False
  show ?thesis
  proof (cases "numeric by")
    case n: True
    then have "sort_value by a b = - the (field by a) - - the (field by b)" for a b
      using False field_some [OF n, of a] field_some [OF n, of b]
      by (auto simp: sort_value_def comp_by_def minus_field_def)
    then show ?thesis by (intro disjI2 exI [of _ "\<lambda>c. - the (field by c)"]) simp
  next
    case n: False
    with False show ?thesis
      by (simp add: sort_value_def comp_by_def minus_field_def field_none [OF n])
  qed
qed

interpretation comment_order: comparator "sort_value by" "\<lambda>_. True"
proof
  fix a b c
  show "sort_value by a b > 0 \<Longrightarrow> sort_value by b a \<le> 0"
    using sort_value_cases [of "by"] by force
  show "sort_value by a b \<le> 0 \<Longrightarrow> sort_value by b c \<le> 0 \<Longrightarrow> sort_value by a c \<le> 0"
    using sort_value_cases [of "by"] by force
qed

interpretation tree_order: comparator "\<lambda>a b. sort_value by (info a) (info b)" "\<lambda>_. True"
  by unfold_locales (blast intro: comment_order.cmp_flip comment_order.cmp_trans)+

section \<open>Sorting the tree\<close>

function sortComments :: "units \<Rightarrow> comment list \<Rightarrow> comment list" where
  "sortComments by comments =
     map (\<lambda>c. Comment (info c) (sortComments by (replies c)))
       (sort_cmp (\<lambda>a b. sort_value by (info a) (info b)) comments)"
  by pat_completeness auto
termination
proof (relation "measure (\<lambda>(_, cs). size_list size cs)")
  fix "by" comments c
  assume "c \<in> set (sort_cmp (\<lambda>a b. sort_value by (info a) (info b)) comments)"
  then have "size c \<le> size_list size comments"
    by (auto intro: size_list_estimation')
  moreover have "size_list size (replies c) < size c" by (cases c) simp
  ultimately show "((by, replies c), (by, comments)) \<in> measure (\<lambda>(_, cs). size_list size cs)"
    by simp
qed simp

declare sortComments.simps [simp del]

fun ordered_tree :: "units \<Rightarrow> comment \<Rightarrow> bool" where
  "ordered_tree by (Comment i kids) \<longleftrightarrow>
     sorted_wrt (\<lambda>a b. sort_value by (info a) (info b) \<le> 0) kids \<and> list_all (ordered_tree by) kids"

definition ordered :: "units \<Rightarrow> comment list \<Rightarrow> bool" where
  "ordered by cs \<longleftrightarrow>
     sorted_wrt (\<lambda>a b. sort_value by (info a) (info b) \<le> 0) cs \<and> list_all (ordered_tree by) cs"

lemma ordered_sortComments: "ordered by (sortComments by cs)"
proof (induction "by" cs rule: sortComments.induct)
  case (1 "by" cs)
  have "sorted_wrt (\<lambda>a b. sort_value by (info a) (info b) \<le> 0) (sortComments by cs)"
    unfolding sortComments.simps [of "by" cs] sorted_wrt_map comment.sel
    by (rule tree_order.sorted_sort) (simp add: list_all_iff)
  then show ?case
    using 1 unfolding sortComments.simps [of "by" cs]
    by (auto simp: ordered_def list_all_iff)
qed

lemma infos_sortComments:
  "mset (concat (map infos (sortComments by cs))) = mset (concat (map infos cs))"
proof (induction "by" cs rule: sortComments.induct)
  case (1 "by" cs)
  let ?s = "sort_cmp (\<lambda>a b. sort_value by (info a) (info b)) cs"
  have one: "mset (infos (Comment (info c) (sortComments by (replies c)))) = mset (infos c)"
    if "c \<in> set ?s" for c
    using 1 [OF that] by (cases c) simp
  have "mset (concat (map infos (sortComments by cs))) = (\<Sum>c\<leftarrow>?s. mset (infos c))"
    unfolding sortComments.simps [of "by" cs] mset_concat map_map o_def
    by (rule arg_cong [where f = sum_list], rule map_cong [OF refl], rule one)
  also have "\<dots> = (\<Sum>c\<leftarrow>cs. mset (infos c))"
    by (simp flip: sum_mset_sum_list)
  finally show ?case by (simp add: mset_concat o_def)
qed

section \<open>The list items\<close>

text \<open>
  A list of comments in the page: an item shows a comment with the list of its replies, or tells
  that a comment awaits moderation, or holds a reply form.
\<close>

datatype item = Shown comment_info "item list" | Moderated | Reply_form

text \<open>
  \<open>createCommentDiv\<close> and \<open>appendComments\<close>: a comment that is not shown gets no list for its
  replies, so they are appended to nothing.
\<close>

fun item_of :: "bool \<Rightarrow> comment \<Rightarrow> item" where
  "item_of moderator (Comment i kids) =
     (if \<not> c_displayed i \<and> \<not> moderator then Moderated
      else Shown i (map (item_of moderator) kids))"

definition appendComments :: "bool \<Rightarrow> comment list \<Rightarrow> item list \<Rightarrow> item list" where
  "appendComments moderator comments ul = ul @ map (item_of moderator) comments"

text \<open>\<open>getChildren(ul, true)\<close>: the comments shown, with their replies.\<close>

fun comments_of :: "item \<Rightarrow> comment list" where
  "comments_of (Shown i kids) = [Comment i (concat (map comments_of kids))]"
| "comments_of _ = []"

definition getChildren :: "item list \<Rightarrow> comment list" where
  "getChildren ul = concat (map comments_of ul)"

lemma comments_of_item: "list_all c_displayed (infos c) \<Longrightarrow> comments_of (item_of moderator c) = [c]"
proof (induction c)
  case (Comment i kids)
  then have "\<forall>c \<in> set kids. comments_of (item_of moderator c) = [c]"
    by (fastforce simp: list_all_iff)
  then have "concat (map (comments_of \<circ> item_of moderator) kids) = kids"
    by (induction kids) auto
  with Comment.prems show ?case by simp
qed

lemma getChildren_append:
  "\<forall>c \<in> set cs. list_all c_displayed (infos c) \<Longrightarrow> getChildren (appendComments moderator cs []) = cs"
  by (induction cs) (auto simp: getChildren_def appendComments_def comments_of_item)

section \<open>Sorting again\<close>

text \<open>
  \<open>handleReSort\<close>: the key is taken from the classes of the link, every list of the page is read,
  sorted and shown again.
\<close>

definition link_key :: "units \<Rightarrow> units \<Rightarrow> units" where
  "link_key by classes =
     foldl (\<lambda>by c. if c \<noteq> map code ''sort-option'' then substring1 c 2 else by) by (split_space classes)"

record comment_page =
  sort_key :: units
  uls :: "item list list"

definition resort_ul :: "bool \<Rightarrow> units \<Rightarrow> item list \<Rightarrow> item list" where
  "resort_ul moderator by ul = appendComments moderator (sortComments by (getChildren ul)) []"

definition handleReSort :: "bool \<Rightarrow> units \<Rightarrow> comment_page \<Rightarrow> comment_page" where
  "handleReSort moderator classes p =
     (let by = link_key (sort_key p) classes
      in p\<lparr>sort_key := by, uls := map (resort_ul moderator by) (uls p)\<rparr>)"

text \<open>Every comment an item shows is one that \<open>createCommentDiv\<close> shows.\<close>

fun item_ok :: "bool \<Rightarrow> item \<Rightarrow> bool" where
  "item_ok moderator (Shown i kids) \<longleftrightarrow> (c_displayed i \<or> moderator) \<and> list_all (item_ok moderator) kids"
| "item_ok moderator _ \<longleftrightarrow> True"

definition visible_to :: "bool \<Rightarrow> comment_info \<Rightarrow> bool" where
  "visible_to moderator i \<longleftrightarrow> c_displayed i \<or> moderator"

lemma item_ok_comments: "item_ok m it \<Longrightarrow> c \<in> set (comments_of it) \<Longrightarrow> list_all (visible_to m) (infos c)"
proof (induction it arbitrary: c rule: comments_of.induct)
  case (1 i kids)
  then show ?case by (fastforce simp: visible_to_def list_all_iff)
qed auto

lemma comments_of_visible: "list_all (visible_to m) (infos c) \<Longrightarrow> comments_of (item_of m c) = [c]"
proof (induction c)
  case (Comment i kids)
  then have "\<forall>c \<in> set kids. comments_of (item_of m c) = [c]"
    by (fastforce simp: list_all_iff)
  then have "concat (map (comments_of \<circ> item_of m) kids) = kids"
    by (induction kids) auto
  with Comment.prems show ?case by (simp add: visible_to_def)
qed

lemma getChildren_visible:
  "\<forall>c \<in> set cs. list_all (visible_to m) (infos c) \<Longrightarrow> getChildren (appendComments m cs []) = cs"
  by (induction cs) (auto simp: getChildren_def appendComments_def comments_of_visible)

lemma visible_sortComments:
  assumes "\<forall>c \<in> set cs. list_all (visible_to m) (infos c)"
  shows "\<forall>c \<in> set (sortComments by cs). list_all (visible_to m) (infos c)"
proof -
  have "set (concat (map infos (sortComments by cs))) = set (concat (map infos cs))"
    using infos_sortComments [of "by" cs] mset_eq_setD by blast
  with assms show ?thesis by (auto simp: list_all_iff)
qed

lemma getChildren_resort:
  assumes "list_all (item_ok m) ul"
  shows "getChildren (resort_ul m by ul) = sortComments by (getChildren ul)"
proof -
  have "\<forall>c \<in> set (getChildren ul). list_all (visible_to m) (infos c)"
  proof
    fix c assume "c \<in> set (getChildren ul)"
    then obtain it where "it \<in> set ul" "c \<in> set (comments_of it)" by (auto simp: getChildren_def)
    with assms show "list_all (visible_to m) (infos c)"
      by (intro item_ok_comments [of m it]) (auto simp: list_all_iff)
  qed
  then show ?thesis
    unfolding resort_ul_def by (intro getChildren_visible visible_sortComments)
qed

section \<open>Inserting a comment\<close>

text \<open>
  \<open>insertComment\<close> in the list it belongs to: before the first comment it does not rank after,
  at the end otherwise. NaN is not \<open><= 0\<close>.
\<close>

fun insert_item :: "units \<Rightarrow> comment_info \<Rightarrow> item \<Rightarrow> item list \<Rightarrow> item list" where
  "insert_item by c new [] = [new]"
| "insert_item by c new (Shown i kids # its) =
     (case comp_by by c i of
        Some d \<Rightarrow> if d \<le> 0 then new # Shown i kids # its else Shown i kids # insert_item by c new its
      | None \<Rightarrow> Shown i kids # insert_item by c new its)"
| "insert_item by c new (it # its) = it # insert_item by c new its"

definition insertComment :: "bool \<Rightarrow> units \<Rightarrow> comment_info \<Rightarrow> item list \<Rightarrow> item list" where
  "insertComment moderator by c ul = insert_item by c (item_of moderator (Comment c [])) ul"

fun shown_infos :: "item list \<Rightarrow> comment_info list" where
  "shown_infos [] = []"
| "shown_infos (Shown i kids # its) = i # shown_infos its"
| "shown_infos (_ # its) = shown_infos its"

definition number_key :: "units \<Rightarrow> bool" where
  "number_key by \<longleftrightarrow> (if substring by 0 3 = map code ''asc'' then numeric (substring1 by 3) else numeric by)"

lemma comp_by_number: "number_key by \<Longrightarrow> comp_by by a b = Some (sort_value by a b)"
  using field_some [of "by" a] field_some [of "by" b]
    field_some [of "substring1 by 3" a] field_some [of "substring1 by 3" b]
  by (auto simp: number_key_def sort_value_def comp_by_def minus_field_def split: if_splits)

lemma shown_insert:
  "number_key by \<Longrightarrow>
   shown_infos (insert_item by c (Shown c []) ul) = ins_cmp (sort_value by) c (shown_infos ul)"
  by (induction ul rule: shown_infos.induct) (auto simp: comp_by_number)

lemma shown_insert_moderated: "shown_infos (insert_item by c Moderated ul) = shown_infos ul"
  by (induction ul rule: shown_infos.induct) (auto split: option.split)

section \<open>The cookie\<close>

text \<open>The standard functions \<open>escape\<close> and \<open>unescape\<close>, on code units.\<close>

definition escape_keep :: "char \<Rightarrow> bool" where
  "escape_keep c \<longleftrightarrow> is_word c \<or> c \<in> set ''@*+-./''"

definition escape :: "string \<Rightarrow> string" where
  "escape s = concat (map (\<lambda>c. if escape_keep c then [c] else percent (code c)) s)"

fun hex_number :: "string \<Rightarrow> nat option" where
  "hex_number [] = Some 0"
| "hex_number (c # s) =
     (case (hex_value c, hex_number s) of
        (Some d, Some n) \<Rightarrow> Some (d * 16 ^ length s + n)
      | _ \<Rightarrow> None)"

text \<open>\<open>%uXXXX\<close> and \<open>%XX\<close> are read; any other percent sign stands for itself.\<close>

function unescape :: "string \<Rightarrow> units" where
  "unescape s =
     (case s of
        [] \<Rightarrow> []
      | c # r \<Rightarrow>
          if c = CHR ''%'' \<and> 5 \<le> length r \<and> hd r = CHR ''u'' \<and> hex_number (take 4 (tl r)) \<noteq> None
          then the (hex_number (take 4 (tl r))) # unescape (drop 5 r)
          else if c = CHR ''%'' \<and> 2 \<le> length r \<and> hex_number (take 2 r) \<noteq> None
          then the (hex_number (take 2 r)) # unescape (drop 2 r)
          else code c # unescape r)"
  by pat_completeness auto
termination by (relation "measure length") auto

declare unescape.simps [simp del]

text \<open>\<open>initComparator\<close>: the key that the cookie holds.\<close>

definition indexOf_from :: "string \<Rightarrow> string \<Rightarrow> nat \<Rightarrow> int" where
  "indexOf_from s p k = (case find_sub p (drop k s) of None \<Rightarrow> -1 | Some i \<Rightarrow> int (k + i))"

definition initComparator :: "string \<Rightarrow> units" where
  "initComparator cookie =
     (let by = map code ''rating'';
          start = indexOf cookie ''sortBy=''
      in if 0 < length cookie \<and> start \<noteq> -1
         then let start = start + 7; end' = indexOf_from cookie '';'' (nat start)
              in if end' = -1 then unescape (substring cookie start (int (length cookie))) else by
         else by)"

text \<open>The cookie that \<open>handleReSort\<close> stores, as the page reads it back.\<close>

definition sort_cookie :: "string \<Rightarrow> string" where
  "sort_cookie by = ''sortBy='' @ escape by"

lemma unescape_keep: "c \<noteq> CHR ''%'' \<Longrightarrow> unescape (c # r) = code c # unescape r"
  by (subst unescape.simps) simp

lemma hex_digit_not_u: "n < 16 \<Longrightarrow> hex_digit n \<noteq> CHR ''u''"
proof
  assume "n < 16" "hex_digit n = CHR ''u''"
  then have "code (hex_digit n) = 117" by (simp add: code_def)
  moreover have "code (hex_digit n) < 117"
    using \<open>n < 16\<close> by (auto simp: hex_digit_def code_char_of)
  ultimately show False by simp
qed

lemma unescape_percent:
  assumes "b < 256"
  shows "unescape (percent b @ r) = b # unescape r"
proof -
  let ?x = "hex_digit (b div 16)" and ?y = "hex_digit (b mod 16)"
  have x: "hex_value ?x = Some (b div 16)" "hex_value ?y = Some (b mod 16)"
    using assms by (auto intro!: hex_roundtrip)
  have "?x \<noteq> CHR ''u''" using assms by (intro hex_digit_not_u) auto
  moreover have "hex_number [?x, ?y] = Some b" by (simp add: x)
  ultimately show ?thesis
    unfolding percent_def append_Cons append_Nil
    by (subst unescape.simps) (simp del: hex_number.simps add: numeral_2_eq_2)
qed

lemma unescape_escape: "unescape (escape s @ r) = map code s @ unescape r"
proof (induction s)
  case (Cons c s)
  have p: "c \<noteq> CHR ''%''" if "escape_keep c"
    using that by (auto simp: escape_keep_def is_word_def code_def)
  show ?case
    using Cons p by (auto simp: escape_def unescape_keep unescape_percent code_less)
qed (simp add: escape_def)

lemma escape_no_semicolon: "CHR '';'' \<notin> set (escape s)"
proof -
  have semi: "\<not> is_word (CHR '';'')" by (simp add: is_word_def code_def)
  have "x \<noteq> CHR '';''" if "x \<in> set (percent b)" "b < 256" for x b
  proof -
    have "x = CHR ''%'' \<or> is_word x"
      using that hex_digit_word [of "b div 16"] hex_digit_word [of "b mod 16"]
      by (auto simp: percent_def less_mult_imp_div_less)
    with semi show ?thesis by auto
  qed
  then have "CHR '';'' \<notin> set (percent (code c))" for c using code_less [of c] by blast
  with semi show ?thesis by (auto simp: escape_def escape_keep_def split: if_splits)
qed

section \<open>Deleting\<close>

text \<open>
  The success handler of \<open>deleteComment\<close> in a list: the answer \<open>delete\<close> removes the item with its
  replies, any other marks the comment as deleted; \<open>find\<close> reaches the items at every depth.
\<close>

definition mark_deleted :: "comment_info \<Rightarrow> comment_info" where
  "mark_deleted i = i\<lparr>c_user := ''[deleted]'', c_text := ''[deleted]''\<rparr>"

fun delete_item :: "string \<Rightarrow> nat \<Rightarrow> item \<Rightarrow> item list" where
  "delete_item answer cid (Shown i kids) =
     (if c_id i = cid
      then (if answer = ''delete'' then [] else [Shown (mark_deleted i) kids])
      else [Shown i (concat (map (delete_item answer cid) kids))])"
| "delete_item answer cid it = [it]"

definition deleteComment :: "string \<Rightarrow> nat \<Rightarrow> item list \<Rightarrow> item list" where
  "deleteComment answer cid ul = concat (map (delete_item answer cid) ul)"

lemma delete_marks_length:
  "answer \<noteq> ''delete'' \<Longrightarrow> length (delete_item answer cid it) = 1"
  by (induction answer cid it rule: delete_item.induct) auto

fun item_infos :: "item \<Rightarrow> comment_info list" where
  "item_infos (Shown i kids) = i # concat (map item_infos kids)"
| "item_infos _ = []"

definition ul_infos :: "item list \<Rightarrow> comment_info list" where
  "ul_infos ul = concat (map item_infos ul)"

lemma ul_infos_simps [simp]:
  "ul_infos [] = []" "ul_infos (it # its) = item_infos it @ ul_infos its"
  "ul_infos (xs @ ys) = ul_infos xs @ ul_infos ys"
  by (simp_all add: ul_infos_def)

lemma infos_concat: "(\<And>it. it \<in> set its \<Longrightarrow> ul_infos (f it) = map g (item_infos it)) \<Longrightarrow>
    ul_infos (concat (map f its)) = map g (ul_infos its)"
  by (induction its) auto

lemma delete_other: "cid \<notin> c_id ` set (item_infos it) \<Longrightarrow> delete_item answer cid it = [it]"
proof (induction answer cid it rule: delete_item.induct)
  case (1 answer cid i kids)
  then have "\<forall>k \<in> set kids. delete_item answer cid k = [k]" by auto
  then have "concat (map (delete_item answer cid) kids) = kids" by (induction kids) auto
  with 1 show ?case by auto
qed auto

lemma delete_user_infos:
  "answer \<noteq> ''delete'' \<Longrightarrow> distinct (map c_id (item_infos it)) \<Longrightarrow>
   ul_infos (delete_item answer cid it) =
     map (\<lambda>i. if c_id i = cid then mark_deleted i else i) (item_infos it)"
proof (induction answer cid it rule: delete_item.induct)
  case (1 answer cid i kids)
  show ?case
  proof (cases "c_id i = cid")
    case True
    have "c_id i \<notin> set (map c_id (concat (map item_infos kids)))"
      using "1.prems"(2) by simp
    with True have "\<forall>j \<in> set (concat (map item_infos kids)). c_id j \<noteq> cid"
      by (metis image_eqI list.set_map)
    then have "map (\<lambda>j. if c_id j = cid then mark_deleted j else j) (concat (map item_infos kids)) =
        concat (map item_infos kids)"
      by (intro map_idI) auto
    with True "1.prems" show ?thesis by simp
  next
    case False
    have "distinct (map c_id (item_infos k))" if "k \<in> set kids" for k
      using "1.prems"(2) that by (auto simp: map_concat distinct_concat_iff)
    then have "ul_infos (concat (map (delete_item answer cid) kids)) =
        map (\<lambda>j. if c_id j = cid then mark_deleted j else j) (ul_infos kids)"
      using "1.IH" "1.prems"(1) False by (intro infos_concat) auto
    with False show ?thesis by (simp add: ul_infos_def)
  qed
qed auto

section \<open>Properties\<close>

definition flat :: "comment list \<Rightarrow> comment_info multiset" where
  "flat cs = mset (concat (map infos cs))"

text \<open>
  Choosing another order sorts the shown comments of every list, at every depth, and
  shows exactly the same comments as before.
\<close>

theorem resort_sorts:
  assumes "\<forall>ul \<in> set (uls p). list_all (item_ok m) ul"
  shows "(\<forall>ul \<in> set (uls (handleReSort m classes p)).
      ordered (sort_key (handleReSort m classes p)) (getChildren ul)) \<and>
    map (flat \<circ> getChildren) (uls (handleReSort m classes p)) = map (flat \<circ> getChildren) (uls p)"
  using assms
  by (auto simp: handleReSort_def Let_def getChildren_resort ordered_sortComments flat_def infos_sortComments)

definition example_comment :: "nat \<Rightarrow> int \<Rightarrow> int \<Rightarrow> comment_info" where
  "example_comment n r a =
     \<lparr>c_id = n, c_node = '''', c_parent = '''', c_user = ''ann'', c_text = ''ok'', c_proposal = '''',
      c_rating = r, c_age = a, c_vote = 0, c_displayed = True\<rparr>"

definition example_comments :: comment_page where
  "example_comments = \<lparr>sort_key = map code ''rating'',
     uls = [[Shown (example_comment 1 2 9) [], Moderated, Shown (example_comment 2 7 3) []]]\<rparr>"

theorem resort_sorts_witness:
  "map (flat \<circ> getChildren) (uls (handleReSort False (map code ''sort-option byage'') example_comments)) =
   [{#example_comment 1 2 9, example_comment 2 7 3#}]"
proof -
  have "\<forall>ul \<in> set (uls example_comments). list_all (item_ok False) ul"
    by (simp add: example_comments_def example_comment_def)
  from conjunct2 [OF resort_sorts [OF this]] show ?thesis
    by (simp add: example_comments_def flat_def getChildren_def)
qed

text \<open>
  C29: a new comment goes to its place: with the comments of the list in order they still are, and
  they are the old ones and the new one; a comment that awaits moderation shows nothing.
\<close>

theorem insertComment_in_order:
  assumes "number_key by" and "sorted_wrt (\<lambda>a b. sort_value by a b \<le> 0) (shown_infos ul)"
  shows "sorted_wrt (\<lambda>a b. sort_value by a b \<le> 0) (shown_infos (insertComment m by c ul)) \<and>
    mset (shown_infos (insertComment m by c ul)) =
      (if visible_to m c then {#c#} else {#}) + mset (shown_infos ul)"
proof (cases "visible_to m c")
  case True
  then have "shown_infos (insertComment m by c ul) = ins_cmp (sort_value by) c (shown_infos ul)"
    using shown_insert [OF assms(1), of c ul] by (auto simp: insertComment_def visible_to_def)
  with assms(2) True show ?thesis by (simp add: comment_order.sorted_ins list_all_iff)
next
  case False
  with assms(2) show ?thesis by (simp add: insertComment_def visible_to_def shown_insert_moderated)
qed

theorem insertComment_in_order_witness:
  "sorted_wrt (\<lambda>a b. sort_value (map code ''rating'') a b \<le> 0)
     (shown_infos (insertComment False (map code ''rating'') (example_comment 3 5 1)
       [Shown (example_comment 2 7 3) [], Moderated, Shown (example_comment 1 2 9) []]))"
proof -
  have k: "number_key (map code ''rating'')"
    by (simp add: number_key_def numeric_def substring_def code_def)
  have "sorted_wrt (\<lambda>a b. sort_value (map code ''rating'') a b \<le> 0)
      (shown_infos [Shown (example_comment 2 7 3) [], Moderated, Shown (example_comment 1 2 9) []])"
    by (simp add: sort_value_def comp_by_def minus_field_def field_def substring_def code_def example_comment_def)
  from conjunct1 [OF insertComment_in_order [OF k this]] show ?thesis .
qed

text \<open>
  The order stored in the cookie comes back on the next page when the cookie stands alone;
  when another cookie follows, the order by rating is used whatever was stored.
\<close>

theorem sort_cookie_read:
  "initComparator (sort_cookie by) = map code by \<and>
   initComparator (sort_cookie by @ ''; '' @ rest) = map code ''rating''"
proof
  have start: "find_sub ''sortBy='' (sort_cookie by @ t) = Some 0" for t
    by (simp add: sort_cookie_def)
  have d: "drop 7 (sort_cookie by @ t) = escape by @ t" for t
    by (simp add: sort_cookie_def)
  have n: "find_sub '';'' (escape by) = None" using escape_no_semicolon by (rule find_sub_absent)
  have sub: "substring (sort_cookie by) 7 (int (length (sort_cookie by))) = escape by"
    unfolding substring_def Let_def nat_int by (simp add: sort_cookie_def)
  have "unescape (escape by) = map code by"
    using unescape_escape [of "by" "[]"] by (simp add: unescape.simps [of "[]"])
  then show "initComparator (sort_cookie by) = map code by"
    using start [of "[]"] d [of "[]"] sub n
    by (simp add: initComparator_def indexOf_def indexOf_from_def Let_def) (simp add: sort_cookie_def)
  have "find_sub '';'' (escape by @ '';'' @ '' '' @ rest) = Some (length (escape by))"
    using find_sub_first [OF escape_no_semicolon] by simp
  then show "initComparator (sort_cookie by @ ''; '' @ rest) = map code ''rating''"
    using start [of "''; '' @ rest"] d [of "''; '' @ rest"]
    by (simp add: initComparator_def indexOf_def indexOf_from_def Let_def)
qed

lemma sort_cmp_zero: "(\<And>a b. cmp a b = 0) \<Longrightarrow> sort_cmp cmp xs = xs"
proof (induction xs)
  case (Cons x xs)
  have "ins_cmp cmp x ys = x # ys" for ys using Cons.prems by (cases ys) auto
  moreover have "foldr (ins_cmp cmp) xs [] = xs"
    using Cons.IH [OF Cons.prems] by (simp only: sort_cmp_def)
  ultimately show ?case by (simp only: sort_cmp_def foldr.simps comp_apply)
qed (simp add: sort_cmp_def)

lemma sortComments_unordered: "(\<And>a b. sort_value by a b = 0) \<Longrightarrow> sortComments by cs = cs"
proof (induction "by" cs rule: sortComments.induct)
  case (1 "by" cs)
  have s: "sort_cmp (\<lambda>a b. sort_value by (info a) (info b)) cs = cs"
    using "1.prems" by (intro sort_cmp_zero)
  have "Comment (info c) (sortComments by (replies c)) = c" if "c \<in> set cs" for c
    using "1.IH" [of c] "1.prems" that by (simp add: s)
  then show ?case by (simp add: sortComments.simps [of "by" cs] s map_idI)
qed

text \<open>
  Choosing the order that is already chosen, whose link also has the class \<open>sel\<close>, selects the
  key \<open>l\<close>, by which nothing is sorted.
\<close>

theorem reselect_loses_order:
  assumes "\<forall>u \<in> set k. \<not> unit_space u"
  shows "link_key by (map code ''sort-option'' @ 32 # (map code ''by'' @ k) @ 32 # map code ''sel'') = map code ''l'' \<and>
    sortComments (map code ''l'') cs = cs"
proof
  have w: "\<forall>u \<in> set (map code ''sort-option''). \<not> unit_space u" "\<forall>u \<in> set (map code ''by'' @ k). \<not> unit_space u"
    "\<forall>u \<in> set (map code ''sel''). \<not> unit_space u"
    using assms by (auto simp: unit_space_def code_def)
  have "split_space (map code ''sort-option'' @ 32 # (map code ''by'' @ k) @ 32 # map code ''sel'') =
      map code ''sort-option'' # split_space ((map code ''by'' @ k) @ 32 # map code ''sel'')"
    by (rule split_space_sep [OF w(1)]) (simp_all add: unit_space_def code_def)
  also have "split_space ((map code ''by'' @ k) @ 32 # map code ''sel'') = [map code ''by'' @ k, map code ''sel'']"
    using split_space_sep [OF w(2), of "map code ''sel''"] split_space_word [OF w(3)]
    by (simp add: unit_space_def code_def)
  finally show "link_key by (map code ''sort-option'' @ 32 # (map code ''by'' @ k) @ 32 # map code ''sel'') = map code ''l''"
    by (simp only: link_key_def) (simp add: substring1_def code_def)
  have "sort_value (map code ''l'') a b = 0" for a b
    by (simp add: sort_value_def comp_by_def minus_field_def field_def substring_def code_def)
  then show "sortComments (map code ''l'') cs = cs" by (rule sortComments_unordered)
qed

theorem reselect_loses_order_witness:
  "link_key (map code ''rating'') (map code ''sort-option byrating sel'') = map code ''l''"
  using conjunct1 [OF reselect_loses_order [of "map code ''rating''" "map code ''rating''"]]
  by (simp add: unit_space_def code_def)

text \<open>
  A user who deletes a comment only blanks its author and text: every comment of the list,
  the replies of the deleted one included, stays where it is.
\<close>

theorem delete_keeps_replies:
  assumes "answer \<noteq> ''delete''" and "distinct (map c_id (ul_infos ul))"
  shows "ul_infos (deleteComment answer cid ul) =
    map (\<lambda>i. if c_id i = cid then mark_deleted i else i) (ul_infos ul)"
proof -
  have "distinct (map c_id (item_infos it))" if "it \<in> set ul" for it
    using assms(2) that by (auto simp: ul_infos_def map_concat distinct_concat_iff)
  then show ?thesis
    unfolding deleteComment_def using assms(1) by (intro infos_concat delete_user_infos)
qed

theorem delete_keeps_replies_witness:
  "map c_text (ul_infos (deleteComment '''' 1 [Shown (example_comment 1 2 9) [Shown (example_comment 2 7 3) []]])) =
   [''[deleted]'', ''ok'']"
proof -
  have "ul_infos (deleteComment '''' 1 [Shown (example_comment 1 2 9) [Shown (example_comment 2 7 3) []]]) =
      map (\<lambda>i. if c_id i = 1 then mark_deleted i else i)
        (ul_infos [Shown (example_comment 1 2 9) [Shown (example_comment 2 7 3) []]])"
    by (rule delete_keeps_replies) (simp_all add: example_comment_def)
  then show ?thesis by (simp add: mark_deleted_def) (simp add: example_comment_def)
qed

end
