(* ===== verification/CommentUI.thy ===== *)
theory CommentUI
  imports Comments Template
begin

text \<open>
  The rest of \<open>websupport.js\<close>: the markup of a comment, the votes, the boxes that links open and
  close, the form a comment is entered in, and the text area that grows with its text.
\<close>

section \<open>Options and the markup of a comment\<close>

text \<open>\<open>$.extend(a, b)\<close> on flat objects: undefined values are not copied.\<close>

definition extend_obj :: "tcontext \<Rightarrow> tcontext \<Rightarrow> tcontext" where
  "extend_obj a b = foldl (\<lambda>m kv. if snd kv = VUndefined then m else obj_put (fst kv) (snd kv) m) a b"

definition default_opts :: tcontext where
  "default_opts =
     [(''processVoteURL'', VStr ''/_process_vote''), (''addCommentURL'', VStr ''/_add_comment''),
      (''getCommentsURL'', VStr ''/_get_comments''), (''acceptCommentURL'', VStr ''/_accept_comment''),
      (''deleteCommentURL'', VStr ''/_delete_comment''),
      (''commentImage'', VStr ''/static/_static/comment.png''),
      (''closeCommentImage'', VStr ''/static/_static/comment-close.png''),
      (''loadingImage'', VStr ''/static/_static/ajax-loader.gif''),
      (''commentBrightImage'', VStr ''/static/_static/comment-bright.png''),
      (''upArrow'', VStr ''/static/_static/up.png''), (''downArrow'', VStr ''/static/_static/down.png''),
      (''upArrowPressed'', VStr ''/static/_static/up-pressed.png''),
      (''downArrowPressed'', VStr ''/static/_static/down-pressed.png''),
      (''voting'', VBool False), (''moderator'', VBool False)]"

definition page_opts :: "tcontext option \<Rightarrow> tcontext" where
  "page_opts comment_options =
     (case comment_options of None \<Rightarrow> default_opts | Some o' \<Rightarrow> extend_obj default_opts o')"

definition opt :: "tcontext \<Rightarrow> string \<Rightarrow> jsval" where
  "opt opts k = (case obj_get opts k of Some v \<Rightarrow> v | None \<Rightarrow> VUndefined)"

definition points :: "int \<Rightarrow> string" where
  "points n = show_int n @ '' point'' @ (if n = 1 then '''' else ''s'')"

text \<open>
  The properties of a comment after \<open>createCommentDiv\<close> has added the two it computes; \<open>delta\<close> is
  the text of its age.
\<close>

definition comment_values :: "comment_info \<Rightarrow> string \<Rightarrow> tcontext" where
  "comment_values c delta =
     [(''id'', VNum (int (c_id c))), (''node'', VStr (c_node c)), (''parent'', VStr (c_parent c)),
      (''username'', VStr (c_user c)), (''text'', VStr (c_text c)),
      (''proposal_diff'', VStr (c_proposal c)), (''rating'', VNum (c_rating c)),
      (''age'', VNum (c_age c)), (''vote'', VNum (c_vote c)), (''displayed'', VBool (c_displayed c)),
      (''time'', VObj [(''delta'', VStr delta)]), (''pretty_rating'', VStr (points (c_rating c))),
      (''css_class'', VStr (if c_displayed c then '''' else '' moderate''))]"

text \<open>The markup and the elements hidden and shown in it, by their ids.\<close>

record comment_div =
  markup :: string
  hide_ids :: "string list"
  show_ids :: "string list"

definition awaits_moderation :: string where
  "awaits_moderation = ''<div class=\"moderate\">Thank you!  Your comment will show up once it is has been approved by a moderator.</div>''"

definition comment_links :: "tcontext \<Rightarrow> comment_info \<Rightarrow> string list" where
  "comment_links opts c =
     (let moderator = \<not> falsy (opt opts ''moderator''); n = show_nat (c_id c) in
      if moderator \<or> c_text c \<noteq> ''[deleted]''
      then [''a.reply''] @ (if c_proposal c \<noteq> '''' then [''sp'' @ n] else []) @
           (if moderator \<and> \<not> c_displayed c then [''cm'' @ n] else []) @
           (if moderator \<or> opt opts ''username'' = VStr (c_user c) then [''dc'' @ n] else [])
      else [])"

definition createCommentDiv :: "tcontext \<Rightarrow> comment_info \<Rightarrow> string \<Rightarrow> comment_div result" where
  "createCommentDiv opts c delta =
     (if \<not> c_displayed c \<and> falsy (opt opts ''moderator'')
      then Inr \<lparr>markup = awaits_moderation, hide_ids = [], show_ids = []\<rparr>
      else
        bind_result (renderTemplate commentTemplate (extend_obj (extend_obj [] opts) (comment_values c delta)))
          (\<lambda>m. let direction = (if c_vote c = 1 then ''u'' else ''d''); n = show_nat (c_id c) in
            Inr \<lparr>markup = m,
                 hide_ids = (if c_vote c \<noteq> 0 then [direction @ ''v'' @ n] else []),
                 show_ids = (if c_vote c \<noteq> 0 then [direction @ ''u'' @ n] else []) @ comment_links opts c\<rparr>))"

lemma obj_get_extend:
  "distinct (map fst b) \<Longrightarrow> obj_get (extend_obj a b) k =
     (case map_of b k of Some v \<Rightarrow> if v = VUndefined then obj_get a k else Some v | None \<Rightarrow> obj_get a k)"
proof (induction b arbitrary: a)
  case (Cons kv b)
  have "extend_obj a (kv # b) = extend_obj (if snd kv = VUndefined then a else obj_put (fst kv) (snd kv) a) b"
    by (simp add: extend_obj_def)
  moreover have "map_of b (fst kv) = None" using Cons.prems by (simp add: map_of_eq_None_iff)
  ultimately show ?case
    using Cons by (auto simp: js_obj split: option.splits)
qed (simp add: extend_obj_def)

lemma distinct_comment_values: "distinct (map fst (comment_values c delta))"
  by (simp add: comment_values_def)

lemma obj_get_comment_values:
  "obj_get (extend_obj opts (comment_values c delta)) ''text'' = Some (VStr (c_text c))"
  "obj_get (extend_obj opts (comment_values c delta)) ''username'' = Some (VStr (c_user c))"
  "obj_get (extend_obj opts (comment_values c delta)) ''time'' = Some (VObj [(''delta'', VStr delta)])"
  by (simp_all add: obj_get_extend [OF distinct_comment_values]) (simp_all add: comment_values_def)

lemma raw_in_paths: "(False, n) \<in> set (paths ps) \<Longrightarrow> \<exists>qs rs. ps = qs @ Raw n # rs"
proof (induction ps rule: paths.induct)
  case (2 c ps)
  then obtain qs rs where "ps = qs @ Raw n # rs" by auto
  then show ?case by (intro exI [of _ "Plain c # qs"] exI [of _ rs]) simp
next
  case (3 m ps)
  then obtain qs rs where "ps = qs @ Raw n # rs" by auto
  then show ?case by (intro exI [of _ "Escaped m # qs"] exI [of _ rs]) simp
next
  case (4 m ps)
  show ?case
  proof (cases "m = n")
    case True
    then show ?thesis by (intro exI [of _ "[]"] exI [of _ ps]) simp
  next
    case False
    with 4 obtain qs rs where "ps = qs @ Raw n # rs" by auto
    then show ?thesis by (intro exI [of _ "Raw m # qs"] exI [of _ rs]) simp
  qed
qed auto

lemma map_result_append:
  "map_result f (xs @ ys) =
     bind_result (map_result f xs) (\<lambda>us. bind_result (map_result f ys) (\<lambda>vs. Inr (us @ vs)))"
proof (induction xs)
  case Nil
  then show ?case by (cases "map_result f ys") simp_all
next
  case (Cons x xs)
  then show ?case by (cases "f x"; cases "map_result f xs"; cases "map_result f ys") simp_all
qed

lemma render_has_raw:
  assumes "renderTemplate t ctx = Inr m" and "(False, n) \<in> set (paths (pieces t))"
    and "handle ctx n False = Inr v"
  shows "\<exists>a b. m = a @ v @ b"
proof -
  obtain qs rs where p: "pieces t = qs @ Raw n # rs" using raw_in_paths [OF assms(2)] by blast
  from assms(1) obtain us vs where "m = concat (us @ v # vs)"
    using assms(3) by (auto simp: render_pieces p map_result_append bind_result_eq_Inr)
  then show ?thesis by (intro exI [of _ "concat us"] exI [of _ "concat vs"]) simp
qed

section \<open>Votes\<close>

text \<open>
  What \<open>handleVote\<close> reads and changes for one comment: the data of the comment, which of its four
  arrows are visible (\<open>u\<close> or \<open>d\<close> for the direction, then \<open>v\<close> to vote or \<open>u\<close> to take the vote
  back), the votes sent and the messages shown.
\<close>

record ballot =
  rating :: int
  vote :: int
  arrows :: "string set"
  sent :: "int list"
  errors :: "string list"

definition handleVote :: "bool \<Rightarrow> string \<Rightarrow> ballot \<Rightarrow> ballot" where
  "handleVote voting link b =
     (if \<not> voting then b\<lparr>errors := errors b @ [''You'' @ [CHR 0x27] @ ''ll need to login to vote.'']\<rparr>
      else case link of
        c0 # c1 # _ \<Rightarrow>
          let value = (if c1 \<noteq> CHR ''u'' then (if c0 = CHR ''u'' then 1 else -1) else 0);
              a1 = insert [c0, if c1 = CHR ''u'' then CHR ''v'' else CHR ''u''] (arrows b - {[c0, c1]});
              other = (if value = 1 then CHR ''d'' else CHR ''u'');
              a2 = (if value \<noteq> 0 \<and> vote b = value * -1
                    then insert [other, CHR ''v''] (a1 - {[other, CHR ''u'']}) else a1)
          in b\<lparr>arrows := a2,
               rating := rating b + (if vote b = 0 then value else value - vote b),
               vote := value, sent := sent b @ [value]\<rparr>
      | _ \<Rightarrow> b)"

text \<open>The ballot of a comment just shown, with the arrow of an earlier vote pressed.\<close>

definition fresh_ballot :: "comment_info \<Rightarrow> ballot" where
  "fresh_ballot c =
     (let d = (if c_vote c = 1 then CHR ''u'' else CHR ''d'') in
      \<lparr>rating = c_rating c, vote = c_vote c,
       arrows = (if c_vote c \<noteq> 0 then insert [d, CHR ''u''] ({''uv'', ''dv''} - {[d, CHR ''v'']})
                 else {''uv'', ''dv''}),
       sent = [], errors = []\<rparr>)"

inductive vote_reachable :: "comment_info \<Rightarrow> ballot \<Rightarrow> bool" for c where
  fresh: "vote_reachable c (fresh_ballot c)"
| arrow: "vote_reachable c b \<Longrightarrow> a \<in> arrows b \<Longrightarrow> vote_reachable c (handleVote True a b)"

definition pressed_arrows :: "int \<Rightarrow> string set" where
  "pressed_arrows v = {if v = 1 then ''uu'' else ''uv'', if v = -1 then ''du'' else ''dv''}"

definition ballot_ok :: "comment_info \<Rightarrow> ballot \<Rightarrow> bool" where
  "ballot_ok c b \<longleftrightarrow> vote b \<in> {-1, 0, 1} \<and> rating b - vote b = c_rating c - c_vote c \<and>
     arrows b = pressed_arrows (vote b)"

lemma fresh_arrows: "c_vote c \<in> {-1, 0, 1} \<Longrightarrow> arrows (fresh_ballot c) = pressed_arrows (c_vote c)"
  unfolding fresh_ballot_def pressed_arrows_def Let_def
  by (elim insertE emptyE; simp add: insert_Diff_if insert_commute)

lemma ballot_ok_fresh: "c_vote c \<in> {-1, 0, 1} \<Longrightarrow> ballot_ok c (fresh_ballot c)"
  using fresh_arrows [of c] by (simp add: ballot_ok_def fresh_ballot_def Let_def)

text \<open>One click, for each state of the ballot and each arrow it shows.\<close>

lemma click_arrows:
  assumes "arrows b = pressed_arrows v" and "vote b = v"
  shows "v = 0 \<Longrightarrow> arrows (handleVote True ''uv'' b) = pressed_arrows 1"
    and "v = 0 \<Longrightarrow> arrows (handleVote True ''dv'' b) = pressed_arrows (-1)"
    and "v = 1 \<Longrightarrow> arrows (handleVote True ''uu'' b) = pressed_arrows 0"
    and "v = 1 \<Longrightarrow> arrows (handleVote True ''dv'' b) = pressed_arrows (-1)"
    and "v = -1 \<Longrightarrow> arrows (handleVote True ''uv'' b) = pressed_arrows 1"
    and "v = -1 \<Longrightarrow> arrows (handleVote True ''du'' b) = pressed_arrows 0"
  using assms
  by (simp_all add: handleVote_def pressed_arrows_def Let_def insert_Diff_if insert_commute)

lemma click_vote:
  assumes "a \<in> {''uv'', ''uu'', ''dv'', ''du''}"
  shows "vote (handleVote True a b) = (if a = ''uv'' then 1 else if a = ''dv'' then -1 else 0)"
    and "rating (handleVote True a b) - vote (handleVote True a b) = rating b - vote b"
  using assms by (elim insertE emptyE; simp add: handleVote_def Let_def)+

lemma pressed_cases: "a \<in> pressed_arrows v \<Longrightarrow>
    a = ''uu'' \<and> v = 1 \<or> a = ''uv'' \<and> v \<noteq> 1 \<or> a = ''du'' \<and> v = -1 \<or> a = ''dv'' \<and> v \<noteq> -1"
  by (simp add: pressed_arrows_def split: if_splits)

lemma ballot_ok_vote:
  assumes "ballot_ok c b" and "a \<in> arrows b"
  shows "ballot_ok c (handleVote True a b)"
proof -
  have b: "vote b = -1 \<or> vote b = 0 \<or> vote b = 1" "arrows b = pressed_arrows (vote b)"
    "rating b - vote b = c_rating c - c_vote c"
    using assms(1) by (simp_all add: ballot_ok_def)
  from pressed_cases [OF assms(2) [unfolded b(2)]] b(1)
  consider "a = ''uv''" "vote b = 0" | "a = ''dv''" "vote b = 0" | "a = ''uu''" "vote b = 1"
    | "a = ''dv''" "vote b = 1" | "a = ''uv''" "vote b = -1" | "a = ''du''" "vote b = -1" by argo
  then show ?thesis
    using click_arrows [OF b(2) refl] click_vote [of a b] b(3)
    by cases (simp_all add: ballot_ok_def)
qed

lemma vote_reachable_ok: "vote_reachable c b \<Longrightarrow> c_vote c \<in> {-1, 0, 1} \<Longrightarrow> ballot_ok c b"
  by (induction rule: vote_reachable.induct) (blast intro: ballot_ok_fresh ballot_ok_vote)+

section \<open>Boxes that links open and close\<close>

text \<open>
  The elements of the page by their ids: the visible ones, the popups and reply forms that exist
  (one entry per element), and the text areas of proposed changes. A sliding animation counts
  as finished.
\<close>

record page =
  visible :: "string set"
  popups :: "string list"
  reply_forms :: "string list"
  proposals :: "(string, string) jsobj"

definition hide_el :: "string \<Rightarrow> page \<Rightarrow> page" where
  "hide_el x p = p\<lparr>visible := visible p - {x}\<rparr>"

definition show_el :: "string \<Rightarrow> page \<Rightarrow> page" where
  "show_el x p = p\<lparr>visible := insert x (visible p)\<rparr>"

text \<open>\<open>show\<close> and \<open>hide\<close>: the popup with the comments of a node.\<close>

definition popup_markup :: "tcontext \<Rightarrow> string \<Rightarrow> string result" where
  "popup_markup opts cid = renderTemplate popupTemplate (extend_obj [(''id'', VStr cid)] opts)"

definition show_comments :: "string \<Rightarrow> page \<Rightarrow> page" where
  "show_comments cid p =
     (let p1 = show_el (''ah'' @ cid) (hide_el (''ao'' @ cid) p) in p1\<lparr>popups := popups p1 @ [cid]\<rparr>)"

definition hide_comments :: "string \<Rightarrow> page \<Rightarrow> page" where
  "hide_comments cid p =
     (let p1 = show_el (''ao'' @ cid) (hide_el (''ah'' @ cid) p) in p1\<lparr>popups := removeAll cid (popups p1)\<rparr>)"

definition showProposal :: "string \<Rightarrow> page \<Rightarrow> page" where
  "showProposal cid p = show_el (''pr'' @ cid) (show_el (''hp'' @ cid) (hide_el (''sp'' @ cid) p))"

definition hideProposal :: "string \<Rightarrow> page \<Rightarrow> page" where
  "hideProposal cid p = hide_el (''pr'' @ cid) (show_el (''sp'' @ cid) (hide_el (''hp'' @ cid) p))"

text \<open>\<open>source\<close> is the text the server sent with the comments.\<close>

definition showProposeChange :: "string \<Rightarrow> string \<Rightarrow> page \<Rightarrow> page" where
  "showProposeChange source cid p =
     (let p1 = show_el (''hc'' @ cid) (hide_el (''pc'' @ cid) p)
      in show_el (''pt'' @ cid) (p1\<lparr>proposals := obj_put cid source (proposals p1)\<rparr>))"

definition hideProposeChange :: "string \<Rightarrow> page \<Rightarrow> page" where
  "hideProposeChange cid p =
     (let p1 = show_el (''pc'' @ cid) (hide_el (''hc'' @ cid) p)
      in hide_el (''pt'' @ cid) (p1\<lparr>proposals := obj_put cid '''' (proposals p1)\<rparr>))"

definition toggleCommentMarkupBox :: "string \<Rightarrow> page \<Rightarrow> page" where
  "toggleCommentMarkupBox cid p = (if ''mb'' @ cid \<in> visible p then hide_el (''mb'' @ cid) p else show_el (''mb'' @ cid) p)"

definition openReply :: "string \<Rightarrow> page \<Rightarrow> page" where
  "openReply cid p =
     (let p1 = show_el (''cr'' @ cid) (hide_el (''rl'' @ cid) p) in p1\<lparr>reply_forms := cid # reply_forms p1\<rparr>)"

definition closeReply :: "string \<Rightarrow> page \<Rightarrow> page" where
  "closeReply cid p =
     (let p1 = p\<lparr>reply_forms := removeAll cid (reply_forms p)\<rparr>
      in show_el (''rl'' @ cid) (hide_el (''cr'' @ cid) p1))"

definition example_opts :: tcontext where
  "example_opts = page_opts (Some [(''voting'', VBool True), (''username'', VStr ''ann'')])"

lemma count_removeAll: "count_list (removeAll x xs) y = (if x = y then 0 else count_list xs y)"
  by (induction xs) auto

text \<open>
  The contract the two pairs of operations share: a link opens a box and gives way to the link
  that closes it, and the boxes of other ids are left alone.
\<close>

definition box_ok :: "('s \<Rightarrow> bool) \<Rightarrow> ('s \<Rightarrow> bool) \<Rightarrow> ('s \<Rightarrow> nat) \<Rightarrow> 's \<Rightarrow> bool" where
  "box_ok open_link close_link boxes s \<longleftrightarrow>
     open_link s \<noteq> close_link s \<and> boxes s = (if close_link s then 1 else 0)"

locale box =
  fixes open_box close_box :: "string \<Rightarrow> 's \<Rightarrow> 's"
    and open_link close_link :: "string \<Rightarrow> 's \<Rightarrow> bool"
    and boxes :: "string \<Rightarrow> 's \<Rightarrow> nat"
  assumes opened: "\<not> open_link i (open_box i s)" "close_link i (open_box i s)"
      "boxes i (open_box i s) = Suc (boxes i s)"
    and closed: "open_link i (close_box i s)" "\<not> close_link i (close_box i s)" "boxes i (close_box i s) = 0"
    and others: "j \<noteq> i \<Longrightarrow> open_link j (open_box i s) = open_link j s"
      "j \<noteq> i \<Longrightarrow> close_link j (open_box i s) = close_link j s"
      "j \<noteq> i \<Longrightarrow> boxes j (open_box i s) = boxes j s"
      "j \<noteq> i \<Longrightarrow> open_link j (close_box i s) = open_link j s"
      "j \<noteq> i \<Longrightarrow> close_link j (close_box i s) = close_link j s"
      "j \<noteq> i \<Longrightarrow> boxes j (close_box i s) = boxes j s"
begin

lemma open_ok:
  assumes "open_link i s" and "box_ok (open_link i) (close_link i) (boxes i) s"
    and "box_ok (open_link j) (close_link j) (boxes j) s"
  shows "box_ok (open_link j) (close_link j) (boxes j) (open_box i s)"
  using assms by (cases "j = i") (auto simp: box_ok_def opened others)

lemma close_ok:
  assumes "box_ok (open_link j) (close_link j) (boxes j) s"
  shows "box_ok (open_link j) (close_link j) (boxes j) (close_box i s)"
  using assms by (cases "j = i") (auto simp: box_ok_def closed others)

lemma close_open:
  assumes "open_link i s" and "box_ok (open_link i) (close_link i) (boxes i) s"
  shows "open_link j (close_box i (open_box i s)) = open_link j s"
    and "close_link j (close_box i (open_box i s)) = close_link j s"
    and "boxes j (close_box i (open_box i s)) = boxes j s"
  using assms by (cases "j = i"; auto simp: box_ok_def opened closed others)+

end

definition link_visible :: "string \<Rightarrow> string \<Rightarrow> page \<Rightarrow> bool" where
  "link_visible pre cid p \<longleftrightarrow> pre @ cid \<in> visible p"

lemmas page_ops = show_comments_def hide_comments_def openReply_def closeReply_def showProposal_def
  hideProposal_def showProposeChange_def hideProposeChange_def toggleCommentMarkupBox_def
  show_el_def hide_el_def link_visible_def Let_def

interpretation popup_box: box show_comments hide_comments "link_visible ''ao''" "link_visible ''ah''"
    "\<lambda>cid p. count_list (popups p) cid"
  by unfold_locales (auto simp: page_ops count_removeAll)

interpretation reply_box: box openReply closeReply "link_visible ''rl''" "link_visible ''cr''"
    "\<lambda>cid p. count_list (reply_forms p) cid"
  by unfold_locales (auto simp: page_ops count_removeAll)

definition popup_ok :: "string \<Rightarrow> page \<Rightarrow> bool" where
  "popup_ok cid = box_ok (link_visible ''ao'' cid) (link_visible ''ah'' cid) (\<lambda>p. count_list (popups p) cid)"

definition reply_ok :: "string \<Rightarrow> page \<Rightarrow> bool" where
  "reply_ok cid = box_ok (link_visible ''rl'' cid) (link_visible ''cr'' cid) (\<lambda>p. count_list (reply_forms p) cid)"

text \<open>
  The clicks, each on a link that is visible; sending a reply closes its form whatever became of
  the request.
\<close>

inductive page_step :: "page \<Rightarrow> page \<Rightarrow> bool" where
  popup_opens: "link_visible ''ao'' i p \<Longrightarrow> page_step p (show_comments i p)"
| popup_closes: "page_step p (hide_comments i p)"
| reply_opens: "link_visible ''rl'' i p \<Longrightarrow> page_step p (openReply i p)"
| reply_closes: "page_step p (closeReply i p)"
| proposal_opens: "page_step p (showProposal i p)"
| proposal_closes: "page_step p (hideProposal i p)"
| change_opens: "page_step p (showProposeChange source i p)"
| change_closes: "page_step p (hideProposeChange i p)"
| markup_box: "page_step p (toggleCommentMarkupBox i p)"

inductive page_steps :: "page \<Rightarrow> page \<Rightarrow> bool" where
  none: "page_steps p p"
| more: "page_steps p q \<Longrightarrow> page_step q r \<Longrightarrow> page_steps p r"

lemma page_step_popup_ok: "page_step p q \<Longrightarrow> \<forall>i. popup_ok i p \<Longrightarrow> popup_ok j q"
proof (induction rule: page_step.induct)
  case (popup_opens i p)
  then show ?case unfolding popup_ok_def by (blast intro: popup_box.open_ok)
next
  case (popup_closes p i)
  then show ?case unfolding popup_ok_def by (blast intro: popup_box.close_ok)
qed (auto simp: popup_ok_def box_ok_def page_ops)

lemma page_step_reply_ok: "page_step p q \<Longrightarrow> \<forall>i. reply_ok i p \<Longrightarrow> reply_ok j q"
proof (induction rule: page_step.induct)
  case (reply_opens i p)
  then show ?case unfolding reply_ok_def by (blast intro: reply_box.open_ok)
next
  case (reply_closes p i)
  then show ?case unfolding reply_ok_def by (blast intro: reply_box.close_ok)
qed (auto simp: reply_ok_def box_ok_def page_ops)

lemma page_steps_ok: "page_steps p q \<Longrightarrow> \<forall>i. popup_ok i p \<and> reply_ok i p \<Longrightarrow> \<forall>i. popup_ok i q \<and> reply_ok i q"
proof (induction rule: page_steps.induct)
  case (more p q r)
  then show ?case using page_step_popup_ok page_step_reply_ok by blast
qed

section \<open>The comment form\<close>

text \<open>
  A form, the request it has sent and not yet heard of, the messages shown, and the list its
  comment goes to; \<open>no_comments\<close> says that the list holds the note that there are none.
\<close>

record form_state =
  f_node :: string
  f_parent :: string
  f_text :: string
  f_proposal :: string
  f_disabled :: bool
  pending :: "(string \<times> string \<times> string \<times> string) option"
  messages_shown :: "string list"
  no_comments :: bool
  comment_list :: "item list"

definition addComment :: "form_state \<Rightarrow> form_state" where
  "addComment s =
     (if f_text s = '''' then s\<lparr>messages_shown := messages_shown s @ [''Please enter a comment.'']\<rparr>
      else s\<lparr>f_disabled := True, pending := Some (f_node s, f_parent s, f_text s, f_proposal s)\<rparr>)"

definition comment_added :: "bool \<Rightarrow> units \<Rightarrow> comment_info \<Rightarrow> form_state \<Rightarrow> form_state" where
  "comment_added moderator by c s =
     (let s1 = s\<lparr>f_text := '''', f_proposal := '''', f_disabled := False, pending := None\<rparr>;
          s2 = (if no_comments s1 then s1\<lparr>comment_list := [], no_comments := False\<rparr> else s1)
      in s2\<lparr>comment_list := insertComment moderator by c (comment_list s2)\<rparr>)"

definition comment_failed :: "form_state \<Rightarrow> form_state" where
  "comment_failed s =
     s\<lparr>f_disabled := False, pending := None,
       messages_shown := messages_shown s @ [''Oops, there was a problem adding the comment.'']\<rparr>"

inductive form_step :: "form_state \<Rightarrow> form_state \<Rightarrow> bool" where
  typed: "\<not> f_disabled s \<Longrightarrow> form_step s (s\<lparr>f_text := t\<rparr>)"
| submitted: "\<not> f_disabled s \<Longrightarrow> form_step s (addComment s)"
| added: "pending s \<noteq> None \<Longrightarrow> form_step s (comment_added m by c s)"
| failed: "pending s \<noteq> None \<Longrightarrow> form_step s (comment_failed s)"

inductive_cases form_stepE: "form_step s t"

inductive form_reachable :: "form_state \<Rightarrow> bool" where
  empty: "\<not> f_disabled s \<Longrightarrow> pending s = None \<Longrightarrow> form_reachable s"
| step: "form_reachable s \<Longrightarrow> form_step s t \<Longrightarrow> form_reachable t"

definition form_inv :: "form_state \<Rightarrow> bool" where
  "form_inv s \<longleftrightarrow> (case pending s of
      None \<Rightarrow> \<not> f_disabled s
    | Some (n, p, t, pr) \<Rightarrow> f_disabled s \<and> n = f_node s \<and> p = f_parent s \<and> t = f_text s \<and> t \<noteq> '''' \<and> pr = f_proposal s)"

lemma form_step_inv: "form_step s t \<Longrightarrow> form_inv s \<Longrightarrow> form_inv t"
  by (erule form_stepE)
    (auto simp: form_inv_def addComment_def comment_added_def comment_failed_def Let_def split: option.splits)

lemma form_reachable_inv: "form_reachable s \<Longrightarrow> form_inv s"
proof (induction rule: form_reachable.induct)
  case (empty s)
  then show ?case by (simp add: form_inv_def)
next
  case (step s t)
  then show ?case using form_step_inv by blast
qed

section \<open>The growing text area\<close>

text \<open>\<open>autogrow.resize\<close>: \<open>Math.ceil(length / columns) || 1\<close> rows per line, and one more.\<close>

definition line_rows :: "nat \<Rightarrow> nat \<Rightarrow> nat" where
  "line_rows columns n = (let r = (n + columns - 1) div columns in if r = 0 then 1 else r)"

definition resize_height :: "int \<Rightarrow> nat \<Rightarrow> string \<Rightarrow> int" where
  "resize_height lineHeight columns v =
     lineHeight * (int (sum_list (map (\<lambda>l. line_rows columns (length l)) (split1 (CHR 0x0A) v))) + 1)"

lemma line_rows_enough: "0 < columns \<Longrightarrow> n \<le> columns * line_rows columns n"
proof -
  assume c: "0 < columns"
  let ?r = "(n + columns - 1) div columns"
  have "n + columns - 1 < columns * ?r + columns"
    using c by (metis add.commute dividend_less_times_div mult.commute)
  then have "n \<le> columns * ?r" using c by linarith
  then show ?thesis by (auto simp: line_rows_def Let_def)
qed

lemma line_rows_bound: "0 < columns \<Longrightarrow> 1 \<le> line_rows columns n \<and> line_rows columns n \<le> 1 + n div columns"
proof -
  assume c: "0 < columns"
  have "(n + columns - 1) div columns \<le> (n + columns) div columns" by (rule div_le_mono) simp
  also have "(n + columns) div columns = 1 + n div columns" using c by (simp add: div_add_self2)
  finally have "(n + columns - 1) div columns \<le> 1 + n div columns" .
  then show ?thesis by (auto simp: line_rows_def Let_def Suc_le_eq)
qed

section \<open>Anchors\<close>

record comment_anchor =
  anchor_title :: string
  anchor_image :: jsval
  anchor_class :: string
  anchor_ids :: "string list"

text \<open>\<open>$.fn.comment\<close>: the two links of a paragraph; a missing count is \<open>undefined\<close>.\<close>

definition comment_anchor_of :: "tcontext \<Rightarrow> string \<Rightarrow> int option \<Rightarrow> comment_anchor" where
  "comment_anchor_of opts attr_id cnt =
     (let cid = substring1 attr_id 1 in
      \<lparr>anchor_title = (case cnt of None \<Rightarrow> ''undefined'' | Some n \<Rightarrow> show_int n) @ '' comment'' @
          (if cnt = Some 1 then '''' else ''s''),
       anchor_image = (case cnt of
           Some n \<Rightarrow> if 0 < n then opt opts ''commentBrightImage'' else opt opts ''commentImage''
         | None \<Rightarrow> opt opts ''commentImage''),
       anchor_class = ''sphinx-comment-open'' @ (if cnt = Some 0 then '' nocomment'' else ''''),
       anchor_ids = [''ao'' @ cid, ''ah'' @ cid]\<rparr>)"

text \<open>The popup a URL asks for, and the hash it is replaced with.\<close>

definition requested_comment :: "string \<Rightarrow> (string \<times> string) option" where
  "requested_comment anchor =
     (if substring anchor 0 9 = ''#comment-'' then Some (''ao'' @ substring1 anchor 9, ''#s'' @ substring1 anchor 9)
      else None)"

section \<open>Properties\<close>

text \<open>
  The markup of a comment holds its text as it is, without escaping, and its author escaped.
\<close>

theorem comment_text_raw:
  assumes "c_displayed c"
  shows "\<exists>d a b. createCommentDiv opts c delta = Inr d \<and> markup d = a @ c_text c @ b"
proof -
  let ?ctx = "extend_obj (extend_obj [] opts) (comment_values c delta)"
  have h: "handle ?ctx ''text'' False = Inr (c_text c)"
    by (simp add: handle_def obj_get_comment_values)
  have "renderTemplate commentTemplate ?ctx \<noteq> Inl TypeError"
  proof -
    have plain: "(\<exists>v. handle ?ctx n e = Inr v) = True" if "CHR ''.'' \<notin> set n" for n e
      using handle_plain [OF that] by simp
    have "\<exists>v. handle ?ctx ''time.delta'' e = Inr v" for e
      by (simp add: handle_Inr_iff obj_get_comment_values)
    then have "\<exists>s. renderTemplate commentTemplate ?ctx = Inr s"
      unfolding render_Inr_iff comment_paths by (simp add: plain)
    then show ?thesis by (simp add: render_Inl_iff)
  qed
  then obtain m where m: "renderTemplate commentTemplate ?ctx = Inr m"
    using render_Inl_iff by blast
  have "(False, ''text'') \<in> set (paths (pieces commentTemplate))" by (simp add: comment_paths)
  from render_has_raw [OF m this h] obtain a b where "m = a @ c_text c @ b" by blast
  with m assms show ?thesis by (auto simp: createCommentDiv_def Let_def)
qed

theorem comment_text_raw_witness:
  "\<exists>d a b. createCommentDiv example_opts ((example_comment 1 2 9)\<lparr>c_text := ''<script>''\<rparr>) ''now'' = Inr d \<and>
     markup d = a @ ''<script>'' @ b"
  using comment_text_raw [of "(example_comment 1 2 9)\<lparr>c_text := ''<script>''\<rparr>" example_opts "''now''"]
  by (simp add: example_comment_def)

text \<open>
  C34: whatever arrows a reader clicks, one vote counts: the rating is the one of the others plus
  the vote, and exactly the arrows for the vote are pressed.
\<close>

theorem votes_count_once:
  assumes "vote_reachable c b" and "c_vote c \<in> {-1, 0, 1}"
  shows "vote b \<in> {-1, 0, 1} \<and> rating b = c_rating c - c_vote c + vote b \<and>
    arrows b = pressed_arrows (vote b)"
  using vote_reachable_ok [OF assms] by (auto simp: ballot_ok_def)

theorem votes_count_once_witness:
  "rating (handleVote True ''dv'' (fresh_ballot ((example_comment 1 7 9)\<lparr>c_vote := 1\<rparr>))) = 5"
proof -
  let ?c = "(example_comment 1 7 9)\<lparr>c_vote := 1\<rparr>"
  have "''dv'' \<in> arrows (fresh_ballot ?c)" by (simp add: fresh_ballot_def Let_def)
  from votes_count_once [OF vote_reachable.arrow [OF vote_reachable.fresh this]]
  show ?thesis by (simp add: handleVote_def fresh_ballot_def Let_def example_comment_def)
qed

text \<open>
  After any clicks each node still has exactly one of the links that open and close its
  comments, and as many popups as close links, and so for the reply forms.
\<close>

theorem boxes_match_links:
  assumes "page_steps p q" and "\<forall>i. popup_ok i p \<and> reply_ok i p"
  shows "link_visible ''ao'' i q \<noteq> link_visible ''ah'' i q \<and>
    count_list (popups q) i = (if link_visible ''ah'' i q then 1 else 0) \<and>
    link_visible ''rl'' i q \<noteq> link_visible ''cr'' i q \<and>
    count_list (reply_forms q) i = (if link_visible ''cr'' i q then 1 else 0)"
  using page_steps_ok [OF assms] by (simp add: popup_ok_def reply_ok_def box_ok_def)

definition closed_page :: page where
  "closed_page = \<lparr>visible = {x. \<exists>i. x = ''ao'' @ i \<or> x = ''rl'' @ i}, popups = [], reply_forms = [], proposals = []\<rparr>"

theorem boxes_match_links_witness:
  "count_list (popups (toggleCommentMarkupBox ''n1'' (show_comments ''n1'' closed_page))) ''n1'' = 1"
proof -
  let ?q = "toggleCommentMarkupBox ''n1'' (show_comments ''n1'' closed_page)"
  have ok: "\<forall>i. popup_ok i closed_page \<and> reply_ok i closed_page"
    by (auto simp: popup_ok_def reply_ok_def box_ok_def link_visible_def closed_page_def)
  have "page_steps closed_page ?q"
    by (intro page_steps.more [OF page_steps.more [OF page_steps.none page_step.popup_opens] page_step.markup_box])
      (simp add: link_visible_def closed_page_def)
  from boxes_match_links [OF this ok, of "''n1''"] have "count_list (popups ?q) ''n1'' =
      (if link_visible ''ah'' ''n1'' ?q then 1 else 0)" by blast
  moreover have "link_visible ''ah'' ''n1'' ?q" by (simp add: page_ops)
  ultimately show ?thesis by simp
qed

text \<open>
  The form is disabled exactly while its request is under way, the request is what the form
  shows and never an empty comment, so after a failure the text is still there.
\<close>

theorem form_keeps_text:
  assumes "form_reachable s"
  shows "(f_disabled s \<longleftrightarrow> pending s \<noteq> None) \<and>
    (pending s = Some (n, p, t, pr) \<longrightarrow> t \<noteq> '''' \<and> f_text (comment_failed s) = t \<and> \<not> f_disabled (comment_failed s))"
  using form_reachable_inv [OF assms] by (auto simp: form_inv_def comment_failed_def split: option.splits)

definition typed_form :: form_state where
  "typed_form = \<lparr>f_node = ''n1'', f_parent = '''', f_text = ''Nice'', f_proposal = '''', f_disabled = False,
     pending = None, messages_shown = [], no_comments = True, comment_list = []\<rparr>"

theorem form_keeps_text_witness: "f_text (comment_failed (addComment typed_form)) = ''Nice''"
proof -
  have "form_reachable (addComment typed_form)"
    by (rule form_reachable.step [OF form_reachable.empty form_step.submitted])
      (simp_all add: typed_form_def)
  from form_keeps_text [OF this, of "''n1''" "''''" "''Nice''" "''''"] show ?thesis
    by (simp add: addComment_def typed_form_def)
qed

text \<open>
  The text area grows to enough rows for every line of its text, and to no more than one row
  per line and one per full row of characters, besides the spare one.
\<close>

theorem resize_fits:
  assumes "0 < columns"
  shows "\<exists>n. resize_height h columns v = h * (int n + 1) \<and> length v \<le> columns * n + length (split1 (CHR 0x0A) v) \<and>
    length (split1 (CHR 0x0A) v) \<le> n \<and>
    n \<le> length (split1 (CHR 0x0A) v) + sum_list (map length (split1 (CHR 0x0A) v)) div columns"
proof (intro exI conjI)
  let ?ls = "split1 (CHR 0x0A) v"
  let ?n = "sum_list (map (\<lambda>l. line_rows columns (length l)) ?ls)"
  show "resize_height h columns v = h * (int ?n + 1)" by (simp add: resize_height_def)
  have len: "length v \<le> sum_list (map length ls) + length ls" if "v = join1 [CHR 0x0A] ls" for ls
    using that by (induction "[CHR 0x0A]" ls arbitrary: v rule: join1.induct) auto
  have "sum_list (map length ls) \<le> columns * sum_list (map (\<lambda>l. line_rows columns (length l)) ls)" for ls :: "string list"
    using line_rows_enough [OF assms] by (induction ls) (auto simp: distrib_left intro: add_mono)
  with len [OF join_split [symmetric]] show "length v \<le> columns * ?n + length ?ls"
    by (meson add_le_mono1 order_trans)
  have "length ls \<le> sum_list (map (\<lambda>l. line_rows columns (length l)) ls)" for ls :: "string list"
  proof (induction ls)
    case (Cons l ls)
    then show ?case using line_rows_bound [OF assms, of "length l"] by simp
  qed simp
  then show "length ?ls \<le> ?n" .
  have "sum_list (map (\<lambda>l. line_rows columns (length l)) ls) \<le> length ls + sum_list (map length ls) div columns"
    for ls :: "string list"
  proof (induction ls)
    case (Cons l ls)
    have "length l div columns + sum_list (map length ls) div columns \<le> (length l + sum_list (map length ls)) div columns"
      unfolding div_add1_eq [of "length l" "sum_list (map length ls)" columns] by simp
    then show ?case using line_rows_bound [OF assms, of "length l"] Cons by simp
  qed simp
  then show "?n \<le> length ?ls + sum_list (map length ?ls) div columns" .
qed

theorem resize_fits_witness: "\<exists>n. resize_height 20 80 ''ok'' = 20 * (int n + 1) \<and> length ''ok'' \<le> 80 * n + 1"
  using resize_fits [of 80 20 "''ok''"] by auto

end
