(* ===== verification/U_Collections.thy ===== *)
theory U_Collections
  imports JS_Prelude "HOL-Library.Word"
begin

text \<open>
  The collection functions of \<open>underscore-1.3.1.js\<close>. A collection is nothing (\<open>null\<close>), an array
  with the native methods, any other object with a numeric \<open>length\<close>, or a plain object; arrays
  may have holes. Iterators read and change a state of type \<open>'s\<close>, so the order and number of
  their calls is visible; they do not change the collection itself.
\<close>

section \<open>Collections\<close>

datatype 'a coll =
    Nothing
  | Native "'a option list"
  | Arraylike "'a option list"
  | Props "(string \<times> bool \<times> 'a) list"

datatype index = Idx nat | Key string

text \<open>The indices and values of an array without its holes; \<open>Props\<close> marks its own properties.\<close>

definition entries :: "'a option list \<Rightarrow> (index \<times> 'a) list" where
  "entries xs = List.map_filter (\<lambda>(i, v). map_option (Pair (Idx i)) v) (enumerate 0 xs)"

definition own_entries :: "(string \<times> bool \<times> 'a) list \<Rightarrow> (index \<times> 'a) list" where
  "own_entries ps = map (\<lambda>(k, _, v). (Key k, v)) (filter (\<lambda>(_, own, _). own) ps)"

fun visited :: "'a coll \<Rightarrow> (index \<times> 'a) list" where
  "visited Nothing = []"
| "visited (Native xs) = entries xs"
| "visited (Arraylike xs) = entries xs"
| "visited (Props ps) = own_entries ps"

section \<open>each\<close>

text \<open>The native loop calls the iterator on every entry; the others stop at the breaker.\<close>

fun loop_all :: "('a \<Rightarrow> index \<Rightarrow> 's \<Rightarrow> bool \<times> 's) \<Rightarrow> (index \<times> 'a) list \<Rightarrow> 's \<Rightarrow> 's" where
  "loop_all it [] s = s"
| "loop_all it ((i, v) # es) s = loop_all it es (snd (it v i s))"

fun loop_break :: "('a \<Rightarrow> index \<Rightarrow> 's \<Rightarrow> bool \<times> 's) \<Rightarrow> (index \<times> 'a) list \<Rightarrow> 's \<Rightarrow> 's" where
  "loop_break it [] s = s"
| "loop_break it ((i, v) # es) s =
     (let r = it v i s in if fst r then snd r else loop_break it es (snd r))"

fun each :: "('a \<Rightarrow> index \<Rightarrow> 's \<Rightarrow> bool \<times> 's) \<Rightarrow> 'a coll \<Rightarrow> 's \<Rightarrow> 's" where
  "each it Nothing s = s"
| "each it (Native xs) s = loop_all it (entries xs) s"
| "each it (Arraylike xs) s = loop_break it (entries xs) s"
| "each it (Props ps) s = loop_break it (own_entries ps) s"

lemma loop_no_break: "(\<And>v i s. \<not> fst (it v i s)) \<Longrightarrow> loop_break it es s = loop_all it es s"
  by (induction es arbitrary: s) (auto simp: Let_def)

lemma each_no_break: "(\<And>v i s. \<not> fst (it v i s)) \<Longrightarrow> each it c s = loop_all it (visited c) s"
  by (cases c) (auto simp: loop_no_break)

text \<open>A state that is a pair of an accumulator and the state of the caller's iterator.\<close>

definition go :: "'s \<Rightarrow> bool \<times> 's" where
  "go s = (False, s)"

lemma loop_all_foldl: "loop_all (\<lambda>v i s. go (f v i s)) es s = foldl (\<lambda>s (i, v). f v i s) s es"
  by (induction es arbitrary: s) (auto simp: go_def)

lemma each_foldl: "each (\<lambda>v i s. go (f v i s)) c s = foldl (\<lambda>s (i, v). f v i s) s (visited c)"
  by (subst each_no_break) (simp add: go_def, simp add: loop_all_foldl)

section \<open>map, reduce, filter\<close>

text \<open>
  \<open>_.map\<close>: the native method keeps the holes where they are, the loop fills the results from
  the front and then sets the length of an array.
\<close>

fun native_map :: "('a \<Rightarrow> index \<Rightarrow> 's \<Rightarrow> 'b \<times> 's) \<Rightarrow> nat \<Rightarrow> 'a option list \<Rightarrow> 's \<Rightarrow> 'b option list \<times> 's" where
  "native_map f i [] s = ([], s)"
| "native_map f i (None # xs) s = (let (ys, s') = native_map f (Suc i) xs s in (None # ys, s'))"
| "native_map f i (Some v # xs) s =
     (let (y, s1) = f v (Idx i) s; (ys, s2) = native_map f (Suc i) xs s1 in (Some y # ys, s2))"

definition set_length :: "nat \<Rightarrow> 'b option list \<Rightarrow> 'b option list" where
  "set_length n ys = take n ys @ replicate (n - length ys) None"

definition push_result :: "('a \<Rightarrow> index \<Rightarrow> 's \<Rightarrow> 'b \<times> 's) \<Rightarrow> 'a \<Rightarrow> index \<Rightarrow> 'b option list \<times> 's \<Rightarrow> 'b option list \<times> 's" where
  "push_result f v i rs = (let (y, s) = f v i (snd rs) in (fst rs @ [Some y], s))"

definition u_map :: "('a \<Rightarrow> index \<Rightarrow> 's \<Rightarrow> 'b \<times> 's) \<Rightarrow> 'a coll \<Rightarrow> 's \<Rightarrow> 'b option list \<times> 's" where
  "u_map f c s =
     (case c of
        Nothing \<Rightarrow> ([], s)
      | Native xs \<Rightarrow> native_map f 0 xs s
      | Arraylike xs \<Rightarrow>
          (let (ys, s') = each (\<lambda>v i rs. go (push_result f v i rs)) c ([], s)
           in (set_length (length xs) ys, s'))
      | Props ps \<Rightarrow> each (\<lambda>v i rs. go (push_result f v i rs)) c ([], s))"

text \<open>
  \<open>_.reduce\<close> with an initial value or without; the first value visited then is the initial
  one. Native and loop agree, except that the native method is not asked about \<open>null\<close>.
\<close>

definition reduce_step :: "('m \<Rightarrow> 'm \<Rightarrow> index \<Rightarrow> 'm) \<Rightarrow> 'm \<Rightarrow> index \<Rightarrow> 'm option \<Rightarrow> 'm option" where
  "reduce_step f v i memo = (case memo of None \<Rightarrow> Some v | Some m \<Rightarrow> Some (f m v i))"

definition reduce :: "('m \<Rightarrow> 'm \<Rightarrow> index \<Rightarrow> 'm) \<Rightarrow> 'm coll \<Rightarrow> 'm option \<Rightarrow> 'm result" where
  "reduce f c memo =
     (case each (\<lambda>v i m. go (reduce_step f v i m)) c memo of None \<Rightarrow> Inl TypeError | Some m \<Rightarrow> Inr m)"

text \<open>With an initial value the memo may have a type of its own.\<close>

definition reduce_from :: "('m \<Rightarrow> 'a \<Rightarrow> index \<Rightarrow> 'm) \<Rightarrow> 'a coll \<Rightarrow> 'm \<Rightarrow> 'm" where
  "reduce_from f c memo = each (\<lambda>v i m. go (f m v i)) c memo"

text \<open>\<open>_.toArray\<close> and \<open>_.size\<close>: the values; holes of arrays and of the arguments object are kept.\<close>

definition toArray :: "'a coll \<Rightarrow> 'a option list" where
  "toArray c =
     (case c of
        Nothing \<Rightarrow> []
      | Native xs \<Rightarrow> xs
      | Arraylike xs \<Rightarrow> fst (u_map (\<lambda>v i s. (v, s)) c ())
      | Props ps \<Rightarrow> fst (u_map (\<lambda>v i s. (v, s)) c ()))"

definition u_size :: "'a coll \<Rightarrow> nat" where
  "u_size c = length (toArray c)"

text \<open>\<open>_.reduceRight\<close>: natively from the last entry, else by reversing the values.\<close>

definition reduceRight :: "('m \<Rightarrow> 'm \<Rightarrow> index \<Rightarrow> 'm) \<Rightarrow> 'm coll \<Rightarrow> 'm option \<Rightarrow> 'm result" where
  "reduceRight f c memo =
     (case c of
        Native xs \<Rightarrow>
          (case foldl (\<lambda>m (i, v). reduce_step f v i m) memo (rev (entries xs)) of
             None \<Rightarrow> Inl TypeError | Some m \<Rightarrow> Inr m)
      | _ \<Rightarrow> reduce f (Native (rev (toArray c))) memo)"

definition u_filter :: "('a \<Rightarrow> index \<Rightarrow> bool) \<Rightarrow> 'a coll \<Rightarrow> 'a list" where
  "u_filter p c = each (\<lambda>v i rs. go (if p v i then rs @ [v] else rs)) c []"

definition reject :: "('a \<Rightarrow> index \<Rightarrow> bool) \<Rightarrow> 'a coll \<Rightarrow> 'a list" where
  "reject p c = each (\<lambda>v i rs. go (if \<not> p v i then rs @ [v] else rs)) c []"

section \<open>every, some, find, include\<close>

text \<open>The native methods stop like the loops do; the state shows which calls were made.\<close>

definition every :: "('a \<Rightarrow> index \<Rightarrow> 's \<Rightarrow> bool \<times> 's) \<Rightarrow> 'a coll \<Rightarrow> 's \<Rightarrow> bool \<times> 's" where
  "every p c s = loop_break (\<lambda>v i (r, s). let (b, s') = p v i s in (\<not> b, (b, s'))) (visited c) (True, s)"

definition some :: "('a \<Rightarrow> index \<Rightarrow> 's \<Rightarrow> bool \<times> 's) \<Rightarrow> 'a coll \<Rightarrow> 's \<Rightarrow> bool \<times> 's" where
  "some p c s = loop_break (\<lambda>v i (r, s). let (b, s') = p v i s in (b, (b, s'))) (visited c) (False, s)"

definition find :: "('a \<Rightarrow> index \<Rightarrow> bool) \<Rightarrow> 'a coll \<Rightarrow> 'a option" where
  "find p c = snd (some (\<lambda>v i r. if p v i then (True, Some v) else (False, r)) c None)"

definition u_include :: "'a coll \<Rightarrow> 'a \<Rightarrow> bool" where
  "u_include c target = fst (some (\<lambda>v i s. (v = target, s)) c ())"

definition pluck :: "('a \<Rightarrow> 'b) \<Rightarrow> 'a coll \<Rightarrow> 'b option list" where
  "pluck key c = fst (u_map (\<lambda>v i s. (key v, s)) c ())"

definition invoke :: "('a \<Rightarrow> 's \<Rightarrow> 'b \<times> 's) \<Rightarrow> 'a coll \<Rightarrow> 's \<Rightarrow> 'b option list \<times> 's" where
  "invoke method c s = u_map (\<lambda>v i s. method v s) c s"

lemma entries_dense: "entries (map Some xs) = map (\<lambda>(i, v). (Idx i, v)) (enumerate 0 xs)"
proof -
  have "List.map_filter (\<lambda>(i, v). map_option (Pair (Idx i)) v) (enumerate n (map Some xs)) =
      map (\<lambda>(i, v). (Idx i, v)) (enumerate n xs)" for n
    by (induction xs arbitrary: n) (auto simp: map_filter_simps)
  then show ?thesis by (simp add: entries_def)
qed

lemma snd_entries_dense: "map snd (entries (map Some xs)) = xs"
proof -
  have "map (snd \<circ> (\<lambda>(i, v). (Idx i, v))) (enumerate n xs) = xs" for n
    by (induction xs arbitrary: n) auto
  then show ?thesis by (simp add: entries_dense)
qed

lemma some_spec: "fst (some (\<lambda>v i s. (p v i, s)) c s) \<longleftrightarrow> (\<exists>(i, v) \<in> set (visited c). p v i)"
proof -
  have "fst (loop_break (\<lambda>v i (r, s). let (b, s') = (p v i, s) in (b, (b, s'))) es (False, s)) \<longleftrightarrow>
      (\<exists>(i, v) \<in> set es. p v i)" for es
    by (induction es arbitrary: s) (auto simp: Let_def split: if_splits intro: rev_bexI)
  then show ?thesis by (simp add: some_def)
qed

lemma every_spec: "fst (every (\<lambda>v i s. (p v i, s)) c s) \<longleftrightarrow> (\<forall>(i, v) \<in> set (visited c). p v i)"
proof -
  have "fst (loop_break (\<lambda>v i (r, s). let (b, s') = (p v i, s) in (\<not> b, (b, s'))) es (True, s)) \<longleftrightarrow>
      (\<forall>(i, v) \<in> set es. p v i)" for es
    by (induction es arbitrary: s) (auto simp: Let_def split: if_splits)
  then show ?thesis by (simp add: every_def)
qed

lemma include_spec: "u_include c t \<longleftrightarrow> t \<in> snd ` set (visited c)"
  by (force simp: u_include_def some_spec)

lemma find_spec: "find p c = map_option snd (List.find (\<lambda>(i, v). p v i) (visited c))"
proof -
  have "snd (loop_break (\<lambda>v i (r, s). let (b, s') = (if p v i then (True, Some v) else (False, s)) in (b, (b, s')))
      es (False, None)) = map_option snd (List.find (\<lambda>(i, v). p v i) es)" for es
    by (induction es) (auto simp: Let_def)
  then show ?thesis by (simp add: find_def some_def)
qed

lemma filter_foldl: "foldl (\<lambda>rs (i, v). if p v i then rs @ [v] else rs) acc es =
    acc @ map snd (filter (\<lambda>(i, v). p v i) es)"
  by (induction es arbitrary: acc) auto

lemma filter_spec: "u_filter p c = map snd (filter (\<lambda>(i, v). p v i) (visited c))"
  unfolding u_filter_def each_foldl by (simp add: filter_foldl)

lemma reject_spec: "reject p c = map snd (filter (\<lambda>(i, v). \<not> p v i) (visited c))"
  unfolding reject_def each_foldl by (simp add: filter_foldl)

text \<open>What \<open>map\<close> does on each kind of collection, for an iterator without state.\<close>

lemma native_map_pure: "native_map (\<lambda>v i s. (f v i, s)) n xs s =
    (map (\<lambda>(i, v). map_option (\<lambda>v. f v (Idx i)) v) (enumerate n xs), s)"
proof (induction xs arbitrary: n)
  case (Cons x xs)
  then show ?case by (cases x) auto
qed simp

lemma push_foldl: "foldl (\<lambda>rs (i, v). push_result (\<lambda>v i s. (f v i, s)) v i rs) (acc, s) es =
    (acc @ map (\<lambda>(i, v). Some (f v i)) es, s)"
  by (induction es arbitrary: acc) (auto simp: push_result_def)

lemma u_map_pure:
  "u_map (\<lambda>v i s. (f v i, s)) c s =
     (case c of
        Nothing \<Rightarrow> []
      | Native xs \<Rightarrow> map (\<lambda>(i, v). map_option (\<lambda>v. f v (Idx i)) v) (enumerate 0 xs)
      | Arraylike xs \<Rightarrow> set_length (length xs) (map (\<lambda>(i, v). Some (f v i)) (entries xs))
      | Props ps \<Rightarrow> map (\<lambda>(i, v). Some (f v i)) (own_entries ps), s)"
  by (cases c) (simp_all add: u_map_def native_map_pure each_foldl push_foldl)

section \<open>Numbers with the infinities\<close>

datatype ext = MinusInf | Fin int | PlusInf

instantiation ext :: linorder
begin

fun less_eq_ext :: "ext \<Rightarrow> ext \<Rightarrow> bool" where
  "MinusInf \<le> y \<longleftrightarrow> True"
| "Fin a \<le> Fin b \<longleftrightarrow> a \<le> b"
| "Fin a \<le> MinusInf \<longleftrightarrow> False"
| "Fin a \<le> PlusInf \<longleftrightarrow> True"
| "PlusInf \<le> y \<longleftrightarrow> y = PlusInf"

definition less_ext :: "ext \<Rightarrow> ext \<Rightarrow> bool" where
  "x < y \<longleftrightarrow> x \<le> y \<and> \<not> y \<le> (x::ext)"

instance
proof
  fix x y z :: ext
  show "x < y \<longleftrightarrow> x \<le> y \<and> \<not> y \<le> x" by (rule less_ext_def)
  show "x \<le> x" by (cases x) auto
  show "x \<le> y \<Longrightarrow> y \<le> z \<Longrightarrow> x \<le> z" by (cases x; cases y; cases z) auto
  show "x \<le> y \<Longrightarrow> y \<le> x \<Longrightarrow> x = y" by (cases x; cases y) auto
  show "x \<le> y \<or> y \<le> x" by (cases x; cases y) auto
qed

end

lemma PlusInf_top: "x \<le> PlusInf" "MinusInf \<le> x"
  by (cases x; simp)+

section \<open>max and min\<close>

text \<open>
  \<open>_.max\<close> and \<open>_.min\<close> with an iterator: the best so far, \<open>undefined\<close> at first; \<open>max\<close> moves on
  with \<open>>=\<close>, \<open>min\<close> with \<open><\<close>.
\<close>

definition max_by :: "('a \<Rightarrow> ext) \<Rightarrow> 'a coll \<Rightarrow> 'a option" where
  "max_by f c =
     fst (each (\<lambda>v i r. go (if snd r \<le> f v then (Some v, f v) else r)) c (None, MinusInf))"

definition min_by :: "('a \<Rightarrow> ext) \<Rightarrow> 'a coll \<Rightarrow> 'a option" where
  "min_by f c =
     fst (each (\<lambda>v i r. go (if f v < snd r then (Some v, f v) else r)) c (None, PlusInf))"

text \<open>Without an iterator on an array: \<open>Math.max\<close> and \<open>Math.min\<close> of the elements.\<close>

definition max_array :: "ext list \<Rightarrow> ext" where
  "max_array xs = foldl max MinusInf xs"

definition min_array :: "ext list \<Rightarrow> ext" where
  "min_array xs = foldl min PlusInf xs"

lemma max_fold:
  assumes "es \<noteq> []"
  shows "\<exists>us i v ws. es = us @ (i, v) # ws \<and>
    foldl (\<lambda>r (i, v). if snd r \<le> f v then (Some v, f v) else r) (None, MinusInf) es = (Some v, f v) \<and>
    (\<forall>(j, u) \<in> set us. f u \<le> f v) \<and> (\<forall>(j, w) \<in> set ws. f w < f v)"
  using assms
proof (induction es rule: rev_induct)
  case (snoc e es)
  obtain k x where e: "e = (k, x)" by (cases e)
  show ?case
  proof (cases "es = []")
    case True
    then show ?thesis
      by (intro exI [of _ "[]"], intro exI [of _ k], intro exI [of _ x], intro exI [of _ "[]"], simp add: e PlusInf_top)
  next
    case False
    then obtain us i v ws where IH: "es = us @ (i, v) # ws"
      "foldl (\<lambda>r (i, v). if snd r \<le> f v then (Some v, f v) else r) (None, MinusInf) es = (Some v, f v)"
      "\<forall>(j, u) \<in> set us. f u \<le> f v" "\<forall>(j, w) \<in> set ws. f w < f v"
      using snoc.IH by blast
    show ?thesis
    proof (cases "f v \<le> f x")
      case True
      then have "\<forall>(j, u) \<in> set es. f u \<le> f x" using IH(1,3,4) by fastforce
      with True IH(2) show ?thesis
        by (intro exI [of _ es], intro exI [of _ k], intro exI [of _ x], intro exI [of _ "[]"], simp add: e)
    next
      case False
      have "es @ [e] = us @ (i, v) # (ws @ [e])" using IH(1) by simp
      moreover have "foldl (\<lambda>r (i, v). if snd r \<le> f v then (Some v, f v) else r) (None, MinusInf) (es @ [e]) = (Some v, f v)"
        using IH(2) False by (simp add: e)
      moreover have "\<forall>(j, w) \<in> set (ws @ [e]). f w < f v" using IH(4) False by (simp add: e not_le)
      ultimately show ?thesis using IH(3) by blast
    qed
  qed
qed simp

text \<open>\<open>max\<close> answers the last of the largest values of a collection that is not empty.\<close>

lemma max_by_spec:
  assumes "visited c \<noteq> []"
  shows "\<exists>us i v ws. visited c = us @ (i, v) # ws \<and> max_by f c = Some v \<and>
    (\<forall>(j, u) \<in> set us. f u \<le> f v) \<and> (\<forall>(j, w) \<in> set ws. f w < f v)"
proof -
  obtain us i v ws where m: "visited c = us @ (i, v) # ws"
    "foldl (\<lambda>r (i, v). if snd r \<le> f v then (Some v, f v) else r) (None, MinusInf) (visited c) = (Some v, f v)"
    "\<forall>(j, u) \<in> set us. f u \<le> f v" "\<forall>(j, w) \<in> set ws. f w < f v"
    using max_fold [OF assms, of f] by blast
  have "max_by f c = Some v" unfolding max_by_def each_foldl m(2) by simp
  with m show ?thesis by blast
qed

lemma min_fold:
  "(\<forall>(i, v) \<in> set es. f v = PlusInf) \<and>
      foldl (\<lambda>r (i, v). if f v < snd r then (Some v, f v) else r) (None, PlusInf) es = (None, PlusInf) \<or>
   (\<exists>us i v ws. es = us @ (i, v) # ws \<and>
      foldl (\<lambda>r (i, v). if f v < snd r then (Some v, f v) else r) (None, PlusInf) es = (Some v, f v) \<and>
      f v < PlusInf \<and> (\<forall>(j, u) \<in> set us. f v < f u) \<and> (\<forall>(j, w) \<in> set ws. f v \<le> f w))"
proof (induction es rule: rev_induct)
  case (snoc e es)
  obtain k x where e: "e = (k, x)" by (cases e)
  have inf: "f x < PlusInf \<longleftrightarrow> f x \<noteq> PlusInf" using PlusInf_top(1) [of "f x"] by auto
  from snoc show ?case
  proof (elim disjE exE conjE)
    assume a: "\<forall>(i, v) \<in> set es. f v = PlusInf"
      "foldl (\<lambda>r (i, v). if f v < snd r then (Some v, f v) else r) (None, PlusInf) es = (None, PlusInf)"
    show ?thesis
    proof (cases "f x = PlusInf")
      case True
      with a show ?thesis by (intro disjI1) (simp add: e)
    next
      case False
      with a inf show ?thesis
        by (intro disjI2, intro exI [of _ es], intro exI [of _ k], intro exI [of _ x], intro exI [of _ "[]"], auto simp: e)
    qed
  next
    fix us i v ws
    assume IH: "es = us @ (i, v) # ws"
      "foldl (\<lambda>r (i, v). if f v < snd r then (Some v, f v) else r) (None, PlusInf) es = (Some v, f v)"
      "f v < PlusInf" "\<forall>(j, u) \<in> set us. f v < f u" "\<forall>(j, w) \<in> set ws. f v \<le> f w"
    show ?thesis
    proof (cases "f x < f v")
      case True
      then have "\<forall>(j, u) \<in> set es. f x < f u" using IH(1,4,5) by fastforce
      with True IH(2,3) show ?thesis
        by (intro disjI2, intro exI [of _ es], intro exI [of _ k], intro exI [of _ x], intro exI [of _ "[]"], auto simp: e)
    next
      case False
      have "es @ [e] = us @ (i, v) # (ws @ [e])" using IH(1) by simp
      moreover have "foldl (\<lambda>r (i, v). if f v < snd r then (Some v, f v) else r) (None, PlusInf) (es @ [e]) = (Some v, f v)"
        using IH(2) False by (simp add: e)
      moreover have "\<forall>(j, w) \<in> set (ws @ [e]). f v \<le> f w" using IH(5) False by (simp add: e not_less)
      ultimately show ?thesis using IH(3,4) by blast
    qed
  qed
qed simp

lemma min_by_spec:
  "(\<forall>(i, v) \<in> set (visited c). f v = PlusInf) \<and> min_by f c = None \<or>
   (\<exists>us i v ws. visited c = us @ (i, v) # ws \<and> min_by f c = Some v \<and>
      (\<forall>(j, u) \<in> set us. f v < f u) \<and> (\<forall>(j, w) \<in> set ws. f v \<le> f w))"
proof -
  let ?F = "foldl (\<lambda>r (i, v). if f v < snd r then (Some v, f v) else r) (None, PlusInf) (visited c)"
  have m: "min_by f c = fst ?F" unfolding min_by_def each_foldl ..
  from min_fold [of "visited c" f] show ?thesis
  proof (elim disjE exE conjE)
    fix us i v ws
    assume "visited c = us @ (i, v) # ws" "?F = (Some v, f v)" "\<forall>(j, u) \<in> set us. f v < f u" "\<forall>(j, w) \<in> set ws. f v \<le> f w"
    moreover have "min_by f c = Some v" using m calculation(2) by simp
    ultimately show ?thesis by blast
  qed (simp add: m)
qed

end
