(* ===== verification/U_Sorting.thy ===== *)
theory U_Sorting
  imports U_Collections
begin

text \<open>
  The functions of \<open>underscore-1.3.1.js\<close> that arrange a collection: \<open>shuffle\<close>, \<open>sortBy\<close>,
  \<open>groupBy\<close> and the binary search \<open>sortedIndex\<close> with the 32-bit shift it computes its middle with.
\<close>

section \<open>shuffle\<close>

text \<open>\<open>rand i\<close> is the random position chosen at index \<open>i\<close>, at most \<open>i\<close>.\<close>

definition shuffle_step :: "(nat \<Rightarrow> nat) \<Rightarrow> 'a \<Rightarrow> nat \<Rightarrow> 'a list \<Rightarrow> 'a list" where
  "shuffle_step rand v i shuffled =
     (if i = 0 then [v]
      else if rand i = length shuffled then shuffled @ [v]
      else (shuffled @ [shuffled ! rand i])[rand i := v])"

definition shuffle :: "(nat \<Rightarrow> nat) \<Rightarrow> 'a list \<Rightarrow> 'a list" where
  "shuffle rand xs = foldl (\<lambda>sh (i, v). shuffle_step rand v i sh) [] (enumerate 0 xs)"

lemma mset_swap_in: "r < length sh \<Longrightarrow> mset ((sh @ [sh ! r])[r := v]) = add_mset v (mset sh)"
proof -
  assume r: "r < length sh"
  have "mset ((sh @ [sh ! r])[r := v]) = add_mset (sh ! r) (mset (sh[r := v]))"
    using r by (simp add: list_update_append)
  also have "\<dots> = add_mset v (mset sh)"
    using r by (simp add: mset_update insert_DiffM)
  finally show ?thesis .
qed

lemma shuffle_steps:
  assumes "\<And>i. rand i \<le> i"
  shows "length sh = n \<Longrightarrow> mset (foldl (\<lambda>sh (i, v). shuffle_step rand v i sh) sh (enumerate n xs)) = mset sh + mset xs"
proof (induction xs arbitrary: n sh)
  case (Cons x xs)
  have "length (shuffle_step rand x n sh) = Suc n \<and> mset (shuffle_step rand x n sh) = add_mset x (mset sh)"
  proof (cases "n = 0 \<or> rand n = length sh")
    case True
    then show ?thesis using Cons.prems by (auto simp: shuffle_step_def)
  next
    case False
    then have "rand n < length sh" using assms [of n] Cons.prems by simp
    then show ?thesis
      using False Cons.prems mset_swap_in [of "rand n" sh x] by (simp add: shuffle_step_def)
  qed
  with Cons.IH [of "shuffle_step rand x n sh" "Suc n"] show ?case by simp
qed simp

section \<open>sortBy\<close>

definition criteria_cmp :: "('v \<times> 'k::linorder) \<Rightarrow> ('v \<times> 'k) \<Rightarrow> int" where
  "criteria_cmp l r = (if snd l < snd r then -1 else if snd l > snd r then 1 else 0)"

text \<open>\<open>sort\<close> moves holes to the end.\<close>

definition sort_array :: "('a \<Rightarrow> 'a \<Rightarrow> int) \<Rightarrow> 'a option list \<Rightarrow> 'a option list" where
  "sort_array cmp xs = map Some (sort_cmp cmp (List.map_filter (\<lambda>x. x) xs)) @ filter (\<lambda>x. x = None) xs"

definition sortBy :: "('a \<Rightarrow> index \<Rightarrow> 'k::linorder) \<Rightarrow> 'a coll \<Rightarrow> 'a option list" where
  "sortBy f c =
     map (map_option fst) (sort_array criteria_cmp (fst (u_map (\<lambda>v i s. ((v, f v i), s)) c ())))"

interpretation criteria: comparator criteria_cmp "\<lambda>_. True"
  by unfold_locales (auto simp: criteria_cmp_def split: if_splits)

lemma map_filter_Some: "List.map_filter (\<lambda>x. x) (map Some xs) = xs"
  by (induction xs) (auto simp: map_filter_simps)

lemma sortBy_dense:
  "sortBy f (Native (map Some xs)) =
     map Some (map fst (sort_cmp criteria_cmp (map (\<lambda>(i, v). (v, f v (Idx i))) (enumerate 0 xs))))"
proof -
  have "map (\<lambda>(i, v). map_option (\<lambda>v. (v, f v (Idx i))) v) (enumerate n (map Some xs)) =
      map Some (map (\<lambda>(i, v). (v, f v (Idx i))) (enumerate n xs))" for n
    by (induction xs arbitrary: n) auto
  then have m: "fst (u_map (\<lambda>v i s. ((v, f v i), s)) (Native (map Some xs)) ()) =
      map Some (map (\<lambda>(i, v). (v, f v (Idx i))) (enumerate 0 xs))"
    by (simp add: u_map_pure)
  show ?thesis
    unfolding sortBy_def m sort_array_def map_filter_Some by (simp add: filter_empty_conv)
qed

section \<open>groupBy\<close>

definition inherited_names :: "string list" where
  "inherited_names = ''__proto__'' # map fst object_prototype"

text \<open>
  \<open>result[key] || (result[key] = [])\<close>: an inherited property is there already and has no method
  \<open>push\<close>.
\<close>

definition group_step :: "('a \<Rightarrow> index \<Rightarrow> string) \<Rightarrow> 'a \<Rightarrow> index \<Rightarrow> (string, 'a list) jsobj result \<Rightarrow>
    (string, 'a list) jsobj result" where
  "group_step key v i res =
     bind_result res (\<lambda>m.
       if obj_get m (key v i) = None \<and> key v i \<in> set inherited_names then Inl TypeError
       else Inr (obj_push (key v i, v) m))"

definition groupBy :: "('a \<Rightarrow> index \<Rightarrow> string) \<Rightarrow> 'a coll \<Rightarrow> (string, 'a list) jsobj result" where
  "groupBy key c = each (\<lambda>v i res. go (group_step key v i res)) c (Inr [])"

lemma group_step_error [simp]: "group_step key v i (Inl e) = Inl e"
  by (simp add: group_step_def)

lemma group_error: "foldl (\<lambda>res (i, v). group_step key v i res) (Inl e) es = Inl e"
  by (induction es) auto

lemma group_fold:
  assumes "\<forall>k \<in> set (obj_keys m). k \<notin> set inherited_names"
  shows "foldl (\<lambda>res (i, v). group_step key v i res) (Inr m) es =
    (if \<exists>(i, v) \<in> set es. key v i \<in> set inherited_names then Inl TypeError
     else Inr (fold (push_with obj_get obj_put) (map (\<lambda>(i, v). (key v i, v)) es) m))"
  using assms
proof (induction es arbitrary: m)
  case (Cons e es)
  obtain i v where e: "e = (i, v)" by (cases e)
  show ?case
  proof (cases "key v i \<in> set inherited_names")
    case True
    then have "obj_get m (key v i) = None" using Cons.prems obj_in_keys by metis
    with True have "group_step key v i (Inr m) = Inl TypeError" by (simp add: group_step_def)
    with True show ?thesis by (simp add: e group_error)
  next
    case False
    have "\<forall>k \<in> set (obj_keys (push_with obj_get obj_put (key v i, v) m)). k \<notin> set inherited_names"
      using Cons.prems False by (auto simp: multi.keys_push)
    from Cons.IH [OF this] False show ?thesis
      by (simp add: e group_step_def obj_push_def)
  qed
qed simp

lemma groupBy_fold:
  "groupBy key c =
    (if \<exists>(i, v) \<in> set (visited c). key v i \<in> set inherited_names then Inl TypeError
     else Inr (fold (push_with obj_get obj_put) (map (\<lambda>(i, v). (key v i, v)) (visited c)) []))"
  unfolding groupBy_def each_foldl by (rule group_fold) (simp add: obj_keys_def)

section \<open>sortedIndex\<close>

text \<open>
  \<open>(low + high) >> 1\<close> on 32-bit integers, and the loop; reading outside the array gives
  \<open>undefined\<close>, which is not less than anything.
\<close>

definition middle :: "int \<Rightarrow> int \<Rightarrow> int" where
  "middle low high = sint (signed_drop_bit 1 (word_of_int (low + high) :: 32 word))"

definition read_less :: "('a \<Rightarrow> 'k::linorder) \<Rightarrow> 'a list \<Rightarrow> 'a \<Rightarrow> int \<Rightarrow> bool" where
  "read_less f xs obj i = (0 \<le> i \<and> i < int (length xs) \<and> f (xs ! nat i) < f obj)"

partial_function (option) search_loop :: "(int \<Rightarrow> bool) \<Rightarrow> int \<Rightarrow> int \<Rightarrow> int option" where
  "search_loop lt low high =
     (if low < high
      then let mid = middle low high
           in if lt mid then search_loop lt (mid + 1) high else search_loop lt low mid
      else Some low)"

definition sortedIndex :: "('a \<Rightarrow> 'k::linorder) \<Rightarrow> 'a list \<Rightarrow> 'a \<Rightarrow> int option" where
  "sortedIndex f xs obj = search_loop (read_less f xs obj) 0 (int (length xs))"

lemma middle_small:
  assumes "0 \<le> low" and "low < high" and "low + high < 2 ^ 31"
  shows "low \<le> middle low high \<and> middle low high < high"
proof -
  have "sint (word_of_int (low + high) :: 32 word) = low + high"
    using assms by (subst sint_sbintrunc') (simp add: signed_take_bit_int_eq_self)
  then have "middle low high = (low + high) div 2"
    by (simp add: middle_def sint_signed_drop_bit_eq drop_bit_eq_div)
  moreover have "low \<le> (low + high) div 2 \<and> (low + high) div 2 < high"
    using assms(2) by presburger
  ultimately show ?thesis by simp
qed

lemma search_loop_returns:
  assumes "0 \<le> low" and "low \<le> high" and "high \<le> 2 ^ 30"
  shows "\<exists>i. search_loop lt low high = Some i \<and> low \<le> i \<and> i \<le> high \<and>
    (\<forall>j. low \<le> j \<longrightarrow> j < i \<longrightarrow> (\<exists>k. j \<le> k \<and> k < i \<and> lt k)) \<and>
    (\<forall>j. i \<le> j \<longrightarrow> j < high \<longrightarrow> (\<exists>k. i \<le> k \<and> k \<le> j \<and> \<not> lt k))"
  using assms
proof (induction "nat (high - low)" arbitrary: low high rule: less_induct)
  case less
  show ?case
  proof (cases "low < high")
    case False
    with less.prems show ?thesis by (simp add: search_loop.simps)
  next
    case True
    let ?m = "middle low high"
    have m: "low \<le> ?m" "?m < high"
      using middle_small [of low high] less.prems True by auto
    show ?thesis
    proof (cases "lt ?m")
      case small: True
      have "\<exists>i. search_loop lt (?m + 1) high = Some i \<and> ?m + 1 \<le> i \<and> i \<le> high \<and>
          (\<forall>j. ?m + 1 \<le> j \<longrightarrow> j < i \<longrightarrow> (\<exists>k. j \<le> k \<and> k < i \<and> lt k)) \<and>
          (\<forall>j. i \<le> j \<longrightarrow> j < high \<longrightarrow> (\<exists>k. i \<le> k \<and> k \<le> j \<and> \<not> lt k))"
        using m less.prems by (intro less.hyps) auto
      then obtain i where i: "search_loop lt (?m + 1) high = Some i" "?m + 1 \<le> i" "i \<le> high"
        "\<forall>j. ?m + 1 \<le> j \<longrightarrow> j < i \<longrightarrow> (\<exists>k. j \<le> k \<and> k < i \<and> lt k)"
        "\<forall>j. i \<le> j \<longrightarrow> j < high \<longrightarrow> (\<exists>k. i \<le> k \<and> k \<le> j \<and> \<not> lt k)" by blast
      have "\<forall>j. low \<le> j \<longrightarrow> j < i \<longrightarrow> (\<exists>k. j \<le> k \<and> k < i \<and> lt k)"
      proof (intro allI impI)
        fix j assume "low \<le> j" "j < i"
        show "\<exists>k. j \<le> k \<and> k < i \<and> lt k"
        proof (cases "?m + 1 \<le> j")
          case True
          with i(4) \<open>j < i\<close> show ?thesis by blast
        next
          case False
          with i(2) small show ?thesis by (intro exI [of _ ?m]) auto
        qed
      qed
      then show ?thesis using i m small True by (auto simp: search_loop.simps [of lt low high] Let_def)
    next
      case ge: False
      have "\<exists>i. search_loop lt low ?m = Some i \<and> low \<le> i \<and> i \<le> ?m \<and>
          (\<forall>j. low \<le> j \<longrightarrow> j < i \<longrightarrow> (\<exists>k. j \<le> k \<and> k < i \<and> lt k)) \<and>
          (\<forall>j. i \<le> j \<longrightarrow> j < ?m \<longrightarrow> (\<exists>k. i \<le> k \<and> k \<le> j \<and> \<not> lt k))"
        using m less.prems by (intro less.hyps) auto
      then obtain i where i: "search_loop lt low ?m = Some i" "low \<le> i" "i \<le> ?m"
        "\<forall>j. low \<le> j \<longrightarrow> j < i \<longrightarrow> (\<exists>k. j \<le> k \<and> k < i \<and> lt k)"
        "\<forall>j. i \<le> j \<longrightarrow> j < ?m \<longrightarrow> (\<exists>k. i \<le> k \<and> k \<le> j \<and> \<not> lt k)" by blast
      have "\<forall>j. i \<le> j \<longrightarrow> j < high \<longrightarrow> (\<exists>k. i \<le> k \<and> k \<le> j \<and> \<not> lt k)"
      proof (intro allI impI)
        fix j assume "i \<le> j" "j < high"
        show "\<exists>k. i \<le> k \<and> k \<le> j \<and> \<not> lt k"
        proof (cases "j < ?m")
          case True
          with i(5) \<open>i \<le> j\<close> show ?thesis by blast
        next
          case False
          with i(3) ge show ?thesis by (intro exI [of _ ?m]) auto
        qed
      qed
      then show ?thesis using i m ge True by (auto simp: search_loop.simps [of lt low high] Let_def)
    qed
  qed
qed

text \<open>On a sorted array of at most \<open>2 ^ 30\<close> elements the search ends at the place for the value.\<close>

definition place_for :: "('a \<Rightarrow> 'k::linorder) \<Rightarrow> 'a list \<Rightarrow> 'a \<Rightarrow> nat \<Rightarrow> bool" where
  "place_for f xs obj i \<longleftrightarrow> i \<le> length xs \<and>
     (\<forall>x \<in> set (take i xs). f x < f obj) \<and> (\<forall>x \<in> set (drop i xs). f obj \<le> f x)"

lemma sortedIndex_place:
  assumes "length xs \<le> 2 ^ 30" and "sorted (map f xs)"
  shows "\<exists>i. sortedIndex f xs obj = Some (int i) \<and> place_for f xs obj i"
proof -
  let ?lt = "read_less f xs obj"
  have "int (length xs) \<le> 2 ^ 30" using assms(1) by (metis of_nat_le_iff of_nat_numeral of_nat_power)
  then obtain i where i: "sortedIndex f xs obj = Some i" "0 \<le> i" "i \<le> int (length xs)"
    "\<forall>j. 0 \<le> j \<longrightarrow> j < i \<longrightarrow> (\<exists>k. j \<le> k \<and> k < i \<and> ?lt k)"
    "\<forall>j. i \<le> j \<longrightarrow> j < int (length xs) \<longrightarrow> (\<exists>k. i \<le> k \<and> k \<le> j \<and> \<not> ?lt k)"
    using search_loop_returns [of 0 "int (length xs)" ?lt] by (auto simp: sortedIndex_def)
  have "f x < f obj" if x: "x \<in> set (take (nat i) xs)" for x
  proof -
    from x obtain j where j: "j < nat i" "j < length xs" "x = xs ! j" by (auto simp: in_set_conv_nth)
    then obtain k where "int j \<le> k" "k < i" "?lt k" using i(4) [rule_format, of "int j"] by fastforce
    moreover from this have "f (xs ! j) \<le> f (xs ! nat k)"
      using sorted_nth_mono [OF assms(2), of j "nat k"] by (auto simp: read_less_def)
    ultimately show ?thesis using j by (auto simp: read_less_def)
  qed
  moreover have "f obj \<le> f x" if x: "x \<in> set (drop (nat i) xs)" for x
  proof -
    from x obtain m where m: "m < length xs - nat i" "x = xs ! (nat i + m)"
      by (auto simp: in_set_conv_nth)
    then obtain k where k: "i \<le> k" "k \<le> i + int m" "\<not> ?lt k"
      using i(2) i(5) [rule_format, of "i + int m"] by fastforce
    have b: "nat k < length xs" "nat k \<le> nat i + m" using k(1,2) i(2) m(1) by linarith+
    then have "f obj \<le> f (xs ! nat k)" using k(1,3) i(2) by (auto simp: read_less_def)
    also have "\<dots> \<le> f (xs ! (nat i + m))"
      using sorted_nth_mono [OF assms(2), of "nat k" "nat i + m"] b m(1) by auto
    finally show ?thesis using m(2) by simp
  qed
  moreover have "nat i \<le> length xs" using i(3) by simp
  ultimately show ?thesis using i(1,2) by (intro exI [of _ "nat i"]) (auto simp: place_for_def)
qed

section \<open>Properties\<close>

text \<open>
  \<open>shuffle\<close> answers a permutation of the array, whatever positions it draws.
\<close>

theorem shuffle_permutes:
  assumes "\<And>i. rand i \<le> i"
  shows "mset (shuffle rand xs) = mset xs"
  using shuffle_steps [OF assms, of "[]" 0 xs] by (simp add: shuffle_def)

theorem shuffle_permutes_witness: "mset (shuffle (\<lambda>i. i div 2) [3, 1, 2::nat]) = {#1, 2, 3#}"
proof -
  have "mset (shuffle (\<lambda>i. i div 2) [3, 1, 2::nat]) = mset [3, 1, 2]" by (rule shuffle_permutes) simp
  then show ?thesis by (simp add: add_mset_commute)
qed

text \<open>
  \<open>sortBy\<close> answers the elements of an array in the order of their criteria.
\<close>

theorem sortBy_sorted:
  "\<exists>ys. sortBy (\<lambda>v i. f v) (Native (map Some xs)) = map Some ys \<and> sorted (map f ys) \<and> mset ys = mset xs"
proof -
  let ?ps = "map (\<lambda>(i, v). (v, f v)) (enumerate 0 xs)"
  let ?s = "sort_cmp criteria_cmp ?ps"
  have fst_ps: "map fst (map (\<lambda>(i, v). (v, f v)) (enumerate n xs)) = xs" for n
    by (induction xs arbitrary: n) auto
  have p: "\<forall>q \<in> set ?s. snd q = f (fst q)" by auto
  have "sorted_wrt (\<lambda>a b. criteria_cmp a b \<le> 0) ?s"
    by (rule criteria.sorted_sort) (simp add: list_all_iff)
  then have "sorted (map snd ?s)"
    unfolding sorted_wrt_map by (rule sorted_wrt_mono_rel [rotated]) (auto simp: criteria_cmp_def split: if_splits)
  moreover have "map snd ?s = map f (map fst ?s)" using p by simp
  moreover have "mset (map fst ?s) = mset xs"
    using fst_ps [of 0] by (metis mset_map mset_sort_cmp)
  ultimately show ?thesis
    using sortBy_dense [of "\<lambda>v i. f v" xs] by (intro exI [of _ "map fst ?s"]) simp
qed

text \<open>
  \<open>groupBy\<close> answers for every key the values with that key in their order, and fails exactly
  when a value has the name of an inherited property as its key.
\<close>

theorem groupBy_groups:
  "groupBy key c =
     (if \<exists>(i, v) \<in> set (visited c). key v i \<in> set inherited_names then Inl TypeError
      else Inr (fold (push_with obj_get obj_put) (map (\<lambda>(i, v). (key v i, v)) (visited c)) [])) \<and>
   obj_get (fold (push_with obj_get obj_put) kvs []) k =
     (if values_at k kvs = [] then None else Some (values_at k kvs))"
  by (simp add: groupBy_fold multi.get_push_all js_obj)

text \<open>
  C36: on an array of at most \<open>2 ^ 30\<close> elements, sorted by its criterion, \<open>sortedIndex\<close> ends and
  answers the first position before which all elements are smaller and from which none is.
\<close>

theorem sortedIndex_correct:
  assumes "length xs \<le> 2 ^ 30" and "sorted (map f xs)"
  shows "\<exists>i. sortedIndex f xs obj = Some (int i) \<and> i \<le> length xs \<and>
    (\<forall>x \<in> set (take i xs). f x < f obj) \<and> (\<forall>x \<in> set (drop i xs). f obj \<le> f x)"
  using sortedIndex_place [OF assms] by (auto simp: place_for_def)

theorem sortedIndex_correct_witness:
  "\<exists>i. sortedIndex (\<lambda>x. x) [10, 20, 30::int] 25 = Some (int i) \<and> (\<forall>x \<in> set (drop i [10, 20, 30::int]). 25 \<le> x)"
proof -
  have "sorted (map (\<lambda>x. x) [10, 20, 30::int])" by simp
  from sortedIndex_correct [OF _ this, of 25] show ?thesis by auto
qed

end
