(* ===== verification/U_Arrays.thy ===== *)
theory U_Arrays
  imports U_Sorting "HOL-Library.Sublist"
begin

text \<open>
  The array functions of \<open>underscore-1.3.1.js\<close>. Arrays are lists; equality of the element type is
  the strict equality of the code, so \<open>NaN\<close> is not an element. Where holes matter an array is a
  list of options as in \<open>U_Collections\<close>.
\<close>

named_theorems u_arrays "what the array functions compute"

section \<open>first, initial, last, rest\<close>

text \<open>Without a count, or under \<open>map\<close> (the guard), one element is answered; else a part.\<close>

datatype 'a pick = Elem "'a option" | Part "'a list"

definition slice1 :: "'a list \<Rightarrow> int \<Rightarrow> 'a list" where
  "slice1 xs a = drop (from_end xs a) xs"

definition first :: "'a list \<Rightarrow> int option \<Rightarrow> bool \<Rightarrow> 'a pick" where
  "first xs n guard =
     (case n of
        Some n \<Rightarrow> if \<not> guard then Part (JS_Prelude.slice xs 0 n) else Elem (nth_opt xs 0)
      | None \<Rightarrow> Elem (nth_opt xs 0))"

definition initial :: "'a list \<Rightarrow> int option \<Rightarrow> bool \<Rightarrow> 'a list" where
  "initial xs n guard =
     JS_Prelude.slice xs 0 (int (length xs) - (case n of None \<Rightarrow> 1 | Some n \<Rightarrow> if guard then 1 else n))"

definition u_last :: "'a list \<Rightarrow> int option \<Rightarrow> bool \<Rightarrow> 'a pick" where
  "u_last xs n guard =
     (case n of
        Some n \<Rightarrow>
          if \<not> guard then Part (slice1 xs (max (int (length xs) - n) 0))
          else Elem (if xs = [] then None else Some (xs ! (length xs - 1)))
      | None \<Rightarrow> Elem (if xs = [] then None else Some (xs ! (length xs - 1))))"

definition rest :: "'a list \<Rightarrow> int option \<Rightarrow> bool \<Rightarrow> 'a list" where
  "rest xs index guard = slice1 xs (case index of None \<Rightarrow> 1 | Some i \<Rightarrow> if guard then 1 else i)"

lemma initial_count [u_arrays]:
  "0 \<le> n \<Longrightarrow> initial xs (Some n) False =
     (if n \<le> int (length xs) then take (length xs - nat n) xs
      else take (length xs - (nat n - length xs)) xs)"
  by (auto simp: initial_def JS_Prelude.slice_def from_end_def nat_diff_distrib nat_eq_iff intro!: arg_cong2 [of _ _ _ _ take])

lemma last_count [u_arrays]:
  "0 \<le> n \<Longrightarrow> u_last xs (Some n) False = Part (drop (length xs - nat n) xs)"
proof -
  assume "0 \<le> n"
  then have "nat (max (int (length xs) - n) 0) = length xs - nat n" by linarith
  then show ?thesis by (simp add: u_last_def slice1_def from_end_def)
qed

section \<open>compact, flatten\<close>

definition compact :: "('a \<Rightarrow> bool) \<Rightarrow> 'a coll \<Rightarrow> 'a list" where
  "compact falsy c = u_filter (\<lambda>v i. \<not> falsy v) c"

text \<open>Elements are arrays or anything else.\<close>

datatype 'a item = Leaf 'a | Arr "'a item option list"

fun flatten_onto :: "bool \<Rightarrow> 'a item option list \<Rightarrow> 'a item option list \<Rightarrow> 'a item option list" where
  "flatten_onto shallow memo [] = memo"
| "flatten_onto shallow memo (None # xs) = flatten_onto shallow memo xs"
| "flatten_onto shallow memo (Some (Arr ys) # xs) =
     flatten_onto shallow (memo @ (if shallow then ys else flatten_onto False [] ys)) xs"
| "flatten_onto shallow memo (Some (Leaf a) # xs) = flatten_onto shallow (memo @ [Some (Leaf a)]) xs"

definition flatten :: "'a item option list \<Rightarrow> bool \<Rightarrow> 'a item option list" where
  "flatten xs shallow = flatten_onto shallow [] xs"

text \<open>The elements that are not arrays, from left to right.\<close>

fun leaves :: "'a item option list \<Rightarrow> 'a list" where
  "leaves [] = []"
| "leaves (None # xs) = leaves xs"
| "leaves (Some (Arr ys) # xs) = leaves ys @ leaves xs"
| "leaves (Some (Leaf a) # xs) = a # leaves xs"

lemma flatten_onto_leaves:
  "\<not> shallow \<Longrightarrow> flatten_onto shallow memo xs = memo @ map (Some \<circ> Leaf) (leaves xs)"
  by (induction shallow memo xs rule: flatten_onto.induct) auto

lemma flatten_leaves [u_arrays]: "flatten xs False = map (Some \<circ> Leaf) (leaves xs)"
  by (simp add: flatten_def flatten_onto_leaves)

lemma leaves_Leaf [simp]: "leaves (map (Some \<circ> Leaf) xs) = xs"
  by (induction xs) auto

lemma flatten_shallow_arrays:
  "flatten_onto True memo (map (Some \<circ> Arr) xss) = memo @ concat xss"
  by (induction xss arbitrary: memo) auto

section \<open>uniq\<close>

text \<open>
  \<open>neq\<close> is the operator \<open>!=\<close>; the fold carries the values seen, the result and the position.
\<close>

definition uniq_step ::
    "('k \<Rightarrow> 'k \<Rightarrow> bool) \<Rightarrow> bool \<Rightarrow> 'a list \<Rightarrow> 'k list \<times> 'a list \<Rightarrow> nat \<Rightarrow> 'k \<Rightarrow> 'k list \<times> 'a list" where
  "uniq_step neq isSorted xs r i el =
     (let (memo, result) = r in
      if i = 0 \<or> (if isSorted then neq (last memo) el else \<not> u_include (Native (map Some memo)) el)
      then (memo @ [el], result @ [xs ! i]) else (memo, result))"

definition uniq :: "('k \<Rightarrow> 'k \<Rightarrow> bool) \<Rightarrow> 'a list \<Rightarrow> bool \<Rightarrow> ('a \<Rightarrow> 'k) \<Rightarrow> 'a list" where
  "uniq neq xs isSorted f =
     snd (foldl (\<lambda>r (i, el). uniq_step neq isSorted xs r i el) ([], []) (enumerate 0 (map f xs)))"

text \<open>The elements whose criterion has not occurred before.\<close>

fun firsts :: "('a \<Rightarrow> 'k) \<Rightarrow> 'k set \<Rightarrow> 'a list \<Rightarrow> 'a list" where
  "firsts f seen [] = []"
| "firsts f seen (x # xs) =
     (if f x \<in> seen then firsts f seen xs else x # firsts f (insert (f x) seen) xs)"

lemma include_dense: "u_include (Native (map Some xs)) x \<longleftrightarrow> x \<in> set xs"
proof -
  have "snd ` set (entries (map Some xs)) = set (map snd (entries (map Some xs)))" by simp
  also have "\<dots> = set xs" unfolding snd_entries_dense ..
  finally show ?thesis by (simp add: include_spec)
qed

lemma uniq_fold:
  "drop n xs = ys \<Longrightarrow> (n = 0 \<Longrightarrow> memo = []) \<Longrightarrow>
   snd (foldl (\<lambda>r (i, el). uniq_step neq False xs r i el) (memo, result) (enumerate n (map f ys))) =
     result @ firsts f (set memo) ys"
proof (induction ys arbitrary: n memo result)
  case (Cons y ys)
  have d: "drop (Suc n) xs = ys" using Cons.prems(1) by (metis drop_Suc list.sel(3) tl_drop)
  have x: "xs ! n = y" using Cons.prems(1) by (metis nth_via_drop)
  show ?case
  proof (cases "f y \<in> set memo")
    case True
    have "n \<noteq> 0" using True Cons.prems(2) by (metis empty_iff list.set(1))
    with True Cons.IH [OF d, of memo result] show ?thesis
      by (simp add: uniq_step_def include_dense)
  next
    case False
    with Cons.IH [OF d, of "memo @ [f y]" "result @ [y]"] x show ?thesis
      by (simp add: uniq_step_def include_dense)
  qed
qed simp

lemma uniq_firsts [u_arrays]: "uniq neq xs False f = firsts f {} xs"
  using uniq_fold [of 0 xs xs "[]" neq "[]" f] by (simp add: uniq_def)

text \<open>On a sorted array comparing with the last value seen is enough.\<close>

lemma uniq_sorted_fold:
  assumes "\<And>a b. neq a b \<longleftrightarrow> a \<noteq> (b::'k::linorder)"
  shows "drop n xs = ys \<Longrightarrow> (n = 0 \<Longrightarrow> memo = []) \<Longrightarrow> (n \<noteq> 0 \<Longrightarrow> memo \<noteq> []) \<Longrightarrow>
    sorted (memo @ map f ys) \<Longrightarrow>
    snd (foldl (\<lambda>r (i, el). uniq_step neq True xs r i el) (memo, result) (enumerate n (map f ys))) =
      result @ firsts f (set memo) ys"
proof (induction ys arbitrary: n memo result)
  case (Cons y ys)
  have d: "drop (Suc n) xs = ys" using Cons.prems(1) by (metis drop_Suc list.sel(3) tl_drop)
  have x: "xs ! n = y" using Cons.prems(1) by (metis nth_via_drop)
  have mem: "f y \<in> set memo \<longleftrightarrow> n \<noteq> 0 \<and> last memo = f y"
  proof (cases "n = 0")
    case True
    then show ?thesis using Cons.prems(2) by simp
  next
    case False
    then have ne: "memo \<noteq> []" using Cons.prems(3) by simp
    obtain bs b where m: "memo = bs @ [b]" using ne by (cases memo rule: rev_cases) auto
    then have "\<forall>a \<in> set memo. a \<le> last memo \<and> a \<le> f y"
      using Cons.prems(4) by (auto simp: sorted_append)
    with False ne show ?thesis by (metis last_in_set order_antisym)
  qed
  have s: "sorted ((if f y \<in> set memo then memo else memo @ [f y]) @ map f ys)"
    using Cons.prems(4) by (auto simp: sorted_append)
  show ?case
  proof (cases "f y \<in> set memo")
    case True
    with mem have "n \<noteq> 0" "\<not> neq (last memo) (f y)" by (simp_all add: assms)
    with True Cons.IH [OF d, of memo result] s Cons.prems(3) show ?thesis
      by (simp add: uniq_step_def)
  next
    case False
    with mem have "n = 0 \<or> neq (last memo) (f y)" by (auto simp: assms)
    with False Cons.IH [OF d, of "memo @ [f y]" "result @ [y]"] s x show ?thesis
      by (simp add: uniq_step_def)
  qed
qed simp

lemma firsts_props:
  "distinct (map f (firsts f seen xs)) \<and> f ` set (firsts f seen xs) = f ` set xs - seen \<and>
   subseq (firsts f seen xs) xs"
proof (induction xs arbitrary: seen)
  case (Cons x xs)
  show ?case
  proof (cases "f x \<in> seen")
    case True
    with Cons.IH [of seen] show ?thesis by auto
  next
    case False
    with Cons.IH [of "insert (f x) seen"] show ?thesis by (auto simp: image_iff)
  qed
qed simp

text \<open>\<open>union\<close> flattens its arguments one level; \<open>difference\<close> and \<open>without\<close> flatten the others deeply.\<close>

definition union :: "('a \<Rightarrow> 'a \<Rightarrow> bool) \<Rightarrow> 'a list list \<Rightarrow> 'a list" where
  "union neq args = uniq neq (concat args) False (\<lambda>x. x)"

definition difference :: "'a item coll \<Rightarrow> 'a item option list \<Rightarrow> 'a item list" where
  "difference array others =
     (let rest = flatten others False
      in u_filter (\<lambda>value i. \<not> (case value of Arr ys \<Rightarrow> False | Leaf a \<Rightarrow> u_include (Native rest) (Leaf a))) array)"

definition without :: "'a item coll \<Rightarrow> 'a item list \<Rightarrow> 'a item list" where
  "without array values = difference array (map Some values)"

lemma include_leaves: "u_include (Native (flatten xs False)) (Leaf a) \<longleftrightarrow> a \<in> set (leaves xs)"
proof -
  have "flatten xs False = map Some (map Leaf (leaves xs))" by (simp add: flatten_leaves)
  then show ?thesis by (simp only: include_dense) auto
qed

section \<open>indexOf, lastIndexOf\<close>

text \<open>An array that is \<open>null\<close> is \<open>None\<close>; the loops skip holes, \<open>own\<close> tells whether the method is native.\<close>

fun scan_from :: "nat \<Rightarrow> 'a option list \<Rightarrow> 'a \<Rightarrow> int" where
  "scan_from i [] item = -1"
| "scan_from i (v # xs) item = (if v = Some item then int i else scan_from (Suc i) xs item)"

definition array_indexOf :: "('a \<Rightarrow> 'k::linorder) \<Rightarrow> 'a list option \<Rightarrow> 'a \<Rightarrow> bool \<Rightarrow> int option" where
  "array_indexOf f array item isSorted =
     (case array of
        None \<Rightarrow> Some (-1)
      | Some xs \<Rightarrow>
          if isSorted
          then (case sortedIndex f xs item of
                  None \<Rightarrow> None
                | Some i \<Rightarrow> Some (if 0 \<le> i \<and> i < int (length xs) \<and> xs ! nat i = item then i else -1))
          else Some (scan_from 0 (map Some xs) item))"

fun scan_down :: "nat \<Rightarrow> 'a option list \<Rightarrow> 'a \<Rightarrow> int" where
  "scan_down 0 xs item = -1"
| "scan_down (Suc i) xs item = (if xs ! i = Some item then int i else scan_down i xs item)"

definition lastIndexOf :: "'a option list option \<Rightarrow> 'a \<Rightarrow> int" where
  "lastIndexOf array item =
     (case array of None \<Rightarrow> -1 | Some xs \<Rightarrow> scan_down (length xs) xs item)"

lemma scan_from_found:
  "i < length xs \<Longrightarrow> xs ! i = Some x \<Longrightarrow> (\<forall>j < i. xs ! j \<noteq> Some x) \<Longrightarrow> scan_from n xs x = int (n + i)"
proof (induction xs arbitrary: i n)
  case (Cons y ys)
  show ?case
  proof (cases i)
    case 0
    with Cons.prems show ?thesis by simp
  next
    case (Suc j)
    moreover from this have "y \<noteq> Some x" using Cons.prems(3) by auto
    moreover have "\<forall>k < j. ys ! k \<noteq> Some x" using Cons.prems(3) Suc by auto
    ultimately show ?thesis using Cons.prems Cons.IH [of j "Suc n"] by simp
  qed
qed simp

lemma scan_from_missing: "Some x \<notin> set xs \<Longrightarrow> scan_from n xs x = -1"
  by (induction xs arbitrary: n) auto

lemma scan_down_bounds: "scan_down n xs x < int n \<and> -1 \<le> scan_down n xs x"
  by (induction n) auto

lemma scan_down_last:
  "n \<le> length xs \<Longrightarrow>
   (case scan_down n xs x of i \<Rightarrow>
      (i = -1 \<and> (\<forall>j < n. xs ! j \<noteq> Some x)) \<or>
      (0 \<le> i \<and> xs ! nat i = Some x \<and> (\<forall>j. nat i < j \<and> j < n \<longrightarrow> xs ! j \<noteq> Some x)))"
  by (induction n) (auto simp: less_Suc_eq)

definition intersection :: "('a \<Rightarrow> 'a \<Rightarrow> bool) \<Rightarrow> 'a list \<Rightarrow> 'a list list \<Rightarrow> 'a list" where
  "intersection neq array others =
     u_filter (\<lambda>item i.
       fst (every (\<lambda>other i s. (0 \<le> scan_from 0 (map Some other) item, s)) (Native (map Some others)) ()))
     (Native (map Some (uniq neq array False (\<lambda>x. x))))"

lemma scan_from_nonneg: "0 \<le> scan_from n (map Some xs) x \<longleftrightarrow> x \<in> set xs"
  by (induction xs arbitrary: n) auto

lemma filter_dense: "u_filter (\<lambda>v i. p v) (Native (map Some xs)) = filter p xs"
proof -
  have "map snd (filter (\<lambda>(i, v). p v) (enumerate n xs)) = filter p xs" for n
    by (induction xs arbitrary: n) auto
  moreover have "map snd (filter (\<lambda>(i, v). p v) (map (\<lambda>(i, v). (Idx i, v)) es)) =
      map snd (filter (\<lambda>(i, v). p v) es)" for es :: "(nat \<times> 'a) list"
    by (induction es) auto
  ultimately show ?thesis by (simp add: filter_spec entries_dense)
qed

lemma every_dense: "fst (every (\<lambda>v i s. (p v, s)) (Native (map Some xs)) s) \<longleftrightarrow> (\<forall>x \<in> set xs. p x)"
proof -
  have "(\<forall>(i, v) \<in> set (entries (map Some xs)). p v) \<longleftrightarrow> (\<forall>v \<in> set (map snd (entries (map Some xs))). p v)"
    by auto
  then show ?thesis by (simp add: every_spec snd_entries_dense del: set_map)
qed

lemma intersection_filter:
  "intersection neq xs others = filter (\<lambda>x. \<forall>ys \<in> set others. x \<in> set ys) (firsts (\<lambda>x. x) {} xs)"
  by (simp add: intersection_def filter_dense every_dense scan_from_nonneg uniq_firsts)

section \<open>zip\<close>

text \<open>The length of an array of \<open>Math.max()\<close> of nothing is not valid.\<close>

definition zip_rows :: "'a list list \<Rightarrow> nat \<Rightarrow> 'a option list list" where
  "zip_rows args n = map (\<lambda>i. map (\<lambda>xs. nth_opt xs i) args) [0..<n]"

definition u_zip :: "'a list list \<Rightarrow> 'a option list list result" where
  "u_zip args =
     (case max_array (map (\<lambda>xs. Fin (int (length xs))) args) of
        Fin n \<Rightarrow> Inr (zip_rows args (nat n))
      | _ \<Rightarrow> Inl RangeError)"

lemma max_array_Fin: "ns \<noteq> [] \<Longrightarrow> max_array (map Fin ns) = Fin (Max (set ns))"
proof (induction ns rule: rev_induct)
  case (snoc n ns)
  show ?case
  proof (cases "ns = []")
    case True
    then show ?thesis by (simp add: max_array_def PlusInf_top max_def)
  next
    case False
    have "max (Fin a) (Fin b) = Fin (max a b)" for a b by (simp add: max_def)
    moreover have "max_array (map Fin (ns @ [n])) = max (max_array (map Fin ns)) (Fin n)"
      by (simp add: max_array_def)
    moreover have "Max (set (ns @ [n])) = max (Max (set ns)) n"
      using False by (simp add: max.commute)
    ultimately show ?thesis using snoc.IH [OF False] by simp
  qed
qed simp

section \<open>range\<close>

text \<open>
  The arguments are optional; a missing or zero step is 1. Integers stay below \<open>2 ^ 53\<close>, where
  the quotient and the sums of the code are exact.
\<close>

definition ceil_div :: "int \<Rightarrow> int \<Rightarrow> int" where
  "ceil_div a b = - ((- a) div b)"

fun fill_range :: "nat \<Rightarrow> int \<Rightarrow> int \<Rightarrow> int list" where
  "fill_range 0 start step = []"
| "fill_range (Suc n) start step = start # fill_range n (start + step) step"

fun range_args :: "int list \<Rightarrow> int \<times> int \<times> int" where
  "range_args [] = (0, 0, 1)"
| "range_args [stop] = (0, stop, 1)"
| "range_args [start, stop] = (start, stop, 1)"
| "range_args (start # stop # step # _) = (start, stop, if step = 0 then 1 else step)"

definition u_range :: "int list \<Rightarrow> int list" where
  "u_range args =
     (let (start, stop, step) = range_args args; len = max (ceil_div (stop - start) step) 0
      in fill_range (nat len) start step)"

lemma length_fill_range [simp]: "length (fill_range n a s) = n"
  by (induction n arbitrary: a) auto

lemma nth_fill_range: "i < n \<Longrightarrow> fill_range n a s ! i = a + int i * s"
proof (induction n arbitrary: i a)
  case (Suc n)
  then show ?case by (cases i) (auto simp: algebra_simps)
qed simp

lemma ceil_div_le:
  assumes "0 < b"
  shows "ceil_div a b \<le> n \<longleftrightarrow> a \<le> n * b"
proof -
  have e: "(- a) div b * b + (- a) mod b = - a" by simp
  have m: "0 \<le> (- a) mod b" "(- a) mod b < b" using assms by simp_all
  have "- n \<le> (- a) div b \<longleftrightarrow> - n * b \<le> - a"
  proof
    assume "- n \<le> (- a) div b"
    then have "- n * b \<le> (- a) div b * b" using assms by (intro mult_right_mono) auto
    with e m show "- n * b \<le> - a" by linarith
  next
    assume "- n * b \<le> - a"
    with e m have "- n * b < (- a) div b * b + b" by linarith
    then have "- n * b < ((- a) div b + 1) * b" by (simp only: distrib_right mult_1)
    then have "- n < (- a) div b + 1" by (simp only: mult_less_cancel_right_pos [OF assms])
    then show "- n \<le> (- a) div b" by simp
  qed
  then show ?thesis by (auto simp: ceil_div_def)
qed

lemma ceil_div_minus: "ceil_div (- a) (- b) = ceil_div a b"
  by (simp add: ceil_div_def div_minus_right)

lemma range_args_step: "range_args args = (a, b, s) \<Longrightarrow> s \<noteq> 0"
  by (cases args rule: range_args.cases) (auto split: if_splits)

section \<open>Properties\<close>

text \<open>
  A deep \<open>flatten\<close> answers the elements that are not arrays, from left to right, and nothing
  else; flattening again changes nothing; a shallow one concatenates the arrays.
\<close>

theorem flatten_correct:
  "flatten xs False = map (Some \<circ> Leaf) (leaves xs) \<and>
   flatten (flatten xs False) False = flatten xs False \<and>
   flatten (map (Some \<circ> Arr) xss) True = concat xss"
  by (simp add: flatten_leaves flatten_shallow_arrays [of "[]", folded flatten_def])

text \<open>
  On an array sorted by its criterion the fast way of \<open>uniq\<close>, which only compares with the last
  value, answers what the slow way answers: one element for each criterion, the first one, in
  their order.
\<close>

theorem uniq_fast_equals_slow:
  assumes "sorted (map f xs)"
  shows "uniq (\<lambda>a b. a \<noteq> b) xs True f = uniq (\<lambda>a b. a \<noteq> b) xs False f \<and>
    distinct (map f (uniq (\<lambda>a b. a \<noteq> b) xs True f)) \<and>
    f ` set (uniq (\<lambda>a b. a \<noteq> b) xs True f) = f ` set xs \<and>
    subseq (uniq (\<lambda>a b. a \<noteq> b) xs True f) xs"
proof -
  have "uniq (\<lambda>a b. a \<noteq> b) xs True f = firsts f {} xs"
    using uniq_sorted_fold [of "\<lambda>a b. a \<noteq> b" 0 xs xs "[]" f "[]"] assms by (simp add: uniq_def)
  then show ?thesis using firsts_props [of f "{}" xs] by (simp add: uniq_firsts)
qed

theorem uniq_fast_equals_slow_witness:
  "uniq (\<lambda>a b. a \<noteq> b) [1, 1, 2, 2, 3::int] True (\<lambda>x. x) = uniq (\<lambda>a b. a \<noteq> b) [1, 1, 2, 2, 3] False (\<lambda>x. x)"
proof -
  have "sorted (map (\<lambda>x. x) [1, 1, 2, 2, 3::int])" by simp
  from uniq_fast_equals_slow [OF this] show ?thesis by (rule conjunct1)
qed

text \<open>
  \<open>initial\<close> leaves out the last elements as long as there are as many as it is asked to leave
  out; asked for more it does not answer the empty array, but the elements that a position
  counted from the end selects.
\<close>

theorem initial_overshoots:
  "initial xs (Some (int k)) False =
     (if k \<le> length xs then take (length xs - k) xs else take (2 * length xs - k) xs)"
  by (simp add: initial_count diff_diff_right mult_2)

text \<open>
  \<open>intersection\<close> answers each common element once, in the order of the first array;
  \<open>difference\<close> the elements of the first array that occur nowhere inside the others, however deeply.
\<close>

theorem set_operations:
  "distinct (intersection neq xs others) \<and>
   set (intersection neq xs others) = {x \<in> set xs. \<forall>ys \<in> set others. x \<in> set ys} \<and>
   subseq (intersection neq xs others) xs \<and>
   difference (Native (map Some (map Leaf as))) bs = map Leaf (filter (\<lambda>a. a \<notin> set (leaves bs)) as)"
proof -
  have f: "distinct (firsts (\<lambda>x. x) {} xs)" "set (firsts (\<lambda>x. x) {} xs) = set xs" "subseq (firsts (\<lambda>x. x) {} xs) xs"
    using firsts_props [of "\<lambda>x. x" "{}" xs] by auto
  have "difference (Native (map Some (map Leaf as))) bs = filter (\<lambda>v. case v of Arr ys \<Rightarrow> True | Leaf a \<Rightarrow> a \<notin> set (leaves bs)) (map Leaf as)"
    unfolding difference_def Let_def filter_dense include_leaves by (rule filter_cong) (auto split: item.splits)
  moreover have "\<dots> = map Leaf (filter (\<lambda>a. a \<notin> set (leaves bs)) as)" by (simp add: filter_map o_def)
  ultimately show ?thesis
    using f by (auto simp: intersection_filter intro: subseq_order.trans subseq_filter_left)
qed

text \<open>
  On a sorted array of at most \<open>2 ^ 30\<close> elements the binary search of \<open>indexOf\<close> ends and
  answers what the linear search answers.
\<close>

theorem indexOf_sorted_equals_linear:
  assumes "length xs \<le> 2 ^ 30" and "sorted (map f xs)" and "\<And>a b. f a = f b \<Longrightarrow> a = b"
  shows "array_indexOf f (Some xs) x True = array_indexOf f (Some xs) x False"
proof -
  obtain i where i: "sortedIndex f xs x = Some (int i)" and p: "place_for f xs x i"
    using sortedIndex_place [OF assms(1,2)] by blast
  show ?thesis
  proof (cases "x \<in> set xs")
    case True
    then obtain j where j: "j < length xs" "xs ! j = x" by (metis in_set_conv_nth)
    have "\<forall>k < i. xs ! k \<noteq> x"
    proof (intro allI impI notI)
      fix k assume k: "k < i" "xs ! k = x"
      then have "x \<in> set (take i xs)" using p by (metis in_set_conv_nth length_take min_less_iff_conj nth_take place_for_def order_less_le_trans)
      with p show False by (auto simp: place_for_def)
    qed
    moreover from this j have ij: "i \<le> j" by (metis not_le)
    moreover have "xs ! i = x"
    proof -
      have "drop i xs ! 0 \<in> set (drop i xs)" using ij j by (intro nth_mem) simp
      then have "xs ! i \<in> set (drop i xs)" using ij j by simp
      then have "f x \<le> f (xs ! i)" using p by (simp add: place_for_def)
      moreover have "f (xs ! i) \<le> f (xs ! j)" using sorted_nth_mono [OF assms(2), of i j] ij j by simp
      ultimately show ?thesis using assms(3) j by simp
    qed
    ultimately have "scan_from 0 (map Some xs) x = int i" and "i < length xs"
      using j scan_from_found [of i "map Some xs" x 0] by auto
    with i \<open>xs ! i = x\<close> show ?thesis by (simp add: array_indexOf_def)
  next
    case False
    then have "\<not> (i < length xs \<and> xs ! i = x)" by auto
    moreover have "scan_from 0 (map Some xs) x = -1" using False by (intro scan_from_missing) auto
    ultimately show ?thesis using i by (simp add: array_indexOf_def)
  qed
qed

theorem indexOf_sorted_equals_linear_witness:
  "array_indexOf (\<lambda>x. x) (Some [10, 20, 20, 30::int]) 20 True = Some 1"
proof -
  have "array_indexOf (\<lambda>x. x) (Some [10, 20, 20, 30::int]) 20 True = array_indexOf (\<lambda>x. x) (Some [10, 20, 20, 30::int]) 20 False"
    by (rule indexOf_sorted_equals_linear) simp_all
  then show ?thesis by (simp add: array_indexOf_def)
qed

text \<open>
  \<open>zip\<close> has a row for each index of the longest array, and reading a column back gives the
  array, padded with \<open>undefined\<close>; of no arrays at all it fails.
\<close>

theorem zip_columns:
  "u_zip args =
     (if args = [] then Inl RangeError
      else Inr (zip_rows args (Max (set (map length args))))) \<and>
   (k < length args \<longrightarrow>
      map (\<lambda>row. row ! k) (zip_rows args n) =
        map Some (take n (args ! k)) @ replicate (n - length (args ! k)) None)"
proof -
  have "nat (Max (int ` length ` set args)) = Max (length ` set args)" if "args \<noteq> []"
    using that by (subst mono_Max_commute [symmetric]) (auto simp: mono_def)
  then have "args \<noteq> [] \<Longrightarrow> u_zip args = Inr (zip_rows args (Max (set (map length args))))"
    using max_array_Fin [of "map (\<lambda>xs. int (length xs)) args"] by (simp add: u_zip_def o_def image_image)
  moreover have "u_zip [] = (Inl RangeError :: 'a option list list result)" by (simp add: u_zip_def max_array_def)
  moreover have "map (\<lambda>row. row ! k) (zip_rows args n) =
      map Some (take n (args ! k)) @ replicate (n - length (args ! k)) None" if "k < length args"
    using that by (intro nth_equalityI) (auto simp: zip_rows_def nth_opt_def nth_append)
  ultimately show ?thesis by auto
qed

theorem zip_columns_witness:
  "map (\<lambda>row. row ! 1) (zip_rows [[1, 2], [3::int]] 2) = [Some 3, None]"
  using zip_columns [of "[[1, 2], [3::int]]" 1 2] by simp

text \<open>
  \<open>range\<close> counts from the start by the step, up to the last value before the stop.
\<close>

theorem range_progression:
  assumes "range_args args = (start, stop, step)"
  shows "(i < length (u_range args) \<longrightarrow> u_range args ! i = start + int i * step) \<and>
    (i < length (u_range args) \<longleftrightarrow> (if 0 < step then start + int i * step < stop else stop < start + int i * step))"
proof -
  let ?n = "nat (max (ceil_div (stop - start) step) 0)"
  have r: "u_range args = fill_range ?n start step" by (simp add: u_range_def assms)
  have e: "i < length (u_range args) \<Longrightarrow> u_range args ! i = start + int i * step"
    by (simp add: r nth_fill_range)
  have "i < ?n \<longleftrightarrow> \<not> ceil_div (stop - start) step \<le> int i" by auto
  moreover have "ceil_div (stop - start) step \<le> int i \<longleftrightarrow>
      (if 0 < step then stop \<le> start + int i * step else start + int i * step \<le> stop)"
    using ceil_div_le [of step "stop - start" "int i"] ceil_div_le [of "- step" "start - stop" "int i"]
      ceil_div_minus [of "start - stop" "- step"] range_args_step [OF assms]
    by (auto simp: algebra_simps)
  ultimately have "i < length (u_range args) \<longleftrightarrow> (if 0 < step then start + int i * step < stop else stop < start + int i * step)"
    unfolding r length_fill_range by (auto simp: not_le)
  with e show ?thesis by blast
qed

theorem range_progression_witness: "u_range [10, 0, -3] ! 2 = 4"
  using range_progression [of "[10, 0, -3]" 10 0 "-3" 2] by (simp add: u_range_def ceil_div_def)

end
