(* ===== verification/U_Functions.thy ===== *)
theory U_Functions
  imports U_Arrays
begin

text \<open>
  The functions on functions of \<open>underscore-1.3.1.js\<close>: \<open>bind\<close>, \<open>memoize\<close>, \<open>once\<close>, \<open>after\<close>,
  \<open>wrap\<close>, \<open>compose\<close>, and the timed ones, \<open>delay\<close>, \<open>debounce\<close> and \<open>throttle\<close>, as step relations
  over a clock. A function of the program that is called back has a state of type \<open>'s\<close>; it does not
  call the function built from it again.
\<close>

section \<open>bind, wrap, compose\<close>

text \<open>
  A function takes its \<open>this\<close> and its arguments. \<open>New self\<close> is a call with \<open>new\<close>, whose fresh
  object has the prototype of \<open>func\<close>; \<open>is_object\<close> tells whether the result is an object.
\<close>

datatype 'v invocation = Plain | New 'v

definition bound_call :: "('v \<Rightarrow> bool) \<Rightarrow> ('v \<Rightarrow> 'v list \<Rightarrow> 'v) \<Rightarrow> 'v \<Rightarrow> 'v list \<Rightarrow> 'v invocation \<Rightarrow> 'v list \<Rightarrow> 'v" where
  "bound_call is_object func ctx pre mode args =
     (case mode of
        Plain \<Rightarrow> func ctx (pre @ args)
      | New self \<Rightarrow>
          (let result = func self (pre @ args) in if is_object result then result else self))"

definition bind_fallback ::
    "('v \<Rightarrow> bool) \<Rightarrow> ('v \<Rightarrow> 'v list \<Rightarrow> 'v) option \<Rightarrow> 'v \<Rightarrow> 'v list \<Rightarrow>
     ('v invocation \<Rightarrow> 'v list \<Rightarrow> 'v) result" where
  "bind_fallback is_object func ctx pre =
     (case func of None \<Rightarrow> Inl TypeError | Some f \<Rightarrow> Inr (bound_call is_object f ctx pre))"

definition wrap :: "'v \<Rightarrow> ('v \<Rightarrow> 'v list \<Rightarrow> 'r) \<Rightarrow> 'v \<Rightarrow> 'v list \<Rightarrow> 'r" where
  "wrap func wrapper this args = wrapper this (func # args)"

fun compose_loop :: "('v list \<Rightarrow> 's \<Rightarrow> 'v \<times> 's) list \<Rightarrow> nat \<Rightarrow> 'v list \<Rightarrow> 's \<Rightarrow> 'v list \<times> 's" where
  "compose_loop funcs 0 args s = (args, s)"
| "compose_loop funcs (Suc i) args s =
     (let (v, s') = (funcs ! i) args s in compose_loop funcs i [v] s')"

definition compose :: "('v list \<Rightarrow> 's \<Rightarrow> 'v \<times> 's) list \<Rightarrow> 'v list \<Rightarrow> 's \<Rightarrow> 'v option \<times> 's" where
  "compose funcs args s =
     (let (args', s') = compose_loop funcs (length funcs) args s in (nth_opt args' 0, s'))"

section \<open>memoize\<close>

text \<open>
  The results by the string the hasher gives; storing under \<open>__proto__\<close> makes no own property.
\<close>

definition memo_put :: "string \<Rightarrow> 'r \<Rightarrow> (string, 'r) jsobj \<Rightarrow> (string, 'r) jsobj" where
  "memo_put key v memo = (if key = ''__proto__'' then memo else obj_put key v memo)"

definition memoized :: "('a \<Rightarrow> string) \<Rightarrow> ('a \<Rightarrow> 's \<Rightarrow> 'r \<times> 's) \<Rightarrow> 'a \<Rightarrow> (string, 'r) jsobj \<times> 's \<Rightarrow>
    'r \<times> (string, 'r) jsobj \<times> 's" where
  "memoized hasher func args st =
     (let key = hasher args in
      case obj_get (fst st) key of
        Some v \<Rightarrow> (v, st)
      | None \<Rightarrow> (let (v, s) = func args (snd st) in (v, memo_put key v (fst st), s)))"

fun call_each :: "('a \<Rightarrow> 's \<Rightarrow> 'r \<times> 's) \<Rightarrow> 'a list \<Rightarrow> 's \<Rightarrow> 'r list \<times> 's" where
  "call_each f [] s = ([], s)"
| "call_each f (a # as) s =
     (let (r, s1) = f a s; (rs, s2) = call_each f as s1 in (r # rs, s2))"

text \<open>A function that logs its calls.\<close>

definition logging :: "('a \<Rightarrow> 'r) \<Rightarrow> 'a \<Rightarrow> 'a list \<Rightarrow> 'r \<times> 'a list" where
  "logging f a log = (f a, log @ [a])"

lemma memoized_runs:
  assumes "\<And>a b. hasher a = hasher b \<Longrightarrow> f a = f b"
    and "\<forall>a \<in> set calls. hasher a \<noteq> ''__proto__''"
    and "\<forall>k r. obj_get memo k = Some r \<longrightarrow> (\<exists>a. hasher a = k \<and> f a = r)"
  shows "fst (call_each (memoized hasher (logging f)) calls (memo, log)) = map f calls \<and>
    snd (snd (call_each (memoized hasher (logging f)) calls (memo, log))) =
      log @ firsts hasher (set (obj_keys memo)) calls"
  using assms(2,3)
proof (induction calls arbitrary: memo log)
  case (Cons a calls)
  show ?case
  proof (cases "obj_get memo (hasher a)")
    case (Some r)
    then obtain b where "hasher b = hasher a" "f b = r" using Cons.prems(2) by blast
    then have "f a = r" using assms(1) by metis
    moreover have "hasher a \<in> set (obj_keys memo)" using Some obj_in_keys by fastforce
    ultimately show ?thesis using Some Cons.IH [of memo log] Cons.prems
      by (auto simp: memoized_def Let_def split: prod.splits)
  next
    case None
    let ?memo = "obj_put (hasher a) (f a) memo"
    have "\<forall>k r. obj_get ?memo k = Some r \<longrightarrow> (\<exists>a. hasher a = k \<and> f a = r)"
      using Cons.prems(2) by (auto simp: js_obj)
    moreover have "set (obj_keys ?memo) = insert (hasher a) (set (obj_keys memo))"
      by (auto simp: js_obj)
    moreover have "hasher a \<notin> set (obj_keys memo)" using None obj_in_keys by metis
    ultimately show ?thesis using None Cons.IH [of ?memo "log @ [a]"] Cons.prems(1)
      by (auto simp: memoized_def memo_put_def logging_def Let_def split: prod.splits)
  qed
qed (simp add: )

section \<open>once, after\<close>

definition once :: "('a \<Rightarrow> 's \<Rightarrow> 'r \<times> 's) \<Rightarrow> 'a \<Rightarrow> 'r option \<times> 's \<Rightarrow> 'r \<times> 'r option \<times> 's" where
  "once func args st =
     (case fst st of
        Some memo \<Rightarrow> (memo, st)
      | None \<Rightarrow> (let (v, s) = func args (snd st) in (v, Some v, s)))"

lemma once_again: "call_each (once func) calls (Some r, s) = (replicate (length calls) r, (Some r, s))"
  by (induction calls) (auto simp: once_def)

text \<open>The counter \<open>times\<close> of the closure; a call that does not run the function answers \<open>undefined\<close>.\<close>

definition after :: "('a \<Rightarrow> 's \<Rightarrow> 'r \<times> 's) \<Rightarrow> 'a \<Rightarrow> int \<times> 's \<Rightarrow> 'r option \<times> int \<times> 's" where
  "after func args st =
     (let count_left = fst st - 1 in
      if count_left < 1 then (let (v, s) = func args (snd st) in (Some v, count_left, s))
      else (None, count_left, snd st))"

definition after_now :: "int \<Rightarrow> ('s \<Rightarrow> 'r \<times> 's) \<Rightarrow> 's \<Rightarrow> ('r \<times> 's) option" where
  "after_now count_left func s = (if count_left \<le> 0 then Some (func s) else None)"

lemma after_runs:
  "call_each (after (logging f)) calls (count_left, log) =
     (map (\<lambda>(i, a). if count_left \<le> int i then Some (f a) else None) (enumerate 1 calls),
      count_left - int (length calls), log @ drop (nat (count_left - 1)) calls)"
proof (induction calls arbitrary: count_left log)
  case (Cons a calls)
  have e: "map (\<lambda>(i, a). if count_left - 1 \<le> int i then Some (f a) else None) (enumerate (Suc n) calls) =
      map (\<lambda>(i, a). if count_left \<le> int i then Some (f a) else None) (enumerate (Suc (Suc n)) calls)" for n
    by (induction calls arbitrary: n) auto
  have e2: "count_left < 2 \<Longrightarrow>
      map (\<lambda>(i, a). if count_left \<le> int i then Some (f a) else None) (enumerate (Suc (Suc n)) calls) =
      map (\<lambda>(i, a). Some (f a)) (enumerate (Suc n) calls)" for n
    by (induction calls arbitrary: n) auto
  have d: "drop (nat (count_left - 1)) (a # calls) =
      (if count_left - 1 < 1 then a # drop (nat (count_left - 1 - 1)) calls else drop (nat (count_left - 1 - 1)) calls)"
  proof (cases "count_left - 1 < 1")
    case False
    then have "nat (count_left - 1) = Suc (nat (count_left - 1 - 1))" by linarith
    with False show ?thesis by simp
  qed simp
  from Cons.IH e [of 0] e2 [of 0] d show ?case
    by (simp add: after_def logging_def Let_def)
qed simp

section \<open>Timers\<close>

text \<open>
  A pending timer has a deadline and the stamp of its creation; timers become due in the order of
  their deadlines, equal ones in the order of creation. A timer may run late.
\<close>

type_synonym timer = "nat \<times> nat"

definition before :: "timer \<Rightarrow> timer \<Rightarrow> bool" where
  "before a b \<longleftrightarrow> fst a < fst b \<or> fst a = fst b \<and> snd a < snd b"

record clock =
  now :: nat
  stamp :: nat

definition setTimeout :: "nat \<Rightarrow> ('c clock_scheme \<Rightarrow> timer \<times> 'c clock_scheme)" where
  "setTimeout wait s = ((now s + wait, stamp s), s\<lparr>stamp := stamp s + 1\<rparr>)"

text \<open>\<open>delay\<close> and \<open>defer\<close>: the timer and the arguments it will pass.\<close>

definition delay :: "nat \<Rightarrow> 'a list \<Rightarrow> 'c clock_scheme \<Rightarrow> (timer \<times> 'a list) \<times> 'c clock_scheme" where
  "delay wait args s = (let (t, s') = setTimeout wait s in ((t, args), s'))"

definition defer_call :: "'a list \<Rightarrow> 'c clock_scheme \<Rightarrow> (timer \<times> 'a list) \<times> 'c clock_scheme" where
  "defer_call args = delay 1 args"

text \<open>What can be observed of a timed function: it is called, and it runs the function.\<close>

datatype 'a act = Called 'a | Ran 'a

fun is_ran :: "'a act \<Rightarrow> bool" where
  "is_ran (Ran a) = True"
| "is_ran (Called a) = False"

type_synonym 'a history = "(nat \<times> 'a act) list"

definition ran_times :: "'a history \<Rightarrow> nat list" where
  "ran_times h = map fst (filter (\<lambda>e. is_ran (snd e)) h)"

lemma ran_times_simps [simp]:
  "ran_times [] = []"
  "ran_times ((t, Ran a) # h) = t # ran_times h"
  "ran_times ((t, Called a) # h) = ran_times h"
  by (simp_all add: ran_times_def)

text \<open>Newest first: the function only runs for the call just before, with its arguments.\<close>

fun serves :: "'a history \<Rightarrow> bool" where
  "serves [] = True"
| "serves ((t, Called a) # h) = serves h"
| "serves ((t, Ran a) # h) = ((\<exists>t' h'. h = (t', Called a) # h' \<and> t' \<le> t) \<and> serves h)"

fun unserved :: "'a history \<Rightarrow> 'a option" where
  "unserved ((t, Called a) # h) = Some a"
| "unserved h = None"

section \<open>debounce\<close>

record 'a debounced = clock +
  pending :: "(timer \<times> 'a) option"
  d_history :: "'a history"

definition debounce_call :: "nat \<Rightarrow> 'a \<Rightarrow> 'a debounced \<Rightarrow> 'a debounced" where
  "debounce_call wait args s =
     (let s1 = s\<lparr>d_history := (now s, Called args) # d_history s, pending := None\<rparr>;
          (t, s2) = setTimeout wait s1
      in s2\<lparr>pending := Some (t, args)\<rparr>)"

definition debounce_fire :: "'a debounced \<Rightarrow> 'a debounced" where
  "debounce_fire s =
     (case pending s of
        Some (t, args) \<Rightarrow>
          if fst t \<le> now s then s\<lparr>pending := None, d_history := (now s, Ran args) # d_history s\<rparr> else s
      | None \<Rightarrow> s)"

inductive debounce_step :: "nat \<Rightarrow> 'a debounced \<Rightarrow> 'a debounced \<Rightarrow> bool" for wait where
  tick: "debounce_step wait s (s\<lparr>now := now s + n\<rparr>)"
| call: "debounce_step wait s (debounce_call wait args s)"
| fire: "debounce_step wait s (debounce_fire s)"

definition debounce_init :: "nat \<Rightarrow> 'a debounced" where
  "debounce_init t = \<lparr>now = t, stamp = 0, pending = None, d_history = []\<rparr>"

text \<open>Every run comes at least \<open>wait\<close> after the call it serves, which is the last one before it.\<close>

fun quiet_before :: "nat \<Rightarrow> 'a history \<Rightarrow> bool" where
  "quiet_before wait [] = True"
| "quiet_before wait ((t, Called a) # h) = quiet_before wait h"
| "quiet_before wait ((t, Ran a) # h) =
     ((\<exists>t' h'. h = (t', Called a) # h' \<and> t' + wait \<le> t) \<and> quiet_before wait h)"

definition debounce_ok :: "nat \<Rightarrow> 'a debounced \<Rightarrow> bool" where
  "debounce_ok wait s \<longleftrightarrow> quiet_before wait (d_history s) \<and>
     (case pending s of
        None \<Rightarrow> unserved (d_history s) = None
      | Some (t, a) \<Rightarrow> \<exists>t' h'. d_history s = (t', Called a) # h' \<and> fst t = t' + wait)"

lemma unserved_Some: "unserved h = Some a \<longleftrightarrow> (\<exists>t h'. h = (t, Called a) # h')"
  by (cases h rule: unserved.cases) auto

lemma debounce_ok_step:
  assumes "debounce_step wait s s'" and "debounce_ok wait s"
  shows "debounce_ok wait s'"
  using assms(1)
proof cases
  case (tick n)
  with assms(2) show ?thesis by (auto simp: debounce_ok_def split: option.splits)
next
  case (call args)
  with assms(2) show ?thesis
    by (auto simp: debounce_ok_def debounce_call_def setTimeout_def Let_def)
next
  case fire
  with assms(2) show ?thesis
    by (fastforce simp: debounce_ok_def debounce_fire_def split: option.splits prod.splits)
qed

lemma debounce_reachable_ok: "(debounce_step wait)\<^sup>*\<^sup>* (debounce_init t) s \<Longrightarrow> debounce_ok wait s"
proof (induction rule: rtranclp_induct)
  case base
  show ?case by (simp add: debounce_ok_def debounce_init_def)
next
  case (step s s')
  then show ?case using debounce_ok_step by blast
qed

section \<open>throttle\<close>

text \<open>
  The variables of the closure; \<open>whenDone\<close> is a debounced function whose timer is \<open>done_timer\<close>;
  \<open>more_calls\<close> is the variable \<open>more\<close>.
\<close>

record 'a throttled = clock +
  timeout :: "timer option"
  done_timer :: "timer option"
  throttling :: bool
  more_calls :: bool
  args_of :: "'a option"
  history :: "'a history"

definition apply_func :: "'a throttled \<Rightarrow> 'a throttled" where
  "apply_func s = (case args_of s of None \<Rightarrow> s | Some a \<Rightarrow> s\<lparr>history := (now s, Ran a) # history s\<rparr>)"

definition whenDone :: "nat \<Rightarrow> 'a throttled \<Rightarrow> 'a throttled" where
  "whenDone wait s = (let (t, s') = setTimeout wait s in s'\<lparr>done_timer := Some t\<rparr>)"

definition throttle_call :: "nat \<Rightarrow> 'a \<Rightarrow> 'a throttled \<Rightarrow> 'a throttled" where
  "throttle_call wait args s0 =
     (let s = s0\<lparr>args_of := Some args, history := (now s0, Called args) # history s0\<rparr>;
          s1 = (if timeout s = None
                then (let (t, s') = setTimeout wait s in s'\<lparr>timeout := Some t\<rparr>) else s);
          s2 = (if throttling s1 then s1\<lparr>more_calls := True\<rparr> else apply_func s1)
      in (whenDone wait s2)\<lparr>throttling := True\<rparr>)"

definition later_fires :: "nat \<Rightarrow> 'a throttled \<Rightarrow> 'a throttled" where
  "later_fires wait s =
     (let s1 = s\<lparr>timeout := None\<rparr>; s2 = (if more_calls s1 then apply_func s1 else s1) in whenDone wait s2)"

definition done_fires :: "'a throttled \<Rightarrow> 'a throttled" where
  "done_fires s = s\<lparr>done_timer := None, throttling := False, more_calls := False\<rparr>"

definition due :: "nat \<Rightarrow> timer option \<Rightarrow> timer option \<Rightarrow> bool" where
  "due t a b = (case a of
     None \<Rightarrow> False | Some x \<Rightarrow> fst x \<le> t \<and> (case b of None \<Rightarrow> True | Some y \<Rightarrow> before x y))"

inductive throttle_step :: "nat \<Rightarrow> 'a throttled \<Rightarrow> 'a throttled \<Rightarrow> bool" for wait where
  t_tick: "throttle_step wait s (s\<lparr>now := now s + n\<rparr>)"
| t_call: "throttle_step wait s (throttle_call wait args s)"
| t_later: "due (now s) (timeout s) (done_timer s) \<Longrightarrow> throttle_step wait s (later_fires wait s)"
| t_done: "due (now s) (done_timer s) (timeout s) \<Longrightarrow> throttle_step wait s (done_fires s)"

definition throttle_init :: "nat \<Rightarrow> 'a throttled" where
  "throttle_init t = \<lparr>now = t, stamp = 0, timeout = None, done_timer = None, throttling = False, more_calls = False,
     args_of = None, history = []\<rparr>"

text \<open>The runs so far are \<open>wait\<close> apart and the next is not before \<open>t\<close>.\<close>

definition spaced :: "nat \<Rightarrow> nat \<Rightarrow> 'a history \<Rightarrow> bool" where
  "spaced wait t h \<longleftrightarrow> sorted_wrt (\<lambda>newer older. older + wait \<le> newer) (ran_times h) \<and>
     (\<forall>r \<in> set (ran_times h). r + wait \<le> t)"

definition throttle_ok :: "nat \<Rightarrow> 'a throttled \<Rightarrow> bool" where
  "throttle_ok wait s \<longleftrightarrow>
     (case done_timer s of
        None \<Rightarrow> \<not> throttling s \<and> \<not> more_calls s \<and> timeout s = None \<and> spaced wait (now s) (history s)
      | Some d \<Rightarrow> throttling s \<and> snd d < stamp s \<and> fst d \<le> now s + wait \<and>
          spaced wait (fst d) (history s) \<and>
          (case timeout s of None \<Rightarrow> True | Some l \<Rightarrow> before l d \<and> spaced wait (fst l) (history s))) \<and>
     (unserved (history s) \<noteq> None \<longleftrightarrow> more_calls s \<and> timeout s \<noteq> None) \<and>
     (\<forall>a. unserved (history s) = Some a \<longrightarrow> args_of s = Some a) \<and>
     (\<forall>e \<in> set (history s). fst e \<le> now s) \<and> serves (history s)"

lemma spaced_mono: "spaced wait t h \<Longrightarrow> t \<le> t' \<Longrightarrow> spaced wait t' h"
  by (auto simp: spaced_def intro: order_trans)

lemma spaced_called [simp]: "spaced wait t ((t', Called a) # h) \<longleftrightarrow> spaced wait t h"
  by (simp add: spaced_def)

lemma spaced_ran: "spaced wait t h \<Longrightarrow> spaced wait (t + wait) ((t, Ran a) # h)"
  by (auto simp: spaced_def)

lemma spaced_past: "spaced wait t h \<Longrightarrow> \<forall>e \<in> set h. fst e \<le> n \<Longrightarrow> spaced wait (n + wait) h"
  by (auto simp: spaced_def ran_times_def)

lemmas throttle_defs = throttle_call_def later_fires_def done_fires_def whenDone_def apply_func_def setTimeout_def Let_def

lemma throttle_ok_call:
  assumes "throttle_ok wait s"
  shows "throttle_ok wait (throttle_call wait args s)"
proof (cases "done_timer s")
  case None
  with assms have "spaced wait (now s + wait) ((now s, Ran args) # (now s, Called args) # history s)"
    by (intro spaced_ran) (simp add: throttle_ok_def)
  with None assms show ?thesis
    by (auto simp: throttle_ok_def throttle_defs before_def)
next
  case (Some d)
  with assms have p: "spaced wait (now s + wait) (history s)"
    by (intro spaced_past) (auto simp: throttle_ok_def)
  show ?thesis
  proof (cases "timeout s")
    case None
    with p Some assms show ?thesis by (auto simp: throttle_ok_def throttle_defs before_def)
  next
    case (Some l)
    with p \<open>done_timer s = Some d\<close> assms show ?thesis
      by (auto simp: throttle_ok_def throttle_defs before_def)
  qed
qed

lemma throttle_ok_later:
  assumes "throttle_ok wait s" and "due (now s) (timeout s) (done_timer s)"
  shows "throttle_ok wait (later_fires wait s)"
proof -
  from assms(2) obtain l where l: "timeout s = Some l" "fst l \<le> now s" by (auto simp: due_def split: option.splits)
  with assms(1) obtain d where d: "done_timer s = Some d" "spaced wait (fst l) (history s)"
    by (auto simp: throttle_ok_def split: option.splits)
  have now: "spaced wait (now s) (history s)" using d(2) l(2) by (rule spaced_mono)
  show ?thesis
  proof (cases "more_calls s")
    case True
    with assms(1) l obtain a where a: "unserved (history s) = Some a" "args_of s = Some a"
      by (auto simp: throttle_ok_def)
    then obtain t h where h: "history s = (t, Called a) # h" by (auto simp: unserved_Some)
    have o: "t \<le> now s" "\<forall>e \<in> set h. fst e \<le> now s" "serves h" "throttling s"
      using assms(1) h d by (auto simp: throttle_ok_def)
    have "spaced wait (now s + wait) ((now s, Ran a) # (t, Called a) # h)"
      using now unfolding h by (rule spaced_ran)
    with True l d a h o show ?thesis by (simp add: throttle_ok_def throttle_defs)
  next
    case False
    have "spaced wait (now s + wait) (history s)" using now by (rule spaced_mono) simp
    with False l d assms(1) show ?thesis by (auto simp: throttle_ok_def throttle_defs)
  qed
qed

lemma throttle_ok_done:
  assumes "throttle_ok wait s" and "due (now s) (done_timer s) (timeout s)"
  shows "throttle_ok wait (done_fires s)"
proof -
  from assms(2) obtain d where d: "done_timer s = Some d" "fst d \<le> now s" by (auto simp: due_def split: option.splits)
  have "timeout s = None" using assms d by (auto simp: due_def throttle_ok_def before_def split: option.splits)
  moreover have "spaced wait (now s) (history s)"
    using assms(1) d by (auto simp: throttle_ok_def intro: spaced_mono)
  ultimately show ?thesis using d assms(1) by (auto simp: throttle_ok_def throttle_defs)
qed

lemma throttle_ok_step: "throttle_step wait s s' \<Longrightarrow> throttle_ok wait s \<Longrightarrow> throttle_ok wait s'"
proof (induction rule: throttle_step.induct)
  case (t_tick s n)
  have "spaced wait (now s) h \<Longrightarrow> spaced wait (now s + n) h" for h by (erule spaced_mono) simp
  with t_tick show ?case by (fastforce simp: throttle_ok_def split: option.splits)
qed (auto intro: throttle_ok_call throttle_ok_later throttle_ok_done)

lemma throttle_reachable_ok: "(throttle_step wait)\<^sup>*\<^sup>* (throttle_init t) s \<Longrightarrow> throttle_ok wait s"
proof (induction rule: rtranclp_induct)
  case base
  show ?case by (simp add: throttle_ok_def throttle_init_def spaced_def)
next
  case (step s s')
  then show ?case using throttle_ok_step by blast
qed

section \<open>Properties\<close>

text \<open>
  C19: a function throttled by \<open>wait\<close> milliseconds runs at most once in every window of that length,
  and every run serves the call just before it, however calls, timers and time interleave.
\<close>

theorem throttle_limits:
  assumes "(throttle_step wait)\<^sup>*\<^sup>* (throttle_init t) s"
  shows "sorted_wrt (\<lambda>newer older. older + wait \<le> newer) (ran_times (history s)) \<and> serves (history s)"
  using throttle_reachable_ok [OF assms]
  by (auto simp: throttle_ok_def spaced_def split: option.splits)

text \<open>A run of the relation for the witnesses: two calls 3 milliseconds apart, throttled by 10.\<close>

definition throttle_run :: "string throttled" where
  "throttle_run = throttle_call 10 ''b'' ((throttle_call 10 ''a'' (throttle_init 0))\<lparr>now := 3\<rparr>)"

lemma throttle_run_reached: "(throttle_step 10)\<^sup>*\<^sup>* (throttle_init 0) (later_fires 10 (throttle_run\<lparr>now := 10\<rparr>))"
proof -
  let ?a = "throttle_call 10 ''a'' (throttle_init 0)"
  have "throttle_step 10 (throttle_init 0) ?a" by (rule t_call)
  moreover have "throttle_step 10 ?a (?a\<lparr>now := 3\<rparr>)"
    using t_tick [of 10 ?a 3] by (simp add: throttle_defs throttle_init_def)
  moreover have "throttle_step 10 (?a\<lparr>now := 3\<rparr>) throttle_run" unfolding throttle_run_def by (rule t_call)
  moreover have "throttle_step 10 throttle_run (throttle_run\<lparr>now := 10\<rparr>)"
    using t_tick [of 10 throttle_run 7] by (simp add: throttle_run_def throttle_defs throttle_init_def)
  moreover have "throttle_step 10 (throttle_run\<lparr>now := 10\<rparr>) (later_fires 10 (throttle_run\<lparr>now := 10\<rparr>))"
    by (rule t_later) (simp add: throttle_run_def throttle_defs throttle_init_def due_def before_def)
  ultimately show ?thesis by (meson rtranclp.rtrancl_refl rtranclp.rtrancl_into_rtrancl)
qed

lemma throttle_run_history:
  "history (later_fires 10 (throttle_run\<lparr>now := 10\<rparr>)) =
     [(10, Ran ''b''), (3, Called ''b''), (0, Ran ''a''), (0, Called ''a'')]"
  by (simp add: throttle_run_def throttle_defs throttle_init_def)

theorem throttle_limits_witness: "serves [(10::nat, Ran ''b''), (3, Called ''b''), (0, Ran ''a''), (0, Called ''a'')]"
  using throttle_limits [OF throttle_run_reached] unfolding throttle_run_history by (rule conjunct2)

text \<open>
  No call of a throttled function is lost: while the latest call has not been served, a timer is
  pending that will run the function with its arguments, at most \<open>wait\<close> milliseconds ahead.
\<close>

theorem throttle_loses_nothing:
  assumes "(throttle_step wait)\<^sup>*\<^sup>* (throttle_init t) s" and "unserved (history s) = Some a"
  shows "\<exists>l. timeout s = Some l \<and> fst l \<le> now s + wait \<and> due (max (now s) (fst l)) (timeout s) (done_timer s) \<and>
    history (later_fires wait (s\<lparr>now := max (now s) (fst l)\<rparr>)) = (max (now s) (fst l), Ran a) # history s"
proof -
  have ok: "throttle_ok wait s" by (rule throttle_reachable_ok [OF assms(1)])
  then have m: "more_calls s" "timeout s \<noteq> None" "args_of s = Some a"
    using assms(2) by (auto simp: throttle_ok_def)
  then obtain l where l: "timeout s = Some l" by auto
  with ok obtain d where d: "done_timer s = Some d" "before l d" "fst d \<le> now s + wait"
    by (auto simp: throttle_ok_def split: option.splits)
  have "fst l \<le> now s + wait" using d(2,3) by (auto simp: before_def)
  with l d m show ?thesis by (auto simp: due_def throttle_defs)
qed

theorem throttle_loses_nothing_witness:
  "\<exists>l. timeout throttle_run = Some l \<and> fst l \<le> 13"
proof -
  have r: "(throttle_step 10)\<^sup>*\<^sup>* (throttle_init 0) throttle_run"
    unfolding throttle_run_def
  proof -
    let ?a = "throttle_call 10 ''a'' (throttle_init 0)"
    have "throttle_step 10 (throttle_init 0) ?a" by (rule t_call)
    moreover have "throttle_step 10 ?a (?a\<lparr>now := 3\<rparr>)"
      using t_tick [of 10 ?a 3] by (simp add: throttle_defs throttle_init_def)
    moreover have "throttle_step 10 (?a\<lparr>now := 3\<rparr>) (throttle_call 10 ''b'' (?a\<lparr>now := 3\<rparr>))" by (rule t_call)
    ultimately show "(throttle_step 10)\<^sup>*\<^sup>* (throttle_init 0) (throttle_call 10 ''b'' (?a\<lparr>now := 3\<rparr>))"
      by (meson rtranclp.rtrancl_refl rtranclp.rtrancl_into_rtrancl)
  qed
  have u: "unserved (history throttle_run) = Some ''b''" and n: "now throttle_run = 3"
    by (simp_all add: throttle_run_def throttle_defs throttle_init_def)
  from throttle_loses_nothing [OF r u] show ?thesis unfolding n by fastforce
qed

text \<open>
  A debounced function runs only when no call has come for \<open>wait\<close> milliseconds, with the
  arguments of the last call; while that has not happened its timer is pending.
\<close>

theorem debounce_waits:
  assumes "(debounce_step wait)\<^sup>*\<^sup>* (debounce_init t) s"
  shows "quiet_before wait (d_history s) \<and> (unserved (d_history s) \<noteq> None \<longleftrightarrow> pending s \<noteq> None)"
  using debounce_reachable_ok [OF assms] by (auto simp: debounce_ok_def split: option.splits)

theorem debounce_waits_witness:
  "pending (debounce_call 5 ''x'' (debounce_init 0)) \<noteq> None"
proof -
  have "(debounce_step 5)\<^sup>*\<^sup>* (debounce_init 0) (debounce_call 5 ''x'' (debounce_init 0))"
    by (rule r_into_rtranclp) (rule call)
  from debounce_waits [OF this] show ?thesis
    by (simp add: debounce_call_def debounce_init_def setTimeout_def Let_def)
qed

text \<open>
  A memoized function answers what the function answers, as long as arguments with the same key
  have the same result, and runs it once for each key, on the first arguments that have it.
\<close>

theorem memoize_transparent:
  assumes "\<And>a b. hasher a = hasher b \<Longrightarrow> f a = f b" and "''__proto__'' \<notin> hasher ` set calls"
  shows "fst (call_each (memoized hasher (logging f)) calls ([], [])) = map f calls \<and>
    snd (snd (call_each (memoized hasher (logging f)) calls ([], []))) = firsts hasher {} calls"
proof -
  have "\<forall>a \<in> set calls. hasher a \<noteq> ''__proto__''" using assms(2) by (metis imageI)
  from memoized_runs [of hasher f, OF assms(1) this, of "[]" "[]"] show ?thesis
    by (simp add: js_obj obj_keys_def)
qed

theorem memoize_transparent_witness:
  "fst (call_each (memoized (\<lambda>s. s) (logging length)) [''ab'', ''c'', ''ab''] ([], [])) = [2, 1, 2]"
proof -
  have h: "\<And>a b :: string. a = b \<Longrightarrow> length a = length b" by simp
  have p: "''__proto__'' \<notin> (\<lambda>s. s) ` set [''ab'', ''c'', ''ab'']" by simp
  from memoize_transparent [of "\<lambda>s. s", OF h p] show ?thesis by simp
qed

text \<open>
  \<open>once\<close> runs the function for the first call only and answers its result every time; \<open>after\<close>
  runs it from the \<open>n\<close>th call on; \<open>compose\<close> applies the functions from the last to the first.
\<close>

theorem once_after_compose:
  "call_each (once (logging f)) (a # calls) (None, log) =
     (replicate (Suc (length calls)) (f a), (Some (f a), log @ [a])) \<and>
   call_each (after (logging f)) calls (n, log) =
     (map (\<lambda>(i, a). if n \<le> int i then Some (f a) else None) (enumerate 1 calls),
      n - int (length calls), log @ drop (nat (n - 1)) calls) \<and>
   fst (compose (map (\<lambda>g vs s. (g (hd vs), s)) gs) [x] s) = Some (foldr (\<lambda>g y. g y) gs x)"
proof -
  have "call_each (once (logging f)) (a # calls) (None, log) =
      (replicate (Suc (length calls)) (f a), (Some (f a), log @ [a]))"
  proof -
    have "once (logging f) a (None, log) = (f a, Some (f a), log @ [a])" by (simp add: once_def logging_def)
    then show ?thesis by (simp add: once_again)
  qed
  moreover have "compose_loop (map (\<lambda>g vs s. (g (hd vs), s)) gs) n [x] s = ([foldr (\<lambda>g y. g y) (take n gs) x], s)"
    if "n \<le> length gs" for n x
    using that
  proof (induction n arbitrary: x)
    case (Suc n)
    then show ?case by (simp add: take_Suc_conv_app_nth)
  qed simp
  ultimately show ?thesis using after_runs [of f calls n log] by (simp add: compose_def nth_opt_def)
qed

end
