(* ===== verification/U_Equal.thy ===== *)
theory U_Equal
  imports U_Functions
begin

text \<open>
  The values of \<open>underscore-1.3.1.js\<close>, its type tests and the deep comparison \<open>isEqual\<close>. Objects
  live in a heap, so they can share parts and be cyclic. Numbers are the integers, \<open>NaN\<close> and
  \<open>-0\<close>. A comparison is run with fuel; \<open>eq_terminates\<close> shows how much is enough.
\<close>

section \<open>Values\<close>

datatype number = NaN | NegZero | Whole int

datatype val = Undef | Null | Bool bool | Num number | Str string | Ref nat

text \<open>
  The class of an object with what the class holds; an array has holes. \<open>KOther\<close> is any other
  class, by its name.
\<close>

datatype kind =
    KObject
  | KArray "val option list"
  | KString string
  | KNumber number
  | KBoolean bool
  | KDate number
  | KRegExp string bool bool bool
  | KFunction
  | KOther string

text \<open>
  An object: its own enumerable properties; the object that \<open>constructor\<close> refers to; the value of
  \<open>_wrapped\<close> if \<open>_chain\<close> is set; the function under \<open>isEqual\<close>. The last three may be
  inherited. For a primitive value there are none.
\<close>

record cell =
  kind :: kind
  own :: "(string \<times> val) list"
  ctor :: "nat option"
  chained :: "val option"
  custom :: "nat option"

type_synonym heap = "cell list"

definition cell_at :: "heap \<Rightarrow> nat \<Rightarrow> cell" where
  "cell_at h i = (if i < length h then h ! i
     else \<lparr>kind = KObject, own = [], ctor = None, chained = None, custom = None\<rparr>)"

fun class_name :: "kind \<Rightarrow> string" where
  "class_name KObject = ''Object''"
| "class_name (KArray xs) = ''Array''"
| "class_name (KString s) = ''String''"
| "class_name (KNumber n) = ''Number''"
| "class_name (KBoolean b) = ''Boolean''"
| "class_name (KDate n) = ''Date''"
| "class_name (KRegExp s g m i) = ''RegExp''"
| "class_name KFunction = ''Function''"
| "class_name (KOther s) = s"

text \<open>What \<open>toString.call(v)\<close> names, and the kind a value has as an object.\<close>

fun kind_of :: "heap \<Rightarrow> val \<Rightarrow> kind" where
  "kind_of h Undef = KOther ''Undefined''"
| "kind_of h Null = KOther ''Null''"
| "kind_of h (Bool b) = KBoolean b"
| "kind_of h (Num n) = KNumber n"
| "kind_of h (Str s) = KString s"
| "kind_of h (Ref i) = kind (cell_at h i)"

definition class_of :: "heap \<Rightarrow> val \<Rightarrow> string" where
  "class_of h v = class_name (kind_of h v)"

section \<open>Type tests\<close>

definition isArray :: "heap \<Rightarrow> val \<Rightarrow> bool" where
  "isArray h v \<longleftrightarrow> class_of h v = ''Array''"

definition isObject :: "val \<Rightarrow> bool" where
  "isObject v \<longleftrightarrow> (case v of Ref i \<Rightarrow> True | _ \<Rightarrow> False)"

definition isArguments :: "heap \<Rightarrow> val \<Rightarrow> bool" where
  "isArguments h v \<longleftrightarrow> class_of h v = ''Arguments''"

definition isFunction :: "heap \<Rightarrow> val \<Rightarrow> bool" where
  "isFunction h v \<longleftrightarrow> class_of h v = ''Function''"

definition isString :: "heap \<Rightarrow> val \<Rightarrow> bool" where
  "isString h v \<longleftrightarrow> class_of h v = ''String''"

definition isNumber :: "heap \<Rightarrow> val \<Rightarrow> bool" where
  "isNumber h v \<longleftrightarrow> class_of h v = ''Number''"

definition isBoolean :: "heap \<Rightarrow> val \<Rightarrow> bool" where
  "isBoolean h v \<longleftrightarrow> v = Bool True \<or> v = Bool False \<or> class_of h v = ''Boolean''"

definition isDate :: "heap \<Rightarrow> val \<Rightarrow> bool" where
  "isDate h v \<longleftrightarrow> class_of h v = ''Date''"

definition isRegExp :: "heap \<Rightarrow> val \<Rightarrow> bool" where
  "isRegExp h v \<longleftrightarrow> class_of h v = ''RegExp''"

definition isNull :: "val \<Rightarrow> bool" where
  "isNull v \<longleftrightarrow> v = Null"

definition isUndefined :: "val \<Rightarrow> bool" where
  "isUndefined v \<longleftrightarrow> v = Undef"

text \<open>\<open>===\<close>: \<open>NaN\<close> differs from itself, the zeros are equal.\<close>

fun num_eq :: "number \<Rightarrow> number \<Rightarrow> bool" where
  "num_eq NaN y = False"
| "num_eq x NaN = False"
| "num_eq NegZero y = (y = NegZero \<or> y = Whole 0)"
| "num_eq (Whole a) NegZero = (a = 0)"
| "num_eq (Whole a) (Whole b) = (a = b)"

fun strict_eq :: "val \<Rightarrow> val \<Rightarrow> bool" where
  "strict_eq (Num a) (Num b) = num_eq a b"
| "strict_eq a b = (a = b)"

definition isNaN :: "val \<Rightarrow> bool" where
  "isNaN v \<longleftrightarrow> \<not> strict_eq v v"

definition nullish :: "val \<Rightarrow> bool" where
  "nullish v \<longleftrightarrow> v = Undef \<or> v = Null"

section \<open>The comparison\<close>

text \<open>\<open>a !== 0 || 1 / a == 1 / b\<close>, for strictly equal values.\<close>

definition same_zero :: "val \<Rightarrow> val \<Rightarrow> bool" where
  "same_zero a b \<longleftrightarrow>
     (case (a, b) of
        (Num x, Num y) \<Rightarrow> \<not> num_eq x (Whole 0) \<or> (x = NegZero \<longleftrightarrow> y = NegZero)
      | _ \<Rightarrow> True)"

text \<open>The comparison of two numbers of the case \<open>Number\<close>.\<close>

definition egal :: "number \<Rightarrow> number \<Rightarrow> bool" where
  "egal a b \<longleftrightarrow>
     (if a = NaN then b = NaN
      else if num_eq a (Whole 0) then a = b \<comment> \<open>the reciprocals are equal\<close>
      else num_eq a b)"

text \<open>The cases that compare by value; the others answer nothing here.\<close>

definition date_number :: "number \<Rightarrow> number \<Rightarrow> bool" where
  "date_number a b \<longleftrightarrow> num_eq a b"

definition by_value :: "kind \<Rightarrow> kind \<Rightarrow> bool option" where
  "by_value k l =
     (case k of
        KString s \<Rightarrow> (case l of KString t \<Rightarrow> Some (s = t) | _ \<Rightarrow> None)
      | KNumber a \<Rightarrow> (case l of KNumber b \<Rightarrow> Some (egal a b) | _ \<Rightarrow> None)
      | KDate a \<Rightarrow> (case l of KDate b \<Rightarrow> Some (date_number a b) | _ \<Rightarrow> None)
      | KBoolean a \<Rightarrow> (case l of KBoolean b \<Rightarrow> Some (a = b) | _ \<Rightarrow> None)
      | KRegExp s g m i \<Rightarrow>
          (case l of KRegExp s' g' m' i' \<Rightarrow> Some (s = s' \<and> g = g' \<and> m = m' \<and> i = i') | _ \<Rightarrow> None)
      | KFunction \<Rightarrow> (case l of KFunction \<Rightarrow> Some False | _ \<Rightarrow> None)
      | _ \<Rightarrow> None)"

definition unchain :: "heap \<Rightarrow> val \<Rightarrow> val" where
  "unchain h v = (case v of
     Ref i \<Rightarrow> (case chained (cell_at h i) of Some w \<Rightarrow> w | None \<Rightarrow> v)
   | _ \<Rightarrow> v)"

definition custom_of :: "heap \<Rightarrow> val \<Rightarrow> nat option" where
  "custom_of h v = (case v of Ref i \<Rightarrow> custom (cell_at h i) | _ \<Rightarrow> None)"

definition elem_at :: "val option list \<Rightarrow> nat \<Rightarrow> val" where
  "elem_at xs k = (case nth_opt xs k of Some (Some v) \<Rightarrow> v | _ \<Rightarrow> Undef)"

definition elem_in :: "val option list \<Rightarrow> nat \<Rightarrow> bool" where
  "elem_in xs k \<longleftrightarrow> (case nth_opt xs k of Some (Some v) \<Rightarrow> True | _ \<Rightarrow> False)"

text \<open>
  A loop that goes on while the comparisons succeed. The outer option is the fuel, the sum the
  exception.
\<close>

fun all_while :: "('x \<Rightarrow> bool result option) \<Rightarrow> 'x list \<Rightarrow> bool result option" where
  "all_while p [] = Some (Inr True)"
| "all_while p (x # xs) =
     (case p x of Some (Inr True) \<Rightarrow> all_while p xs | r \<Rightarrow> r)"

definition count_matches :: "bool result option \<Rightarrow> cell \<Rightarrow> cell \<Rightarrow> bool result option" where
  "count_matches r ca cb =
     (case r of
        Some (Inr True) \<Rightarrow> Some (Inr (length (own ca) = length (own cb)))
      | _ \<Rightarrow> r)"

text \<open>
  The members of two objects of one class: \<open>rec\<close> compares a pair. Arrays are compared from the
  end, objects in the order of their properties.
\<close>

definition eq_elements :: "(val \<Rightarrow> val \<Rightarrow> bool result option) \<Rightarrow> val option list \<Rightarrow> val option list \<Rightarrow> bool result option" where
  "eq_elements rec xs ys =
     (if length xs \<noteq> length ys then Some (Inr False)
      else all_while (\<lambda>k. if elem_in xs k = elem_in ys k then rec (elem_at xs k) (elem_at ys k)
                          else Some (Inr False)) (rev [0..<length xs]))"

definition eq_properties :: "(val \<Rightarrow> val \<Rightarrow> bool result option) \<Rightarrow> cell \<Rightarrow> cell \<Rightarrow> bool result option" where
  "eq_properties rec ca cb =
     (if ctor ca \<noteq> ctor cb then Some (Inr False)
      else count_matches
        (all_while (\<lambda>(k, v). case obj_get (own cb) k of Some w \<Rightarrow> rec v w | None \<Rightarrow> Some (Inr False)) (own ca))
        ca cb)"

definition eq_members :: "(val \<Rightarrow> val \<Rightarrow> bool result option) \<Rightarrow> cell \<Rightarrow> cell \<Rightarrow> bool result option" where
  "eq_members rec ca cb =
     (case kind ca of
        KArray xs \<Rightarrow> (case kind cb of KArray ys \<Rightarrow> eq_elements rec xs ys | _ \<Rightarrow> eq_properties rec ca cb)
      | _ \<Rightarrow> eq_properties rec ca cb)"

text \<open>\<open>isEq f a b\<close> is what the custom method \<open>f\<close> of \<open>a\<close> answers on \<open>b\<close>.\<close>

definition eq_step ::
    "(nat \<Rightarrow> val \<Rightarrow> val \<Rightarrow> bool result) \<Rightarrow> heap \<Rightarrow> (nat list \<Rightarrow> val \<Rightarrow> val \<Rightarrow> bool result option) \<Rightarrow>
     nat list \<Rightarrow> val \<Rightarrow> val \<Rightarrow> bool result option" where
  "eq_step isEq h rec stack a b =
     (if strict_eq a b then Some (Inr (same_zero a b))
      else if nullish a \<or> nullish b then Some (Inr False)
      else
       (let a = unchain h a; b = unchain h b in
        if nullish a then Some (Inl TypeError)
        else case custom_of h a of Some f \<Rightarrow> Some (isEq f a b) | None \<Rightarrow>
        if nullish b then Some (Inl TypeError)
        else case custom_of h b of Some f \<Rightarrow> Some (isEq f b a) | None \<Rightarrow>
        if class_of h a \<noteq> class_of h b then Some (Inr False)
        else case by_value (kind_of h a) (kind_of h b) of Some r \<Rightarrow> Some (Inr r) | None \<Rightarrow>
        (case (a, b) of
           (Ref i, Ref j) \<Rightarrow>
             if i \<in> set stack then Some (Inr True)
             else eq_members (rec (i # stack)) (cell_at h i) (cell_at h j)
         | _ \<Rightarrow> Some (Inr False))))"

primrec u_eq :: "(nat \<Rightarrow> val \<Rightarrow> val \<Rightarrow> bool result) \<Rightarrow> heap \<Rightarrow> nat \<Rightarrow> nat list \<Rightarrow> val \<Rightarrow> val \<Rightarrow> bool result option" where
  "u_eq isEq h 0 = (\<lambda>stack a b. None)"
| "u_eq isEq h (Suc n) = eq_step isEq h (u_eq isEq h n)"

definition isEqual :: "(nat \<Rightarrow> val \<Rightarrow> val \<Rightarrow> bool result) \<Rightarrow> heap \<Rightarrow> val \<Rightarrow> val \<Rightarrow> bool result option" where
  "isEqual isEq h a b = u_eq isEq h (length h + 2) [] a b"

section \<open>Termination\<close>

lemma all_while_Some: "(\<And>x. x \<in> set xs \<Longrightarrow> \<exists>r. p x = Some r) \<Longrightarrow> \<exists>r. all_while p xs = Some r"
  by (induction xs) (auto split: option.splits sum.splits bool.splits)

lemma count_matches_Some: "\<exists>r'. r = Some r' \<Longrightarrow> \<exists>r'. count_matches r ca cb = Some r'"
  by (auto simp: count_matches_def split: option.splits sum.splits bool.splits)

lemma eq_elements_Some: "(\<And>v w. rec v w \<noteq> None) \<Longrightarrow> eq_elements rec xs ys \<noteq> None"
  unfolding eq_elements_def by (auto intro!: all_while_Some)

lemma eq_properties_Some:
  "(\<And>v w. own ca \<noteq> [] \<Longrightarrow> rec v w \<noteq> None) \<Longrightarrow> eq_properties rec ca cb \<noteq> None"
  unfolding eq_properties_def
  by (cases "own ca = []") (auto intro!: all_while_Some count_matches_Some split: option.split)

lemma eq_members_Some: "(\<And>v w. rec v w \<noteq> None) \<Longrightarrow> eq_members rec ca cb \<noteq> None"
  unfolding eq_members_def
  by (simp split: kind.split) (use eq_elements_Some eq_properties_Some in blast)

text \<open>The objects of the heap that are not on the stack bound the depth of the recursion.\<close>

definition unvisited :: "heap \<Rightarrow> nat list \<Rightarrow> nat" where
  "unvisited h stack = card ({..<length h} - set stack)"

lemma unvisited_push: "i < length h \<Longrightarrow> i \<notin> set stack \<Longrightarrow> unvisited h (i # stack) < unvisited h stack"
  unfolding unvisited_def by (rule psubset_card_mono) auto

lemma u_eq_fuel: "unvisited h stack + 1 < n \<Longrightarrow> u_eq isEq h n stack a b \<noteq> None"
proof (induction n arbitrary: stack a b)
  case (Suc n)
  have "eq_members (u_eq isEq h n (i # stack)) (cell_at h i) c \<noteq> None" if "i \<notin> set stack" for i c
  proof (cases "i < length h")
    case True
    from Suc.IH [of "i # stack"] unvisited_push [OF True that] Suc.prems show ?thesis
      by (intro eq_members_Some) simp
  next
    case False
    then have c: "kind (cell_at h i) = KObject" "own (cell_at h i) = []" by (simp_all add: cell_at_def)
    have "eq_properties (u_eq isEq h n (i # stack)) (cell_at h i) c \<noteq> None"
      by (rule eq_properties_Some) (simp add: c)
    with c show ?thesis by (simp add: eq_members_def)
  qed
  then show ?case
    unfolding u_eq.simps eq_step_def Let_def by (auto simp del: not_None_eq split: option.split val.split)
qed simp

text \<open>More fuel does not change an answer.\<close>

lemma all_while_mono:
  "(\<And>x r. p x = Some r \<Longrightarrow> q x = Some r) \<Longrightarrow> all_while p xs = Some r \<Longrightarrow> all_while q xs = Some r"
proof (induction xs)
  case (Cons x xs)
  from Cons.prems(2) obtain r' where "p x = Some r'" by (auto split: option.splits)
  moreover from this have "q x = Some r'" by (rule Cons.prems(1))
  ultimately show ?case using Cons by (auto split: sum.splits bool.splits)
qed simp

lemma count_matches_mono:
  "(\<And>r. x = Some r \<Longrightarrow> y = Some r) \<Longrightarrow> count_matches x ca cb = Some r \<Longrightarrow> count_matches y ca cb = Some r"
  by (cases x) (auto simp: count_matches_def)

lemma eq_members_mono:
  assumes "\<And>v w r. f v w = Some r \<Longrightarrow> g v w = Some r"
  shows "eq_members f ca cb = Some r \<Longrightarrow> eq_members g ca cb = Some r"
proof -
  have e: "eq_elements f xs ys = Some r \<Longrightarrow> eq_elements g xs ys = Some r" for xs ys r
    unfolding eq_elements_def using assms
    by (auto split: if_splits elim!: all_while_mono [rotated])
  have p: "eq_properties f ca cb = Some r \<Longrightarrow> eq_properties g ca cb = Some r" for r
  proof -
    let ?l = "\<lambda>f. all_while (\<lambda>(k, v). case obj_get (own cb) k of Some w \<Rightarrow> f v w | None \<Rightarrow> Some (Inr False)) (own ca)"
    have "?l f = Some r' \<Longrightarrow> ?l g = Some r'" for r'
      by (erule all_while_mono [rotated]) (auto split: option.splits intro: assms)
    then have "count_matches (?l f) ca cb = Some r \<Longrightarrow> count_matches (?l g) ca cb = Some r"
      by (rule count_matches_mono)
    then show "eq_properties f ca cb = Some r \<Longrightarrow> eq_properties g ca cb = Some r"
      unfolding eq_properties_def by (simp split: if_splits)
  qed
  show "eq_members f ca cb = Some r \<Longrightarrow> eq_members g ca cb = Some r"
    unfolding eq_members_def by (auto split: kind.splits intro: e p)
qed

lemma eq_step_mono:
  assumes "\<And>st v w r. f st v w = Some r \<Longrightarrow> g st v w = Some r"
  shows "eq_step isEq h f stack a b = Some r \<Longrightarrow> eq_step isEq h g stack a b = Some r"
proof -
  have m: "eq_members (f st) c d = Some r \<Longrightarrow> eq_members (g st) c d = Some r" for st c d r
    by (erule eq_members_mono [rotated]) (rule assms)
  show "eq_step isEq h f stack a b = Some r \<Longrightarrow> eq_step isEq h g stack a b = Some r"
    unfolding eq_step_def Let_def by (auto split: if_splits option.splits val.splits intro: m)
qed

lemma u_eq_Suc: "u_eq isEq h n stack a b = Some r \<Longrightarrow> u_eq isEq h (Suc n) stack a b = Some r"
proof (induction n arbitrary: stack a b r)
  case (Suc n)
  from Suc.prems show ?case
    unfolding u_eq.simps(2) [of isEq h n] u_eq.simps(2) [of isEq h "Suc n"]
    by (rule eq_step_mono [rotated]) (use Suc.IH in simp)
qed simp

lemma u_eq_more: "u_eq isEq h n stack a b = Some r \<Longrightarrow> n \<le> m \<Longrightarrow> u_eq isEq h m stack a b = Some r"
  by (induction m) (auto simp: le_Suc_eq simp del: u_eq.simps intro: u_eq_Suc)

section \<open>What the comparison means on data without cycles\<close>

text \<open>Equality of the structures below two values, as an inductive relation.\<close>

definition both_arrays :: "heap \<Rightarrow> val \<Rightarrow> val \<Rightarrow> bool" where
  "both_arrays h a b \<longleftrightarrow> (\<exists>xs ys. kind_of h a = KArray xs \<and> kind_of h b = KArray ys)"

inductive deep_eq :: "heap \<Rightarrow> val \<Rightarrow> val \<Rightarrow> bool" for h where
  de_same: "strict_eq a b \<Longrightarrow> same_zero a b \<Longrightarrow> deep_eq h a b"
| de_value: "class_of h a = class_of h b \<Longrightarrow> by_value (kind_of h a) (kind_of h b) = Some True \<Longrightarrow> deep_eq h a b"
| de_array: "kind_of h (Ref i) = KArray xs \<Longrightarrow> kind_of h (Ref j) = KArray ys \<Longrightarrow> length xs = length ys \<Longrightarrow>
    (\<And>k. k < length xs \<Longrightarrow> elem_in xs k = elem_in ys k) \<Longrightarrow>
    (\<And>k. k < length xs \<Longrightarrow> deep_eq h (elem_at xs k) (elem_at ys k)) \<Longrightarrow> deep_eq h (Ref i) (Ref j)"
| de_object: "class_of h (Ref i) = class_of h (Ref j) \<Longrightarrow> by_value (kind_of h (Ref i)) (kind_of h (Ref j)) = None \<Longrightarrow>
    \<not> both_arrays h (Ref i) (Ref j) \<Longrightarrow> ctor (cell_at h i) = ctor (cell_at h j) \<Longrightarrow>
    fst ` set (own (cell_at h i)) = fst ` set (own (cell_at h j)) \<Longrightarrow>
    (\<And>k v w. obj_get (own (cell_at h i)) k = Some v \<Longrightarrow> obj_get (own (cell_at h j)) k = Some w \<Longrightarrow> deep_eq h v w) \<Longrightarrow>
    deep_eq h (Ref i) (Ref j)"

inductive_simps deep_eq_iff: "deep_eq h a b"
inductive_simps deep_eq_Ref: "deep_eq h (Ref i) (Ref j)"

definition plain_heap :: "heap \<Rightarrow> bool" where
  "plain_heap h \<longleftrightarrow> (\<forall>c \<in> set h. chained c = None \<and> custom c = None \<and> distinct (map fst (own c)))"

text \<open>A rank that falls from an object to its parts: the data has no cycles.\<close>

definition parts :: "cell \<Rightarrow> val set" where
  "parts c = snd ` set (own c) \<union> (case kind c of KArray xs \<Rightarrow> {v. Some v \<in> set xs} | _ \<Rightarrow> {})"

definition ranked :: "heap \<Rightarrow> (nat \<Rightarrow> nat) \<Rightarrow> bool" where
  "ranked h rank \<longleftrightarrow> (\<forall>i < length h. \<forall>j. Ref j \<in> parts (h ! i) \<longrightarrow> rank j < rank i)"

definition depth :: "(nat \<Rightarrow> nat) \<Rightarrow> val \<Rightarrow> nat" where
  "depth rank v = (case v of Ref i \<Rightarrow> Suc (rank i) | _ \<Rightarrow> 0)"

lemma plain_cell:
  assumes "plain_heap h"
  shows "chained (cell_at h i) = None" "custom (cell_at h i) = None" "distinct (map fst (own (cell_at h i)))"
  using assms by (auto simp: plain_heap_def cell_at_def)

lemma plain_unchain: "plain_heap h \<Longrightarrow> unchain h v = v \<and> custom_of h v = None"
  by (auto simp: unchain_def custom_of_def plain_cell split: val.split)

lemma part_depth:
  assumes "ranked h rank" and "v \<in> parts (cell_at h i)"
  shows "depth rank v \<le> rank i"
proof -
  have i: "i < length h" and v: "v \<in> parts (h ! i)"
    using assms(2) by (auto simp: cell_at_def parts_def split: if_splits)
  with assms(1) show ?thesis by (cases v) (auto simp: ranked_def depth_def Suc_le_eq)
qed

lemma elem_part: "kind c = KArray xs \<Longrightarrow> elem_at xs k = Undef \<or> elem_at xs k \<in> parts c"
proof -
  assume c: "kind c = KArray xs"
  show ?thesis
  proof (cases "nth_opt xs k")
    case (Some e)
    then have "e \<in> set xs" by (auto simp: nth_opt_def split: if_splits)
    with Some c show ?thesis by (cases e) (auto simp: elem_at_def parts_def)
  qed (simp add: elem_at_def)
qed

lemma prop_part: "obj_get (own c) k = Some v \<Longrightarrow> v \<in> parts c"
  by (force simp: obj_get_def parts_def dest: map_of_SomeD)

lemma all_while_decides:
  "(\<And>x. x \<in> set xs \<Longrightarrow> p x = Some (Inr (Q x))) \<Longrightarrow> all_while p xs = Some (Inr (\<forall>x \<in> set xs. Q x))"
  by (induction xs) (auto split: bool.split)

lemma by_value_class: "by_value k l = Some r \<Longrightarrow> class_name k = class_name l"
  by (auto simp: by_value_def split: kind.splits)

lemma by_value_array: "by_value (KArray xs) l = None" "by_value k (KArray ys) = None"
  by (simp_all add: by_value_def split: kind.split)

lemma by_value_other [simp]: "by_value (KOther s) l = None" "by_value k (KOther s) = None"
  by (simp_all add: by_value_def split: kind.split)

lemma eq_elements_decides:
  assumes "\<And>k. k < length xs \<Longrightarrow> rec (elem_at xs k) (elem_at ys k) = Some (Inr (Q (elem_at xs k) (elem_at ys k)))"
  shows "eq_elements rec xs ys = Some (Inr (length xs = length ys \<and>
    (\<forall>k < length xs. elem_in xs k = elem_in ys k \<and> Q (elem_at xs k) (elem_at ys k))))"
proof (cases "length xs = length ys")
  case True
  have "all_while (\<lambda>k. if elem_in xs k = elem_in ys k then rec (elem_at xs k) (elem_at ys k) else Some (Inr False)) (rev [0..<length xs]) =
      Some (Inr (\<forall>k \<in> set (rev [0..<length xs]). elem_in xs k = elem_in ys k \<and> Q (elem_at xs k) (elem_at ys k)))"
    by (rule all_while_decides) (auto simp: assms)
  with True show ?thesis by (auto simp: eq_elements_def)
qed (simp add: eq_elements_def)

lemma obj_get_distinct: "distinct (map fst m) \<Longrightarrow> (k, v) \<in> set m \<longleftrightarrow> obj_get m k = Some v"
  by (simp add: obj_get_def)

lemma obj_get_dom: "obj_get m k = None \<longleftrightarrow> k \<notin> fst ` set m"
  by (simp add: obj_get_def map_of_eq_None_iff)

lemma count_matches_Inr:
  "count_matches (Some (Inr r)) ca cb = Some (Inr (r \<and> length (own ca) = length (own cb)))"
  by (cases r) (simp_all add: count_matches_def)

lemma eq_properties_decides:
  assumes d: "distinct (map fst (own ca))" "distinct (map fst (own cb))"
    and rec: "\<And>k v w. obj_get (own ca) k = Some v \<Longrightarrow> rec v w = Some (Inr (Q v w))"
  shows "eq_properties rec ca cb = Some (Inr (ctor ca = ctor cb \<and> fst ` set (own ca) = fst ` set (own cb) \<and>
    (\<forall>k v w. obj_get (own ca) k = Some v \<longrightarrow> obj_get (own cb) k = Some w \<longrightarrow> Q v w)))"
proof -
  let ?Q = "\<lambda>(k, v). case obj_get (own cb) k of Some w \<Rightarrow> Q v w | None \<Rightarrow> False"
  have a: "all_while (\<lambda>(k, v). case obj_get (own cb) k of Some w \<Rightarrow> rec v w | None \<Rightarrow> Some (Inr False)) (own ca) =
      Some (Inr (\<forall>x \<in> set (own ca). ?Q x))"
    by (rule all_while_decides) (use d rec in \<open>auto simp: obj_get_distinct split: option.split\<close>)
  have c: "length (own ca) = card (fst ` set (own ca))" "length (own cb) = card (fst ` set (own cb))"
    using d by (metis distinct_card length_map set_map)+
  have "(\<forall>x \<in> set (own ca). ?Q x) \<longleftrightarrow> fst ` set (own ca) \<subseteq> fst ` set (own cb) \<and>
      (\<forall>k v w. obj_get (own ca) k = Some v \<longrightarrow> obj_get (own cb) k = Some w \<longrightarrow> Q v w)"
    (is "?L \<longleftrightarrow> ?R")
  proof
    assume L: ?L
    have "k \<in> fst ` set (own cb)" if "(k, v) \<in> set (own ca)" for k v
      using L [rule_format, OF that] obj_get_dom [of "own cb" k] by (auto split: option.splits)
    moreover have "Q v w" if "obj_get (own ca) k = Some v" "obj_get (own cb) k = Some w" for k v w
      using L [rule_format, of "(k, v)"] that d by (simp add: obj_get_distinct)
    ultimately show ?R by auto
  next
    assume R: ?R
    show ?L
    proof
      fix x assume x: "x \<in> set (own ca)"
      obtain k v where kv: "x = (k, v)" by (cases x)
      then have g: "obj_get (own ca) k = Some v" using x d by (simp add: obj_get_distinct)
      have "k \<in> fst ` set (own cb)" using R x kv by force
      then obtain w where w: "obj_get (own cb) k = Some w" using obj_get_dom [of "own cb" k] by auto
      then have "Q v w" using R g by blast
      with w kv show "?Q x" by simp
    qed
  qed
  moreover have "eq_properties rec ca cb =
      Some (Inr (ctor ca = ctor cb \<and> (\<forall>x \<in> set (own ca). ?Q x) \<and> length (own ca) = length (own cb)))"
    unfolding eq_properties_def a count_matches_Inr by simp
  moreover have "A \<subseteq> B \<and> P \<and> card A = card B \<longleftrightarrow> A = B \<and> P" if "finite B" for A B :: "string set" and P
    using that card_subset_eq by blast
  ultimately show ?thesis unfolding c by simp
qed

lemma eq_step_values:
  assumes plain: "plain_heap h" and ns: "\<not> strict_eq a b"
    and v: "nullish a \<or> nullish b \<or> class_of h a \<noteq> class_of h b \<or> by_value (kind_of h a) (kind_of h b) \<noteq> None \<or>
      \<not> isObject a \<or> \<not> isObject b"
  shows "eq_step isEq h rec st a b = Some (Inr (deep_eq h a b))"
proof -
  have p: "unchain h w = w" "custom_of h w = None" for w using plain_unchain [OF plain] by auto
  show ?thesis
  proof (cases "nullish a \<or> nullish b")
    case True
    then have "\<not> deep_eq h a b" using ns by (auto simp: deep_eq_iff [of h a b] nullish_def same_zero_def)
    with True ns show ?thesis by (auto simp: eq_step_def)
  next
    case nn: False
    show ?thesis
    proof (cases "class_of h a = class_of h b")
      case False
      then have "\<not> deep_eq h a b" using ns by (auto simp: deep_eq_iff [of h a b] class_of_def)
      with False nn ns p show ?thesis by (simp add: eq_step_def)
    next
      case True
      show ?thesis
      proof (cases "by_value (kind_of h a) (kind_of h b)")
        case (Some r)
        then have "deep_eq h a b = r" using ns True
          by (auto simp: deep_eq_iff [of h a b] by_value_array)
        with Some True nn ns p show ?thesis by (simp add: eq_step_def)
      next
        case None
        with v nn True have o: "\<not> isObject a \<or> \<not> isObject b" by simp
        then have "\<not> deep_eq h a b" using ns None by (auto simp: deep_eq_iff [of h a b] isObject_def)
        with None True nn ns p o show ?thesis
          by (simp add: eq_step_def isObject_def split: val.splits)
      qed
    qed
  qed
qed

lemma deep_eq_array:
  assumes "i \<noteq> j" and "kind_of h (Ref i) = KArray xs" and "kind_of h (Ref j) = KArray ys"
  shows "deep_eq h (Ref i) (Ref j) \<longleftrightarrow> length xs = length ys \<and>
    (\<forall>k < length xs. elem_in xs k = elem_in ys k \<and> deep_eq h (elem_at xs k) (elem_at ys k))"
  using assms by (auto simp: deep_eq_iff [of h "Ref i" "Ref j"] by_value_array both_arrays_def)

lemma deep_eq_object:
  assumes "i \<noteq> j" and "class_of h (Ref i) = class_of h (Ref j)"
    and "by_value (kind_of h (Ref i)) (kind_of h (Ref j)) = None" and "\<not> both_arrays h (Ref i) (Ref j)"
  shows "deep_eq h (Ref i) (Ref j) \<longleftrightarrow> ctor (cell_at h i) = ctor (cell_at h j) \<and>
    fst ` set (own (cell_at h i)) = fst ` set (own (cell_at h j)) \<and>
    (\<forall>k v w. obj_get (own (cell_at h i)) k = Some v \<longrightarrow> obj_get (own (cell_at h j)) k = Some w \<longrightarrow> deep_eq h v w)"
  using assms by (auto simp: deep_eq_iff [of h "Ref i" "Ref j"] both_arrays_def)

lemma eq_step_refs:
  assumes plain: "plain_heap h" and ne: "i \<noteq> j" and st: "i \<notin> set st"
    and c: "class_of h (Ref i) = class_of h (Ref j)" and bv: "by_value (kind_of h (Ref i)) (kind_of h (Ref j)) = None"
    and rec: "\<And>v w. v = Undef \<or> v \<in> parts (cell_at h i) \<Longrightarrow> rec (i # st) v w = Some (Inr (deep_eq h v w))"
  shows "eq_step isEq h rec st (Ref i) (Ref j) = Some (Inr (deep_eq h (Ref i) (Ref j)))"
proof -
  have p: "unchain h w = w" "custom_of h w = None" for w using plain_unchain [OF plain] by auto
  have m: "eq_step isEq h rec st (Ref i) (Ref j) = eq_members (rec (i # st)) (cell_at h i) (cell_at h j)"
    using ne st c bv p by (simp add: eq_step_def nullish_def)
  show ?thesis
  proof (cases "both_arrays h (Ref i) (Ref j)")
    case True
    then obtain xs ys where k: "kind_of h (Ref i) = KArray xs" "kind_of h (Ref j) = KArray ys"
      by (auto simp: both_arrays_def)
    have "eq_elements (rec (i # st)) xs ys = Some (Inr (length xs = length ys \<and>
        (\<forall>k < length xs. elem_in xs k = elem_in ys k \<and> deep_eq h (elem_at xs k) (elem_at ys k))))"
      by (rule eq_elements_decides, rule rec) (use elem_part k in auto)
    with m k show ?thesis unfolding deep_eq_array [OF ne k] by (simp add: eq_members_def)
  next
    case False
    have "eq_properties (rec (i # st)) (cell_at h i) (cell_at h j) = Some (Inr (deep_eq h (Ref i) (Ref j)))"
      unfolding deep_eq_object [OF ne c bv False]
      by (rule eq_properties_decides) (use plain_cell [OF plain] rec prop_part in auto)
    moreover have "eq_members (rec (i # st)) (cell_at h i) (cell_at h j) =
        eq_properties (rec (i # st)) (cell_at h i) (cell_at h j)"
      using False by (auto simp: eq_members_def both_arrays_def split: kind.splits)
    ultimately show ?thesis using m by simp
  qed
qed

lemma u_eq_ranked:
  assumes plain: "plain_heap h" and r: "ranked h rank"
  shows "depth rank a < n \<Longrightarrow> \<forall>k \<in> set st. depth rank a \<le> rank k \<Longrightarrow>
    u_eq isEq h n st a b = Some (Inr (deep_eq h a b))"
proof (induction n arbitrary: a b st)
  case (Suc n)
  show ?case
  proof (cases "strict_eq a b")
    case True
    have "deep_eq h a b = same_zero a b"
    proof (cases "same_zero a b")
      case True
      with \<open>strict_eq a b\<close> show ?thesis by (simp add: de_same)
    next
      case False
      then obtain x y where xy: "a = Num x" "b = Num y" by (auto simp: same_zero_def split: val.splits)
      have "\<not> egal x y" using False xy \<open>strict_eq a b\<close> by (auto simp: same_zero_def egal_def)
      with False xy show ?thesis by (simp add: deep_eq_iff [of h "Num x" "Num y"] by_value_def)
    qed
    with True show ?thesis by (simp add: eq_step_def)
  next
    case ns: False
    show ?thesis
    proof (cases "nullish a \<or> nullish b \<or> class_of h a \<noteq> class_of h b \<or>
        by_value (kind_of h a) (kind_of h b) \<noteq> None \<or> \<not> isObject a \<or> \<not> isObject b")
      case True
      show ?thesis unfolding u_eq.simps by (rule eq_step_values [OF plain ns True])
    next
      case False
      then obtain i j where ij: "a = Ref i" "b = Ref j" by (auto simp: isObject_def split: val.splits)
      have rec: "u_eq isEq h n (i # st) v w = Some (Inr (deep_eq h v w))"
        if "v = Undef \<or> v \<in> parts (cell_at h i)" for v w
      proof -
        have d: "depth rank v \<le> rank i" using that part_depth [OF r] by (auto simp: depth_def)
        with Suc.prems ij show ?thesis by (intro Suc.IH) (auto simp: depth_def)
      qed
      show ?thesis unfolding u_eq.simps ij
        by (rule eq_step_refs [OF plain]) (use False ns ij Suc.prems(2) rec in \<open>auto simp: depth_def\<close>)
    qed
  qed
qed simp

lemma isEqual_total: "\<exists>r. isEqual isEq h a b = Some r"
proof -
  have "unvisited h [] = length h" by (simp add: unvisited_def)
  then have "isEqual isEq h a b \<noteq> None" unfolding isEqual_def by (intro u_eq_fuel) simp
  then show ?thesis by blast
qed

section \<open>Properties\<close>

text \<open>
  C32: \<open>isEqual\<close> ends on every pair of values, cyclic or not: a recursion one deeper than the heap has
  objects is enough, and more does not change the answer.
\<close>

theorem isEqual_terminates:
  "isEqual isEq h a b \<noteq> None \<and> u_eq isEq h (length h + 2 + k) [] a b = isEqual isEq h a b"
proof -
  obtain r where "isEqual isEq h a b = Some r" using isEqual_total by blast
  moreover from this have "u_eq isEq h (length h + 2 + k) [] a b = Some r"
    unfolding isEqual_def by (rule u_eq_more) simp
  ultimately show ?thesis by simp
qed

text \<open>
  C17: on data without cycles, custom methods and chained wrappers \<open>isEqual\<close> decides deep equality:
  equal values, arrays with equal elements and holes, objects of one constructor with the same
  properties.
\<close>

theorem isEqual_deep:
  assumes "plain_heap h" and "ranked h rank"
  shows "isEqual isEq h a b = Some (Inr (deep_eq h a b))"
proof -
  obtain r where r: "isEqual isEq h a b = Some r" using isEqual_total by blast
  let ?n = "max (length h + 2) (Suc (depth rank a))"
  have "u_eq isEq h ?n [] a b = Some r"
    using r unfolding isEqual_def by (rule u_eq_more) simp
  moreover have "u_eq isEq h ?n [] a b = Some (Inr (deep_eq h a b))"
    by (rule u_eq_ranked [OF assms]) auto
  ultimately show ?thesis using r by simp
qed

text \<open>A heap for the witness: \<open>{x: [1, 2]}\<close> twice.\<close>

definition plain_cell_of :: "kind \<Rightarrow> (string \<times> val) list \<Rightarrow> cell" where
  "plain_cell_of k ps = \<lparr>kind = k, own = ps, ctor = None, chained = None, custom = None\<rparr>"

definition twin_heap :: heap where
  "twin_heap =
     [plain_cell_of KObject [(''x'', Ref 1)], plain_cell_of (KArray [Some (Num (Whole 1)), Some (Num (Whole 2))]) [],
      plain_cell_of KObject [(''x'', Ref 3)], plain_cell_of (KArray [Some (Num (Whole 1)), Some (Num (Whole 2))]) []]"

theorem isEqual_deep_witness:
  "isEqual (\<lambda>f a b. Inr False) twin_heap (Ref 0) (Ref 2) = Some (Inr (deep_eq twin_heap (Ref 0) (Ref 2)))"
proof (rule isEqual_deep)
  show "plain_heap twin_heap" by (simp add: plain_heap_def twin_heap_def plain_cell_of_def)
  show "ranked twin_heap (\<lambda>i. 4 - i)"
    by (auto simp: ranked_def twin_heap_def plain_cell_of_def parts_def less_Suc_eq_0_disj numeral_eq_Suc nth_Cons')
qed

definition cyclic_heap :: heap where
  "cyclic_heap =
     [plain_cell_of KObject [(''x'', Ref 0)], plain_cell_of KObject [(''x'', Ref 2)],
      plain_cell_of KObject [(''x'', Num (Whole 1))]]"

text \<open>
  On cyclic data the comparison is not symmetric: an object whose property \<open>x\<close> is the object
  itself compares equal to \<open>{x: {x: 1}}\<close>, but not the other way round.
\<close>

theorem isEqual_cyclic_asymmetric:
  "isEqual isEq cyclic_heap (Ref 0) (Ref 1) = Some (Inr True) \<and>
   isEqual isEq cyclic_heap (Ref 1) (Ref 0) = Some (Inr False)"
  by (simp add: isEqual_def cyclic_heap_def by_value_def plain_cell_of_def eq_step_def eq_members_def eq_properties_def
      count_matches_def unchain_def custom_of_def cell_at_def class_of_def nullish_def obj_get_def numeral_eq_Suc)

end
