(* ===== verification/U_Objects.thy ===== *)
theory U_Objects
  imports U_Equal "HOL-Library.List_Lexorder"
begin

text \<open>
  The functions of \<open>underscore-1.3.1.js\<close> on the properties of objects, the small utilities, and the
  wrapper that chains calls. An object is the list of its own enumerable properties with the list
  of those it inherits. Names other than \<open>__proto__\<close> are meant, whose assignment is special.
\<close>

section \<open>keys, values, functions\<close>

record 'v props =
  owned :: "(string, 'v) jsobj"
  inherited :: "(string, 'v) jsobj"

definition prop_get :: "'v props \<Rightarrow> string \<Rightarrow> 'v option" where
  "prop_get p k = (case obj_get (owned p) k of Some v \<Rightarrow> Some v | None \<Rightarrow> obj_get (inherited p) k)"

definition prop_put :: "string \<Rightarrow> 'v \<Rightarrow> 'v props \<Rightarrow> 'v props" where
  "prop_put k v p = p\<lparr>owned := obj_put k v (owned p)\<rparr>"

definition has :: "'v props \<Rightarrow> string \<Rightarrow> bool" where
  "has p k \<longleftrightarrow> obj_get (owned p) k \<noteq> None"

text \<open>The names \<open>for .. in\<close> visits: the own ones first, each name once.\<close>

definition enum_names :: "'v props \<Rightarrow> string list" where
  "enum_names p = obj_keys (owned p) @ filter (\<lambda>k. k \<notin> set (obj_keys (owned p))) (remdups (obj_keys (inherited p)))"

text \<open>A value that is no object has no keys.\<close>

definition u_keys :: "'v props option \<Rightarrow> string list result" where
  "u_keys obj =
     (case obj of None \<Rightarrow> Inl TypeError | Some p \<Rightarrow> Inr (filter (has p) (enum_names p)))"

definition u_values :: "'v coll \<Rightarrow> 'v option list" where
  "u_values c = fst (u_map (\<lambda>v i s. (v, s)) c ())"

definition u_functions :: "('v \<Rightarrow> bool) \<Rightarrow> 'v props \<Rightarrow> string list" where
  "u_functions is_function p =
     sort (filter (\<lambda>k. case prop_get p k of Some v \<Rightarrow> is_function v | None \<Rightarrow> False) (enum_names p))"

text \<open>\<open>bindAll\<close>: \<open>bind\<close> answers the bound function, or the error for what is not a function.\<close>

definition bindAll ::
    "('v \<Rightarrow> bool) \<Rightarrow> ('v option \<Rightarrow> 'v result) \<Rightarrow> 'v props \<Rightarrow> string list \<Rightarrow> 'v props result" where
  "bindAll is_function bind p names =
     (let funcs = (if names = [] then u_functions is_function p else names)
      in foldl (\<lambda>r f. bind_result r (\<lambda>q. bind_result (bind (prop_get q f)) (\<lambda>g. Inr (prop_put f g q))))
           (Inr p) funcs)"

section \<open>extend, defaults\<close>

text \<open>The sources are what \<open>for .. in\<close> visits in them.\<close>

definition u_extend :: "(string, 'v) jsobj \<Rightarrow> (string \<times> 'v) list list \<Rightarrow> (string, 'v) jsobj" where
  "u_extend obj sources = foldl (foldl (\<lambda>o' (k, v). obj_put k v o')) obj sources"

text \<open>\<open>obj[prop] == null\<close> also reads inherited properties; \<open>inh\<close> names those that are not null.\<close>

definition default_step ::
    "string set \<Rightarrow> ('v \<Rightarrow> bool) \<Rightarrow> (string, 'v) jsobj \<Rightarrow> string \<times> 'v \<Rightarrow> (string, 'v) jsobj" where
  "default_step inh null obj kv =
     (case obj_get obj (fst kv) of
        Some w \<Rightarrow> if null w then obj_put (fst kv) (snd kv) obj else obj
      | None \<Rightarrow> if fst kv \<in> inh then obj else obj_put (fst kv) (snd kv) obj)"

definition defaults ::
    "string set \<Rightarrow> ('v \<Rightarrow> bool) \<Rightarrow> (string, 'v) jsobj \<Rightarrow> (string \<times> 'v) list list \<Rightarrow> (string, 'v) jsobj" where
  "defaults inh null obj sources = foldl (foldl (default_step inh null)) obj sources"

lemma foldl_concat: "foldl (foldl f) s xss = foldl f s (concat xss)"
  by (induction xss arbitrary: s) auto

lemma extend_get:
  "obj_get (foldl (\<lambda>o' (k, v). obj_put k v o') obj kvs) k =
     (if values_at k kvs = [] then obj_get obj k else Some (last (values_at k kvs)))"
  by (induction kvs arbitrary: obj) (auto simp: js_obj)

lemma defaults_kept:
  "obj_get obj k = Some w \<Longrightarrow> \<not> null w \<Longrightarrow> obj_get (foldl (default_step inh null) obj kvs) k = Some w"
proof (induction kvs arbitrary: obj)
  case (Cons kv kvs)
  have "obj_get (default_step inh null obj kv) k = Some w"
    using Cons.prems by (auto simp: default_step_def js_obj split: option.split)
  with Cons show ?case by simp
qed simp

lemma defaults_inherited:
  "obj_get obj k = None \<Longrightarrow> k \<in> inh \<Longrightarrow> obj_get (foldl (default_step inh null) obj kvs) k = None"
proof (induction kvs arbitrary: obj)
  case (Cons kv kvs)
  have "obj_get (default_step inh null obj kv) k = None"
    using Cons.prems by (auto simp: default_step_def js_obj split: option.split)
  with Cons show ?case by simp
qed simp

lemma default_step_get:
  "obj_get (default_step inh null obj kv) k =
     (if k = fst kv \<and> (case obj_get obj k of Some w \<Rightarrow> null w | None \<Rightarrow> k \<notin> inh) then Some (snd kv) else obj_get obj k)"
  by (auto simp: default_step_def js_obj split: option.split)

lemma defaults_filled:
  "(case obj_get obj k of Some w \<Rightarrow> null w | None \<Rightarrow> k \<notin> inh) \<Longrightarrow>
   List.find (\<lambda>v. \<not> null v) (values_at k kvs) = Some v \<Longrightarrow>
   obj_get (foldl (default_step inh null) obj kvs) k = Some v"
proof (induction kvs arbitrary: obj)
  case (Cons kv kvs)
  show ?case
  proof (cases "fst kv = k")
    case False
    then have "obj_get (default_step inh null obj kv) k = obj_get obj k" by (simp add: default_step_get)
    with False Cons.prems Cons.IH [of "default_step inh null obj kv"] show ?thesis by simp
  next
    case True
    with Cons.prems(1) have g: "obj_get (default_step inh null obj kv) k = Some (snd kv)"
      by (simp add: default_step_get)
    show ?thesis
    proof (cases "null (snd kv)")
      case False
      have "v = snd kv" using False True Cons.prems(2) by simp
      with defaults_kept [OF g] False show ?thesis by simp
    next
      case null: True
      with True Cons.prems(2) have "List.find (\<lambda>v. \<not> null v) (values_at k kvs) = Some v" by simp
      with Cons.IH [of "default_step inh null obj kv"] g null show ?thesis by simp
    qed
  qed
qed simp

section \<open>clone, isEmpty\<close>

text \<open>
  A clone is a new cell at the end of the heap; \<open>object_ctor\<close> is the function \<open>Object\<close>. The
  properties an object inherits are not modelled in the heap.
\<close>

definition clone :: "nat \<Rightarrow> heap \<Rightarrow> val \<Rightarrow> heap \<times> val" where
  "clone object_ctor h v =
     (case v of
        Ref i \<Rightarrow>
          (case kind (cell_at h i) of
             KArray xs \<Rightarrow> (h @ [(cell_at h i)\<lparr>kind := KArray xs, own := [], chained := None, custom := None\<rparr>], Ref (length h))
           | _ \<Rightarrow>
             (h @ [\<lparr>kind = KObject, own = u_extend [] [own (cell_at h i)], ctor = Some object_ctor,
                    chained = None, custom = None\<rparr>], Ref (length h)))
      | _ \<Rightarrow> (h, v))"

definition isEmpty :: "heap \<Rightarrow> val \<Rightarrow> bool" where
  "isEmpty h v =
     (case kind_of h v of
        KArray xs \<Rightarrow> length xs = 0
      | KString s \<Rightarrow> length s = 0
      | _ \<Rightarrow> (case v of Ref i \<Rightarrow> own (cell_at h i) = [] | _ \<Rightarrow> True))"

section \<open>times, uniqueId, escape\<close>

fun times_from :: "nat \<Rightarrow> nat \<Rightarrow> (nat \<Rightarrow> 's \<Rightarrow> 's) \<Rightarrow> 's \<Rightarrow> 's" where
  "times_from i 0 iterator s = s"
| "times_from i (Suc n) iterator s = times_from (Suc i) n iterator (iterator i s)"

definition u_times :: "int \<Rightarrow> (nat \<Rightarrow> 's \<Rightarrow> 's) \<Rightarrow> 's \<Rightarrow> 's" where
  "u_times n iterator s = times_from 0 (nat n) iterator s"

datatype unique_id = IdNumber nat | IdString string

definition uniqueId :: "string option \<Rightarrow> nat \<Rightarrow> unique_id \<times> nat" where
  "uniqueId pre idCounter =
     (case pre of
        None \<Rightarrow> (IdNumber idCounter, idCounter + 1)
      | Some p \<Rightarrow> if p = '''' then (IdNumber idCounter, idCounter + 1)
                  else (IdString (p @ show_nat idCounter), idCounter + 1))"

definition number_of :: "string \<Rightarrow> nat" where
  "number_of s = foldl (\<lambda>a c. 10 * a + (code c - 48)) 0 s"

lemma number_of_show: "number_of (show_nat n) = n"
proof (induction n rule: show_nat.induct)
  case (1 n)
  show ?case
  proof (cases "n < 10")
    case True
    then show ?thesis by (subst show_nat.simps) (simp add: number_of_def code_char_of)
  next
    case False
    with 1 show ?thesis by (subst show_nat.simps) (simp add: number_of_def code_char_of)
  qed
qed

lemma show_nat_small: "show_nat (Suc 0) = ''1''" "show_nat 11 = ''11''"
  by code_simp+

lemma show_nat_inj: "show_nat m = show_nat n \<longleftrightarrow> m = n"
  by (metis number_of_show)

text \<open>\<open>s.replace(/c/g, r)\<close> for a single character.\<close>

definition replace_char :: "char \<Rightarrow> string \<Rightarrow> string \<Rightarrow> string" where
  "replace_char c r s = concat (map (\<lambda>x. if x = c then r else [x]) s)"

definition escape :: "string \<Rightarrow> string" where
  "escape s =
     replace_char (CHR ''/'') ''&#x2F;''
      (replace_char (CHR 0x27) ''&#x27;''
       (replace_char (CHR 0x22) ''&quot;''
        (replace_char (CHR ''>'') ''&gt;''
         (replace_char (CHR ''<'') ''&lt;''
          (replace_char (CHR ''&'') ''&amp;'' s)))))"

text \<open>What is inserted for each character of the text.\<close>

definition escape_char :: "char \<Rightarrow> string" where
  "escape_char c =
     (if c = CHR ''&'' then ''&amp;'' else if c = CHR ''<'' then ''&lt;'' else if c = CHR ''>'' then ''&gt;''
      else if c = CHR 0x22 then ''&quot;'' else if c = CHR 0x27 then ''&#x27;''
      else if c = CHR ''/'' then ''&#x2F;'' else [c])"

lemma replace_char_concat:
  "replace_char c r (concat (map f s)) = concat (map (\<lambda>x. replace_char c r (f x)) s)"
  by (induction s) (auto simp: replace_char_def)

lemma escape_chars: "escape s = concat (map escape_char s)"
proof -
  have "escape s = concat (map (\<lambda>x. replace_char (CHR ''/'') ''&#x2F;''
      (replace_char (CHR 0x27) ''&#x27;'' (replace_char (CHR 0x22) ''&quot;''
        (replace_char (CHR ''>'') ''&gt;'' (replace_char (CHR ''<'') ''&lt;''
          (if x = CHR ''&'' then ''&amp;'' else [x])))))) s)"
    unfolding escape_def by (simp only: replace_char_concat replace_char_def [of "CHR ''&''"])
  also have "\<dots> = concat (map escape_char s)"
    by (rule arg_cong [of _ _ concat], rule map_cong [OF refl]) (simp add: escape_char_def replace_char_def)
  finally show ?thesis .
qed

text \<open>Reading the text back: the five entities and the character references of \<open>escape\<close>.\<close>

definition entities :: "(string \<times> char) list" where
  "entities = [(''&amp;'', CHR ''&''), (''&lt;'', CHR ''<''), (''&gt;'', CHR ''>''), (''&quot;'', CHR 0x22),
     (''&#x27;'', CHR 0x27), (''&#x2F;'', CHR ''/'')]"

definition entity_at :: "string \<Rightarrow> (string \<times> char) option" where
  "entity_at s = List.find (\<lambda>(e, c). take (length e) s = e) entities"

function decode :: "string \<Rightarrow> string" where
  "decode [] = []"
| "decode (c # s) =
     (case entity_at (c # s) of
        Some (e, d) \<Rightarrow> d # decode (drop (length e - 1) s)
      | None \<Rightarrow> c # decode s)"
  by pat_completeness auto
termination by (relation "measure length") auto

lemma decode_escape_char: "decode (escape_char c @ s) = c # decode s"
  by (auto simp: escape_char_def entity_at_def entities_def)

section \<open>The wrapper\<close>

text \<open>
  A wrapped value and whether its calls are chained; a function of the library answers a plain
  value or, chained, a new wrapper.
\<close>

record 'v wrapper =
  wrapped :: 'v
  chain_on :: bool

datatype 'v answer = Value 'v | Wrapped "'v wrapper"

definition wrap_value :: "'v \<Rightarrow> 'v wrapper" where
  "wrap_value obj = \<lparr>wrapped = obj, chain_on = False\<rparr>"

definition chain :: "'v wrapper \<Rightarrow> 'v wrapper" where
  "chain w = w\<lparr>chain_on := True\<rparr>"

definition result_of :: "'v \<Rightarrow> bool \<Rightarrow> 'v answer" where
  "result_of obj on = (if on then Wrapped (chain (wrap_value obj)) else Value obj)"

definition wrapper_call :: "('v list \<Rightarrow> 'v) \<Rightarrow> 'v wrapper \<Rightarrow> 'v list \<Rightarrow> 'v answer" where
  "wrapper_call func w args = result_of (func (wrapped w # args)) (chain_on w)"

definition wrapper_value :: "'v wrapper \<Rightarrow> 'v" where
  "wrapper_value w = wrapped w"

text \<open>A call on what the call before answered; a plain value has no such method.\<close>

fun call_on :: "'v answer \<Rightarrow> ('v list \<Rightarrow> 'v) \<times> 'v list \<Rightarrow> 'v answer option" where
  "call_on (Wrapped w) (func, args) = Some (wrapper_call func w args)"
| "call_on (Value v) (func, args) = None"

fun call_all :: "'v answer \<Rightarrow> (('v list \<Rightarrow> 'v) \<times> 'v list) list \<Rightarrow> 'v answer option" where
  "call_all a [] = Some a"
| "call_all a (c # cs) = (case call_on a c of None \<Rightarrow> None | Some a' \<Rightarrow> call_all a' cs)"

text \<open>\<open>_.chain\<close>, and \<open>mixin\<close>: the functions of an object become functions and methods of the library.\<close>

definition u_chain :: "'v \<Rightarrow> 'v answer" where
  "u_chain obj = Wrapped (chain (wrap_value obj))"

definition mixin :: "('v \<Rightarrow> bool) \<Rightarrow> 'v props \<Rightarrow> (string, 'v) jsobj \<times> (string, 'v) jsobj \<Rightarrow>
    (string, 'v) jsobj \<times> (string, 'v) jsobj" where
  "mixin is_function obj lib =
     foldl (\<lambda>(u, proto) name. case prop_get obj name of
              Some f \<Rightarrow> (obj_put name f u, obj_put name f proto)
            | None \<Rightarrow> (u, proto)) lib (u_functions is_function obj)"

text \<open>
  The array methods that change the wrapped array, with the standard's clamping of positions;
  \<open>cmp\<close> is the comparison \<open>sort\<close> is given.
\<close>

datatype 'v mutator =
    Pop | Push "'v list" | Reverse | Shift | Sort "'v \<Rightarrow> 'v \<Rightarrow> int" | Splice int int "'v list" | Unshift "'v list"

fun mutate :: "'v mutator \<Rightarrow> 'v list \<Rightarrow> 'v list" where
  "mutate Pop xs = butlast xs"
| "mutate (Push vs) xs = xs @ vs"
| "mutate Reverse xs = rev xs"
| "mutate Shift xs = tl xs"
| "mutate (Sort cmp) xs = sort_cmp cmp xs"
| "mutate (Splice start n vs) xs =
     (let a = min (from_end xs start) (length xs); m = min (nat n) (length xs - a)
      in take a xs @ vs @ drop (a + m) xs)"
| "mutate (Unshift vs) xs = vs @ xs"

text \<open>The wrapper answers the array itself, changed; deleting element 0 of an empty array is no change.\<close>

definition mutator_call :: "'v mutator \<Rightarrow> 'v list wrapper \<Rightarrow> 'v list wrapper \<times> 'v list answer" where
  "mutator_call m w =
     (let xs = mutate m (wrapped w) in (w\<lparr>wrapped := xs\<rparr>, result_of xs (chain_on w)))"

definition accessor_call :: "('v \<Rightarrow> 'a list \<Rightarrow> 'v) \<Rightarrow> 'v wrapper \<Rightarrow> 'a list \<Rightarrow> 'v answer" where
  "accessor_call method w args = result_of (method (wrapped w) args) (chain_on w)"

section \<open>Properties\<close>

text \<open>
  \<open>escape\<close> leaves no character that is special in HTML text or in a quoted attribute, and
  reading its output back gives the text.
\<close>

theorem escape_roundtrip:
  "decode (escape s) = s \<and> set (escape s) \<inter> {CHR ''<'', CHR ''>'', CHR 0x22, CHR 0x27, CHR ''/''} = {}"
proof
  show "decode (escape s) = s"
    unfolding escape_chars by (induction s) (simp_all add: decode_escape_char)
  have "set (escape_char c) \<inter> {CHR ''<'', CHR ''>'', CHR 0x22, CHR 0x27, CHR ''/''} = {}" for c
    by (auto simp: escape_char_def)
  then show "set (escape s) \<inter> {CHR ''<'', CHR ''>'', CHR 0x22, CHR 0x27, CHR ''/''} = {}"
    unfolding escape_chars by auto
qed

text \<open>
  After \<open>extend\<close> a property has the value of the last source that has it. \<open>defaults\<close> keeps what
  is neither missing nor null and takes the first value that is not null for the others, except
  that a name the object inherits is never filled in.
\<close>

theorem extend_defaults:
  "obj_get (u_extend obj sources) k =
     (if values_at k (concat sources) = [] then obj_get obj k else Some (last (values_at k (concat sources)))) \<and>
   (case obj_get obj k of
      Some w \<Rightarrow> \<not> null w \<longrightarrow> obj_get (defaults inh null obj sources) k = Some w
    | None \<Rightarrow> k \<in> inh \<longrightarrow> obj_get (defaults inh null obj sources) k = None) \<and>
   ((case obj_get obj k of Some w \<Rightarrow> null w | None \<Rightarrow> k \<notin> inh) \<longrightarrow>
      (\<forall>v. List.find (\<lambda>v. \<not> null v) (values_at k (concat sources)) = Some v \<longrightarrow>
         obj_get (defaults inh null obj sources) k = Some v))"
  unfolding u_extend_def defaults_def foldl_concat
  by (intro conjI extend_get impI allI defaults_filled) (auto simp: defaults_kept defaults_inherited split: option.split)

theorem extend_defaults_witness:
  "obj_get (defaults {''toString''} (\<lambda>v. v = None) [(''a'', None), (''b'', Some (1::int))]
     [[(''a'', Some 5), (''b'', Some 6), (''toString'', Some 7)]]) ''a'' = Some (Some 5) \<and>
   obj_get (defaults {''toString''} (\<lambda>v. v = None) [(''a'', None), (''b'', Some (1::int))]
     [[(''a'', Some 5), (''b'', Some 6), (''toString'', Some 7)]]) ''b'' = Some (Some 1)"
  using extend_defaults [of "[(''a'', None), (''b'', Some (1::int))]"
      "[[(''a'', Some 5), (''b'', Some 6), (''toString'', Some 7)]]" "''a''" "{''toString''}" "\<lambda>v. v = None"]
    extend_defaults [of "[(''a'', None), (''b'', Some (1::int))]"
      "[[(''a'', Some 5), (''b'', Some 6), (''toString'', Some 7)]]" "''b''" "{''toString''}" "\<lambda>v. v = None"]
  by (simp add: obj_get_def)

text \<open>
  A chain of calls on a wrapper passes each result on as the first argument of the next call and
  ends in a wrapper of the last result; without \<open>chain\<close> the first call answers a plain value.
\<close>

theorem chain_composes:
  "call_all (u_chain x) calls =
     Some (u_chain (foldl (\<lambda>v (func, args). func (v # args)) x calls)) \<and>
   wrapper_call func (wrap_value x) args = Value (func (x # args))"
proof
  show "call_all (u_chain x) calls = Some (u_chain (foldl (\<lambda>v (func, args). func (v # args)) x calls))"
    by (induction calls arbitrary: x)
      (auto simp: u_chain_def wrapper_call_def result_of_def chain_def wrap_value_def)
qed (simp add: wrapper_call_def result_of_def wrap_value_def)

text \<open>
  Two calls of \<open>uniqueId\<close> with one prefix never answer the same id, but calls with different
  prefixes can.
\<close>

theorem uniqueId_unique_per_prefix:
  "(m \<noteq> n \<longrightarrow> fst (uniqueId pre m) \<noteq> fst (uniqueId pre n)) \<and>
   fst (uniqueId (Some ''a1'') 1) = fst (uniqueId (Some ''a'') 11)"
proof
  show "m \<noteq> n \<longrightarrow> fst (uniqueId pre m) \<noteq> fst (uniqueId pre n)"
    by (auto simp: uniqueId_def show_nat_inj split: option.split)
  show "fst (uniqueId (Some ''a1'') 1) = fst (uniqueId (Some ''a'') 11)"
    by (simp add: uniqueId_def show_nat_small)
qed

theorem uniqueId_unique_per_prefix_witness:
  "fst (uniqueId (Some ''x'') 3) \<noteq> fst (uniqueId (Some ''x'') 12)"
  using uniqueId_unique_per_prefix [of 3 12 "Some ''x''"] by simp

end
