(* ===== verification/U_Template.thy ===== *)
theory U_Template
  imports JS_Regex U_Functions
begin

text \<open>
  \<open>_.template\<close> of \<open>underscore-1.3.1.js\<close>: the source text of the function a template is compiled
  to. Running that text needs the compiler of the language; what is modelled is how the text is
  put together.
\<close>

section \<open>Replacing character by character\<close>

definition subst_char :: "char \<Rightarrow> string \<Rightarrow> string \<Rightarrow> string" where
  "subst_char c r s = concat (map (\<lambda>x. if x = c then r else [x]) s)"

text \<open>\<open>s.replace(/ab/g, r)\<close> for two characters.\<close>

fun subst_pair :: "char \<Rightarrow> char \<Rightarrow> string \<Rightarrow> string \<Rightarrow> string" where
  "subst_pair a b r (x # y # s) =
     (if x = a \<and> y = b then r @ subst_pair a b r s else x # subst_pair a b r (y # s))"
| "subst_pair a b r s = s"

definition unescape :: "string \<Rightarrow> string" where
  "unescape text =
     subst_pair (CHR 0x5C) (CHR 0x27) [CHR 0x27]
      (subst_pair (CHR 0x5C) (CHR 0x5C) [CHR 0x5C] text)"

definition quote_text :: "string \<Rightarrow> string" where
  "quote_text s = subst_char (CHR 0x27) [CHR 0x5C, CHR 0x27] (subst_char (CHR 0x5C) [CHR 0x5C, CHR 0x5C] s)"

section \<open>The settings and the source text\<close>

definition any_code :: re where
  "any_code = Grp 1 (LazyPlus (Cls (\<lambda>_. True)))"

definition evaluate_re :: re where
  "evaluate_re = Seq (Lit ''<%'') (Seq any_code (Lit ''%>''))"

definition interpolate_re :: re where
  "interpolate_re = Seq (Lit ''<%='') (Seq any_code (Lit ''%>''))"

definition escape_re :: re where
  "escape_re = Seq (Lit ''<%-'') (Seq any_code (Lit ''%>''))"

definition quote_lines :: "string \<Rightarrow> string" where
  "quote_lines s =
     subst_char (CHR 0x09) [CHR 0x5C, CHR ''t'']
      (subst_char (CHR 0x0A) [CHR 0x5C, CHR ''n''] (subst_char (CHR 0x0D) [CHR 0x5C, CHR ''r''] s))"

definition one_line :: "string \<Rightarrow> string" where
  "one_line s = map (\<lambda>c. if c \<in> {CHR 0x0D, CHR 0x0A, CHR 0x09} then CHR '' '' else c) s"

definition template_head :: string where
  "template_head =
     ''var __p=[],print=function(){__p.push.apply(__p,arguments);};'' @
     ''with(obj||{}){__p.push('' @ [CHR 0x27]"

definition template_tail :: string where
  "template_tail = [CHR 0x27] @ '');}return __p.join('' @ [CHR 0x27, CHR 0x27] @ '');''"

definition template_body :: "string \<Rightarrow> string" where
  "template_body str =
     quote_lines
      (replace_all evaluate_re (\<lambda>cs. [CHR 0x27] @ '');'' @ one_line (unescape (group 1 cs)) @ '';__p.push('' @ [CHR 0x27])
       (replace_all interpolate_re (\<lambda>cs. [CHR 0x27] @ '','' @ unescape (group 1 cs) @ '','' @ [CHR 0x27])
        (replace_all escape_re (\<lambda>cs. [CHR 0x27] @ '',_.escape('' @ unescape (group 1 cs) @ ''),'' @ [CHR 0x27])
         (quote_text str))))"

definition template_source :: "string \<Rightarrow> string" where
  "template_source str = template_head @ template_body str @ template_tail"

section \<open>Text without tags\<close>

fun no_open :: "string \<Rightarrow> bool" where
  "no_open [] = True"
| "no_open (c # s) = ((c = CHR ''<'' \<longrightarrow> s = [] \<or> hd s \<noteq> CHR ''%'') \<and> no_open s)"

definition quote_char :: "char \<Rightarrow> string" where
  "quote_char c =
     (if c = CHR 0x5C then [CHR 0x5C, CHR 0x5C] else if c = CHR 0x27 then [CHR 0x5C, CHR 0x27] else [c])"

definition literal_char :: "char \<Rightarrow> string" where
  "literal_char c =
     (if c = CHR 0x5C then [CHR 0x5C, CHR 0x5C] else if c = CHR 0x27 then [CHR 0x5C, CHR 0x27]
      else if c = CHR 0x0D then [CHR 0x5C, CHR ''r''] else if c = CHR 0x0A then [CHR 0x5C, CHR ''n'']
      else if c = CHR 0x09 then [CHR 0x5C, CHR ''t''] else [c])"

lemma subst_char_concat: "subst_char c r (concat (map f s)) = concat (map (\<lambda>x. subst_char c r (f x)) s)"
  by (induction s) (auto simp: subst_char_def)

lemma quote_text_chars: "quote_text s = concat (map quote_char s)"
proof -
  have "quote_text s = concat (map (\<lambda>x. subst_char (CHR 0x27) [CHR 0x5C, CHR 0x27]
      (if x = CHR 0x5C then [CHR 0x5C, CHR 0x5C] else [x])) s)"
    unfolding quote_text_def by (simp only: subst_char_concat subst_char_def [of "CHR 0x5C"])
  also have "\<dots> = concat (map quote_char s)"
    by (rule arg_cong [of _ _ concat], rule map_cong [OF refl]) (simp add: quote_char_def subst_char_def)
  finally show ?thesis .
qed

lemma quote_lines_chars: "quote_lines (concat (map quote_char s)) = concat (map literal_char s)"
  unfolding quote_lines_def subst_char_concat
  by (rule arg_cong [of _ _ concat], rule map_cong [OF refl])
    (simp add: quote_char_def literal_char_def subst_char_def)

lemma hd_quote: "hd (quote_char c @ s) = CHR ''%'' \<longleftrightarrow> c = CHR ''%''"
  by (simp add: quote_char_def)

lemma no_open_quote_char:
  "no_open t \<Longrightarrow> (c = CHR ''<'' \<Longrightarrow> t = [] \<or> hd t \<noteq> CHR ''%'') \<Longrightarrow> no_open (quote_char c @ t)"
  by (auto simp: quote_char_def)

lemma no_open_quote: "no_open s \<Longrightarrow> no_open (quote_text s)"
  unfolding quote_text_chars
proof (induction s)
  case (Cons c s)
  have "concat (map quote_char s) = [] \<or> hd (concat (map quote_char s)) \<noteq> CHR ''%''"
    if "s = [] \<or> hd s \<noteq> CHR ''%''"
    using that by (cases s) (auto simp: hd_quote)
  with Cons have "no_open (quote_char c @ concat (map quote_char s))"
    by (intro no_open_quote_char) auto
  then show ?case by simp
qed simp

lemma no_open_drop: "no_open s \<Longrightarrow> no_open (drop k s)"
proof (induction k arbitrary: s)
  case (Suc k)
  then show ?case by (cases s) auto
qed simp

lemma no_open_take: "no_open s \<Longrightarrow> take 2 s \<noteq> ''<%''"
  by (cases s rule: no_open.cases; cases "tl s") auto

lemma no_tag:
  assumes "no_open s"
  shows "replace_all (Seq (Lit (''<%'' @ w)) r) f s = s"
proof -
  have "match_at (Seq (Lit (''<%'' @ w)) r) s k = None" for k
  proof -
    have "take 2 (drop k s) \<noteq> ''<%''" using no_open_take no_open_drop assms by blast
    moreover have "take (length (''<%'' @ w)) t = ''<%'' @ w \<Longrightarrow> take 2 t = ''<%''" for t
      by (cases t rule: list.exhaust; cases "tl t") auto
    ultimately have "take (length (''<%'' @ w)) (drop k s) \<noteq> ''<%'' @ w" by blast
    then show ?thesis unfolding match_at_None_iff by (simp only: rm.simps(3) rm_Lit) simp
  qed
  then have "exec_from (Seq (Lit (''<%'' @ w)) r) s 0 = None" by (simp add: exec_from_None_iff)
  then show ?thesis by (simp add: replace_all_def matches_from.simps)
qed

text \<open>The string that a literal between single quotes denotes; \<open>None\<close> where it is not one.\<close>

fun read_literal :: "string \<Rightarrow> string option" where
  "read_literal [] = Some []"
| "read_literal (c # s) =
     (if c = CHR 0x5C then
        (case s of
           [] \<Rightarrow> None
         | d # s' \<Rightarrow>
             map_option (Cons (if d = CHR ''n'' then CHR 0x0A else if d = CHR ''r'' then CHR 0x0D
                               else if d = CHR ''t'' then CHR 0x09 else d)) (read_literal s'))
      else if c = CHR 0x27 \<or> c = CHR 0x0A \<or> c = CHR 0x0D then None
      else map_option (Cons c) (read_literal s))"

lemma read_literal_char: "read_literal (literal_char c @ s) = map_option (Cons c) (read_literal s)"
  by (simp add: literal_char_def)

lemma subst_pair_step:
  "subst_pair (CHR 0x5C) (CHR 0x5C) [CHR 0x5C] (quote_char c @ s) =
     (if c = CHR 0x27 then CHR 0x5C # subst_pair (CHR 0x5C) (CHR 0x5C) [CHR 0x5C] (CHR 0x27 # s)
      else c # subst_pair (CHR 0x5C) (CHR 0x5C) [CHR 0x5C] s)"
  by (cases s) (auto simp: quote_char_def)

lemma subst_pair_quote: "subst_pair (CHR 0x5C) (CHR 0x5C) [CHR 0x5C] (CHR 0x27 # s) =
    CHR 0x27 # subst_pair (CHR 0x5C) (CHR 0x5C) [CHR 0x5C] s"
  by (cases s) auto

lemma subst_pair_other:
  "c \<noteq> a \<or> t = [] \<or> hd t \<noteq> b \<Longrightarrow> subst_pair a b r (c # t) = c # subst_pair a b r t"
  by (cases t) auto

text \<open>The text with its quotes alone escaped.\<close>

definition half_quoted :: "string \<Rightarrow> string" where
  "half_quoted s = concat (map (\<lambda>c. if c = CHR 0x27 then [CHR 0x5C, CHR 0x27] else [c]) s)"

lemma half_quoted_simps [simp]:
  "half_quoted [] = []"
  "half_quoted (c # s) = (if c = CHR 0x27 then CHR 0x5C # CHR 0x27 # half_quoted s else c # half_quoted s)"
  by (simp_all add: half_quoted_def)

lemma half_quoted_hd: "half_quoted s = [] \<or> hd (half_quoted s) \<noteq> CHR 0x27"
  by (cases s) auto

lemma unescape_quote: "unescape (quote_text s) = s"
proof -
  have "subst_pair (CHR 0x5C) (CHR 0x5C) [CHR 0x5C] (concat (map quote_char s)) = half_quoted s"
    by (induction s) (simp_all add: subst_pair_step subst_pair_quote)
  moreover have "subst_pair (CHR 0x5C) (CHR 0x27) [CHR 0x27] (half_quoted s) = s"
  proof (induction s)
    case (Cons c s)
    then show ?case using subst_pair_other [of c "CHR 0x5C" "half_quoted s" "CHR 0x27"] half_quoted_hd [of s] by simp
  qed simp
  ultimately show ?thesis by (simp add: unescape_def quote_text_chars)
qed

section \<open>Properties\<close>

text \<open>
  A template without tags is compiled to one string literal that denotes the text itself,
  whatever quotes, backslashes and line ends it has; and the code inside a tag, which is quoted
  with the rest of the text, is restored exactly.
\<close>

theorem template_text_literal:
  assumes "no_open s"
  shows "template_source s = template_head @ template_body s @ template_tail \<and>
    read_literal (template_body s) = Some s \<and> unescape (quote_text inner) = inner"
proof -
  have "replace_all escape_re f (quote_text s) = quote_text s"
    "replace_all interpolate_re f (quote_text s) = quote_text s"
    "replace_all evaluate_re f (quote_text s) = quote_text s" for f
    unfolding escape_re_def interpolate_re_def evaluate_re_def
    using no_tag [OF no_open_quote [OF assms], of "''-''"] no_tag [OF no_open_quote [OF assms], of "''=''"]
      no_tag [OF no_open_quote [OF assms], of "''''"] by simp_all
  then have "template_body s = concat (map literal_char s)"
    by (simp add: template_body_def quote_text_chars quote_lines_chars)
  moreover have "read_literal (concat (map literal_char s)) = Some s"
    by (induction s) (simp_all add: read_literal_char)
  ultimately show ?thesis by (simp add: template_source_def unescape_quote)
qed

theorem template_text_literal_witness: "read_literal (template_body ''it is 5 < 6 %'') = Some ''it is 5 < 6 %''"
  using template_text_literal [of "''it is 5 < 6 %''"] by simp

end
