(* ===== verification/J_Callbacks.thy ===== *)
theory J_Callbacks
  imports JS_Prelude
begin

text \<open>
  The callback lists of \<open>jquery-3.1.0.js\<close>, \<open>jQuery.Callbacks\<close>, as a state machine. A callback may
  itself add, remove, fire, lock, empty or disable while the list is firing, so the machine runs
  one callback at a time, and between the call and the return of a callback any operation may
  happen. Data is the pair of the context and the arguments of a \<open>fire\<close>.
\<close>

section \<open>Options\<close>

record cb_options =
  once :: bool
  keeps :: bool
  unique :: bool
  stopOnFalse :: bool

text \<open>\<open>options.match(/\S+/g)\<close> and the flags it names; \<open>keeps\<close> is the option \<open>memory\<close>.\<close>

fun words_from :: "string \<Rightarrow> string \<Rightarrow> string list" where
  "words_from w [] = (if w = [] then [] else [w])"
| "words_from w (c # s) =
     (if is_space c then (if w = [] then words_from [] s else w # words_from [] s)
      else words_from (w @ [c]) s)"

definition rnotwhite_words :: "string \<Rightarrow> string list" where
  "rnotwhite_words s = words_from [] s"

definition createOptions :: "string \<Rightarrow> (string, bool) jsobj" where
  "createOptions options = foldl (\<lambda>o' flag. obj_put flag True o') [] (rnotwhite_words options)"

definition options_of :: "string \<Rightarrow> cb_options" where
  "options_of s =
     (let o' = createOptions s; flag = \<lambda>k. obj_get o' k = Some True
      in \<lparr>once = flag ''once'', keeps = flag ''memory'', unique = flag ''unique'',
          stopOnFalse = flag ''stopOnFalse''\<rparr>)"

section \<open>The variables of a list\<close>

text \<open>
  Where the loop of \<open>fire\<close> stands: not firing, between two callbacks, or inside one. \<open>items\<close> is
  the list, \<open>None\<close> the empty string it becomes when it is spent; a falsy \<open>memory\<close> is \<open>None\<close>;
  \<open>calls\<close> records the calls made, the newest first.
\<close>

datatype phase = Idle | Between | Inside

record ('f, 'a) cb =
  phase :: phase
  memory :: "'a option"
  fired :: bool
  locked :: bool
  items :: "'f list option"
  queue :: "'a list"
  firingIndex :: int
  calls :: "('f \<times> 'a) list"

definition firing :: "('f, 'a) cb \<Rightarrow> bool" where
  "firing s \<longleftrightarrow> phase s \<noteq> Idle"

definition cb_init :: "('f, 'a) cb" where
  "cb_init = \<lparr>phase = Idle, memory = None, fired = False, locked = False, items = Some [], queue = [],
     firingIndex = -1, calls = []\<rparr>"

definition the_items :: "('f, 'a) cb \<Rightarrow> 'f list" where
  "the_items s = (case items s of None \<Rightarrow> [] | Some fs \<Rightarrow> fs)"

section \<open>fire\<close>

text \<open>The loop over the queue takes the next data, or ends.\<close>

definition finish :: "cb_options \<Rightarrow> ('f, 'a) cb \<Rightarrow> ('f, 'a) cb" where
  "finish opts s =
     (let s1 = (if keeps opts then s else s\<lparr>memory := None\<rparr>); s2 = s1\<lparr>phase := Idle\<rparr>
      in if locked s2
         then (if memory s2 \<noteq> None then s2\<lparr>items := Some []\<rparr> else s2\<lparr>items := None\<rparr>)
         else s2)"

definition next_data :: "cb_options \<Rightarrow> ('f, 'a) cb \<Rightarrow> ('f, 'a) cb" where
  "next_data opts s =
     (case queue s of
        [] \<Rightarrow> finish opts s
      | d # ds \<Rightarrow> s\<lparr>memory := Some d, queue := ds, phase := Between\<rparr>)"

definition fire :: "cb_options \<Rightarrow> ('f, 'a) cb \<Rightarrow> ('f, 'a) cb" where
  "fire opts s = next_data opts (s\<lparr>locked := once opts, fired := True, phase := Between\<rparr>)"

text \<open>Between two callbacks: the next one is called, or the loop over the list ends.\<close>

definition advance :: "cb_options \<Rightarrow> ('f, 'a) cb \<Rightarrow> ('f, 'a) cb" where
  "advance opts s =
     (let i = firingIndex s + 1 in
      if i < int (length (the_items s))
      then (case memory s of
              Some d \<Rightarrow> s\<lparr>firingIndex := i, phase := Inside, calls := (the_items s ! nat i, d) # calls s\<rparr>
            | None \<Rightarrow> s)
      else next_data opts (s\<lparr>firingIndex := -1\<rparr>))"

text \<open>The callback returns; \<open>r\<close> tells whether it returned \<open>false\<close>.\<close>

definition returns :: "cb_options \<Rightarrow> bool \<Rightarrow> ('f, 'a) cb \<Rightarrow> ('f, 'a) cb" where
  "returns opts r s =
     (if r \<and> stopOnFalse opts
      then s\<lparr>firingIndex := int (length (the_items s)), memory := None, phase := Between\<rparr>
      else s\<lparr>phase := Between\<rparr>)"

section \<open>The operations\<close>

text \<open>An argument of \<open>add\<close> is a function, an array of arguments, or something that is skipped.\<close>

datatype 'f arg = Fn 'f | Args "'f arg list" | Skipped

fun add_arg :: "bool \<Rightarrow> 'f arg \<Rightarrow> 'f list \<Rightarrow> 'f list" where
  "add_arg uniq (Fn f) fs = (if \<not> uniq \<or> f \<notin> set fs then fs @ [f] else fs)"
| "add_arg uniq (Args as) fs = fold (add_arg uniq) as fs"
| "add_arg uniq Skipped fs = fs"

definition add :: "cb_options \<Rightarrow> 'f arg list \<Rightarrow> ('f, 'a) cb \<Rightarrow> ('f, 'a) cb" where
  "add opts args s =
     (case items s of
        None \<Rightarrow> s
      | Some fs \<Rightarrow>
          (case memory s of
             Some d \<Rightarrow>
               if firing s then s\<lparr>items := Some (fold (add_arg (unique opts)) args fs)\<rparr>
               else fire opts (s\<lparr>firingIndex := int (length fs) - 1, queue := queue s @ [d],
                                 items := Some (fold (add_arg (unique opts)) args fs)\<rparr>)
           | None \<Rightarrow> s\<lparr>items := Some (fold (add_arg (unique opts)) args fs)\<rparr>))"

text \<open>The loop of \<open>remove\<close>, which goes on from the index where it removed.\<close>

fun remove_loop :: "'f \<Rightarrow> 'f list \<Rightarrow> 'f list \<Rightarrow> int \<Rightarrow> 'f list \<times> int" where
  "remove_loop f before [] index = (before, index)"
| "remove_loop f before (x # xs) index =
     (if x = f
      then remove_loop f before xs (if int (length before) \<le> index then index - 1 else index)
      else remove_loop f (before @ [x]) xs index)"

definition remove1 :: "'f \<Rightarrow> ('f, 'a) cb \<Rightarrow> ('f, 'a) cb" where
  "remove1 f s =
     (case items s of
        None \<Rightarrow> s
      | Some fs \<Rightarrow>
          (let (fs', i) = remove_loop f [] fs (firingIndex s) in s\<lparr>items := Some fs', firingIndex := i\<rparr>))"

definition remove :: "'f list \<Rightarrow> ('f, 'a) cb \<Rightarrow> ('f, 'a) cb" where
  "remove fs s = fold remove1 fs s"

definition has :: "'f option \<Rightarrow> ('f, 'a) cb \<Rightarrow> bool" where
  "has f s = (case f of Some f \<Rightarrow> f \<in> set (the_items s) | None \<Rightarrow> length (the_items s) > 0)"

definition empty :: "('f, 'a) cb \<Rightarrow> ('f, 'a) cb" where
  "empty s = (if items s \<noteq> None then s\<lparr>items := Some []\<rparr> else s)"

definition disable :: "('f, 'a) cb \<Rightarrow> ('f, 'a) cb" where
  "disable s = s\<lparr>locked := True, queue := [], items := None, memory := None\<rparr>"

definition disabled :: "('f, 'a) cb \<Rightarrow> bool" where
  "disabled s \<longleftrightarrow> items s = None"

definition lock :: "('f, 'a) cb \<Rightarrow> ('f, 'a) cb" where
  "lock s =
     (let s1 = s\<lparr>locked := True, queue := []\<rparr>
      in if memory s1 = None \<and> \<not> firing s1 then s1\<lparr>items := None, memory := None\<rparr> else s1)"

definition fireWith :: "cb_options \<Rightarrow> 'a \<Rightarrow> ('f, 'a) cb \<Rightarrow> ('f, 'a) cb" where
  "fireWith opts d s =
     (if locked s then s
      else (let s1 = s\<lparr>queue := queue s @ [d]\<rparr> in if firing s1 then s1 else fire opts s1))"

text \<open>What a program can do with a list.\<close>

datatype ('f, 'a) cb_op =
    Add "'f arg list" | Remove "'f list" | Empty | Disable | Lock | Fire 'a

fun apply_op :: "cb_options \<Rightarrow> ('f, 'a) cb_op \<Rightarrow> ('f, 'a) cb \<Rightarrow> ('f, 'a) cb" where
  "apply_op opts (Add args) s = add opts args s"
| "apply_op opts (Remove fs) s = remove fs s"
| "apply_op opts Empty s = empty s"
| "apply_op opts Disable s = disable s"
| "apply_op opts Lock s = lock s"
| "apply_op opts (Fire d) s = fireWith opts d s"

text \<open>
  The machine: operations from outside while the list is idle and from inside a callback, the loop
  between callbacks, and the return of a callback.
\<close>

inductive cb_step :: "cb_options \<Rightarrow> ('f, 'a) cb \<Rightarrow> ('f, 'a) cb \<Rightarrow> bool" for opts where
  op: "phase s \<noteq> Between \<Longrightarrow> cb_step opts s (apply_op opts p s)"
| loop: "phase s = Between \<Longrightarrow> cb_step opts s (advance opts s)"
| return: "phase s = Inside \<Longrightarrow> cb_step opts s (returns opts r s)"

inductive_cases cb_stepE: "cb_step opts s s'"

definition cb_reachable :: "cb_options \<Rightarrow> ('f, 'a) cb \<Rightarrow> bool" where
  "cb_reachable opts s \<longleftrightarrow> (cb_step opts)\<^sup>*\<^sup>* cb_init s"

lemma cb_invariant:
  assumes "P cb_init" and "\<And>s s'. P s \<Longrightarrow> cb_step opts s s' \<Longrightarrow> P s'"
  shows "cb_reachable opts s \<Longrightarrow> P s"
  unfolding cb_reachable_def
proof (induction rule: rtranclp_induct)
  case base
  show ?case by (rule assms(1))
next
  case (step s s')
  then show ?case using assms(2) by blast
qed

section \<open>The shape of the states\<close>

definition cb_shape :: "('f, 'a) cb \<Rightarrow> bool" where
  "cb_shape s \<longleftrightarrow> -1 \<le> firingIndex s \<and> (phase s = Idle \<longrightarrow> queue s = [] \<and> firingIndex s = -1) \<and>
     (items s = None \<longrightarrow> locked s \<and> queue s = [] \<and> memory s = None)"

lemmas cb_defs = add_def empty_def disable_def lock_def fireWith_def fire_def next_data_def finish_def
  advance_def returns_def firing_def Let_def

lemma remove_loop_bounds: "-1 \<le> i \<Longrightarrow> -1 \<le> snd (remove_loop f before xs i)"
  by (induction f before xs i rule: remove_loop.induct) auto

lemma remove_loop_idle: "fst (remove_loop f before xs (-1)) = before @ filter (\<lambda>x. x \<noteq> f) xs \<and> snd (remove_loop f before xs (-1)) = -1"
  by (induction xs arbitrary: before) auto

lemma remove1_fields [simp]:
  "phase (remove1 f s) = phase s" "memory (remove1 f s) = memory s" "queue (remove1 f s) = queue s"
  "locked (remove1 f s) = locked s" "calls (remove1 f s) = calls s" "fired (remove1 f s) = fired s"
  "items (remove1 f s) = None \<longleftrightarrow> items s = None"
  by (auto simp: remove1_def split: option.splits prod.splits)

lemma remove_induct:
  assumes "P s" and "\<And>f s. P s \<Longrightarrow> P (remove1 f s)"
  shows "P (remove fs s)"
  using assms(1) unfolding remove_def by (induction fs arbitrary: s) (auto intro: assms(2))

lemma remove_fields [simp]:
  "phase (remove fs s) = phase s" "memory (remove fs s) = memory s" "queue (remove fs s) = queue s"
  "locked (remove fs s) = locked s" "calls (remove fs s) = calls s" "fired (remove fs s) = fired s"
  "items (remove fs s) = None \<longleftrightarrow> items s = None"
  by (rule remove_induct; simp)+

lemma remove1_index:
  "cb_shape s \<Longrightarrow> cb_shape (remove1 f s)"
proof -
  assume s: "cb_shape s"
  have "-1 \<le> firingIndex (remove1 f s)"
    using s remove_loop_bounds [of "firingIndex s" f "[]" "the (items s)"]
    by (auto simp: cb_shape_def remove1_def split: option.splits prod.splits)
  moreover have "phase s = Idle \<Longrightarrow> firingIndex (remove1 f s) = -1"
    using s remove_loop_idle [of f "[]" "the (items s)"]
    by (auto simp: cb_shape_def remove1_def split: option.splits prod.splits)
  ultimately show ?thesis using s by (auto simp: cb_shape_def)
qed

lemma cb_shape_op: "cb_shape s \<Longrightarrow> phase s \<noteq> Between \<Longrightarrow> cb_shape (apply_op opts p s)"
proof (cases p)
  case (Remove fs)
  assume "cb_shape s"
  then show ?thesis using Remove by (auto intro: remove_induct remove1_index)
qed (auto simp: cb_shape_def cb_defs split: option.splits phase.splits list.splits)

lemma cb_shape_advance: "cb_shape s \<Longrightarrow> phase s = Between \<Longrightarrow> cb_shape (advance opts s)"
  by (auto simp: cb_shape_def cb_defs the_items_def split: option.splits list.splits)

lemma cb_shape_returns: "cb_shape s \<Longrightarrow> phase s = Inside \<Longrightarrow> cb_shape (returns opts r s)"
  by (auto simp: cb_shape_def cb_defs the_items_def split: option.splits)

lemma cb_shape_step: "cb_shape s \<Longrightarrow> cb_step opts s s' \<Longrightarrow> cb_shape s'"
  by (erule cb_stepE) (simp_all add: cb_shape_op cb_shape_advance cb_shape_returns)

lemma cb_reachable_shape: "cb_reachable opts s \<Longrightarrow> cb_shape s"
proof (rule cb_invariant)
  show "cb_shape cb_init" by (simp add: cb_shape_def cb_init_def)
qed (rule cb_shape_step)

section \<open>once, unique\<close>

lemma distinct_add_arg: "distinct fs \<Longrightarrow> distinct (add_arg True a fs)"
proof (induction a arbitrary: fs)
  case (Args as)
  have "(\<And>a fs. a \<in> set as \<Longrightarrow> distinct fs \<Longrightarrow> distinct (add_arg True a fs)) \<Longrightarrow> distinct fs \<Longrightarrow>
      distinct (fold (add_arg True) as fs)" for as fs
    by (induction as arbitrary: fs) auto
  from this [of as fs] Args show ?case by auto
qed auto

lemma distinct_add_args: "distinct fs \<Longrightarrow> distinct (fold (add_arg True) as fs)"
  by (induction as arbitrary: fs) (auto intro: distinct_add_arg)

lemma remove_loop_filter: "fst (remove_loop f before xs i) = before @ filter (\<lambda>x. x \<noteq> f) xs"
  by (induction f before xs i rule: remove_loop.induct) auto

lemma remove1_items: "items (remove1 f s) = map_option (filter (\<lambda>x. x \<noteq> f)) (items s)"
  using remove_loop_filter [of f "[]" "the_items s" "firingIndex s"]
  by (auto simp: remove1_def the_items_def split: option.splits prod.splits)

definition no_duplicates :: "('f, 'a) cb \<Rightarrow> bool" where
  "no_duplicates s \<longleftrightarrow> (\<forall>fs. items s = Some fs \<longrightarrow> distinct fs)"

lemma no_duplicates_step:
  assumes "unique opts" and "no_duplicates s" and "cb_step opts s s'"
  shows "no_duplicates s'"
  using assms(3)
proof (rule cb_stepE)
  fix p assume s': "s' = apply_op opts p s"
  show ?thesis
  proof (cases p)
    case (Remove fs)
    have "no_duplicates (remove fs s)"
      by (rule remove_induct) (use assms in \<open>auto simp: no_duplicates_def remove1_items\<close>)
    with s' Remove show ?thesis by simp
  qed (use assms s' in \<open>auto simp: no_duplicates_def cb_defs distinct_add_args split: option.splits list.splits if_splits\<close>)
qed (use assms in \<open>auto simp: no_duplicates_def cb_defs split: option.splits list.splits if_splits\<close>)

text \<open>With the option \<open>once\<close> all calls have the data of the first fire.\<close>

definition one_data :: "('f, 'a) cb \<Rightarrow> bool" where
  "one_data s \<longleftrightarrow>
     (if fired s
      then locked s \<and> (\<exists>d. set (queue s) \<subseteq> {d} \<and> snd ` set (calls s) \<subseteq> {d} \<and> (memory s = None \<or> memory s = Some d))
      else phase s = Idle \<and> queue s = [] \<and> calls s = [] \<and> memory s = None)"

lemma one_data_step:
  assumes "once opts" and "cb_shape s \<and> one_data s" and "cb_step opts s s'"
  shows "one_data s'"
  using assms(3)
proof (rule cb_stepE)
  fix p assume s': "s' = apply_op opts p s"
  show ?thesis
  proof (cases p)
    case (Remove fs)
    with s' assms(2) show ?thesis by (simp add: one_data_def)
  qed (use assms s' in \<open>auto simp: one_data_def cb_shape_def cb_defs split: option.splits list.splits if_splits\<close>)
qed (use assms in \<open>auto simp: one_data_def cb_shape_def cb_defs split: option.splits list.splits if_splits\<close>)

section \<open>memory\<close>

lemma once_one_data: "once opts \<Longrightarrow> cb_reachable opts s \<Longrightarrow> \<exists>d. snd ` set (calls s) \<subseteq> {d}"
proof -
  assume o: "once opts" and r: "cb_reachable opts s"
  have "cb_shape s \<and> one_data s"
  proof (rule cb_invariant [OF _ _ r])
    show "cb_shape cb_init \<and> one_data cb_init" by (simp add: cb_shape_def one_data_def cb_init_def)
  qed (use o one_data_step cb_shape_step in blast)
  then show ?thesis by (auto simp: one_data_def split: if_splits)
qed

text \<open>
  Every callback up to the firing index has been called with the current data, and after the loop
  all of them. An \<open>empty\<close> from inside a callback is excluded: it leaves the firing index alone.
\<close>

definition all_served :: "('f, 'a) cb \<Rightarrow> bool" where
  "all_served s \<longleftrightarrow>
     (\<forall>d. memory s = Some d \<longrightarrow>
        firingIndex s < int (length (the_items s)) \<and>
        (\<forall>i. i < length (the_items s) \<and> (phase s = Idle \<or> int i \<le> firingIndex s) \<longrightarrow>
           (the_items s ! i, d) \<in> set (calls s)))"

lemma add_arg_prefix: "\<exists>ys. add_arg u a fs = fs @ ys"
proof (induction a arbitrary: fs)
  case (Args as)
  have "(\<And>a fs. a \<in> set as \<Longrightarrow> \<exists>ys. add_arg u a fs = fs @ ys) \<Longrightarrow> \<exists>ys. fold (add_arg u) as fs = fs @ ys" for as fs
  proof (induction as arbitrary: fs)
    case (Cons a as)
    from Cons.prems [of a fs] obtain ys where ys: "add_arg u a fs = fs @ ys" by auto
    with Cons.IH [of "fs @ ys"] Cons.prems show ?case by (auto simp: append_eq_append_conv2)
  qed simp
  from this [of as fs] Args show ?case by auto
qed auto

lemma add_args_prefix: "\<exists>ys. fold (add_arg u) as fs = fs @ ys"
proof (induction as arbitrary: fs)
  case (Cons a as)
  from add_arg_prefix [of u a fs] obtain ys where "add_arg u a fs = fs @ ys" by blast
  with Cons.IH [of "fs @ ys"] show ?case by auto
qed simp

text \<open>Removing keeps the callbacks up to the firing index the called ones.\<close>

lemma remove_loop_index:
  "int (length before) \<le> i + 1 \<Longrightarrow> i < int (length before + length xs) \<Longrightarrow>
   remove_loop f before xs i =
     (before @ filter (\<lambda>x. x \<noteq> f) xs,
      int (length before) + int (length (filter (\<lambda>x. x \<noteq> f) (take (nat (i + 1) - length before) xs))) - 1)"
proof (induction xs arbitrary: before i)
  case Nil
  then show ?case by simp
next
  case (Cons x xs)
  show ?case
  proof (cases "int (length before) = i + 1")
    case True
    have "remove_loop f before xs i = (before @ filter (\<lambda>x. x \<noteq> f) xs, i)"
      if "i < int (length before)" for before xs
      using that
    proof (induction xs arbitrary: before)
      case (Cons x xs)
      then show ?case by (cases "x = f") auto
    qed simp
    from this [of before "x # xs"] True show ?thesis by simp
  next
    case False
    with Cons.prems have "int (length before) \<le> i" by simp
    then have t: "nat (i + 1) - length before = Suc (nat (i + 1) - Suc (length before))"
      "nat (i - 1 + 1) - length before = nat (i + 1) - Suc (length before)" by linarith+
    show ?thesis
    proof (cases "x = f")
      case True
      with Cons.IH [of before "i - 1"] Cons.prems \<open>int (length before) \<le> i\<close> t show ?thesis by simp
    next
      case False
      with Cons.IH [of "before @ [x]" i] Cons.prems \<open>int (length before) \<le> i\<close> t show ?thesis by simp
    qed
  qed
qed

definition served :: "('f, 'a) cb \<Rightarrow> 'a \<Rightarrow> nat \<Rightarrow> bool" where
  "served s d n \<longleftrightarrow> (\<forall>f \<in> set (take n (the_items s)). (f, d) \<in> set (calls s))"

lemma all_served_alt:
  "all_served s \<longleftrightarrow> (\<forall>d. memory s = Some d \<longrightarrow>
     firingIndex s < int (length (the_items s)) \<and>
     served s d (if phase s = Idle then length (the_items s) else nat (firingIndex s + 1)))"
proof -
  have "(\<forall>i. i < length xs \<and> int i \<le> k \<longrightarrow> P (xs ! i)) \<longleftrightarrow> (\<forall>f \<in> set (take (nat (k + 1)) xs). P f)"
    for xs :: "'f list" and k P
  proof -
    have "int i \<le> k \<longleftrightarrow> i < nat (k + 1)" for i by linarith
    then show ?thesis by (auto simp: all_set_conv_all_nth)
  qed
  then show ?thesis
    by (auto simp: all_served_def served_def all_set_conv_all_nth)
qed

lemma served_filter:
  assumes "served s d n" and "the_items s' = filter p (the_items s)" and "calls s' = calls s"
    and "n' = length (filter p (take n (the_items s)))"
  shows "served s' d n'"
proof -
  have "filter p (the_items s) = filter p (take n (the_items s)) @ filter p (drop n (the_items s))"
    by (metis append_take_drop_id filter_append)
  then have "take n' (the_items s') = filter p (take n (the_items s))" using assms(2,4) by simp
  with assms(1,3) show ?thesis by (auto simp: served_def)
qed

lemma all_served_remove1:
  assumes "cb_shape s \<and> all_served s"
  shows "all_served (remove1 f s)"
  unfolding all_served_alt
proof (intro allI impI)
  fix d assume "memory (remove1 f s) = Some d"
  then have m: "memory s = Some d" by simp
  with assms have a: "firingIndex s < int (length (the_items s))" "-1 \<le> firingIndex s"
    "served s d (if phase s = Idle then length (the_items s) else nat (firingIndex s + 1))"
    by (auto simp: all_served_alt cb_shape_def)
  have it: "the_items (remove1 f s) = filter (\<lambda>x. x \<noteq> f) (the_items s)"
    by (auto simp: the_items_def remove1_items split: option.splits)
  have ix: "firingIndex (remove1 f s) =
      int (length (filter (\<lambda>x. x \<noteq> f) (take (nat (firingIndex s + 1)) (the_items s)))) - 1"
  proof (cases "items s")
    case None
    with a show ?thesis by (simp add: remove1_def the_items_def)
  next
    case (Some fs)
    with a remove_loop_index [of "[]" "firingIndex s" fs f] show ?thesis
      by (simp add: remove1_def the_items_def)
  qed
  have len: "length (filter p (take n xs)) \<le> length (filter p xs)" for n p and xs :: "'a list"
    by (metis append_take_drop_id filter_append length_append le_add1)
  have "firingIndex (remove1 f s) < int (length (the_items (remove1 f s)))"
    unfolding ix it using len [of "\<lambda>x. x \<noteq> f" "nat (firingIndex s + 1)" "the_items s"] by linarith
  moreover have "served (remove1 f s) d (if phase s = Idle then length (the_items (remove1 f s)) else nat (firingIndex (remove1 f s) + 1))"
    using a(3) by (intro served_filter [OF _ it]) (auto simp: ix it)
  ultimately show "firingIndex (remove1 f s) < int (length (the_items (remove1 f s))) \<and>
      served (remove1 f s) d
        (if phase (remove1 f s) = Idle then length (the_items (remove1 f s)) else nat (firingIndex (remove1 f s) + 1))"
    by simp
qed

lemma served_append: "n \<le> length (the_items s) \<Longrightarrow> the_items s' = the_items s @ ys \<Longrightarrow> calls s' = calls s \<Longrightarrow>
    served s' d n \<longleftrightarrow> served s d n"
  by (simp add: served_def)

lemma all_served_add:
  assumes "cb_shape s \<and> all_served s" and "phase s \<noteq> Between"
  shows "all_served (add opts args s)"
proof (cases "items s")
  case None
  with assms show ?thesis by (simp add: add_def)
next
  case (Some fs)
  obtain ys where ys: "fold (add_arg (unique opts)) args fs = fs @ ys" using add_args_prefix by blast
  show ?thesis
  proof (cases "memory s")
    case None
    with Some assms show ?thesis by (simp add: add_def all_served_alt)
  next
    case m: (Some d)
    with assms \<open>items s = Some fs\<close> have a: "firingIndex s < int (length fs)" "-1 \<le> firingIndex s"
      "served s d (if phase s = Idle then length fs else nat (firingIndex s + 1))"
      by (auto simp: all_served_alt cb_shape_def the_items_def)
    show ?thesis
    proof (cases "phase s = Idle")
      case True
      with assms m \<open>items s = Some fs\<close> a ys show ?thesis
        by (auto simp: add_def firing_def fire_def next_data_def all_served_alt served_def the_items_def cb_shape_def)
    next
      case False
      with m \<open>items s = Some fs\<close> a ys show ?thesis
        by (auto simp: add_def firing_def all_served_alt served_def the_items_def)
    qed
  qed
qed

lemma all_served_next_data:
  "(\<And>d. memory s = Some d \<Longrightarrow> served s d (length (the_items s))) \<Longrightarrow> firingIndex s = -1 \<Longrightarrow>
     all_served (next_data opts s)"
  by (auto simp: next_data_def finish_def all_served_alt served_def the_items_def Let_def split: list.split)

lemma all_served_advance:
  assumes "cb_shape s \<and> all_served s" and "phase s = Between"
  shows "all_served (advance opts s)"
proof (cases "firingIndex s + 1 < int (length (the_items s))")
  case False
  have "served s d (length (the_items s))" if "memory s = Some d" for d
  proof -
    have "nat (firingIndex s + 1) = length (the_items s)" using assms that False
      by (auto simp: all_served_alt cb_shape_def)
    with assms that show ?thesis by (auto simp: all_served_alt)
  qed
  then show ?thesis using False
    by (auto simp: advance_def Let_def served_def the_items_def intro!: all_served_next_data)
next
  case True
  show ?thesis
  proof (cases "memory s")
    case None
    with True assms show ?thesis by (simp add: advance_def)
  next
    case (Some d)
    let ?n = "nat (firingIndex s + 1)"
    have n: "?n < length (the_items s)" "nat (firingIndex s + 1 + 1) = Suc ?n"
      using True assms by (auto simp: cb_shape_def)
    have "served s d ?n" using assms Some by (auto simp: all_served_alt)
    with True Some n show ?thesis
      by (auto simp: advance_def all_served_alt served_def the_items_def take_Suc_conv_app_nth Let_def)
  qed
qed

text \<open>The machine without \<open>empty\<close> from inside a callback.\<close>

inductive cb_step' :: "cb_options \<Rightarrow> ('f, 'a) cb \<Rightarrow> ('f, 'a) cb \<Rightarrow> bool" for opts where
  op': "phase s \<noteq> Between \<Longrightarrow> phase s = Idle \<or> p \<noteq> Empty \<Longrightarrow> cb_step' opts s (apply_op opts p s)"
| loop': "phase s = Between \<Longrightarrow> cb_step' opts s (advance opts s)"
| return': "phase s = Inside \<Longrightarrow> cb_step' opts s (returns opts r s)"

inductive_cases cb_step'E: "cb_step' opts s s'"

lemma cb_step'_step: "cb_step' opts s s' \<Longrightarrow> cb_step opts s s'"
  by (erule cb_step'E) (auto intro: cb_step.intros)

lemma all_served_op:
  assumes "cb_shape s \<and> all_served s" and "phase s \<noteq> Between" and "phase s = Idle \<or> p \<noteq> Empty"
  shows "all_served (apply_op opts p s)"
proof (cases p)
  case (Add args)
  then show ?thesis using all_served_add [OF assms(1,2)] by simp
next
  case (Remove fs)
  have "cb_shape (remove fs s) \<and> all_served (remove fs s)"
    by (rule remove_induct) (use assms(1) in \<open>auto intro: remove1_index all_served_remove1\<close>)
  with Remove show ?thesis by simp
next
  case (Fire d)
  show ?thesis
  proof (cases "phase s = Idle")
    case True
    with Fire assms(1) show ?thesis
      by (auto simp: fireWith_def Let_def firing_def fire_def next_data_def all_served_alt served_def cb_shape_def the_items_def)
  next
    case False
    with Fire assms(1) show ?thesis
      by (auto simp: fireWith_def Let_def firing_def all_served_alt served_def the_items_def)
  qed
next
  case Empty
  with assms show ?thesis
    by (auto simp: empty_def all_served_alt served_def the_items_def cb_shape_def)
next
  case Disable
  then show ?thesis by (simp add: disable_def all_served_alt)
next
  case Lock
  with assms(1) show ?thesis
    by (auto simp: lock_def Let_def firing_def all_served_alt served_def the_items_def)
qed

lemma all_served_returns: "all_served s \<Longrightarrow> phase s = Inside \<Longrightarrow> all_served (returns opts r s)"
  by (auto simp: returns_def all_served_alt served_def the_items_def)

lemma all_served_step: "cb_shape s \<and> all_served s \<Longrightarrow> cb_step' opts s s' \<Longrightarrow> cb_shape s' \<and> all_served s'"
  using cb_shape_step cb_step'_step
  by (metis cb_step'E all_served_op all_served_advance all_served_returns)

section \<open>Callbacks that leave the list alone\<close>

text \<open>The loop run to its end, when callbacks return nothing special; the fuel is two steps for each callback.\<close>

fun settle :: "nat \<Rightarrow> cb_options \<Rightarrow> ('f, 'a) cb \<Rightarrow> ('f, 'a) cb" where
  "settle 0 opts s = s"
| "settle (Suc n) opts s =
     (case phase s of
        Idle \<Rightarrow> s
      | Between \<Rightarrow> settle n opts (advance opts s)
      | Inside \<Rightarrow> settle n opts (returns opts False s))"

lemma settle_idle [simp]: "phase s = Idle \<Longrightarrow> settle n opts s = s"
  by (cases n) auto

lemma finish_idle [simp]: "phase (finish opts s) = Idle"
  by (simp add: finish_def Let_def)

lemma settle_from:
  "phase s = Between \<Longrightarrow> memory s = Some d \<Longrightarrow> queue s = [] \<Longrightarrow> items s = Some fs \<Longrightarrow>
   firingIndex s = int k - 1 \<Longrightarrow> k \<le> length fs \<Longrightarrow> 2 * (length fs - k) < n \<Longrightarrow>
   settle n opts s =
     finish opts (s\<lparr>firingIndex := -1, calls := rev (map (\<lambda>f. (f, d)) (drop k fs)) @ calls s\<rparr>)"
proof (induction "length fs - k" arbitrary: s k n)
  case 0
  then obtain m where "n = Suc m" by (cases n) auto
  with 0 show ?case by (simp add: advance_def next_data_def the_items_def Let_def)
next
  case (Suc x)
  then have k: "k < length fs" by simp
  obtain m where m: "n = Suc (Suc m)" using Suc.prems(7) k by (cases n; cases "n - 1") auto
  let ?s = "s\<lparr>firingIndex := int k, calls := (fs ! k, d) # calls s, phase := Between\<rparr>"
  have "settle n opts s = settle m opts ?s"
    using Suc.prems(1-5) k by (simp add: m advance_def returns_def the_items_def Let_def)
  also have "\<dots> = finish opts (?s\<lparr>firingIndex := -1, calls := rev (map (\<lambda>f. (f, d)) (drop (Suc k) fs)) @ calls ?s\<rparr>)"
    by (rule Suc.hyps(1)) (use Suc m k in auto)
  also have "\<dots> = finish opts (s\<lparr>firingIndex := -1, calls := rev (map (\<lambda>f. (f, d)) (drop k fs)) @ calls s\<rparr>)"
    using k Suc.prems(1) by (cases s) (simp add: Cons_nth_drop_Suc [symmetric])
  finally show ?case .
qed

section \<open>The contract of a promise\<close>

text \<open>
  What the lists of a Deferred, with the options \<open>once memory\<close>, promise: those who listen before
  the first fire hear it in the order they came, those who come later hear it at once, and later
  fires are not heard.
\<close>

type_synonym ('f, 'a) promised = "'f list \<times> 'a option \<times> ('f \<times> 'a) list"

datatype ('f, 'a) use = Listen 'f | Settle 'a

fun promised_use :: "('f, 'a) use \<Rightarrow> ('f, 'a) promised \<Rightarrow> ('f, 'a) promised" where
  "promised_use (Listen f) (waiting, None, heard) = (waiting @ [f], None, heard)"
| "promised_use (Listen f) (waiting, Some d, heard) = (waiting, Some d, heard @ [(f, d)])"
| "promised_use (Settle d) (waiting, None, heard) = ([], Some d, heard @ map (\<lambda>f. (f, d)) waiting)"
| "promised_use (Settle e) (waiting, Some d, heard) = (waiting, Some d, heard)"

definition promise_options :: cb_options where
  "promise_options = options_of ''once memory''"

definition cb_use :: "('f, 'a) use \<Rightarrow> ('f, 'a) cb \<Rightarrow> ('f, 'a) cb" where
  "cb_use u s =
     (let s' = (case u of Listen f \<Rightarrow> add promise_options [Fn f] s | Settle d \<Rightarrow> fireWith promise_options d s)
      in settle (2 * length (the_items s') + 1) promise_options s')"

definition cb_abs :: "('f, 'a) cb \<Rightarrow> ('f, 'a) promised" where
  "cb_abs s = (the_items s, memory s, rev (calls s))"

definition cb_quiet :: "('f, 'a) cb \<Rightarrow> bool" where
  "cb_quiet s \<longleftrightarrow> phase s = Idle \<and> queue s = [] \<and> firingIndex s = -1 \<and> items s \<noteq> None \<and>
     (memory s = None \<longleftrightarrow> \<not> locked s) \<and> (memory s \<noteq> None \<longrightarrow> items s = Some [])"

lemma promise_options_eq: "promise_options = \<lparr>once = True, keeps = True, unique = False, stopOnFalse = False\<rparr>"
  by (simp add: promise_options_def options_of_def createOptions_def rnotwhite_words_def is_space_def code_def
      obj_get_def obj_put_def Let_def)

lemma cb_use_refines:
  assumes "cb_quiet s"
  shows "cb_abs (cb_use u s) = promised_use u (cb_abs s) \<and> cb_quiet (cb_use u s)"
proof (cases u)
  case (Listen f)
  show ?thesis
  proof (cases "memory s")
    case None
    with Listen assms show ?thesis
      by (auto simp: cb_use_def cb_abs_def cb_quiet_def add_def the_items_def Let_def promise_options_eq)
  next
    case (Some d)
    with assms have i: "items s = Some []" "phase s = Idle" "queue s = []" "firingIndex s = -1" by (auto simp: cb_quiet_def)
    let ?s = "s\<lparr>items := Some [f], locked := True, fired := True, phase := Between\<rparr>"
    have "add promise_options [Fn f] s = ?s"
      using i Some by (simp add: add_def firing_def fire_def next_data_def promise_options_eq)
    moreover have "settle (2 * length (the_items ?s) + 1) promise_options ?s =
        finish promise_options (?s\<lparr>firingIndex := -1, calls := rev (map (\<lambda>f. (f, d)) (drop 0 [f])) @ calls ?s\<rparr>)"
      by (rule settle_from) (use i Some in \<open>auto simp: the_items_def\<close>)
    ultimately have e: "cb_use u s =
        finish promise_options (?s\<lparr>firingIndex := -1, calls := rev (map (\<lambda>f. (f, d)) (drop 0 [f])) @ calls ?s\<rparr>)"
      unfolding cb_use_def Listen by simp
    show ?thesis unfolding e
      using Listen i Some by (auto simp: cb_abs_def cb_quiet_def the_items_def finish_def Let_def promise_options_eq)
  qed
next
  case (Settle d)
  show ?thesis
  proof (cases "memory s")
    case (Some e)
    with Settle assms show ?thesis
      by (auto simp: cb_use_def cb_abs_def cb_quiet_def fireWith_def the_items_def Let_def)
  next
    case None
    with assms obtain fs where i: "items s = Some fs" "phase s = Idle" "queue s = []" "firingIndex s = -1" "\<not> locked s"
      by (auto simp: cb_quiet_def)
    let ?s = "s\<lparr>memory := Some d, locked := True, fired := True, phase := Between\<rparr>"
    have "fireWith promise_options d s = ?s"
      using i by (simp add: fireWith_def firing_def fire_def next_data_def Let_def promise_options_eq)
    moreover have "settle (2 * length (the_items ?s) + 1) promise_options ?s =
        finish promise_options (?s\<lparr>firingIndex := -1, calls := rev (map (\<lambda>f. (f, d)) (drop 0 fs)) @ calls ?s\<rparr>)"
      by (rule settle_from) (use i in \<open>auto simp: the_items_def\<close>)
    ultimately have e: "cb_use u s =
        finish promise_options (?s\<lparr>firingIndex := -1, calls := rev (map (\<lambda>f. (f, d)) (drop 0 fs)) @ calls ?s\<rparr>)"
      unfolding cb_use_def Settle by simp
    show ?thesis unfolding e
      using Settle i None by (auto simp: cb_abs_def cb_quiet_def the_items_def finish_def Let_def promise_options_eq)
  qed
qed

section \<open>Properties\<close>

text \<open>
  C5: a list with the options \<open>once memory\<close>, used by callbacks that leave it alone, implements the
  contract of a promise: after every sequence of listening and firing it has called who it promises
  to call, in that order.
\<close>

theorem callbacks_refine_promise:
  "cb_abs (fold cb_use us cb_init) = fold promised_use us ([], None, [])"
proof -
  have "cb_quiet s \<Longrightarrow> cb_abs (fold cb_use us s) = fold promised_use us (cb_abs s)" for s
    by (induction us arbitrary: s) (simp_all add: cb_use_refines)
  moreover have "cb_quiet cb_init" "cb_abs cb_init = ([], None, [])"
    by (simp_all add: cb_quiet_def cb_init_def cb_abs_def the_items_def)
  ultimately show ?thesis by metis
qed

text \<open>
  Whatever callbacks do to the list while it fires, with \<open>once\<close> every call ever made has the data
  of the first fire, with \<open>unique\<close> no callback is twice in the list, and with a remembered value
  every callback of an idle list has been called with it, unless a callback emptied the list.
\<close>

theorem callbacks_options:
  "(cb_reachable opts s \<longrightarrow>
      (once opts \<longrightarrow> (\<exists>d. snd ` set (calls s) \<subseteq> {d})) \<and> (unique opts \<longrightarrow> distinct (the_items s))) \<and>
   ((cb_step' opts)\<^sup>*\<^sup>* cb_init s \<and> phase s = Idle \<and> memory s = Some d \<longrightarrow>
      (\<forall>f \<in> set (the_items s). (f, d) \<in> set (calls s)))"
proof (intro conjI impI)
  assume r: "cb_reachable opts s"
  { assume "once opts"
    then show "\<exists>d. snd ` set (calls s) \<subseteq> {d}" using r by (rule once_one_data) }
  { assume u: "unique opts"
    have "no_duplicates s"
    proof (rule cb_invariant [OF _ _ r])
      show "no_duplicates cb_init" by (simp add: no_duplicates_def cb_init_def)
    qed (rule no_duplicates_step [OF u])
    then show "distinct (the_items s)" by (simp add: no_duplicates_def the_items_def split: option.split) }
next
  assume a: "(cb_step' opts)\<^sup>*\<^sup>* cb_init s \<and> phase s = Idle \<and> memory s = Some d"
  then have "(cb_step' opts)\<^sup>*\<^sup>* cb_init s" by simp
  then have "cb_shape s \<and> all_served s"
  proof (induction rule: rtranclp_induct)
    case base
    show ?case by (simp add: cb_shape_def all_served_def cb_init_def)
  next
    case (step s s')
    then show ?case using all_served_step by blast
  qed
  with a show "\<forall>f \<in> set (the_items s). (f, d) \<in> set (calls s)" by (simp add: all_served_alt served_def)
qed

theorem callbacks_options_witness:
  "\<exists>d. snd ` set (calls (fireWith promise_options (7::nat) cb_init :: (string, nat) cb)) \<subseteq> {d}"
proof -
  have "cb_step promise_options cb_init (apply_op promise_options (Fire (7::nat)) cb_init :: (string, nat) cb)"
    by (rule op) (simp add: cb_init_def)
  then have "cb_reachable promise_options (fireWith promise_options (7::nat) cb_init :: (string, nat) cb)"
    by (simp add: cb_reachable_def)
  moreover have "once promise_options" by (simp add: promise_options_eq)
  ultimately show ?thesis by (rule callbacks_options [THEN conjunct1, THEN mp, THEN conjunct1, THEN mp])
qed

text \<open>A spent or disabled list never calls anything again.\<close>

theorem disabled_for_good:
  assumes "cb_reachable opts s" and "disabled s" and "(cb_step opts)\<^sup>*\<^sup>* s s'"
  shows "disabled s' \<and> calls s' = calls s"
  using assms(3)
proof (induction rule: rtranclp_induct)
  case base
  show ?case using assms(2) by simp
next
  case (step t u)
  have "cb_reachable opts t" using assms(1) step.hyps(1) by (auto simp: cb_reachable_def)
  then have sh: "cb_shape t" by (rule cb_reachable_shape)
  with step.IH have "locked t" "queue t = []" "items t = None" "memory t = None" by (auto simp: cb_shape_def disabled_def)
  with sh step.hyps(2) have "items u = None \<and> calls u = calls t"
  proof (elim cb_stepE)
    fix p assume "u = apply_op opts p t" and "locked t" "items t = None"
    then show ?thesis by (cases p) (auto simp: cb_defs)
  qed (auto simp: cb_defs the_items_def cb_shape_def)
  with step.IH show ?case by (simp add: disabled_def)
qed

theorem disabled_for_good_witness: "calls (disable cb_init :: (string, nat) cb) = []"
proof -
  have "cb_step promise_options cb_init (apply_op promise_options Disable cb_init :: (string, nat) cb)"
    by (rule op) (simp add: cb_init_def)
  then have "cb_reachable promise_options (disable cb_init :: (string, nat) cb)" by (simp add: cb_reachable_def)
  moreover have "disabled (disable cb_init :: (string, nat) cb)" by (simp add: disabled_def disable_def)
  ultimately have "disabled (disable cb_init :: (string, nat) cb) \<and>
      calls (disable cb_init :: (string, nat) cb) = calls (disable cb_init :: (string, nat) cb)"
    by (rule disabled_for_good) simp
  then show ?thesis by (simp add: disable_def cb_init_def)
qed

text \<open>
  Two flaws. Adding to a locked list that remembers its data fires, and firing forgets the lock.
  And \<open>empty\<close> from inside a callback leaves the firing index where it is, so a callback added after
  it is skipped although the list is still firing.
\<close>

definition memory_options :: cb_options where
  "memory_options = options_of ''memory''"

lemma memory_options_eq: "memory_options = \<lparr>once = False, keeps = True, unique = False, stopOnFalse = False\<rparr>"
  by (simp add: memory_options_def options_of_def createOptions_def rnotwhite_words_def is_space_def code_def
      obj_get_def obj_put_def Let_def)

theorem add_undoes_lock:
  "let s = settle 5 memory_options (fireWith memory_options d cb_init);
       t = settle 5 memory_options (add memory_options [Fn f] (lock s))
   in locked (lock s) \<and> \<not> locked t \<and> calls (settle 5 memory_options (fireWith memory_options e t)) = [(f, e), (f, d)]"
  by (simp add: memory_options_eq cb_init_def cb_defs the_items_def numeral_eq_Suc)

theorem empty_skips_added:
  "let s = advance memory_options (fireWith memory_options d (add memory_options [Fn f] cb_init));
       t = add memory_options [Fn g] (empty s)
   in calls (settle 5 memory_options (returns memory_options False t)) = [(f, d)] \<and>
      the_items t = [g] \<and> phase t = Inside"
  by (simp add: memory_options_eq cb_init_def cb_defs the_items_def numeral_eq_Suc)

end
