(* ===== verification/J_Deferred.thy ===== *)
theory J_Deferred
  imports J_Callbacks
begin

text \<open>
  The deferreds of \<open>jquery-3.1.0.js\<close>, \<open>jQuery.Deferred\<close>: six callback lists of \<open>J_Callbacks\<close> that act on
  one another. Callbacks run nested, so the machine keeps the stack of the lists that are firing;
  the callbacks of a program may use the deferred again while it settles.
\<close>

section \<open>The lists\<close>

datatype kind = Notify | Resolve | Reject

text \<open>The list of \<open>progress\<close>, \<open>done\<close> or \<open>fail\<close>, and the list of the handlers of \<open>then\<close>.\<close>

datatype lid = Main kind | Handlers kind

datatype dstate = Pending | Resolved | Rejected

text \<open>What is in a list: functions of the deferred itself, and those of the program.\<close>

datatype 'f dfun = SetState dstate | DisableList lid | LockList lid | FireList lid | User 'f

record ('f, 'a) deferred =
  dstate :: dstate
  lists :: "lid \<Rightarrow> ('f dfun, 'a) cb"
  frames :: "lid list"

definition list_options :: "lid \<Rightarrow> cb_options" where
  "list_options l =
     (if l = Main Notify \<or> l = Handlers Notify then options_of ''memory'' else options_of ''once memory'')"

text \<open>The last entry of a tuple, and the tuple \<open>3 - i\<close>.\<close>

definition state_string :: "kind \<Rightarrow> dstate" where
  "state_string k = (case k of Notify \<Rightarrow> Pending | Resolve \<Rightarrow> Resolved | Reject \<Rightarrow> Rejected)"

definition opposite :: "kind \<Rightarrow> kind" where
  "opposite k = (case k of Notify \<Rightarrow> Notify | Resolve \<Rightarrow> Reject | Reject \<Rightarrow> Resolve)"

definition own_functions :: "kind \<Rightarrow> 'f dfun list" where
  "own_functions k =
     (if k = Notify then []
      else [SetState (state_string k), DisableList (Main (opposite k)), LockList (Main Notify)]) @
     [FireList (Handlers k)]"

definition new_list :: "lid \<Rightarrow> ('f dfun, 'a) cb" where
  "new_list l =
     (case l of
        Main k \<Rightarrow> add (list_options l) (map Fn (own_functions k)) cb_init
      | Handlers k \<Rightarrow> cb_init)"

definition deferred_init :: "('f, 'a) deferred" where
  "deferred_init = \<lparr>dstate = Pending, lists = new_list, frames = []\<rparr>"

section \<open>The operations\<close>

definition on_list :: "lid \<Rightarrow> (('f dfun, 'a) cb \<Rightarrow> ('f dfun, 'a) cb) \<Rightarrow> ('f, 'a) deferred \<Rightarrow> ('f, 'a) deferred" where
  "on_list l g s = s\<lparr>lists := (lists s)(l := g (lists s l))\<rparr>"

text \<open>An operation of a list; if it starts the list firing, that loop runs first.\<close>

definition list_op :: "lid \<Rightarrow> ('f dfun, 'a) cb_op \<Rightarrow> ('f, 'a) deferred \<Rightarrow> ('f, 'a) deferred" where
  "list_op l p s =
     (let s' = on_list l (apply_op (list_options l) p) s
      in if phase (lists s l) = Idle \<and> phase (lists s' l) \<noteq> Idle then s'\<lparr>frames := l # frames s\<rparr> else s')"

text \<open>
  What a program does with a deferred: \<open>progress\<close>, \<open>done\<close> and \<open>fail\<close> of a function, the handlers
  \<open>then\<close> adds, and \<open>notifyWith\<close>, \<open>resolveWith\<close> and \<open>rejectWith\<close>.
\<close>

datatype ('f, 'a) duse = Listen kind 'f | Handle kind 'f | Settle_with kind 'a

definition deferred_use :: "('f, 'a) duse \<Rightarrow> ('f, 'a) deferred \<Rightarrow> ('f, 'a) deferred" where
  "deferred_use u s =
     (case u of
        Listen k f \<Rightarrow> list_op (Main k) (Add [Fn (User f)]) s
      | Handle k f \<Rightarrow> list_op (Handlers k) (Add [Fn (User f)]) s
      | Settle_with k d \<Rightarrow> list_op (Main k) (Fire d) s)"

text \<open>The functions of the deferred, called with the data of the list they are in.\<close>

definition call_own :: "'f dfun \<Rightarrow> 'a \<Rightarrow> ('f, 'a) deferred \<Rightarrow> ('f, 'a) deferred" where
  "call_own g d s =
     (case g of
        SetState x \<Rightarrow> s\<lparr>dstate := x\<rparr>
      | DisableList l \<Rightarrow> list_op l Disable s
      | LockList l \<Rightarrow> list_op l Lock s
      | FireList l \<Rightarrow> list_op l (Fire d) s
      | User f \<Rightarrow> s)"

definition is_user :: "'f dfun \<Rightarrow> bool" where
  "is_user g = (case g of User f \<Rightarrow> True | _ \<Rightarrow> False)"

text \<open>The function that runs in a list whose phase is \<open>Inside\<close>.\<close>

definition running :: "('f dfun, 'a) cb \<Rightarrow> 'f dfun option" where
  "running c = (case calls c of [] \<Rightarrow> None | (g, d) # _ \<Rightarrow> if phase c = Inside then Some g else None)"

definition return_to :: "bool \<Rightarrow> lid \<Rightarrow> ('f, 'a) deferred \<Rightarrow> ('f, 'a) deferred" where
  "return_to r l s = on_list l (returns (list_options l) r) s"

text \<open>A loop that ended returns to the function that started it, if that is one of the deferred.\<close>

definition leave :: "('f, 'a) deferred \<Rightarrow> ('f, 'a) deferred" where
  "leave s =
     (let s' = s\<lparr>frames := tl (frames s)\<rparr>
      in case frames s' of
           [] \<Rightarrow> s'
         | l # _ \<Rightarrow> (case running (lists s' l) of
                      Some g \<Rightarrow> if is_user g then s' else return_to False l s'
                    | None \<Rightarrow> s'))"

definition call_next :: "lid \<Rightarrow> ('f, 'a) deferred \<Rightarrow> ('f, 'a) deferred" where
  "call_next l s =
     (case calls (lists s l) of
        [] \<Rightarrow> s
      | (g, d) # _ \<Rightarrow>
          if is_user g then s
          else (let s' = call_own g d s in if frames s' = frames s then return_to False l s' else s'))"

text \<open>The loop on top of the stack calls its next function, or ends.\<close>

definition loop_step :: "lid \<Rightarrow> ('f, 'a) deferred \<Rightarrow> ('f, 'a) deferred" where
  "loop_step l s =
     (let s' = on_list l (advance (list_options l)) s in
      case phase (lists s' l) of
        Idle \<Rightarrow> leave s'
      | Inside \<Rightarrow> call_next l s'
      | Between \<Rightarrow> s')"

text \<open>The program runs: outside of every loop, or in one of its functions.\<close>

definition program_runs :: "('f, 'a) deferred \<Rightarrow> bool" where
  "program_runs s =
     (case frames s of
        [] \<Rightarrow> True
      | l # _ \<Rightarrow> (case running (lists s l) of Some g \<Rightarrow> is_user g | None \<Rightarrow> False))"

inductive d_step :: "('f, 'a) deferred \<Rightarrow> ('f, 'a) deferred \<Rightarrow> bool" where
  d_use: "program_runs s \<Longrightarrow> d_step s (deferred_use u s)"
| d_loop: "frames s = l # ls \<Longrightarrow> phase (lists s l) = Between \<Longrightarrow> d_step s (loop_step l s)"
| d_return: "frames s = l # ls \<Longrightarrow> program_runs s \<Longrightarrow> d_step s (return_to r l s)"

inductive_cases d_stepE: "d_step s s'"

definition d_reachable :: "('f, 'a) deferred \<Rightarrow> bool" where
  "d_reachable s \<longleftrightarrow> d_step\<^sup>*\<^sup>* deferred_init s"

section \<open>Each list is a callback list\<close>

text \<open>The lists on the stack are those that fire; all but the one on top are inside a callback.\<close>

definition stack_ok :: "('f, 'a) deferred \<Rightarrow> bool" where
  "stack_ok s \<longleftrightarrow> distinct (frames s) \<and> (\<forall>l. phase (lists s l) \<noteq> Idle \<longleftrightarrow> l \<in> set (frames s)) \<and>
     (\<forall>l \<in> set (tl (frames s)). phase (lists s l) = Inside)"

definition lists_ok :: "('f, 'a) deferred \<Rightarrow> bool" where
  "lists_ok s \<longleftrightarrow> (\<forall>l. (cb_step' (list_options l))\<^sup>*\<^sup>* cb_init (lists s l))"

text \<open>No list is between two callbacks: this holds while the program or a function of the deferred runs.\<close>

definition all_inside :: "('f, 'a) deferred \<Rightarrow> bool" where
  "all_inside s \<longleftrightarrow> (\<forall>l. phase (lists s l) \<noteq> Between)"

lemma phase_op:
  "phase c \<noteq> Between \<Longrightarrow> phase (apply_op opts p c) = phase c \<or> phase c = Idle \<and> phase (apply_op opts p c) = Between"
  by (cases p) (auto simp: cb_defs split: option.splits list.splits phase.splits)

lemma inside_phases:
  assumes "stack_ok s" and "all_inside s"
  shows "phase (lists s l) = (if l \<in> set (frames s) then Inside else Idle)"
  using assms by (cases "phase (lists s l)") (auto simp: stack_ok_def all_inside_def)

lemma list_op_ok:
  assumes "stack_ok s" and "lists_ok s" and "all_inside s" and "p \<noteq> Empty"
  shows "stack_ok (list_op l p s) \<and> lists_ok (list_op l p s) \<and>
    (frames (list_op l p s) = frames s \<and> all_inside (list_op l p s) \<or> frames (list_op l p s) = l # frames s)"
proof -
  have "cb_step' (list_options l) (lists s l) (apply_op (list_options l) p (lists s l))"
    by (rule op') (use assms(3,4) in \<open>auto simp: all_inside_def\<close>)
  then have "lists_ok (list_op l p s)"
    using assms(2) by (auto simp: lists_ok_def list_op_def on_list_def Let_def intro: rtranclp.rtrancl_into_rtrancl)
  moreover have "stack_ok (list_op l p s) \<and>
      (frames (list_op l p s) = frames s \<and> all_inside (list_op l p s) \<or> frames (list_op l p s) = l # frames s)"
    using inside_phases [OF assms(1,3)] phase_op [of "lists s l" "list_options l" p] assms(1)
    by (cases "l \<in> set (frames s)")
      (auto simp: stack_ok_def all_inside_def list_op_def on_list_def Let_def dest: list.set_sel(2))
  ultimately show ?thesis by blast
qed


lemma lists_on_list [simp]: "lists (on_list l g s) m = (if m = l then g (lists s l) else lists s m)"
  and frames_on_list [simp]: "frames (on_list l g s) = frames s"
  and dstate_on_list [simp]: "dstate (on_list l g s) = dstate s"
  by (simp_all add: on_list_def)

lemma stack_ok_top:
  assumes "stack_ok s" and "frames s = l # ls"
  shows "phase (g (lists s l)) \<noteq> Idle \<Longrightarrow> stack_ok (on_list l g s)"
    and "phase (g (lists s l)) = Idle \<Longrightarrow> stack_ok (on_list l g s\<lparr>frames := ls\<rparr>) \<and> all_inside (on_list l g s\<lparr>frames := ls\<rparr>)"
proof -
  show "phase (g (lists s l)) \<noteq> Idle \<Longrightarrow> stack_ok (on_list l g s)"
    using assms by (auto simp: stack_ok_def)
  assume i: "phase (g (lists s l)) = Idle"
  have "phase (lists s m) = (if m \<in> set ls then Inside else Idle)" if "m \<noteq> l" for m
    using assms that by (auto simp: stack_ok_def)
  with i assms show "stack_ok (on_list l g s\<lparr>frames := ls\<rparr>) \<and> all_inside (on_list l g s\<lparr>frames := ls\<rparr>)"
    by (cases ls) (auto simp: stack_ok_def all_inside_def split: if_splits)
qed

lemma lists_ok_step:
  "lists_ok s \<Longrightarrow> cb_step' (list_options l) (lists s l) (g (lists s l)) \<Longrightarrow> lists_ok (on_list l g s)"
  by (auto simp: lists_ok_def intro: rtranclp.rtrancl_into_rtrancl)

lemma lists_ok_frames [simp]: "lists_ok (s\<lparr>frames := ls\<rparr>) = lists_ok s"
  by (simp add: lists_ok_def)

lemma return_to_ok:
  assumes "stack_ok s" and "lists_ok s" and "frames s = l # ls" and "phase (lists s l) = Inside"
  shows "stack_ok (return_to r l s) \<and> lists_ok (return_to r l s)"
  unfolding return_to_def
proof
  show "stack_ok (on_list l (returns (list_options l) r) s)"
    by (rule stack_ok_top [OF assms(1,3)]) (simp add: returns_def)
  show "lists_ok (on_list l (returns (list_options l) r) s)"
    by (rule lists_ok_step [OF assms(2)]) (rule return' [OF assms(4)])
qed

lemma call_own_ok:
  assumes "stack_ok s" and "lists_ok s" and "all_inside s"
  shows "stack_ok (call_own g d s) \<and> lists_ok (call_own g d s) \<and>
    (frames (call_own g d s) = frames s \<and> all_inside (call_own g d s) \<or> (\<exists>l. frames (call_own g d s) = l # frames s))"
proof (cases g)
  case (SetState x)
  with assms show ?thesis by (simp add: call_own_def stack_ok_def lists_ok_def all_inside_def)
qed (use assms list_op_ok [OF assms] in \<open>auto simp: call_own_def\<close>)

lemma call_next_ok:
  assumes "stack_ok s" and "lists_ok s" and "all_inside s" and "frames s = l # ls"
  shows "stack_ok (call_next l s) \<and> lists_ok (call_next l s)"
proof (cases "calls (lists s l)")
  case Nil
  with assms show ?thesis by (simp add: call_next_def)
next
  case (Cons gd cs)
  obtain g d where gd: "gd = (g, d)" by (cases gd)
  from call_own_ok [OF assms(1-3), of g d]
  consider "frames (call_own g d s) = frames s" "all_inside (call_own g d s)" "stack_ok (call_own g d s)" "lists_ok (call_own g d s)"
    | m where "frames (call_own g d s) = m # frames s" "stack_ok (call_own g d s)" "lists_ok (call_own g d s)" by blast
  then show ?thesis
  proof cases
    case 1
    then have "phase (lists (call_own g d s) l) = Inside" using inside_phases [of "call_own g d s" l] assms(4) by simp
    with 1 return_to_ok [of "call_own g d s" l ls False] Cons gd assms show ?thesis by (simp add: call_next_def Let_def)
  next
    case 2
    with Cons gd assms show ?thesis by (simp add: call_next_def Let_def)
  qed
qed

lemma leave_ok:
  assumes "stack_ok (s\<lparr>frames := tl (frames s)\<rparr>)" and "all_inside s" and "lists_ok s"
  shows "stack_ok (leave s) \<and> lists_ok (leave s)"
proof (cases "tl (frames s)")
  case Nil
  with assms show ?thesis by (simp add: leave_def Let_def)
next
  case (Cons l ls)
  let ?s = "s\<lparr>frames := tl (frames s)\<rparr>"
  have "phase (lists ?s l) = Inside" using inside_phases [OF assms(1), of l] assms(2) Cons by (simp add: all_inside_def)
  with return_to_ok [OF assms(1), of l ls False] assms Cons show ?thesis
    by (auto simp: leave_def Let_def split: option.split)
qed

lemma loop_step_ok:
  assumes "stack_ok s" and "lists_ok s" and "frames s = l # ls" and "phase (lists s l) = Between"
  shows "stack_ok (loop_step l s) \<and> lists_ok (loop_step l s)"
proof -
  let ?g = "advance (list_options l)"
  let ?s = "on_list l ?g s"
  have l: "lists_ok ?s" by (rule lists_ok_step [OF assms(2)]) (rule loop' [OF assms(4)])
  show ?thesis
  proof (cases "phase (?g (lists s l))")
    case Idle
    from stack_ok_top(2) [where g = ?g, OF assms(1,3) Idle] leave_ok [of ?s] l assms(3) Idle show ?thesis
      by (simp add: loop_step_def all_inside_def)
  next
    case Between
    with stack_ok_top(1) [OF assms(1,3), of ?g] l show ?thesis by (simp add: loop_step_def Let_def)
  next
    case Inside
    then have k: "stack_ok ?s" using stack_ok_top(1) [OF assms(1,3), of ?g] by simp
    have "all_inside ?s"
      using assms(1,3) Inside by (auto simp: stack_ok_def all_inside_def)
    with call_next_ok [OF k l, of l ls] assms(3) Inside show ?thesis by (simp add: loop_step_def)
  qed
qed

lemma program_inside:
  assumes "stack_ok s" and "program_runs s"
  shows "all_inside s"
proof (cases "frames s")
  case Nil
  with assms(1) have "phase (lists s l) = Idle" for l by (simp add: stack_ok_def)
  then show ?thesis by (simp add: all_inside_def)
next
  case (Cons l ls)
  with assms(2) have "phase (lists s l) = Inside"
    by (auto simp: program_runs_def running_def split: option.splits list.splits if_splits)
  with assms(1) Cons show ?thesis by (auto simp: stack_ok_def all_inside_def) (metis phase.distinct(1,5) set_ConsD)
qed

lemma d_step_ok:
  assumes "d_step s s'" and "stack_ok s \<and> lists_ok s"
  shows "stack_ok s' \<and> lists_ok s'"
  using assms(1)
proof cases
  case (d_use u)
  with assms(2) program_inside list_op_ok show ?thesis
    by (cases u) (auto simp: deferred_use_def)
next
  case (d_loop l ls)
  with assms(2) loop_step_ok show ?thesis by blast
next
  case (d_return l ls r)
  then have "phase (lists s l) = Inside"
    by (auto simp: program_runs_def running_def split: option.splits list.splits if_splits)
  with d_return assms(2) return_to_ok show ?thesis by blast
qed

lemma init_ok: "stack_ok (deferred_init :: ('f, 'a) deferred) \<and> lists_ok (deferred_init :: ('f, 'a) deferred)"
proof
  have idle: "phase (new_list l) = Idle" for l :: lid
    by (cases l) (simp_all add: new_list_def add_def cb_init_def)
  show "stack_ok (deferred_init :: ('f, 'a) deferred)" by (simp add: deferred_init_def stack_ok_def idle)
  have "cb_step' opts cb_init (apply_op opts (Add (map Fn fs)) (cb_init :: ('f dfun, 'a) cb))" for opts fs
    by (rule op') (simp_all add: cb_init_def)
  then have "(cb_step' opts)\<^sup>*\<^sup>* cb_init (add opts (map Fn fs) (cb_init :: ('f dfun, 'a) cb))" for opts fs
    by (metis apply_op.simps(1) r_into_rtranclp)
  then show "lists_ok (deferred_init :: ('f, 'a) deferred)"
    by (auto simp: lists_ok_def deferred_init_def new_list_def split: lid.split)
qed

lemma d_reachable_ok: "d_reachable s \<Longrightarrow> stack_ok s \<and> lists_ok s"
  unfolding d_reachable_def
proof (induction rule: rtranclp_induct)
  case base
  show ?case by (rule init_ok)
next
  case (step s s')
  then show ?case using d_step_ok by blast
qed


section \<open>Settling\<close>

lemma once_list: "k \<noteq> Notify \<Longrightarrow> once (list_options (Main k))"
  by (cases k) (simp_all add: list_options_def options_of_def createOptions_def rnotwhite_words_def is_space_def code_def
      obj_get_def obj_put_def Let_def)

text \<open>What can stand in a list.\<close>

definition belongs :: "lid \<Rightarrow> 'f dfun \<Rightarrow> bool" where
  "belongs l x \<longleftrightarrow> is_user x \<or> (case l of Main k \<Rightarrow> x \<in> set (own_functions k) | Handlers k \<Rightarrow> False)"

definition members_ok :: "('f, 'a) deferred \<Rightarrow> bool" where
  "members_ok s \<longleftrightarrow> (\<forall>l. \<forall>x \<in> set (the_items (lists s l)). belongs l x)"

definition plain_op :: "('f dfun, 'a) cb_op \<Rightarrow> bool" where
  "plain_op p \<longleftrightarrow> (case p of Add as \<Rightarrow> \<exists>f. as = [Fn (User f)] | Fire d \<Rightarrow> True | Disable \<Rightarrow> True | Lock \<Rightarrow> True | _ \<Rightarrow> False)"

lemma items_op: "plain_op p \<Longrightarrow> set (the_items (apply_op opts p c)) \<subseteq> set (the_items c) \<union> Collect is_user"
  by (cases p) (auto simp: plain_op_def cb_defs the_items_def is_user_def split: option.splits list.splits if_splits)

lemma items_advance: "set (the_items (advance opts c)) \<subseteq> set (the_items c)"
  by (auto simp: cb_defs the_items_def split: option.splits list.splits if_splits)

lemma items_returns [simp]: "the_items (returns opts r c) = the_items c"
  by (simp add: returns_def the_items_def)

lemma lists_list_op: "lists (list_op l p s) m = (if m = l then apply_op (list_options l) p (lists s l) else lists s m)"
  by (simp add: list_op_def Let_def)

lemma members_list_op: "members_ok s \<Longrightarrow> plain_op p \<Longrightarrow> members_ok (list_op l p s)"
  using items_op [of p "list_options l" "lists s l"]
  by (auto simp: members_ok_def lists_list_op belongs_def)

lemma members_call_own: "members_ok s \<Longrightarrow> members_ok (call_own g d s)"
proof (cases g)
  case (SetState x)
  assume "members_ok s"
  with SetState show ?thesis by (simp add: call_own_def members_ok_def)
qed (auto simp: call_own_def plain_op_def intro: members_list_op)

lemma members_return: "members_ok s \<Longrightarrow> members_ok (return_to r l s)"
  by (simp add: members_ok_def return_to_def)

lemma members_leave: "members_ok s \<Longrightarrow> members_ok (leave s)"
proof -
  assume "members_ok s"
  then have "members_ok (s\<lparr>frames := tl (frames s)\<rparr>)" by (simp add: members_ok_def)
  then show ?thesis by (auto simp: leave_def Let_def members_return split: list.split option.split)
qed

lemma members_step:
  assumes "d_step s s'" and "members_ok s"
  shows "members_ok s'"
  using assms(1)
proof cases
  case (d_use u)
  with assms(2) show ?thesis by (cases u) (auto simp: deferred_use_def plain_op_def intro!: members_list_op)
next
  case (d_loop l ls)
  have "members_ok (on_list l (advance (list_options l)) s)"
    using assms(2) items_advance [of "list_options l" "lists s l"] by (auto simp: members_ok_def)
  with d_loop show ?thesis
    by (auto simp: loop_step_def call_next_def Let_def intro: members_leave members_return members_call_own
        split: phase.split list.split)
next
  case (d_return l ls r)
  with assms(2) members_return show ?thesis by blast
qed

text \<open>A list that has never fired.\<close>

definition silent :: "('f dfun, 'a) cb \<Rightarrow> bool" where
  "silent c \<longleftrightarrow> phase c = Idle \<and> memory c = None \<and> queue c = [] \<and> calls c = []"

definition fresh :: "kind \<Rightarrow> ('f dfun, 'a) cb \<Rightarrow> bool" where
  "fresh k c \<longleftrightarrow> silent c \<and> \<not> locked c \<and> firingIndex c = -1 \<and>
     (\<exists>fs. items c = Some (own_functions k @ map User fs))"

definition pending :: "('f, 'a) deferred \<Rightarrow> bool" where
  "pending s \<longleftrightarrow> dstate s = Pending \<and>
     (\<forall>k \<in> {Resolve, Reject}. fresh k (lists s (Main k)) \<and> silent (lists s (Handlers k)))"

text \<open>The list that settles the deferred has called at most the function that sets the state.\<close>

definition settling :: "kind \<Rightarrow> ('f, 'a) deferred \<Rightarrow> bool" where
  "settling k s \<longleftrightarrow> k \<noteq> Notify \<and> (\<exists>ls d fs j. let c = lists s (Main k) in
     frames s = Main k # ls \<and> phase c = Between \<and> memory c = Some d \<and>
     items c = Some (own_functions k @ map User fs) \<and> firingIndex c = int j - 1 \<and> j \<le> 1 \<and>
     calls c = (if j = 0 then [] else [(SetState (state_string k), d)]) \<and>
     dstate s = (if j = 0 then Pending else state_string k) \<and>
     fresh (opposite k) (lists s (Main (opposite k))) \<and> silent (lists s (Handlers (opposite k))) \<and>
     silent (lists s (Handlers k)))"

definition settled :: "kind \<Rightarrow> ('f, 'a) deferred \<Rightarrow> bool" where
  "settled k s \<longleftrightarrow> k \<noteq> Notify \<and> dstate s = state_string k \<and> items (lists s (Main (opposite k))) = None \<and>
     locked (lists s (Main (opposite k))) \<and>
     silent (lists s (Main (opposite k))) \<and> silent (lists s (Handlers (opposite k)))"

lemma kinds [simp]: "opposite Resolve = Reject" "opposite Reject = Resolve" "state_string Resolve = Resolved"
  "state_string Reject = Rejected" "own_functions Notify = [FireList (Handlers Notify)]"
  by (simp_all add: opposite_def state_string_def own_functions_def)

lemma opposite_opposite [simp]: "opposite (opposite k) = k"
  by (simp add: opposite_def split: kind.split)

lemma opposite_Notify [simp]: "opposite k = Notify \<longleftrightarrow> k = Notify"
  "opposite k = k \<longleftrightarrow> k = Notify"
  "k = opposite k \<longleftrightarrow> k = Notify"
  by (simp_all add: opposite_def split: kind.split)

lemma kind_cases: "j \<notin> {Notify, opposite k} \<Longrightarrow> k \<noteq> Notify \<Longrightarrow> j = k"
  by (cases j; cases k) simp_all

lemma silent_add: "silent c \<Longrightarrow> silent (add opts as c)"
  by (auto simp: silent_def add_def split: option.split)

lemma fresh_add: "fresh k c \<Longrightarrow> fresh k (add opts [Fn (User f)] c)"
proof -
  assume "fresh k c"
  then obtain fs where "items c = Some (own_functions k @ map User fs)" "silent c" "\<not> locked c" "firingIndex c = -1"
    by (auto simp: fresh_def)
  moreover have "map User fs @ [User f] = map User (fs @ [f])" by simp
  ultimately show ?thesis
    unfolding fresh_def silent_def add_def by simp (metis map_append list.map)
qed

lemma silent_settled_op:
  "items c = None \<and> locked c \<and> silent c \<Longrightarrow> plain_op p \<Longrightarrow>
   items (apply_op opts p c) = None \<and> locked (apply_op opts p c) \<and> silent (apply_op opts p c)"
  by (cases p) (auto simp: plain_op_def silent_def cb_defs)


lemma list_op_fields [simp]: "dstate (list_op l p s) = dstate s"
  by (simp add: list_op_def Let_def)

lemma lists_return_to: "lists (return_to r l s) m = (if m = l then returns (list_options l) r (lists s l) else lists s m)"
  and dstate_return_to [simp]: "dstate (return_to r l s) = dstate s"
  and frames_return_to [simp]: "frames (return_to r l s) = frames s"
  by (simp_all add: return_to_def)

lemma leave_cases:
  "(\<exists>m g. running (lists s m) = Some g \<and> leave s = return_to False m (s\<lparr>frames := tl (frames s)\<rparr>)) \<or>
   leave s = s\<lparr>frames := tl (frames s)\<rparr>"
  by (auto simp: leave_def Let_def split: list.split option.split)

text \<open>
  Steps that leave the two lists of \<open>k\<close> alone: everything but the operations of the program on them
  and the functions that are in the list of \<open>k\<close> itself.
\<close>

definition same_pair :: "kind \<Rightarrow> ('f, 'a) deferred \<Rightarrow> ('f, 'a) deferred \<Rightarrow> bool" where
  "same_pair k s s' \<longleftrightarrow> lists s' (Main k) = lists s (Main k) \<and> lists s' (Handlers k) = lists s (Handlers k)"

definition pair_silent :: "kind \<Rightarrow> ('f, 'a) deferred \<Rightarrow> bool" where
  "pair_silent k s \<longleftrightarrow> phase (lists s (Main k)) = Idle \<and> phase (lists s (Handlers k)) = Idle"

lemma leave_same: "pair_silent k s \<Longrightarrow> same_pair k s (leave s) \<and> dstate (leave s) = dstate s"
proof -
  assume "pair_silent k s"
  then have "running (lists s (Main k)) = None" "running (lists s (Handlers k)) = None"
    by (auto simp: pair_silent_def running_def split: list.split)
  with leave_cases [of s] show ?thesis
    by (elim disjE) (auto simp: same_pair_def lists_return_to)
qed

lemma lists_ok_reachable: "lists_ok s \<Longrightarrow> cb_reachable (list_options l) (lists s l)"
proof -
  assume "lists_ok s"
  then have "(cb_step' (list_options l))\<^sup>*\<^sup>* cb_init (lists s l)" by (simp add: lists_ok_def)
  moreover have "cb_step' (list_options l) \<le> cb_step (list_options l)" using cb_step'_step by blast
  ultimately show ?thesis unfolding cb_reachable_def by (meson rtranclp_mono predicate2D)
qed

lemma lists_ok_shape: "lists_ok s \<Longrightarrow> cb_shape (lists s l)"
  by (rule cb_reachable_shape [OF lists_ok_reachable])

lemma advance_called:
  assumes "cb_shape c" and "phase c = Between" and "phase (advance opts c) = Inside"
  shows "\<exists>g d. calls (advance opts c) = (g, d) # calls c \<and> g \<in> set (the_items c)"
proof -
  have "nat (firingIndex c + 1) < length (the_items c)" if "firingIndex c + 1 < int (length (the_items c))"
    using that assms(1) by (auto simp: cb_shape_def)
  with assms show ?thesis by (auto simp: cb_defs split: option.splits list.splits if_splits)
qed

text \<open>The function a loop calls is one of its own list.\<close>

lemma belongs_own:
  "belongs l (SetState x) \<longleftrightarrow> (\<exists>k. k \<noteq> Notify \<and> l = Main k \<and> x = state_string k)"
  "belongs l (DisableList m) \<longleftrightarrow> (\<exists>k. k \<noteq> Notify \<and> l = Main k \<and> m = Main (opposite k))"
  "belongs l (LockList m) \<longleftrightarrow> (\<exists>k. k \<noteq> Notify \<and> l = Main k \<and> m = Main Notify)"
  "belongs l (FireList m) \<longleftrightarrow> (\<exists>k. l = Main k \<and> m = Handlers k)"
  by (auto simp: belongs_def own_functions_def is_user_def split: lid.splits)

lemma loop_step_same:
  assumes "pair_silent k s" and "phase (lists s l) = Between" and "members_ok s" and "lists_ok s" and "k \<noteq> Notify"
    and "phase (lists s (Main (opposite k))) = Between \<Longrightarrow> disable (lists s (Main k)) = lists s (Main k)"
  shows "same_pair k s (loop_step l s) \<and>
    (dstate (loop_step l s) = dstate s \<or>
     (\<exists>j. j \<notin> {Notify, k} \<and> phase (lists s (Main j)) = Between \<and> dstate (loop_step l s) = state_string j))"
proof -
  let ?g = "advance (list_options l)"
  let ?s = "on_list l ?g s"
  have l: "l \<noteq> Main k" "l \<noteq> Handlers k" using assms(1,2) by (auto simp: pair_silent_def)
  then have q: "pair_silent k ?s" "same_pair k s ?s" using assms(1) by (auto simp: pair_silent_def same_pair_def)
  show ?thesis
  proof (cases "phase (?g (lists s l))")
    case Idle
    with leave_same [OF q(1)] q(2) show ?thesis by (simp add: loop_step_def same_pair_def)
  next
    case Between
    with q(2) show ?thesis by (simp add: loop_step_def)
  next
    case Inside
    from advance_called [OF lists_ok_shape [OF assms(4)] assms(2) this] obtain g d where
      g: "calls (?g (lists s l)) = (g, d) # calls (lists s l)" "g \<in> set (the_items (lists s l))" by blast
    then have b: "belongs l g" using assms(3) by (simp add: members_ok_def)
    have "same_pair k ?s (call_own g d ?s)"
    proof (cases g)
      case (DisableList m)
      with b l assms(2,5,6) show ?thesis
        by (auto simp: belongs_own call_own_def same_pair_def lists_list_op)
    qed (use b l assms(5) in \<open>auto simp: belongs_own call_own_def same_pair_def lists_list_op\<close>)
    moreover have "dstate (call_own g d ?s) = dstate s \<or> (\<exists>x. g = SetState x \<and> dstate (call_own g d ?s) = x)"
      by (cases g) (auto simp: call_own_def)
    moreover have "\<exists>j. j \<notin> {Notify, k} \<and> phase (lists s (Main j)) = Between \<and> x = state_string j" if "g = SetState x" for x
      using b that l assms(2) by (auto simp: belongs_own)
    ultimately show ?thesis using Inside g q(2) l
      by (auto simp: loop_step_def call_next_def Let_def same_pair_def lists_return_to)
  qed
qed


definition settle_inv :: "('f, 'a) deferred \<Rightarrow> bool" where
  "settle_inv s \<longleftrightarrow> pending s \<or> (\<exists>k. settling k s) \<or> (\<exists>k. settled k s)"

lemma use_lists:
  "lists (deferred_use u s) m =
     (case u of
        Listen k f \<Rightarrow> if m = Main k then add (list_options m) [Fn (User f)] (lists s m) else lists s m
      | Handle k f \<Rightarrow> if m = Handlers k then add (list_options m) [Fn (User f)] (lists s m) else lists s m
      | Settle_with k d \<Rightarrow> if m = Main k then fireWith (list_options m) d (lists s m) else lists s m)"
  by (simp add: deferred_use_def lists_list_op split: duse.split)

lemma dstate_use [simp]: "dstate (deferred_use u s) = dstate s"
  by (simp add: deferred_use_def split: duse.split)

lemma running_Inside: "running c = Some g \<Longrightarrow> phase c = Inside"
  by (auto simp: running_def split: list.splits if_splits)

lemma return_same:
  assumes "pair_silent k s" and "frames s = l # ls" and "program_runs s"
  shows "same_pair k s (return_to r l s)"
  using assms by (auto simp: program_runs_def same_pair_def lists_return_to pair_silent_def
      split: option.splits dest!: running_Inside)

lemma settled_step:
  assumes "settled k s" and "d_step s s'" and "lists_ok s" and "members_ok s"
  shows "settled k s'"
proof -
  let ?o = "opposite k"
  have a: "k \<noteq> Notify" "dstate s = state_string k" "items (lists s (Main ?o)) = None" "locked (lists s (Main ?o))"
    "silent (lists s (Main ?o))" "silent (lists s (Handlers ?o))" using assms(1) by (auto simp: settled_def)
  then have p: "pair_silent ?o s" by (simp add: pair_silent_def silent_def)
  have same: "same_pair ?o s s' \<Longrightarrow> dstate s' = state_string k \<Longrightarrow> settled k s'"
    using a by (simp add: settled_def same_pair_def)
  show ?thesis using assms(2)
  proof cases
    case (d_use u)
    have "plain_op (Add [Fn (User f)])" "plain_op (Fire d)" for f d by (simp_all add: plain_op_def)
    from this [THEN silent_settled_op [rotated], of "lists s (Main ?o)"] a d_use show ?thesis
      by (auto simp: settled_def use_lists silent_add split: duse.split)
  next
    case (d_loop l ls)
    have "disable (lists s (Main ?o)) = lists s (Main ?o)"
      using a by (cases "lists s (Main ?o)") (simp add: disable_def silent_def)
    from loop_step_same [OF p d_loop(3) assms(4,3)] this a(1)
    have "same_pair ?o s s'" "dstate s' = dstate s \<or> (\<exists>j. j \<notin> {Notify, ?o} \<and> dstate s' = state_string j)"
      unfolding d_loop(1) by auto
    with a(1,2) kind_cases show ?thesis by (metis same)
  next
    case (d_return l ls r)
    with return_same [OF p] a show ?thesis by (intro same) auto
  qed
qed

lemma pending_step:
  assumes "pending s" and "d_step s s'" and "lists_ok s" and "members_ok s"
  shows "settle_inv s'"
proof -
  have a: "fresh k (lists s (Main k)) \<and> silent (lists s (Main k)) \<and> silent (lists s (Handlers k))" if "k \<noteq> Notify" for k
    using assms(1) that by (cases k) (auto simp: pending_def fresh_def)
  then have p: "pair_silent k s" if "k \<noteq> Notify" for k using that by (auto simp: pair_silent_def silent_def)
  have same: "(\<And>k. k \<noteq> Notify \<Longrightarrow> same_pair k s s') \<Longrightarrow> dstate s' = Pending \<Longrightarrow> settle_inv s'"
    using a by (auto simp: settle_inv_def pending_def same_pair_def)
  have st: "dstate s = Pending" using assms(1) by (simp add: pending_def)
  show ?thesis using assms(2)
  proof cases
    case (d_use u)
    show ?thesis
    proof (cases "\<exists>k d. u = Settle_with k d \<and> k \<noteq> Notify")
      case False
      with a st d_use have "pending s'"
        by (auto simp: pending_def use_lists fresh_add silent_add split: duse.split)
      then show ?thesis by (simp add: settle_inv_def)
    next
      case True
      then obtain k d where u: "u = Settle_with k d" "k \<noteq> Notify" by blast
      let ?c = "lists s (Main k)"
      obtain fs where c: "phase ?c = Idle" "queue ?c = []" "calls ?c = []" "\<not> locked ?c" "firingIndex ?c = -1"
        "items ?c = Some (own_functions k @ map User fs)" using a [OF u(2)] by (auto simp: fresh_def silent_def)
      have f: "fireWith (list_options (Main k)) d ?c =
          ?c\<lparr>locked := True, fired := True, memory := Some d, queue := [], phase := Between\<rparr>"
        using c once_list [OF u(2)] by (simp add: fireWith_def firing_def fire_def next_data_def Let_def)
      have "settling k s'"
        unfolding settling_def Let_def
      proof (intro conjI exI)
        show "frames s' = Main k # frames s" using d_use u f c by (simp add: deferred_use_def list_op_def Let_def)
        show "calls (lists s' (Main k)) = (if (0::nat) = 0 then [] else [(SetState (state_string k), d)])"
          using d_use u f c by (simp add: use_lists)
      qed (use a a [of "opposite k"] d_use u f c st in \<open>auto simp: use_lists\<close>)
      then show ?thesis by (auto simp: settle_inv_def)
    qed
  next
    case (d_loop l ls)
    have "same_pair k s s' \<and> dstate s' = Pending" if "k \<noteq> Notify" for k
      using loop_step_same [OF p [OF that] d_loop(3) assms(4,3) that] p st d_loop(1)
      by (auto simp: pair_silent_def that)
    from this [of Resolve] this show ?thesis by (intro same) auto
  next
    case (d_return l ls r)
    with return_same [OF p d_return(2,3)] st show ?thesis by (intro same) simp_all
  qed
qed

lemma settling_step:
  fixes s :: "('f, 'a) deferred"
  assumes "settling k s" and "d_step s s'"
  shows "settle_inv s' \<and> dstate s' = state_string k"
proof -
  let ?c = "lists s (Main k)"
  obtain ls d fs j where c: "k \<noteq> Notify" "frames s = Main k # ls" "phase ?c = Between" "memory ?c = Some d"
    "items ?c = Some (own_functions k @ map User fs)" "firingIndex ?c = int j - 1" "j \<le> 1"
    "calls ?c = (if j = 0 then [] else [(SetState (state_string k), d)])"
    "dstate s = (if j = 0 then Pending else state_string k)"
    "fresh (opposite k) (lists s (Main (opposite k)))" "silent (lists s (Handlers (opposite k)))" "silent (lists s (Handlers k))"
    using assms(1) unfolding settling_def Let_def by blast
  have own: "(own_functions k :: 'f dfun list) = [SetState (state_string k), DisableList (Main (opposite k)), LockList (Main Notify), FireList (Handlers k)]"
    using c(1) by (simp add: own_functions_def)
  have "running ?c = None" using c(3) by (auto simp: running_def split: list.split)
  with c(2) have "\<not> program_runs s" by (simp add: program_runs_def)
  with assms(2) c(2) have s': "s' = loop_step (Main k) s" by (auto elim!: d_stepE)
  have adv: "advance (list_options (Main k)) ?c =
      ?c\<lparr>firingIndex := int j, phase := Inside, calls := (own_functions k ! j, d) # calls ?c\<rparr>"
    using c by (cases j) (simp_all add: advance_def the_items_def own)
  show ?thesis
  proof (cases j)
    case 0
    then have s1: "s' = return_to False (Main k) ((on_list (Main k) (advance (list_options (Main k))) s)\<lparr>dstate := state_string k\<rparr>)"
      using s' adv own by (simp add: loop_step_def call_next_def call_own_def is_user_def Let_def)
    have "settling k s'"
      unfolding settling_def Let_def
    proof (intro conjI exI)
      show "calls (lists s' (Main k)) = (if (1::nat) = 0 then [] else [(SetState (state_string k), d)])"
        using s1 adv own c 0 by (simp add: lists_return_to returns_def)
      show "frames s' = Main k # ls" using s1 c by simp
    qed (use s1 adv own c 0 in \<open>auto simp: lists_return_to returns_def\<close>)
    then show ?thesis using s1 by (auto simp: settle_inv_def)
  next
    case (Suc n)
    then have j: "j = 1" using c(7) by simp
    let ?s1 = "on_list (Main k) (advance (list_options (Main k))) s"
    let ?s2 = "list_op (Main (opposite k)) Disable ?s1"
    have "phase (lists s (Main (opposite k))) = Idle" using c(10) by (simp add: fresh_def silent_def)
    then have f: "frames ?s2 = frames ?s1" using c(1) by (simp add: list_op_def Let_def disable_def)
    then have s2: "s' = return_to False (Main k) ?s2"
      using s' adv own j by (simp add: loop_step_def call_next_def call_own_def is_user_def Let_def)
    have "settled k s'"
      using s2 c j by (auto simp: settled_def lists_return_to lists_list_op disable_def silent_def fresh_def)
    then show ?thesis by (auto simp: settle_inv_def settled_def)
  qed
qed


lemma settle_inv_step:
  assumes "settle_inv s" and "d_step s s'" and "lists_ok s" and "members_ok s"
  shows "settle_inv s'"
  using assms pending_step settling_step settled_step unfolding settle_inv_def [of s] by (metis settle_inv_def)

lemma state_kept:
  assumes "d_step s s'" and "lists_ok s" and "members_ok s" and "settle_inv s" and "dstate s \<noteq> Pending"
  shows "dstate s' = dstate s"
  using assms(4) unfolding settle_inv_def
proof (elim disjE exE)
  fix k assume k: "settling k s"
  then have "dstate s = state_string k" using assms(5) by (auto simp: settling_def Let_def)
  with settling_step [OF k assms(1)] show ?thesis by simp
next
  fix k assume k: "settled k s"
  from settled_step [OF k assms(1-3)] k show ?thesis by (simp add: settled_def)
qed (use assms(5) in \<open>simp add: pending_def\<close>)

lemma d_invariants:
  fixes s :: "('f, 'a) deferred"
  assumes "d_reachable s"
  shows "stack_ok s \<and> lists_ok s \<and> members_ok s \<and> settle_inv s"
  using assms unfolding d_reachable_def
proof (induction rule: rtranclp_induct)
  case base
  let ?s = "deferred_init :: ('f, 'a) deferred"
  have "fresh k (lists ?s (Main k))" if "k \<noteq> Notify" for k
  proof -
    have "fold (add_arg u) (map Fn (own_functions k)) [] = (own_functions k :: 'f dfun list)" for u
      using that by (auto simp: own_functions_def state_string_def)
    then show ?thesis
      by (auto simp: fresh_def silent_def deferred_init_def new_list_def add_def cb_init_def intro!: exI [of _ "[]"])
  qed
  from this [of Resolve] this [of Reject] have "pending ?s"
    by (simp add: pending_def deferred_init_def new_list_def silent_def cb_init_def)
  moreover have "members_ok ?s"
    by (auto simp: members_ok_def deferred_init_def new_list_def add_def cb_init_def the_items_def belongs_def own_functions_def
        split: lid.splits if_splits)
  ultimately show ?case using init_ok [where 'f = 'f and 'a = 'a] by (simp add: settle_inv_def)
next
  case (step s s')
  then show ?case using d_step_ok members_step settle_inv_step by blast
qed

section \<open>Properties\<close>

text \<open>
  C3: a deferred settles once. The listeners of \<open>done\<close> and the handlers of \<open>then\<close> for success are
  called only when it is resolved, those of \<open>fail\<close> only when it is rejected, whatever listeners do to
  it while it settles; all calls of one of these lists have the same data; and the state it has
  settled in never changes.
\<close>

theorem deferred_settles_once:
  assumes "d_reachable s" and "k \<noteq> Notify" and "l \<in> {Main k, Handlers k}"
  shows "((User f, d) \<in> set (calls (lists s l)) \<longrightarrow> dstate s = state_string k) \<and>
    (\<exists>e. snd ` set (calls (lists s l)) \<subseteq> {e}) \<and>
    (d_step\<^sup>*\<^sup>* s t \<and> dstate s \<noteq> Pending \<longrightarrow> dstate t = dstate s)"
proof (intro conjI impI)
  from d_invariants [OF assms(1)] have inv: "lists_ok s" "settle_inv s" by auto
  assume "(User f, d) \<in> set (calls (lists s l))"
  with inv(2) assms(2,3) show "dstate s = state_string k"
    unfolding settle_inv_def
  proof (elim disjE exE)
    fix j assume "settling j s"
    moreover have "j = k \<or> opposite j = k" using assms(2) kind_cases [of k j] \<open>settling j s\<close> by (auto simp: settling_def)
    ultimately show "(User f, d) \<in> set (calls (lists s l)) \<Longrightarrow> dstate s = state_string k"
      using assms(3) by (auto simp: settling_def Let_def fresh_def silent_def split: if_splits)
  next
    fix j assume "settled j s"
    moreover have "j = k \<or> opposite j = k" using assms(2) kind_cases [of k j] \<open>settled j s\<close> by (auto simp: settled_def)
    ultimately show "(User f, d) \<in> set (calls (lists s l)) \<Longrightarrow> dstate s = state_string k"
      using assms(3) by (auto simp: settled_def silent_def)
  qed (cases k; auto simp: pending_def fresh_def silent_def)
next
  have "once (list_options l)"
    using assms(2,3) once_list by (cases k) (auto simp: list_options_def)
  moreover have "cb_reachable (list_options l) (lists s l)"
    using d_invariants [OF assms(1)] lists_ok_reachable by blast
  ultimately show "\<exists>e. snd ` set (calls (lists s l)) \<subseteq> {e}" by (rule once_one_data)
next
  assume a: "d_step\<^sup>*\<^sup>* s t \<and> dstate s \<noteq> Pending"
  then have "d_step\<^sup>*\<^sup>* s t" by simp
  then have "dstate t = dstate s \<and> d_reachable t"
  proof (induction rule: rtranclp_induct)
    case base
    show ?case using assms(1) by simp
  next
    case (step t u)
    from d_invariants [of t] step.IH have i: "lists_ok t" "members_ok t" "settle_inv t" by auto
    have "d_reachable u" using step.IH step.hyps(2) by (auto simp: d_reachable_def)
    moreover have "dstate u = dstate t"
      by (rule state_kept [OF step.hyps(2) i]) (use step.IH a in simp)
    ultimately show ?case using step.IH by simp
  qed
  then show "dstate t = dstate s" by simp
qed


text \<open>The loops and the listeners run to their end, when listeners leave the deferred alone.\<close>

fun run_all :: "nat \<Rightarrow> ('f, 'a) deferred \<Rightarrow> ('f, 'a) deferred" where
  "run_all 0 s = s"
| "run_all (Suc n) s =
     (case frames s of
        [] \<Rightarrow> s
      | l # ls \<Rightarrow>
          if phase (lists s l) = Between then run_all n (loop_step l s)
          else if program_runs s then run_all n (return_to False l s)
          else s)"

lemma run_all_reachable: "d_reachable s \<Longrightarrow> d_reachable (run_all n s)"
proof (induction n arbitrary: s)
  case (Suc n)
  have "d_step s t \<Longrightarrow> d_reachable t" for t using Suc.prems by (auto simp: d_reachable_def)
  with Suc.IH Suc.prems show ?case by (auto split: list.split intro: d_step.intros)
qed simp

lemma use_reachable: "d_reachable s \<Longrightarrow> frames s = [] \<Longrightarrow> d_reachable (deferred_use u s)"
  unfolding d_reachable_def by (erule rtranclp.rtrancl_into_rtrancl) (simp add: d_use program_runs_def)

definition resolved_example :: "(string, nat) deferred" where
  "resolved_example = run_all 30 (deferred_use (Settle_with Resolve 7) (deferred_use (Listen Resolve ''f'') deferred_init))"

lemma resolved_example_calls: "(User ''f'', 7) \<in> set (calls (lists resolved_example (Main Resolve)))"
  by code_simp

theorem deferred_settles_once_witness: "dstate resolved_example = Resolved"
proof -
  have "frames (deferred_use (Listen Resolve ''f'') deferred_init :: (string, nat) deferred) = []" by code_simp
  then have "d_reachable resolved_example"
    unfolding resolved_example_def
    by (intro run_all_reachable use_reachable) (simp_all add: d_reachable_def deferred_init_def)
  from deferred_settles_once [OF this, of Resolve "Main Resolve" "''f''" 7] resolved_example_calls show ?thesis by simp
qed

text \<open>
  A flaw. Settling locks the list of \<open>progress\<close>, but a listener that comes to it later fires it for the
  remembered data, and firing forgets the lock: the deferred, although resolved, can be notified again.
\<close>

definition notified_late :: "(string, nat) deferred" where
  "notified_late =
     (let s1 = run_all 30 (deferred_use (Settle_with Notify 1) deferred_init);
          s2 = run_all 30 (deferred_use (Settle_with Resolve 2) s1);
          s3 = run_all 30 (deferred_use (Listen Notify ''f'') s2)
      in run_all 30 (deferred_use (Settle_with Notify 3) s3))"

theorem notify_after_settling:
  "dstate notified_late = Resolved \<and> (User ''f'', 3) \<in> set (calls (lists notified_late (Main Notify)))"
  by code_simp


section \<open>No listener is lost\<close>

text \<open>What a step keeps: it is enough to look at the parts a step is made of.\<close>

lemma call_own_self: "belongs l g \<Longrightarrow> lists (call_own g d s) l = lists s l"
  by (cases g) (auto simp: call_own_def belongs_own lists_list_op)

lemma d_step_preserves:
  fixes P :: "('f, 'a) deferred \<Rightarrow> bool"
  assumes "d_step s s'" and "P s" and "lists_ok s" and "members_ok s"
    and op: "\<And>l p. plain_op p \<Longrightarrow> p \<noteq> Disable \<Longrightarrow> p = Lock \<longrightarrow> l = Main Notify \<Longrightarrow> P s \<Longrightarrow> P (list_op l p s)"
    and adv: "\<And>l. phase (lists s l) = Between \<Longrightarrow> P (on_list l (advance (list_options l)) s)"
    and own: "\<And>t l g d cs. P t \<Longrightarrow> belongs l g \<Longrightarrow> calls (lists t l) = (g, d) # cs \<Longrightarrow> P (call_own g d t)"
    and ret: "\<And>t l r. P t \<Longrightarrow> phase (lists t l) = Inside \<Longrightarrow> P (return_to r l t)"
    and fr: "\<And>t fs. P t \<Longrightarrow> P (t\<lparr>frames := fs\<rparr>)"
  shows "P s'"
  using assms(1)
proof cases
  case (d_use u)
  with assms(2) op show ?thesis by (cases u) (auto simp: deferred_use_def plain_op_def)
next
  case (d_return l ls r)
  then have "phase (lists s l) = Inside" by (auto simp: program_runs_def dest: running_Inside split: option.splits)
  with d_return assms(2) ret show ?thesis by blast
next
  case (d_loop l ls)
  let ?s = "on_list l (advance (list_options l)) s"
  note a = adv [OF d_loop(3)]
  show ?thesis
  proof (cases "phase (advance (list_options l) (lists s l))")
    case Idle
    have "P (leave ?s)"
      using leave_cases [of ?s] fr [OF a] ret [OF fr [OF a]]
      by (metis deferred.select_convs(2) deferred.surjective deferred.update_convs(3) running_Inside)
    with Idle d_loop(1) show ?thesis by (simp add: loop_step_def)
  next
    case Between
    with a d_loop(1) show ?thesis by (simp add: loop_step_def)
  next
    case Inside
    from advance_called [OF lists_ok_shape [OF assms(3)] d_loop(3) this] obtain g d where
      g: "calls (lists ?s l) = (g, d) # calls (lists s l)" "g \<in> set (the_items (lists s l))" by auto
    then have "belongs l g" using assms(4) by (simp add: members_ok_def)
    from own [OF a this g(1)] ret [OF own [OF a this g(1)], of l False] call_own_self [OF this, of d ?s] a g(1) Inside d_loop(1)
    show ?thesis by (auto simp: loop_step_def call_next_def Let_def)
  qed
qed

text \<open>A list is disabled only after the other one has called something, and a list that settled has called something.\<close>

definition alive :: "('f dfun, 'a) cb \<Rightarrow> bool" where
  "alive c \<longleftrightarrow> items c \<noteq> None \<and> (phase c \<noteq> Idle \<or> calls c \<noteq> [] \<longrightarrow> memory c \<noteq> None)"

definition lists_alive :: "('f, 'a) deferred \<Rightarrow> bool" where
  "lists_alive s \<longleftrightarrow> (\<forall>k. k \<noteq> Notify \<and> calls (lists s (Main (opposite k))) = [] \<longrightarrow> alive (lists s (Main k))) \<and>
     (\<forall>k. k \<noteq> Notify \<and> dstate s = state_string k \<longrightarrow> calls (lists s (Main k)) \<noteq> [])"

lemma options_keep: "keeps (list_options l) \<and> \<not> stopOnFalse (list_options l) \<and> \<not> unique (list_options l)"
  by (simp add: list_options_def options_of_def createOptions_def rnotwhite_words_def is_space_def code_def
      obj_get_def obj_put_def Let_def)

lemma alive_op:
  "plain_op p \<Longrightarrow> p \<noteq> Disable \<Longrightarrow> p \<noteq> Lock \<Longrightarrow> alive c \<Longrightarrow> alive (apply_op opts p c)"
  by (cases p) (auto simp: plain_op_def alive_def cb_defs split: option.splits list.splits)

lemma alive_advance: "alive c \<Longrightarrow> phase c = Between \<Longrightarrow> alive (advance (list_options l) c)"
  using options_keep [of l] by (auto simp: alive_def cb_defs split: option.splits list.splits)

lemma calls_op [simp]: "calls (apply_op opts p c) = calls c"
  by (cases p) (auto simp: cb_defs split: option.splits list.splits)

lemma calls_advance: "calls (advance opts c) = [] \<Longrightarrow> calls c = []"
  by (auto simp: cb_defs split: option.splits list.splits if_splits)

lemma calls_returns [simp]: "calls (returns opts r c) = calls c"
  by (simp add: returns_def)

lemma state_string_inj: "state_string j = state_string k \<Longrightarrow> j \<noteq> Notify \<Longrightarrow> k \<noteq> Notify \<Longrightarrow> j = k"
  by (cases j; cases k) simp_all

lemma lists_alive_step:
  fixes s :: "('f, 'a) deferred"
  assumes "d_step s s'" and "lists_alive s" and "lists_ok s" and "members_ok s"
  shows "lists_alive s'"
proof (rule d_step_preserves [where P = lists_alive, OF assms])
  fix l and p :: "('f dfun, 'a) cb_op" assume "plain_op p" "p \<noteq> Disable" "p = Lock \<longrightarrow> l = Main Notify"
  then show "lists_alive (list_op l p s)" using assms(2) by (auto simp: lists_alive_def lists_list_op alive_op)
next
  fix l assume "phase (lists s l) = Between"
  then show "lists_alive (on_list l (advance (list_options l)) s)"
    using assms(2) calls_advance [of "list_options l" "lists s l"] by (auto simp: lists_alive_def alive_advance)
next
  fix t :: "('f, 'a) deferred" and l r assume "lists_alive t" "phase (lists t l) = Inside"
  then show "lists_alive (return_to r l t)"
    using options_keep [of l] by (auto simp: lists_alive_def lists_return_to alive_def returns_def)
next
  fix t :: "('f, 'a) deferred" and l g d cs
  assume t: "lists_alive t" "belongs l g" "calls (lists t l) = (g, d) # cs"
  show "lists_alive (call_own g d t)"
  proof (cases g)
    case (SetState x)
    with t(2) obtain j where "j \<noteq> Notify" "l = Main j" "x = state_string j" by (auto simp: belongs_own)
    with t(1,3) SetState show ?thesis
      by (auto simp: lists_alive_def call_own_def dest: state_string_inj)
  next
    case (DisableList m)
    with t(2) obtain k where "k \<noteq> Notify" "l = Main k" "m = Main (opposite k)" by (auto simp: belongs_own)
    with t(1,3) DisableList show ?thesis
      by (auto simp: lists_alive_def call_own_def lists_list_op disable_def)
  next
    case (FireList m)
    with t(1,2) show ?thesis
      by (auto simp: lists_alive_def call_own_def lists_list_op belongs_own)
  next
    case (LockList m)
    with t(1,2) show ?thesis
      by (auto simp: lists_alive_def call_own_def lists_list_op belongs_own lock_def Let_def)
  qed (use t(1) in \<open>simp_all add: lists_alive_def call_own_def\<close>)
qed (simp add: lists_alive_def)


lemma lists_alive_reachable:
  fixes s :: "('f, 'a) deferred"
  assumes "d_reachable s" shows "lists_alive s"
proof -
  have "lists_alive s \<and> d_reachable s"
    using assms unfolding d_reachable_def [of s]
  proof (induction rule: rtranclp_induct)
    case base
    have "alive (new_list (Main k) :: ('f dfun, 'a) cb)" for k by (simp add: new_list_def add_def alive_def cb_init_def)
    moreover have "state_string k = Pending \<Longrightarrow> k = Notify" for k by (cases k) simp_all
    ultimately show ?case by (auto simp: lists_alive_def deferred_init_def d_reachable_def)
  next
    case (step s s')
    have "d_reachable s" using step.IH by (simp add: d_reachable_def)
    then have "lists_alive s'" using lists_alive_step [OF step.hyps(2)] step.IH d_invariants [of s] by blast
    with step show ?case by auto
  qed
  then show ?thesis ..
qed

text \<open>A callback is in the list, has been called, or the list is disabled.\<close>

definition heard :: "'f dfun \<Rightarrow> ('f dfun, 'a) cb \<Rightarrow> bool" where
  "heard g c \<longleftrightarrow> g \<in> set (the_items c) \<or> g \<in> fst ` set (calls c) \<or> items c = None"

lemma heard_op: "plain_op p \<Longrightarrow> heard g c \<Longrightarrow> heard g (apply_op opts p c)"
  by (cases p) (auto simp: plain_op_def heard_def cb_defs the_items_def split: option.splits list.splits if_splits)

lemma heard_advance:
  assumes "cb_shape c \<and> all_served c" and "phase c = Between" and "heard g c"
  shows "heard g (advance opts c)"
proof (cases "firingIndex c + 1 < int (length (the_items c))")
  case True
  then have a: "advance opts c = (case memory c of Some d \<Rightarrow>
      c\<lparr>firingIndex := firingIndex c + 1, phase := Inside, calls := (the_items c ! nat (firingIndex c + 1), d) # calls c\<rparr> | None \<Rightarrow> c)"
    by (simp add: advance_def Let_def)
  from assms(3) show ?thesis unfolding a by (auto simp: heard_def the_items_def split: option.split)
next
  case False
  have "g \<in> fst ` set (calls c)" if m: "memory c = Some d" "g \<in> set (the_items c)" for d
  proof -
    have "nat (firingIndex c + 1) = length (the_items c)" using assms(1) m(1) False by (auto simp: all_served_alt cb_shape_def)
    with assms(1,2) m have "(g, d) \<in> set (calls c)" by (auto simp: all_served_alt served_def)
    then show ?thesis by force
  qed
  with False assms(1,3) show ?thesis
    by (cases "memory c") (auto simp: cb_shape_def advance_def heard_def next_data_def finish_def the_items_def Let_def split: list.split)
qed

lemma served_reachable:
  assumes "lists_ok s" shows "cb_shape (lists s l) \<and> all_served (lists s l)"
proof -
  have "(cb_step' (list_options l))\<^sup>*\<^sup>* cb_init (lists s l)" using assms by (simp add: lists_ok_def)
  then show ?thesis
  proof (induction rule: rtranclp_induct)
    case base
    show ?case by (simp add: cb_shape_def all_served_def cb_init_def)
  qed (use all_served_step in blast)
qed

lemma heard_step:
  fixes s :: "('f, 'a) deferred"
  assumes "d_step s s'" and "heard g (lists s (Main k))" and "lists_ok s" and "members_ok s"
  shows "heard g (lists s' (Main k))"
proof (rule d_step_preserves [where P = "\<lambda>s. heard g (lists s (Main k))", OF assms])
  fix l and p :: "('f dfun, 'a) cb_op" assume "plain_op p"
  then show "heard g (lists (list_op l p s) (Main k))" using assms(2) by (auto simp: lists_list_op heard_op)
next
  fix l assume "phase (lists s l) = Between"
  then show "heard g (lists (on_list l (advance (list_options l)) s) (Main k))"
    using assms(2) heard_advance served_reachable [OF assms(3)] by auto
next
  fix t :: "('f, 'a) deferred" and l h d cs
  assume "heard g (lists t (Main k))"
  then show "heard g (lists (call_own h d t) (Main k))"
    by (cases h) (auto simp: call_own_def lists_list_op plain_op_def intro: heard_op [where p = Disable, simplified]
        heard_op [where p = Lock, simplified] heard_op [where p = "Fire d", simplified])
qed (auto simp: lists_return_to heard_def the_items_def returns_def)

text \<open>
  C30: no listener is lost. A function given to \<open>done\<close> or \<open>fail\<close>, at whatever time, even by another
  listener while the deferred settles, has been called once the deferred has settled that way and
  nothing is firing any more.
\<close>

theorem no_listener_lost:
  assumes "d_reachable s" and "program_runs s" and "k \<noteq> Notify"
    and "d_step\<^sup>*\<^sup>* (deferred_use (Listen k f) s) t" and "frames t = []" and "dstate t = state_string k"
  shows "\<exists>d. (User f, d) \<in> set (calls (lists t (Main k)))"
proof -
  let ?u = "deferred_use (Listen k f) s"
  have u: "d_reachable ?u"
    using assms(1) d_use [OF assms(2)] unfolding d_reachable_def by (rule rtranclp.rtrancl_into_rtrancl)
  have "heard (User f) (lists ?u (Main k))"
    using options_keep [of "Main k"] by (auto simp: use_lists heard_def cb_defs the_items_def split: option.splits list.splits)
  with assms(4) u have t: "d_reachable t \<and> heard (User f) (lists t (Main k))"
  proof (induction rule: rtranclp_induct)
    case (step t w)
    from d_invariants [of t] step.IH step.prems have i: "lists_ok t" "members_ok t" by auto
    have "d_reachable w" using step.IH step.prems step.hyps(2) by (auto simp: d_reachable_def)
    with heard_step [OF step.hyps(2) _ i] step.IH step.prems show ?case by blast
  qed simp
  from d_invariants [of t] t have i: "stack_ok t" "lists_ok t" "settle_inv t" by auto
  have "j = k" if "state_string j = state_string k" "j \<noteq> Notify" for j using state_string_inj that assms(3) by blast
  moreover have "state_string k \<noteq> Pending" using assms(3) by (cases k) simp_all
  ultimately have "settled k t"
    using i(3) assms(3,5,6) unfolding settle_inv_def
    by (elim disjE exE) (auto simp: pending_def settling_def settled_def Let_def)
  then have o: "calls (lists t (Main (opposite k))) = []" by (simp add: settled_def silent_def)
  have idle: "phase (lists t (Main k)) = Idle" using i(1) assms(5) by (simp add: stack_ok_def)
  have "lists_alive t" using t by (simp add: lists_alive_reachable)
  then have "alive (lists t (Main k))" "calls (lists t (Main k)) \<noteq> []" using o assms(3,6) by (simp_all add: lists_alive_def)
  then obtain d where d: "memory (lists t (Main k)) = Some d" "items (lists t (Main k)) \<noteq> None" by (auto simp: alive_def)
  with served_reachable [OF i(2), of "Main k"] idle
  have "\<forall>g \<in> set (the_items (lists t (Main k))). (g, d) \<in> set (calls (lists t (Main k)))"
    by (simp add: all_served_alt served_def)
  with t d(2) show ?thesis by (auto simp: heard_def)
qed


lemma run_all_path: "d_step\<^sup>*\<^sup>* s (run_all n s)"
proof (induction n arbitrary: s)
  case (Suc n)
  show ?case
    by (auto split: list.split intro!: converse_rtranclp_into_rtranclp [OF d_step.d_loop Suc]
        converse_rtranclp_into_rtranclp [OF d_step.d_return Suc])
qed simp

theorem no_listener_lost_witness: "\<exists>d. (User ''f'', d) \<in> set (calls (lists resolved_example (Main Resolve)))"
proof (rule no_listener_lost)
  show "d_reachable (deferred_init :: (string, nat) deferred)" by (simp add: d_reachable_def)
  have "d_step (deferred_use (Listen Resolve ''f'') deferred_init)
      (deferred_use (Settle_with Resolve 7) (deferred_use (Listen Resolve ''f'') deferred_init :: (string, nat) deferred))"
    by (rule d_use) code_simp
  then show "d_step\<^sup>*\<^sup>* (deferred_use (Listen Resolve ''f'') deferred_init) resolved_example"
    unfolding resolved_example_def by (rule converse_rtranclp_into_rtranclp) (rule run_all_path)
  show "frames resolved_example = []" "dstate resolved_example = state_string Resolve" by code_simp+
qed (simp_all add: program_runs_def deferred_init_def)

end
