(* ===== verification/J_Then.thy ===== *)
theory J_Then
  imports JS_Prelude
begin

text \<open>
  What \<open>then\<close> of \<open>jquery-3.1.0.js\<close> makes of the results of its handlers, \<open>jQuery.when\<close> and the ready
  event. A handler may return a thenable, an object with a method \<open>then\<close>; here it is the list of what
  that method does when it is called: it resolves, rejects, notifies or throws, and may do several of
  these. A context and further arguments, which only the default handlers pass on, are left out.
\<close>

section \<open>The resolution of then\<close>

datatype 'v res = Plain 'v | Self | Thenable "'v act list"
  and 'v act = Fulfil "'v res" | Refuse "'v res" | Progress "'v res" | Throw "'v res"

datatype 'v outcome = Fulfilled 'v | Refused "'v res"

text \<open>The variable \<open>maxDepth\<close>, and the new deferred: how it was settled first and what it was notified of.\<close>

record 'v then_state =
  maxDepth :: nat
  outcome :: "'v outcome option"
  notified :: "'v list"

definition then_init :: "'v then_state" where
  "then_init = \<lparr>maxDepth = 0, outcome = None, notified = []\<rparr>"

definition settle_with :: "'v outcome \<Rightarrow> 'v then_state \<Rightarrow> 'v then_state" where
  "settle_with out s = (if outcome s = None then s\<lparr>outcome := Some out\<rparr> else s)"

text \<open>A deferred that is settled is not notified any more.\<close>

definition notify_with :: "'v \<Rightarrow> 'v then_state \<Rightarrow> 'v then_state" where
  "notify_with v s = (if outcome s = None then s\<lparr>notified := notified s @ [v]\<rparr> else s)"

text \<open>The \<open>catch\<close> of \<open>process\<close>.\<close>

definition catch_error :: "nat \<Rightarrow> 'v res \<Rightarrow> 'v then_state \<Rightarrow> 'v then_state" where
  "catch_error depth e s = (if maxDepth s \<le> depth + 1 then settle_with (Refused e) s else s)"

text \<open>
  \<open>err\<close> is the TypeError of a promise that is resolved with itself. \<open>adopt\<close> is \<open>process\<close> with a value
  that was returned, \<open>refuse\<close> with the handler \<open>Thrower\<close>; \<open>notify_value\<close> is the special processor, whose
  errors are thrown on. \<open>run_acts\<close> is the call of \<open>then\<close>, with the processors of the depth \<open>d\<close>; what it
  answers besides the state is what it has thrown.
\<close>

definition refuse :: "nat \<Rightarrow> 'v res \<Rightarrow> 'v then_state \<Rightarrow> 'v then_state" where
  "refuse depth v s = (if depth < maxDepth s then s else catch_error depth v s)"

function (sequential) adopt :: "'v res \<Rightarrow> nat \<Rightarrow> 'v res \<Rightarrow> 'v then_state \<Rightarrow> 'v then_state"
  and run_acts :: "'v res \<Rightarrow> nat \<Rightarrow> 'v act list \<Rightarrow> 'v then_state \<Rightarrow> 'v then_state \<times> 'v res option"
  and notify_value :: "'v res \<Rightarrow> nat \<Rightarrow> 'v res \<Rightarrow> 'v then_state \<Rightarrow> 'v then_state \<times> 'v res option"
  and special_acts :: "'v res \<Rightarrow> nat \<Rightarrow> 'v act list \<Rightarrow> 'v then_state \<Rightarrow> 'v then_state \<times> 'v res option" where
  "adopt err depth v s =
     (if depth < maxDepth s then s
      else case v of
             Plain x \<Rightarrow> settle_with (Fulfilled x) s
           | Self \<Rightarrow> catch_error depth err s
           | Thenable acts \<Rightarrow>
               (let (s', thrown) = run_acts err (maxDepth s + 1) acts (s\<lparr>maxDepth := maxDepth s + 1\<rparr>)
                in case thrown of None \<Rightarrow> s' | Some e \<Rightarrow> catch_error depth e s'))"
| "run_acts err d [] s = (s, None)"
| "run_acts err d (Fulfil v # acts) s = run_acts err d acts (adopt err d v s)"
| "run_acts err d (Refuse v # acts) s = run_acts err d acts (refuse d v s)"
| "run_acts err d (Progress v # acts) s =
     (let (s', thrown) = notify_value err d v s
      in case thrown of None \<Rightarrow> run_acts err d acts s' | Some e \<Rightarrow> (s', Some e))"
| "run_acts err d (Throw e # acts) s = (s, Some e)"
| "notify_value err depth v s =
     (if depth < maxDepth s then (s, None)
      else case v of
             Plain x \<Rightarrow> (notify_with x s, None)
           | Self \<Rightarrow> (s, Some err)
           | Thenable acts \<Rightarrow> special_acts err (maxDepth s) acts s)"
| "special_acts err d [] s = (s, None)"
| "special_acts err d (Fulfil v # acts) s =
     (let (s', thrown) = notify_value err d v s
      in case thrown of None \<Rightarrow> special_acts err d acts s' | Some e \<Rightarrow> (s', Some e))"
| "special_acts err d (Refuse v # acts) s =
     (if d < maxDepth s then special_acts err d acts s else (s, Some v))"
| "special_acts err d (Progress v # acts) s = special_acts err d acts s"
| "special_acts err d (Throw e # acts) s = (s, Some e)"
  by pat_completeness auto
termination
  by (relation "measure (\<lambda>x. case x of Inl (Inl (_, _, v, _)) \<Rightarrow> size v | Inl (Inr (_, _, as, _)) \<Rightarrow> size_list size as
        | Inr (Inl (_, _, v, _)) \<Rightarrow> size v | Inr (Inr (_, _, as, _)) \<Rightarrow> size_list size as)") auto


declare adopt.simps [simp del] notify_value.simps [simp del]

text \<open>
  The processor of \<open>then\<close> for success and for failure, called with the value of the first deferred. A
  handler that is missing is \<open>Identity\<close> or \<open>Thrower\<close>; one that is there answers or throws.
\<close>

type_synonym 'v handler = "'v res \<Rightarrow> 'v res + 'v res"

definition on_fulfilled :: "'v handler option \<Rightarrow> 'v handler" where
  "on_fulfilled h = (case h of Some f \<Rightarrow> f | None \<Rightarrow> Inr)"

definition on_rejected :: "'v handler option \<Rightarrow> 'v handler" where
  "on_rejected h = (case h of Some f \<Rightarrow> f | None \<Rightarrow> Inl)"

definition then_process :: "'v res \<Rightarrow> 'v handler \<Rightarrow> 'v res \<Rightarrow> 'v then_state \<Rightarrow> 'v then_state" where
  "then_process err handler v s =
     (if 0 < maxDepth s then s
      else case handler v of
             Inl e \<Rightarrow> catch_error 0 e s
           | Inr r \<Rightarrow> adopt err 0 r s)"

section \<open>What a promise should become\<close>

text \<open>
  The promise resolution procedure of Promises/A+: the first call decides. A thenable that never calls
  leaves the promise pending.
\<close>

fun decide :: "'v res \<Rightarrow> 'v res \<Rightarrow> 'v outcome option"
  and decide_acts :: "'v res \<Rightarrow> 'v act list \<Rightarrow> 'v outcome option"
  and progress_throws :: "'v res \<Rightarrow> 'v res \<Rightarrow> 'v res option"
  and special_throws :: "'v res \<Rightarrow> 'v act list \<Rightarrow> 'v res option" where
  "decide err (Plain x) = Some (Fulfilled x)"
| "decide err Self = Some (Refused err)"
| "decide err (Thenable acts) = decide_acts err acts"
| "decide_acts err [] = None"
| "decide_acts err (Fulfil v # acts) = decide err v"
| "decide_acts err (Refuse v # acts) = Some (Refused v)"
| "decide_acts err (Throw e # acts) = Some (Refused e)"
| "decide_acts err (Progress v # acts) =
     (case progress_throws err v of None \<Rightarrow> decide_acts err acts | Some e \<Rightarrow> Some (Refused e))"
| "progress_throws err (Plain x) = None"
| "progress_throws err Self = Some err"
| "progress_throws err (Thenable acts) = special_throws err acts"
| "special_throws err [] = None"
| "special_throws err (Fulfil v # acts) =
     (case progress_throws err v of None \<Rightarrow> special_throws err acts | Some e \<Rightarrow> Some e)"
| "special_throws err (Refuse v # acts) = Some v"
| "special_throws err (Progress v # acts) = special_throws err acts"
| "special_throws err (Throw e # acts) = Some e"

text \<open>Once it is settled, the outcome stays.\<close>

lemma settle_with_fields [simp]:
  "maxDepth (settle_with out s) = maxDepth s"
  "outcome (settle_with out s) = (if outcome s = None then Some out else outcome s)"
  by (simp_all add: settle_with_def)

lemma catch_error_fields [simp]:
  "maxDepth (catch_error d e s) = maxDepth s"
  "outcome (catch_error d e s) = (if outcome s = None \<and> maxDepth s \<le> d + 1 then Some (Refused e) else outcome s)"
  by (simp_all add: catch_error_def)

lemma notify_with_fields [simp]: "maxDepth (notify_with v s) = maxDepth s" "outcome (notify_with v s) = outcome s"
  by (simp_all add: notify_with_def)

lemma refuse_fields [simp]:
  "maxDepth (refuse d v s) = maxDepth s"
  "outcome (refuse d v s) = (if outcome s = None \<and> \<not> d < maxDepth s \<and> maxDepth s \<le> d + 1 then Some (Refused v) else outcome s)"
  by (simp_all add: refuse_def)

text \<open>Notifying never settles, and it throws what it should.\<close>

lemma notify_parts:
  "True"
  "True"
  "outcome (fst (notify_value err d v s)) = outcome s \<and> maxDepth (fst (notify_value err d v s)) = maxDepth s \<and>
     snd (notify_value err d v s) = (if d < maxDepth s then None else progress_throws err v)"
  "outcome (fst (special_acts err d acts s)) = outcome s \<and> maxDepth (fst (special_acts err d acts s)) = maxDepth s \<and>
     (\<not> d < maxDepth s \<longrightarrow> snd (special_acts err d acts s) = special_throws err acts)"
proof (induction err d v s and err d acts s and err d v s and err d acts s rule: adopt_run_acts_notify_value_special_acts.induct)
  case (7 err depth v s)
  then show ?case by (cases v) (auto simp: notify_value.simps)
next
  case (9 err d v acts s)
  then show ?case by (auto split: prod.splits option.splits)
qed auto

text \<open>The depth only grows.\<close>

lemma depth_grows:
  "maxDepth s \<le> maxDepth (adopt err d v s) \<and> (outcome s \<noteq> None \<longrightarrow> outcome (adopt err d v s) = outcome s)"
  "maxDepth s \<le> maxDepth (fst (run_acts err d acts s)) \<and> (outcome s \<noteq> None \<longrightarrow> outcome (fst (run_acts err d acts s)) = outcome s)"
  "True"
  "True"
proof (induction err d v s and err d acts s and err d v s and err d acts s rule: adopt_run_acts_notify_value_special_acts.induct)
  case (1 err depth v s)
  then show ?case by (cases v) (auto simp: adopt.simps Let_def split: prod.splits option.splits)
next
  case (5 err d v acts s)
  then show ?case using notify_parts(3) [of err d v s] by (auto split: prod.splits option.splits)
qed auto


text \<open>Calls of a depth that is passed are ignored.\<close>

lemma late_acts: "d < maxDepth s \<Longrightarrow> outcome (fst (run_acts err d acts s)) = outcome s \<and> maxDepth (fst (run_acts err d acts s)) = maxDepth s"
proof (induction acts arbitrary: s)
  case (Cons a acts)
  then show ?case by (cases a) (auto simp: adopt.simps refuse_def notify_value.simps)
qed simp

lemma adopt_passes:
  assumes "outcome (adopt err d v s) = None" and "\<not> d < maxDepth s" and "maxDepth s \<le> d + 1"
  shows "maxDepth s < maxDepth (adopt err d v s)"
proof (cases v)
  case (Thenable acts)
  let ?r = "run_acts err (maxDepth s + 1) acts (s\<lparr>maxDepth := maxDepth s + 1\<rparr>)"
  have "maxDepth s + 1 \<le> maxDepth (fst ?r)" using depth_grows(2) [of "s\<lparr>maxDepth := maxDepth s + 1\<rparr>" err "maxDepth s + 1" acts] by simp
  with Thenable assms(2) show ?thesis by (auto simp: adopt.simps split: prod.splits option.splits)
qed (use assms in \<open>auto simp: adopt.simps split: if_splits\<close>)

text \<open>What \<open>then\<close> does with a thrown error of a call at depth \<open>d\<close>.\<close>

definition after_acts :: "nat \<Rightarrow> 'v then_state \<times> 'v res option \<Rightarrow> 'v outcome option" where
  "after_acts d r = (case snd r of None \<Rightarrow> outcome (fst r) | Some e \<Rightarrow> outcome (catch_error d e (fst r)))"

lemma adopt_decides:
  "maxDepth s = d \<and> outcome s = None \<Longrightarrow> outcome (adopt err d v s) = decide err v"
  "maxDepth s = d \<and> outcome s = None \<and> d = Suc c \<Longrightarrow> after_acts c (run_acts err d acts s) = decide_acts err acts"
  "True"
  "True"
proof (induction err d v s and err d acts s and err d v s and err d acts s arbitrary: and c and and
    rule: adopt_run_acts_notify_value_special_acts.induct)
  case (1 err depth v s)
  show ?case
  proof (cases v)
    case (Thenable acts)
    let ?r = "run_acts err (maxDepth s + 1) acts (s\<lparr>maxDepth := maxDepth s + 1\<rparr>)"
    have "after_acts (maxDepth s) ?r = decide_acts err acts"
      by (rule 1(1)) (use 1(2) Thenable in auto)
    moreover have "outcome (adopt err depth v s) = after_acts (maxDepth s) ?r"
      using 1(2) Thenable by (auto simp: adopt.simps after_acts_def Let_def split: prod.splits option.splits)
    ultimately show ?thesis using Thenable by simp
  qed (use 1 in \<open>auto simp: adopt.simps\<close>)
next
  case (3 err d v acts s)
  let ?s = "adopt err d v s"
  have o: "outcome ?s = decide err v" using 3 by simp
  show ?case
  proof (cases "outcome ?s")
    case None
    with adopt_passes [of err d v s] 3 have lt: "d < maxDepth ?s" by simp
    from late_acts [OF this, of err acts] lt o None 3 show ?thesis by (auto simp: after_acts_def split: option.split)
  next
    case (Some out)
    with depth_grows(2) [of ?s err d acts] o show ?thesis by (auto simp: after_acts_def split: option.split)
  qed
next
  case (4 err d v acts s)
  with depth_grows(2) [of "refuse d v s" err d acts] show ?case by (auto simp: after_acts_def split: option.split)
next
  case (5 err d v acts s)
  then show ?case using notify_parts(3) [of err d v s]
    by (auto simp: after_acts_def split: prod.splits option.splits)
qed (auto simp: after_acts_def)


section \<open>when\<close>

text \<open>
  \<open>jQuery.when\<close> of at least two arguments: the number of values still missing, the values, and how the
  master deferred was settled. A promise or thenable among the arguments calls \<open>updateFunc(i)\<close> when it is
  fulfilled; every other value does so at once.
\<close>

datatype ('v, 'e) master = Unsettled | ResolvedAll "'v list" | RejectedBy 'e

record ('v, 'e) when_state =
  remaining :: int
  resolveValues :: "'v list"
  master :: "('v, 'e) master"

datatype ('v, 'e) event = Update nat 'v | Reject_master 'e

definition when_init :: "'v list \<Rightarrow> ('v, 'e) when_state" where
  "when_init vs = \<lparr>remaining = int (length vs), resolveValues = vs, master = Unsettled\<rparr>"

definition updateFunc :: "nat \<Rightarrow> 'v \<Rightarrow> ('v, 'e) when_state \<Rightarrow> ('v, 'e) when_state" where
  "updateFunc i v s =
     (let s1 = s\<lparr>resolveValues := (resolveValues s)[i := v], remaining := remaining s - 1\<rparr>
      in if remaining s1 = 0 \<and> master s1 = Unsettled then s1\<lparr>master := ResolvedAll (resolveValues s1)\<rparr> else s1)"

definition reject_master :: "'e \<Rightarrow> ('v, 'e) when_state \<Rightarrow> ('v, 'e) when_state" where
  "reject_master e s = (if master s = Unsettled then s\<lparr>master := RejectedBy e\<rparr> else s)"

fun when_event :: "('v, 'e) event \<Rightarrow> ('v, 'e) when_state \<Rightarrow> ('v, 'e) when_state" where
  "when_event (Update i v) s = updateFunc i v s"
| "when_event (Reject_master e) s = reject_master e s"

text \<open>The arguments that have called back, and what the master should be.\<close>

definition updated :: "('v, 'e) event list \<Rightarrow> nat list" where
  "updated es = List.map_filter (\<lambda>e. case e of Update i v \<Rightarrow> Some i | Reject_master _ \<Rightarrow> None) es"

definition failures :: "('v, 'e) event list \<Rightarrow> 'e list" where
  "failures es = List.map_filter (\<lambda>e. case e of Update i v \<Rightarrow> None | Reject_master x \<Rightarrow> Some x) es"

definition value_of :: "('v, 'e) event list \<Rightarrow> 'v list \<Rightarrow> 'v list" where
  "value_of es vs = fold (\<lambda>e ws. case e of Update i v \<Rightarrow> ws[i := v] | Reject_master _ \<Rightarrow> ws) es vs"

lemma when_fields:
  "remaining (fold when_event es s) = remaining s - int (length (updated es))"
  "resolveValues (fold when_event es s) = value_of es (resolveValues s)"
proof (induction es arbitrary: s)
  case (Cons e es)
  { case 1 show ?case using Cons(1) [of "when_event e s"]
      by (cases e) (simp_all add: updated_def map_filter_simps updateFunc_def reject_master_def Let_def) }
  { case 2 show ?case using Cons(2) [of "when_event e s"]
      by (cases e) (simp_all add: value_of_def updateFunc_def reject_master_def Let_def) }
qed (simp_all add: updated_def value_of_def map_filter_simps)

section \<open>The ready event\<close>

record ready_state =
  readyWait :: int
  isReady :: bool
  resolved :: bool

definition ready_init :: ready_state where
  "ready_init = \<lparr>readyWait = 1, isReady = False, resolved = False\<rparr>"

text \<open>\<open>jQuery.ready(wait)\<close>; \<open>wait\<close> is \<open>true\<close> when a hold is released.\<close>

definition ready :: "bool \<Rightarrow> ready_state \<Rightarrow> ready_state" where
  "ready wait s =
     (let s1 = (if wait then s\<lparr>readyWait := readyWait s - 1\<rparr> else s) in
      if (if wait then readyWait s1 \<noteq> 0 else isReady s1) then s1
      else (let s2 = s1\<lparr>isReady := True\<rparr>;
                s3 = (if \<not> wait then s2\<lparr>readyWait := readyWait s2 - 1\<rparr> else s2)
            in if \<not> wait \<and> 0 < readyWait s3 then s3 else s3\<lparr>resolved := True\<rparr>))"

definition holdReady :: "bool \<Rightarrow> ready_state \<Rightarrow> ready_state" where
  "holdReady hold s = (if hold then s\<lparr>readyWait := readyWait s + 1\<rparr> else ready True s)"

datatype ready_use = Hold | Release | DomReady

definition ready_step :: "ready_use \<Rightarrow> ready_state \<Rightarrow> ready_state" where
  "ready_step u s = (case u of Hold \<Rightarrow> holdReady True s | Release \<Rightarrow> holdReady False s | DomReady \<Rightarrow> ready False s)"

definition holds :: "ready_use list \<Rightarrow> int" where
  "holds us = int (count_list us Hold) - int (count_list us Release)"

text \<open>No hold is released that was not taken.\<close>

definition balanced :: "ready_use list \<Rightarrow> bool" where
  "balanced us \<longleftrightarrow> (\<forall>n \<le> length us. 0 \<le> holds (take n us))"

lemma ready_inv:
  assumes "balanced us"
  defines "s \<equiv> fold ready_step us ready_init"
  shows "isReady s = (DomReady \<in> set us) \<and> readyWait s = holds us + (if isReady s then 0 else 1) \<and>
    (resolved s \<longleftrightarrow> (\<exists>n \<le> length us. DomReady \<in> set (take n us) \<and> holds (take n us) = 0))"
  using assms(1) unfolding s_def
proof (induction us rule: rev_induct)
  case Nil
  show ?case by (simp add: ready_init_def holds_def)
next
  case (snoc u us)
  have b: "balanced us" using snoc.prems by (auto simp: balanced_def) (metis le_Suc_eq take_append append_Nil2 diff_is_0_eq take0)
  have h: "0 \<le> holds (us @ [u])" using snoc.prems by (auto simp: balanced_def dest: spec [of _ "Suc (length us)"])
  let ?s = "fold ready_step us ready_init"
  define Q where "Q \<longleftrightarrow> (\<exists>n \<le> length us. DomReady \<in> set (take n us) \<and> holds (take n us) = 0)"
  have ex: "(\<exists>n \<le> length (us @ [u]). DomReady \<in> set (take n (us @ [u])) \<and> holds (take n (us @ [u])) = 0) \<longleftrightarrow>
      Q \<or> DomReady \<in> set (us @ [u]) \<and> holds (us @ [u]) = 0"
    by (auto simp: Q_def le_Suc_eq)
  have q: "DomReady \<in> set us \<Longrightarrow> holds us = 0 \<Longrightarrow> Q" unfolding Q_def by (intro exI [of _ "length us"]) simp
  have hs: "holds (us @ [Hold]) = holds us + 1" "holds (us @ [Release]) = holds us - 1" "holds (us @ [DomReady]) = holds us"
    by (simp_all add: holds_def)
  from snoc.IH [OF b, folded Q_def]
  have s: "isReady ?s = (DomReady \<in> set us)" "readyWait ?s = holds us + (if isReady ?s then 0 else 1)" "resolved ?s = Q" by auto
  have h0: "0 \<le> holds us" using b by (auto simp: balanced_def dest: spec [of _ "length us"])
  have f: "fold ready_step (us @ [u]) ready_init = ready_step u ?s" by simp
  show ?case unfolding ex f
  proof (cases u)
    case Hold
    then show "isReady (ready_step u ?s) = (DomReady \<in> set (us @ [u])) \<and>
        readyWait (ready_step u ?s) = holds (us @ [u]) + (if isReady (ready_step u ?s) then 0 else 1) \<and>
        (resolved (ready_step u ?s) \<longleftrightarrow> Q \<or> DomReady \<in> set (us @ [u]) \<and> holds (us @ [u]) = 0)"
      using s h0 by (simp add: ready_step_def holdReady_def hs)
  next
    case Release
    then show "isReady (ready_step u ?s) = (DomReady \<in> set (us @ [u])) \<and>
        readyWait (ready_step u ?s) = holds (us @ [u]) + (if isReady (ready_step u ?s) then 0 else 1) \<and>
        (resolved (ready_step u ?s) \<longleftrightarrow> Q \<or> DomReady \<in> set (us @ [u]) \<and> holds (us @ [u]) = 0)"
      using s h h0 by (auto simp: ready_step_def holdReady_def ready_def hs Let_def)
  next
    case DomReady
    then show "isReady (ready_step u ?s) = (DomReady \<in> set (us @ [u])) \<and>
        readyWait (ready_step u ?s) = holds (us @ [u]) + (if isReady (ready_step u ?s) then 0 else 1) \<and>
        (resolved (ready_step u ?s) \<longleftrightarrow> Q \<or> DomReady \<in> set (us @ [u]) \<and> holds (us @ [u]) = 0)"
      using s h0 q by (auto simp: ready_step_def ready_def hs Let_def)
  qed
qed


lemma value_of_snoc: "value_of (es @ [Update i v]) vs = (value_of es vs)[i := v]" "value_of (es @ [Reject_master e]) vs = value_of es vs"
  by (simp_all add: value_of_def)

lemma updated_snoc: "updated (es @ [Update i v]) = updated es @ [i]" "updated (es @ [Reject_master e]) = updated es"
  by (simp_all add: updated_def map_filter_simps map_filter_def)

lemma failures_snoc: "failures (es @ [Update i v]) = failures es" "failures (es @ [Reject_master e]) = failures es @ [e]"
  by (simp_all add: failures_def map_filter_simps map_filter_def)

lemma length_value_of [simp]: "length (value_of es vs) = length vs"
proof (induction es rule: rev_induct)
  case (snoc e es)
  then show ?case by (cases e) (simp_all add: value_of_snoc)
qed (simp add: value_of_def)

lemma value_of_nth:
  "distinct (updated es) \<Longrightarrow> set (updated es) \<subseteq> {..<length vs} \<Longrightarrow> Update i v \<in> set es \<Longrightarrow> value_of es vs ! i = v"
proof (induction es rule: rev_induct)
  case (snoc e es)
  have in_updated: "Update j w \<in> set es \<Longrightarrow> j \<in> set (updated es)" for j w
    by (force simp: updated_def map_filter_def)
  show ?case
  proof (cases e)
    case (Update j w)
    with snoc in_updated show ?thesis by (auto simp: value_of_snoc updated_snoc nth_list_update)
  next
    case (Reject_master x)
    with snoc show ?thesis by (simp add: value_of_snoc updated_snoc)
  qed
qed simp

lemma when_master:
  assumes "length (updated es) + length (failures es) \<le> length vs" and "vs \<noteq> []"
  shows "master (fold when_event es (when_init vs)) =
    (if failures es \<noteq> [] then RejectedBy (hd (failures es))
     else if length (updated es) = length vs then ResolvedAll (value_of es vs) else Unsettled)"
  using assms
proof (induction es rule: rev_induct)
  case Nil
  then show ?case by (simp add: when_init_def failures_def updated_def map_filter_simps)
next
  case (snoc e es)
  show ?case
  proof (cases e)
    case (Update i v)
    with snoc show ?thesis
      by (auto simp: updated_snoc failures_snoc value_of_snoc updateFunc_def when_fields Let_def when_init_def)
  next
    case (Reject_master x)
    with snoc show ?thesis
      by (auto simp: updated_snoc failures_snoc value_of_snoc reject_master_def hd_append)
  qed
qed

section \<open>Properties\<close>

text \<open>
  C4: the promise of \<open>then\<close> becomes what the resolution procedure of Promises/A+ says: it is rejected
  with what the handler throws, and otherwise follows what the handler returns, through thenables that
  return thenables to any depth and act during the call of their \<open>then\<close>, where the first call of each thenable counts and everything it does
  afterwards, errors included, is ignored. Once it is settled nothing changes it.
\<close>

theorem then_follows_resolution:
  "outcome (then_process err handler v then_init) =
     (case handler v of Inl e \<Rightarrow> Some (Refused e) | Inr r \<Rightarrow> decide err r) \<and>
   outcome (adopt err d w (settle_with out s)) = outcome (settle_with out s)"
proof
  show "outcome (then_process err handler v then_init) =
      (case handler v of Inl e \<Rightarrow> Some (Refused e) | Inr r \<Rightarrow> decide err r)"
    using adopt_decides(1) [of "then_init :: 'a then_state" 0]
    by (simp add: then_process_def then_init_def split: sum.split)
  show "outcome (adopt err d w (settle_with out s)) = outcome (settle_with out s)"
    using depth_grows(1) [of "settle_with out s" err d w] by auto
qed

text \<open>
  \<open>when\<close> of several arguments that each call back at most once is resolved when all of them are
  fulfilled, with their values in the order of the arguments whatever the order they came in, and is
  rejected by the first failure.
\<close>

theorem when_aggregates:
  assumes "length (updated es) + length (failures es) \<le> length vs" and "vs \<noteq> []"
    and "distinct (updated es)" and "set (updated es) \<subseteq> {..<length vs}" and "Update i v \<in> set es"
  shows "master (fold when_event es (when_init vs)) =
      (if failures es \<noteq> [] then RejectedBy (hd (failures es))
       else if length (updated es) = length vs then ResolvedAll (value_of es vs) else Unsettled) \<and>
    value_of es vs ! i = v"
  using when_master [OF assms(1,2)] value_of_nth [OF assms(3-5)] by simp

theorem when_aggregates_witness:
  "master (fold when_event [Update 1 ''b'', Update 0 ''a''] (when_init [''x'', ''y''])) = (ResolvedAll [''a'', ''b''] :: (string, nat) master)"
  using when_aggregates [of "[Update 1 ''b'', Update 0 ''a''] :: (string, nat) event list" "[''x'', ''y'']" 0 "''a''"]
  by (simp add: updated_def failures_def value_of_def map_filter_simps)

text \<open>
  As long as no hold is released that was not taken, the ready event fires exactly when the document
  has become ready and, at that time or later, no hold is left.
\<close>

theorem ready_waits:
  assumes "balanced us"
  shows "resolved (fold ready_step us ready_init) \<longleftrightarrow> (\<exists>n \<le> length us. DomReady \<in> set (take n us) \<and> holds (take n us) = 0)"
  using ready_inv [OF assms] by simp

theorem ready_waits_witness:
  "\<not> resolved (fold ready_step [Hold, DomReady] ready_init)"
proof -
  have b: "balanced [Hold, DomReady]" by (auto simp: balanced_def holds_def le_Suc_eq numeral_eq_Suc)
  have "\<not> (DomReady \<in> set (take n [Hold, DomReady]) \<and> holds (take n [Hold, DomReady]) = 0)" for n
    by (cases n; cases "n - 1") (auto simp: holds_def)
  with ready_waits [OF b] show ?thesis by simp
qed

text \<open>
  Three flaws. A thenable that has resolved with a plain value can resolve again with a thenable, which is
  called although the attempt should be ignored. An argument of \<open>when\<close> that calls back twice is counted
  twice, so the master is resolved while another argument is still missing. And releasing a hold that
  was not taken fires the ready event before the document is ready.
\<close>

theorem second_thenable_called:
  "maxDepth (fst (run_acts err 1 [Fulfil (Plain x), Fulfil (Thenable [])] (then_init\<lparr>maxDepth := 1\<rparr>))) = 2"
  by (simp add: adopt.simps then_init_def settle_with_def)

theorem when_counts_twice:
  "master (fold when_event [Update 0 a, Update 0 b] (when_init [p, q])) = ResolvedAll [b, q]"
  by (simp add: when_init_def updateFunc_def Let_def)

theorem early_release: "resolved (ready_step Release ready_init)"
  by (simp add: ready_step_def holdReady_def ready_def ready_init_def Let_def)

end
