(* ===== verification/J_Data.thy ===== *)
theory J_Data
  imports J_Callbacks
begin

text \<open>
  The data module of \<open>jquery-3.1.0.js\<close>: the stores of values that belong to elements and objects,
  \<open>camelCase\<close>, under which every key is kept, and the reading of \<open>data-*\<close> attributes. A cache is
  an object literal, so it inherits properties; \<open>inh\<close> says which. Stored values are not \<open>undefined\<close>.
\<close>

section \<open>camelCase\<close>

definition lower_ascii :: "char \<Rightarrow> bool" where
  "lower_ascii c = (97 \<le> code c \<and> code c \<le> 122)"

definition upper_letter :: "char \<Rightarrow> bool" where
  "upper_letter c = (65 \<le> code c \<and> code c \<le> 90)"

definition fcamelCase :: "char \<Rightarrow> char" where
  "fcamelCase letter = upper_ascii letter"

text \<open>\<open>s.replace(/-([a-z])/g, fcamelCase)\<close>.\<close>

fun camel_dashes :: "string \<Rightarrow> string" where
  "camel_dashes (d # c # s) =
     (if d = CHR ''-'' \<and> lower_ascii c then fcamelCase c # camel_dashes s else d # camel_dashes (c # s))"
| "camel_dashes s = s"

definition ms_prefix :: "string \<Rightarrow> string" where
  "ms_prefix s = (if take 4 s = ''-ms-'' then ''ms-'' @ drop 4 s else s)"

definition camelCase :: "string \<Rightarrow> string" where
  "camelCase s = camel_dashes (ms_prefix s)"

text \<open>\<open>key.replace(/[A-Z]/g, "-$&").toLowerCase()\<close>.\<close>

definition dash_name :: "string \<Rightarrow> string" where
  "dash_name key = toLowerCase (concat (map (\<lambda>c. if upper_letter c then [CHR ''-'', c] else [c]) key))"

section \<open>Data\<close>

text \<open>
  An owner of data: its \<open>nodeType\<close>, \<open>None\<close> for an object that is not a node, its cache, and the
  attributes of an element.
\<close>

record 'v owner =
  nodeType :: "nat option"
  slot :: "(string, 'v) jsobj option"
  attributes :: "(string \<times> string) list"

definition acceptData :: "'v owner \<Rightarrow> bool" where
  "acceptData ow \<longleftrightarrow> nodeType ow = Some 1 \<or> nodeType ow = Some 9 \<or> nodeType ow = None \<or> nodeType ow = Some 0"

definition cache :: "'v owner \<Rightarrow> (string, 'v) jsobj \<times> 'v owner" where
  "cache ow =
     (case slot ow of
        Some c \<Rightarrow> (c, ow)
      | None \<Rightarrow> ([], if acceptData ow then ow\<lparr>slot := Some []\<rparr> else ow))"

text \<open>The key and value, or an object of properties. What is stored for an owner that is not accepted is lost.\<close>

datatype 'v to_set = KeyValue string 'v | Properties "(string \<times> 'v) list"

definition set_in :: "'v to_set \<Rightarrow> (string, 'v) jsobj \<Rightarrow> (string, 'v) jsobj" where
  "set_in data c =
     (case data of
        KeyValue k v \<Rightarrow> obj_put (camelCase k) v c
      | Properties ps \<Rightarrow> foldl (\<lambda>c' (k, v). obj_put (camelCase k) v c') c ps)"

definition data_set :: "'v owner \<Rightarrow> 'v to_set \<Rightarrow> (string, 'v) jsobj \<times> 'v owner" where
  "data_set ow data =
     (let (c, ow') = cache ow; c' = set_in data c
      in (c', if slot ow' = None then ow' else ow'\<lparr>slot := Some c'\<rparr>))"

definition cache_read :: "(string \<Rightarrow> 'v option) \<Rightarrow> (string, 'v) jsobj \<Rightarrow> string \<Rightarrow> 'v option" where
  "cache_read inh c k = (case obj_get c k of Some v \<Rightarrow> Some v | None \<Rightarrow> inh k)"

datatype 'v got = Whole "(string, 'v) jsobj" | One "'v option"

definition data_get :: "(string \<Rightarrow> 'v option) \<Rightarrow> 'v owner \<Rightarrow> string option \<Rightarrow> 'v got \<times> 'v owner" where
  "data_get inh ow key =
     (case key of
        None \<Rightarrow> (let (c, ow') = cache ow in (Whole c, ow'))
      | Some k \<Rightarrow>
          (case slot ow of
             None \<Rightarrow> (One None, ow)
           | Some c \<Rightarrow> (One (cache_read inh c (camelCase k)), ow)))"

text \<open>What \<open>access\<close> is called with: nothing, a key that is not empty, a key with a value, or properties.\<close>

datatype 'v to_access = AskAll | AskKey string | Store "'v to_set"

datatype 'v accessed = Got "'v got" | StoredValue 'v | StoredProperties "(string \<times> 'v) list"

definition data_access :: "(string \<Rightarrow> 'v option) \<Rightarrow> 'v owner \<Rightarrow> 'v to_access \<Rightarrow> 'v accessed \<times> 'v owner" where
  "data_access inh ow what =
     (case what of
        AskAll \<Rightarrow> (let (g, ow') = data_get inh ow None in (Got g, ow'))
      | AskKey k \<Rightarrow>
          (let (g, ow') = data_get inh ow (Some k) in (Got g, ow'))
      | Store (KeyValue k v) \<Rightarrow> (StoredValue v, snd (data_set ow (KeyValue k v)))
      | Store (Properties ps) \<Rightarrow> (StoredProperties ps, snd (data_set ow (Properties ps))))"

text \<open>The keys \<open>remove\<close> deletes: those of an array; else the key itself, or the words in it.\<close>

datatype to_remove = RemoveAll | RemoveKey string | RemoveKeys "string list"

definition keys_to_remove :: "(string \<Rightarrow> 'v option) \<Rightarrow> (string, 'v) jsobj \<Rightarrow> to_remove \<Rightarrow> string list" where
  "keys_to_remove inh c what =
     (case what of
        RemoveAll \<Rightarrow> []
      | RemoveKeys ks \<Rightarrow> map camelCase ks
      | RemoveKey k \<Rightarrow>
          if cache_read inh c (camelCase k) \<noteq> None then [camelCase k] else rnotwhite_words (camelCase k))"

definition data_remove :: "(string \<Rightarrow> 'v option) \<Rightarrow> 'v owner \<Rightarrow> to_remove \<Rightarrow> 'v owner" where
  "data_remove inh ow what =
     (case slot ow of
        None \<Rightarrow> ow
      | Some c \<Rightarrow>
          (let c' = foldr obj_del (keys_to_remove inh c what) c
           in if what = RemoveAll \<or> c' = [] then ow\<lparr>slot := None\<rparr> else ow\<lparr>slot := Some c'\<rparr>))"

definition hasData :: "'v owner \<Rightarrow> bool" where
  "hasData ow \<longleftrightarrow> (case slot ow of None \<Rightarrow> False | Some c \<Rightarrow> c \<noteq> [])"

section \<open>Attributes\<close>

text \<open>
  The value of an attribute; \<open>number\<close> answers the number whose text is the given one, \<open>json\<close>
  parses, and where it fails the text itself is kept.
\<close>

datatype 'j dval = DBool bool | DNull | DStr string | DOther 'j

definition rbrace :: "string \<Rightarrow> bool" where
  "rbrace s \<longleftrightarrow> 2 \<le> length s \<and>
     (hd s = CHR ''{'' \<and> last s = CHR ''}'' \<or> hd s = CHR ''['' \<and> last s = CHR '']'')"

definition attr_value :: "(string \<Rightarrow> 'j option) \<Rightarrow> (string \<Rightarrow> 'j dval option) \<Rightarrow> string \<Rightarrow> 'j dval" where
  "attr_value number json s =
     (if s = ''true'' then DBool True
      else if s = ''false'' then DBool False
      else if s = ''null'' then DNull
      else case number s of Some n \<Rightarrow> DOther n
      | None \<Rightarrow>
          if rbrace s then (case json s of Some v \<Rightarrow> v | None \<Rightarrow> DStr s)
          else DStr s)"

definition dataAttr ::
    "(string \<Rightarrow> 'j option) \<Rightarrow> (string \<Rightarrow> 'j dval option) \<Rightarrow> 'j dval owner \<Rightarrow> string \<Rightarrow> 'j dval option \<Rightarrow>
     'j dval option \<times> 'j dval owner" where
  "dataAttr number json ow key data =
     (case data of
        Some v \<Rightarrow> (Some v, ow)
      | None \<Rightarrow>
          if nodeType ow = Some 1
          then (case map_of (attributes ow) (''data-'' @ dash_name key) of
                  Some s \<Rightarrow>
                    (let v = attr_value number json s
                     in (Some v, snd (data_set ow (KeyValue key v))))
                | None \<Rightarrow> (None, ow))
          else (None, ow))"

text \<open>
  \<open>$(elem).data(key)\<close> of the first element, and \<open>$(elem).data()\<close>, which reads all the attributes
  once; \<open>attrs_read\<close> is the private mark \<open>hasDataAttrs\<close>.
\<close>

definition data_of_key ::
    "(string \<Rightarrow> 'j option) \<Rightarrow> (string \<Rightarrow> 'j dval option) \<Rightarrow> (string \<Rightarrow> 'j dval option) \<Rightarrow> 'j dval owner \<Rightarrow> string \<Rightarrow>
     'j dval option \<times> 'j dval owner" where
  "data_of_key number json inh ow key =
     (case fst (data_get inh ow (Some key)) of
        One (Some v) \<Rightarrow> (Some v, ow)
      | _ \<Rightarrow> dataAttr number json ow key None)"

definition read_attr ::
    "(string \<Rightarrow> 'j option) \<Rightarrow> (string \<Rightarrow> 'j dval option) \<Rightarrow> (string \<Rightarrow> 'j dval option) \<Rightarrow> string \<Rightarrow> 'j dval owner \<Rightarrow> 'j dval owner" where
  "read_attr number json inh name ow =
     (if take 5 name = ''data-''
      then (let key = camelCase (drop 5 name); data = cache_read inh (fst (cache ow)) key
            in snd (dataAttr number json ow key data))
      else ow)"

definition data_all ::
    "(string \<Rightarrow> 'j option) \<Rightarrow> (string \<Rightarrow> 'j dval option) \<Rightarrow> (string \<Rightarrow> 'j dval option) \<Rightarrow>
     'j dval owner \<times> bool \<Rightarrow> (string, 'j dval) jsobj \<times> 'j dval owner \<times> bool" where
  "data_all number json inh st =
     (let (ow, attrs_read) = st; ow1 = snd (cache ow) in
      if nodeType ow1 = Some 1 \<and> \<not> attrs_read
      then (let ow2 = foldr (read_attr number json inh) (map fst (attributes ow1)) ow1
            in (fst (cache ow2), ow2, True))
      else (fst (cache ow1), ow1, attrs_read))"

section \<open>Names\<close>

lemma code_upper_ascii: "code (upper_ascii c) = (if lower_ascii c then code c - 32 else code c)"
  using code_less [of c] by (auto simp: upper_ascii_def lower_ascii_def Let_def code_char_of)

lemma lower_upper: "lower_ascii c \<Longrightarrow> upper_letter (upper_ascii c) \<and> lower_char (upper_ascii c) = c"
  by (auto simp: code_eq_iff [symmetric] code_lower_char code_upper_ascii upper_letter_def lower_ascii_def)

definition lowercase :: "string \<Rightarrow> bool" where
  "lowercase s \<longleftrightarrow> toLowerCase s = s"

lemma lowercase_Cons [simp]: "lowercase (c # s) \<longleftrightarrow> lower_char c = c \<and> lowercase s"
  by (auto simp: lowercase_def toLowerCase_def)

lemma lower_not_upper: "lower_char c = c \<Longrightarrow> \<not> upper_letter c"
  by (simp add: code_eq_iff [symmetric] code_lower_char upper_letter_def split: if_splits)

lemma dash_name_Cons:
  "dash_name (c # s) = (if upper_letter c then CHR ''-'' # lower_char c # dash_name s else lower_char c # dash_name s)"
  by (simp add: dash_name_def toLowerCase_def lower_char_def code_def Let_def)

lemma dash_camel: "lowercase s \<Longrightarrow> dash_name (camel_dashes s) = s"
proof (induction s rule: induct_list012)
  case 1
  show ?case by (simp add: dash_name_def toLowerCase_def)
next
  case (2 v)
  then show ?case using lower_not_upper [of v] by (simp add: dash_name_Cons) (simp add: dash_name_def toLowerCase_def)
next
  case (3 d c s)
  then show ?case
    using lower_upper [of c] lower_not_upper [of d]
    by (auto simp: dash_name_Cons fcamelCase_def)
qed

lemma camel_dashes_fix: "(\<nexists>a b c. s = a @ CHR ''-'' # c # b \<and> lower_ascii c) \<Longrightarrow> camel_dashes s = s"
proof (induction s rule: camel_dashes.induct)
  case (1 d c s)
  have n: "\<not> (d = CHR ''-'' \<and> lower_ascii c)" using 1(3) by (metis append_Nil)
  moreover have "\<nexists>a b e. c # s = a @ CHR ''-'' # e # b \<and> lower_ascii e"
    using 1(3) by (metis append_Cons)
  ultimately show ?case using 1(2) by auto
qed auto

section \<open>What a store keeps\<close>

lemma set_in_get:
  "obj_get (set_in data c) k =
     (case data of
        KeyValue k' v \<Rightarrow> if k = camelCase k' then Some v else obj_get c k
      | Properties ps \<Rightarrow>
          (let vs = values_at k (map (\<lambda>(k, v). (camelCase k, v)) ps)
           in if vs = [] then obj_get c k else Some (last vs)))"
proof (cases data)
  case (Properties ps)
  have "obj_get (foldl (\<lambda>c' (k, v). obj_put (camelCase k) v c') c ps) k =
      (let vs = values_at k (map (\<lambda>(k, v). (camelCase k, v)) ps)
       in if vs = [] then obj_get c k else Some (last vs))"
    by (induction ps arbitrary: c) (auto simp: js_obj Let_def)
  with Properties show ?thesis by (simp add: set_in_def)
qed (simp add: set_in_def js_obj)

lemma obj_get_dels: "obj_get (foldr obj_del ks c) k = (if k \<in> set ks then None else obj_get c k)"
  by (induction ks) (auto simp: js_obj)

definition stored :: "'v owner \<Rightarrow> string \<Rightarrow> 'v option" where
  "stored ow k = (case slot ow of None \<Rightarrow> None | Some c \<Rightarrow> obj_get c k)"

lemma stored_set:
  "acceptData ow \<or> slot ow \<noteq> None \<Longrightarrow>
   stored (snd (data_set ow (KeyValue k v))) k' = (if k' = camelCase k then Some v else stored ow k')"
  by (cases "slot ow") (auto simp: data_set_def cache_def stored_def set_in_get js_obj Let_def)

lemma stored_set_refused:
  "\<not> acceptData ow \<Longrightarrow> slot ow = None \<Longrightarrow> snd (data_set ow d) = ow"
  by (simp add: data_set_def cache_def)

lemma stored_remove:
  "stored (data_remove inh ow what) k =
     (case what of
        RemoveAll \<Rightarrow> None
      | _ \<Rightarrow> if k \<in> set (keys_to_remove inh (fst (cache ow)) what) then None else stored ow k)"
proof (cases "slot ow")
  case None
  then show ?thesis by (simp add: data_remove_def stored_def cache_def split: to_remove.split)
next
  case (Some c)
  have "k \<notin> set ks \<Longrightarrow> foldr obj_del ks c = [] \<Longrightarrow> obj_get c k = None" for ks
    using obj_get_dels [of ks c k] by (simp add: js_obj)
  with Some show ?thesis
    by (auto simp: data_remove_def stored_def cache_def Let_def obj_get_dels split: to_remove.split)
qed

lemma data_get_stored:
  "fst (data_get inh ow (Some k)) =
     One (if slot ow = None then None
          else (case stored ow (camelCase k) of Some v \<Rightarrow> Some v | None \<Rightarrow> inh (camelCase k)))"
  by (auto simp: data_get_def stored_def cache_read_def split: option.split)

section \<open>Properties\<close>

text \<open>
  Reading the name of an attribute back from its key, \<open>camelCase\<close> undone by the search for the
  attribute, gives the name, for every lower-case name but those with the prefix \<open>-ms-\<close>.
\<close>

theorem camelCase_roundtrip:
  assumes "lowercase name" and "take 4 name \<noteq> ''-ms-''"
  shows "dash_name (camelCase name) = name"
  using dash_camel [OF assms(1)] assms(2) by (simp add: camelCase_def ms_prefix_def)

theorem camelCase_roundtrip_witness: "dash_name (camelCase ''item-id-2'') = ''item-id-2''"
proof (rule camelCase_roundtrip)
  show "lowercase ''item-id-2''"
    by (simp add: lowercase_def toLowerCase_def lower_char_def code_def Let_def)
qed simp

text \<open>
  An owner that accepts data answers, for every key, what was stored under the same camel-case
  key last; storing leaves other keys alone, removing a key forgets that one, and an owner that does
  not accept data keeps nothing. A key that was never stored is answered by what the cache inherits.
\<close>

theorem data_store:
  "(acceptData ow \<longrightarrow>
      fst (data_get inh (snd (data_set ow (KeyValue k v))) (Some k')) =
        One (if camelCase k' = camelCase k then Some v
             else case stored ow (camelCase k') of Some w \<Rightarrow> Some w | None \<Rightarrow> inh (camelCase k'))) \<and>
   (\<not> acceptData ow \<and> slot ow = None \<longrightarrow> snd (data_set ow (KeyValue k v)) = ow) \<and>
   stored (data_remove inh ow (RemoveKeys [k])) (camelCase k') =
     (if camelCase k' = camelCase k then None else stored ow (camelCase k'))"
proof (intro conjI impI)
  assume a: "acceptData ow"
  obtain c where "slot (snd (data_set ow (KeyValue k v))) = Some c"
    using a by (cases "slot ow") (auto simp: data_set_def cache_def Let_def)
  with a show "fst (data_get inh (snd (data_set ow (KeyValue k v))) (Some k')) =
      One (if camelCase k' = camelCase k then Some v
           else case stored ow (camelCase k') of Some w \<Rightarrow> Some w | None \<Rightarrow> inh (camelCase k'))"
    by (simp add: data_get_stored stored_set)
qed (simp_all add: stored_set_refused stored_remove keys_to_remove_def)

theorem data_store_witness:
  "fst (data_get (\<lambda>_. None) (snd (data_set \<lparr>nodeType = Some 1, slot = None, attributes = []\<rparr> (KeyValue ''a-b'' (1::int)))) (Some ''aB'')) =
     One (Some 1)"
proof -
  have "acceptData (\<lparr>nodeType = Some 1, slot = None, attributes = []\<rparr> :: int owner)" by (simp add: acceptData_def)
  moreover have "camelCase ''aB'' = camelCase ''a-b''"
    by code_simp
  ultimately show ?thesis
    using data_store [of "\<lparr>nodeType = Some 1, slot = None, attributes = []\<rparr> :: int owner" "\<lambda>_. None" "''a-b''" 1 "''aB''"] by simp
qed

end
