(* ===== verification/J_Queue.thy ===== *)
theory J_Queue
  imports J_Callbacks
begin

text \<open>
  The function queues of \<open>jquery-3.1.0.js\<close>: the queue of one element and type with its hooks, which
  \<open>J_Data\<close> keeps as private data. A function that is started is recorded; its call of \<open>next\<close> is a
  later \<open>dequeue\<close>. The list \<open>hooks.empty\<close> is a callback list of \<open>J_Callbacks\<close>, whose first callback
  removes the queue and its hooks.
\<close>

section \<open>The state of a queue\<close>

datatype 'f entry = InProgress | Fun 'f

datatype 'w emptied = Cleanup | Waiter 'w

record ('w) qhooks =
  stop_set :: bool
  empty_list :: "('w emptied, unit) cb"

record ('f, 'w) equeue =
  entries :: "'f entry list option"
  hooks :: "'w qhooks option"
  started :: "'f list"
  told :: "'w list"

definition new_hooks :: "'w qhooks" where
  "new_hooks = \<lparr>stop_set = False, empty_list = cb_use (Listen Cleanup) cb_init\<rparr>"

definition queueHooks :: "('f, 'w) equeue \<Rightarrow> 'w qhooks \<times> ('f, 'w) equeue" where
  "queueHooks s =
     (case hooks s of
        Some h \<Rightarrow> (h, s)
      | None \<Rightarrow> (new_hooks, s\<lparr>hooks := Some new_hooks\<rparr>))"

text \<open>\<open>jQuery.queue\<close>: a lookup, one more function, or an array that replaces the queue.\<close>

datatype 'f qdata = Lookup | Append 'f | Replace "'f entry list"

definition jq_queue :: "'f qdata \<Rightarrow> ('f, 'w) equeue \<Rightarrow> 'f entry list \<times> ('f, 'w) equeue" where
  "jq_queue data s =
     (let q = (case data of
                 Lookup \<Rightarrow> entries s
               | Append f \<Rightarrow> Some (case entries s of None \<Rightarrow> [Fun f] | Some q \<Rightarrow> q @ [Fun f])
               | Replace es \<Rightarrow> Some es)
      in (case q of None \<Rightarrow> [] | Some es \<Rightarrow> es, s\<lparr>entries := q\<rparr>))"

definition waiters :: "('w emptied \<times> unit) list \<Rightarrow> 'w list" where
  "waiters cs = List.map_filter (\<lambda>(f, _). case f of Cleanup \<Rightarrow> None | Waiter w \<Rightarrow> Some w) cs"

text \<open>\<open>hooks.empty.fire()\<close>: the cleanup, which is the first callback, and those who wait.\<close>

definition fire_empty :: "'w qhooks \<Rightarrow> ('f, 'w) equeue \<Rightarrow> ('f, 'w) equeue" where
  "fire_empty h s =
     (let l = cb_use (Settle ()) (empty_list h); new = drop (length (calls (empty_list h))) (rev (calls l)) in
      s\<lparr>entries := if (Cleanup, ()) \<in> set new then None else entries s,
        hooks := if (Cleanup, ()) \<in> set new then None else hooks s,
        told := told s @ waiters new\<rparr>)"

text \<open>
  \<open>dequeue\<close>; a queue that is not stored is a fresh empty array. Starting something that is no
  function is a TypeError.
\<close>

definition shift :: "'f entry list \<Rightarrow> 'f entry option \<times> 'f entry list" where
  "shift q = (case q of [] \<Rightarrow> (None, []) | e # es \<Rightarrow> (Some e, es))"

definition dequeue :: "bool \<Rightarrow> ('f, 'w) equeue \<Rightarrow> ('f, 'w) equeue result" where
  "dequeue fx s =
     (let (q, s) = jq_queue Lookup s; startLength = length q; (fn, q) = shift q;
          (h, s) = queueHooks s;
          skip = (fn = Some InProgress);
          (fn, q) = (if skip then shift q else (fn, q));
          startLength = (if skip then startLength - 1 else startLength);
          store = (\<lambda>q s. s\<lparr>entries := map_option (\<lambda>_. q) (entries s)\<rparr>)
      in case fn of
           Some InProgress \<Rightarrow> Inl TypeError
         | Some (Fun f) \<Rightarrow>
             (let q = (if fx then InProgress # q else q); h = h\<lparr>stop_set := False\<rparr>;
                  s = (store q s)\<lparr>hooks := Some h, started := started s @ [f]\<rparr>
              in Inr (if startLength = 0 then fire_empty h s else s))
         | None \<Rightarrow> Inr (if startLength = 0 then fire_empty h (store q s) else store q s))"

text \<open>\<open>$(elem).queue(type, data)\<close> for one element, \<open>clearQueue\<close>, and \<open>promise\<close> over elements.\<close>

definition fn_queue :: "bool \<Rightarrow> 'f qdata \<Rightarrow> ('f, 'w) equeue \<Rightarrow> ('f, 'w) equeue result" where
  "fn_queue fx data s =
     (let (q, s) = jq_queue data s; s = snd (queueHooks s)
      in if fx \<and> (q = [] \<or> hd q \<noteq> InProgress) then dequeue fx s else Inr s)"

definition clearQueue :: "bool \<Rightarrow> ('f, 'w) equeue \<Rightarrow> ('f, 'w) equeue result" where
  "clearQueue fx s = fn_queue fx (Replace []) s"

definition register :: "'w \<Rightarrow> ('f, 'w) equeue \<Rightarrow> ('f, 'w) equeue" where
  "register w s =
     (case hooks s of
        None \<Rightarrow> s
      | Some h \<Rightarrow> s\<lparr>hooks := Some (h\<lparr>empty_list := cb_use (Listen (Waiter w)) (empty_list h)\<rparr>)\<rparr>)"

text \<open>The elements after \<open>promise\<close>, and how often \<open>resolve\<close> still has to be called.\<close>

definition fn_promise :: "'w \<Rightarrow> ('f, 'w) equeue list \<Rightarrow> ('f, 'w) equeue list \<times> nat" where
  "fn_promise w ss = (map (register w) ss, length (filter (\<lambda>s. hooks s \<noteq> None) ss))"

section \<open>Using a queue\<close>

text \<open>Functions are added, and the one that runs calls \<open>next\<close>.\<close>

datatype 'f quse = AddFn 'f | Next

definition queue_use :: "bool \<Rightarrow> 'f quse \<Rightarrow> ('f, 'w) equeue \<Rightarrow> ('f, 'w) equeue result" where
  "queue_use fx u s = (case u of AddFn f \<Rightarrow> fn_queue fx (Append f) s | Next \<Rightarrow> dequeue fx s)"

fun queue_run :: "bool \<Rightarrow> 'f quse list \<Rightarrow> ('f, 'w) equeue \<Rightarrow> ('f, 'w) equeue result" where
  "queue_run fx [] s = Inr s"
| "queue_run fx (u # us) s = bind_result (queue_use fx u s) (queue_run fx us)"

definition queue_init :: "('f, 'w) equeue" where
  "queue_init = \<lparr>entries = None, hooks = None, started = [], told = []\<rparr>"

definition added :: "'f quse list \<Rightarrow> 'f list" where
  "added us = List.map_filter (\<lambda>u. case u of AddFn f \<Rightarrow> Some f | Next \<Rightarrow> None) us"

definition waiting :: "('f, 'w) equeue \<Rightarrow> 'f list" where
  "waiting s = List.map_filter (\<lambda>e. case e of Fun f \<Rightarrow> Some f | InProgress \<Rightarrow> None) (fst (jq_queue Lookup s))"

text \<open>The cleanup is first in the list of every hooks and has not run.\<close>

definition hooks_ok :: "'w qhooks \<Rightarrow> bool" where
  "hooks_ok h \<longleftrightarrow> cb_quiet (empty_list h) \<and> calls (empty_list h) = [] \<and> memory (empty_list h) = None \<and>
     (\<exists>fs. items (empty_list h) = Some (Cleanup # fs))"

text \<open>An \<open>fx\<close> queue that is stored starts with the sentinel, any other has none.\<close>

definition queue_ok :: "bool \<Rightarrow> ('f, 'w) equeue \<Rightarrow> bool" where
  "queue_ok fx s \<longleftrightarrow>
     (case entries s of
        None \<Rightarrow> True
      | Some q \<Rightarrow> \<exists>fs. q = (if fx then InProgress # map Fun fs else map Fun fs)) \<and>
     (\<forall>h. hooks s = Some h \<longrightarrow> hooks_ok h)"

lemma new_hooks_stop [simp]: "new_hooks\<lparr>stop_set := False\<rparr> = new_hooks"
  by (simp add: new_hooks_def)

lemma hooks_ok_new: "hooks_ok new_hooks"
  by (simp add: hooks_ok_def new_hooks_def cb_use_def cb_init_def add_def the_items_def cb_quiet_def promise_options_eq Let_def)

lemma hooks_ok_fire:
  assumes "hooks_ok h"
  shows "\<exists>fs. rev (calls (cb_use (Settle ()) (empty_list h))) = (Cleanup, ()) # map (\<lambda>f. (f, ())) fs \<and>
    items (empty_list h) = Some (Cleanup # fs)"
proof -
  obtain fs where fs: "items (empty_list h) = Some (Cleanup # fs)" "calls (empty_list h) = []" "memory (empty_list h) = None"
    "cb_quiet (empty_list h)"
    using assms by (auto simp: hooks_ok_def)
  from cb_use_refines [OF fs(4), of "Settle ()"] fs(1-3) show ?thesis
    by (auto simp: cb_abs_def the_items_def)
qed

lemma fire_empty_removes: "hooks_ok h \<Longrightarrow> entries (fire_empty h s) = None \<and> hooks (fire_empty h s) = None \<and> started (fire_empty h s) = started s"
proof -
  assume h: "hooks_ok h"
  obtain fs where fs: "rev (calls (cb_use (Settle ()) (empty_list h))) = (Cleanup, ()) # map (\<lambda>f. (f, ())) fs"
    using hooks_ok_fire [OF h] by blast
  have "calls (empty_list h) = []" using h by (simp add: hooks_ok_def)
  with fs show ?thesis by (simp add: fire_empty_def Let_def)
qed

lemma map_filter_Fun: "List.map_filter (\<lambda>e. case e of Fun f \<Rightarrow> Some f | InProgress \<Rightarrow> None) (map Fun fs) = fs"
  by (induction fs) (simp_all add: map_filter_simps)

lemma hooks_of_queueHooks:
  assumes "\<forall>h. hooks s = Some h \<longrightarrow> hooks_ok h"
  shows "hooks_ok (fst (queueHooks s)) \<and> entries (snd (queueHooks s)) = entries s \<and> started (snd (queueHooks s)) = started s \<and>
    hooks (snd (queueHooks s)) = Some (fst (queueHooks s))"
  using assms hooks_ok_new by (auto simp: queueHooks_def split: option.split)

lemma jq_lookup [simp]: "jq_queue Lookup s = (case entries s of None \<Rightarrow> [] | Some q \<Rightarrow> q, s)"
  by (simp add: jq_queue_def)

text \<open>Taking the next function: it is started, or the empty queue is cleaned up.\<close>

lemma dequeue_empty:
  assumes h: "\<forall>h. hooks s = Some h \<longrightarrow> hooks_ok h" and e: "entries s = None \<or> entries s = Some [] \<or> entries s = Some [InProgress]"
  shows "\<exists>s'. dequeue fx s = Inr s' \<and> entries s' = None \<and> hooks s' = None \<and> started s' = started s"
proof -
  obtain g t where q: "queueHooks s = (g, t)" by (cases "queueHooks s")
  with hooks_of_queueHooks [OF h] have t: "hooks_ok g" "entries t = entries s" "started t = started s" by auto
  from e show ?thesis
    by (elim disjE) (simp_all add: dequeue_def q shift_def Let_def fire_empty_removes [OF t(1)] t)
qed

lemma dequeue_fun:
  assumes h: "\<forall>h. hooks s = Some h \<longrightarrow> hooks_ok h" and e: "entries s = Some (Fun f # q) \<or> entries s = Some (InProgress # Fun f # q)"
  shows "\<exists>s'. dequeue fx s = Inr s' \<and> entries s' = Some (if fx then InProgress # q else q) \<and>
    (\<forall>h. hooks s' = Some h \<longrightarrow> hooks_ok h) \<and> started s' = started s @ [f]"
proof -
  obtain g t where q: "queueHooks s = (g, t)" by (cases "queueHooks s")
  with hooks_of_queueHooks [OF h] have t: "hooks_ok g" "entries t = entries s" "started t = started s" by auto
  then have "hooks_ok (g\<lparr>stop_set := False\<rparr>)" by (simp add: hooks_ok_def)
  with e t show ?thesis by (elim disjE) (auto simp: dequeue_def q shift_def Let_def)
qed

lemma waiting_entries:
  "entries s = None \<Longrightarrow> waiting s = []"
  "entries s = Some (map Fun fs) \<Longrightarrow> waiting s = fs"
  "entries s = Some (InProgress # map Fun fs) \<Longrightarrow> waiting s = fs"
  by (simp_all add: waiting_def map_filter_simps map_filter_Fun)

lemma dequeue_ok:
  assumes "queue_ok fx s"
  shows "\<exists>s'. dequeue fx s = Inr s' \<and> queue_ok fx s' \<and> started s' @ waiting s' = started s @ waiting s \<and>
    (waiting s = [] \<longrightarrow> entries s' = None)"
proof -
  have h: "\<forall>h. hooks s = Some h \<longrightarrow> hooks_ok h" using assms by (simp add: queue_ok_def)
  consider "entries s = None" | fs where "entries s = Some (if fx then InProgress # map Fun fs else map Fun fs)"
    using assms by (auto simp: queue_ok_def split: option.splits)
  then show ?thesis
  proof cases
    case 1
    with dequeue_empty [OF h, of fx] show ?thesis by (auto simp: queue_ok_def waiting_entries)
  next
    case (2 fs)
    have w: "waiting s = fs" using 2 by (cases fx) (simp_all add: waiting_entries)
    show ?thesis
    proof (cases fs)
      case Nil
      with 2 have "entries s = None \<or> entries s = Some [] \<or> entries s = Some [InProgress]" by auto
      with dequeue_empty [OF h this, of fx] w Nil show ?thesis by (auto simp: queue_ok_def waiting_entries)
    next
      case (Cons f gs)
      with 2 have "entries s = Some (Fun f # map Fun gs) \<or> entries s = Some (InProgress # Fun f # map Fun gs)" by auto
      from dequeue_fun [OF h this, of fx] obtain s' where s': "dequeue fx s = Inr s'"
        "entries s' = Some (if fx then InProgress # map Fun gs else map Fun gs)"
        "\<forall>h. hooks s' = Some h \<longrightarrow> hooks_ok h" "started s' = started s @ [f]" by blast
      moreover from s'(2) have "waiting s' = gs" by (cases fx) (simp_all add: waiting_entries)
      ultimately show ?thesis using w Cons by (auto simp: queue_ok_def)
    qed
  qed
qed

lemma append_ok:
  assumes "queue_ok fx s"
  shows "\<exists>s'. fn_queue fx (Append f) s = Inr s' \<and> queue_ok fx s' \<and> started s' @ waiting s' = started s @ waiting s @ [f]"
proof -
  have h: "\<forall>h. hooks s = Some h \<longrightarrow> hooks_ok h" using assms by (simp add: queue_ok_def)
  obtain g t where q: "queueHooks (snd (jq_queue (Append f) s)) = (g, t)" by (cases "queueHooks (snd (jq_queue (Append f) s))")
  have "\<forall>h. hooks (snd (jq_queue (Append f) s)) = Some h \<longrightarrow> hooks_ok h" using h by (simp add: jq_queue_def)
  from hooks_of_queueHooks [OF this] q
  have t: "\<forall>h. hooks t = Some h \<longrightarrow> hooks_ok h" "started t = started s"
    "entries t = Some (case entries s of None \<Rightarrow> [Fun f] | Some q \<Rightarrow> q @ [Fun f])"
    by (auto simp: jq_queue_def)
  have fn: "fn_queue fx (Append f) s =
      (if fx \<and> (the (entries t) = [] \<or> hd (the (entries t)) \<noteq> InProgress) then dequeue fx t else Inr t)"
    using q t(3) by (simp add: fn_queue_def jq_queue_def split: option.splits)
  consider "entries s = None" | fs where "entries s = Some (if fx then InProgress # map Fun fs else map Fun fs)"
    using assms by (auto simp: queue_ok_def split: option.splits)
  then show ?thesis
  proof cases
    case 1
    with t have e: "entries t = Some (map Fun [f])" by simp
    show ?thesis
    proof (cases fx)
      case True
      have "entries t = Some (Fun f # []) \<or> entries t = Some (InProgress # Fun f # [])" using e by simp
      from dequeue_fun [OF t(1) this, of fx] e fn True t(2) waiting_entries(1) [OF 1]
      show ?thesis by (auto simp: queue_ok_def waiting_def map_filter_simps)
    next
      case False
      with e fn t waiting_entries(1) [OF 1] waiting_entries(2) [OF e] show ?thesis by (auto simp: queue_ok_def intro!: exI [of _ "[f]"])
    qed
  next
    case (2 fs)
    with t have e: "entries t = Some (if fx then InProgress # map Fun (fs @ [f]) else map Fun (fs @ [f]))" by simp
    have w: "waiting s = fs" "waiting t = fs @ [f]"
      using 2 e by (cases fx; simp add: waiting_entries)+
    have "fn_queue fx (Append f) s = Inr t" using fn e by simp
    moreover have "queue_ok fx t"
      unfolding queue_ok_def e using t(1) by (auto intro: exI [of _ "fs @ [f]"])
    ultimately show ?thesis using t(2) w by auto
  qed
qed

lemma queue_run_ok:
  "queue_ok fx s \<Longrightarrow> \<exists>s'. queue_run fx us s = Inr s' \<and> queue_ok fx s' \<and> started s' @ waiting s' = started s @ waiting s @ added us"
proof (induction us arbitrary: s)
  case Nil
  then show ?case by (simp add: added_def map_filter_simps)
next
  case (Cons u us)
  show ?case
  proof (cases u)
    case (AddFn f)
    from append_ok [OF Cons.prems, of f] obtain t where "fn_queue fx (Append f) s = Inr t" "queue_ok fx t"
      "started t @ waiting t = started s @ waiting s @ [f]" by blast
    with Cons.IH [of t] AddFn show ?thesis by (auto simp: queue_use_def added_def map_filter_simps)
  next
    case Next
    from dequeue_ok [OF Cons.prems] obtain t where "dequeue fx s = Inr t" "queue_ok fx t"
      "started t @ waiting t = started s @ waiting s" by blast
    with Cons.IH [of t] Next show ?thesis by (auto simp: queue_use_def added_def map_filter_simps)
  qed
qed

section \<open>Properties\<close>

text \<open>
  C35: the functions of a queue are started in the order they were added, none is lost and none is
  started twice, and no use of the queue fails; in the queue \<open>fx\<close> a function only waits while
  another one is in progress.
\<close>

theorem queue_fifo:
  "\<exists>s :: ('f, 'w) equeue. queue_run fx us queue_init = Inr s \<and> started s @ waiting s = added us \<and>
     (fx \<and> waiting s \<noteq> [] \<longrightarrow> (\<exists>q. entries s = Some (InProgress # q)))"
proof -
  have "queue_ok fx (queue_init :: ('f, 'w) equeue)" by (simp add: queue_ok_def queue_init_def)
  from queue_run_ok [OF this, of us] obtain s :: "('f, 'w) equeue" where s: "queue_run fx us queue_init = Inr s" "queue_ok fx s"
    "started s @ waiting s = started (queue_init :: ('f, 'w) equeue) @ waiting (queue_init :: ('f, 'w) equeue) @ added us" by blast
  moreover have "started (queue_init :: ('f, 'w) equeue) = []" "waiting (queue_init :: ('f, 'w) equeue) = []"
    by (simp_all add: queue_init_def waiting_def map_filter_simps)
  moreover have "fx \<and> waiting s \<noteq> [] \<longrightarrow> (\<exists>q. entries s = Some (InProgress # q))"
    using s(2) by (auto simp: queue_ok_def waiting_def map_filter_simps split: option.splits)
  ultimately show ?thesis by auto
qed

theorem queue_fifo_witness:
  "\<exists>s. queue_run True [AddFn ''a'', AddFn ''b'', Next] queue_init = Inr s \<and> started s @ waiting s = [''a'', ''b'']"
  using queue_fifo [of True "[AddFn ''a'', AddFn ''b'', Next]"] by (auto simp: added_def map_filter_simps)

text \<open>
  Clearing the queue \<open>fx\<close> while a function runs drops the sentinel too, and a function added then
  starts at once, beside the one that still runs.
\<close>

theorem clear_forgets_progress:
  "map_sum (\<lambda>_. ()) started
     (bind_result (queue_run True [AddFn f] (queue_init :: ('f, 'w) equeue))
       (\<lambda>s. bind_result (clearQueue True s) (\<lambda>t. fn_queue True (Append g) t))) = Inr [f, g]"
  by (simp add: queue_use_def fn_queue_def clearQueue_def jq_queue_def queue_init_def queueHooks_def dequeue_def shift_def
      fire_empty_removes hooks_ok_new Let_def)

end
