(* ===== verification/J_Ajax.thy ===== *)
theory J_Ajax
  imports J_Callbacks
begin

text \<open>
  The choice of handlers, data types and conversions of an ajax request in \<open>jquery-3.1.0.js\<close>: the
  registry of prefilters and transports, \<open>ajaxHandleResponses\<close> and \<open>ajaxConvert\<close>. Data types are
  strings; a converter is keyed by the pair of its types, and \<open>true\<close> is the converter \<open>Same\<close>.
\<close>

section \<open>Prefilters and transports\<close>

text \<open>A registered function under each type; a leading plus sign puts it first.\<close>

definition register_type :: "'f \<Rightarrow> (string, 'f list) jsobj \<Rightarrow> string \<Rightarrow> (string, 'f list) jsobj" where
  "register_type func structure dataType =
     (if take 1 dataType = ''+''
      then (let t = (if drop 1 dataType = '''' then ''*'' else drop 1 dataType)
            in obj_put t (func # (case obj_get structure t of None \<Rightarrow> [] | Some fs \<Rightarrow> fs)) structure)
      else obj_push (dataType, func) structure)"

definition addTo :: "string option \<Rightarrow> 'f \<Rightarrow> (string, 'f list) jsobj \<Rightarrow> (string, 'f list) jsobj" where
  "addTo expression func structure =
     foldl (register_type func) structure
       (rnotwhite_words (toLowerCase (case expression of None \<Rightarrow> ''*'' | Some e \<Rightarrow> e)))"

text \<open>
  \<open>inspect\<close> of prefilters: a prefilter may name a data type that has not been inspected; it is put in
  front and inspected in turn. What a prefilter answers may depend on the data types so far. The fuel
  bounds the number of types that are inspected.
\<close>

fun first_new :: "string list \<Rightarrow> string option list \<Rightarrow> string option" where
  "first_new inspected [] = None"
| "first_new inspected (r # rs) =
     (case r of Some t \<Rightarrow> if t \<notin> set inspected then Some t else first_new inspected rs | None \<Rightarrow> first_new inspected rs)"

fun inspect :: "(string, (string list \<Rightarrow> string option) list) jsobj \<Rightarrow> nat \<Rightarrow> string \<Rightarrow> string list \<times> string list \<Rightarrow>
    (string list \<times> string list) option" where
  "inspect structure 0 dataType st = None"
| "inspect structure (Suc n) dataType st =
     (let (inspected, dataTypes) = st; inspected = dataType # inspected;
          fs = (case obj_get structure dataType of None \<Rightarrow> [] | Some fs \<Rightarrow> fs)
      in case first_new inspected (map (\<lambda>f. f dataTypes) fs) of
           None \<Rightarrow> Some (inspected, dataTypes)
         | Some t \<Rightarrow> inspect structure n t (inspected, t # dataTypes))"

definition inspect_prefilters ::
    "(string, (string list \<Rightarrow> string option) list) jsobj \<Rightarrow> nat \<Rightarrow> string list \<Rightarrow> (string list \<times> string list) option" where
  "inspect_prefilters structure n dataTypes =
     (case inspect structure n (hd dataTypes) ([], dataTypes) of
        None \<Rightarrow> None
      | Some (inspected, ts) \<Rightarrow> if ''*'' \<in> set inspected then Some (inspected, ts) else inspect structure n ''*'' (inspected, ts))"

text \<open>Of transports the first factory that answers one is taken, of the type itself or of \<open>*\<close>.\<close>

definition select_transport :: "(string, ('o \<Rightarrow> 'tr option) list) jsobj \<Rightarrow> 'o \<Rightarrow> string \<Rightarrow> 'tr option" where
  "select_transport structure options dataType =
     (case List.find (\<lambda>r. r \<noteq> None)
         (map (\<lambda>f. f options) (case obj_get structure dataType of None \<Rightarrow> [] | Some fs \<Rightarrow> fs)) of
        Some r \<Rightarrow> r | None \<Rightarrow> None)"

definition inspect_transports :: "(string, ('o \<Rightarrow> 'tr option) list) jsobj \<Rightarrow> 'o \<Rightarrow> string list \<Rightarrow> 'tr option" where
  "inspect_transports structure options dataTypes =
     (case select_transport structure options (hd dataTypes) of
        Some t \<Rightarrow> Some t
      | None \<Rightarrow> if hd dataTypes = ''*'' then None else select_transport structure options ''*'')"

section \<open>The response\<close>

datatype ('r, 'e) conv = Same | Convert "'r \<Rightarrow> 'e + 'r"

record ('r, 'e) settings =
  dataTypes :: "string list"
  contents :: "(string \<times> (string \<Rightarrow> bool)) list"
  mimeType :: "string option"
  converters :: "((string \<times> string) \<times> ('r, 'e) conv) list"
  throws :: bool
  dataFilter :: "('r \<Rightarrow> 'r) option"

text \<open>The leading \<open>*\<close> entries are dropped; if there was one the content type decides.\<close>

definition content_type :: "('r, 'e) settings \<Rightarrow> string option \<Rightarrow> string option" where
  "content_type s header =
     (case dataTypes s of
        t # _ \<Rightarrow>
        if t = ''*''
        then (case mimeType s of Some m \<Rightarrow> if m = '''' then header else Some m | None \<Rightarrow> header)
        else None
      | [] \<Rightarrow> None)"

definition known_types :: "('r, 'e) settings \<Rightarrow> string option \<Rightarrow> string list" where
  "known_types s header =
     (let rest = dropWhile (\<lambda>t. t = ''*'') (dataTypes s) in
      case content_type s header of
        None \<Rightarrow> rest
      | Some ct \<Rightarrow>
          if ct = '''' then rest
          else (case List.find (\<lambda>(t, p). p ct) (contents s) of
                  Some (t, _) \<Rightarrow> t # rest
                | None \<Rightarrow> rest))"

definition final_type :: "('r, 'e) settings \<Rightarrow> string list \<Rightarrow> (string \<times> 'r) list \<Rightarrow> string option" where
  "final_type s types responses =
     (case types of
        [] \<Rightarrow> (case responses of [] \<Rightarrow> None | (t, _) # _ \<Rightarrow> Some t)
      | t # _ \<Rightarrow>
          if t \<in> fst ` set responses then Some t
          else (case List.find (\<lambda>(u, _). (u, t) \<in> fst ` set (converters s)) responses of
                  Some (u, _) \<Rightarrow> Some u
                | None \<Rightarrow> (case responses of [] \<Rightarrow> None | (u, _) # _ \<Rightarrow> Some u)))"

text \<open>The data types afterwards, and the response.\<close>

definition ajaxHandleResponses ::
    "('r, 'e) settings \<Rightarrow> string option \<Rightarrow> (string \<times> 'r) list \<Rightarrow> string list \<times> 'r option" where
  "ajaxHandleResponses s header responses =
     (let types = known_types s header in
      case final_type s types responses of
        None \<Rightarrow> (types, None)
      | Some t \<Rightarrow> (if types \<noteq> [] \<and> hd types = t then types else t # types, map_of responses t))"

section \<open>Conversion\<close>

datatype ('r, 'e) converted = Success 'r | Failed 'e | NoConversion string string | Thrown 'e

definition direct :: "((string \<times> string) \<times> ('r, 'e) conv) list \<Rightarrow> string \<Rightarrow> string \<Rightarrow> ('r, 'e) conv option" where
  "direct cs prev current =
     (case map_of cs (prev, current) of Some c \<Rightarrow> Some c | None \<Rightarrow> map_of cs (''*'', current))"

text \<open>
  Seeking a pair: the first converter whose output is the type wanted and whose input the previous
  type can be converted to. The answer is the converter to apply and the type it leads to.
\<close>

fun seek_pair :: "((string \<times> string) \<times> ('r, 'e) conv) list \<Rightarrow> string \<Rightarrow> string \<Rightarrow>
    ((string \<times> string) \<times> ('r, 'e) conv) list \<Rightarrow> (('r, 'e) conv \<times> string) option" where
  "seek_pair cs prev current [] = None"
| "seek_pair cs prev current (((from, to'), c2) # rest) =
     (if to' = current
      then (case direct cs prev from of
              None \<Rightarrow> seek_pair cs prev current rest
            | Some Same \<Rightarrow> Some (c2, current)
            | Some (Convert f) \<Rightarrow> Some (Convert f, (case c2 of Same \<Rightarrow> current | Convert _ \<Rightarrow> from)))
      else seek_pair cs prev current rest)"

text \<open>One step: the converter, and the type reached.\<close>

definition conv_step :: "((string \<times> string) \<times> ('r, 'e) conv) list \<Rightarrow> string \<Rightarrow> string \<Rightarrow> (('r, 'e) conv \<times> string) option" where
  "conv_step cs prev current =
     (case direct cs prev current of Some c \<Rightarrow> Some (c, current) | None \<Rightarrow> seek_pair cs prev current cs)"

fun convert_loop :: "nat \<Rightarrow> ((string \<times> string) \<times> ('r, 'e) conv) list \<Rightarrow> bool \<Rightarrow> string \<Rightarrow> string list \<Rightarrow> 'r \<Rightarrow>
    ('r, 'e) converted option" where
  "convert_loop 0 cs thr prev types r = None"
| "convert_loop (Suc n) cs thr prev [] r = Some (Success r)"
| "convert_loop (Suc n) cs thr prev (current # types) r =
     (if current = [] then Some (Success r)
      else if current = ''*'' then convert_loop n cs thr prev types r
      else if prev \<noteq> ''*'' \<and> prev \<noteq> current then
        (case conv_step cs prev current of
           None \<Rightarrow> Some (NoConversion prev current)
         | Some (Same, t) \<Rightarrow> convert_loop n cs thr current types r
         | Some (Convert f, t) \<Rightarrow>
             (case f r of
                Inl e \<Rightarrow> Some (if thr then Thrown e else Failed e)
              | Inr r' \<Rightarrow>
                  if t = current then convert_loop n cs thr current types r'
                  else if t = [] then Some (Success r')
                  else convert_loop n cs thr t (current # types) r'))
      else convert_loop n cs thr current types r)"

definition ajaxConvert :: "nat \<Rightarrow> ('r, 'e) settings \<Rightarrow> string list \<Rightarrow> 'r \<Rightarrow> bool \<Rightarrow> ('r, 'e) converted option" where
  "ajaxConvert n s types r isSuccess =
     (let cs = (if 1 < length types \<and> types ! 1 \<noteq> []
                then foldl (\<lambda>m ((a, b), c). obj_put (toLowerCase a, toLowerCase b) c m) [] (converters s)
                else [])
      in case types of
           [] \<Rightarrow> Some (Success r)
         | t # ts \<Rightarrow>
             if t = [] then Some (Success r)
             else convert_loop n cs (throws s) t ts
               (case dataFilter s of Some f \<Rightarrow> if isSuccess then f r else r | None \<Rightarrow> r))"

section \<open>Termination\<close>

lemma direct_in: "((from, current), c) \<in> set cs \<Longrightarrow> direct cs from current \<noteq> None"
  by (auto simp: direct_def split: option.split dest: map_of_SomeD) (metis eq_key_imp_eq_value image_eqI
      map_of_eq_None_iff fst_conv)

lemma seek_pair_Some:
  "seek_pair cs prev current es = Some (c, t) \<Longrightarrow> t = current \<or> (\<exists>c2. ((t, current), c2) \<in> set es)"
  by (induction cs prev current es rule: seek_pair.induct) (auto split: if_splits option.splits conv.splits)

lemma conv_step_next:
  assumes "conv_step cs prev current = Some (c, t)" and "t \<noteq> current"
  shows "\<exists>c'. conv_step cs t current = Some (c', current)"
proof -
  from assms obtain c2 where "((t, current), c2) \<in> set cs"
    using seek_pair_Some [of cs prev current cs c t] by (auto simp: conv_step_def split: option.splits)
  from direct_in [OF this] show ?thesis by (auto simp: conv_step_def)
qed

text \<open>A type is left behind after two steps at most.\<close>

lemma convert_loop_returns: "2 * length types < n \<Longrightarrow> convert_loop n cs thr prev types r \<noteq> None"
proof (induction types arbitrary: n prev r)
  case Nil
  then obtain m where "n = Suc m" by (cases n) auto
  then show ?case by simp
next
  case (Cons current types)
  obtain m where m: "n = Suc (Suc m)" "2 * length types < m" using Cons.prems by (cases n; cases "n - 1") auto
  have rest: "convert_loop (Suc m) cs thr p types r' \<noteq> None" "convert_loop m cs thr p types r' \<noteq> None" for p r'
    using Cons.IH m by simp_all
  have direct: "convert_loop (Suc m) cs thr p (current # types) r' \<noteq> None"
    if "\<exists>c'. conv_step cs p current = Some (c', current)" for p r'
    using that rest by (auto split: conv.splits sum.splits)
  show ?case
  proof (cases "conv_step cs prev current")
    case None
    with rest m show ?thesis by simp
  next
    case (Some ct)
    obtain c t where ct: "ct = (c, t)" by (cases ct)
    show ?thesis
    proof (cases "t = current")
      case True
      with Some ct rest m show ?thesis by (auto split: conv.splits sum.splits)
    next
      case False
      with conv_step_next [of cs prev current c t] Some ct
      have "\<exists>c'. conv_step cs t current = Some (c', current)" by simp
      from direct [OF this] Some ct rest m False show ?thesis
        by (auto simp del: convert_loop.simps simp: convert_loop.simps(3) [of "Suc m"] split: conv.splits sum.splits)
    qed
  qed
qed

lemma first_new_Some: "first_new inspected rs = Some t \<Longrightarrow> t \<notin> set inspected"
  by (induction rs) (auto split: option.splits if_splits)

text \<open>Only a registered type can lead to another one.\<close>

definition uninspected :: "(string, 'b) jsobj \<Rightarrow> string list \<Rightarrow> nat" where
  "uninspected structure inspected = card (fst ` set structure - set inspected)"

lemma inspect_returns:
  "t \<notin> set (fst st) \<Longrightarrow> uninspected structure (fst st) + 1 < n \<Longrightarrow> inspect structure n t st \<noteq> None"
proof (induction n arbitrary: t st)
  case (Suc n)
  obtain ins ts where st: "st = (ins, ts)" by (cases st)
  show ?case
  proof (cases "obj_get structure t")
    case None
    with st show ?thesis by (simp add: Let_def)
  next
    case (Some fs)
    then have "t \<in> fst ` set structure" by (force simp: obj_get_def dest: map_of_SomeD)
    then have less: "uninspected structure (t # ins) < uninspected structure ins"
      unfolding uninspected_def using Suc.prems(1) st by (intro psubset_card_mono) auto
    show ?thesis
    proof (cases "first_new (t # ins) (map (\<lambda>f. f ts) fs)")
      case None
      with st Some show ?thesis by (simp add: Let_def)
    next
      case (Some u)
      have "inspect structure n u (t # ins, u # ts) \<noteq> None"
        using first_new_Some [OF Some] less Suc.prems(2) st by (intro Suc.IH) auto
      with st Some \<open>obj_get structure t = Some fs\<close> show ?thesis by (simp add: Let_def)
    qed
  qed
qed simp

lemma no_conversion:
  "convert_loop n cs thr prev types r = Some (NoConversion p c) \<Longrightarrow> conv_step cs p c = None"
  by (induction n cs thr prev types r rule: convert_loop.induct)
    (auto split: if_splits option.splits conv.splits sum.splits prod.splits)

lemma seek_pair_None:
  "seek_pair cs prev current es = None \<Longrightarrow> ((from, current), c2) \<in> set es \<Longrightarrow> direct cs prev from = None"
  by (induction cs prev current es rule: seek_pair.induct) (auto split: if_splits option.splits conv.splits)

section \<open>Properties\<close>

text \<open>
  C38: converting a response ends after two steps at most for each data type, and it reports that there
  is no conversion only when no registered converter leads from the one type to the other, neither by
  itself nor through one type in between.
\<close>

theorem ajaxConvert_terminates:
  "ajaxConvert (2 * length types + 1 + k) s types r isSuccess \<noteq> None \<and>
   (convert_loop n cs thr prev types r = Some (NoConversion p c) \<longrightarrow>
      direct cs p c = None \<and> (\<forall>from c2. ((from, c), c2) \<in> set cs \<longrightarrow> direct cs p from = None))"
proof
  show "ajaxConvert (2 * length types + 1 + k) s types r isSuccess \<noteq> None"
  proof (cases types)
    case (Cons t ts)
    have "convert_loop (2 * length types + 1 + k) cs (throws s) t ts r' \<noteq> None" for cs r'
      by (rule convert_loop_returns) (simp add: Cons)
    then show ?thesis unfolding ajaxConvert_def Let_def Cons list.case by (cases "t = []") (simp_all only: if_True if_False option.distinct not_False_eq_True simp_thms)
  qed (simp add: ajaxConvert_def)
  show "convert_loop n cs thr prev types r = Some (NoConversion p c) \<longrightarrow>
      direct cs p c = None \<and> (\<forall>from c2. ((from, c), c2) \<in> set cs \<longrightarrow> direct cs p from = None)"
    using no_conversion [of n cs thr prev types r p c] seek_pair_None [of cs p c cs]
    by (auto simp: conv_step_def split: option.splits)
qed

theorem ajaxConvert_terminates_witness:
  "direct [((''text'', ''json''), Same :: (nat, nat) conv)] ''text'' ''xml'' = None"
proof -
  have "convert_loop 3 [((''text'', ''json''), Same :: (nat, nat) conv)] False ''text'' [''xml''] 0 = Some (NoConversion ''text'' ''xml'')"
    by (simp add: conv_step_def direct_def numeral_eq_Suc)
  then show ?thesis by (rule ajaxConvert_terminates [THEN conjunct2, THEN mp, THEN conjunct1])
qed

text \<open>
  The prefilters are inspected at most once for each data type, so inspection ends, whatever the
  prefilters redirect to.
\<close>

theorem inspect_terminates: "inspect_prefilters structure (length structure + 2 + k) (t # ts) \<noteq> None"
proof -
  have card: "uninspected structure ins \<le> length structure" for ins
  proof -
    have "uninspected structure ins \<le> card (fst ` set structure)"
      unfolding uninspected_def by (rule card_mono) auto
    also have "\<dots> \<le> card (set structure)" by (rule card_image_le) simp
    also have "\<dots> \<le> length structure" by (rule card_length)
    finally show ?thesis .
  qed
  have r: "inspect structure (length structure + 2 + k) u st \<noteq> None" if "u \<notin> set (fst st)" for u st
    by (rule inspect_returns [OF that]) (use card [of "fst st"] in simp)
  obtain ins ts' where i: "inspect structure (length structure + 2 + k) t ([], t # ts) = Some (ins, ts')"
    using r [of t "([], t # ts)"] by auto
  show ?thesis
  proof (cases "''*'' \<in> set ins")
    case True
    with i show ?thesis by (simp add: inspect_prefilters_def)
  next
    case False
    with i r [of "''*''" "(ins, ts')"] show ?thesis by (simp add: inspect_prefilters_def)
  qed
qed

text \<open>
  If there is any response, one is returned and its type heads the data types; it is the response
  for the expected type when there is one.
\<close>

theorem ajaxHandleResponses_picks:
  assumes "responses \<noteq> []"
  shows "\<exists>t ts r. ajaxHandleResponses s header responses = (t # ts, Some r) \<and> map_of responses t = Some r \<and>
    (case known_types s header of [] \<Rightarrow> True | u # _ \<Rightarrow> u \<in> fst ` set responses \<longrightarrow> t = u)"
proof -
  have found: "List.find p responses = Some (u, x) \<Longrightarrow> u \<in> fst ` set responses" for p u x
    by (auto simp: find_Some_iff) (metis fst_conv image_eqI nth_mem)
  obtain v x rs where rs: "responses = (v, x) # rs" using assms by (cases responses) auto
  let ?types = "known_types s header"
  have "\<exists>t. final_type s ?types responses = Some t \<and> t \<in> fst ` set responses \<and>
      (case ?types of [] \<Rightarrow> True | u # _ \<Rightarrow> u \<in> fst ` set responses \<longrightarrow> t = u)"
  proof (cases ?types)
    case Nil
    with rs show ?thesis by (simp add: final_type_def)
  next
    case (Cons u us)
    show ?thesis
    proof (cases "List.find (\<lambda>(w, _). (w, u) \<in> fst ` set (converters s)) responses")
      case None
      with Cons rs show ?thesis by (simp add: final_type_def)
    next
      case (Some e)
      obtain w y where e: "e = (w, y)" by (cases e)
      with found Some have "w \<in> fst ` set responses" by blast
      with Cons Some e show ?thesis by (simp add: final_type_def)
    qed
  qed
  then obtain t where t: "final_type s ?types responses = Some t" "t \<in> fst ` set responses"
    "case ?types of [] \<Rightarrow> True | u # _ \<Rightarrow> u \<in> fst ` set responses \<longrightarrow> t = u" by blast
  have "map_of responses t \<noteq> None" using t(2) by (simp add: map_of_eq_None_iff)
  then obtain r where r: "map_of responses t = Some r" by auto
  show ?thesis
  proof (cases "?types \<noteq> [] \<and> hd ?types = t")
    case True
    then have "ajaxHandleResponses s header responses = (t # tl ?types, Some r)"
      using t(1) r by (auto simp: ajaxHandleResponses_def Let_def)
    with r t(3) show ?thesis by blast
  next
    case False
    then have "ajaxHandleResponses s header responses = (t # ?types, Some r)"
      using t(1) r by (auto simp: ajaxHandleResponses_def Let_def)
    with r t(3) show ?thesis by blast
  qed
qed

theorem ajaxHandleResponses_picks_witness:
  "\<exists>t ts r. ajaxHandleResponses \<lparr>dataTypes = [''json''], contents = [], mimeType = None,
      converters = ([] :: ((string \<times> string) \<times> (nat, nat) conv) list), throws = False, dataFilter = None\<rparr> None [(''text'', 5)] = (t # ts, Some r)"
  using ajaxHandleResponses_picks [of "[(''text'', 5)]"] by fastforce

end
