(* ===== verification/J_Param.thy ===== *)
theory J_Param
  imports Doctools
begin

text \<open>
  The serialization of \<open>jquery-3.1.0.js\<close>: \<open>buildParams\<close>, \<open>jQuery.param\<close> and \<open>serializeArray\<close>. A value
  is a tree; a scalar is the text that concatenation makes of it, \<open>None\<close> for \<open>null\<close> and
  \<open>undefined\<close>; a function is the value its call answers, and does not stand inside an array that is
  sent as one text.
\<close>

datatype pvalue =
    PScalar "string option"
  | PNull
  | PFun "string option"
  | PArr "pvalue list"
  | PObj "(string \<times> pvalue) list"

text \<open>\<open>/\[\]$/.test(prefix)\<close>.\<close>

definition ends_brackets :: "string \<Rightarrow> bool" where
  "ends_brackets s \<longleftrightarrow> 2 \<le> length s \<and> drop (length s - 2) s = ''[]''"

text \<open>What \<open>add\<close> is called with: the value, \<open>null\<close> as the empty text.\<close>

fun text_of :: "pvalue \<Rightarrow> string" where
  "text_of (PScalar (Some s)) = s"
| "text_of (PScalar None) = ''''"
| "text_of PNull = ''''"
| "text_of (PFun (Some s)) = s"
| "text_of (PFun None) = ''''"
| "text_of (PArr vs) = join1 '','' (map text_of vs)"
| "text_of (PObj ps) = ''[object Object]''"

fun is_object :: "pvalue \<Rightarrow> bool" where
  "is_object (PArr vs) = True"
| "is_object (PObj ps) = True"
| "is_object v = False"

text \<open>The pairs \<open>buildParams\<close> adds, in their order; \<open>i\<close> counts the items of an array.\<close>

fun buildParams :: "bool \<Rightarrow> string \<Rightarrow> pvalue \<Rightarrow> (string \<times> string) list"
  and build_items :: "bool \<Rightarrow> string \<Rightarrow> nat \<Rightarrow> pvalue list \<Rightarrow> (string \<times> string) list"
  and build_members :: "bool \<Rightarrow> string \<Rightarrow> (string \<times> pvalue) list \<Rightarrow> (string \<times> string) list" where
  "buildParams traditional prefix (PArr vs) = build_items traditional prefix 0 vs"
| "buildParams traditional prefix (PObj ps) =
     (if \<not> traditional then build_members traditional prefix ps else [(prefix, text_of (PObj ps))])"
| "buildParams traditional prefix (PScalar v) = [(prefix, text_of (PScalar v))]"
| "buildParams traditional prefix PNull = [(prefix, text_of PNull)]"
| "buildParams traditional prefix (PFun v) = [(prefix, text_of (PFun v))]"
| "build_items traditional prefix i [] = []"
| "build_items traditional prefix i (v # vs) =
     (if traditional \<or> ends_brackets prefix then [(prefix, text_of v)]
      else buildParams traditional (prefix @ ''['' @ (if is_object v then show_nat i else '''') @ '']'') v) @
     build_items traditional prefix (Suc i) vs"
| "build_members traditional prefix [] = []"
| "build_members traditional prefix ((name, v) # ps) =
     buildParams traditional (prefix @ ''['' @ name @ '']'') v @ build_members traditional prefix ps"

text \<open>The argument of \<open>param\<close>: an array of named values, or an object.\<close>

datatype param_arg = Elements "(string \<times> pvalue) list" | Plain "(string \<times> pvalue) list"

definition param_pairs :: "param_arg \<Rightarrow> bool \<Rightarrow> (string \<times> string) list" where
  "param_pairs a traditional =
     (case a of
        Elements es \<Rightarrow> map (\<lambda>(n, v). (n, text_of v)) es
      | Plain ps \<Rightarrow> concat (map (\<lambda>(k, v). buildParams traditional k v) ps))"

definition param_add :: "string \<times> string \<Rightarrow> string" where
  "param_add kv = encodeURIComponent (fst kv) @ ''='' @ encodeURIComponent (snd kv)"

definition param :: "param_arg \<Rightarrow> bool \<Rightarrow> string" where
  "param a traditional = join1 ''&'' (map param_add (param_pairs a traditional))"

section \<open>serializeArray\<close>

text \<open>
  A form element: its name, type and node name, whether it is disabled and checked, and what
  \<open>val()\<close> answers: nothing, a text, or the texts of a multiple selection.
\<close>

datatype form_value = NoValue | OneValue string | Values "string list"

record form_element =
  el_name :: string
  el_type :: string
  el_node :: string
  el_disabled :: bool
  el_checked :: bool
  el_value :: form_value

text \<open>The patterns, which ignore case; \<open>rsubmittable\<close> is not anchored at its end.\<close>

definition submitter_type :: "string \<Rightarrow> bool" where
  "submitter_type t \<longleftrightarrow> toLowerCase t \<in> {''submit'', ''button'', ''image'', ''reset'', ''file''}"

definition starts :: "string \<Rightarrow> string \<Rightarrow> bool" where
  "starts p s \<longleftrightarrow> take (length p) s = p"

definition submittable :: "string \<Rightarrow> bool" where
  "submittable n \<longleftrightarrow> list_ex (\<lambda>p. starts p (toLowerCase n)) [''input'', ''select'', ''textarea'', ''keygen'']"

definition checkable_type :: "string \<Rightarrow> bool" where
  "checkable_type t \<longleftrightarrow> toLowerCase t \<in> {''checkbox'', ''radio''}"

definition successful :: "form_element \<Rightarrow> bool" where
  "successful e \<longleftrightarrow> el_name e \<noteq> '''' \<and> \<not> el_disabled e \<and> submittable (el_node e) \<and> \<not> submitter_type (el_type e) \<and>
     (el_checked e \<or> \<not> checkable_type (el_type e))"

text \<open>\<open>val.replace(/\r?\n/g, "\r\n")\<close>.\<close>

fun crlf :: "string \<Rightarrow> string" where
  "crlf [] = []"
| "crlf (c # s) =
     (if c = CHR 0x0D \<and> s \<noteq> [] \<and> hd s = CHR 0x0A then CHR 0x0D # CHR 0x0A # crlf (tl s)
      else if c = CHR 0x0A then CHR 0x0D # CHR 0x0A # crlf s
      else c # crlf s)"

definition serialized :: "form_element \<Rightarrow> (string \<times> string) list" where
  "serialized e =
     (case el_value e of
        NoValue \<Rightarrow> []
      | OneValue v \<Rightarrow> [(el_name e, crlf v)]
      | Values vs \<Rightarrow> map (\<lambda>v. (el_name e, crlf v)) vs)"

definition serializeArray :: "form_element list \<Rightarrow> (string \<times> string) list" where
  "serializeArray es = concat (map serialized (filter successful es))"

definition serialize :: "form_element list \<Rightarrow> string" where
  "serialize es = param (Elements (map (\<lambda>(n, v). (n, PScalar (Some v))) (serializeArray es))) False"

section \<open>Properties\<close>

lemma param_query: "query_string (param_pairs a t) = ''?'' @ param a t"
  by (simp add: query_string_def param_def param_add_def [abs_def] query_part_def [abs_def])

text \<open>
  The pages of the manual read back what jQuery serializes: the parameters of the query string
  that \<open>param\<close> makes of a value are, for every key, the texts that were added for it, in their order,
  with plus signs read as spaces.
\<close>

theorem param_read_back:
  assumes "param_pairs a t \<noteq> []"
    and "\<And>kv. kv \<in> set (param_pairs a t) \<Longrightarrow> fst (param_of kv) \<notin> set inherited"
  shows "\<exists>m. getQueryParameters (''?'' @ param a t) = Inr m \<and>
    (\<forall>k. obj_get m k = (let vs = values_at k (map param_of (param_pairs a t)) in if vs = [] then None else Some vs))"
proof -
  have "getQueryParameters (''?'' @ param a t) = Inr (fold obj_push (map param_of (param_pairs a t)) [])"
    using params_of_query_string [OF assms] by (simp add: param_query)
  moreover have "obj_get (fold obj_push (map param_of (param_pairs a t)) []) k =
      (let vs = values_at k (map param_of (param_pairs a t)) in if vs = [] then None else Some vs)" for k
    unfolding obj_push_simp by (simp add: multi.get_push_all Let_def js_obj)
  ultimately show ?thesis by blast
qed

theorem param_read_back_witness:
  "\<exists>m. getQueryParameters (''?'' @ param (Plain [(''tag'', PArr [PScalar (Some ''a''), PScalar (Some ''b&c'')])]) True) = Inr m \<and>
     obj_get m (map code ''tag'') = Some [map code ''a'', map code ''b&c'']"
proof -
  let ?a = "Plain [(''tag'', PArr [PScalar (Some ''a''), PScalar (Some ''b&c'')])]"
  have p: "param_pairs ?a True = [(''tag'', ''a''), (''tag'', ''b&c'')]" by (simp add: param_pairs_def)
  have "\<exists>m. getQueryParameters (''?'' @ param ?a True) = Inr m \<and>
    (\<forall>k. obj_get m k = (let vs = values_at k (map param_of (param_pairs ?a True)) in if vs = [] then None else Some vs))"
    by (rule param_read_back) (auto simp: p param_of_def inherited_def object_prototype_def plus_space_def code_def)
  then show ?thesis by (auto simp: p param_of_def plus_space_def code_def)
qed

text \<open>
  The values of an array get an empty pair of brackets, but an array inside an array is keyed by
  its index, so that the server can tell the items apart; the traditional way repeats the key.
\<close>

theorem param_arrays:
  "buildParams False k (PArr (map (\<lambda>s. PScalar (Some s)) ss)) =
     map (Pair (if ends_brackets k then k else k @ ''[]'')) ss \<and>
   buildParams True k (PArr (map (\<lambda>s. PScalar (Some s)) ss)) = map (Pair k) ss"
proof -
  have "build_items False k i (map (\<lambda>s. PScalar (Some s)) ss) =
      map (Pair (if ends_brackets k then k else k @ ''[]'')) ss" for i
    by (induction ss arbitrary: i) auto
  moreover have "build_items True k i (map (\<lambda>s. PScalar (Some s)) ss) = map (Pair k) ss" for i
    by (induction ss arbitrary: i) auto
  ultimately show ?thesis by simp
qed

text \<open>Two texts that differ only in the line ends they use are sent alike.\<close>

lemma crlf_idem: "crlf (crlf s) = crlf s"
proof (induction s rule: crlf.induct)
  case (2 c s)
  then show ?case by (cases s) auto
qed simp

end
