(* ===== verification/J_Classes.thy ===== *)
theory J_Classes
  imports J_Callbacks
begin

text \<open>
  The class attribute in \<open>jquery-3.1.0.js\<close>: \<open>addClass\<close>, \<open>removeClass\<close>, \<open>toggleClass\<close> and \<open>hasClass\<close>. An
  element is its node type, its attribute, and the class that \<open>toggleClass\<close> saved as private data.
  Attribute values have no vertical tab and no no-break space, which separate words for JavaScript but
  not classes for HTML.
\<close>

section \<open>The operations\<close>

record elem =
  node_type :: nat
  class_attr :: "string option"
  saved_class :: "string option"

definition getClass :: "elem \<Rightarrow> string" where
  "getClass e = (case class_attr e of None \<Rightarrow> '''' | Some s \<Rightarrow> s)"

text \<open>\<open>(" " + value + " ").replace(/[\t\r\n\f]/g, " ")\<close>.\<close>

definition blank :: "char \<Rightarrow> char" where
  "blank c = (if code c \<in> {9, 10, 12, 13} then CHR '' '' else c)"

definition padded :: "string \<Rightarrow> string" where
  "padded s = map blank ('' '' @ s @ '' '')"

definition has_word :: "string \<Rightarrow> string \<Rightarrow> bool" where
  "has_word c cur \<longleftrightarrow> 0 \<le> indexOf cur ('' '' @ c @ '' '')"

definition assign_class :: "string \<Rightarrow> elem \<Rightarrow> elem" where
  "assign_class cur e = (if getClass e \<noteq> trim cur then e\<lparr>class_attr := Some (trim cur)\<rparr> else e)"

definition add_word :: "string \<Rightarrow> string \<Rightarrow> string" where
  "add_word c cur = (if has_word c cur then cur else cur @ c @ '' '')"

definition addClass :: "string \<Rightarrow> elem \<Rightarrow> elem" where
  "addClass value e =
     (if value = '''' \<or> node_type e \<noteq> 1 then e
      else assign_class (fold add_word (rnotwhite_words value) (padded (getClass e))) e)"

text \<open>One replacement of \<open>" " + clazz + " "\<close> by a space, and the loop until there is none.\<close>

definition drop_first :: "string \<Rightarrow> string \<Rightarrow> string" where
  "drop_first c cur =
     (case find_sub ('' '' @ c @ '' '') cur of
        None \<Rightarrow> cur
      | Some i \<Rightarrow> take i cur @ '' '' @ drop (i + length c + 2) cur)"

lemma drop_first_shorter: "has_word c cur \<Longrightarrow> c \<noteq> [] \<Longrightarrow> length (drop_first c cur) < length cur"
proof -
  assume "has_word c cur" and c: "c \<noteq> []"
  then obtain i where i: "find_sub ('' '' @ c @ '' '') cur = Some i"
    by (auto simp: has_word_def indexOf_def split: option.splits)
  from find_sub_Some [OF i] have "i + length c + 2 \<le> length cur" by simp
  with i c show ?thesis by (cases c) (simp_all add: drop_first_def)
qed

function drop_word :: "string \<Rightarrow> string \<Rightarrow> string" where
  "drop_word c cur = (if has_word c cur \<and> c \<noteq> [] then drop_word c (drop_first c cur) else cur)"
  by pat_completeness auto

termination by (relation "measure (\<lambda>(c, cur). length cur)") (auto intro: drop_first_shorter)

declare drop_word.simps [simp del]

text \<open>Without a value all classes go.\<close>

definition removeClass :: "string option \<Rightarrow> elem \<Rightarrow> elem" where
  "removeClass value e =
     (case value of
        None \<Rightarrow> e\<lparr>class_attr := Some ''''\<rparr>
      | Some v \<Rightarrow>
          if v = '''' \<or> node_type e \<noteq> 1 then e
          else assign_class (fold drop_word (rnotwhite_words v) (padded (getClass e))) e)"

definition hasClass :: "string \<Rightarrow> elem list \<Rightarrow> bool" where
  "hasClass selector es \<longleftrightarrow> list_ex (\<lambda>e. node_type e = 1 \<and> has_word selector (padded (getClass e))) es"

text \<open>\<open>toggleClass\<close> of the words of a text, with a state, or of the whole attribute.\<close>

datatype toggle = Words string | WordsTo string bool | Whole "bool option"

definition toggle_word :: "string \<Rightarrow> elem \<Rightarrow> elem" where
  "toggle_word c e = (if hasClass c [e] then removeClass (Some c) e else addClass c e)"

definition toggleClass :: "toggle \<Rightarrow> elem \<Rightarrow> elem" where
  "toggleClass t e =
     (case t of
        WordsTo v on \<Rightarrow> if on then addClass v e else removeClass (Some v) e
      | Words v \<Rightarrow> fold toggle_word (rnotwhite_words v) e
      | Whole value \<Rightarrow>
          (let className = getClass e;
               e' = (if className \<noteq> '''' then e\<lparr>saved_class := Some className\<rparr> else e)
           in e'\<lparr>class_attr := Some (if className \<noteq> '''' \<or> value = Some False then ''''
                                     else (case saved_class e' of Some c \<Rightarrow> c | None \<Rightarrow> ''''))\<rparr>))"

section \<open>Words\<close>

text \<open>The classes in a text: what stands between spaces.\<close>

definition tokens :: "string \<Rightarrow> string list" where
  "tokens s = filter (\<lambda>w. w \<noteq> []) (split1 (CHR '' '') s)"

definition classes :: "elem \<Rightarrow> string list" where
  "classes e = tokens (map blank (getClass e))"

lemma split1_sep: "split1 c (a @ c # b) = split1 c a @ split1 c b"
  by (induction a) (auto split: list.split)

lemma tokens_sep: "tokens (a @ CHR '' '' # b) = tokens a @ tokens b"
  by (simp add: tokens_def split1_sep)

lemma tokens_Nil [simp]: "tokens [] = []"
  by (simp add: tokens_def)

lemma tokens_word: "CHR '' '' \<notin> set c \<Longrightarrow> c \<noteq> [] \<Longrightarrow> tokens c = [c]"
  by (simp add: tokens_def split1_piece)

lemma tokens_padded: "tokens (padded s) = tokens (map blank s)"
  using tokens_sep [of "[]" "map blank s @ '' ''"] tokens_sep [of "map blank s" "[]"]
  by (simp add: padded_def blank_def code_def)

definition word :: "string \<Rightarrow> bool" where
  "word c \<longleftrightarrow> c \<noteq> [] \<and> (\<forall>x \<in> set c. \<not> is_space x)"

lemma word_no_blank: "word c \<Longrightarrow> CHR '' '' \<notin> set c"
  by (auto simp: word_def is_space_def code_def)

text \<open>A text that starts and ends with a space: the words in it are those \<open>indexOf\<close> finds.\<close>

definition spaced_text :: "string \<Rightarrow> bool" where
  "spaced_text s \<longleftrightarrow> (\<exists>t. s = '' '' @ t) \<and> (\<exists>t. s = t @ '' '')"

lemma join1_suffix: "ws \<noteq> [] \<Longrightarrow> \<exists>a. c # join1 [c] (us @ ws) = a @ c # join1 [c] ws"
proof (induction us)
  case Nil
  then show ?case by (metis append_Nil)
next
  case (Cons u us)
  then obtain a where a: "c # join1 [c] (us @ ws) = a @ c # join1 [c] ws" by blast
  obtain y ys where "us @ ws = y # ys" using Cons.prems by (cases "us @ ws") auto
  then have "c # join1 [c] ((u # us) @ ws) = (c # u @ a) @ c # join1 [c] ws" using a by simp
  then show ?case by blast
qed

lemma split1_last: "last (split1 c (u @ [c])) = []"
  using split1_sep [of c u "[]"] by simp

lemma has_word_iff:
  assumes "spaced_text cur" and "word c"
  shows "has_word c cur \<longleftrightarrow> c \<in> set (tokens cur)"
proof
  assume "has_word c cur"
  then obtain a b where "cur = a @ ('' '' @ c @ '' '') @ b"
    by (auto simp: has_word_def indexOf_nonneg_iff)
  then have "tokens cur = tokens a @ tokens c @ tokens b"
    using tokens_sep [of a "c @ CHR '' '' # b"] tokens_sep [of c b] by simp
  then show "c \<in> set (tokens cur)"
    using assms(2) by (simp add: tokens_word word_no_blank) (simp add: word_def tokens_word word_no_blank [OF assms(2)])
next
  assume "c \<in> set (tokens cur)"
  moreover obtain t where t: "cur = '' '' @ t" using assms(1) by (auto simp: spaced_text_def)
  ultimately have "c \<in> set (split1 (CHR '' '') t)" using assms(2) by (auto simp: tokens_def word_def)
  then obtain us vs where uv: "us @ c # vs = split1 (CHR '' '') t" by (metis in_set_conv_decomp)
  show "has_word c cur"
  proof (cases "vs")
    case Nil
    have "t = [] \<or> (\<exists>u. t = u @ '' '')"
      using assms(1) t by (cases t rule: rev_cases) (auto simp: spaced_text_def)
    then have "last (split1 (CHR '' '') t) = []" using split1_last by auto
    with Nil uv assms(2) show ?thesis by (metis last_snoc word_def)
  next
    case (Cons v vs')
    have "\<exists>a b. CHR '' '' # t = a @ CHR '' '' # c @ CHR '' '' # b"
    proof -
      have j: "t = join1 '' '' (us @ c # v # vs')" using uv Cons join_split [of "CHR '' ''" t] by simp
      from join1_suffix [of "c # v # vs'" "CHR '' ''" us] j show ?thesis by auto
    qed
    with t show ?thesis by (auto simp: has_word_def indexOf_nonneg_iff)
  qed
qed

section \<open>What the operations do to the classes\<close>

lemma spaced_padded: "spaced_text (padded s)"
  by (simp add: spaced_text_def padded_def blank_def code_def)

lemma add_word_tokens:
  assumes "spaced_text cur" and "word c"
  shows "spaced_text (add_word c cur) \<and> tokens (add_word c cur) = (if c \<in> set (tokens cur) then tokens cur else tokens cur @ [c])"
proof (cases "c \<in> set (tokens cur)")
  case True
  with has_word_iff [OF assms] assms(1) show ?thesis by (simp add: add_word_def)
next
  case False
  obtain t0 where t0: "cur = '' '' @ t0" using assms(1) unfolding spaced_text_def by blast
  obtain u where u: "cur = u @ '' ''" using assms(1) unfolding spaced_text_def by blast
  have "tokens (u @ CHR '' '' # c @ CHR '' '' # []) = tokens u @ [c]"
    using assms(2) by (simp only: tokens_sep tokens_word [OF word_no_blank]) (simp add: word_def tokens_word word_no_blank [OF assms(2)])
  moreover have "tokens cur = tokens u" using tokens_sep [of u "[]"] u by simp
  moreover have "spaced_text (u @ CHR '' '' # c @ CHR '' '' # [])" using t0 u by (cases u) (auto simp: spaced_text_def)
  moreover have "add_word c cur = u @ CHR '' '' # c @ CHR '' '' # [] \<and> add_word c cur = cur @ c @ '' ''"
    using False has_word_iff [OF assms] u by (simp add: add_word_def)
  ultimately show ?thesis using False by simp
qed

lemma drop_first_tokens:
  assumes "spaced_text cur" and "word c" and "has_word c cur"
  shows "spaced_text (drop_first c cur) \<and>
    (\<exists>us vs. tokens cur = us @ c # vs \<and> tokens (drop_first c cur) = us @ vs)"
proof -
  obtain i where i: "find_sub ('' '' @ c @ '' '') cur = Some i"
    using assms(3) by (auto simp: has_word_def indexOf_def split: option.splits)
  define a b where "a = take i cur" and "b = drop (i + length c + 2) cur"
  have cur: "cur = a @ CHR '' '' # c @ CHR '' '' # b"
    using find_sub_split [OF i] by (simp add: a_def b_def)
  have d: "drop_first c cur = a @ CHR '' '' # b" using i by (simp add: drop_first_def a_def b_def)
  have "tokens cur = tokens a @ c # tokens b"
    unfolding cur tokens_sep using assms(2) tokens_word [OF word_no_blank [OF assms(2)]] by (simp add: word_def)
  moreover have "tokens (drop_first c cur) = tokens a @ tokens b" unfolding d tokens_sep ..
  moreover have "spaced_text (drop_first c cur)"
  proof -
    have "\<exists>t. a @ CHR '' '' # b = '' '' @ t" using assms(1) cur by (cases a) (auto simp: spaced_text_def)
    moreover have "\<exists>t. a @ CHR '' '' # b = t @ '' ''"
    proof (cases b rule: rev_cases)
      case (snoc b' x)
      have "x = CHR '' ''" using assms(1) cur snoc by (auto simp: spaced_text_def)
      with snoc show ?thesis by simp
    qed simp
    ultimately show ?thesis by (simp add: d spaced_text_def)
  qed
  ultimately show ?thesis by blast
qed

lemma drop_word_tokens:
  "spaced_text cur \<Longrightarrow> word c \<Longrightarrow>
   spaced_text (drop_word c cur) \<and> tokens (drop_word c cur) = filter (\<lambda>w. w \<noteq> c) (tokens cur)"
proof (induction c cur rule: drop_word.induct)
  case (1 c cur)
  have ne: "c \<noteq> []" using 1(3) by (simp add: word_def)
  show ?case
  proof (cases "has_word c cur")
    case True
    from drop_first_tokens [OF 1(2,3) True] obtain us vs where
      d: "spaced_text (drop_first c cur)" "tokens cur = us @ c # vs" "tokens (drop_first c cur) = us @ vs" by blast
    from 1(1) [OF _ d(1) 1(3)] True ne d show ?thesis by (simp add: drop_word.simps [of c cur])
  next
    case False
    then have "c \<notin> set (tokens cur)" using has_word_iff [OF 1(2,3)] by simp
    then have "filter (\<lambda>w. w \<noteq> c) (tokens cur) = tokens cur" by (auto simp: filter_id_conv)
    with 1(2) False show ?thesis by (simp add: drop_word.simps [of c cur])
  qed
qed

text \<open>Trimming a text whose only white space is the space.\<close>

definition clean :: "string \<Rightarrow> bool" where
  "clean s \<longleftrightarrow> (\<forall>c \<in> set s. is_space c \<longrightarrow> c = CHR '' '')"

lemma tokens_dropWhile: "clean s \<Longrightarrow> tokens (dropWhile is_space s) = tokens s"
proof (induction s)
  case (Cons c s)
  show ?case
  proof (cases "is_space c")
    case True
    then have "c = CHR '' ''" using Cons.prems by (simp add: clean_def)
    with True Cons tokens_sep [of "[]" s] show ?thesis by (simp add: clean_def)
  qed simp
qed simp

lemma tokens_dropWhile_rev: "clean s \<Longrightarrow> tokens (rev (dropWhile is_space (rev s))) = tokens s"
proof (induction s rule: rev_induct)
  case (snoc c s)
  show ?case
  proof (cases "is_space c")
    case True
    then have "c = CHR '' ''" using snoc.prems by (simp add: clean_def)
    with True snoc tokens_sep [of s "[]"] show ?thesis by (simp add: clean_def)
  qed simp
qed simp

lemma clean_dropWhile: "clean s \<Longrightarrow> clean (dropWhile p s)"
  by (auto simp: clean_def dest: set_dropWhileD)

lemma clean_rev [simp]: "clean (rev s) \<longleftrightarrow> clean s"
  by (simp add: clean_def)

lemma tokens_trim: "clean s \<Longrightarrow> tokens (trim s) = tokens s"
  by (simp add: trim_def tokens_dropWhile_rev tokens_dropWhile clean_dropWhile)

lemma clean_trim: "clean s \<Longrightarrow> clean (trim s)"
  unfolding trim_def by (simp add: clean_dropWhile)

lemma blank_clean: "clean s \<Longrightarrow> map blank s = s"
proof (rule map_idI)
  fix c assume "clean s" "c \<in> set s"
  then have "is_space c \<Longrightarrow> c = CHR '' ''" by (simp add: clean_def)
  then show "blank c = c" by (auto simp: blank_def is_space_def Let_def)
qed

lemma word_clean: "word c \<Longrightarrow> clean c"
  by (simp add: word_def clean_def)

lemma clean_append [simp]: "clean (s @ t) \<longleftrightarrow> clean s \<and> clean t"
  by (auto simp: clean_def)

lemma clean_add_word: "clean cur \<Longrightarrow> word c \<Longrightarrow> clean (add_word c cur)"
  by (simp add: add_word_def word_clean) (simp add: clean_def)

lemma clean_drop_first: "clean cur \<Longrightarrow> clean (drop_first c cur)"
  by (auto simp: drop_first_def clean_def split: option.split dest: in_set_takeD in_set_dropD)

lemma clean_drop_word: "clean cur \<Longrightarrow> clean (drop_word c cur)"
proof (induction c cur rule: drop_word.induct)
  case (1 c cur)
  show ?case
  proof (cases "has_word c cur \<and> c \<noteq> []")
    case True
    with 1 show ?thesis by (simp add: drop_word.simps [of c cur] clean_drop_first)
  next
    case False
    then have "drop_word c cur = cur" by (subst drop_word.simps) auto
    with 1(2) show ?thesis by simp
  qed
qed

lemma words_from_word: "(\<forall>x \<in> set w. \<not> is_space x) \<Longrightarrow> v \<in> set (words_from w s) \<Longrightarrow> word v"
proof (induction s arbitrary: w)
  case Nil
  then show ?case by (auto simp: word_def split: if_splits)
next
  case (Cons x s)
  show ?case
  proof (cases "is_space x")
    case True
    with Cons.prems have "v = w \<and> w \<noteq> [] \<or> v \<in> set (words_from [] s)" by (auto split: if_splits)
    with Cons.IH [of "[]"] Cons.prems(1) show ?thesis by (auto simp: word_def)
  next
    case False
    with Cons.IH [of "w @ [x]"] Cons.prems show ?thesis by (auto split: if_splits)
  qed
qed

lemma rnotwhite_word: "v \<in> set (rnotwhite_words s) \<Longrightarrow> word v"
  using words_from_word [of "[]" v s] by (simp add: rnotwhite_words_def)

definition add_class :: "string \<Rightarrow> string list \<Rightarrow> string list" where
  "add_class c ws = (if c \<in> set ws then ws else ws @ [c])"

lemma fold_add_word:
  "(\<forall>c \<in> set cs. word c) \<Longrightarrow> spaced_text cur \<Longrightarrow> clean cur \<Longrightarrow>
   tokens (fold add_word cs cur) = fold add_class cs (tokens cur) \<and> clean (fold add_word cs cur)"
  by (induction cs arbitrary: cur) (auto simp: add_word_tokens clean_add_word add_class_def)

lemma fold_drop_word:
  "(\<forall>c \<in> set cs. word c) \<Longrightarrow> spaced_text cur \<Longrightarrow> clean cur \<Longrightarrow>
   tokens (fold drop_word cs cur) = filter (\<lambda>w. w \<notin> set cs) (tokens cur) \<and> clean (fold drop_word cs cur)"
proof (induction cs arbitrary: cur)
  case (Cons c cs)
  have "filter (\<lambda>w. w \<notin> set cs) (filter (\<lambda>w. w \<noteq> c) ws) = filter (\<lambda>w. w \<notin> set (c # cs)) ws" for ws :: "string list"
    by (induction ws) auto
  with Cons show ?case by (auto simp: drop_word_tokens clean_drop_word)
qed simp

definition plain_attr :: "elem \<Rightarrow> bool" where
  "plain_attr e \<longleftrightarrow> (\<forall>c \<in> set (getClass e). code c \<notin> {11, 160})"

lemma clean_padded: "plain_attr e \<Longrightarrow> clean (padded (getClass e))"
proof -
  have "is_space (blank c) \<longrightarrow> blank c = CHR '' ''" if "code c \<notin> {11, 160}" for c
  proof -
    have "code c = 32 \<Longrightarrow> c = CHR '' ''" by (simp only: code_eq_iff [symmetric]) (simp add: code_def)
    moreover have "is_space (CHR '' '')" by (simp add: is_space_def code_def)
    ultimately show ?thesis using that by (auto simp: blank_def is_space_def Let_def)
  qed
  then show "plain_attr e \<Longrightarrow> clean (padded (getClass e))"
    by (auto simp: plain_attr_def padded_def clean_def code_def)
qed

lemma classes_assign: "clean cur \<Longrightarrow> classes (assign_class cur e) = tokens cur"
  by (auto simp: classes_def assign_class_def getClass_def blank_clean clean_trim tokens_trim)

lemma classes_add:
  assumes "plain_attr e" and "node_type e = 1"
  shows "classes (addClass v e) = fold add_class (rnotwhite_words v) (classes e)"
proof (cases "v = ''''")
  case True
  then show ?thesis by (simp add: addClass_def rnotwhite_words_def)
next
  case False
  have "tokens (fold add_word (rnotwhite_words v) (padded (getClass e))) = fold add_class (rnotwhite_words v) (classes e) \<and>
      clean (fold add_word (rnotwhite_words v) (padded (getClass e)))"
    using fold_add_word [of "rnotwhite_words v" "padded (getClass e)"] rnotwhite_word spaced_padded clean_padded [OF assms(1)]
    by (simp add: tokens_padded classes_def)
  with False assms(2) show ?thesis by (simp add: addClass_def classes_assign)
qed

lemma classes_remove:
  assumes "plain_attr e" and "node_type e = 1"
  shows "classes (removeClass (Some v) e) = filter (\<lambda>c. c \<notin> set (rnotwhite_words v)) (classes e)"
proof (cases "v = ''''")
  case True
  then show ?thesis by (simp add: removeClass_def rnotwhite_words_def)
next
  case False
  have "tokens (fold drop_word (rnotwhite_words v) (padded (getClass e))) = filter (\<lambda>c. c \<notin> set (rnotwhite_words v)) (classes e) \<and>
      clean (fold drop_word (rnotwhite_words v) (padded (getClass e)))"
    using fold_drop_word [of "rnotwhite_words v" "padded (getClass e)"] rnotwhite_word spaced_padded clean_padded [OF assms(1)]
    by (simp add: tokens_padded classes_def)
  with False assms(2) show ?thesis by (simp add: removeClass_def classes_assign)
qed

section \<open>Properties\<close>

text \<open>
  \<open>addClass\<close> puts each word that is not among the classes of the element at their end,
  \<open>removeClass\<close> takes every occurrence of each word away and keeps the order of the others, and
  \<open>hasClass\<close> tells whether a word is among them; words that are part of other classes do not count.
\<close>

theorem class_operations:
  assumes "plain_attr e" and "node_type e = 1" and "word c"
  shows "classes (addClass v e) = fold add_class (rnotwhite_words v) (classes e) \<and>
    classes (removeClass (Some v) e) = filter (\<lambda>c. c \<notin> set (rnotwhite_words v)) (classes e) \<and>
    (hasClass c [e] \<longleftrightarrow> c \<in> set (classes e))"
proof -
  have "hasClass c [e] \<longleftrightarrow> c \<in> set (classes e)"
    using has_word_iff [OF spaced_padded assms(3), of "getClass e"] assms(2)
    by (simp add: hasClass_def classes_def tokens_padded)
  with classes_add [OF assms(1,2)] classes_remove [OF assms(1,2)] show ?thesis by simp
qed

theorem class_operations_witness:
  "classes (removeClass (Some ''item'') \<lparr>node_type = 1, class_attr = Some ''item item-2 item'', saved_class = None\<rparr>) = [''item-2'']"
proof -
  let ?e = "\<lparr>node_type = 1, class_attr = Some ''item item-2 item'', saved_class = None\<rparr>"
  have "plain_attr ?e" by (auto simp: plain_attr_def getClass_def code_def)
  moreover have "word ''item''" by (auto simp: word_def is_space_def code_def)
  ultimately have "classes (removeClass (Some ''item'') ?e) = filter (\<lambda>c. c \<notin> set (rnotwhite_words ''item'')) (classes ?e)"
    using class_operations [of ?e "''item''" "''item''"] by simp
  then show ?thesis by (simp add: rnotwhite_words_def is_space_def code_def classes_def getClass_def tokens_def blank_def)
qed

end
