(* ===== verification/J_Dom.thy ===== *)
theory J_Dom
  imports JS_Prelude
begin

text \<open>
  The document that the selector engine and the events of \<open>jquery-3.1.0.js\<close> walk on. The number of a node is
  its place in document order, so a parent comes before its children; the walks of the code, to the parent
  or to the sibling before, go down in number. The tree does not change while a selector is matched.
\<close>

record dnode =
  node_type_of :: nat
  node_name_of :: string
  parent_of :: "nat option"
  attributes_of :: "(string \<times> string) list"

type_synonym dom = "dnode list"

definition parentNode :: "dom \<Rightarrow> nat \<Rightarrow> nat option" where
  "parentNode d i =
     (if i < length d then (case parent_of (d ! i) of Some p \<Rightarrow> if p < i then Some p else None | None \<Rightarrow> None) else None)"

definition siblings :: "dom \<Rightarrow> nat \<Rightarrow> nat \<Rightarrow> bool" where
  "siblings d i j \<longleftrightarrow> parentNode d i \<noteq> None \<and> parentNode d i = parentNode d j"

definition previousSibling :: "dom \<Rightarrow> nat \<Rightarrow> nat option" where
  "previousSibling d i = List.find (siblings d i) (rev [0..<i])"

definition nextSibling :: "dom \<Rightarrow> nat \<Rightarrow> nat option" where
  "nextSibling d i = List.find (siblings d i) [Suc i..<length d]"

definition childNodes :: "dom \<Rightarrow> nat \<Rightarrow> nat list" where
  "childNodes d i = filter (\<lambda>j. parentNode d j = Some i) [0..<length d]"

definition is_element :: "dom \<Rightarrow> nat \<Rightarrow> bool" where
  "is_element d i \<longleftrightarrow> i < length d \<and> node_type_of (d ! i) = 1"

definition get_attribute :: "dom \<Rightarrow> nat \<Rightarrow> string \<Rightarrow> string option" where
  "get_attribute d i name = (if i < length d then map_of (attributes_of (d ! i)) name else None)"

definition node_name :: "dom \<Rightarrow> nat \<Rightarrow> string" where
  "node_name d i = (if i < length d then node_name_of (d ! i) else '''')"

text \<open>The directions of the combinators, \<open>parentNode\<close> and \<open>previousSibling\<close>.\<close>

datatype dir = Up | Before

definition go :: "dom \<Rightarrow> dir \<Rightarrow> nat \<Rightarrow> nat option" where
  "go d k i = (case k of Up \<Rightarrow> parentNode d i | Before \<Rightarrow> previousSibling d i)"

section \<open>Walks\<close>

text \<open>The contract of a direction: it goes down in number, so a walk ends.\<close>

locale walk =
  fixes next_node :: "nat \<Rightarrow> nat option"
  assumes next_less: "next_node i = Some j \<Longrightarrow> j < i"
begin

inductive reaches :: "nat \<Rightarrow> nat \<Rightarrow> bool" where
  reach_next: "next_node i = Some j \<Longrightarrow> reaches i j"
| reach_step: "next_node i = Some j \<Longrightarrow> reaches j k \<Longrightarrow> reaches i k"

lemma reaches_less: "reaches i j \<Longrightarrow> j < i"
proof (induction rule: reaches.induct)
  case (reach_step i j k)
  then show ?case using next_less [of i j] by simp
qed (rule next_less)

lemma reaches_iff: "reaches i k \<longleftrightarrow> (\<exists>j. next_node i = Some j \<and> (k = j \<or> reaches j k))"
  by (auto elim: reaches.cases intro: reaches.intros)

lemma reaches_None: "next_node i = None \<Longrightarrow> \<not> reaches i k"
  by (simp add: reaches_iff [of i])

end

lemma find_rev_less: "List.find p (rev [0..<i]) = Some j \<Longrightarrow> j < i"
  by (auto simp: find_Some_iff rev_nth)

lemma go_less: "go d k i = Some j \<Longrightarrow> j < i"
  by (cases k) (auto simp: go_def parentNode_def previousSibling_def find_rev_less split: if_splits option.splits)

interpretation tree: walk "go d k" for d k
  by unfold_locales (rule go_less)

function path :: "dom \<Rightarrow> dir \<Rightarrow> nat \<Rightarrow> nat list" where
  "path d k i = (case go d k i of None \<Rightarrow> [] | Some j \<Rightarrow> j # path d k j)"
  by pat_completeness auto
termination by (relation "measure (\<lambda>(d, k, i). i)") (auto dest: go_less)

declare path.simps [simp del]

lemma path_None: "go d k i = None \<Longrightarrow> path d k i = []"
  by (simp add: path.simps)

lemma path_Some: "go d k i = Some j \<Longrightarrow> path d k i = j # path d k j"
  by (simp add: path.simps [of d k i])

lemma path_reaches: "j \<in> set (path d k i) \<longleftrightarrow> tree.reaches d k i j"
proof (induction d k i rule: path.induct)
  case (1 d k i)
  then show ?case by (cases "go d k i") (auto simp: path_None path_Some tree.reaches_iff [of d k i])
qed

end
