(* ===== verification/J_Match.thy ===== *)
theory J_Match
  imports J_Dom
begin

text \<open>
  The compiled matchers of Sizzle (\<open>jquery-3.1.0.js\<close>): \<open>addCombinator\<close> with its cache, \<open>elementMatcher\<close>,
  \<open>matcherFromTokens\<close> for groups without positional pseudos, \<open>superMatcher\<close> and \<open>compile\<close>.
  A matcher is a function of the element and of the state of the caches. What a filter token says of an
  element is a parameter here.
\<close>

section \<open>Tokens and combinators\<close>

text \<open>The entries of \<open>matches\<close>: \<open>undefined\<close>, a string, or a number put there by a pre-filter.\<close>

datatype mval = Undef | Str string | Num int

record token =
  tok_value :: string
  tok_type :: string
  tok_matches :: "mval list"

definition relative :: "string \<Rightarrow> (dir \<times> bool) option" where
  "relative t =
     (if t = ''>'' then Some (Up, True) else if t = '' '' then Some (Up, False)
      else if t = ''+'' then Some (Before, True) else if t = ''~'' then Some (Before, False) else None)"

text \<open>The context of a query: one node, or an array of nodes.\<close>

datatype ctx = One nat | Many "nat list"

text \<open>\<open>outermostContext\<close>: the value \<open>true\<close>, or a context.\<close>

datatype outermost = Outer_True | Outer ctx

record menv =
  context_of :: ctx
  xml_of :: bool
  outermost_of :: outermost

text \<open>
  \<open>caches\<close> are the arrays \<open>newCache\<close>, \<open>[dirruns, doneName, result]\<close>, by address; the slot of a node and a
  direction is \<open>elem[expando][uniqueID][dir]\<close>.
\<close>

record cstate =
  dirruns :: nat
  caches :: "(nat \<times> nat \<times> bool option) list"
  slot_of :: "nat \<times> dir \<Rightarrow> nat option"

type_synonym matcher = "menv \<Rightarrow> nat \<Rightarrow> cstate \<Rightarrow> bool \<times> cstate"

definition set_result :: "nat \<Rightarrow> bool option \<Rightarrow> cstate \<Rightarrow> cstate" where
  "set_result nw r s = s\<lparr>caches := (caches s)[nw := (fst (caches s ! nw), fst (snd (caches s ! nw)), r)]\<rparr>"

definition set_slot :: "nat \<Rightarrow> dir \<Rightarrow> nat \<Rightarrow> cstate \<Rightarrow> cstate" where
  "set_slot a k nw s = s\<lparr>slot_of := (slot_of s)((a, k) := Some nw)\<rparr>"

definition cache_hit :: "nat \<Rightarrow> nat \<Rightarrow> dir \<Rightarrow> cstate \<Rightarrow> bool option option" where
  "cache_hit doneName a k s =
     (case slot_of s (a, k) of
        None \<Rightarrow> None
      | Some c \<Rightarrow> (case caches s ! c of (run, name, r) \<Rightarrow>
          if run = dirruns s \<and> name = doneName then Some r else None))"

section \<open>addCombinator\<close>

text \<open>The closest element of the direction.\<close>

function first_walk :: "dom \<Rightarrow> dir \<Rightarrow> bool \<Rightarrow> matcher \<Rightarrow> menv \<Rightarrow> nat \<Rightarrow> cstate \<Rightarrow> bool \<times> cstate" where
  "first_walk d k check m v e s =
     (case go d k e of
        None \<Rightarrow> (False, s)
      | Some a \<Rightarrow> if is_element d a \<or> check then m v a s else first_walk d k check m v a s)"
  by pat_completeness auto
termination by (relation "measure (\<lambda>(d, k, check, m, v, e, s). e)") (auto dest: go_less)

text \<open>All elements of the direction, in an XML document: no cache.\<close>

function any_walk :: "dom \<Rightarrow> dir \<Rightarrow> bool \<Rightarrow> matcher \<Rightarrow> menv \<Rightarrow> nat \<Rightarrow> cstate \<Rightarrow> bool \<times> cstate" where
  "any_walk d k check m v e s =
     (case go d k e of
        None \<Rightarrow> (False, s)
      | Some a \<Rightarrow>
          if is_element d a \<or> check then
            (let (b, s') = m v a s in if b then (True, s') else any_walk d k check m v a s')
          else any_walk d k check m v a s)"
  by pat_completeness auto
termination by (relation "measure (\<lambda>(d, k, check, m, v, e, s). e)") (auto dest: go_less)

text \<open>All elements of the direction, with the array \<open>nw\<close> as the cache of every element passed.\<close>

function cached_walk ::
  "dom \<Rightarrow> dir \<Rightarrow> bool \<Rightarrow> nat \<Rightarrow> matcher \<Rightarrow> menv \<Rightarrow> nat \<Rightarrow> nat \<Rightarrow> cstate \<Rightarrow> bool \<times> cstate" where
  "cached_walk d k check doneName m v nw e s =
     (case go d k e of
        None \<Rightarrow> (False, s)
      | Some a \<Rightarrow>
          if is_element d a \<or> check then
            (case cache_hit doneName a k s of
               Some r \<Rightarrow> (r = Some True, set_result nw r s)
             | None \<Rightarrow>
                 (let (b, s') = m v a (set_slot a k nw s);
                      s'' = set_result nw (Some b) s'
                  in if b then (True, s'') else cached_walk d k check doneName m v nw a s''))
          else cached_walk d k check doneName m v nw a s)"
  by pat_completeness auto
termination by (relation "measure (\<lambda>(d, k, check, doneName, m, v, nw, e, s). e)") (auto dest: go_less)

declare first_walk.simps [simp del] any_walk.simps [simp del] cached_walk.simps [simp del]

definition addCombinator :: "dom \<Rightarrow> matcher \<Rightarrow> dir \<times> bool \<Rightarrow> bool \<Rightarrow> nat \<Rightarrow> matcher" where
  "addCombinator d m r base doneName =
     (let k = fst r; check = base \<and> k = Up
      in if snd r then (\<lambda>v e s. first_walk d k check m v e s)
         else (\<lambda>v e s.
           if xml_of v then any_walk d k check m v e s
           else cached_walk d k check doneName m v (length (caches s)) e
                  (s\<lparr>caches := caches s @ [(dirruns s, doneName, None)]\<rparr>)))"

text \<open>\<open>elementMatcher\<close>: the matchers from the last to the first, until one fails.\<close>

fun match_all :: "matcher list \<Rightarrow> matcher" where
  "match_all [] v e s = (True, s)"
| "match_all (m # ms) v e s = (let (b, s') = m v e s in if b then match_all ms v e s' else (False, s'))"

definition elementMatcher :: "matcher list \<Rightarrow> matcher" where
  "elementMatcher ms = (if 1 < length ms then match_all (rev ms) else ms ! 0)"

section \<open>matcherFromTokens\<close>

definition leadingRelative :: "token list \<Rightarrow> (dir \<times> bool) option" where
  "leadingRelative ts = relative (tok_type (ts ! 0))"

definition implicitRelative :: "token list \<Rightarrow> dir \<times> bool" where
  "implicitRelative ts = (case leadingRelative ts of Some r \<Rightarrow> r | None \<Rightarrow> (Up, False))"

definition matchContext :: "dom \<Rightarrow> dir \<times> bool \<Rightarrow> nat \<Rightarrow> nat \<Rightarrow> matcher" where
  "matchContext d r doneName c = addCombinator d (\<lambda>v a s. (a = c, s)) r True doneName"

definition matchAnyContext :: "dom \<Rightarrow> dir \<times> bool \<Rightarrow> nat \<Rightarrow> nat list \<Rightarrow> matcher" where
  "matchAnyContext d r doneName cs = addCombinator d (\<lambda>v a s. (a \<in> set cs, s)) r True doneName"

definition contextMatcher :: "dom \<Rightarrow> bool \<Rightarrow> dir \<times> bool \<Rightarrow> nat \<Rightarrow> matcher" where
  "contextMatcher d lead r dn = (\<lambda>v e s.
     if \<not> lead \<and> (xml_of v \<or> Outer (context_of v) \<noteq> outermost_of v) then (True, s)
     else (case context_of v of
        One c \<Rightarrow> matchContext d r dn c v e s
      | Many cs \<Rightarrow> matchAnyContext d r (Suc dn) cs v e s))"

text \<open>The loop over the tokens: the matchers collected so far, and the counter \<open>done\<close>.\<close>

fun tokens_loop :: "dom \<Rightarrow> (token \<Rightarrow> nat \<Rightarrow> bool) \<Rightarrow> token list \<Rightarrow> matcher list \<Rightarrow> nat \<Rightarrow> matcher \<times> nat" where
  "tokens_loop d F [] ms dn = (elementMatcher ms, dn)"
| "tokens_loop d F (t # ts) ms dn =
     (case relative (tok_type t) of
        Some r \<Rightarrow> tokens_loop d F ts [addCombinator d (elementMatcher ms) r False dn] (Suc dn)
      | None \<Rightarrow> tokens_loop d F ts (ms @ [\<lambda>v e s. (F t e, s)]) dn)"

definition matcherFromTokens :: "dom \<Rightarrow> (token \<Rightarrow> nat \<Rightarrow> bool) \<Rightarrow> token list \<Rightarrow> nat \<Rightarrow> matcher \<times> nat" where
  "matcherFromTokens d F ts dn =
     (let lead = leadingRelative ts \<noteq> None
      in tokens_loop d F (if lead then tl ts else ts)
           [contextMatcher d lead (implicitRelative ts) dn] (dn + 2))"

text \<open>\<open>compile\<close>: the groups from the last to the first.\<close>

fun compile_groups :: "dom \<Rightarrow> (token \<Rightarrow> nat \<Rightarrow> bool) \<Rightarrow> token list list \<Rightarrow> nat \<Rightarrow> matcher list \<times> nat" where
  "compile_groups d F [] dn = ([], dn)"
| "compile_groups d F (g # gs) dn =
     (let (m, dn') = matcherFromTokens d F g dn; (ms, dn'') = compile_groups d F gs dn' in (m # ms, dn''))"

definition compile :: "dom \<Rightarrow> (token \<Rightarrow> nat \<Rightarrow> bool) \<Rightarrow> token list list \<Rightarrow> nat \<Rightarrow> matcher list \<times> nat" where
  "compile d F groups dn = compile_groups d F (rev groups) dn"

section \<open>superMatcher\<close>

text \<open>The first of the matchers that accepts the element.\<close>

fun match_some :: "matcher list \<Rightarrow> matcher" where
  "match_some [] v e s = (False, s)"
| "match_some (m # ms) v e s = (let (b, s') = m v e s in if b then (True, s') else match_some ms v e s')"

fun match_elems :: "matcher list \<Rightarrow> menv \<Rightarrow> nat list \<Rightarrow> cstate \<Rightarrow> nat list \<times> cstate" where
  "match_elems ms v [] s = ([], s)"
| "match_elems ms v (e # es) s =
     (let (b, s') = match_some ms v e s; (rs, s'') = match_elems ms v es s'
      in (if b then e # rs else rs, s''))"

text \<open>
  A run that is not inside another (\<open>contextBackup == null\<close>), so the number of the run is the next integer. The
  document is the node 0. \<open>outermost\<close> is given by \<open>select\<close>.
\<close>

definition run_env :: "ctx option \<Rightarrow> bool \<Rightarrow> outermost \<Rightarrow> menv" where
  "run_env context xml outermost =
     \<lparr>context_of = (case context of Some c \<Rightarrow> c | None \<Rightarrow> One 0),
      xml_of = xml,
      outermost_of = (if context = Some (One 0) then Outer_True
                      else case context of Some c \<Rightarrow> Outer c | None \<Rightarrow> outermost)\<rparr>"

definition superMatcher ::
  "matcher list \<Rightarrow> nat list \<Rightarrow> ctx option \<Rightarrow> bool \<Rightarrow> outermost \<Rightarrow> cstate \<Rightarrow> nat list \<times> cstate" where
  "superMatcher ms elems context xml outermost s =
     match_elems ms (run_env context xml outermost) elems (s\<lparr>dirruns := Suc (dirruns s)\<rparr>)"

section \<open>What a selector means\<close>

text \<open>The nodes of a direction that a combinator tries, from the nearest.\<close>

definition tried :: "dom \<Rightarrow> bool \<Rightarrow> nat list \<Rightarrow> nat list" where
  "tried d check xs = filter (\<lambda>a. is_element d a \<or> check) xs"

definition candidates :: "dom \<Rightarrow> dir \<times> bool \<Rightarrow> bool \<Rightarrow> nat \<Rightarrow> nat list" where
  "candidates d r check e =
     (let p = tried d check (path d (fst r) e) in if snd r then take 1 p else p)"

definition in_context :: "dom \<Rightarrow> dir \<times> bool \<Rightarrow> ctx \<Rightarrow> nat \<Rightarrow> bool" where
  "in_context d r c e =
     (\<exists>a\<in>set (candidates d r (fst r = Up) e). case c of One n \<Rightarrow> a = n | Many ns \<Rightarrow> a \<in> set ns)"

definition base_holds :: "dom \<Rightarrow> menv \<Rightarrow> bool \<Rightarrow> dir \<times> bool \<Rightarrow> nat \<Rightarrow> bool" where
  "base_holds d v lead r e \<longleftrightarrow>
     \<not> lead \<and> (xml_of v \<or> Outer (context_of v) \<noteq> outermost_of v) \<or> in_context d r (context_of v) e"

text \<open>A selector is read from its end: a filter speaks of the element, a combinator moves to a candidate.\<close>

fun holds :: "dom \<Rightarrow> (token \<Rightarrow> nat \<Rightarrow> bool) \<Rightarrow> (nat \<Rightarrow> bool) \<Rightarrow> token list \<Rightarrow> nat \<Rightarrow> bool" where
  "holds d F B [] e \<longleftrightarrow> B e"
| "holds d F B (t # ts) e \<longleftrightarrow>
     (case relative (tok_type t) of
        Some r \<Rightarrow> (\<exists>a\<in>set (candidates d r False e). holds d F B ts a)
      | None \<Rightarrow> F t e \<and> holds d F B ts e)"

definition selects :: "dom \<Rightarrow> (token \<Rightarrow> nat \<Rightarrow> bool) \<Rightarrow> menv \<Rightarrow> token list \<Rightarrow> nat \<Rightarrow> bool" where
  "selects d F v ts e =
     (let lead = leadingRelative ts \<noteq> None
      in holds d F (base_holds d v lead (implicitRelative ts)) (rev (if lead then tl ts else ts)) e)"

section \<open>The contract of a matcher\<close>

text \<open>Every slot is the address of an array.\<close>

definition slots_ok :: "cstate \<Rightarrow> bool" where
  "slots_ok s \<longleftrightarrow> (\<forall>x c. slot_of s x = Some c \<longrightarrow> c < length (caches s))"

lemma slots_okD: "slots_ok s \<Longrightarrow> slot_of s x = Some c \<Longrightarrow> c < length (caches s)"
  unfolding slots_ok_def by blast

text \<open>The entries of this run with a name in \<open>N\<close> hold the answer \<open>M\<close> for their node.\<close>

definition entries_ok :: "nat set \<Rightarrow> (nat \<Rightarrow> nat \<Rightarrow> bool) \<Rightarrow> cstate \<Rightarrow> bool" where
  "entries_ok N M s \<longleftrightarrow>
     (\<forall>a k c n r. slot_of s (a, k) = Some c \<longrightarrow> caches s ! c = (dirruns s, n, r) \<longrightarrow> n \<in> N \<longrightarrow> r = Some (M n a))"

text \<open>A call leaves the arrays it finds alone; its own arrays are of this run and have a name in \<open>N\<close>.\<close>

definition frame :: "nat set \<Rightarrow> cstate \<Rightarrow> cstate \<Rightarrow> bool" where
  "frame N s s' \<longleftrightarrow>
     dirruns s' = dirruns s \<and> length (caches s) \<le> length (caches s') \<and>
     (\<forall>c<length (caches s). caches s' ! c = caches s ! c) \<and>
     (\<forall>c. length (caches s) \<le> c \<longrightarrow> c < length (caches s') \<longrightarrow>
        fst (caches s' ! c) = dirruns s \<and> fst (snd (caches s' ! c)) \<in> N) \<and>
     (\<forall>x. slot_of s' x = slot_of s x \<or> (\<exists>c\<ge>length (caches s). slot_of s' x = Some c))"

definition answers :: "nat set \<Rightarrow> (nat \<Rightarrow> nat \<Rightarrow> bool) \<Rightarrow> cstate \<Rightarrow> bool \<Rightarrow> bool \<times> cstate \<Rightarrow> bool" where
  "answers N M s b r \<longleftrightarrow> fst r = b \<and> slots_ok (snd r) \<and> entries_ok N M (snd r) \<and> frame N s (snd r)"

definition matcher_ok :: "nat set \<Rightarrow> (nat \<Rightarrow> nat \<Rightarrow> bool) \<Rightarrow> menv \<Rightarrow> (nat \<Rightarrow> bool) \<Rightarrow> matcher \<Rightarrow> bool" where
  "matcher_ok N M v P m \<longleftrightarrow>
     (\<forall>e s. slots_ok s \<longrightarrow> entries_ok N M s \<longrightarrow> answers N M s (P e) (m v e s))"

lemma matcher_okD:
  assumes "matcher_ok N M v P m" "slots_ok s" "entries_ok N M s" "m v e s = (b, s')"
  shows "b = P e" "slots_ok s'" "entries_ok N M s'" "frame N s s'"
proof -
  have "answers N M s (P e) (m v e s)" using assms(1-3) by (simp add: matcher_ok_def)
  then show "b = P e" "slots_ok s'" "entries_ok N M s'" "frame N s s'"
    by (simp_all add: answers_def assms(4))
qed

lemma matcher_ok_pure: "matcher_ok N M v P (\<lambda>v e s. (P e, s))"
  by (simp add: matcher_ok_def answers_def frame_def)

lemma frame_refl: "frame N s s"
  by (simp add: frame_def)

lemma frame_trans:
  assumes "frame N s s'" "frame N s' s''"
  shows "frame N s s''"
proof -
  have "fst (caches s'' ! c) = dirruns s \<and> fst (snd (caches s'' ! c)) \<in> N" if "length (caches s) \<le> c" "c < length (caches s'')" for c
    using assms that by (cases "c < length (caches s')") (auto simp: frame_def)
  moreover have "slot_of s'' x = slot_of s x \<or> (\<exists>c\<ge>length (caches s). slot_of s'' x = Some c)" for x
    using assms unfolding frame_def by (metis le_trans)
  ultimately show ?thesis using assms by (auto simp: frame_def)
qed

lemma frame_mono: "frame N s s' \<Longrightarrow> N \<subseteq> N' \<Longrightarrow> frame N' s s'"
  by (auto simp: frame_def)

text \<open>A slot whose array has another name is from before the call.\<close>

lemma frame_slot:
  assumes "frame N s s'" "slots_ok s" "slots_ok s'" "slot_of s' x = Some c" "fst (snd (caches s' ! c)) \<notin> N"
  shows "slot_of s x = Some c \<and> c < length (caches s) \<and> caches s' ! c = caches s ! c"
proof -
  have "c < length (caches s')" using assms(3,4) by (rule slots_okD)
  with assms(1,5) have "\<not> length (caches s) \<le> c" by (auto simp: frame_def)
  with assms(1,4) have "slot_of s x = Some c" unfolding frame_def by (metis option.inject)
  with \<open>\<not> length (caches s) \<le> c\<close> assms(1) show ?thesis by (simp add: frame_def)
qed

text \<open>A call that uses other names keeps the entries.\<close>

lemma entries_frame:
  assumes "entries_ok N M s" "slots_ok s" "frame N' s s'" "slots_ok s'" "N \<inter> N' = {}"
  shows "entries_ok N M s'"
  unfolding entries_ok_def
proof (intro allI impI)
  fix a k c n r
  assume c: "slot_of s' (a, k) = Some c" "caches s' ! c = (dirruns s', n, r)" "n \<in> N"
  with assms(5) have "fst (snd (caches s' ! c)) \<notin> N'" by auto
  from frame_slot [OF assms(3,2,4) c(1) this] c assms(1,3) show "r = Some (M n a)"
    by (auto simp: entries_ok_def frame_def)
qed

lemma entries_subset: "entries_ok N M s \<Longrightarrow> N' \<subseteq> N \<Longrightarrow> entries_ok N' M s"
  by (auto simp: entries_ok_def)

lemma entries_Un: "entries_ok (N \<union> N') M s \<longleftrightarrow> entries_ok N M s \<and> entries_ok N' M s"
  by (auto simp: entries_ok_def)

text \<open>A matcher may be used where more names are known.\<close>

lemma matcher_ok_mono:
  assumes "matcher_ok N M v P m" "N \<subseteq> N'"
  shows "matcher_ok N' M v P m"
  unfolding matcher_ok_def
proof (intro allI impI)
  fix e s
  assume s: "slots_ok s" "entries_ok N' M s"
  obtain b s' where m: "m v e s = (b, s')" by (cases "m v e s")
  note r = matcher_okD [OF assms(1) s(1) entries_subset [OF s(2) assms(2)] m]
  have "entries_ok (N' - N) M s'"
    by (rule entries_frame [OF entries_subset [OF s(2)] s(1) r(4) r(2)]) auto
  then have "entries_ok N' M s'" using r(3) entries_Un [of N "N' - N" M s'] assms(2) by (simp add: Un_absorb1)
  then show "answers N' M s (P e) (m v e s)"
    using r m frame_mono [OF r(4) assms(2)] by (simp add: answers_def)
qed

lemma answers_trans:
  assumes "frame N s s'" "answers N M s' b r"
  shows "answers N M s b r"
  using assms frame_trans [OF assms(1)] by (simp add: answers_def)

section \<open>The walks answer for the candidates\<close>

lemma tried_None: "go d k e = None \<Longrightarrow> tried d check (path d k e) = []"
  by (simp add: path_None tried_def)

lemma tried_Some:
  "go d k e = Some a \<Longrightarrow> tried d check (path d k e) =
     (if is_element d a \<or> check then a # tried d check (path d k a) else tried d check (path d k a))"
  by (simp add: path_Some tried_def)

lemma first_walk_None: "go d k e = None \<Longrightarrow> first_walk d k check m v e s = (False, s)"
  by (simp add: first_walk.simps)

lemma first_walk_Some:
  "go d k e = Some a \<Longrightarrow> first_walk d k check m v e s =
     (if is_element d a \<or> check then m v a s else first_walk d k check m v a s)"
  by (subst first_walk.simps) simp

lemma any_walk_None: "go d k e = None \<Longrightarrow> any_walk d k check m v e s = (False, s)"
  by (simp add: any_walk.simps)

lemma any_walk_Some:
  "go d k e = Some a \<Longrightarrow> any_walk d k check m v e s =
     (if is_element d a \<or> check then
        (let (b, s') = m v a s in if b then (True, s') else any_walk d k check m v a s')
      else any_walk d k check m v a s)"
  by (subst any_walk.simps) simp

lemma cached_walk_None: "go d k e = None \<Longrightarrow> cached_walk d k check n m v nw e s = (False, s)"
  by (simp add: cached_walk.simps)

lemma cached_walk_Some:
  "go d k e = Some a \<Longrightarrow> cached_walk d k check n m v nw e s =
     (if is_element d a \<or> check then
        (case cache_hit n a k s of
           Some r \<Rightarrow> (r = Some True, set_result nw r s)
         | None \<Rightarrow>
             (let (b, s') = m v a (set_slot a k nw s);
                  s'' = set_result nw (Some b) s'
              in if b then (True, s'') else cached_walk d k check n m v nw a s''))
      else cached_walk d k check n m v nw a s)"
  by (subst cached_walk.simps) simp

lemma first_walk_ok:
  assumes "matcher_ok N M v P m" "slots_ok s" "entries_ok N M s"
  shows "answers N M s (\<exists>a\<in>set (take 1 (tried d check (path d k e))). P a) (first_walk d k check m v e s)"
  using assms
proof (induction d k check m v e s rule: first_walk.induct)
  case (1 d k check m v e s)
  show ?case
  proof (cases "go d k e")
    case None
    with 1 show ?thesis by (simp add: first_walk_None tried_None answers_def frame_refl)
  next
    case (Some a)
    with 1 show ?thesis
      by (cases "is_element d a \<or> check") (auto simp: first_walk_Some tried_Some matcher_ok_def)
  qed
qed

lemma any_walk_ok:
  assumes "matcher_ok N M v P m" "slots_ok s" "entries_ok N M s"
  shows "answers N M s (\<exists>a\<in>set (tried d check (path d k e)). P a) (any_walk d k check m v e s)"
  using assms
proof (induction d k check m v e s rule: any_walk.induct)
  case (1 d k check m v e s)
  show ?case
  proof (cases "go d k e")
    case None
    with 1 show ?thesis by (simp add: any_walk_None tried_None answers_def frame_refl)
  next
    case (Some a)
    show ?thesis
    proof (cases "is_element d a \<or> check")
      case False
      then have "any_walk d k check m v e s = any_walk d k check m v a s"
        using Some by (simp add: any_walk_Some)
      with 1(2) [OF Some False 1(3-5)] False Some show ?thesis by (simp add: tried_Some)
    next
      case True
      obtain b s' where m: "m v a s = (b, s')" by (cases "m v a s")
      note r = matcher_okD [OF 1(3-5) m]
      show ?thesis
      proof (cases b)
        case True
        then have "any_walk d k check m v e s = (True, s')"
          using \<open>is_element d a \<or> check\<close> Some m by (simp add: any_walk_Some)
        with True \<open>is_element d a \<or> check\<close> Some r show ?thesis by (simp add: tried_Some answers_def)
      next
        case False
        have "answers N M s' (\<exists>a\<in>set (tried d check (path d k a)). P a) (any_walk d k check m v a s')"
          by (rule 1(1) [OF Some True refl]) (use m False r 1(3) in auto)
        moreover have "any_walk d k check m v e s = any_walk d k check m v a s'"
          using True False Some m by (simp add: any_walk_Some)
        ultimately show ?thesis using answers_trans [OF r(4)] True False Some r(1) by (simp add: tried_Some)
      qed
    qed
  qed
qed

subsection \<open>The walk with the cache\<close>

definition rest :: "dom \<Rightarrow> bool \<Rightarrow> dir \<Rightarrow> (nat \<Rightarrow> bool) \<Rightarrow> nat \<Rightarrow> bool" where
  "rest d check k P e \<longleftrightarrow> (\<exists>a\<in>set (tried d check (path d k e)). P a)"

text \<open>
  The walk that began in \<open>s0\<close> has reached \<open>e\<close>: its array is \<open>nw\<close>; what is left of the walk is the answer for
  every node passed.
\<close>

definition entries_but :: "nat \<Rightarrow> nat \<Rightarrow> (nat \<Rightarrow> bool) \<Rightarrow> cstate \<Rightarrow> bool" where
  "entries_but nw n Q s \<longleftrightarrow>
     (\<forall>a j c r. slot_of s (a, j) = Some c \<longrightarrow> c \<noteq> nw \<longrightarrow> caches s ! c = (dirruns s, n, r) \<longrightarrow> r = Some (Q a))"

definition own_slots :: "nat \<Rightarrow> (nat \<Rightarrow> bool) \<Rightarrow> cstate \<Rightarrow> bool" where
  "own_slots nw R s \<longleftrightarrow> (\<forall>a j. slot_of s (a, j) = Some nw \<longrightarrow> R a)"

definition walking ::
  "cstate \<Rightarrow> nat set \<Rightarrow> (nat \<Rightarrow> nat \<Rightarrow> bool) \<Rightarrow> nat \<Rightarrow> nat \<Rightarrow> (nat \<Rightarrow> bool) \<Rightarrow> bool option \<Rightarrow> cstate \<Rightarrow> bool" where
  "walking s0 N M n nw R r s \<longleftrightarrow>
     frame (insert n N) s0 s \<and> slots_ok s \<and> entries_ok N M s \<and> length (caches s0) = nw \<and>
     nw < length (caches s) \<and> caches s ! nw = (dirruns s, n, r) \<and> entries_but nw n (M n) s \<and> own_slots nw R s"

lemma walking_start:
  assumes "slots_ok s" "entries_ok (insert n N) M s"
  shows "walking s N M n (length (caches s)) (\<lambda>a. False) None
           (s\<lparr>caches := caches s @ [(dirruns s, n, None)]\<rparr>)"
proof -
  let ?s = "s\<lparr>caches := caches s @ [(dirruns s, n, None)]\<rparr>"
  have lt: "c < length (caches s)" if "slot_of s x = Some c" for x c
    using assms(1) that by (rule slots_okD)
  have "frame (insert n N) s ?s" by (simp add: frame_def nth_append)
  moreover have "slots_ok ?s" using lt by (auto simp: slots_ok_def less_SucI)
  moreover have "entries_ok N M ?s" "entries_but (length (caches s)) n (M n) ?s"
    using assms(2) lt by (fastforce simp: entries_ok_def entries_but_def nth_append)+
  moreover have "own_slots (length (caches s)) (\<lambda>a. False) ?s" using lt by (fastforce simp: own_slots_def)
  ultimately show ?thesis by (simp add: walking_def)
qed

lemma walking_end:
  assumes "walking s0 N M n nw R r s" "\<And>a. R a \<Longrightarrow> r = Some (M n a)"
  shows "answers (insert n N) M s0 b (b, s)"
proof -
  have "entries_ok (insert n N) M s"
    unfolding entries_ok_def
  proof (intro allI impI)
    fix a j c m q
    assume c: "slot_of s (a, j) = Some c" "caches s ! c = (dirruns s, m, q)" "m \<in> insert n N"
    show "q = Some (M m a)"
    proof (cases "m \<in> N")
      case True
      then show ?thesis using c assms(1) by (auto simp: walking_def entries_ok_def)
    next
      case False
      then have m: "m = n" using c(3) by simp
      show ?thesis
      proof (cases "c = nw")
        case True
        then show ?thesis using c m assms by (auto simp: walking_def own_slots_def)
      next
        case False
        then show ?thesis using c m assms(1) by (auto simp: walking_def entries_but_def)
      qed
    qed
  qed
  then show ?thesis using assms(1) by (simp add: answers_def walking_def)
qed

lemma walking_result:
  assumes "walking s0 N M n nw R r s" "n \<notin> N"
  shows "walking s0 N M n nw R q (set_result nw q s)"
proof -
  have nw: "nw < length (caches s)" "caches s ! nw = (dirruns s, n, r)" using assms(1) by (auto simp: walking_def)
  have c: "caches (set_result nw q s) ! c = (if c = nw then (dirruns s, n, q) else caches s ! c)" for c
    using nw by (simp add: set_result_def nth_list_update)
  have "frame (insert n N) s0 (set_result nw q s)"
    using assms(1) c by (auto simp: walking_def frame_def set_result_def)
  moreover have "entries_ok N M (set_result nw q s)"
    using assms c by (auto simp: walking_def entries_ok_def set_result_def split: if_splits)
  ultimately show ?thesis
    using assms(1) c by (auto simp: walking_def slots_ok_def entries_but_def own_slots_def set_result_def)
qed

lemma walking_slot:
  assumes "walking s0 N M n nw R r s" "n \<notin> N"
  shows "walking s0 N M n nw (\<lambda>x. x = a \<or> R x) r (set_slot a k nw s)"
proof -
  have "frame (insert n N) s0 (set_slot a k nw s)"
    using assms(1) by (auto simp: walking_def frame_def set_slot_def)
  moreover have "entries_ok N M (set_slot a k nw s)"
    using assms by (auto simp: walking_def entries_ok_def set_slot_def)
  ultimately show ?thesis
    using assms(1) by (auto simp: walking_def slots_ok_def entries_but_def own_slots_def set_slot_def)
qed

lemma walking_call:
  assumes w: "walking s0 N M n nw R r s" and n: "n \<notin> N"
    and m: "matcher_ok N M v P m" "m v a s = (b, s')"
  shows "b = P a \<and> walking s0 N M n nw R r s'"
proof -
  have s: "slots_ok s" "entries_ok N M s" "nw < length (caches s)" "caches s ! nw = (dirruns s, n, r)"
    using w by (auto simp: walking_def)
  note q = matcher_okD [OF m(1) s(1,2) m(2)]
  have same: "caches s' ! nw = caches s ! nw" "dirruns s' = dirruns s" using q(4) s(3) by (auto simp: frame_def)
  have old: "slot_of s x = Some c \<and> caches s' ! c = caches s ! c"
    if "slot_of s' x = Some c" "fst (snd (caches s' ! c)) = n" for x c
    using frame_slot [OF q(4) s(1) q(2) that(1)] n that(2) by auto
  have "frame (insert n N) s0 s'"
    by (rule frame_trans [OF _ frame_mono [OF q(4)]]) (use w in \<open>auto simp: walking_def\<close>)
  moreover have "nw < length (caches s')" using q(4) s(3) by (simp add: frame_def)
  moreover have "entries_but nw n (M n) s'"
    using w old same(2) by (auto simp: walking_def entries_but_def dest: old)
  moreover have "own_slots nw R s'"
    unfolding own_slots_def
  proof (intro allI impI)
    fix a j
    assume "slot_of s' (a, j) = Some nw"
    with old same(1) s(4) have "slot_of s (a, j) = Some nw" by simp
    with w show "R a" by (auto simp: walking_def own_slots_def)
  qed
  ultimately show ?thesis using w q same by (simp add: walking_def)
qed

lemma walking_mono: "walking s0 N M n nw R r s \<Longrightarrow> (\<And>a. R a \<Longrightarrow> R' a) \<Longrightarrow> walking s0 N M n nw R' r s"
  by (auto simp: walking_def own_slots_def)

lemma cached_walk_ok:
  assumes "walking s0 N M n nw (\<lambda>a. e \<le> a \<and> r = Some False \<and> M n a = rest d check k P e) r s"
    and "matcher_ok N M v P m" "n \<notin> N"
    and "\<And>a. is_element d a \<or> check \<Longrightarrow> M n a = (P a \<or> rest d check k P a)"
  shows "answers (insert n N) M s0 (rest d check k P e) (cached_walk d k check n m v nw e s)"
  using assms
proof (induction d k check n m v nw e s arbitrary: r rule: cached_walk.induct)
  case (1 d k check n m v nw e s)
  show ?case
  proof (cases "go d k e")
    case None
    then have "\<not> rest d check k P e" by (simp add: rest_def tried_None)
    with walking_end [OF 1(3), of False] show ?thesis by (simp add: cached_walk_None [OF None])
  next
    case (Some a)
    show ?thesis
    proof (cases "is_element d a \<or> check")
      case False
      have eq: "rest d check k P e = rest d check k P a" using Some False by (simp add: rest_def tried_Some)
      have "answers (insert n N) M s0 (rest d check k P a) (cached_walk d k check n m v nw a s)"
        by (rule 1(2) [OF Some False walking_mono [OF 1(3)] 1(4-6)]) (use eq go_less [OF Some] in auto)
      then show ?thesis using eq Some False by (simp add: cached_walk_Some)
    next
      case True
      have eq: "rest d check k P e = (P a \<or> rest d check k P a)"
        using Some True by (simp add: rest_def tried_Some)
      show ?thesis
      proof (cases "cache_hit n a k s")
        case (Some q)
        then obtain c where c: "slot_of s (a, k) = Some c" "caches s ! c = (dirruns s, n, q)"
          by (auto simp: cache_hit_def split: option.splits prod.splits if_splits)
        have "c \<noteq> nw" using 1(3) c(1) go_less [OF \<open>go d k e = Some a\<close>]
          by (auto simp: walking_def own_slots_def)
        then have q: "q = Some (rest d check k P e)"
          using 1(3) c 1(6) [OF True] eq by (auto simp: walking_def entries_but_def)
        have "answers (insert n N) M s0 (rest d check k P e) (rest d check k P e, set_result nw q s)"
          by (rule walking_end [OF walking_result [OF 1(3,5)]]) (simp add: q)
        moreover have "cached_walk d k check n m v nw e s = (rest d check k P e, set_result nw q s)"
          using \<open>go d k e = Some a\<close> True Some q by (simp add: cached_walk_Some)
        ultimately show ?thesis by simp
      next
        case None
        obtain b s' where m: "m v a (set_slot a k nw s) = (b, s')" by (cases "m v a (set_slot a k nw s)")
        note w = walking_call [OF walking_slot [OF 1(3,5)] 1(5,4) m]
        note w' = walking_result [OF w [THEN conjunct2] 1(5), of "Some b"]
        show ?thesis
        proof (cases b)
          case True
          then have "answers (insert n N) M s0 True (True, set_result nw (Some b) s')"
            by (intro walking_end [OF w']) (use w eq 1(6) [OF \<open>is_element d a \<or> check\<close>] in auto)
          with True w eq Some None m \<open>is_element d a \<or> check\<close> show ?thesis
            by (simp add: cached_walk_Some)
        next
          case False
          then have "answers (insert n N) M s0 (rest d check k P a)
              (cached_walk d k check n m v nw a (set_result nw (Some b) s'))"
            by (intro 1(1) [OF Some True None refl m [symmetric] refl False walking_mono [OF w'] 1(4-6)])
              (use w eq go_less [OF Some] 1(6) [OF True] in auto)
          with False w eq Some None m True show ?thesis by (simp add: cached_walk_Some)
        qed
      qed
    qed
  qed
qed

section \<open>The compiled matchers mean what the selector means\<close>

lemma entries_cong:
  "(\<And>n. n \<in> N \<Longrightarrow> M n = M' n) \<Longrightarrow> entries_ok N M s \<longleftrightarrow> entries_ok N M' s"
  by (simp add: entries_ok_def)

lemma matcher_ok_cong:
  "(\<And>n. n \<in> N \<Longrightarrow> M n = M' n) \<Longrightarrow> matcher_ok N M v P m \<longleftrightarrow> matcher_ok N M' v P m"
  using entries_cong [of N M M'] by (simp add: matcher_ok_def answers_def)

lemma addCombinator_ok:
  assumes m: "matcher_ok N M v P m" and n: "n \<notin> N" and k: "k = fst r" and check: "check \<longleftrightarrow> base \<and> k = Up"
  shows "matcher_ok (insert n N) (M(n := \<lambda>a. P a \<or> rest d check k P a)) v
           (\<lambda>e. \<exists>a\<in>set (candidates d r check e). P a) (addCombinator d m r base n)"
    (is "matcher_ok ?N ?M _ ?Q ?m")
proof -
  have m': "matcher_ok N ?M v P m" using m n matcher_ok_cong [of N M ?M] by force
  have m'': "matcher_ok ?N ?M v P m" by (rule matcher_ok_mono [OF m']) auto
  have "answers ?N ?M s (?Q e) (?m v e s)" if s: "slots_ok s" "entries_ok ?N ?M s" for e s
  proof (cases "snd r")
    case True
    then show ?thesis using first_walk_ok [OF m'' s, of d check k e] k check
      by (simp add: addCombinator_def candidates_def Let_def)
  next
    case False
    show ?thesis
    proof (cases "xml_of v")
      case True
      then show ?thesis using any_walk_ok [OF m'' s, of d check k e] k check False
        by (simp add: addCombinator_def candidates_def Let_def)
    next
      case not_xml: False
      have "answers ?N ?M s (rest d check k P e)
          (cached_walk d k check n m v (length (caches s)) e (s\<lparr>caches := caches s @ [(dirruns s, n, None)]\<rparr>))"
        by (rule cached_walk_ok [OF walking_mono [OF walking_start [OF s]] m' n]) (auto simp: n)
      then show ?thesis using k check False not_xml
        by (simp add: addCombinator_def candidates_def Let_def rest_def)
    qed
  qed
  then show ?thesis by (simp add: matcher_ok_def)
qed

lemma match_all_ok:
  "list_all2 (matcher_ok N M v) Ps ms \<Longrightarrow> matcher_ok N M v (\<lambda>e. \<forall>P\<in>set Ps. P e) (match_all ms)"
proof (induction Ps ms rule: list_all2_induct)
  case Nil
  have "match_all [] = (\<lambda>v e s. (True, s))" by (intro ext) simp
  then show ?case using matcher_ok_pure [of N M v "\<lambda>e. True"] by simp
next
  case (Cons P Ps m ms)
  have "answers N M s (\<forall>Q\<in>set (P # Ps). Q e) (match_all (m # ms) v e s)"
    if s: "slots_ok s" "entries_ok N M s" for e s
  proof -
    obtain b s' where m: "m v e s = (b, s')" by (cases "m v e s")
    note r = matcher_okD [OF Cons(1) s m]
    have "answers N M s (\<forall>Q\<in>set Ps. Q e) (match_all ms v e s')"
      using Cons(3) r by (intro answers_trans [OF r(4)]) (simp add: matcher_ok_def)
    with r m show ?thesis by (cases b) (auto simp: answers_def)
  qed
  then show ?case by (simp add: matcher_ok_def)
qed

lemma elementMatcher_ok:
  assumes "list_all2 (matcher_ok N M v) Ps ms" "ms \<noteq> []"
  shows "matcher_ok N M v (\<lambda>e. \<forall>P\<in>set Ps. P e) (elementMatcher ms)"
proof (cases "1 < length ms")
  case True
  have "list_all2 (matcher_ok N M v) (rev Ps) (rev ms)" using assms(1) by simp
  from match_all_ok [OF this] True show ?thesis by (simp add: elementMatcher_def)
next
  case False
  with assms(2) obtain m where m: "ms = [m]" by (cases ms) auto
  with assms(1) obtain P where P: "Ps = [P]" "matcher_ok N M v P m" by (auto simp: list_all2_Cons2)
  with m show ?thesis by (simp add: elementMatcher_def)
qed

lemma holds_append: "holds d F B (xs @ ys) e \<longleftrightarrow> holds d F (holds d F B ys) xs e"
  by (induction xs arbitrary: e) (auto split: option.splits)

lemma tokens_loop_ok:
  assumes "tokens_loop d F ts ms dn = (m, dn')" "list_all2 (matcher_ok {..<dn} M v) Ps ms" "ms \<noteq> []"
  shows "\<exists>M'. dn \<le> dn' \<and> (\<forall>n<dn. M' n = M n) \<and>
    matcher_ok {..<dn'} M' v (holds d F (\<lambda>e. \<forall>P\<in>set Ps. P e) (rev ts)) m"
  using assms
proof (induction ts arbitrary: ms dn M Ps)
  case Nil
  then show ?case using elementMatcher_ok [OF Nil(2,3)] by (auto simp: ext)
next
  case (Cons t ts)
  show ?case
  proof (cases "relative (tok_type t)")
    case None
    let ?P = "\<lambda>e. \<forall>P\<in>set (Ps @ [F t]). P e"
    have "\<exists>M'. dn \<le> dn' \<and> (\<forall>n<dn. M' n = M n) \<and> matcher_ok {..<dn'} M' v (holds d F ?P (rev ts)) m"
      by (rule Cons.IH [of "ms @ [\<lambda>v e s. (F t e, s)]"])
        (use Cons.prems None in \<open>auto simp: matcher_ok_pure intro!: list_all2_appendI\<close>)
    moreover have "holds d F ?P (rev ts) = holds d F (\<lambda>e. \<forall>P\<in>set Ps. P e) (rev (t # ts))"
    proof -
      have "?P = holds d F (\<lambda>e. \<forall>P\<in>set Ps. P e) [t]" using None by (auto intro!: ext)
      then show ?thesis by (intro ext) (simp add: holds_append)
    qed
    ultimately show ?thesis by simp
  next
    case (Some r)
    let ?A = "\<lambda>e. \<forall>P\<in>set Ps. P e"
    let ?P = "\<lambda>e. \<exists>a\<in>set (candidates d r False e). ?A a"
    let ?M = "M(dn := \<lambda>a. ?A a \<or> rest d False (fst r) ?A a)"
    have "matcher_ok (insert dn {..<dn}) ?M v ?P (addCombinator d (elementMatcher ms) r False dn)"
      by (rule addCombinator_ok [OF elementMatcher_ok [OF Cons.prems(2,3)]]) auto
    then have l: "list_all2 (matcher_ok {..<Suc dn} ?M v) [?P] [addCombinator d (elementMatcher ms) r False dn]"
      by (simp add: lessThan_Suc)
    have "tokens_loop d F ts [addCombinator d (elementMatcher ms) r False dn] (Suc dn) = (m, dn')"
      using Cons.prems(1) Some by simp
    from Cons.IH [OF this l list.distinct(2)] obtain M' where M': "Suc dn \<le> dn' \<and> (\<forall>n<Suc dn. M' n = ?M n) \<and>
      matcher_ok {..<dn'} M' v (holds d F (\<lambda>e. \<forall>P\<in>set [?P]. P e) (rev ts)) m"
      by (rule exE)
    have one: "(\<lambda>e. \<forall>P\<in>set [?P]. P e) = holds d F ?A [t]" by (intro ext) (simp add: Some)
    have "holds d F (\<lambda>e. \<forall>P\<in>set [?P]. P e) (rev ts) = holds d F ?A (rev (t # ts))"
      unfolding one rev.simps by (rule ext) (rule holds_append [symmetric])
    then show ?thesis using M' by (intro exI [of _ M']) auto
  qed
qed

lemma contextMatcher_ok:
  obtains M' where "\<forall>n<dn. M' n = M n"
    "matcher_ok {..<dn + 2} M' v (base_holds d v lead r) (contextMatcher d lead r dn)"
proof -
  let ?in = "\<lambda>c a. case c of One n \<Rightarrow> a = n | Many ns \<Rightarrow> a \<in> set ns"
  define n where "n = (case context_of v of One c \<Rightarrow> dn | Many cs \<Rightarrow> Suc dn)"
  define P where "P = ?in (context_of v)"
  define m where "m = addCombinator d (\<lambda>v a s. (P a, s)) r True n"
  have "matcher_ok (insert n {}) (M(n := \<lambda>a. P a \<or> rest d (fst r = Up) (fst r) P a)) v
      (\<lambda>e. \<exists>a\<in>set (candidates d r (fst r = Up) e). P a) m"
    unfolding m_def by (rule addCombinator_ok [OF matcher_ok_pure]) auto
  moreover have "(\<lambda>e. \<exists>a\<in>set (candidates d r (fst r = Up) e). P a) = in_context d r (context_of v)"
    by (intro ext) (simp add: in_context_def P_def)
  ultimately have m: "matcher_ok {..<dn + 2} (M(n := \<lambda>a. P a \<or> rest d (fst r = Up) (fst r) P a)) v
      (in_context d r (context_of v)) m"
    using matcher_ok_mono [of "{n}" _ v _ m "{..<dn + 2}"] by (simp add: n_def split: ctx.splits)
  have eq: "contextMatcher d lead r dn v e s =
      (if \<not> lead \<and> (xml_of v \<or> Outer (context_of v) \<noteq> outermost_of v) then (True, s) else m v e s)" for e s
    by (cases "context_of v")
      (simp_all add: contextMatcher_def matchContext_def matchAnyContext_def m_def n_def P_def)
  have "matcher_ok {..<dn + 2} (M(n := \<lambda>a. P a \<or> rest d (fst r = Up) (fst r) P a)) v
      (base_holds d v lead r) (contextMatcher d lead r dn)"
    using m by (auto simp: matcher_ok_def eq base_holds_def answers_def frame_refl)
  moreover have "\<forall>k<dn. (M(n := \<lambda>a. P a \<or> rest d (fst r = Up) (fst r) P a)) k = M k"
    by (simp add: n_def split: ctx.splits)
  ultimately show thesis by (intro that)
qed

lemma matcherFromTokens_ok:
  assumes "matcherFromTokens d F ts dn = (m, dn')"
  shows "\<exists>M'. dn \<le> dn' \<and> (\<forall>n<dn. M' n = M n) \<and> matcher_ok {..<dn'} M' v (selects d F v ts) m"
proof -
  let ?lead = "leadingRelative ts \<noteq> None"
  let ?B = "base_holds d v ?lead (implicitRelative ts)"
  let ?c = "contextMatcher d ?lead (implicitRelative ts) dn"
  obtain M1 where M1: "\<forall>n<dn. M1 n = M n" "matcher_ok {..<dn + 2} M1 v ?B ?c"
    by (rule contextMatcher_ok [of dn M v d ?lead "implicitRelative ts"])
  have l: "tokens_loop d F (if ?lead then tl ts else ts) [?c] (dn + 2) = (m, dn')"
    using assms by (simp add: matcherFromTokens_def Let_def)
  have c: "list_all2 (matcher_ok {..<dn + 2} M1 v) [?B] [?c]" using M1(2) by simp
  from tokens_loop_ok [OF l c list.distinct(2)] obtain M2 where M2: "dn + 2 \<le> dn' \<and>
      (\<forall>n<dn + 2. M2 n = M1 n) \<and>
      matcher_ok {..<dn'} M2 v (holds d F (\<lambda>e. \<forall>P\<in>set [?B]. P e) (rev (if ?lead then tl ts else ts))) m"
    by (rule exE)
  have "(\<lambda>e. \<forall>P\<in>set [?B]. P e) = ?B" by (intro ext) simp
  then have "holds d F (\<lambda>e. \<forall>P\<in>set [?B]. P e) (rev (if ?lead then tl ts else ts)) = selects d F v ts"
    by (intro ext) (simp add: selects_def Let_def)
  then show ?thesis using M1(1) M2 by (intro exI [of _ M2]) auto
qed

lemma compile_groups_ok:
  assumes "compile_groups d F gs dn = (ms, dn')"
  shows "\<exists>M'. dn \<le> dn' \<and> (\<forall>n<dn. M' n = M n) \<and> list_all2 (matcher_ok {..<dn'} M' v) (map (selects d F v) gs) ms"
  using assms
proof (induction gs arbitrary: dn ms M)
  case Nil
  then show ?case by auto
next
  case (Cons g gs)
  obtain m dn1 where m: "matcherFromTokens d F g dn = (m, dn1)" by (cases "matcherFromTokens d F g dn")
  obtain ms1 where ms: "compile_groups d F gs dn1 = (ms1, dn')" "ms = m # ms1"
    using Cons.prems m by (auto split: prod.splits)
  obtain M1 where M1: "dn \<le> dn1 \<and> (\<forall>n<dn. M1 n = M n) \<and> matcher_ok {..<dn1} M1 v (selects d F v g) m"
    using matcherFromTokens_ok [OF m] by (rule exE)
  obtain M2 where M2: "dn1 \<le> dn' \<and> (\<forall>n<dn1. M2 n = M1 n) \<and>
      list_all2 (matcher_ok {..<dn'} M2 v) (map (selects d F v) gs) ms1"
    using Cons.IH [OF ms(1)] by (rule exE)
  have "matcher_ok {..<dn1} M2 v (selects d F v g) m"
    using M1 M2 matcher_ok_cong [of "{..<dn1}" M2 M1 v "selects d F v g" m] by simp
  then have "matcher_ok {..<dn'} M2 v (selects d F v g) m"
    by (rule matcher_ok_mono) (simp add: M2)
  then have "list_all2 (matcher_ok {..<dn'} M2 v) (map (selects d F v) (g # gs)) ms"
    using M2 ms(2) by simp
  moreover have "dn \<le> dn' \<and> (\<forall>n<dn. M2 n = M n)" using M1 M2 by simp
  ultimately show ?case by blast
qed

text \<open>One run: the elements that some group selects, in the order of the elements.\<close>

lemma match_some_ok:
  "list_all2 (matcher_ok N M v) Ps ms \<Longrightarrow> slots_ok s \<Longrightarrow> entries_ok N M s \<Longrightarrow>
   answers N M s (\<exists>P\<in>set Ps. P e) (match_some ms v e s)"
proof (induction Ps ms arbitrary: s rule: list_all2_induct)
  case Nil
  then show ?case by (simp add: answers_def frame_refl)
next
  case (Cons P Ps m ms)
  obtain b s' where m: "m v e s = (b, s')" by (cases "m v e s")
  note r = matcher_okD [OF Cons(1,4,5) m]
  have "answers N M s (\<exists>Q\<in>set Ps. Q e) (match_some ms v e s')"
    by (rule answers_trans [OF r(4) Cons(3) [OF r(2,3)]])
  with r m show ?case by (cases b) (auto simp: answers_def)
qed

lemma match_elems_ok:
  "list_all2 (matcher_ok N M v) Ps ms \<Longrightarrow> slots_ok s \<Longrightarrow> entries_ok N M s \<Longrightarrow>
   fst (match_elems ms v es s) = filter (\<lambda>e. \<exists>P\<in>set Ps. P e) es \<and>
   slots_ok (snd (match_elems ms v es s)) \<and> frame N s (snd (match_elems ms v es s))"
proof (induction es arbitrary: s)
  case Nil
  then show ?case by (simp add: frame_refl)
next
  case (Cons e es)
  obtain b s' where m: "match_some ms v e s = (b, s')" by (cases "match_some ms v e s")
  have r: "b = (\<exists>P\<in>set Ps. P e)" "slots_ok s'" "entries_ok N M s'" "frame N s s'"
    using match_some_ok [OF Cons.prems, of e] m by (auto simp: answers_def)
  from Cons.IH [OF Cons.prems(1) r(2,3)] frame_trans [OF r(4)] show ?case
    using m r(1) by (auto split: prod.splits)
qed

text \<open>Between the runs: no array is of a run to come.\<close>

definition runs_ok :: "cstate \<Rightarrow> bool" where
  "runs_ok s \<longleftrightarrow> slots_ok s \<and> (\<forall>c<length (caches s). fst (caches s ! c) \<le> dirruns s)"

definition no_runs :: cstate where
  "no_runs = \<lparr>dirruns = 0, caches = [], slot_of = \<lambda>x. None\<rparr>"

lemma no_runs_ok: "runs_ok no_runs"
  by (simp add: runs_ok_def no_runs_def slots_ok_def)

lemma runs_fresh:
  assumes "runs_ok s"
  shows "entries_ok N M (s\<lparr>dirruns := Suc (dirruns s)\<rparr>)"
  unfolding entries_ok_def
proof (intro allI impI)
  fix a k c n r
  assume "slot_of (s\<lparr>dirruns := Suc (dirruns s)\<rparr>) (a, k) = Some c"
    "caches (s\<lparr>dirruns := Suc (dirruns s)\<rparr>) ! c = (dirruns (s\<lparr>dirruns := Suc (dirruns s)\<rparr>), n, r)"
  with assms slots_okD [of s "(a, k)" c] show "r = Some (M n a)" by (fastforce simp: runs_ok_def)
qed

lemma runs_frame:
  assumes "runs_ok s" "frame N s s'" "slots_ok s'"
  shows "runs_ok s'"
proof -
  have "fst (caches s' ! c) \<le> dirruns s'" if "c < length (caches s')" for c
    using assms that by (cases "c < length (caches s)") (auto simp: runs_ok_def frame_def)
  then show ?thesis using assms(3) by (simp add: runs_ok_def)
qed

lemma superMatcher_run:
  assumes "runs_ok s" "compile d F groups dn = (ms, dn')"
  shows "fst (superMatcher ms elems context xml outer s) =
      filter (\<lambda>e. \<exists>g\<in>set groups. selects d F (run_env context xml outer) g e) elems \<and>
    runs_ok (snd (superMatcher ms elems context xml outer s))"
proof -
  let ?v = "run_env context xml outer"
  let ?s = "s\<lparr>dirruns := Suc (dirruns s)\<rparr>"
  from compile_groups_ok [OF assms(2) [unfolded compile_def]] obtain M where
    M: "dn \<le> dn' \<and> (\<forall>n<dn. M n = undefined n) \<and>
        list_all2 (matcher_ok {..<dn'} M ?v) (map (selects d F ?v) (rev groups)) ms"
    by (rule exE)
  have s: "slots_ok ?s" "runs_ok ?s" using assms(1) by (fastforce simp: runs_ok_def slots_ok_def)+
  note r = match_elems_ok [OF M [THEN conjunct2, THEN conjunct2] s(1) runs_fresh [OF assms(1)], of elems]
  then have "runs_ok (snd (match_elems ms ?v elems ?s))" using runs_frame [OF s(2)] by blast
  with r show ?thesis by (simp add: superMatcher_def)
qed

text \<open>
  C2: A run of the compiled selector returns the elements that some group of the selector selects, in their
  order, whatever earlier runs (of this selector or of others) left in the caches of the elements; and the
  caches it leaves are again good for the next run. A group selects an element when it holds read from its
  last token, a combinator being true when one of its candidates carries the rest.
\<close>

theorem superMatcher_ok:
  assumes "runs_ok s" "compile d F groups dn = (ms, dn')"
  shows "fst (superMatcher ms elems context xml outer s) =
      filter (\<lambda>e. \<exists>g\<in>set groups. selects d F (run_env context xml outer) g e) elems \<and>
    runs_ok (snd (superMatcher ms elems context xml outer s))"
  using assms by (rule superMatcher_run)

definition demo_doc :: dom where
  "demo_doc = [\<lparr>node_type_of = 9, node_name_of = ''#document'', parent_of = None, attributes_of = []\<rparr>,
     \<lparr>node_type_of = 1, node_name_of = ''div'', parent_of = Some 0, attributes_of = []\<rparr>,
     \<lparr>node_type_of = 1, node_name_of = ''p'', parent_of = Some 1, attributes_of = []\<rparr>,
     \<lparr>node_type_of = 1, node_name_of = ''b'', parent_of = Some 2, attributes_of = []\<rparr>,
     \<lparr>node_type_of = 1, node_name_of = ''b'', parent_of = Some 0, attributes_of = []\<rparr>]"

definition demo_groups :: "token list list" where
  "demo_groups = [[\<lparr>tok_value = ''div'', tok_type = ''TAG'', tok_matches = [Str ''div'']\<rparr>,
     \<lparr>tok_value = '' '', tok_type = '' '', tok_matches = []\<rparr>,
     \<lparr>tok_value = ''b'', tok_type = ''TAG'', tok_matches = [Str ''b'']\<rparr>]]"

definition demo_filter :: "token \<Rightarrow> nat \<Rightarrow> bool" where
  "demo_filter t e = (node_name demo_doc e = tok_value t)"

lemma superMatcher_ok_witness:
  "fst (superMatcher (fst (compile demo_doc demo_filter demo_groups 0)) [1, 2, 3, 4] None False Outer_True no_runs) =
   [3]"
proof -
  have "filter (\<lambda>e. \<exists>g\<in>set demo_groups. selects demo_doc demo_filter (run_env None False Outer_True) g e)
      [1, 2, 3, 4] = [3]"
    by code_simp
  then show ?thesis
    using superMatcher_ok [OF no_runs_ok, of demo_doc demo_filter demo_groups 0
        "fst (compile demo_doc demo_filter demo_groups 0)" "snd (compile demo_doc demo_filter demo_groups 0)"
        "[1, 2, 3, 4]" None False Outer_True]
    by simp
qed

end
