(* ===== verification/J_Tokenize.thy ===== *)
theory J_Tokenize
  imports JS_Regex J_Match
begin

text \<open>
  The tokenizer of Sizzle (\<open>jquery-3.1.0.js\<close>): its regular expressions, \<open>funescape\<close>, the pre-filters,
  \<open>tokenize\<close> and \<open>toSelector\<close>. A syntax error is a value. Escapes of code points above 255 are outside the
  characters of the model and are an error of their own.
\<close>

datatype sizzle_error = Syntax string | Outside_Model

section \<open>The regular expressions\<close>

definition ws_char :: "char \<Rightarrow> bool" where
  "ws_char c \<longleftrightarrow> code c \<in> {32, 9, 13, 10, 12}"

definition whitespace :: re where
  "whitespace = Cls ws_char"

abbreviation "backslash \<equiv> CHR 0x5C"
abbreviation "quote1 \<equiv> CHR 0x27"
abbreviation "quote2 \<equiv> CHR 0x22"

definition re_identifier :: re where
  "re_identifier = Plus (Alt (Seq (Ch backslash) Dot)
     (Alt (Cls (\<lambda>c. is_word c \<or> c = CHR ''-'')) (Cls (\<lambda>c. 160 < code c))))"

text \<open>A quoted string, its contents in group \<open>n\<close>.\<close>

definition quoted :: "nat \<Rightarrow> char \<Rightarrow> re" where
  "quoted n q = Seq (Ch q) (Seq (Grp n (Star (Alt (Seq (Ch backslash) Dot)
     (Cls (\<lambda>c. c \<noteq> backslash \<and> c \<noteq> q))))) (Ch q))"

text \<open>The groups of \<open>attributes\<close> are numbered from \<open>n\<close>, for it is a part of \<open>pseudos\<close> too.\<close>

definition attributes :: "nat \<Rightarrow> re" where
  "attributes n =
     Seq (Ch CHR ''['') (Seq (Star whitespace) (Seq (Grp n re_identifier)
       (Seq (Alt (Seq (Star whitespace) (Seq (Grp (n + 1) (Seq (Opt (Cls (\<lambda>c. c \<in> set ''*^$|!~''))) (Ch CHR ''='')))
                   (Seq (Star whitespace) (Alt (quoted (n + 2) quote1) (Alt (quoted (n + 3) quote2)
                     (Grp (n + 4) re_identifier))))))
                 Eps)
         (Seq (Star whitespace) (Ch CHR '']'')))))"

definition pseudos :: re where
  "pseudos =
     Seq (Ch CHR '':'') (Seq (Grp 1 re_identifier)
       (Alt (Seq (Ch CHR ''('') (Seq
               (Grp 2 (Alt (Grp 3 (Alt (quoted 4 quote1) (quoted 5 quote2)))
                      (Alt (Grp 6 (Star (Alt (Seq (Ch backslash) Dot)
                                        (Alt (Cls (\<lambda>c. c \<noteq> backslash \<and> c \<notin> set ''()[]'')) (attributes 7)))))
                           (Star Dot))))
               (Ch CHR '')'')))
            Eps))"

definition rtrim :: re where
  "rtrim = Alt (Seq Bol (Plus whitespace))
     (Seq (Grp 1 (Seq (Alt Bol (Cls (\<lambda>c. c \<noteq> backslash))) (Star (Seq (Ch backslash) Dot))))
       (Seq (Plus whitespace) Eol))"

definition rcomma :: re where
  "rcomma = Seq Bol (Seq (Star whitespace) (Seq (Ch CHR '','') (Star whitespace)))"

definition rcombinators :: re where
  "rcombinators = Seq Bol (Seq (Star whitespace)
     (Seq (Grp 1 (Alt (Cls (\<lambda>c. c \<in> set ''>+~'')) whitespace)) (Star whitespace)))"

definition re_ID :: re where
  "re_ID = Seq Bol (Seq (Ch CHR ''#'') (Grp 1 re_identifier))"

definition re_CLASS :: re where
  "re_CLASS = Seq Bol (Seq (Ch CHR ''.'') (Grp 1 re_identifier))"

definition re_TAG :: re where
  "re_TAG = Seq Bol (Grp 1 (Alt re_identifier (Ch CHR ''*'')))"

definition re_ATTR :: re where
  "re_ATTR = Seq Bol (attributes 1)"

definition re_PSEUDO :: re where
  "re_PSEUDO = Seq Bol pseudos"

text \<open>The flag \<open>i\<close>: a letter of the pattern matches in either case.\<close>

fun Lit_i :: "string \<Rightarrow> re" where
  "Lit_i [] = Eps"
| "Lit_i (c # s) = Seq (Cls (\<lambda>d. lower_char d = c)) (Lit_i s)"

fun Alts_i :: "string list \<Rightarrow> re" where
  "Alts_i [] = Cls (\<lambda>_. False)"
| "Alts_i [w] = Lit_i w"
| "Alts_i (w # ws) = Alt (Lit_i w) (Alts_i ws)"

definition sign :: re where
  "sign = Alt (Cls (\<lambda>c. c \<in> set ''+-'')) Eps"

definition re_CHILD :: re where
  "re_CHILD =
     Seq Bol (Seq (Ch CHR '':'') (Seq (Grp 1 (Alts_i [''only'', ''first'', ''last'', ''nth'', ''nth-last'']))
       (Seq (Ch CHR ''-'') (Seq (Grp 2 (Alts_i [''child'', ''of-type'']))
         (Alt (Seq (Ch CHR ''('') (Seq (Star whitespace)
                (Seq (Grp 3 (Alt (Lit_i ''even'') (Alt (Lit_i ''odd'')
                        (Seq (Grp 4 (Alt (Seq (Grp 5 sign) (Seq (Grp 6 (Star (Cls is_digit)))
                                           (Cls (\<lambda>d. lower_char d = CHR ''n'')))) Eps))
                          (Seq (Star whitespace)
                            (Alt (Seq (Grp 7 sign) (Seq (Star whitespace) (Grp 8 (Plus (Cls is_digit))))) Eps))))))
                  (Seq (Star whitespace) (Ch CHR '')'')))))
              Eps)))))"

section \<open>Escapes\<close>

definition is_hex :: "char \<Rightarrow> bool" where
  "is_hex c \<longleftrightarrow> is_digit c \<or> (let n = code (lower_char c) in 97 \<le> n \<and> n \<le> 102)"

definition hex_digit :: "char \<Rightarrow> nat" where
  "hex_digit c = (if is_digit c then code c - 48 else code (lower_char c) - 87)"

definition hex_value :: "string \<Rightarrow> nat" where
  "hex_value s = foldl (\<lambda>n c. 16 * n + hex_digit c) 0 s"

fun Up_to :: "nat \<Rightarrow> re \<Rightarrow> re" where
  "Up_to 0 r = Eps"
| "Up_to (Suc n) r = Opt (Seq r (Up_to n r))"

definition runescape :: re where
  "runescape = Seq (Ch backslash)
     (Grp 1 (Alt (Seq (Cls is_hex) (Seq (Up_to 5 (Cls is_hex)) (Opt whitespace)))
            (Alt (Grp 2 whitespace) Dot)))"

text \<open>
  \<open>"0x" + escaped\<close> is a number when the capture is hexadecimal digits with spaces after them; \<open>None\<close> when the
  character it names is above 255.
\<close>

definition funescape :: "caps \<Rightarrow> string option" where
  "funescape cs =
     (let escaped = group 1 cs; digits = filter is_hex escaped
      in if \<not> list_all (\<lambda>c. is_hex c \<or> ws_char c) escaped \<or> digits = [] \<or> group 2 cs \<noteq> [] then Some escaped
         else if hex_value digits < 256 then Some [char_of (hex_value digits)] else None)"

definition unescape :: "string \<Rightarrow> sizzle_error + string" where
  "unescape s =
     (let ms = map (\<lambda>(a, b, cs). ((a, b), funescape cs)) (matches_from runescape s 0)
      in if list_all (\<lambda>(p, t). t \<noteq> None) ms then Inr (paste s 0 (map (\<lambda>(p, t). (p, the t)) ms))
         else Inl Outside_Model)"

section \<open>The filters of the tokenizer\<close>

text \<open>\<open>match[n]\<close>, and the text of a match.\<close>

definition capv :: "nat \<Rightarrow> caps \<Rightarrow> mval" where
  "capv n cs = (case cap n cs of None \<Rightarrow> Undef | Some t \<Rightarrow> Str t)"

definition exec_text :: "re \<Rightarrow> string \<Rightarrow> (string \<times> caps) option" where
  "exec_text r s = (case exec r s of None \<Rightarrow> None | Some (a, b, cs) \<Rightarrow> Some (take (b - a) (drop a s), cs))"

type_synonym fmatch = "(string \<times> mval list) option"

definition plain_filter :: "re \<Rightarrow> string \<Rightarrow> sizzle_error + fmatch" where
  "plain_filter r s = Inr (map_option (\<lambda>(v, cs). (v, [capv 1 cs])) (exec_text r s))"

text \<open>\<open>preFilter.ATTR\<close>.\<close>

definition prefilter_ATTR :: "caps \<Rightarrow> sizzle_error + mval list" where
  "prefilter_ATTR cs =
     (case unescape (group 1 cs) of Inl e \<Rightarrow> Inl e | Inr name \<Rightarrow>
     (case unescape (if group 3 cs \<noteq> [] then group 3 cs else if group 4 cs \<noteq> [] then group 4 cs else group 5 cs)
      of Inl e \<Rightarrow> Inl e | Inr check \<Rightarrow>
        Inr [Str name, capv 2 cs, Str (if capv 2 cs = Str ''~='' then '' '' @ check @ '' '' else check)]))"

text \<open>The number that unary \<open>+\<close> makes of a sign and digits.\<close>

definition nat_of_digits :: "string \<Rightarrow> nat" where
  "nat_of_digits s = foldl (\<lambda>n c. 10 * n + (code c - 48)) 0 s"

definition to_number :: "string \<Rightarrow> int" where
  "to_number s =
     (case s of [] \<Rightarrow> 0
      | c # t \<Rightarrow> if c = CHR ''-'' then - int (nat_of_digits t) else if c = CHR ''+'' then int (nat_of_digits t)
                 else int (nat_of_digits s))"

text \<open>\<open>match[4]\<close> and \<open>match[5]\<close> of a formula: the step and the offset.\<close>

definition child_step :: "caps \<Rightarrow> int" where
  "child_step cs =
     (if group 4 cs \<noteq> [] then to_number (group 5 cs @ (if group 6 cs \<noteq> [] then group 6 cs else ''1''))
      else if group 3 cs = ''even'' \<or> group 3 cs = ''odd'' then 2 else 0)"

definition child_offset :: "caps \<Rightarrow> int" where
  "child_offset cs =
     (if cap 7 cs \<noteq> None \<and> group 7 cs @ group 8 cs \<noteq> [] then to_number (group 7 cs @ group 8 cs)
      else if group 3 cs = ''odd'' then 1 else 0)"

text \<open>\<open>preFilter.CHILD\<close>; \<open>v\<close> is \<open>match[0]\<close>.\<close>

definition prefilter_CHILD :: "string \<Rightarrow> caps \<Rightarrow> sizzle_error + mval list" where
  "prefilter_CHILD v cs =
     (let type = toLowerCase (group 1 cs)
      in if take 3 type = ''nth'' then
           (if group 3 cs = [] then Inl (Syntax v)
            else Inr [Str type, capv 2 cs, capv 3 cs, Num (child_step cs), Num (child_offset cs),
                      capv 6 cs, capv 7 cs, capv 8 cs])
         else if group 3 cs \<noteq> [] then Inl (Syntax v)
         else Inr [Str type, capv 2 cs, capv 3 cs, capv 4 cs, capv 5 cs, capv 6 cs, capv 7 cs, capv 8 cs])"

text \<open>
  \<open>preFilter.PSEUDO\<close>; \<open>parse\<close> is \<open>tokenize(unquoted, true)\<close>, the length of what is not a selector. The text of
  the match is cut too.
\<close>

definition index_from :: "string \<Rightarrow> char \<Rightarrow> nat \<Rightarrow> int" where
  "index_from s c k = (case find_sub [c] (drop k s) of None \<Rightarrow> -1 | Some i \<Rightarrow> int (k + i))"

definition prefilter_PSEUDO :: "(string \<Rightarrow> sizzle_error + nat) \<Rightarrow> string \<Rightarrow> caps \<Rightarrow> sizzle_error + fmatch" where
  "prefilter_PSEUDO parse v cs =
     (if test re_CHILD v then Inr None
      else if group 3 cs \<noteq> [] then
        Inr (Some (v, [capv 1 cs, Str (if group 4 cs \<noteq> [] then group 4 cs else group 5 cs)]))
      else if group 6 cs = [] \<and> group 2 cs \<noteq> [] \<and> test pseudos (group 2 cs) then
        (let unquoted = group 2 cs
         in case parse unquoted of Inl e \<Rightarrow> Inl e
          | Inr excess \<Rightarrow>
              (let cut = index_from unquoted (CHR '')'') (length unquoted - excess) - int (length unquoted)
               in if excess \<noteq> 0 \<and> cut \<noteq> 0
                  then Inr (Some (slice v 0 cut, [capv 1 cs, Str (slice unquoted 0 cut)]))
                  else Inr (Some (v, [capv 1 cs, capv 2 cs]))))
      else Inr (Some (v, [capv 1 cs, capv 2 cs])))"

definition match_ATTR :: "string \<Rightarrow> sizzle_error + fmatch" where
  "match_ATTR s =
     (case exec_text re_ATTR s of None \<Rightarrow> Inr None
      | Some (v, cs) \<Rightarrow> (case prefilter_ATTR cs of Inl e \<Rightarrow> Inl e | Inr ms \<Rightarrow> Inr (Some (v, ms))))"

definition match_CHILD :: "string \<Rightarrow> sizzle_error + fmatch" where
  "match_CHILD s =
     (case exec_text re_CHILD s of None \<Rightarrow> Inr None
      | Some (v, cs) \<Rightarrow> (case prefilter_CHILD v cs of Inl e \<Rightarrow> Inl e | Inr ms \<Rightarrow> Inr (Some (v, ms))))"

definition match_PSEUDO :: "(string \<Rightarrow> sizzle_error + nat) \<Rightarrow> string \<Rightarrow> sizzle_error + fmatch" where
  "match_PSEUDO parse s =
     (case exec_text re_PSEUDO s of None \<Rightarrow> Inr None | Some (v, cs) \<Rightarrow> prefilter_PSEUDO parse v cs)"

section \<open>tokenize\<close>

text \<open>\<open>matched\<close>, the rest of the selector, and the groups; tokens go to the last group.\<close>

type_synonym tstate = "string \<times> string \<times> token list list"

definition push_token :: "token \<Rightarrow> token list list \<Rightarrow> token list list" where
  "push_token t gs = butlast gs @ [last gs @ [t]]"

definition comma_step :: "bool \<Rightarrow> string \<Rightarrow> token list list \<Rightarrow> string \<times> token list list" where
  "comma_step matched soFar gs =
     (if \<not> matched then (soFar, gs @ [[]])
      else case exec_text rcomma soFar of
             None \<Rightarrow> (soFar, gs)
           | Some (v, cs) \<Rightarrow>
               (if drop (length v) soFar = [] then soFar else drop (length v) soFar, gs @ [[]]))"

definition combinator_step :: "string \<Rightarrow> token list list \<Rightarrow> tstate" where
  "combinator_step soFar gs =
     (case exec_text rcombinators soFar of
        None \<Rightarrow> ([], soFar, gs)
      | Some (v, cs) \<Rightarrow>
          (v, drop (length v) soFar,
           push_token \<lparr>tok_value = v, tok_type = replace_all rtrim (\<lambda>cs. '' '') (group 1 cs), tok_matches = []\<rparr> gs))"

definition filter_step :: "string \<Rightarrow> (string \<Rightarrow> sizzle_error + fmatch) \<Rightarrow> tstate \<Rightarrow> sizzle_error + tstate" where
  "filter_step type f st =
     (case st of (m, soFar, gs) \<Rightarrow>
        (case f soFar of
           Inl e \<Rightarrow> Inl e
         | Inr None \<Rightarrow> Inr st
         | Inr (Some (v, ms)) \<Rightarrow>
             Inr (v, drop (length v) soFar, push_token \<lparr>tok_value = v, tok_type = type, tok_matches = ms\<rparr> gs)))"

fun filter_steps :: "(string \<times> (string \<Rightarrow> sizzle_error + fmatch)) list \<Rightarrow> tstate \<Rightarrow> sizzle_error + tstate" where
  "filter_steps [] st = Inr st"
| "filter_steps ((type, f) # fs) st =
     (case filter_step type f st of Inl e \<Rightarrow> Inl e | Inr st' \<Rightarrow> filter_steps fs st')"

text \<open>
  The filters in the order of \<open>for (type in Expr.filter)\<close>; \<open>ID\<close> is the last, for \<open>setDocument\<close> adds it to the
  others.
\<close>

definition token_filters ::
  "(string \<Rightarrow> sizzle_error + nat) \<Rightarrow> (string \<times> (string \<Rightarrow> sizzle_error + fmatch)) list" where
  "token_filters parse =
     [(''TAG'', plain_filter re_TAG), (''CLASS'', plain_filter re_CLASS), (''ATTR'', match_ATTR),
      (''CHILD'', match_CHILD), (''PSEUDO'', match_PSEUDO parse), (''ID'', plain_filter re_ID)]"

definition token_pass ::
  "(string \<Rightarrow> sizzle_error + nat) \<Rightarrow> bool \<Rightarrow> string \<Rightarrow> token list list \<Rightarrow> sizzle_error + tstate" where
  "token_pass parse matched soFar gs =
     (let (s, gs') = comma_step matched soFar gs
      in filter_steps (token_filters parse) (combinator_step s gs'))"

definition excess_length :: "sizzle_error + string \<times> token list list \<Rightarrow> sizzle_error + nat" where
  "excess_length r = (case r of Inl e \<Rightarrow> Inl e | Inr (s, gs) \<Rightarrow> Inr (length s))"

subsection \<open>The parts get shorter\<close>

text \<open>A capture set by a match is no longer than what the match consumes.\<close>

definition short_caps :: "nat \<Rightarrow> mstate \<Rightarrow> mstate \<Rightarrow> bool" where
  "short_caps l st st' \<longleftrightarrow> (\<forall>n t. (n, t) \<in> set (snd (snd st')) \<longrightarrow> (n, t) \<in> set (snd (snd st)) \<or> length t \<le> l)"

lemma short_caps_trans:
  "short_caps l st st' \<Longrightarrow> short_caps l' st' st'' \<Longrightarrow> l \<le> m \<Longrightarrow> l' \<le> m \<Longrightarrow> short_caps m st st''"
  unfolding short_caps_def by (meson le_trans)

lemma short_caps_clear: "short_caps l (i, s, clear ns cs) st \<Longrightarrow> short_caps l (i, s, cs) st"
  by (auto simp: short_caps_def clear_def)

lemma advances_fst: "advances st st' \<Longrightarrow> fst st \<le> fst st'"
  by (auto simp: advances_def)

lemma rm_short_caps: "st' \<in> set (rm r st) \<Longrightarrow> short_caps (fst st' - fst st) st st'"
proof (induction r st arbitrary: st' rule: rm.induct)
  case (2 p i s cs)
  then show ?case by (auto simp: rm.simps short_caps_def split: list.splits if_splits)
next
  case (3 a b st)
  then obtain m where m: "m \<in> set (rm a st)" "st' \<in> set (rm b m)" by (auto simp: rm.simps)
  show ?case
    by (rule short_caps_trans [OF 3(1) [OF m(1)] 3(2) [OF m]])
      (use advances_fst [OF rm_advances [OF m(1)]] advances_fst [OF rm_advances [OF m(2)]] in auto)
next
  case (4 a b st)
  from 4(3) have "st' \<in> set (rm a st) \<or> st' \<in> set (rm b st)" by (simp add: rm.simps)
  then show ?case using 4(1,2) by blast
next
  case (5 a i s cs)
  from 5(3) consider "st' = (i, s, cs)"
    | m where "m \<in> set (rm a (i, s, clear (groups a) cs))" "length (fst (snd m)) < length s"
        "st' \<in> set (rm (Star a) m)"
    by (fastforce simp: rm.simps(5) [of a i s] split: if_splits)
  then show ?case
  proof cases
    case 2
    obtain i' s' cs' where m: "m = (i', s', cs')" by (cases m)
    show ?thesis
      by (rule short_caps_trans [OF short_caps_clear [OF 5(1) [OF 2(1)]] 5(2) [OF 2(1) m [symmetric] refl 2(2) [unfolded m fst_conv snd_conv] 2(3) [unfolded m], folded m]])
        (use advances_fst [OF rm_advances [OF 2(1)]] advances_fst [OF rm_advances [OF 2(3)]] in auto)
  qed (simp add: short_caps_def)
next
  case (6 a i s cs)
  from 6(3) consider "st' = (i, s, cs)"
    | m where "m \<in> set (rm a (i, s, clear (groups a) cs))" "length (fst (snd m)) < length s"
        "st' \<in> set (rm (Lazy a) m)"
    by (fastforce simp: rm.simps(6) [of a i s] split: if_splits)
  then show ?case
  proof cases
    case 2
    obtain i' s' cs' where m: "m = (i', s', cs')" by (cases m)
    show ?thesis
      by (rule short_caps_trans [OF short_caps_clear [OF 6(1) [OF 2(1)]] 6(2) [OF 2(1) m [symmetric] refl 2(2) [unfolded m fst_conv snd_conv] 2(3) [unfolded m], folded m]])
        (use advances_fst [OF rm_advances [OF 2(1)]] advances_fst [OF rm_advances [OF 2(3)]] in auto)
  qed (simp add: short_caps_def)
next
  case (7 n a i s cs)
  then obtain i' s' cs' where m: "(i', s', cs') \<in> set (rm a (i, s, cs))" "st' = (i', s', (n, take (i' - i) s) # cs')"
    by (auto simp: rm.simps)
  show ?case using 7(1) [OF m(1)] m(2) by (auto simp: short_caps_def)
next
  case (8 n i s cs)
  then show ?case by (auto simp: rm.simps short_caps_def split: option.splits if_splits)
qed (auto simp: rm.simps short_caps_def split: if_splits)

lemma exec_text_Bol:
  "exec_text (Seq Bol r) s = Some (v, cs) \<Longrightarrow>
   \<exists>j t. (j, t, cs) \<in> set (rm r (0, s, [])) \<and> s = v @ t \<and> j = length v"
proof -
  assume "exec_text (Seq Bol r) s = Some (v, cs)"
  then obtain j t sts where "rm r (0, s, []) = (j, t, cs) # sts" "v = take j s"
    by (auto simp: exec_text_def exec_Bol split: list.splits option.splits)
  then have j: "(j, t, cs) \<in> set (rm r (0, s, []))" "v = take j s" by simp_all
  from rm_advances [OF j(1)] obtain u where "s = u @ t" "j = length u" by (auto simp: advances_def)
  with j show ?thesis by auto
qed

lemma exec_text_prefix: "exec_text (Seq Bol r) s = Some (v, cs) \<Longrightarrow> \<exists>t. s = v @ t"
  using exec_text_Bol by blast

lemma pseudo_arg_short:
  assumes "exec_text re_PSEUDO s = Some (v, cs)" "group 2 cs \<noteq> []"
  shows "length (group 2 cs) < length s"
proof -
  obtain j t where j: "(j, t, cs) \<in> set (rm pseudos (0, s, []))" "s = v @ t" "j = length v"
    using exec_text_Bol assms(1) unfolding re_PSEUDO_def by blast
  obtain r where r: "pseudos = Seq (Ch CHR '':'') r" by (simp add: pseudos_def)
  have "(j, t, cs) \<in> set (rm (Seq (Ch CHR '':'') r) (0, s, []))" using j(1) unfolding r .
  then obtain s' where s': "s = CHR '':'' # s'" "(j, t, cs) \<in> set (rm r (1, s', []))"
    by (cases s) (auto simp: rm.simps split: if_splits)
  have "short_caps (j - 1) (1, s', []) (j, t, cs)" using rm_short_caps [OF s'(2)] by simp
  moreover obtain u where "cap 2 cs = Some u" "group 2 cs = u"
    using assms(2) by (auto simp: group_def split: option.splits)
  moreover from this have "(2, u) \<in> set cs" by (simp add: cap_def map_of_SomeD)
  ultimately have "length (group 2 cs) \<le> j - 1" by (auto simp: short_caps_def)
  moreover have "j \<le> length s" "0 < length s" using j(2,3) s'(1) by auto
  ultimately show ?thesis by linarith
qed

lemma match_PSEUDO_cong:
  "(\<And>u. length u < length s \<Longrightarrow> parse u = parse' u) \<Longrightarrow> match_PSEUDO parse s = match_PSEUDO parse' s"
  using pseudo_arg_short [of s] by (auto simp: match_PSEUDO_def prefilter_PSEUDO_def Let_def split: option.splits)

lemma filter_step_length:
  "filter_step type f (m, s, gs) = Inr (m', s', gs') \<Longrightarrow>
   length s' \<le> length s \<and> (m' = m \<and> s' = s \<or> s' = drop (length m') s)"
  by (auto simp: filter_step_def split: sum.splits option.splits)

text \<open>The rest is the old one, or shorter by what was matched last.\<close>

lemma filter_steps_length:
  "filter_steps fs (m, s, gs) = Inr (m', s', gs') \<Longrightarrow> length s' \<le> length s \<and>
    (m' = m \<and> s' = s \<or> (\<exists>q. length q \<le> length s \<and> s' = drop (length m') q))"
proof (induction fs "(m, s, gs)" arbitrary: m s gs rule: filter_steps.induct)
  case (2 type f fs)
  from 2(2) obtain m1 s1 gs1 where st: "filter_step type f (m, s, gs) = Inr (m1, s1, gs1)"
    "filter_steps fs (m1, s1, gs1) = Inr (m', s', gs')"
    by (auto split: sum.splits)
  from filter_step_length [OF st(1)] have 1: "length s1 \<le> length s" "m1 = m \<and> s1 = s \<or> s1 = drop (length m1) s"
    by auto
  from 2(1) [OF st] consider "m' = m1" "s' = s1" | q where "length q \<le> length s1" "s' = drop (length m') q" by blast
  then show ?case
  proof cases
    case 1
    then show ?thesis using \<open>length s1 \<le> length s\<close> \<open>m1 = m \<and> s1 = s \<or> s1 = drop (length m1) s\<close> by auto
  next
    case q: 2
    then have "length q \<le> length s" "length s' \<le> length s" using 1(1) by auto
    then show ?thesis using q(2) by blast
  qed
qed simp

lemma comma_step_length: "comma_step matched s gs = (s', gs') \<Longrightarrow> length s' \<le> length s"
  by (auto simp: comma_step_def split: if_splits option.splits)

lemma combinator_step_length:
  "combinator_step s gs = (m, s', gs') \<Longrightarrow> length s' \<le> length s \<and> s' = drop (length m) s"
  by (auto simp: combinator_step_def split: option.splits)

lemma token_pass_length:
  assumes "token_pass parse matched s gs = Inr (m, s', gs')" "m \<noteq> []" "s \<noteq> []"
  shows "length s' < length s"
proof -
  obtain s1 gs1 where c: "comma_step matched s gs = (s1, gs1)" by (cases "comma_step matched s gs")
  obtain m2 s2 gs2 where d: "combinator_step s1 gs1 = (m2, s2, gs2)" by (cases "combinator_step s1 gs1") auto
  have f: "filter_steps (token_filters parse) (m2, s2, gs2) = Inr (m, s', gs')"
    using assms(1) c d by (simp add: token_pass_def)
  have le: "length s2 \<le> length s" "length s1 \<le> length s" "s2 = drop (length m2) s1"
    using comma_step_length [OF c] combinator_step_length [OF d] by auto
  then obtain q where q: "length q \<le> length s" "s' = drop (length m) q"
    using filter_steps_length [OF f] by (metis le_trans)
  have "length s' = length q - length m" by (simp add: q(2))
  moreover have "0 < length m" "0 < length s" using assms by auto
  ultimately show ?thesis using q(1) by linarith
qed

lemma filter_steps_cong:
  assumes "\<And>u. length u < length s \<Longrightarrow> parse u = parse' u"
  shows "filter_steps (token_filters parse) (m, s, gs) = filter_steps (token_filters parse') (m, s, gs)"
proof -
  have same: "filter_step ''PSEUDO'' (match_PSEUDO parse) (m1, s1, gs1) =
      filter_step ''PSEUDO'' (match_PSEUDO parse') (m1, s1, gs1)" if "length s1 \<le> length s" for m1 s1 gs1
    using match_PSEUDO_cong [of s1 parse parse'] assms that by (simp add: filter_step_def)
  define fs where "fs = [(''TAG'', plain_filter re_TAG), (''CLASS'', plain_filter re_CLASS),
     (''ATTR'', match_ATTR), (''CHILD'', match_CHILD)]"
  have app: "filter_steps (gs @ hs) st = (case filter_steps gs st of Inl e \<Rightarrow> Inl e | Inr st' \<Rightarrow> filter_steps hs st')"
    for gs hs :: "(string \<times> (string \<Rightarrow> sizzle_error + fmatch)) list" and st
    by (induction gs st rule: filter_steps.induct) (auto split: sum.splits)
  have t: "token_filters p = fs @ [(''PSEUDO'', match_PSEUDO p), (''ID'', plain_filter re_ID)]" for p
    by (simp add: token_filters_def fs_def)
  show ?thesis
  proof (cases "filter_steps fs (m, s, gs)")
    case (Inr st)
    obtain m1 s1 gs1 where st: "st = (m1, s1, gs1)" by (cases st)
    with filter_steps_length [of fs m s gs m1 s1 gs1] Inr have "length s1 \<le> length s" by simp
    then show ?thesis using same Inr st by (simp add: t app)
  qed (simp add: t app)
qed

lemma token_pass_cong [fundef_cong]:
  assumes "matched = matched'" "s = s'" "gs = gs'" "\<And>u. length u < length s' \<Longrightarrow> parse u = parse' u"
  shows "token_pass parse matched s gs = token_pass parse' matched' s' gs'"
proof -
  obtain s1 gs1 where c: "comma_step matched s gs = (s1, gs1)" by (cases "comma_step matched s gs")
  obtain m2 s2 gs2 where d: "combinator_step s1 gs1 = (m2, s2, gs2)" by (cases "combinator_step s1 gs1") auto
  have "length s2 \<le> length s" using comma_step_length [OF c] combinator_step_length [OF d] by simp
  then show ?thesis
    using assms c d filter_steps_cong [of s2 parse parse'] by (simp add: token_pass_def)
qed

subsection \<open>The loop\<close>

function token_loop :: "bool \<Rightarrow> string \<Rightarrow> token list list \<Rightarrow> sizzle_error + string \<times> token list list" where
  "token_loop matched soFar gs =
     (if soFar = [] then Inr (soFar, gs)
      else case token_pass (\<lambda>u. excess_length (token_loop False u [])) matched soFar gs of
             Inl e \<Rightarrow> Inl e
           | Inr (m, s, gs') \<Rightarrow> if m = [] then Inr (s, gs') else token_loop True s gs')"
  by pat_completeness auto
termination
  by (relation "measure (\<lambda>(matched, s, gs). length s)") (auto dest: token_pass_length)

declare token_loop.simps [simp del]

definition tokenize :: "string \<Rightarrow> sizzle_error + token list list" where
  "tokenize selector =
     (case token_loop False selector [] of
        Inl e \<Rightarrow> Inl e
      | Inr (soFar, gs) \<Rightarrow> if soFar \<noteq> [] then Inl (Syntax selector) else Inr gs)"

definition toSelector :: "token list \<Rightarrow> string" where
  "toSelector ts = concat (map tok_value ts)"

section \<open>What the tokens are\<close>

text \<open>A string of white space around one comma.\<close>

definition comma_text :: "string \<Rightarrow> bool" where
  "comma_text c \<longleftrightarrow> (\<exists>a b. c = a @ CHR '','' # b \<and> (\<forall>x\<in>set a \<union> set b. ws_char x))"

text \<open>The text of the groups, with a comma between two of them.\<close>

fun covers :: "token list list \<Rightarrow> string \<Rightarrow> bool" where
  "covers [] p \<longleftrightarrow> p = []"
| "covers [g] p \<longleftrightarrow> p = toSelector g"
| "covers (g # gs) p \<longleftrightarrow> (\<exists>c q. p = toSelector g @ c @ q \<and> comma_text c \<and> covers gs q)"

definition text_mval :: "mval \<Rightarrow> bool" where
  "text_mval a \<longleftrightarrow> (\<forall>n. a \<noteq> Num n)"

definition num_mval :: "mval \<Rightarrow> bool" where
  "num_mval a \<longleftrightarrow> (\<exists>n. a = Num n)"

text \<open>
  The shape that the matchers rely on: a combinator has no matches, \<open>TAG\<close>, \<open>CLASS\<close> and \<open>ID\<close> have the name in
  the text, \<open>ATTR\<close> has a name, an operator and a value, a \<open>CHILD\<close> with a formula has its two numbers, and
  \<open>PSEUDO\<close> has a name.
\<close>

definition token_ok :: "token \<Rightarrow> bool" where
  "token_ok t \<longleftrightarrow>
     (let v = tok_value t; ty = tok_type t; ms = tok_matches t
      in relative ty \<noteq> None \<and> v \<noteq> [] \<and> ms = [] \<or>
         ty = ''TAG'' \<and> v \<noteq> [] \<and> ms = [Str v] \<or>
         ty = ''CLASS'' \<and> (\<exists>u. u \<noteq> [] \<and> v = ''.'' @ u \<and> ms = [Str u]) \<or>
         ty = ''ID'' \<and> (\<exists>u. u \<noteq> [] \<and> v = ''#'' @ u \<and> ms = [Str u]) \<or>
         ty = ''ATTR'' \<and> (\<exists>name op check. ms = [Str name, op, Str check] \<and> text_mval op) \<or>
         ty = ''CHILD'' \<and> (\<exists>k as. ms = Str k # as \<and> length as = 7 \<and>
            (if take 3 k = ''nth'' then num_mval (as ! 2) \<and> num_mval (as ! 3) else list_all text_mval as)) \<or>
         ty = ''PSEUDO'' \<and> (\<exists>u a. u \<noteq> [] \<and> ms = [Str u, a] \<and> text_mval a))"

subsection \<open>Matches of the patterns\<close>

lemma capv_text [simp]: "text_mval (capv n cs)"
  by (simp add: capv_def text_mval_def split: option.splits)

text \<open>A pattern without groups leaves the captures alone.\<close>

lemma no_groups_caps: "st' \<in> set (rm r st) \<Longrightarrow> groups r = [] \<Longrightarrow> snd (snd st') = snd (snd st)"
proof (induction r st arbitrary: st' rule: rm.induct)
  case (3 a b st)
  then obtain m where m: "m \<in> set (rm a st)" "st' \<in> set (rm b m)" by (auto simp: rm.simps)
  then show ?case using 3(1) [OF m(1)] 3(2) [OF m] 3(4) by simp
next
  case (4 a b st)
  from 4(3) have "st' \<in> set (rm a st) \<or> st' \<in> set (rm b st)" by (simp add: rm.simps)
  then show ?case using 4(1) [of st'] 4(2) [of st'] 4(4) by auto
next
  case (5 a i s cs)
  from 5(3) consider "st' = (i, s, cs)"
    | i' s' cs' where "(i', s', cs') \<in> set (rm a (i, s, clear (groups a) cs))" "length s' < length s"
        "st' \<in> set (rm (Star a) (i', s', cs'))"
    by (fastforce simp: rm.simps(5) [of a i s] split: if_splits)
  then show ?case
  proof cases
    case 2
    from 5(1) [OF 2(1)] 5(2) [OF 2(1) refl refl 2(2,3)] 5(4) show ?thesis by simp
  qed simp
next
  case (6 a i s cs)
  from 6(3) consider "st' = (i, s, cs)"
    | i' s' cs' where "(i', s', cs') \<in> set (rm a (i, s, clear (groups a) cs))" "length s' < length s"
        "st' \<in> set (rm (Lazy a) (i', s', cs'))"
    by (fastforce simp: rm.simps(6) [of a i s] split: if_splits)
  then show ?case
  proof cases
    case 2
    from 6(1) [OF 2(1)] 6(2) [OF 2(1) refl refl 2(2,3)] 6(4) show ?thesis by simp
  qed simp
next
  case (8 n i s cs)
  then show ?case by (auto simp: rm.simps split: option.splits if_splits)
qed (auto simp: rm.simps split: list.splits if_splits)

lemma rm_identifier:
  assumes "(j, t, ds) \<in> set (rm re_identifier (i, s, cs))"
  shows "i < j \<and> ds = cs"
proof -
  have no: "groups re_identifier = []" by (simp add: re_identifier_def Dot_def)
  define r where "r = Alt (Seq (Ch backslash) Dot)
    (Alt (Cls (\<lambda>c. is_word c \<or> c = CHR ''-'')) (Cls (\<lambda>c. 160 < code c)))"
  have r: "i < fst m" if "m \<in> set (rm r (i, s, cs))" for m
    using that by (auto simp: r_def rm.simps Dot_def split: list.splits if_splits)
  from assms obtain m where m: "m \<in> set (rm r (i, s, cs))" "(j, t, ds) \<in> set (rm (Star r) m)"
    by (auto simp: re_identifier_def r_def rm.simps(3))
  from advances_fst [OF rm_advances [OF m(2)]] r [OF m(1)] no_groups_caps [OF assms no] show ?thesis by simp
qed

lemma plain_filter_match:
  assumes "plain_filter re_TAG s = Inr (Some (v, ms))"
  shows "v \<noteq> [] \<and> ms = [Str v]"
proof -
  obtain cs where cs: "exec_text re_TAG s = Some (v, cs)" "ms = [capv 1 cs]"
    using assms by (auto simp: plain_filter_def)
  obtain j t where j: "(j, t, cs) \<in> set (rm (Grp 1 (Alt re_identifier (Ch CHR ''*''))) (0, s, []))"
    "s = v @ t" "j = length v"
    using exec_text_Bol cs(1) unfolding re_TAG_def by blast
  from j(1) obtain ds where ds: "(j, t, ds) \<in> set (rm (Alt re_identifier (Ch CHR ''*'')) (0, s, []))"
    "cs = (1, take j s) # ds"
    by (auto simp: rm.simps(7))
  have "0 < j" using ds(1) rm_identifier [of j t ds 0 s "[]"] by (auto simp: rm.simps split: list.splits if_splits)
  then show ?thesis using j(2,3) cs(2) ds(2) by (auto simp: capv_def cap_def)
qed

text \<open>A mark followed by a name.\<close>

lemma marked_filter_match:
  assumes "plain_filter (Seq Bol (Seq (Ch c) (Grp 1 re_identifier))) s = Inr (Some (v, ms))"
  shows "\<exists>u. u \<noteq> [] \<and> v = c # u \<and> ms = [Str u]"
proof -
  obtain cs where cs: "exec_text (Seq Bol (Seq (Ch c) (Grp 1 re_identifier))) s = Some (v, cs)" "ms = [capv 1 cs]"
    using assms by (auto simp: plain_filter_def)
  obtain j t where j: "(j, t, cs) \<in> set (rm (Seq (Ch c) (Grp 1 re_identifier)) (0, s, []))"
    "s = v @ t" "j = length v"
    using exec_text_Bol cs(1) by blast
  from j(1) obtain s' where s': "s = c # s'" "(j, t, cs) \<in> set (rm (Grp 1 re_identifier) (1, s', []))"
    by (cases s) (auto simp: rm.simps(2,3) split: if_splits)
  from s'(2) obtain ds where ds: "(j, t, ds) \<in> set (rm re_identifier (1, s', []))" "cs = (1, take (j - 1) s') # ds"
    by (auto simp: rm.simps(7))
  have "1 < j" using rm_identifier [OF ds(1)] by simp
  with j(2,3) s'(1) obtain u where u: "v = c # u" "s' = u @ t" "u \<noteq> []" by (cases v) auto
  with cs(2) ds(2) j(3) show ?thesis by (simp add: capv_def cap_def)
qed

lemma pseudo_name:
  assumes "exec_text re_PSEUDO s = Some (v, cs)"
  shows "\<exists>u. u \<noteq> [] \<and> capv 1 cs = Str u"
proof -
  obtain r where r: "pseudos = Seq (Ch CHR '':'') (Seq (Grp 1 re_identifier) r)" "1 \<notin> set (groups r)"
    by (auto simp: pseudos_def quoted_def attributes_def re_identifier_def Dot_def whitespace_def)
  obtain j t where "(j, t, cs) \<in> set (rm pseudos (0, s, []))"
    using exec_text_Bol assms unfolding re_PSEUDO_def by blast
  then obtain s' m where m: "s = CHR '':'' # s'" "m \<in> set (rm (Grp 1 re_identifier) (1, s', []))"
    "(j, t, cs) \<in> set (rm r m)"
    unfolding r(1) by (cases s) (auto simp: rm.simps(2,3) split: if_splits)
  from m(2) obtain k q ds where ds: "(k, q, ds) \<in> set (rm re_identifier (1, s', []))" "m = (k, q, (1, take (k - 1) s') # ds)"
    by (auto simp: rm.simps(7))
  have "1 < k" using rm_identifier [OF ds(1)] by simp
  moreover have "take (k - 1) s' \<noteq> []" using \<open>1 < k\<close> rm_advances [OF ds(1)] by (auto simp: advances_def)
  moreover have "cap 1 cs = Some (take (k - 1) s')" using rm_cap [OF m(3) r(2)] ds(2) by (simp add: cap_def)
  ultimately show ?thesis by (simp add: capv_def)
qed

lemma slice_0_prefix: "\<exists>t. s = slice s 0 k @ t"
  by (rule exI [of _ "drop (from_end s k) s"]) (simp add: slice_def from_end_def)

lemma prefilter_CHILD_shape:
  assumes "prefilter_CHILD v cs = Inr ms"
  shows "\<exists>k as. ms = Str k # as \<and> length as = 7 \<and>
    (if take 3 k = ''nth'' then num_mval (as ! 2) \<and> num_mval (as ! 3) else list_all text_mval as)"
proof (cases "take 3 (toLowerCase (group 1 cs)) = ''nth''")
  case True
  with assms have "ms = Str (toLowerCase (group 1 cs)) # [capv 2 cs, capv 3 cs, Num (child_step cs),
      Num (child_offset cs), capv 6 cs, capv 7 cs, capv 8 cs]"
    by (simp add: prefilter_CHILD_def Let_def split: if_split_asm)
  with True show ?thesis by (simp add: num_mval_def)
next
  case False
  with assms have "ms = Str (toLowerCase (group 1 cs)) # [capv 2 cs, capv 3 cs, capv 4 cs, capv 5 cs,
      capv 6 cs, capv 7 cs, capv 8 cs]"
    by (simp add: prefilter_CHILD_def Let_def split: if_split_asm)
  with False show ?thesis by simp
qed

definition filter_good :: "string \<Rightarrow> (string \<Rightarrow> sizzle_error + fmatch) \<Rightarrow> bool" where
  "filter_good ty f \<longleftrightarrow>
     (\<forall>s v ms. f s = Inr (Some (v, ms)) \<longrightarrow>
        (\<exists>t. s = v @ t) \<and> token_ok \<lparr>tok_value = v, tok_type = ty, tok_matches = ms\<rparr>)"

lemma plain_filter_prefix: "plain_filter (Seq Bol r) s = Inr (Some (v, ms)) \<Longrightarrow> \<exists>t. s = v @ t"
  using exec_text_prefix [of r s v] by (auto simp: plain_filter_def)

lemma good_TAG: "filter_good ''TAG'' (plain_filter re_TAG)"
  using plain_filter_match plain_filter_prefix unfolding filter_good_def re_TAG_def
  by (fastforce simp: token_ok_def)

lemma good_CLASS: "filter_good ''CLASS'' (plain_filter re_CLASS)"
  using marked_filter_match [of "CHR ''.''"] plain_filter_prefix unfolding filter_good_def re_CLASS_def
  by (fastforce simp: token_ok_def)

lemma good_ID: "filter_good ''ID'' (plain_filter re_ID)"
  using marked_filter_match [of "CHR ''#''"] plain_filter_prefix unfolding filter_good_def re_ID_def
  by (fastforce simp: token_ok_def)

lemma good_ATTR: "filter_good ''ATTR'' match_ATTR"
  unfolding filter_good_def
proof (intro allI impI)
  fix s v ms
  assume "match_ATTR s = Inr (Some (v, ms))"
  then obtain cs where c: "exec_text re_ATTR s = Some (v, cs)" "prefilter_ATTR cs = Inr ms"
    by (auto simp: match_ATTR_def split: option.splits sum.splits)
  from c(2) obtain name check where "ms = [Str name, capv 2 cs, Str check]"
    by (auto simp: prefilter_ATTR_def split: sum.splits)
  then have "token_ok \<lparr>tok_value = v, tok_type = ''ATTR'', tok_matches = ms\<rparr>" by (simp add: token_ok_def)
  with c(1) show "(\<exists>t. s = v @ t) \<and> token_ok \<lparr>tok_value = v, tok_type = ''ATTR'', tok_matches = ms\<rparr>"
    using exec_text_prefix unfolding re_ATTR_def by blast
qed

lemma good_CHILD: "filter_good ''CHILD'' match_CHILD"
  unfolding filter_good_def
proof (intro allI impI)
  fix s v ms
  assume "match_CHILD s = Inr (Some (v, ms))"
  then obtain cs where c: "exec_text re_CHILD s = Some (v, cs)" "prefilter_CHILD v cs = Inr ms"
    by (auto simp: match_CHILD_def split: option.splits sum.splits)
  have "\<exists>t. s = v @ t" using c(1) exec_text_prefix unfolding re_CHILD_def by blast
  with prefilter_CHILD_shape [OF c(2)]
  show "(\<exists>t. s = v @ t) \<and> token_ok \<lparr>tok_value = v, tok_type = ''CHILD'', tok_matches = ms\<rparr>"
    by (simp add: token_ok_def)
qed

lemma prefilter_PSEUDO_shape:
  assumes "prefilter_PSEUDO parse w cs = Inr (Some (v, ms))"
  shows "(v = w \<or> (\<exists>k. v = slice w 0 k)) \<and> (\<exists>a. ms = [capv 1 cs, a] \<and> text_mval a)"
proof -
  have str: "text_mval (Str x)" for x by (simp add: text_mval_def)
  show ?thesis using assms str capv_text [of 2 cs]
    unfolding prefilter_PSEUDO_def Let_def by (auto split: if_split_asm sum.split_asm)
qed

lemma good_PSEUDO: "filter_good ''PSEUDO'' (match_PSEUDO parse)"
  unfolding filter_good_def
proof (intro allI impI)
  fix s v ms
  assume "match_PSEUDO parse s = Inr (Some (v, ms))"
  then obtain w cs where c: "exec_text re_PSEUDO s = Some (w, cs)"
    "prefilter_PSEUDO parse w cs = Inr (Some (v, ms))"
    by (auto simp: match_PSEUDO_def split: option.splits)
  note v = prefilter_PSEUDO_shape [OF c(2)]
  have "\<exists>t. w = v @ t" using v slice_0_prefix by auto
  moreover have "\<exists>t. s = w @ t" using c(1) exec_text_prefix unfolding re_PSEUDO_def by blast
  ultimately have "\<exists>t. s = v @ t" by auto
  with v pseudo_name [OF c(1)]
  show "(\<exists>t. s = v @ t) \<and> token_ok \<lparr>tok_value = v, tok_type = ''PSEUDO'', tok_matches = ms\<rparr>"
    by (auto simp: token_ok_def)
qed

lemma token_filters_good: "list_all (\<lambda>(ty, f). filter_good ty f) (token_filters parse)"
  by (simp add: token_filters_def good_TAG good_CLASS good_ATTR good_CHILD good_PSEUDO good_ID)

text \<open>The type of a combinator: one of the four, white space being cast to a space.\<close>

lemma combinator_chars:
  assumes "ws_char c \<or> c \<in> set ''>+~''"
  shows "relative (replace_all rtrim (\<lambda>cs. '' '') [c]) \<noteq> None"
proof -
  have "ws_char c \<Longrightarrow> c \<in> {CHR 0x20, CHR 0x09, CHR 0x0D, CHR 0x0A, CHR 0x0C}"
    by (auto simp: ws_char_def code_eq_iff [symmetric] code_def)
  with assms have "c \<in> set [CHR 0x20, CHR 0x09, CHR 0x0D, CHR 0x0A, CHR 0x0C, CHR ''>'', CHR ''+'', CHR ''~'']"
    by auto
  moreover have "\<forall>c\<in>set [CHR 0x20, CHR 0x09, CHR 0x0D, CHR 0x0A, CHR 0x0C, CHR ''>'', CHR ''+'', CHR ''~''].
      relative (replace_all rtrim (\<lambda>cs. '' '') [c]) \<noteq> None"
    by code_simp
  ultimately show ?thesis by blast
qed

lemma combinator_match:
  assumes "exec_text rcombinators s = Some (v, cs)"
  shows "\<exists>t. s = v @ t \<and> v \<noteq> [] \<and> (\<forall>x\<in>set v. ws_char x \<or> x \<in> set ''>+~'') \<and>
    relative (replace_all rtrim (\<lambda>cs. '' '') (group 1 cs)) \<noteq> None"
proof -
  obtain j t where j: "(j, t, cs) \<in> set (rm (Seq (Star whitespace)
      (Seq (Grp 1 (Alt (Cls (\<lambda>c. c \<in> set ''>+~'')) whitespace)) (Star whitespace))) (0, s, []))"
    "s = v @ t" "j = length v"
    using exec_text_Bol assms unfolding rcombinators_def by blast
  from j(1) obtain a c b where w: "s = a @ c # b @ t" "j = Suc (length a + length b)"
    "\<forall>x\<in>set a \<union> set b. ws_char x" "ws_char c \<or> c \<in> set ''>+~''" "cs = [(1, [c])]"
    by (auto simp: rm.simps(2,3,4,7) whitespace_def rm_Star_Cls star_cls_iff split: list.splits if_splits) blast+
  have "v @ t = (a @ c # b) @ t" using j(2) w(1) by simp
  then have "v = a @ c # b" by (rule append_same_eq [THEN iffD1])
  moreover have "group 1 cs = [c]" by (simp add: w(5) group_def cap_def)
  ultimately show ?thesis using j(2) w combinator_chars [OF w(4)] by auto
qed

lemma combinator_token_ok:
  assumes "exec_text rcombinators s = Some (v, cs)"
  shows "token_ok \<lparr>tok_value = v, tok_type = replace_all rtrim (\<lambda>cs. '' '') (group 1 cs), tok_matches = []\<rparr>"
  using combinator_match [OF assms] by (auto simp: token_ok_def)

lemma comma_match:
  assumes "exec_text rcomma s = Some (v, cs)"
  shows "\<exists>t. s = v @ t \<and> comma_text v"
proof -
  obtain j t where j: "(j, t, cs) \<in> set (rm (Seq (Star whitespace) (Seq (Ch CHR '','') (Star whitespace))) (0, s, []))"
    "s = v @ t" "j = length v"
    using exec_text_Bol assms unfolding rcomma_def by blast
  from j(1) obtain a b where w: "s = a @ CHR '','' # b @ t" "j = Suc (length a + length b)"
    "\<forall>x\<in>set a \<union> set b. ws_char x"
    by (auto simp: rm.simps(2,3) whitespace_def rm_Star_Cls star_cls_iff split: list.splits if_splits) blast
  have "v @ t = (a @ CHR '','' # b) @ t" using j(2) w(1) by simp
  then have "v = a @ CHR '','' # b" by (rule append_same_eq [THEN iffD1])
  then show ?thesis using j(2) w(3) by (auto simp: comma_text_def)
qed

subsection \<open>A trailing comma\<close>

text \<open>
  A comma at the end is not consumed, and no filter takes white space or a comma: the loop breaks off and the
  selector is an error.
\<close>

lemma sep_char:
  assumes "ws_char c \<or> c = CHR '',''"
  shows "\<not> is_word c" "c \<noteq> CHR ''-''" "c \<noteq> backslash" "\<not> 160 < code c" "c \<noteq> CHR ''*''" "c \<noteq> CHR ''.''"
    "c \<noteq> CHR ''[''" "c \<noteq> CHR '':''" "c \<noteq> CHR ''#''"
proof -
  have "code c \<in> {32, 9, 13, 10, 12, 44}" using assms by (auto simp: ws_char_def code_def)
  then show "\<not> is_word c" "c \<noteq> CHR ''-''" "c \<noteq> backslash" "\<not> 160 < code c" "c \<noteq> CHR ''*''" "c \<noteq> CHR ''.''"
    "c \<noteq> CHR ''[''" "c \<noteq> CHR '':''" "c \<noteq> CHR ''#''"
    by (auto simp: is_word_def Let_def code_def)
qed

lemma exec_text_first: "c \<noteq> d \<Longrightarrow> exec_text (Seq Bol (Seq (Ch d) r)) (c # s) = None"
  by (simp add: exec_text_def exec_Bol rm.simps(2,3))

lemma filters_sep:
  assumes "ws_char c \<or> c = CHR '',''"
  shows "list_all (\<lambda>(ty, f). f (c # s) = Inr None) (token_filters parse)"
proof -
  note c = sep_char [OF assms]
  have "rm (Grp 1 (Alt re_identifier (Ch CHR ''*''))) (0, c # s, []) = []"
    using c(1-5) by (simp add: re_identifier_def rm.simps(2,3,4,7))
  then have "exec_text re_TAG (c # s) = None" by (simp add: re_TAG_def exec_text_def exec_Bol)
  moreover have "exec_text re_CLASS (c # s) = None" "exec_text re_ID (c # s) = None"
    "exec_text re_ATTR (c # s) = None" "exec_text re_CHILD (c # s) = None" "exec_text re_PSEUDO (c # s) = None"
    using c(6-9) by (simp_all add: re_CLASS_def re_ID_def re_ATTR_def attributes_def re_CHILD_def re_PSEUDO_def
        pseudos_def exec_text_first)
  ultimately show ?thesis
    by (simp add: token_filters_def plain_filter_def match_ATTR_def match_CHILD_def match_PSEUDO_def)
qed

lemma star_cls_all:
  "\<forall>x\<in>set a. p x \<Longrightarrow> (case s of [] \<Rightarrow> True | c # _ \<Rightarrow> \<not> p c) \<Longrightarrow>
   \<exists>rest. star_cls p i (a @ s) cs = (i + length a, s, cs) # rest"
proof (induction a arbitrary: i)
  case Nil
  then show ?case by (cases s) auto
next
  case (Cons c a)
  then show ?case using Cons.IH [of "Suc i"] by auto
qed

lemma comma_greedy:
  assumes "comma_text s"
  shows "\<exists>cs. exec_text rcomma s = Some (s, cs)"
proof -
  obtain a b where s: "s = a @ CHR '','' # b" "\<forall>x\<in>set a \<union> set b. ws_char x"
    using assms by (auto simp: comma_text_def)
  have no: "\<not> ws_char CHR '',''" by (simp add: ws_char_def code_def)
  obtain r1 where r1: "star_cls ws_char 0 s [] = (length a, CHR '','' # b, []) # r1"
    using star_cls_all [of a ws_char "CHR '','' # b" 0 "[]"] s no by auto
  obtain r2 where r2: "star_cls ws_char (Suc (length a)) b [] = (Suc (length a) + length b, [], []) # r2"
    using star_cls_all [of b ws_char "[]" "Suc (length a)" "[]"] s(2) by auto
  have "\<exists>r. rm (Seq (Star whitespace) (Seq (Ch CHR '','') (Star whitespace))) (0, s, []) =
      (Suc (length a) + length b, [], []) # r"
    by (simp add: rm.simps(2,3) whitespace_def rm_Star_Cls r1 r2)
  then show ?thesis by (auto simp: rcomma_def exec_text_def exec_Bol s(1))
qed

subsection \<open>The text and the shape of the tokens\<close>

lemma covers_push: "covers (gs @ [g]) p \<Longrightarrow> covers (gs @ [g @ [t]]) (p @ tok_value t)"
proof (induction gs arbitrary: p)
  case (Cons h gs)
  then obtain c q where q: "p = toSelector h @ c @ q" "comma_text c" "covers (gs @ [g]) q"
    by (cases "gs @ [g]") auto
  from Cons.IH [OF q(3)] q show ?case by (cases "gs @ [g @ [t]]") auto
qed (simp add: toSelector_def)

lemma covers_comma: "covers (gs @ [g]) p \<Longrightarrow> comma_text c \<Longrightarrow> covers (gs @ [g, []]) (p @ c)"
proof (induction gs arbitrary: p)
  case Nil
  then show ?case by (auto simp: toSelector_def)
next
  case (Cons h gs)
  then obtain d q where q: "p = toSelector h @ d @ q" "comma_text d" "covers (gs @ [g]) q"
    by (cases "gs @ [g]") auto
  from Cons.IH [OF q(3) Cons.prems(2)] q show ?case by (cases "gs @ [g, []]") auto
qed

text \<open>What holds between two steps of the loop on \<open>sel\<close>.\<close>

definition tokens_inv :: "string \<Rightarrow> tstate \<Rightarrow> bool" where
  "tokens_inv sel st \<longleftrightarrow>
     (case st of (m, s, gs) \<Rightarrow>
        gs \<noteq> [] \<and> (\<forall>g\<in>set gs. \<forall>t\<in>set g. token_ok t) \<and> (\<forall>g\<in>set (butlast gs). g \<noteq> []) \<and>
        (m \<noteq> [] \<longrightarrow> last gs \<noteq> []) \<and> (last gs = [] \<longrightarrow> s \<noteq> []) \<and>
        (comma_text s \<or> (\<exists>p. sel = p @ s \<and> covers gs p)))"

lemma push_inv:
  assumes "tokens_inv sel (m, s, gs)" "token_ok t" "s = tok_value t @ s'"
    and "comma_text s \<Longrightarrow> comma_text s'"
  shows "tokens_inv sel (m', s', push_token t gs)"
proof -
  have gs: "gs \<noteq> []" "gs = butlast gs @ [last gs]" using assms(1) by (auto simp: tokens_inv_def)
  have "covers (push_token t gs) (p @ tok_value t)" if "covers gs p" for p
    using covers_push [of "butlast gs" "last gs" p t] gs that by (simp add: push_token_def)
  moreover have "\<forall>g\<in>set (push_token t gs). \<forall>t\<in>set g. token_ok t"
    using assms(1,2) gs(1) by (auto simp: tokens_inv_def push_token_def dest: in_set_butlastD)
  moreover have "comma_text s' \<or> (\<exists>p. sel = p @ s' \<and> covers (push_token t gs) p)"
  proof (cases "comma_text s")
    case False
    with assms(1) obtain p where "sel = p @ s" "covers gs p" by (auto simp: tokens_inv_def)
    with calculation(1) have "sel = (p @ tok_value t) @ s'" "covers (push_token t gs) (p @ tok_value t)"
      by (simp_all add: assms(3))
    then show ?thesis by blast
  qed (simp add: assms(4))
  ultimately show ?thesis using assms(1) by (simp add: tokens_inv_def push_token_def)
qed

lemma comma_text_Cons: "comma_text s \<Longrightarrow> \<exists>c r. s = c # r \<and> (ws_char c \<or> c = CHR '','')"
proof -
  assume "comma_text s"
  then obtain a b where "s = a @ CHR '','' # b" "\<forall>x\<in>set a \<union> set b. ws_char x"
    unfolding comma_text_def by blast
  then show "\<exists>c r. s = c # r \<and> (ws_char c \<or> c = CHR '','')" by (cases a) auto
qed

lemma filter_step_inv:
  assumes "tokens_inv sel (m, s, gs)" "(ty, f) \<in> set (token_filters parse)"
    "filter_step ty f (m, s, gs) = Inr st'"
  shows "tokens_inv sel st'"
proof (cases "f s")
  case (Inr r)
  show ?thesis
  proof (cases r)
    case None
    with Inr assms show ?thesis by (simp add: filter_step_def)
  next
    case (Some vm)
    obtain v ms where vm: "vm = (v, ms)" by (cases vm)
    have good: "filter_good ty f" using token_filters_good assms(2) by (auto simp: list_all_iff)
    then have "(\<exists>t. s = v @ t) \<and> token_ok \<lparr>tok_value = v, tok_type = ty, tok_matches = ms\<rparr>"
      using Inr Some vm by (simp add: filter_good_def)
    then obtain t where t: "s = v @ t" "token_ok \<lparr>tok_value = v, tok_type = ty, tok_matches = ms\<rparr>" by blast
    have "\<not> comma_text s"
    proof
      assume "comma_text s"
      then obtain c r where "s = c # r" "ws_char c \<or> c = CHR '',''" using comma_text_Cons by blast
      with filters_sep [of c r parse] assms(2) Inr Some show False by (auto simp: list_all_iff)
    qed
    then have "tokens_inv sel (v, t, push_token \<lparr>tok_value = v, tok_type = ty, tok_matches = ms\<rparr> gs)"
      using push_inv [OF assms(1) t(2), of t] t(1) by simp
    with assms(3) Inr Some vm t(1) show ?thesis by (simp add: filter_step_def)
  qed
qed (use assms(3) in \<open>simp add: filter_step_def\<close>)

lemma filter_steps_inv:
  "tokens_inv sel st \<Longrightarrow> set fs \<subseteq> set (token_filters parse) \<Longrightarrow> filter_steps fs st = Inr st' \<Longrightarrow> tokens_inv sel st'"
proof (induction fs st rule: filter_steps.induct)
  case (2 type f fs st)
  obtain m s gs where st: "st = (m, s, gs)" by (cases st)
  from 2(4) obtain st1 where st1: "filter_step type f st = Inr st1" "filter_steps fs st1 = Inr st'"
    by (auto split: sum.splits)
  have "tokens_inv sel st1" by (rule filter_step_inv [of sel m s gs type f]) (use 2(2,3) st st1(1) in auto)
  then show ?case using 2(1) [OF st1(1)] 2(3) st1(2) by simp
qed simp

lemma combinator_step_inv:
  assumes "tokens_inv sel ([], s, gs)"
  shows "tokens_inv sel (combinator_step s gs)"
proof (cases "exec_text rcombinators s")
  case None
  then show ?thesis using assms by (simp add: combinator_step_def)
next
  case (Some vc)
  obtain v cs where vc: "vc = (v, cs)" by (cases vc)
  obtain t where t: "s = v @ t" "\<forall>x\<in>set v. ws_char x \<or> x \<in> set ''>+~''"
    using combinator_match Some vc by blast
  have "comma_text t" if c: "comma_text s"
  proof -
    obtain a b where s: "s = a @ CHR '','' # b" "\<forall>x\<in>set a \<union> set b. ws_char x"
      using c unfolding comma_text_def by blast
    have "CHR '','' \<notin> set v" using t(2) by (auto simp: ws_char_def code_def)
    then obtain a' where "a = v @ a'" "t = a' @ CHR '','' # b"
      using s(1) t(1) by (auto simp: append_eq_append_conv2 append_eq_Cons_conv)
    then show ?thesis using s(2) by (auto simp: comma_text_def)
  qed
  from push_inv [OF assms combinator_token_ok [OF Some [unfolded vc]], of t, OF _ this] show ?thesis
    using Some vc t(1) by (simp add: combinator_step_def)
qed

lemma comma_step_first: "tokens_inv s ([], s', gs')" if "comma_step False s [] = (s', gs')" "s \<noteq> []"
  using that by (auto simp: comma_step_def tokens_inv_def toSelector_def)

lemma comma_step_inv:
  assumes "tokens_inv sel (m, s, gs)" "m \<noteq> []" "s \<noteq> []" "comma_step True s gs = (s', gs')"
  shows "tokens_inv sel ([], s', gs')"
proof (cases "exec_text rcomma s")
  case None
  with assms show ?thesis by (simp add: comma_step_def tokens_inv_def)
next
  case (Some vc)
  obtain v cs where vc: "vc = (v, cs)" by (cases vc)
  obtain t where t: "s = v @ t" "comma_text v" using comma_match Some vc by blast
  have gs: "gs' = gs @ [[]]" "s' = (if t = [] then s else t)" "gs \<noteq> []" "last gs \<noteq> []"
    using assms Some vc t(1) by (auto simp: comma_step_def tokens_inv_def)
  have all: "\<forall>g\<in>set gs. g \<noteq> []"
  proof -
    have "set gs = set (butlast gs @ [last gs])" using gs(3) by simp
    then show ?thesis using assms(1) gs(4) by (simp add: tokens_inv_def)
  qed
  have "comma_text s' \<or> (\<exists>p. sel = p @ s' \<and> covers gs' p)"
  proof (cases "comma_text s")
    case True
    with comma_greedy [OF this] Some vc t(1) have "t = []" by simp
    with True gs(2) show ?thesis by simp
  next
    case False
    with t have "t \<noteq> []" by auto
    from False assms(1) obtain p where p: "sel = p @ s" "covers gs p" by (auto simp: tokens_inv_def)
    have eq: "butlast gs @ [last gs, []] = gs @ [[]]"
      using append_butlast_last_id [OF gs(3)] by (metis append_Cons append_Nil append_assoc)
    have "covers (butlast gs @ [last gs]) p" using p(2) gs(3) by simp
    from covers_comma [OF this t(2)] have "covers gs' (p @ v)" unfolding eq gs(1) .
    with p(1) t(1) gs(2) \<open>t \<noteq> []\<close> show ?thesis by auto
  qed
  then show ?thesis using assms(1,3) gs all by (auto simp: tokens_inv_def)
qed

lemma token_pass_inv:
  assumes "comma_step matched s gs = (s1, gs1)" "tokens_inv sel ([], s1, gs1)"
    and "token_pass parse matched s gs = Inr st'"
  shows "tokens_inv sel st'"
  using assms filter_steps_inv [OF combinator_step_inv [OF assms(2)] subset_refl, of parse st']
  by (simp add: token_pass_def)

lemma token_loop_inv:
  "token_loop matched s gs = Inr (s', gs') \<Longrightarrow> s \<noteq> [] \<Longrightarrow>
   (if matched then \<exists>m. m \<noteq> [] \<and> tokens_inv sel (m, s, gs) else gs = [] \<and> sel = s) \<Longrightarrow>
   \<exists>m. tokens_inv sel (m, s', gs')"
proof (induction matched s gs rule: token_loop.induct)
  case (1 matched s gs)
  obtain m s2 gs2 where pass: "token_pass (\<lambda>u. excess_length (token_loop False u [])) matched s gs = Inr (m, s2, gs2)"
    and rest: "(if m = [] then Inr (s2, gs2) else token_loop True s2 gs2) = Inr (s', gs')"
    using 1(3,4) by (subst (asm) token_loop.simps) (auto split: sum.splits)
  obtain s1 gs1 where c: "comma_step matched s gs = (s1, gs1)" by (cases "comma_step matched s gs")
  have "tokens_inv sel ([], s1, gs1)"
    using 1(4,5) c comma_step_inv comma_step_first [of s s1 gs1] by (cases matched) auto
  from token_pass_inv [OF c this pass] have inv: "tokens_inv sel (m, s2, gs2)" .
  show ?case
  proof (cases "m = [] \<or> s2 = []")
    case True
    with rest inv show ?thesis by (auto simp: token_loop.simps [of True "[]"] split: if_splits)
  next
    case False
    with 1(2) [OF 1(4) pass refl refl] rest inv show ?thesis by auto
  qed
qed

lemma tokenize_inv:
  assumes "tokenize s = Inr gs" "s \<noteq> []"
  shows "\<exists>m. tokens_inv s (m, [], gs)"
  using assms token_loop_inv [of False s "[]" "[]" gs s] by (auto simp: tokenize_def split: sum.splits if_splits)

lemma tokens_typed:
  assumes "tokenize s = Inr gs"
  shows "\<forall>g\<in>set gs. g \<noteq> [] \<and> (\<forall>t\<in>set g. token_ok t)"
proof (cases "s = []")
  case True
  then show ?thesis using assms by (simp add: tokenize_def token_loop.simps)
next
  case False
  from tokenize_inv [OF assms False] obtain m where inv: "tokens_inv s (m, [], gs)" by blast
  then have "gs \<noteq> []" "last gs \<noteq> []" by (auto simp: tokens_inv_def)
  have "g \<noteq> [] \<and> (\<forall>t\<in>set g. token_ok t)" if "g \<in> set gs" for g
  proof -
    have "g \<in> set (butlast gs @ [last gs])" using that \<open>gs \<noteq> []\<close> by simp
    then have "g \<noteq> []" using inv \<open>last gs \<noteq> []\<close> unfolding tokens_inv_def by auto
    with inv that show ?thesis unfolding tokens_inv_def by auto
  qed
  then show ?thesis by blast
qed

section \<open>Properties\<close>

text \<open>
  C8: The texts of the tokens of a selector, with a comma and the white space around it between two groups,
  are the selector: the tokenizer loses nothing, and \<open>toSelector\<close> of a selector of one group is the selector.
\<close>

theorem tokenize_covers:
  assumes "tokenize s = Inr gs"
  shows "covers gs s \<and> (length gs = 1 \<longrightarrow> toSelector (hd gs) = s)"
proof (cases "s = []")
  case True
  then have "gs = []" using assms by (simp add: tokenize_def token_loop.simps)
  then show ?thesis using True by simp
next
  case False
  have "\<not> comma_text []" by (simp add: comma_text_def)
  with tokenize_inv [OF assms False] have "covers gs s" by (auto simp: tokens_inv_def)
  then show ?thesis by (auto simp: length_Suc_conv)
qed

text \<open>
  C18: Every group of a tokenized selector has a token, and every token has the shape its type requires: the
  type is a combinator without matches, or a filter with the matches that the filter reads (for a formula of
  \<open>CHILD\<close> its step and offset as numbers).
\<close>

theorem tokenize_types:
  assumes "tokenize s = Inr gs"
  shows "\<forall>g\<in>set gs. g \<noteq> [] \<and> (\<forall>t\<in>set g. token_ok t)"
  using assms by (rule tokens_typed)

definition demo_selector :: string where
  "demo_selector = ''b''"

lemma demo_tokens:
  "tokenize demo_selector =
   Inr [[\<lparr>tok_value = ''b'', tok_type = ''TAG'', tok_matches = [Str ''b'']\<rparr>]]"
  by code_simp

lemma tokenize_covers_witness:
  "covers [[\<lparr>tok_value = ''b'', tok_type = ''TAG'', tok_matches = [Str ''b'']\<rparr>]] demo_selector"
  using tokenize_covers [OF demo_tokens] by simp

lemma tokenize_types_witness:
  "token_ok \<lparr>tok_value = ''b'', tok_type = ''TAG'', tok_matches = [Str ''b'']\<rparr>"
  using tokenize_types [OF demo_tokens] by simp

text \<open>
  The pattern of \<open>CHILD\<close> ignores case, but its pre-filter compares with lower-case words only: an \<open>EVEN\<close> in
  capitals gets step and offset 0.
\<close>

lemma even_in_capitals:
  "match_CHILD '':nth-child(EVEN)'' =
     Inr (Some ('':nth-child(EVEN)'', [Str ''nth'', Str ''child'', Str ''EVEN'', Num 0, Num 0, Undef, Undef, Undef])) \<and>
   match_CHILD '':nth-child(even)'' =
     Inr (Some ('':nth-child(even)'', [Str ''nth'', Str ''child'', Str ''even'', Num 2, Num 0, Undef, Undef, Undef]))"
  by code_simp

end
