(* ===== verification/J_Filters.thy ===== *)
theory J_Filters
  imports J_Tokenize "HOL-Library.Sublist"
begin

text \<open>
  \<open>Expr.filter\<close> and \<open>Expr.pseudos\<close> of Sizzle (\<open>jquery-3.1.0.js\<close>): the tests of tag, class, id and attribute,
  the positions among the siblings with their cache, and the positional pseudos.
\<close>

section \<open>Tag, class, id\<close>

text \<open>A filter compiles its arguments to a test of an element; escapes may fail as in \<^const>\<open>unescape\<close>.\<close>

definition filter_TAG :: "dom \<Rightarrow> string \<Rightarrow> sizzle_error + (nat \<Rightarrow> bool)" where
  "filter_TAG d nodeNameSelector =
     (case unescape nodeNameSelector of Inl e \<Rightarrow> Inl e
      | Inr n \<Rightarrow>
          (if nodeNameSelector = ''*'' then Inr (\<lambda>e. True)
           else Inr (\<lambda>e. node_name d e \<noteq> [] \<and> toLowerCase (node_name d e) = toLowerCase n)))"

definition filter_ID :: "dom \<Rightarrow> string \<Rightarrow> sizzle_error + (nat \<Rightarrow> bool)" where
  "filter_ID d idName =
     (case unescape idName of Inl e \<Rightarrow> Inl e | Inr attrId \<Rightarrow> Inr (\<lambda>e. get_attribute d e ''id'' = Some attrId))"

text \<open>
  The class name is the source of a regular expression. For a name of word characters, dashes and characters
  above 160 it is the name itself; a name with a backslash is outside the model.
\<close>

definition class_pattern :: "string \<Rightarrow> re" where
  "class_pattern className =
     Seq (Grp 1 (Alt Bol whitespace)) (Seq (Lit className) (Grp 2 (Alt whitespace Eol)))"

definition class_of :: "dom \<Rightarrow> nat \<Rightarrow> string" where
  "class_of d e = (case get_attribute d e ''class'' of None \<Rightarrow> '''' | Some c \<Rightarrow> c)"

definition filter_CLASS :: "dom \<Rightarrow> string \<Rightarrow> sizzle_error + (nat \<Rightarrow> bool)" where
  "filter_CLASS d className =
     (if backslash \<in> set className then Inl Outside_Model
      else Inr (\<lambda>e. test (class_pattern className) (class_of d e)))"

section \<open>Attributes\<close>

text \<open>\<open>result.replace(rwhitespace, " ")\<close>: every run of white space becomes one space.\<close>

definition rwhitespace :: re where
  "rwhitespace = Plus whitespace"

definition attr_test :: "string option \<Rightarrow> mval \<Rightarrow> string \<Rightarrow> bool" where
  "attr_test attr operator check =
     (case attr of
        None \<Rightarrow> operator = Str ''!=''
      | Some result \<Rightarrow>
          (case operator of
             Str p \<Rightarrow>
               (if p = '''' then True
                else if p = ''='' then result = check
                else if p = ''!='' then result \<noteq> check
                else if p = ''^='' then check \<noteq> [] \<and> indexOf result check = 0
                else if p = ''*='' then check \<noteq> [] \<and> -1 < indexOf result check
                else if p = ''$='' then check \<noteq> [] \<and> drop (from_end result (- int (length check))) result = check
                else if p = ''~='' then -1 < indexOf ('' '' @ replace_all rwhitespace (\<lambda>cs. '' '') result @ '' '') check
                else if p = ''|='' then result = check \<or> slice result 0 (int (length check) + 1) = check @ ''-''
                else False)
           | _ \<Rightarrow> True))"

definition filter_ATTR :: "dom \<Rightarrow> string \<Rightarrow> mval \<Rightarrow> string \<Rightarrow> nat \<Rightarrow> bool" where
  "filter_ATTR d name operator check = (\<lambda>e. attr_test (get_attribute d e name) operator check)"

section \<open>Positions among the siblings\<close>

text \<open>
  \<open>uniqueCache[type]\<close> of a node: the number of the run and one or two indexes.
\<close>

type_synonym index_cache = "nat \<times> string \<Rightarrow> (nat \<times> nat \<times> nat) option"

definition same_name :: "dom \<Rightarrow> nat \<Rightarrow> nat \<Rightarrow> bool" where
  "same_name d a b \<longleftrightarrow> toLowerCase (node_name d a) = toLowerCase (node_name d b)"

text \<open>What is counted: the elements, or the nodes of the same name.\<close>

definition counted :: "dom \<Rightarrow> bool \<Rightarrow> nat \<Rightarrow> nat \<Rightarrow> bool" where
  "counted d ofType elem n = (if ofType then same_name d n elem else is_element d n)"

definition before :: "dom \<Rightarrow> nat \<Rightarrow> nat \<Rightarrow> nat list" where
  "before d parent elem = takeWhile (\<lambda>n. n \<noteq> elem) (childNodes d parent)"

definition after :: "dom \<Rightarrow> nat \<Rightarrow> nat \<Rightarrow> nat list" where
  "after d parent elem = tl (dropWhile (\<lambda>n. n \<noteq> elem) (childNodes d parent))"

text \<open>\<open>:first-*\<close>, \<open>:last-*\<close> and \<open>:only-*\<close>: no sibling that counts on one side, or on both.\<close>

definition simple_child :: "dom \<Rightarrow> string \<Rightarrow> bool \<Rightarrow> nat \<Rightarrow> nat \<Rightarrow> bool" where
  "simple_child d type ofType parent elem =
     (let free = list_all (\<lambda>n. \<not> counted d ofType elem n)
      in if type = ''last'' then free (after d parent elem)
         else if type = ''only'' then free (before d parent elem) \<and> free (after d parent elem)
         else free (before d parent elem))"

text \<open>
  The search of \<open>:nth-child\<close> from a child on: its place among the children and among the elements.
\<close>

fun seek :: "dom \<Rightarrow> nat \<Rightarrow> nat list \<Rightarrow> nat \<Rightarrow> nat \<Rightarrow> (nat \<times> nat) option" where
  "seek d elem [] nodeIndex diff = None"
| "seek d elem (n # ns) nodeIndex diff =
     (if is_element d n then
        (if n = elem then Some (nodeIndex, Suc diff) else seek d elem ns (Suc nodeIndex) (Suc diff))
      else seek d elem ns (Suc nodeIndex) diff)"

definition nth_forward ::
  "dom \<Rightarrow> nat \<Rightarrow> string \<Rightarrow> nat \<Rightarrow> nat \<Rightarrow> index_cache \<Rightarrow> nat \<times> index_cache" where
  "nth_forward d run type parent elem c =
     (let cs = childNodes d parent;
          cached = (case c (parent, type) of
                      Some (r, nodeIndex, diff) \<Rightarrow>
                        if r = run \<and> nodeIndex \<noteq> 0 \<and> nodeIndex < length cs
                        then seek d elem (drop (Suc nodeIndex) cs) (Suc nodeIndex) diff else None
                    | None \<Rightarrow> None);
          found = (case cached of Some f \<Rightarrow> Some f | None \<Rightarrow> seek d elem cs 0 0)
      in case found of
           None \<Rightarrow> (0, c)
         | Some (nodeIndex, diff) \<Rightarrow> (diff, c((parent, type) := Some (run, nodeIndex, diff))))"

text \<open>
  The other search: every node that counts gets its count in the cache on the way, until the element.
\<close>

fun count_to ::
  "dom \<Rightarrow> bool \<Rightarrow> bool \<Rightarrow> nat \<Rightarrow> string \<Rightarrow> nat \<Rightarrow> nat list \<Rightarrow> nat \<Rightarrow> index_cache \<Rightarrow> nat option \<times> index_cache" where
  "count_to d ofType useCache run type elem [] diff c = (None, c)"
| "count_to d ofType useCache run type elem (n # ns) diff c =
     (if counted d ofType elem n then
        (let c' = (if useCache then c((n, type) := Some (run, Suc diff, 0)) else c)
         in if n = elem then (Some (Suc diff), c') else count_to d ofType useCache run type elem ns (Suc diff) c')
      else count_to d ofType useCache run type elem ns diff c)"

text \<open>
  With the cache the variable \<open>node\<close> is the element when the loop starts, so the loop first goes over the
  siblings on its near side, and only then starts at the end of the list.
\<close>

definition nth_other ::
  "dom \<Rightarrow> bool \<Rightarrow> bool \<Rightarrow> bool \<Rightarrow> nat \<Rightarrow> string \<Rightarrow> nat \<Rightarrow> nat \<Rightarrow> index_cache \<Rightarrow> nat \<times> index_cache" where
  "nth_other d forward ofType useCache run type parent elem c =
     (let cs = childNodes d parent;
          hit = (if useCache then (case c (elem, type) of Some (r, i, _) \<Rightarrow> if r = run then Some i else None | None \<Rightarrow> None)
                 else None)
      in case hit of
           Some i \<Rightarrow> (i, c)
         | None \<Rightarrow>
             (let c1 = (if useCache
                        then snd (count_to d ofType useCache run type elem
                               (if forward then after d parent elem else rev (before d parent elem)) 0 c)
                        else c);
                  (found, c2) = count_to d ofType useCache run type elem (if forward then cs else rev cs) 0 c1
              in (case found of None \<Rightarrow> 0 | Some n \<Rightarrow> n, c2)))"

text \<open>\<open>diff -= last; return diff === first || ( diff % first === 0 && diff / first >= 0 )\<close>.\<close>

definition cycle_test :: "int \<Rightarrow> int \<Rightarrow> int \<Rightarrow> bool" where
  "cycle_test first offset diff =
     (let diff = diff - offset
      in diff = first \<or> first \<noteq> 0 \<and> diff mod first = 0 \<and> 0 \<le> diff div first)"

definition filter_CHILD ::
  "dom \<Rightarrow> bool \<Rightarrow> nat \<Rightarrow> string \<Rightarrow> string \<Rightarrow> int \<Rightarrow> int \<Rightarrow> nat \<Rightarrow> index_cache \<Rightarrow> bool \<times> index_cache" where
  "filter_CHILD d xml run type what first offset elem c =
     (let simple = take 3 type \<noteq> ''nth'';
          forward = drop (from_end type (-4)) type \<noteq> ''last'';
          ofType = what = ''of-type'';
          useCache = \<not> xml \<and> \<not> ofType
      in if \<not> simple \<and> first = 1 \<and> offset = 0 then (parentNode d elem \<noteq> None, c)
         else case parentNode d elem of
           None \<Rightarrow> (False, c)
         | Some parent \<Rightarrow>
             if simple then (simple_child d type ofType parent elem, c)
             else
               (let (diff, c') = (if forward \<and> useCache then nth_forward d run type parent elem c
                                  else nth_other d forward ofType useCache run type parent elem c)
                in (cycle_test first offset (int diff), c')))"

section \<open>Pseudos\<close>

text \<open>\<open>elem.type\<close> and \<open>elem.lang\<close> are properties of the host; the code reads them by name.\<close>

type_synonym props = "nat \<Rightarrow> string \<Rightarrow> string"

definition createInputPseudo :: "dom \<Rightarrow> props \<Rightarrow> string \<Rightarrow> nat \<Rightarrow> bool" where
  "createInputPseudo d P type e \<longleftrightarrow> toLowerCase (node_name d e) = ''input'' \<and> P e ''type'' = type"

definition createButtonPseudo :: "dom \<Rightarrow> props \<Rightarrow> string \<Rightarrow> nat \<Rightarrow> bool" where
  "createButtonPseudo d P type e \<longleftrightarrow>
     (toLowerCase (node_name d e) = ''input'' \<or> toLowerCase (node_name d e) = ''button'') \<and> P e ''type'' = type"

definition pseudo_button :: "dom \<Rightarrow> props \<Rightarrow> nat \<Rightarrow> bool" where
  "pseudo_button d P e \<longleftrightarrow>
     toLowerCase (node_name d e) = ''input'' \<and> P e ''type'' = ''button'' \<or> toLowerCase (node_name d e) = ''button''"

definition pseudo_text :: "dom \<Rightarrow> props \<Rightarrow> nat \<Rightarrow> bool" where
  "pseudo_text d P e \<longleftrightarrow>
     toLowerCase (node_name d e) = ''input'' \<and> P e ''type'' = ''text'' \<and>
     (case get_attribute d e ''type'' of None \<Rightarrow> True | Some attr \<Rightarrow> toLowerCase attr = ''text'')"

definition rheader :: re where
  "rheader = Seq Bol (Seq (Lit_i ''h'') (Seq (Cls is_digit) Eol))"

definition rinputs :: re where
  "rinputs = Seq Bol (Seq (Alts_i [''input'', ''select'', ''textarea'', ''button'']) Eol)"

definition pseudo_header :: "dom \<Rightarrow> nat \<Rightarrow> bool" where
  "pseudo_header d e = test rheader (node_name d e)"

definition pseudo_input :: "dom \<Rightarrow> nat \<Rightarrow> bool" where
  "pseudo_input d e = test rinputs (node_name d e)"

definition pseudo_empty :: "dom \<Rightarrow> nat \<Rightarrow> bool" where
  "pseudo_empty d e = list_all (\<lambda>n. \<not> node_type_of (d ! n) < 6) (childNodes d e)"

definition pseudo_parent :: "dom \<Rightarrow> nat \<Rightarrow> bool" where
  "pseudo_parent d e = (\<not> pseudo_empty d e)"

definition pseudo_target :: "dom \<Rightarrow> props \<Rightarrow> string \<Rightarrow> nat \<Rightarrow> bool" where
  "pseudo_target d P hash e \<longleftrightarrow> hash \<noteq> [] \<and> drop 1 hash = P e ''id''"

text \<open>\<open>:lang\<close>: the language of the element or of the nearest ancestor that has one.\<close>

function lang_walk :: "dom \<Rightarrow> props \<Rightarrow> bool \<Rightarrow> string \<Rightarrow> nat \<Rightarrow> bool" where
  "lang_walk d P html lang e =
     (let elemLang = (if html then P e ''lang''
                      else case get_attribute d e ''xml:lang'' of
                             Some x \<Rightarrow> if x \<noteq> [] then x else (case get_attribute d e ''lang'' of None \<Rightarrow> [] | Some y \<Rightarrow> y)
                           | None \<Rightarrow> (case get_attribute d e ''lang'' of None \<Rightarrow> [] | Some y \<Rightarrow> y))
      in if elemLang \<noteq> []
         then toLowerCase elemLang = lang \<or> indexOf (toLowerCase elemLang) (lang @ ''-'') = 0
         else case parentNode d e of
                None \<Rightarrow> False
              | Some p \<Rightarrow> if is_element d p then lang_walk d P html lang p else False)"
  by pat_completeness auto
termination
  by (relation "measure (\<lambda>(d, P, html, lang, e). e)") (auto simp: parentNode_def split: if_splits option.splits)

declare lang_walk.simps [simp del]

definition pseudo_lang :: "dom \<Rightarrow> props \<Rightarrow> bool \<Rightarrow> string \<Rightarrow> sizzle_error + (nat \<Rightarrow> bool)" where
  "pseudo_lang d P html lang =
     (if \<not> test (Seq Bol (Seq re_identifier Eol)) lang then Inl (Syntax lang)
      else case unescape lang of Inl e \<Rightarrow> Inl e | Inr l \<Rightarrow> Inr (lang_walk d P html (toLowerCase l)))"

section \<open>Positional pseudos\<close>

text \<open>The indexes that a positional pseudo chooses among \<open>n\<close> elements.\<close>

function steps_up :: "nat \<Rightarrow> nat \<Rightarrow> nat \<Rightarrow> int list" where
  "steps_up k i n = (if i < n then int i # steps_up k (i + Suc k) n else [])"
  by pat_completeness auto
termination by (relation "measure (\<lambda>(k, i, n). n - i)") auto

declare steps_up.simps [simp del]

definition from_argument :: "nat \<Rightarrow> int \<Rightarrow> int" where
  "from_argument n argument = (if argument < 0 then argument + int n else argument)"

definition pos_first :: "nat \<Rightarrow> int \<Rightarrow> int list" where
  "pos_first n argument = [0]"

definition pos_last :: "nat \<Rightarrow> int \<Rightarrow> int list" where
  "pos_last n argument = [int n - 1]"

definition pos_eq :: "nat \<Rightarrow> int \<Rightarrow> int list" where
  "pos_eq n argument = [from_argument n argument]"

definition pos_even :: "nat \<Rightarrow> int \<Rightarrow> int list" where
  "pos_even n argument = steps_up 1 0 n"

definition pos_odd :: "nat \<Rightarrow> int \<Rightarrow> int list" where
  "pos_odd n argument = steps_up 1 1 n"

definition pos_lt :: "nat \<Rightarrow> int \<Rightarrow> int list" where
  "pos_lt n argument = rev [0..from_argument n argument - 1]"

definition pos_gt :: "nat \<Rightarrow> int \<Rightarrow> int list" where
  "pos_gt n argument = [from_argument n argument + 1..int n - 1]"

text \<open>
  \<open>createPositionalPseudo\<close>: the chosen elements move from \<open>seed\<close> to the same place of \<open>matches\<close>; \<open>None\<close> is the
  value \<open>false\<close> that is left.
\<close>

definition move_match :: "int \<Rightarrow> 'a option list \<times> 'a option list \<Rightarrow> 'a option list \<times> 'a option list" where
  "move_match j sm =
     (case sm of (seed, matches) \<Rightarrow>
        if 0 \<le> j \<and> j < int (length seed) \<and> seed ! nat j \<noteq> None
        then (seed[nat j := None], matches[nat j := seed ! nat j]) else (seed, matches))"

definition createPositionalPseudo ::
  "(nat \<Rightarrow> int \<Rightarrow> int list) \<Rightarrow> int \<Rightarrow> 'a option list \<Rightarrow> 'a option list \<Rightarrow> 'a option list \<times> 'a option list" where
  "createPositionalPseudo fn argument seed matches = foldr move_match (fn (length seed) argument) (seed, matches)"

section \<open>The formula of a position\<close>

lemma cycle_test_iff: "cycle_test first offset diff \<longleftrightarrow> (\<exists>n\<ge>0. diff = first * n + offset)"
proof (cases "first = 0")
  case False
  have "(\<exists>n\<ge>0. diff - offset = first * n) \<longleftrightarrow> (diff - offset) mod first = 0 \<and> 0 \<le> (diff - offset) div first"
  proof
    assume "\<exists>n\<ge>0. diff - offset = first * n"
    then show "(diff - offset) mod first = 0 \<and> 0 \<le> (diff - offset) div first" using False by auto
  next
    assume *: "(diff - offset) mod first = 0 \<and> 0 \<le> (diff - offset) div first"
    then have "diff - offset = first * ((diff - offset) div first)"
      using mult_div_mod_eq [of first "diff - offset"] by simp
    with * show "\<exists>n\<ge>0. diff - offset = first * n" by blast
  qed
  moreover have "diff = first * n + offset \<longleftrightarrow> diff - offset = first * n" for n by auto
  moreover have "diff - offset = first \<Longrightarrow> (diff - offset) mod first = 0 \<and> 0 \<le> (diff - offset) div first"
    using False by simp
  ultimately show ?thesis using False by (auto simp: cycle_test_def Let_def)
qed (auto simp: cycle_test_def Let_def)

section \<open>The searches find the position\<close>

lemma takeWhile_mem: "elem \<notin> set ns \<Longrightarrow> takeWhile (\<lambda>n. n \<noteq> elem) ns = ns"
  by (simp add: takeWhile_eq_all_conv) blast

lemma seek_result:
  "is_element d elem \<Longrightarrow> seek d elem ns i n =
     (if elem \<in> set ns
      then (let b = takeWhile (\<lambda>n. n \<noteq> elem) ns in Some (i + length b, n + length (filter (is_element d) b) + 1))
      else None)"
  by (induction ns arbitrary: i n) (auto simp: Let_def)

lemma count_to_result:
  "counted d ofType elem elem \<Longrightarrow> fst (count_to d ofType useCache run type elem ns n c) =
     (if elem \<in> set ns then Some (n + length (filter (counted d ofType elem) (takeWhile (\<lambda>n. n \<noteq> elem) ns)) + 1)
      else None)"
  by (induction ns arbitrary: n c) (auto simp: Let_def)

text \<open>The place of an element from the start, or from the end, of its siblings, the first being 1.\<close>

definition position :: "dom \<Rightarrow> bool \<Rightarrow> bool \<Rightarrow> nat \<Rightarrow> nat \<Rightarrow> nat" where
  "position d forward ofType parent elem =
     length (filter (counted d ofType elem) (if forward then before d parent elem else after d parent elem)) + 1"

lemma childNodes_props: "distinct (childNodes d p)" "elem \<in> set (childNodes d p) \<longleftrightarrow> parentNode d elem = Some p"
  by (auto simp: childNodes_def parentNode_def split: if_splits)

lemma takeWhile_rev:
  assumes "distinct ns" "elem \<in> set ns"
  shows "takeWhile (\<lambda>n. n \<noteq> elem) (rev ns) = rev (tl (dropWhile (\<lambda>n. n \<noteq> elem) ns))"
proof -
  obtain a b where ns: "ns = a @ elem # b" using assms(2) by (meson split_list)
  with assms(1) have "elem \<notin> set a" "elem \<notin> set b" by auto
  then show ?thesis by (simp add: ns takeWhile_tail takeWhile_mem dropWhile_append)
qed

lemma counted_element [simp]: "counted d False elem = is_element d"
  by (intro ext) (simp add: counted_def)

lemma counted_self: "is_element d elem \<or> ofType \<Longrightarrow> counted d ofType elem elem"
  by (auto simp: counted_def same_name_def)

text \<open>The entry of a parent in the cache of \<open>:nth-child\<close>.\<close>

definition parent_entry_ok :: "dom \<Rightarrow> nat \<Rightarrow> string \<Rightarrow> nat \<Rightarrow> index_cache \<Rightarrow> bool" where
  "parent_entry_ok d run type parent c \<longleftrightarrow>
     (case c (parent, type) of
        None \<Rightarrow> True
      | Some (r, i, n) \<Rightarrow>
          r = run \<longrightarrow> i < length (childNodes d parent) \<and>
            n = length (filter (is_element d) (take (Suc i) (childNodes d parent))))"

lemma filter_takeWhile_take:
  assumes "elem \<in> set (drop i cs)" "distinct cs"
  shows "takeWhile (\<lambda>n. n \<noteq> elem) cs = take i cs @ takeWhile (\<lambda>n. n \<noteq> elem) (drop i cs)"
proof -
  have "elem \<notin> set (take i cs)" using assms set_take_disj_set_drop_if_distinct [of cs i i] by auto
  then have "takeWhile (\<lambda>n. n \<noteq> elem) (take i cs @ drop i cs) = take i cs @ takeWhile (\<lambda>n. n \<noteq> elem) (drop i cs)"
    by (subst takeWhile_append2) auto
  then show ?thesis by simp
qed

lemma take_Suc_takeWhile:
  assumes "elem \<in> set cs"
  shows "take (Suc (length (takeWhile (\<lambda>n. n \<noteq> elem) cs))) cs = takeWhile (\<lambda>n. n \<noteq> elem) cs @ [elem]"
  using assms by (induction cs) auto

lemma length_takeWhile_less_mem: "elem \<in> set cs \<Longrightarrow> length (takeWhile (\<lambda>n. n \<noteq> elem) cs) < length cs"
  by (induction cs) auto

lemma nth_forward_ok:
  assumes el: "is_element d elem" and p: "parentNode d elem = Some parent"
    and c: "parent_entry_ok d run type parent c"
  shows "fst (nth_forward d run type parent elem c) = position d True False parent elem \<and>
    parent_entry_ok d run type parent (snd (nth_forward d run type parent elem c))"
proof -
  let ?cs = "childNodes d parent"
  let ?b = "takeWhile (\<lambda>n. n \<noteq> elem) ?cs"
  let ?r = "(length ?b, length (filter (is_element d) ?b) + 1)"
  have mem: "elem \<in> set ?cs" using p childNodes_props(2) by simp
  have start: "seek d elem ?cs 0 0 = Some ?r" using seek_result [OF el] mem by (simp add: Let_def)
  have later: "seek d elem (drop (Suc i) ?cs) (Suc i) n = Some ?r"
    if "seek d elem (drop (Suc i) ?cs) (Suc i) n = Some f" "c (parent, type) = Some (run, i, n)" for i n f
  proof -
    have "elem \<in> set (drop (Suc i) ?cs)" using that(1) seek_result [OF el] by (auto split: if_splits)
    moreover from filter_takeWhile_take [OF this childNodes_props(1)] have
      "?b = take (Suc i) ?cs @ takeWhile (\<lambda>n. n \<noteq> elem) (drop (Suc i) ?cs)" .
    moreover have "i < length ?cs" "n = length (filter (is_element d) (take (Suc i) ?cs))"
      using c that(2) by (auto simp: parent_entry_ok_def)
    ultimately show ?thesis using seek_result [OF el, of "drop (Suc i) ?cs" "Suc i" n] by (simp add: Let_def)
  qed
  have "nth_forward d run type parent elem c = (snd ?r, c((parent, type) := Some (run, ?r)))"
    using start later by (auto simp: nth_forward_def Let_def split: option.splits)
  moreover have "parent_entry_ok d run type parent (c((parent, type) := Some (run, ?r)))"
    using length_takeWhile_less_mem [OF mem] by (simp add: parent_entry_ok_def take_Suc_takeWhile [OF mem] el)
  ultimately show ?thesis by (simp add: position_def before_def)
qed

lemma nth_other_ok:
  assumes "counted d ofType elem elem" "parentNode d elem = Some parent"
    and "useCache \<Longrightarrow> (case c (elem, type) of None \<Rightarrow> True | Some (r, i, _) \<Rightarrow> r = run \<longrightarrow> i = position d forward ofType parent elem)"
  shows "fst (nth_other d forward ofType useCache run type parent elem c) = position d forward ofType parent elem"
proof -
  let ?cs = "childNodes d parent"
  have mem: "elem \<in> set ?cs" using assms(2) childNodes_props(2) by simp
  have "fst (count_to d ofType useCache run type elem (if forward then ?cs else rev ?cs) 0 c') =
      Some (position d forward ofType parent elem)" for c'
    using count_to_result [OF assms(1)] mem takeWhile_rev [OF childNodes_props(1) mem]
    by (simp add: position_def before_def after_def rev_filter [symmetric])
  note found = this
  define hit where "hit = (if useCache then (case c (elem, type) of
      Some (r, i, _) \<Rightarrow> if r = run then Some i else None | None \<Rightarrow> None) else None)"
  show ?thesis
  proof (cases hit)
    case (Some i)
    then have "useCache" "\<exists>j. c (elem, type) = Some (run, i, j)"
      by (auto simp: hit_def split: if_splits option.splits)
    with assms(3) Some show ?thesis unfolding nth_other_def Let_def hit_def [symmetric] by auto
  next
    case None
    show ?thesis unfolding nth_other_def Let_def hit_def [symmetric] None by (simp add: split_def found)
  qed
qed

section \<open>Class names and attribute values\<close>

text \<open>The words of a string, between white space.\<close>

fun split_ws :: "string \<Rightarrow> string list" where
  "split_ws [] = [[]]"
| "split_ws (c # s) = (if ws_char c then [] # split_ws s
     else (case split_ws s of [] \<Rightarrow> [[c]] | w # ws \<Rightarrow> (c # w) # ws))"

text \<open>White space, or the end.\<close>

definition bound_at :: "string \<Rightarrow> bool" where
  "bound_at b \<longleftrightarrow> b = [] \<or> ws_char (hd b)"

lemma split_ws_hd: "\<exists>w ws. split_ws s = w # ws"
  by (cases s) (auto split: list.splits)

lemma split_ws_append: "ws_char c \<Longrightarrow> split_ws (x @ c # y) = split_ws x @ split_ws y"
proof (induction x)
  case (Cons d x)
  then show ?case using split_ws_hd [of x] by auto
qed simp

lemma split_ws_word: "\<forall>x\<in>set w. \<not> ws_char x \<Longrightarrow> split_ws w = [w]"
  by (induction w) auto

lemma split_ws_parts:
  "split_ws s = v # vs \<Longrightarrow> (\<exists>b. s = v @ b \<and> bound_at b) \<and>
   (\<forall>w\<in>set vs. \<exists>a b. s = a @ w @ b \<and> a \<noteq> [] \<and> ws_char (last a) \<and> bound_at b)"
proof (induction s arbitrary: v vs)
  case Nil
  then show ?case by (auto simp: bound_at_def)
next
  case (Cons c s)
  obtain u us where u: "split_ws s = u # us" using split_ws_hd by blast
  from Cons.IH [OF u] obtain b where b: "s = u @ b" "bound_at b"
    and us: "\<And>w. w \<in> set us \<Longrightarrow> \<exists>a b. s = a @ w @ b \<and> a \<noteq> [] \<and> ws_char (last a) \<and> bound_at b"
    by blast
  have tail: "\<exists>a b. c # s = a @ w @ b \<and> a \<noteq> [] \<and> ws_char (last a) \<and> bound_at b" if "w \<in> set us" for w
  proof -
    from us [OF that] obtain a b where "s = a @ w @ b" "a \<noteq> []" "ws_char (last a)" "bound_at b" by blast
    then show ?thesis by (intro exI [of _ "c # a"] exI [of _ b]) simp
  qed
  show ?case
  proof (cases "ws_char c")
    case True
    then have v: "v = []" "vs = u # us" using Cons.prems u by auto
    have "\<exists>a b. c # s = a @ u @ b \<and> a \<noteq> [] \<and> ws_char (last a) \<and> bound_at b"
      using b True by (intro exI [of _ "[c]"] exI [of _ b]) simp
    moreover have "\<exists>b. c # s = v @ b \<and> bound_at b"
      using True v by (intro exI [of _ "c # s"]) (simp add: bound_at_def)
    ultimately show ?thesis using tail v by simp
  next
    case False
    then have v: "v = c # u" "vs = us" using Cons.prems u by auto
    with b tail show ?thesis by auto
  qed
qed

lemma split_ws_iff:
  assumes "\<forall>x\<in>set w. \<not> ws_char x"
  shows "w \<in> set (split_ws s) \<longleftrightarrow> (\<exists>a b. s = a @ w @ b \<and> (a = [] \<or> ws_char (last a)) \<and> bound_at b)"
proof
  assume w: "w \<in> set (split_ws s)"
  obtain v vs where v: "split_ws s = v # vs" using split_ws_hd by blast
  with w split_ws_parts [OF v] show "\<exists>a b. s = a @ w @ b \<and> (a = [] \<or> ws_char (last a)) \<and> bound_at b"
    by (metis append_Nil set_ConsD)
next
  assume "\<exists>a b. s = a @ w @ b \<and> (a = [] \<or> ws_char (last a)) \<and> bound_at b"
  then obtain a b where s: "s = a @ w @ b" "a = [] \<or> ws_char (last a)" "bound_at b" by blast
  have right: "w \<in> set (split_ws (w @ b))"
    using s(3) split_ws_word [OF assms] split_ws_append [of "hd b" w "tl b"]
    by (cases b) (auto simp: bound_at_def)
  show "w \<in> set (split_ws s)"
  proof (cases "a = []")
    case False
    then have "s = butlast a @ last a # (w @ b)" using s(1) by simp
    moreover have "ws_char (last a)" using s(2) False by simp
    ultimately show ?thesis using right split_ws_append [of "last a" "butlast a" "w @ b"] by simp
  qed (use s(1) right in simp)
qed

lemma class_pattern_test:
  "test (class_pattern w) s \<longleftrightarrow> (\<exists>a b. s = a @ w @ b \<and> (a = [] \<or> ws_char (last a)) \<and> bound_at b)"
  using bounded_test [OF recognizes_Lit [of w], of ws_char s]
  by (simp add: class_pattern_def bounded_def whitespace_def bound_at_def)

section \<open>Properties\<close>

text \<open>
  A class filter accepts an element exactly when the class is one of the words, separated by white space,
  of the attribute \<open>class\<close> of the element.
\<close>

theorem filter_CLASS_words:
  assumes "filter_CLASS d w = Inr f" "\<forall>x\<in>set w. \<not> ws_char x"
  shows "f e \<longleftrightarrow> w \<in> set (split_ws (class_of d e))"
  using assms by (auto simp: filter_CLASS_def class_pattern_test split_ws_iff split: if_splits)

definition filter_doc :: dom where
  "filter_doc = [\<lparr>node_type_of = 9, node_name_of = ''#document'', parent_of = None, attributes_of = []\<rparr>,
     \<lparr>node_type_of = 1, node_name_of = ''ul'', parent_of = Some 0, attributes_of = [(''class'', ''a bc'')]\<rparr>,
     \<lparr>node_type_of = 1, node_name_of = ''li'', parent_of = Some 1, attributes_of = []\<rparr>,
     \<lparr>node_type_of = 1, node_name_of = ''li'', parent_of = Some 1, attributes_of = []\<rparr>,
     \<lparr>node_type_of = 1, node_name_of = ''li'', parent_of = Some 1, attributes_of = []\<rparr>,
     \<lparr>node_type_of = 1, node_name_of = ''li'', parent_of = Some 1, attributes_of = []\<rparr>]"

lemma filter_CLASS_words_witness:
  "test (class_pattern ''bc'') (class_of filter_doc 1) \<and> \<not> test (class_pattern ''b'') (class_of filter_doc 1)"
proof -
  have "filter_CLASS filter_doc ''bc'' = Inr (\<lambda>e. test (class_pattern ''bc'') (class_of filter_doc e))"
    "filter_CLASS filter_doc ''b'' = Inr (\<lambda>e. test (class_pattern ''b'') (class_of filter_doc e))"
    by (simp_all add: filter_CLASS_def)
  note f = filter_CLASS_words [OF this(1), of 1] filter_CLASS_words [OF this(2), of 1]
  have "''bc'' \<in> set (split_ws (class_of filter_doc 1)) \<and> ''b'' \<notin> set (split_ws (class_of filter_doc 1))"
    by code_simp
  then show ?thesis using f by (simp add: ws_char_def code_def)
qed

text \<open>
  The operators of an attribute test on a value that is there, for a text that is not empty: prefix,
  suffix, part, equality, its opposite, and equality up to a dash; without the attribute only \<open>!=\<close> holds.
\<close>

theorem attr_test_operators:
  "(attr_test None op c \<longleftrightarrow> op = Str ''!='') \<and>
   (attr_test (Some r) (Str ''='') c \<longleftrightarrow> r = c) \<and> (attr_test (Some r) (Str ''!='') c \<longleftrightarrow> r \<noteq> c) \<and>
   (attr_test (Some r) (Str ''^='') c \<longleftrightarrow> c \<noteq> [] \<and> prefix c r) \<and>
   (attr_test (Some r) (Str ''$='') c \<longleftrightarrow> c \<noteq> [] \<and> suffix c r) \<and>
   (attr_test (Some r) (Str ''*='') c \<longleftrightarrow> c \<noteq> [] \<and> sublist c r) \<and>
   (attr_test (Some r) (Str ''|='') c \<longleftrightarrow> r = c \<or> prefix (c @ ''-'') r)"
proof -
  have start: "indexOf r c = 0 \<longleftrightarrow> prefix c r"
  proof (cases r)
    case Nil
    then show ?thesis by (auto simp: indexOf_def)
  next
    case (Cons x s)
    have "find_sub c r = Some 0 \<longleftrightarrow> take (length c) r = c" using Cons by auto
    also have "\<dots> \<longleftrightarrow> prefix c r" by (metis append_eq_conv_conj append_take_drop_id prefix_def)
    finally show ?thesis by (auto simp: indexOf_def split: option.splits)
  qed
  have part: "- 1 < indexOf r c \<longleftrightarrow> sublist c r"
    using indexOf_nonneg_iff [of r c] by (auto simp: sublist_def)
  have end_c: "drop (from_end r (- int (length c))) r = c \<longleftrightarrow> suffix c r" if "c \<noteq> []"
  proof -
    have "from_end r (- int (length c)) = length r - length c" using that by (simp add: from_end_def nat_minus_as_int)
    moreover have "drop (length r - length c) r = c \<longleftrightarrow> suffix c r"
      by (metis suffix_drop suffix_take suffix_def append_eq_conv_conj length_append add_diff_cancel_right')
    ultimately show ?thesis by simp
  qed
  have dash: "slice r 0 (int (length c) + 1) = c @ ''-'' \<longleftrightarrow> prefix (c @ ''-'') r"
  proof -
    have "slice r 0 (int (length c) + 1) = take (length (c @ ''-'')) r"
      by (simp add: slice_def from_end_def nat_add_distrib)
    then show ?thesis by (metis append_eq_conv_conj append_take_drop_id prefix_def)
  qed
  show ?thesis using start part end_c dash by (auto simp: attr_test_def)
qed

text \<open>The entry of the cache that is read for an element is right.\<close>

definition entry_ok :: "dom \<Rightarrow> bool \<Rightarrow> nat \<Rightarrow> string \<Rightarrow> string \<Rightarrow> nat \<Rightarrow> nat \<Rightarrow> index_cache \<Rightarrow> bool" where
  "entry_ok d xml run type what parent elem c \<longleftrightarrow>
     xml \<or> what = ''of-type'' \<or>
     (if type = ''nth'' then parent_entry_ok d run type parent c
      else (case c (elem, type) of None \<Rightarrow> True
            | Some (r, i, _) \<Rightarrow> r = run \<longrightarrow> i = position d False False parent elem))"

lemma nth_types:
  assumes "type = ''nth'' \<or> type = ''nth-last''"
  shows "take 3 type = ''nth''" "drop (from_end type (-4)) type \<noteq> ''last'' \<longleftrightarrow> type = ''nth''"
  using assms by (auto simp: from_end_def)

lemma child_position:
  assumes "is_element d elem" "parentNode d elem = Some parent" "type = ''nth'' \<or> type = ''nth-last''"
    and "entry_ok d xml run type what parent elem c"
  shows "fst (filter_CHILD d xml run type what first offset elem c) \<longleftrightarrow>
      (\<exists>n\<ge>0. int (position d (type = ''nth'') (what = ''of-type'') parent elem) = first * n + offset)"
proof -
  let ?ofType = "what = ''of-type''" and ?forward = "type = ''nth''"
  let ?pos = "position d ?forward ?ofType parent elem"
  note type = nth_types [OF assms(3)]
  show ?thesis
  proof (cases "first = 1 \<and> offset = 0")
    case True
    moreover have "\<exists>n\<ge>0. int ?pos = 1 * n + 0" by (intro exI [of _ "int ?pos"]) simp
    ultimately show ?thesis using assms(2,4) type by (auto simp: filter_CHILD_def Let_def)
  next
    case general: False
    show ?thesis
    proof (cases "?forward \<and> \<not> xml \<and> \<not> ?ofType")
      case True
      then have "parent_entry_ok d run type parent c" using assms(4) by (simp add: entry_ok_def)
      note r = nth_forward_ok [OF assms(1,2) this]
      have "filter_CHILD d xml run type what first offset elem c =
          (cycle_test first offset (int ?pos), snd (nth_forward d run type parent elem c))"
        using True general type assms(2) r by (auto simp: filter_CHILD_def Let_def split_def)
      then show ?thesis using True r by (simp add: cycle_test_iff)
    next
      case False
      have "fst (nth_other d ?forward ?ofType (\<not> xml \<and> \<not> ?ofType) run type parent elem c) = ?pos"
        using assms False by (intro nth_other_ok counted_self) (auto simp: entry_ok_def split: option.splits)
      then have f: "fst (filter_CHILD d xml run type what first offset elem c) \<longleftrightarrow> cycle_test first offset (int ?pos)"
        using False general type assms(2) by (auto simp: filter_CHILD_def Let_def split_def)
      then show ?thesis by (simp add: cycle_test_iff)
    qed
  qed
qed

text \<open>What a test does to the entries of \<open>:nth-child\<close>: only those tests write them, and they write them right.\<close>

lemma count_to_others: "type \<noteq> type' \<Longrightarrow> snd (count_to d ofType useCache run type elem ns n c) (x, type') = c (x, type')"
  by (induction ns arbitrary: n c) (auto simp: Let_def)

lemma nth_other_others:
  assumes "type \<noteq> type'"
  shows "snd (nth_other d forward ofType useCache run type parent elem c) (x, type') = c (x, type')"
  using count_to_others [OF assms] by (simp add: nth_other_def Let_def split_def split: option.split)

lemma count_to_uncached: "snd (count_to d ofType False run type elem ns n c) = c"
  by (induction ns arbitrary: n) (auto simp: Let_def)

lemma nth_other_uncached: "snd (nth_other d forward ofType False run type parent elem c) = c"
  by (simp add: nth_other_def Let_def split_def count_to_uncached)

lemma parent_entry_other: "c (p, type) = c' (p, type) \<Longrightarrow> parent_entry_ok d run type p c = parent_entry_ok d run type p c'"
  by (simp add: parent_entry_ok_def)

lemma child_keeps_entries:
  assumes "is_element d elem" "type = ''nth'' \<or> type = ''nth-last''" "\<forall>p. parent_entry_ok d run ''nth'' p c"
  shows "parent_entry_ok d run ''nth'' p (snd (filter_CHILD d xml run type what first offset elem c))"
proof -
  note type = nth_types [OF assms(2)]
  let ?c = "snd (filter_CHILD d xml run type what first offset elem c)"
  show ?thesis
  proof (cases "first = 1 \<and> offset = 0 \<or> parentNode d elem = None")
    case True
    then have "?c = c" using type by (auto simp: filter_CHILD_def Let_def)
    with assms(3) show ?thesis by simp
  next
    case False
    then obtain parent where p: "parentNode d elem = Some parent" by auto
    show ?thesis
    proof (cases "type = ''nth'' \<and> \<not> xml \<and> what \<noteq> ''of-type''")
      case True
      then have c: "?c = snd (nth_forward d run type parent elem c)"
        using False type p by (auto simp: filter_CHILD_def Let_def split_def)
      show ?thesis
      proof (cases "p = parent")
        case True
        with nth_forward_ok [OF assms(1) p] assms(3) c \<open>type = ''nth'' \<and> _\<close> show ?thesis by auto
      next
        case other: False
        then have "?c (p, ''nth'') = c (p, ''nth'')" using True unfolding c by (simp add: nth_forward_def Let_def split: option.split)
        then show ?thesis using assms(3) parent_entry_other [of ?c p "''nth''" c] by simp
      qed
    next
      case other: False
      then have c: "?c = snd (nth_other d (type = ''nth'') (what = ''of-type'') (\<not> xml \<and> what \<noteq> ''of-type'') run type parent elem c)"
        using False type p by (auto simp: filter_CHILD_def Let_def split_def)
      have "?c (p, ''nth'') = c (p, ''nth'')"
      proof (cases "type = ''nth''")
        case True
        with other have "(\<not> xml \<and> what \<noteq> ''of-type'') = False" by blast
        then show ?thesis unfolding c by (simp only: nth_other_uncached)
      next
        case False
        then show ?thesis unfolding c by (rule nth_other_others)
      qed
      then show ?thesis using assms(3) parent_entry_other [of ?c p "''nth''" c] by simp
    qed
  qed
qed

text \<open>A run of tests on elements, with its cache: the type, what is counted, the cycle and the offset, and the element.\<close>

fun child_run ::
  "dom \<Rightarrow> bool \<Rightarrow> nat \<Rightarrow> (string \<times> string \<times> int \<times> int \<times> nat) list \<Rightarrow> index_cache \<Rightarrow> bool list" where
  "child_run d xml run [] c = []"
| "child_run d xml run ((type, what, first, offset, elem) # ts) c =
     (let (b, c') = filter_CHILD d xml run type what first offset elem c in b # child_run d xml run ts c')"

definition at_position :: "dom \<Rightarrow> string \<Rightarrow> string \<Rightarrow> int \<Rightarrow> int \<Rightarrow> nat \<Rightarrow> bool" where
  "at_position d type what first offset elem \<longleftrightarrow>
     (case parentNode d elem of None \<Rightarrow> False
      | Some parent \<Rightarrow> \<exists>n\<ge>0. int (position d (type = ''nth'') (what = ''of-type'') parent elem) = first * n + offset)"

lemma child_run_ok:
  "\<forall>(type, what, first, offset, elem)\<in>set ts. is_element d elem \<and> (type = ''nth'' \<or> type = ''nth-last'') \<Longrightarrow>
   \<forall>p. parent_entry_ok d run ''nth'' p c \<Longrightarrow>
   list_all2 (\<lambda>(type, what, first, offset, elem) b.
     type = ''nth'' \<or> what = ''of-type'' \<or> xml \<longrightarrow> (b \<longleftrightarrow> at_position d type what first offset elem)) ts (child_run d xml run ts c)"
proof (induction ts arbitrary: c)
  case (Cons t ts)
  obtain type what first offset elem where t: "t = (type, what, first, offset, elem)" by (cases t)
  have el: "is_element d elem" "type = ''nth'' \<or> type = ''nth-last''" using Cons.prems(1) by (auto simp: t)
  let ?r = "filter_CHILD d xml run type what first offset elem c"
  have right: "fst ?r \<longleftrightarrow> at_position d type what first offset elem" if "type = ''nth'' \<or> what = ''of-type'' \<or> xml"
  proof (cases "parentNode d elem")
    case None
    then show ?thesis using nth_types [OF el(2)] by (auto simp: filter_CHILD_def at_position_def Let_def)
  next
    case (Some parent)
    have "entry_ok d xml run type what parent elem c" using that Cons.prems(2) by (auto simp: entry_ok_def)
    from child_position [OF el(1) Some el(2) this] Some show ?thesis by (simp add: at_position_def)
  qed
  have "\<forall>p. parent_entry_ok d run ''nth'' p (snd ?r)" using child_keeps_entries [OF el Cons.prems(2)] by blast
  with Cons.IH [of "snd ?r"] Cons.prems(1) right show ?case
    unfolding t child_run.simps Let_def split_def list_all2_Cons prod.sel by simp
qed simp

text \<open>
  C14: In a run of tests by \<open>:nth-child\<close>, \<open>:nth-last-child\<close> and their variants by type, which begins with whatever earlier
  runs have left in the caches, each test by \<open>:nth-child\<close> or by type accepts its element exactly when the element has a
  parent and its place among the siblings that count, from the side the type names, is \<open>first * n + offset\<close> for some \<open>n\<close>
  from 0 on; in a document that is not HTML \<open>:nth-last-child\<close> does too.
\<close>

theorem nth_child_position:
  assumes "\<forall>x r i n. c x = Some (r, i, n) \<longrightarrow> r \<noteq> run"
    and "\<forall>(type, what, first, offset, elem)\<in>set ts. is_element d elem \<and> (type = ''nth'' \<or> type = ''nth-last'')"
  shows "list_all2 (\<lambda>(type, what, first, offset, elem) accepted.
      type = ''nth'' \<or> what = ''of-type'' \<or> xml \<longrightarrow> (accepted \<longleftrightarrow> at_position d type what first offset elem))
    ts (child_run d xml run ts c)"
proof -
  have "parent_entry_ok d run ''nth'' p c" for p
  proof (cases "c (p, ''nth'')")
    case (Some e)
    obtain r i n where "e = (r, i, n)" by (cases e)
    moreover from this have "r \<noteq> run" using assms(1) Some by blast
    ultimately show ?thesis using Some by (simp add: parent_entry_ok_def)
  qed (simp add: parent_entry_ok_def)
  then have "\<forall>p. parent_entry_ok d run ''nth'' p c" by blast
  from child_run_ok [OF assms(2) this] show ?thesis .
qed

lemma nth_child_position_witness:
  "take 2 (child_run filter_doc False 2
     [(''nth'', ''child'', 2, 1, 5), (''nth'', ''child'', 2, 1, 4), (''nth-last'', ''child'', 2, 1, 4)]
     (\<lambda>x. if x = (1, ''nth'') then Some (1, 9, 9) else None)) = [False, True]"
proof -
  let ?ts = "[(''nth'', ''child'', 2::int, 1::int, 5::nat), (''nth'', ''child'', 2, 1, 4), (''nth-last'', ''child'', 2, 1, 4)]"
  let ?c = "\<lambda>x. if x = (1::nat, ''nth'') then Some (1::nat, 9::nat, 9::nat) else None"
  have els: "is_element filter_doc 4" "is_element filter_doc 5" by code_simp+
  have "parentNode filter_doc 4 = Some 1" "parentNode filter_doc 5 = Some 1"
    "position filter_doc True False 1 4 = 3" "position filter_doc True False 1 5 = 4" by code_simp+
  then have at: "at_position filter_doc ''nth'' ''child'' 2 1 4" "\<not> at_position filter_doc ''nth'' ''child'' 2 1 5"
    by (auto simp: at_position_def intro: exI [of _ 1]) presburger
  have "\<forall>x r i n. ?c x = Some (r, i, n) \<longrightarrow> r \<noteq> 2" by (simp split: if_split)
  from nth_child_position [OF this, of ?ts filter_doc False] els at show ?thesis
    by (auto simp: list_all2_Cons1)
qed

text \<open>
  The cache of \<open>:nth-last-child\<close> is spoilt by the first part of its loop: after the third of four children was
  tested, the entry of the first child says place 2 from the end, though it is at place 4.
\<close>

lemma nth_last_entry_spoilt:
  "fst (nth_other filter_doc False False True 1 ''nth-last'' 1 2
      (snd (nth_other filter_doc False False True 1 ''nth-last'' 1 4 (\<lambda>x. None)))) = 2 \<and>
   position filter_doc False False 1 2 = 4"
  by code_simp

text \<open>The positions a positional pseudo chooses, and what it does with them.\<close>

lemma set_steps_up: "int j \<in> set (steps_up k i n) \<longleftrightarrow> i \<le> j \<and> j < n \<and> Suc k dvd j - i"
proof (induction k i n rule: steps_up.induct)
  case (1 k i n)
  show ?case
  proof (cases "i < n")
    case True
    have "i \<le> j \<and> Suc k dvd j - i \<longleftrightarrow> j = i \<or> i + Suc k \<le> j \<and> Suc k dvd j - (i + Suc k)"
    proof (cases "i + Suc k \<le> j")
      case True
      then have eq: "j - i = j - (i + Suc k) + Suc k" by simp
      have "Suc k dvd j - i \<longleftrightarrow> Suc k dvd j - (i + Suc k)" unfolding eq by (rule dvd_add_triv_right_iff)
      with True show ?thesis by auto
    next
      case False
      then show ?thesis by (auto dest: dvd_imp_le)
    qed
    with True 1 show ?thesis by (auto simp: steps_up.simps [of k i n])
  qed (auto simp: steps_up.simps [of k i n])
qed

lemma move_match_pair:
  "move_match j (seed, matches) =
     (if 0 \<le> j \<and> j < int (length seed) \<and> seed ! nat j \<noteq> None
      then (seed[nat j := None], matches[nat j := seed ! nat j]) else (seed, matches))"
  by (simp add: move_match_def)

lemma move_match_fold:
  assumes "length matches = length seed"
  shows "case foldr move_match js (seed, matches) of (s', m') \<Rightarrow>
    length s' = length seed \<and> length m' = length seed \<and>
    (\<forall>j<length seed. s' ! j = (if int j \<in> set js then None else seed ! j) \<and>
       m' ! j = (if int j \<in> set js \<and> seed ! j \<noteq> None then seed ! j else matches ! j))"
proof (induction js)
  case Nil
  then show ?case using assms by simp
next
  case (Cons k js)
  obtain s' m' where f: "foldr move_match js (seed, matches) = (s', m')" by (cases "foldr move_match js (seed, matches)")
  have len: "length s' = length seed" using Cons.IH f by simp
  show ?case
  proof (cases "0 \<le> k \<and> k < int (length seed)")
    case True
    then obtain i where i: "k = int i" "i < length seed" by (metis nonneg_int_cases of_nat_less_iff)
    have "foldr move_match (k # js) (seed, matches) =
        (if s' ! i \<noteq> None then (s'[i := None], m'[i := s' ! i]) else (s', m'))"
      using f i len by (simp add: move_match_pair)
    then show ?thesis using Cons.IH f i by (auto simp: nth_list_update)
  next
    case False
    have "foldr move_match (k # js) (seed, matches) = (s', m')"
      using f False len by (auto simp: move_match_pair)
    moreover have "int j \<noteq> k" if "j < length seed" for j using that False by auto
    ultimately show ?thesis using Cons.IH f by simp
  qed
qed

text \<open>The places that a positional pseudo chooses.\<close>

definition chosen :: "string \<Rightarrow> nat \<Rightarrow> int \<Rightarrow> nat \<Rightarrow> bool" where
  "chosen name n argument j \<longleftrightarrow>
     (if name = ''first'' then j = 0
      else if name = ''last'' then Suc j = n
      else if name = ''eq'' then int j = from_argument n argument
      else if name = ''even'' then even j
      else if name = ''odd'' then odd j
      else if name = ''lt'' then int j < from_argument n argument
      else from_argument n argument < int j)"

definition positional :: "string \<Rightarrow> nat \<Rightarrow> int \<Rightarrow> int list" where
  "positional name =
     (if name = ''first'' then pos_first else if name = ''last'' then pos_last else if name = ''eq'' then pos_eq
      else if name = ''even'' then pos_even else if name = ''odd'' then pos_odd
      else if name = ''lt'' then pos_lt else pos_gt)"

lemma positional_chosen: "j < n \<Longrightarrow> int j \<in> set (positional name n argument) \<longleftrightarrow> chosen name n argument j"
proof -
  assume j: "j < n"
  have "int j \<in> set (pos_even n argument) \<longleftrightarrow> even j" using j set_steps_up [of j 1 0 n] by (simp add: pos_even_def numeral_2_eq_2)
  moreover have "int j \<in> set (pos_odd n argument) \<longleftrightarrow> odd j"
    using j set_steps_up [of j 1 1 n] by (cases j) (auto simp: pos_odd_def numeral_2_eq_2 [symmetric])
  moreover have "int j \<in> set (pos_lt n argument) \<longleftrightarrow> int j < from_argument n argument" by (auto simp: pos_lt_def)
  moreover have "int j \<in> set (pos_gt n argument) \<longleftrightarrow> from_argument n argument < int j" using j by (auto simp: pos_gt_def)
  moreover have "int j \<in> set (pos_last n argument) \<longleftrightarrow> Suc j = n" by (auto simp: pos_last_def)
  ultimately show "int j \<in> set (positional name n argument) \<longleftrightarrow> chosen name n argument j"
    unfolding positional_def chosen_def by (simp add: pos_first_def pos_eq_def)
qed

text \<open>
  A positional pseudo moves to the matches the elements at its indexes, and no others: \<open>:first\<close> and
  \<open>:last\<close> the ends, \<open>:eq\<close> one place, \<open>:even\<close> and \<open>:odd\<close> every second, \<open>:lt\<close> and \<open>:gt\<close> the places below and
  above; a negative argument counts from the end, and indexes outside do nothing.
\<close>

theorem positional_pseudo:
  assumes "length matches = length seed" "createPositionalPseudo (positional name) argument seed matches = (s', m')"
  shows "\<forall>j<length seed.
    s' ! j = (if chosen name (length seed) argument j then None else seed ! j) \<and>
    m' ! j = (if chosen name (length seed) argument j \<and> seed ! j \<noteq> None then seed ! j else matches ! j)"
  using move_match_fold [OF assms(1), of "positional name (length seed) argument"] assms(2)
  by (simp add: createPositionalPseudo_def positional_chosen)

lemma positional_pseudo_witness:
  "createPositionalPseudo (positional ''odd'') 0 [Some 7, Some (8::nat), None, Some 9] [None, None, None, None] =
     ([Some 7, None, None, None], [None, Some 8, None, Some 9]) \<and>
   chosen ''odd'' 4 0 3"
proof -
  have r: "createPositionalPseudo (positional ''odd'') 0 [Some 7, Some (8::nat), None, Some 9] [None, None, None, None] =
     ([Some 7, None, None, None], [None, Some 8, None, Some 9])"
    by code_simp
  have "[Some 7, None, None, None] ! 3 =
     (if chosen ''odd'' (length [Some 7, Some (8::nat), None, Some 9]) 0 3 then None
      else [Some 7, Some (8::nat), None, Some 9] ! 3)"
    using positional_pseudo [OF _ r] by (metis (no_types, lifting) length_Cons lessI list.size(3) numeral_3_eq_3)
  then have "chosen ''odd'' 4 0 3" by (simp add: eval_nat_numeral split: if_splits)
  with r show ?thesis by blast
qed

end
