(* ===== verification/J_Select.thy ===== *)
theory J_Select
  imports J_Filters
begin

text \<open>
  \<open>select\<close> of Sizzle (\<open>jquery-3.1.0.js\<close>): a selector of one group is run on a seed that a method of the host
  finds for one of its last filters, and a leading id becomes the context. The methods of the host are the
  parameter \<open>finder\<close>.
\<close>

text \<open>The filters of a token, for the types whose test is a pure function; others are the parameter \<open>other\<close>.\<close>

definition token_test :: "dom \<Rightarrow> (token \<Rightarrow> nat \<Rightarrow> bool) \<Rightarrow> token \<Rightarrow> nat \<Rightarrow> bool" where
  "token_test d other t =
     (case (tok_type t, tok_matches t) of
        (ty, [Str a]) \<Rightarrow>
          (case (if ty = ''TAG'' then filter_TAG d a else if ty = ''ID'' then filter_ID d a else filter_CLASS d a) of
             Inl e \<Rightarrow> (\<lambda>n. False) | Inr f \<Rightarrow> f)
      | (ty, [Str name, op, Str check]) \<Rightarrow> filter_ATTR d name op check
      | _ \<Rightarrow> other t)"

definition needsContext :: re where
  "needsContext =
     (let word = Alts_i [''even'', ''odd'', ''eq'', ''gt'', ''lt'', ''nth'', ''first'', ''last''];
          argument = Seq (Ch CHR ''('') (Seq (Star whitespace) (Seq (Grp 2 (Seq (Alt (Seq (Ch CHR ''-'') (Cls is_digit)) Eps)
            (Star (Cls is_digit)))) (Seq (Star whitespace) (Ch CHR '')''))))
      in Alt (Seq Bol (Seq (Star whitespace) (Cls (\<lambda>c. c \<in> set ''>+~''))))
             (Seq (Ch CHR '':'') (Seq (Grp 1 word) (Seq (Alt argument Eps) (Alt (Cls (\<lambda>c. c \<noteq> CHR ''-'')) Eol)))))"

definition rsibling :: "string \<Rightarrow> bool" where
  "rsibling s \<longleftrightarrow> CHR ''+'' \<in> set s \<or> CHR ''~'' \<in> set s"

text \<open>
  The loop that fetches a seed: the filters from the last one back to a combinator, until the host can finder one.
  The result is the seed and the tokens without that filter.
\<close>

fun fetch_seed :: "(token \<Rightarrow> nat \<Rightarrow> nat list option) \<Rightarrow> nat \<Rightarrow> token list \<Rightarrow> token list \<Rightarrow> (nat list \<times> token list) option" where
  "fetch_seed finder c [] later = None"
| "fetch_seed finder c (t # ts) later =
     (if relative (tok_type t) \<noteq> None then None
      else case finder t c of
             Some seed \<Rightarrow> Some (seed, rev ts @ later)
           | None \<Rightarrow> fetch_seed finder c ts (t # later))"

definition or_parent :: "dom \<Rightarrow> bool \<Rightarrow> nat \<Rightarrow> nat" where
  "or_parent d b c = (if b then (case parentNode d c of Some p \<Rightarrow> p | None \<Rightarrow> c) else c)"

text \<open>\<open>getElementsByTagName("*")\<close>: the elements below a node, in document order.\<close>

definition elements_in :: "dom \<Rightarrow> nat \<Rightarrow> nat list" where
  "elements_in d c = filter (\<lambda>e. is_element d e \<and> c \<in> set (path d Up e)) [0..<length d]"

text \<open>
  The run of the compiled selector; \<open>s\<close> is the state of the caches and \<open>dn\<close> the counter \<open>done\<close>.
\<close>

definition run_selector ::
  "dom \<Rightarrow> (token \<Rightarrow> nat \<Rightarrow> bool) \<Rightarrow> token list list \<Rightarrow> nat list option \<Rightarrow> nat \<Rightarrow> bool \<Rightarrow> string \<Rightarrow> nat \<Rightarrow> cstate
    \<Rightarrow> nat list \<times> cstate" where
  "run_selector d F gs seed c xml selector dn s =
     (let outer = or_parent d (rsibling selector) c;
          elems = (case seed of Some es \<Rightarrow> es | None \<Rightarrow> elements_in d outer)
      in superMatcher (fst (compile d F gs dn)) elems (Some (One c)) xml (Outer (One outer)) s)"

definition select ::
  "dom \<Rightarrow> (token \<Rightarrow> nat \<Rightarrow> bool) \<Rightarrow> (token \<Rightarrow> nat \<Rightarrow> nat list option)
    \<Rightarrow> string \<Rightarrow> nat \<Rightarrow> bool \<Rightarrow> nat \<Rightarrow> cstate \<Rightarrow> sizzle_error + nat list \<times> cstate" where
  "select d F finder selector context xml dn s =
     (case tokenize selector of
        Inl e \<Rightarrow> Inl e
      | Inr gs \<Rightarrow>
          (case gs of
             [tokens] \<Rightarrow>
               (let by_id = (2 < length tokens \<and> tok_type (tokens ! 0) = ''ID'' \<and> node_type_of (d ! context) = 9 \<and>
                             \<not> xml \<and> relative (tok_type (tokens ! 1)) \<noteq> None);
                    found = (if by_id then (case finder (tokens ! 0) context of Some (m # ms) \<Rightarrow> Some m | _ \<Rightarrow> None)
                             else Some context)
                in case found of
                     None \<Rightarrow> Inr ([], s)
                   | Some c \<Rightarrow>
                       (let tokens' = (if by_id then tl tokens else tokens);
                            selector' = (if by_id then drop (length (tok_value (tokens ! 0))) selector else selector);
                            seek_in = or_parent d (rsibling (tok_type (tokens' ! 0))) c
                        in if test needsContext selector' then Inr (run_selector d F [tokens'] None c xml selector' dn s)
                           else case fetch_seed finder seek_in (rev tokens') [] of
                                  None \<Rightarrow> Inr (run_selector d F [tokens'] None c xml selector' dn s)
                                | Some (seed, kept) \<Rightarrow>
                                    if seed = [] \<or> toSelector kept = [] then Inr (seed, s)
                                    else Inr (run_selector d F [kept] (Some seed) c xml (toSelector kept) dn s)))
           | _ \<Rightarrow> Inr (run_selector d F gs None context xml selector dn s)))"

section \<open>The seed and the context change nothing\<close>

lemma path_trans: "a \<in> set (path d k e) \<Longrightarrow> b \<in> set (path d k a) \<Longrightarrow> b \<in> set (path d k e)"
proof (induction d k e rule: path.induct)
  case (1 d k e)
  then show ?case by (cases "go d k e") (auto simp: path_None path_Some)
qed

lemma previous_parent: "previousSibling d e = Some a \<Longrightarrow> parentNode d a = parentNode d e"
  by (auto simp: previousSibling_def find_Some_iff siblings_def)

lemma before_parent: "a \<in> set (path d Before e) \<Longrightarrow> parentNode d a = parentNode d e"
proof (induction d Before e rule: path.induct)
  case (1 d e)
  then show ?case
    by (cases "go d Before e") (auto simp: path_None path_Some go_def dest: previous_parent)
qed

lemma path_Up_parent: "parentNode d a = parentNode d e \<Longrightarrow> path d Up a = path d Up e"
  by (simp add: path.simps [of d Up a] path.simps [of d Up e] go_def)

lemma candidates_path: "a \<in> set (candidates d r b e) \<Longrightarrow> a \<in> set (path d (fst r) e)"
  by (auto simp: candidates_def tried_def Let_def dest: in_set_takeD split: if_splits)

lemma candidate_context: "a \<in> set (candidates d r b e) \<Longrightarrow> c \<in> set (path d Up a) \<Longrightarrow> c \<in> set (path d Up e)"
proof (cases "fst r")
  case Up
  assume "a \<in> set (candidates d r b e)" "c \<in> set (path d Up a)"
  then show ?thesis using candidates_path [of a d r b e] path_trans [of a d Up e c] Up by simp
next
  case Before
  assume "a \<in> set (candidates d r b e)" "c \<in> set (path d Up a)"
  then show ?thesis
    using candidates_path [of a d r b e] before_parent [of a d e] path_Up_parent [of d a e] Before by simp
qed

lemma holds_context:
  "holds d F B ts e \<Longrightarrow> (\<And>a. B a \<Longrightarrow> c \<in> set (path d Up a)) \<Longrightarrow> c \<in> set (path d Up e)"
proof (induction ts arbitrary: e)
  case (Cons t ts)
  then show ?case by (auto dest: candidate_context split: option.splits)
qed simp

text \<open>A filter of the last compound may be tested first.\<close>

lemma holds_move:
  assumes "\<forall>u\<in>set us. relative (tok_type u) = None" "relative (tok_type t) = None"
  shows "holds d F B (us @ t # ts) e \<longleftrightarrow> F t e \<and> holds d F B (us @ ts) e"
  using assms by (induction us) auto

lemma fetch_seed_Some:
  "fetch_seed finder c ts later = Some (seed, kept) \<Longrightarrow>
   \<exists>us t vs. ts = us @ t # vs \<and> (\<forall>u\<in>set us. relative (tok_type u) = None) \<and> relative (tok_type t) = None \<and>
     finder t c = Some seed \<and> kept = rev vs @ rev us @ later"
proof (induction ts arbitrary: later)
  case (Cons t ts)
  show ?case
  proof (cases "finder t c")
    case None
    with Cons.prems have t: "relative (tok_type t) = None" "fetch_seed finder c ts (t # later) = Some (seed, kept)"
      by (cases "relative (tok_type t)"; simp)+
    from Cons.IH [OF t(2)] obtain us u vs where "ts = us @ u # vs" "\<forall>u\<in>set us. relative (tok_type u) = None"
      "relative (tok_type u) = None" "finder u c = Some seed" "kept = rev vs @ rev us @ t # later"
      by blast
    with t(1) show ?thesis by (intro exI [of _ "t # us"] exI [of _ u] exI [of _ vs]) simp
  next
    case (Some es)
    with Cons.prems have "relative (tok_type t) = None" "es = seed" "kept = rev ts @ later"
      by (cases "relative (tok_type t)"; simp)+
    with Some have "t # ts = [] @ t # ts \<and> (\<forall>u\<in>set []. relative (tok_type u) = None) \<and>
        relative (tok_type t) = None \<and> finder t c = Some seed \<and> kept = rev ts @ rev [] @ later"
      by simp
    then show ?thesis by blast
  qed
qed simp

lemma elements_in_sub:
  assumes "\<And>e. P e \<Longrightarrow> c \<in> set (path d Up e)"
  shows "filter P (elements_in d (or_parent d b c)) = filter P (elements_in d c)"
proof -
  have "or_parent d b c \<in> set (path d Up e)" if "c \<in> set (path d Up e)" for e
  proof (cases "b \<and> parentNode d c \<noteq> None")
    case True
    then obtain p where p: "parentNode d c = Some p" by blast
    then have "p \<in> set (path d Up c)" by (simp add: path.simps [of d Up c] go_def)
    with True p path_trans [OF that] show ?thesis by (simp add: or_parent_def)
  next
    case False
    then have "or_parent d b c = c" by (auto simp: or_parent_def)
    then show ?thesis using that by simp
  qed
  then have "P e \<and> is_element d e \<and> or_parent d b c \<in> set (path d Up e) \<longleftrightarrow>
      P e \<and> is_element d e \<and> c \<in> set (path d Up e)" for e
    using assms by blast
  then show ?thesis by (simp add: elements_in_def conj_commute cong: filter_cong)
qed

text \<open>What the host promises: the elements below the context that the filter of the token accepts, in order.\<close>

definition finds :: "dom \<Rightarrow> (token \<Rightarrow> nat \<Rightarrow> bool) \<Rightarrow> (token \<Rightarrow> nat \<Rightarrow> nat list option) \<Rightarrow> bool" where
  "finds d F finder \<longleftrightarrow> (\<forall>t c seed. finder t c = Some seed \<longrightarrow> seed = filter (F t) (elements_in d c))"

definition context_env :: "nat \<Rightarrow> menv" where
  "context_env c = run_env (Some (One c)) False (Outer (One c))"

lemma run_env_context: "run_env (Some (One c)) False (Outer x) = context_env c"
  by (simp add: context_env_def run_env_def)

lemma run_selector_ok:
  assumes "runs_ok s" "run_selector d F [ts] seed c False sel dn s = (rs, s')"
  shows "rs = filter (selects d F (context_env c) ts)
      (case seed of Some es \<Rightarrow> es | None \<Rightarrow> elements_in d (or_parent d (rsibling sel) c))"
proof -
  obtain ms dn' where ms: "compile d F [ts] dn = (ms, dn')" by (cases "compile d F [ts] dn")
  define elems where "elems = (case seed of Some es \<Rightarrow> es | None \<Rightarrow> elements_in d (or_parent d (rsibling sel) c))"
  have "rs = fst (superMatcher ms elems (Some (One c)) False (Outer (One (or_parent d (rsibling sel) c))) s)"
    using assms(2) ms by (simp add: run_selector_def Let_def elems_def)
  also have "\<dots> = filter (\<lambda>e. \<exists>g\<in>set [ts]. selects d F (context_env c) g e) elems"
    using superMatcher_run [OF assms(1) ms, of elems "Some (One c)" False "Outer (One (or_parent d (rsibling sel) c))"]
    by (simp only: run_env_context)
  finally show ?thesis by (simp add: elems_def)
qed

lemma selects_context:
  assumes "selects d F (context_env c) ts e" "leadingRelative ts = None" "c \<noteq> 0 \<or> (\<forall>a. is_element d a \<longrightarrow> 0 \<in> set (path d Up a))"
    and "is_element d e"
  shows "c \<in> set (path d Up e)"
proof (cases "c = 0")
  case False
  have base: "base_holds d (context_env c) False (Up, False) a \<Longrightarrow> c \<in> set (path d Up a)" for a
    using False candidates_path [of c d "(Up, False)" True a]
    by (auto simp: base_holds_def in_context_def context_env_def run_env_def)
  have "holds d F (base_holds d (context_env c) False (Up, False)) (rev ts) e"
    using assms(1,2) by (simp add: selects_def implicitRelative_def Let_def)
  from holds_context [OF this base] show ?thesis by simp
qed (use assms in auto)

text \<open>The tokens kept with a seed mean the rest of the selector.\<close>

lemma kept_set: "fetch_seed finder c ts later = Some (seed, kept) \<Longrightarrow> set kept \<subseteq> set ts \<union> set later"
  using fetch_seed_Some [of finder c ts later seed kept] by auto

lemma selects_single:
  assumes "fetch_seed finder c (rev ts) [] = Some (seed, [])"
  shows "\<exists>t. finder t c = Some seed \<and>
    (\<forall>e. c \<in> set (path d Up e) \<longrightarrow> (selects d F (context_env c) ts e \<longleftrightarrow> F t e))"
proof -
  obtain t where t: "ts = [t]" "relative (tok_type t) = None" "finder t c = Some seed"
    using fetch_seed_Some [OF assms] by auto
  have "base_holds d (context_env c) False (Up, False) e" if "c \<in> set (path d Up e)" for e
    using that by (simp add: base_holds_def in_context_def context_env_def run_env_def candidates_def tried_def)
  with t show ?thesis by (auto simp: selects_def leadingRelative_def implicitRelative_def)
qed

lemma selects_kept:
  assumes "fetch_seed finder c (rev ts) [] = Some (seed, kept)" "leadingRelative ts = None" "kept \<noteq> []"
  shows "\<exists>t. finder t c = Some seed \<and> leadingRelative kept = None \<and>
    (\<forall>e. selects d F v ts e \<longleftrightarrow> F t e \<and> selects d F v kept e)"
proof -
  obtain us t vs where r: "rev ts = us @ t # vs" "\<forall>u\<in>set us. relative (tok_type u) = None"
    "relative (tok_type t) = None" "finder t c = Some seed" "kept = rev vs @ rev us"
    using fetch_seed_Some [OF assms(1)] by auto
  then have ts: "ts = rev vs @ t # rev us" by (simp add: rev_swap)
  have lead: "leadingRelative kept = None"
  proof (cases "rev vs = []")
    case True
    with r(2,5) assms(3) show ?thesis by (cases "rev us") (auto simp: leadingRelative_def)
  next
    case False
    with assms(2) ts r(5) show ?thesis by (cases "rev vs") (auto simp: leadingRelative_def)
  qed
  let ?B = "base_holds d v False (Up, False)"
  have "selects d F v ts e \<longleftrightarrow> F t e \<and> selects d F v kept e" for e
  proof -
    have "rev kept = us @ vs" by (simp add: r(5))
    then show ?thesis using holds_move [OF r(2,3), of d F ?B vs e] r(1) assms(2) lead
      by (simp add: selects_def implicitRelative_def Let_def)
  qed
  then show ?thesis using r(4) lead by blast
qed

text \<open>A query for one group, by its cases: no seed, the seed alone, and the seed with what is left of the selector.\<close>

lemma select_one:
  assumes "tokenize sel = Inr [ts]" "tok_type (ts ! 0) \<noteq> ''ID''" "\<not> rsibling (tok_type (ts ! 0))"
  shows "select d F finder sel c False dn s =
     (if test needsContext sel then Inr (run_selector d F [ts] None c False sel dn s)
      else case fetch_seed finder c (rev ts) [] of
             None \<Rightarrow> Inr (run_selector d F [ts] None c False sel dn s)
           | Some (seed, kept) \<Rightarrow>
               if seed = [] \<or> toSelector kept = [] then Inr (seed, s)
               else Inr (run_selector d F [kept] (Some seed) c False (toSelector kept) dn s))"
  using assms by (simp add: select_def Let_def or_parent_def)

text \<open>The context may be widened: what a selector selects is below it.\<close>

lemma widened:
  assumes "leadingRelative ts = None" "c \<noteq> 0 \<or> (\<forall>a. is_element d a \<longrightarrow> 0 \<in> set (path d Up a))" "ts \<noteq> []"
  shows "filter (selects d F (context_env c) ts) (elements_in d (or_parent d b c)) =
    filter (selects d F (context_env c) ts) (elements_in d c)"
proof -
  have inside: "is_element d e \<and> selects d F (context_env c) ts e \<Longrightarrow> c \<in> set (path d Up e)" for e
    using selects_context [OF _ assms(1,2)] by blast
  have "filter (selects d F (context_env c) ts) (elements_in d x) =
      filter (\<lambda>e. is_element d e \<and> selects d F (context_env c) ts e) (elements_in d x)" for x
    by (auto simp: elements_in_def intro: filter_cong)
  then show ?thesis using inside by (simp add: elements_in_sub)
qed

text \<open>The seed is all of the answer, or what is left of the selector chooses the answer from it.\<close>

lemma seed_whole:
  assumes "fetch_seed finder c (rev ts) [] = Some (seed, [])" "finds d F finder"
  shows "seed = filter (selects d F (context_env c) ts) (elements_in d c)"
proof -
  obtain t where t: "finder t c = Some seed \<and> (\<forall>e. c \<in> set (path d Up e) \<longrightarrow> (selects d F (context_env c) ts e \<longleftrightarrow> F t e))"
    using selects_single [OF assms(1), of d F] by (rule exE)
  have "filter (selects d F (context_env c) ts) (elements_in d c) = filter (F t) (elements_in d c)"
    by (rule filter_cong [OF refl]) (simp add: elements_in_def t)
  with assms(2) t show ?thesis by (auto simp: finds_def)
qed

lemma seed_narrowed:
  assumes "fetch_seed finder c (rev ts) [] = Some (seed, kept)" "finds d F finder" "leadingRelative ts = None" "kept \<noteq> []"
  shows "filter (selects d F (context_env c) ts) (elements_in d c) = filter (selects d F (context_env c) kept) seed"
proof -
  obtain t where t: "finder t c = Some seed"
    "\<forall>e. selects d F (context_env c) ts e \<longleftrightarrow> F t e \<and> selects d F (context_env c) kept e"
    using selects_kept [OF assms(1,3,4), of d F "context_env c"] by blast
  have P: "selects d F (context_env c) ts = (\<lambda>e. F t e \<and> selects d F (context_env c) kept e)" using t(2) by blast
  have "seed = filter (F t) (elements_in d c)" using assms(2) t(1) by (auto simp: finds_def)
  then show ?thesis by (simp add: P conj_commute)
qed

text \<open>
  C13: A query for one group of compounds in an HTML document, without a leading combinator or id, returns in
  document order the elements below the context that the selector selects: the seed from the host, the
  narrowed selector, the wider root for sibling combinators and the caches change nothing.
\<close>

theorem select_narrowed:
  assumes "tokenize sel = Inr [ts]" "leadingRelative ts = None" "tok_type (ts ! 0) \<noteq> ''ID''"
    and "\<forall>t\<in>set ts. tok_value t \<noteq> []" "finds d F finder" "runs_ok s"
    and "c \<noteq> 0 \<or> (\<forall>a. is_element d a \<longrightarrow> 0 \<in> set (path d Up a))"
    and "select d F finder sel c False dn s = Inr (rs, s')"
  shows "rs = filter (selects d F (context_env c) ts) (elements_in d c)"
proof -
  let ?P = "selects d F (context_env c) ts"
  have types: "ts \<noteq> []" "relative (tok_type (ts ! 0)) = None"
    using tokens_typed [OF assms(1)] assms(2) by (auto simp: leadingRelative_def)
  have "token_ok (ts ! 0)" using tokens_typed [OF assms(1)] types(1) by simp
  with types(2) have "\<not> rsibling (tok_type (ts ! 0))" by (auto simp: token_ok_def Let_def rsibling_def)
  note sel = select_one [OF assms(1,3) this, of d F finder c dn s, symmetric, unfolded assms(8)]
  have run: "rs = filter ?P (elements_in d c)" if "run_selector d F [ts] None c False sel dn s = (rs, s')"
    using run_selector_ok [OF assms(6), of d F ts None c sel dn rs s'] that widened [OF assms(2,7) types(1)] by simp
  show ?thesis
  proof (cases "test needsContext sel \<or> fetch_seed finder c (rev ts) [] = None")
    case True
    with sel run show ?thesis by (auto split: if_splits)
  next
    case no_run: False
    then obtain seed kept where f: "fetch_seed finder c (rev ts) [] = Some (seed, kept)" by auto
    show ?thesis
    proof (cases "kept = []")
      case True
      with seed_whole [OF f [unfolded True] assms(5)] sel f no_run show ?thesis by (simp add: toSelector_def)
    next
      case kept: False
      have "tok_value (hd kept) \<noteq> []" using kept_set [OF f] kept assms(4) by (cases kept) auto
      then have "toSelector kept \<noteq> []" using kept by (cases kept) (auto simp: toSelector_def)
      with sel f no_run have "(if seed = [] then (seed, s)
          else run_selector d F [kept] (Some seed) c False (toSelector kept) dn s) = (rs, s')"
        by (auto split: if_splits)
      then show ?thesis
        using seed_narrowed [OF f assms(5,2) kept]
          run_selector_ok [OF assms(6), of d F kept "Some seed" c "toSelector kept" dn rs s'] by (auto split: if_splits)
    qed
  qed
qed

definition tag_test :: "dom \<Rightarrow> token \<Rightarrow> nat \<Rightarrow> bool" where
  "tag_test d = (\<lambda>t e. node_name d e = tok_value t)"

definition tag_finder :: "dom \<Rightarrow> token \<Rightarrow> nat \<Rightarrow> nat list option" where
  "tag_finder d t c = Some (filter (tag_test d t) (elements_in d c))"

lemma select_narrowed_witness:
  "select demo_doc (tag_test demo_doc) (tag_finder demo_doc) demo_selector 1 False 0 no_runs = Inr ([3], no_runs) \<and>
   filter (selects demo_doc (tag_test demo_doc) (context_env 1)
     [\<lparr>tok_value = ''b'', tok_type = ''TAG'', tok_matches = [Str ''b'']\<rparr>]) (elements_in demo_doc 1) = [3]"
proof -
  have "\<not> test needsContext demo_selector" by code_simp
  moreover have "fetch_seed (tag_finder demo_doc) 1
      (rev [\<lparr>tok_value = ''b'', tok_type = ''TAG'', tok_matches = [Str ''b'']\<rparr>]) [] = Some ([3], [])"
    by code_simp
  ultimately have sel: "select demo_doc (tag_test demo_doc) (tag_finder demo_doc) demo_selector 1 False 0 no_runs =
      Inr ([3], no_runs)"
    by (simp add: select_def demo_tokens Let_def or_parent_def rsibling_def toSelector_def)
  have "finds demo_doc (tag_test demo_doc) (tag_finder demo_doc)" by (simp add: finds_def tag_finder_def)
  note select_narrowed [OF demo_tokens _ _ _ this no_runs_ok _ sel]
  with sel show ?thesis by (simp add: leadingRelative_def relative_def)
qed

text \<open>
  In an XML document the first matcher does not look at the context, and a selector with a sibling combinator
  searches below the parent of the context: the query returns an element outside its context.
\<close>

definition xml_doc :: dom where
  "xml_doc = [\<lparr>node_type_of = 9, node_name_of = ''#document'', parent_of = None, attributes_of = []\<rparr>,
     \<lparr>node_type_of = 1, node_name_of = ''r'', parent_of = Some 0, attributes_of = []\<rparr>,
     \<lparr>node_type_of = 1, node_name_of = ''c'', parent_of = Some 1, attributes_of = []\<rparr>,
     \<lparr>node_type_of = 1, node_name_of = ''a'', parent_of = Some 1, attributes_of = []\<rparr>,
     \<lparr>node_type_of = 1, node_name_of = ''b'', parent_of = Some 1, attributes_of = []\<rparr>]"

lemma xml_context_ignored:
  "fst (run_selector xml_doc (tag_test xml_doc)
     [[\<lparr>tok_value = ''a'', tok_type = ''TAG'', tok_matches = [Str ''a'']\<rparr>,
       \<lparr>tok_value = ''+'', tok_type = ''+'', tok_matches = []\<rparr>,
       \<lparr>tok_value = ''b'', tok_type = ''TAG'', tok_matches = [Str ''b'']\<rparr>]] None 2 True ''a+b'' 0 no_runs) = [4] \<and>
   2 \<notin> set (path xml_doc Up 4)"
  by code_simp

end
