(* ===== verification/J_Order.thy ===== *)
theory J_Order
  imports J_Dom
begin

text \<open>
  Of Sizzle (\<open>jquery-3.1.0.js\<close>): the caches of limited size, and the sort in document order for hosts without
  \<open>compareDocumentPosition\<close>, with the removal of duplicates.
\<close>

section \<open>createCache\<close>

record 'v cache =
  cache_keys :: "string list"
  cache_entries :: "string \<rightharpoonup> 'v"

definition empty_cache :: "'v cache" where
  "empty_cache = \<lparr>cache_keys = [], cache_entries = Map.empty\<rparr>"

definition cache_put :: "nat \<Rightarrow> string \<Rightarrow> 'v \<Rightarrow> 'v cache \<Rightarrow> 'v cache" where
  "cache_put cacheLength key value c =
     (let ks = cache_keys c @ [key @ '' ''];
          c' = (if cacheLength < length ks
                then \<lparr>cache_keys = tl ks, cache_entries = (cache_entries c)(hd ks := None)\<rparr>
                else c\<lparr>cache_keys := ks\<rparr>)
      in c'\<lparr>cache_entries := (cache_entries c')(key @ '' '' \<mapsto> value)\<rparr>)"

definition cache_get :: "string \<Rightarrow> 'v cache \<Rightarrow> 'v option" where
  "cache_get key c = cache_entries c (key @ '' '')"

definition cache_ok :: "nat \<Rightarrow> 'v cache \<Rightarrow> bool" where
  "cache_ok n c \<longleftrightarrow> distinct (cache_keys c) \<and> dom (cache_entries c) = set (cache_keys c) \<and> length (cache_keys c) \<le> n"

lemma cache_put_ok:
  assumes "cache_ok n c" "cache_get key c = None" "0 < n"
  shows "cache_ok n (cache_put n key v c) \<and> cache_get key (cache_put n key v c) = Some v \<and>
    (\<forall>k. k \<noteq> key \<longrightarrow> cache_get k (cache_put n key v c) =
       (if length (cache_keys c) = n \<and> k @ '' '' = hd (cache_keys c) then None else cache_get k c))"
proof -
  have new: "key @ '' '' \<notin> set (cache_keys c)" using assms(1,2) by (auto simp: cache_ok_def cache_get_def)
  show ?thesis
  proof (cases "length (cache_keys c) < n")
    case True
    then show ?thesis using assms new by (auto simp: cache_put_def cache_get_def cache_ok_def)
  next
    case False
    with assms(1,3) obtain k ks where ks: "cache_keys c = k # ks" "Suc (length ks) = n"
      by (cases "cache_keys c") (auto simp: cache_ok_def)
    then show ?thesis using assms new by (auto simp: cache_put_def cache_get_def cache_ok_def)
  qed
qed

section \<open>The order of the nodes\<close>

text \<open>\<open>sourceIndex\<close> is a property of some hosts only.\<close>

function follows :: "dom \<Rightarrow> nat \<Rightarrow> nat \<Rightarrow> bool" where
  "follows d cur b = (case nextSibling d cur of None \<Rightarrow> False | Some n \<Rightarrow> n = b \<or> follows d n b)"
  by pat_completeness auto
termination
  by (relation "measure (\<lambda>(d, cur, b). length d - cur)")
    (auto simp: nextSibling_def find_Some_iff)

declare follows.simps [simp del]

definition siblingCheck :: "dom \<Rightarrow> (nat \<Rightarrow> int option) \<Rightarrow> nat option \<Rightarrow> nat option \<Rightarrow> int" where
  "siblingCheck d sourceIndex a b =
     (case (a, b) of
        (Some x, Some y) \<Rightarrow>
          (let diff = (if is_element d x \<and> is_element d y
                       then (case (sourceIndex x, sourceIndex y) of (Some i, Some j) \<Rightarrow> i - j | _ \<Rightarrow> 0) else 0)
           in if diff \<noteq> 0 then diff else if follows d x y then -1 else 1)
      | (Some x, None) \<Rightarrow> 1
      | (None, _) \<Rightarrow> -1)"

text \<open>The list of a node and its ancestors from the root, and the first place where two differ.\<close>

definition ancestors :: "dom \<Rightarrow> nat \<Rightarrow> nat list" where
  "ancestors d a = rev (path d Up a) @ [a]"

fun discrepancy :: "nat list \<Rightarrow> nat list \<Rightarrow> nat" where
  "discrepancy (a # as) (b # bs) = (if a = b then Suc (discrepancy as bs) else 0)"
| "discrepancy _ _ = 0"

definition at :: "'a list \<Rightarrow> nat \<Rightarrow> 'a option" where
  "at xs i = (if i < length xs then Some (xs ! i) else None)"

text \<open>\<open>sortOrder\<close> without \<open>compareDocumentPosition\<close>; the document is the node 0, and the sort is stable.\<close>

definition sortOrder :: "dom \<Rightarrow> (nat \<Rightarrow> int option) \<Rightarrow> nat \<Rightarrow> nat \<Rightarrow> int" where
  "sortOrder d sourceIndex a b =
     (if a = b then 0
      else if parentNode d a = None \<or> parentNode d b = None then
        (if a = 0 then -1 else if b = 0 then 1
         else if parentNode d a \<noteq> None then -1 else if parentNode d b \<noteq> None then 1 else 0)
      else if parentNode d a = parentNode d b then siblingCheck d sourceIndex (Some a) (Some b)
      else
        (let ap = ancestors d a; bp = ancestors d b; i = discrepancy ap bp
         in if i \<noteq> 0 then siblingCheck d sourceIndex (at ap i) (at bp i)
            else if at ap i = Some 0 then -1 else if at bp i = Some 0 then 1 else 0))"

section \<open>uniqueSort\<close>

text \<open>The indexes of the second of two equal neighbours, and their removal from the last to the first.\<close>

definition duplicates :: "nat list \<Rightarrow> nat list" where
  "duplicates xs = filter (\<lambda>i. xs ! (i - 1) = xs ! i) [1..<length xs]"

definition splice_all :: "nat list \<Rightarrow> nat list \<Rightarrow> nat list" where
  "splice_all dups xs = foldr (\<lambda>j ys. take j ys @ drop (Suc j) ys) dups xs"

text \<open>\<open>detects\<close> says that the engine calls the comparator with equal elements, which sets \<open>hasDuplicate\<close>.\<close>

definition uniqueSort :: "dom \<Rightarrow> (nat \<Rightarrow> int option) \<Rightarrow> bool \<Rightarrow> nat list \<Rightarrow> nat list" where
  "uniqueSort d sourceIndex detects results =
     (let sorted = sort_cmp (sortOrder d sourceIndex) results;
          hasDuplicate = (\<not> detects \<or> \<not> distinct results)
      in if hasDuplicate then splice_all (duplicates sorted) sorted else sorted)"

section \<open>The sort is in document order\<close>

lemma nextSibling_Some:
  "nextSibling d a = Some n \<longleftrightarrow> siblings d a n \<and> a < n \<and> n < length d \<and> (\<forall>j. a < j \<longrightarrow> j < n \<longrightarrow> \<not> siblings d a j)"
proof -
  have "nextSibling d a = Some n \<longleftrightarrow>
      (\<exists>i<length d - Suc a. siblings d a (Suc a + i) \<and> n = Suc a + i \<and> (\<forall>j<i. \<not> siblings d a (Suc a + j)))"
    by (auto simp: nextSibling_def find_Some_iff)
  also have "\<dots> \<longleftrightarrow> siblings d a n \<and> a < n \<and> n < length d \<and> (\<forall>j. a < j \<longrightarrow> j < n \<longrightarrow> \<not> siblings d a j)"
  proof
    assume "\<exists>i<length d - Suc a. siblings d a (Suc a + i) \<and> n = Suc a + i \<and> (\<forall>j<i. \<not> siblings d a (Suc a + j))"
    then obtain i where i: "i < length d - Suc a" "siblings d a (Suc a + i)" "n = Suc a + i"
      "\<forall>j<i. \<not> siblings d a (Suc a + j)"
      by blast
    have "\<not> siblings d a j" if "a < j" "j < n" for j
      using i(4) [rule_format, of "j - Suc a"] that i(3) by simp
    with i show "siblings d a n \<and> a < n \<and> n < length d \<and> (\<forall>j. a < j \<longrightarrow> j < n \<longrightarrow> \<not> siblings d a j)" by auto
  next
    assume *: "siblings d a n \<and> a < n \<and> n < length d \<and> (\<forall>j. a < j \<longrightarrow> j < n \<longrightarrow> \<not> siblings d a j)"
    then show "\<exists>i<length d - Suc a. siblings d a (Suc a + i) \<and> n = Suc a + i \<and> (\<forall>j<i. \<not> siblings d a (Suc a + j))"
      by (intro exI [of _ "n - Suc a"]) auto
  qed
  finally show ?thesis .
qed

lemma nextSibling_None: "nextSibling d a = None \<longleftrightarrow> (\<forall>j. a < j \<longrightarrow> j < length d \<longrightarrow> \<not> siblings d a j)"
  by (auto simp: nextSibling_def find_None_iff Suc_le_eq)

lemma siblings_trans: "siblings d a n \<Longrightarrow> siblings d n b \<longleftrightarrow> siblings d a b"
  by (auto simp: siblings_def)

lemma follows_iff: "follows d a b \<longleftrightarrow> siblings d a b \<and> a < b \<and> b < length d"
proof (induction d a b rule: follows.induct)
  case (1 d a b)
  show ?case
  proof (cases "nextSibling d a")
    case None
    then have "\<not> follows d a b" by (simp add: follows.simps [of d a])
    with None show ?thesis by (auto simp: nextSibling_None)
  next
    case (Some n)
    then have n: "siblings d a n" "a < n" "n < length d" "\<forall>j. a < j \<longrightarrow> j < n \<longrightarrow> \<not> siblings d a j"
      by (simp_all add: nextSibling_Some)
    have "follows d a b \<longleftrightarrow> n = b \<or> follows d n b" using Some by (simp add: follows.simps [of d a])
    also have "\<dots> \<longleftrightarrow> n = b \<or> siblings d a b \<and> n < b \<and> b < length d"
      using 1 [OF Some] siblings_trans [OF n(1)] by simp
    also have "\<dots> \<longleftrightarrow> siblings d a b \<and> a < b \<and> b < length d"
      using n by (meson less_trans linorder_neqE_nat)
    finally show ?thesis .
  qed
qed

lemma ancestors_root: "parentNode d a = None \<Longrightarrow> ancestors d a = [a]"
  by (simp add: ancestors_def path_None go_def)

lemma ancestors_parent: "parentNode d a = Some p \<Longrightarrow> ancestors d a = ancestors d p @ [a]"
  by (simp add: ancestors_def path_Some go_def)

lemma ancestors_nonempty [simp]: "ancestors d a \<noteq> []"
  by (simp add: ancestors_def)

lemma ancestors_last [simp]: "last (ancestors d a) = a"
  by (simp add: ancestors_def)

lemma parent_less: "parentNode d a = Some p \<Longrightarrow> p < a"
  using go_less [of d Up a p] by (simp add: go_def)

lemma ancestors_nth: "Suc i < length (ancestors d a) \<Longrightarrow> parentNode d (ancestors d a ! Suc i) = Some (ancestors d a ! i)"
proof (induction a rule: less_induct)
  case (less a)
  show ?case
  proof (cases "parentNode d a")
    case None
    with less.prems show ?thesis by (simp add: ancestors_root)
  next
    case (Some p)
    note anc = ancestors_parent [OF Some]
    show ?thesis
    proof (cases "Suc i < length (ancestors d p)")
      case True
      with less.IH [OF parent_less [OF Some] True] show ?thesis by (simp add: anc nth_append)
    next
      case False
      with less.prems have i: "length (ancestors d p) = Suc i" by (simp add: anc)
      then have "ancestors d p ! i = p" using last_conv_nth [of "ancestors d p"] by simp
      with Some i show ?thesis by (simp add: anc nth_append)
    qed
  qed
qed

lemma ancestors_le: "x \<in> set (ancestors d a) \<Longrightarrow> x \<le> a"
proof (induction a rule: less_induct)
  case (less a)
  show ?case
  proof (cases "parentNode d a")
    case None
    with less.prems show ?thesis by (simp add: ancestors_root)
  next
    case (Some p)
    with less.prems less.IH [OF parent_less [OF Some]] parent_less [OF Some] show ?thesis
      by (auto simp: ancestors_parent [OF Some])
  qed
qed

lemma discrepancy_props:
  "take (discrepancy as bs) as = take (discrepancy as bs) bs \<and>
   discrepancy as bs \<le> length as \<and> discrepancy as bs \<le> length bs \<and>
   (at as (discrepancy as bs) = at bs (discrepancy as bs) \<longrightarrow> as = bs)"
  by (induction as bs rule: discrepancy.induct) (auto simp: at_def split: if_splits)

text \<open>The numbers are document order: what is below a sibling comes before the siblings after it.\<close>

definition doc_order :: "dom \<Rightarrow> bool" where
  "doc_order d \<longleftrightarrow>
     (\<forall>x y a b. siblings d x y \<longrightarrow> x < y \<longrightarrow> y < length d \<longrightarrow>
        x \<in> set (ancestors d a) \<longrightarrow> y \<in> set (ancestors d b) \<longrightarrow> a < b)"

definition index_ok :: "(nat \<Rightarrow> int option) \<Rightarrow> bool" where
  "index_ok sourceIndex \<longleftrightarrow>
     (\<forall>x y i j. sourceIndex x = Some i \<longrightarrow> sourceIndex y = Some j \<longrightarrow> (i < j \<longleftrightarrow> x < y))"

definition in_doc :: "dom \<Rightarrow> nat \<Rightarrow> bool" where
  "in_doc d a \<longleftrightarrow> a < length d \<and> hd (ancestors d a) = 0"

lemma siblingCheck_order:
  assumes "index_ok si" "siblings d x y" "x \<noteq> y" "x < length d" "y < length d"
  shows "(siblingCheck d si (Some x) (Some y) < 0 \<longleftrightarrow> x < y) \<and> (0 < siblingCheck d si (Some x) (Some y) \<longleftrightarrow> y < x)"
proof -
  have follows: "follows d x y \<longleftrightarrow> x < y" using assms by (simp add: follows_iff)
  show ?thesis
  proof (cases "is_element d x \<and> is_element d y \<and> si x \<noteq> None \<and> si y \<noteq> None")
    case True
    then obtain i j where ij: "si x = Some i" "si y = Some j" by blast
    have "i < j \<longleftrightarrow> x < y" "j < i \<longleftrightarrow> y < x" using assms(1) ij by (auto simp: index_ok_def)
    moreover from this have "i \<noteq> j" using assms(3) by auto
    moreover have "siblingCheck d si (Some x) (Some y) = i - j"
      using True ij \<open>i \<noteq> j\<close> by (simp add: siblingCheck_def)
    ultimately show ?thesis by simp
  next
    case False
    then have "siblingCheck d si (Some x) (Some y) = (if follows d x y then -1 else 1)"
      by (auto simp: siblingCheck_def Let_def split: option.splits)
    with follows assms(3) show ?thesis by auto
  qed
qed

lemma sortOrder_order:
  assumes wf: "doc_order d" "index_ok si" and a: "in_doc d a" and b: "in_doc d b"
  shows "(sortOrder d si a b < 0 \<longleftrightarrow> a < b) \<and> (0 < sortOrder d si a b \<longleftrightarrow> b < a)"
proof (cases "a = b \<or> parentNode d a = None \<or> parentNode d b = None")
  case True
  have root: "parentNode d x = None \<Longrightarrow> in_doc d x \<Longrightarrow> x = 0" for x by (simp add: in_doc_def ancestors_root)
  have top: "parentNode d 0 = None" using parent_less [of d 0] by (cases "parentNode d 0") auto
  consider "a = b" | "a \<noteq> b" "a = 0" | "a \<noteq> b" "a \<noteq> 0" "b = 0" using True root a b by blast
  then show ?thesis by cases (simp_all add: sortOrder_def top)
next
  case False
  show ?thesis
  proof (cases "parentNode d a = parentNode d b")
    case True
    with False have "siblings d a b" by (simp add: siblings_def)
    with siblingCheck_order [OF wf(2) this] False True a b show ?thesis by (auto simp: sortOrder_def in_doc_def)
  next
    case parents: False
    let ?ap = "ancestors d a" and ?bp = "ancestors d b"
    define i where "i = discrepancy ?ap ?bp"
    note p = discrepancy_props [of ?ap ?bp, folded i_def]
    have "hd ?ap = hd ?bp" using a b by (simp add: in_doc_def)
    then have i: "0 < i" unfolding i_def by (cases ?ap; cases ?bp) auto
    have ne: "?ap \<noteq> ?bp" using False ancestors_last [of d a] ancestors_last [of d b] by metis
    have sort: "sortOrder d si a b = siblingCheck d si (at ?ap i) (at ?bp i)"
    proof -
      have "a \<noteq> b" "\<not> (parentNode d a = None \<or> parentNode d b = None)" using False by auto
      with parents i show ?thesis unfolding sortOrder_def Let_def i_def [symmetric] by (simp only: if_False) simp
    qed
    have prev: "?ap ! (i - 1) = ?bp ! (i - 1)"
      using p i by (metis diff_less less_one nth_take)
    consider "i = length ?ap" "i < length ?bp" | "i < length ?ap" "i = length ?bp" | "i < length ?ap" "i < length ?bp"
      using p ne by (fastforce simp: at_def)
    then show ?thesis
    proof cases
      case 1
      have "a \<in> set ?bp" using prev 1 i last_conv_nth [of ?ap] by (metis One_nat_def ancestors_last ancestors_nonempty diff_less less_imp_diff_less nth_mem zero_less_one)
      with ancestors_le False have "a < b" by (metis le_neq_implies_less)
      with 1 sort show ?thesis by (simp add: at_def siblingCheck_def)
    next
      case 2
      have "b \<in> set ?ap" using prev 2 i last_conv_nth [of ?bp] by (metis One_nat_def ancestors_last ancestors_nonempty diff_less less_imp_diff_less nth_mem zero_less_one)
      with ancestors_le False have "b < a" by (metis le_neq_implies_less)
      with 2 sort show ?thesis by (simp add: at_def siblingCheck_def)
    next
      case 3
      let ?x = "?ap ! i" and ?y = "?bp ! i"
      have "parentNode d ?x = Some (?ap ! (i - 1))" "parentNode d ?y = Some (?ap ! (i - 1))"
        using ancestors_nth [of "i - 1" d a] ancestors_nth [of "i - 1" d b] 3 i prev by simp_all
      then have sib: "siblings d ?x ?y" "siblings d ?y ?x" by (simp_all add: siblings_def)
      have xy: "?x \<noteq> ?y" using p ne 3 by (auto simp: at_def)
      have mem: "?x \<in> set ?ap" "?y \<in> set ?bp" using 3 by simp_all
      have lt: "?x < length d" "?y < length d"
        using ancestors_le mem a b by (meson in_doc_def le_less_trans)+
      have "a < b \<longleftrightarrow> ?x < ?y"
        using wf(1) sib lt mem xy unfolding doc_order_def by (metis less_asym linorder_neqE_nat)
      moreover have "b < a \<longleftrightarrow> ?y < ?x"
        using wf(1) sib lt mem xy unfolding doc_order_def by (metis less_asym linorder_neqE_nat)
      moreover have "sortOrder d si a b = siblingCheck d si (Some ?x) (Some ?y)" using sort 3 by (simp add: at_def)
      ultimately show ?thesis using siblingCheck_order [OF wf(2) sib(1) xy lt] by simp
    qed
  qed
qed

lemma sortOrder_comparator:
  assumes "doc_order d" "index_ok si"
  shows "comparator (sortOrder d si) (in_doc d)"
proof
  have le: "sortOrder d si a b \<le> 0 \<longleftrightarrow> a \<le> b" if "in_doc d a" "in_doc d b" for a b
    using sortOrder_order [OF assms that] by linarith
  show "sortOrder d si b a \<le> 0" if "in_doc d a" "in_doc d b" "0 < sortOrder d si a b" for a b
    using sortOrder_order [OF assms that(1,2)] le [OF that(2,1)] that(3) by simp
  show "sortOrder d si a c \<le> 0"
    if "in_doc d a" "in_doc d b" "in_doc d c" "sortOrder d si a b \<le> 0" "sortOrder d si b c \<le> 0" for a b c
    using le that by (meson le_trans)
qed

section \<open>Removal of the duplicates\<close>

lemma splice_shift: "splice_all (map Suc js) (x # xs) = x # splice_all js xs"
  by (induction js) (simp_all add: splice_all_def)

lemma duplicates_Cons:
  "duplicates (x # y # ys) = (if x = y then [1] else []) @ map Suc (duplicates (y # ys))"
proof -
  let ?js = "[1..<Suc (length ys)]"
  have eq: "[1..<Suc (Suc (length ys))] = 1 # map Suc ?js"
    by (simp add: map_Suc_upt upt_conv_Cons del: upt_Suc)
  have "filter (\<lambda>i. (x # y # ys) ! (i - 1) = (x # y # ys) ! i) (map Suc ?js) =
      map Suc (filter (\<lambda>i. (x # y # ys) ! i = (y # ys) ! i) ?js)"
    by (simp add: filter_map comp_def del: upt_Suc)
  also have "filter (\<lambda>i. (x # y # ys) ! i = (y # ys) ! i) ?js =
      filter (\<lambda>i. (y # ys) ! (i - 1) = (y # ys) ! i) ?js"
    by (rule filter_cong [OF refl]) (auto simp: nth_Cons')
  finally have "filter (\<lambda>i. (x # y # ys) ! (i - 1) = (x # y # ys) ! i) (map Suc ?js) =
      map Suc (duplicates (y # ys))"
    by (simp add: duplicates_def del: upt_Suc)
  moreover have "duplicates (x # y # ys) =
      filter (\<lambda>i. (x # y # ys) ! (i - 1) = (x # y # ys) ! i) (1 # map Suc ?js)"
    unfolding duplicates_def list.size eq [symmetric] by simp
  ultimately show ?thesis by (cases "x = y") (simp_all del: upt_Suc)
qed

lemma splice_duplicates: "splice_all (duplicates xs) xs = remdups_adj xs"
proof (induction xs rule: remdups_adj.induct)
  case (3 x y ys)
  have kept: "splice_all (map Suc (duplicates (y # ys))) (x # y # ys) = x # remdups_adj (y # ys)"
    using 3 splice_shift [of "duplicates (y # ys)" x "y # ys"] by (cases "x = y") auto
  show ?case
  proof (cases "x = y")
    case True
    obtain zs where "remdups_adj (y # ys) = y # zs" using remdups_adj_Cons_alt [of y ys] by metis
    with True kept show ?thesis by (simp add: duplicates_Cons splice_all_def)
  next
    case False
    with kept show ?thesis by (simp add: duplicates_Cons)
  qed
qed (simp_all add: duplicates_def splice_all_def)

lemma sorted_remdups_distinct: "sorted (xs :: nat list) \<Longrightarrow> distinct (remdups_adj xs)"
proof (induction xs rule: remdups_adj.induct)
  case (3 x y xs)
  then show ?case by (cases "x = y") (auto simp: order_le_less)
qed simp_all

lemma sorted_sortOrder:
  assumes "doc_order d" "index_ok si" "\<forall>a\<in>set results. in_doc d a"
  shows "sorted (sort_cmp (sortOrder d si) results)"
proof -
  have "sorted_wrt (\<lambda>a b. sortOrder d si a b \<le> 0) (sort_cmp (sortOrder d si) results)"
    by (rule comparator.sorted_sort [OF sortOrder_comparator [OF assms(1,2)]]) (simp add: list_all_iff assms(3))
  then show ?thesis
  proof (rule sorted_wrt_mono_rel [rotated])
    fix a b
    assume "a \<in> set (sort_cmp (sortOrder d si) results)" "b \<in> set (sort_cmp (sortOrder d si) results)"
      "sortOrder d si a b \<le> 0"
    then show "a \<le> b" using sortOrder_order [OF assms(1,2), of a b] assms(3) by simp
  qed
qed

lemma uniqueSort_sorted:
  assumes "doc_order d" "index_ok si" "\<forall>a\<in>set results. in_doc d a"
  shows "uniqueSort d si detects results = sorted_list_of_set (set results)"
proof -
  let ?s = "sort_cmp (sortOrder d si) results"
  have s: "sorted ?s" by (rule sorted_sortOrder [OF assms])
  have "uniqueSort d si detects results = remdups_adj ?s"
  proof (cases "detects \<and> distinct results")
    case True
    then have "distinct ?s" by (metis mset_eq_imp_distinct_iff mset_sort_cmp)
    then have "remdups_adj ?s = ?s" by (simp add: distinct_adj_altdef remdups_adj_distinct)
    with True show ?thesis by (simp add: uniqueSort_def)
  next
    case False
    then show ?thesis by (auto simp: uniqueSort_def Let_def splice_duplicates)
  qed
  moreover have "remdups_adj ?s = sorted_list_of_set (set results)"
    using s by (intro sorted_distinct_set_unique) (auto simp: sorted_remdups_adj sorted_remdups_distinct)
  ultimately show ?thesis by simp
qed

text \<open>
  C31: \<open>uniqueSort\<close> of nodes of one document, with or without \<open>sourceIndex\<close> and whether or not the engine shows
  equal elements to the comparator, is the set of the nodes in document order.
\<close>

theorem uniqueSort_set:
  assumes "doc_order d" "index_ok si" "\<forall>a\<in>set results. in_doc d a"
  shows "uniqueSort d si detects results = sorted_list_of_set (set results)"
  using assms by (rule uniqueSort_sorted)

definition order_doc :: dom where
  "order_doc = [\<lparr>node_type_of = 9, node_name_of = ''#document'', parent_of = None, attributes_of = []\<rparr>,
     \<lparr>node_type_of = 1, node_name_of = ''p'', parent_of = Some 0, attributes_of = []\<rparr>,
     \<lparr>node_type_of = 1, node_name_of = ''b'', parent_of = Some 1, attributes_of = []\<rparr>]"

lemma order_doc_ancestors:
  "ancestors order_doc a = (if a = 1 then [0, 1] else if a = 2 then [0, 1, 2] else [a])"
proof -
  have p: "parentNode order_doc b = (if b = 1 then Some 0 else if b = 2 then Some 1 else None)" for b
    by (auto simp: parentNode_def order_doc_def nth_Cons' numeral_2_eq_2)
  have "ancestors order_doc 0 = [0]" "ancestors order_doc 1 = [0, 1]"
    using ancestors_root [of order_doc 0] ancestors_parent [of order_doc 1 0] by (simp_all add: p)
  then show ?thesis using ancestors_parent [of order_doc 2 1] ancestors_root [of order_doc a] by (auto simp: p)
qed

lemma uniqueSort_set_witness: "uniqueSort order_doc (\<lambda>x. None) True [2, 1, 2] = sorted_list_of_set {2, 1}"
proof -
  have p: "parentNode order_doc b = (if b = 1 then Some 0 else if b = 2 then Some 1 else None)" for b
    by (auto simp: parentNode_def order_doc_def nth_Cons' numeral_2_eq_2)
  have "\<not> (siblings order_doc x y \<and> x < y)" for x y by (auto simp: siblings_def p split: if_splits)
  then have "doc_order order_doc" by (auto simp: doc_order_def)
  moreover have "index_ok (\<lambda>x. None)" by (simp add: index_ok_def)
  moreover have "\<forall>a\<in>set [2, 1, 2]. in_doc order_doc a"
    by (simp add: in_doc_def order_doc_ancestors) (simp add: order_doc_def)
  ultimately show ?thesis using uniqueSort_set [of order_doc "\<lambda>x. None" "[2, 1, 2]" True]
    by (simp only: list.set insert_absorb2 insert_commute [of 2])
qed

text \<open>
  Adding a new key to a cache keeps it well formed: no more than \<open>cacheLength\<close> entries, the listed keys are
  the keys with an entry, the new value is found, and of the others only the oldest is dropped, when the cache
  was full.
\<close>

theorem cache_put_bounded:
  assumes "cache_ok n c" "cache_get key c = None" "0 < n"
  shows "cache_ok n (cache_put n key v c) \<and> cache_get key (cache_put n key v c) = Some v \<and>
    (\<forall>k. k \<noteq> key \<longrightarrow> cache_get k (cache_put n key v c) =
       (if length (cache_keys c) = n \<and> k @ '' '' = hd (cache_keys c) then None else cache_get k c))"
  using assms by (rule cache_put_ok)

lemma cache_put_bounded_witness: "cache_ok 1 (cache_put 1 ''b'' (2::nat) (cache_put 1 ''a'' 1 empty_cache))"
proof -
  have "cache_ok 1 (cache_put 1 ''a'' (1::nat) empty_cache)" "cache_get ''b'' (cache_put 1 ''a'' (1::nat) empty_cache) = None"
    by (simp_all add: cache_ok_def cache_put_def empty_cache_def cache_get_def)
  then show ?thesis using cache_put_bounded [of 1 "cache_put 1 ''a'' (1::nat) empty_cache" "''b''" 2] by simp
qed

end
