(* ===== verification/J_Events.thy ===== *)
theory J_Events
  imports J_Dom JS_Regex J_Callbacks "HOL-Library.Sublist" "HOL-Library.Multiset"
begin

text \<open>
  The tables of event handlers of \<open>jquery-3.1.0.js\<close>: \<open>jQuery.event.add\<close>, \<open>remove\<close>, the namespaces and
  \<open>jQuery.event.special\<close>. The table of one element is \<open>elemData.events\<close> in the store of private data; the
  table \<open>events\<close> is an object literal, so a type that is the name of an inherited property finds a function.
\<close>

section \<open>Types and namespaces\<close>

text \<open>The order of the default \<open>sort()\<close>.\<close>

fun str_cmp :: "string \<Rightarrow> string \<Rightarrow> int" where
  "str_cmp [] [] = 0"
| "str_cmp [] (b # t) = -1"
| "str_cmp (a # s) [] = 1"
| "str_cmp (a # s) (b # t) = (if code a < code b then -1 else if code b < code a then 1 else str_cmp s t)"

text \<open>\<open>rtypenamespace.exec(word)\<close>: the type, and what follows the first dot when there is something.\<close>

definition split_type :: "string \<Rightarrow> string \<times> string option" where
  "split_type word =
     (let type = takeWhile (\<lambda>c. c \<noteq> CHR ''.'') word; ns = tl (dropWhile (\<lambda>c. c \<noteq> CHR ''.'') word)
      in (type, if ns = [] then None else Some ns))"

definition namespaces_of :: "string option \<Rightarrow> string list" where
  "namespaces_of ns = sort_cmp str_cmp (split1 (CHR ''.'') (case ns of None \<Rightarrow> '''' | Some s \<Rightarrow> s))"

definition join_ns :: "string list \<Rightarrow> string" where
  "join_ns ns = join1 ''.'' ns"

text \<open>
  The pattern of a namespaced removal or trigger. A name is put into the source of the expression as it is: this is the
  pattern for \<open>plain\<close> names, without the characters that are special in an expression. For others the language makes
  another expression or none (\<open>off("click.a+b")\<close> leaves the handlers of \<open>on("click.a+b")\<close>).
\<close>

definition plain :: "string \<Rightarrow> bool" where
  "plain ns \<longleftrightarrow> (\<forall>c\<in>set ns. c \<noteq> CHR 0x5C \<and> c \<notin> set ''^$*+?()[]{}|'')"

fun ns_body :: "string list \<Rightarrow> re" where
  "ns_body [] = Eps"
| "ns_body [n] = Lit n"
| "ns_body (n # ns) =
     Seq (Lit n) (Seq (Ch CHR ''.'') (Seq (Alt (Seq (Star Dot) (Ch CHR ''.'')) Eps) (ns_body ns)))"

definition ns_pattern :: "string list \<Rightarrow> re" where
  "ns_pattern ns = Seq (Grp 1 (Alt Bol (Ch CHR ''.''))) (Seq (ns_body ns) (Grp 2 (Alt (Ch CHR ''.'') Eol)))"

section \<open>Special events\<close>

text \<open>
  \<open>handled\<close> says that \<open>setup\<close> and \<open>teardown\<close> exist and take the place of the listener of the host.
\<close>

record special =
  noBubble :: bool
  delegateType :: "string option"
  bindType :: "string option"
  handled :: bool

definition plain_special :: special where
  "plain_special = \<lparr>noBubble = False, delegateType = None, bindType = None, handled = False\<rparr>"

definition hover_types :: "(string \<times> string) list" where
  "hover_types = [(''mouseenter'', ''mouseover''), (''mouseleave'', ''mouseout''),
     (''pointerenter'', ''pointerover''), (''pointerleave'', ''pointerout'')]"

definition special_of :: "bool \<Rightarrow> string \<Rightarrow> special" where
  "special_of focusin_support type =
     (if type = ''load'' then plain_special\<lparr>noBubble := True\<rparr>
      else if type = ''focus'' then plain_special\<lparr>delegateType := Some ''focusin''\<rparr>
      else if type = ''blur'' then plain_special\<lparr>delegateType := Some ''focusout''\<rparr>
      else if type = ''focusin'' \<or> type = ''focusout'' then plain_special\<lparr>handled := \<not> focusin_support\<rparr>
      else case map_of hover_types type of
             Some fix' \<Rightarrow> plain_special\<lparr>delegateType := Some fix', bindType := Some fix'\<rparr>
           | None \<Rightarrow> plain_special)"

section \<open>The table of an element\<close>

record ('h, 'd) handleObj =
  h_type :: string
  h_origType :: string
  h_data :: 'd
  h_handler :: 'h
  h_guid :: nat
  h_selector :: "string option"
  h_needsContext :: bool
  h_namespace :: string

record ('h, 'd) hlist =
  delegateCount :: nat
  hs :: "('h, 'd) handleObj list"

text \<open>
  \<open>listening\<close> are the types with a listener of the host, \<open>set_up\<close> those whose \<open>setup\<close> has run with no
  \<open>teardown\<close> since; \<open>has_handle\<close> is \<open>elemData.handle\<close>.
\<close>

record ('h, 'd) elem_events =
  events :: "(string, ('h, 'd) hlist) jsobj"
  has_handle :: bool
  listening :: "string set"
  set_up :: "string set"

definition no_events :: "('h, 'd) elem_events" where
  "no_events = \<lparr>events = [], has_handle = False, listening = {}, set_up = {}\<rparr>"

text \<open>\<open>handler.guid\<close> of every function, and the counter \<open>jQuery.guid\<close>.\<close>

record 'h guids =
  guid_of :: "'h \<Rightarrow> nat option"
  next_guid :: nat

definition take_guid :: "'h \<Rightarrow> 'h guids \<Rightarrow> nat \<times> 'h guids" where
  "take_guid f g =
     (case guid_of g f of
        Some n \<Rightarrow> (n, g)
      | None \<Rightarrow> (next_guid g, \<lparr>guid_of = (guid_of g)(f := Some (next_guid g)), next_guid = Suc (next_guid g)\<rparr>))"

definition inherited_event :: "string \<Rightarrow> bool" where
  "inherited_event type \<longleftrightarrow> type \<in> fst ` set object_prototype \<or> type = ''__proto__''"

subsection \<open>add\<close>

text \<open>A selector counts when it is given and not empty.\<close>

definition given :: "string option \<Rightarrow> bool" where
  "given selector \<longleftrightarrow> selector \<noteq> None \<and> selector \<noteq> Some []"

definition bound_type :: "(string \<Rightarrow> special) \<Rightarrow> string option \<Rightarrow> string \<Rightarrow> string" where
  "bound_type S selector type =
     (case (if given selector then delegateType (S type) else bindType (S type)) of Some t \<Rightarrow> t | None \<Rightarrow> type)"

definition insert_handle :: "('h, 'd) handleObj \<Rightarrow> ('h, 'd) hlist \<Rightarrow> ('h, 'd) hlist" where
  "insert_handle h l =
     (if given (h_selector h)
      then \<lparr>delegateCount = Suc (delegateCount l),
            hs = take (delegateCount l) (hs l) @ [h] @ drop (delegateCount l) (hs l)\<rparr>
      else l\<lparr>hs := hs l @ [h]\<rparr>)"

text \<open>One word of the types. \<open>needs\<close> is the test of a selector for \<open>needsContext\<close>.\<close>

definition add_word ::
  "(string \<Rightarrow> special) \<Rightarrow> (string \<Rightarrow> bool) \<Rightarrow> 'h \<Rightarrow> nat \<Rightarrow> 'd \<Rightarrow> string option \<Rightarrow> string
    \<Rightarrow> ('h, 'd) elem_events \<Rightarrow> ('h, 'd) elem_events result" where
  "add_word S needs handler guid data selector word st =
     (let (origType, ns) = split_type word
      in if origType = [] then Inr st
         else
           (let type = bound_type S selector origType;
                h = \<lparr>h_type = type, h_origType = origType, h_data = data, h_handler = handler, h_guid = guid,
                     h_selector = selector, h_needsContext = (given selector \<and> needs (the selector)),
                     h_namespace = join_ns (namespaces_of ns)\<rparr>
            in case obj_get (events st) type of
                 Some l \<Rightarrow> Inr (st\<lparr>events := obj_put type (insert_handle h l) (events st)\<rparr>)
               | None \<Rightarrow>
                   if inherited_event type then Inl TypeError
                   else Inr (st\<lparr>events := obj_put type (insert_handle h \<lparr>delegateCount = 0, hs = []\<rparr>) (events st),
                                listening := (if handled (S type) then listening st else insert type (listening st)),
                                set_up := (if handled (S type) then insert type (set_up st) else set_up st)\<rparr>)))"

text \<open>The words from the last to the first.\<close>

fun add_words ::
  "(string \<Rightarrow> special) \<Rightarrow> (string \<Rightarrow> bool) \<Rightarrow> 'h \<Rightarrow> nat \<Rightarrow> 'd \<Rightarrow> string option \<Rightarrow> string list
    \<Rightarrow> ('h, 'd) elem_events \<Rightarrow> ('h, 'd) elem_events result" where
  "add_words S needs handler guid data selector [] st = Inr st"
| "add_words S needs handler guid data selector (w # ws) st =
     bind_result (add_word S needs handler guid data selector w st) (add_words S needs handler guid data selector ws)"

definition event_add ::
  "(string \<Rightarrow> special) \<Rightarrow> (string \<Rightarrow> bool) \<Rightarrow> string \<Rightarrow> 'h \<Rightarrow> 'd \<Rightarrow> string option
    \<Rightarrow> 'h guids \<Rightarrow> ('h, 'd) elem_events \<Rightarrow> ('h guids \<times> ('h, 'd) elem_events) result" where
  "event_add S needs types handler data selector g st =
     (let (n, g') = take_guid handler g
      in bind_result (add_words S needs handler n data selector (rev (rnotwhite_words types)) (st\<lparr>has_handle := True\<rparr>))
           (\<lambda>st'. Inr (g', st')))"

subsection \<open>remove\<close>

text \<open>What a removal asks of a handler; \<open>None\<close> stands for an argument that is not given.\<close>

record removal =
  r_mapped :: bool
  r_origType :: string
  r_guid :: "nat option option"
  r_namespaces :: "string list option"
  r_selector :: "string option"

definition removes :: "removal \<Rightarrow> ('h, 'd) handleObj \<Rightarrow> bool" where
  "removes r h \<longleftrightarrow>
     (r_mapped r \<or> r_origType r = h_origType h) \<and>
     (case r_guid r of None \<Rightarrow> True | Some n \<Rightarrow> n = Some (h_guid h)) \<and>
     (case r_namespaces r of None \<Rightarrow> True | Some ns \<Rightarrow> test (ns_pattern ns) (h_namespace h)) \<and>
     (given (r_selector r) \<longrightarrow> h_selector h = r_selector r \<or> r_selector r = Some ''**'' \<and> given (h_selector h))"

fun remove_loop :: "removal \<Rightarrow> nat \<Rightarrow> ('h, 'd) hlist \<Rightarrow> ('h, 'd) hlist" where
  "remove_loop r 0 l = l"
| "remove_loop r (Suc j) l =
     (if removes r (hs l ! j)
      then remove_loop r j
        \<lparr>delegateCount = (if given (h_selector (hs l ! j)) then delegateCount l - 1 else delegateCount l),
         hs = take j (hs l) @ drop (Suc j) (hs l)\<rparr>
      else remove_loop r j l)"

text \<open>
  A word with a type. The \<open>teardown\<close> asked is that of the type before it is mapped; \<open>add\<close> asked the \<open>setup\<close> of
  the type after.
\<close>

definition remove_typed ::
  "(string \<Rightarrow> special) \<Rightarrow> bool \<Rightarrow> nat option option \<Rightarrow> string option \<Rightarrow> string
    \<Rightarrow> ('h, 'd) elem_events \<Rightarrow> ('h, 'd) elem_events result" where
  "remove_typed S mapped guid selector word st =
     (let (origType, ns) = split_type word;
          type = bound_type S selector origType;
          r = \<lparr>r_mapped = mapped, r_origType = origType, r_guid = guid,
               r_namespaces = map_option (\<lambda>s. namespaces_of (Some s)) ns, r_selector = selector\<rparr>
      in case obj_get (events st) type of
           None \<Rightarrow>
             (case map_of object_prototype type of
                Some n \<Rightarrow> if 0 < n then Inl TypeError else Inr st
              | None \<Rightarrow> Inr st)
         | Some l \<Rightarrow>
             (let l' = remove_loop r (length (hs l)) l
              in if hs l \<noteq> [] \<and> hs l' = []
                 then Inr (st\<lparr>events := obj_del type (events st),
                              listening := (if handled (S origType) then listening st else listening st - {type}),
                              set_up := (if handled (S origType) then set_up st - {origType} else set_up st)\<rparr>)
                 else Inr (st\<lparr>events := obj_put type l' (events st)\<rparr>)))"

definition clean_up :: "('h, 'd) elem_events \<Rightarrow> ('h, 'd) elem_events" where
  "clean_up st = (if events st = [] then st\<lparr>has_handle := False\<rparr> else st)"

fun remove_keys ::
  "(string \<Rightarrow> special) \<Rightarrow> nat option option \<Rightarrow> string option \<Rightarrow> string \<Rightarrow> string list
    \<Rightarrow> ('h, 'd) elem_events \<Rightarrow> ('h, 'd) elem_events result" where
  "remove_keys S guid selector word [] st = Inr st"
| "remove_keys S guid selector word (k # ks) st =
     bind_result (remove_typed S True guid selector (k @ word) st)
       (\<lambda>st'. remove_keys S guid selector word ks (clean_up st'))"

definition remove_word ::
  "(string \<Rightarrow> special) \<Rightarrow> nat option option \<Rightarrow> string option \<Rightarrow> string
    \<Rightarrow> ('h, 'd) elem_events \<Rightarrow> ('h, 'd) elem_events result" where
  "remove_word S guid selector word st =
     (if fst (split_type word) = [] then remove_keys S guid selector word (obj_keys (events st)) st
      else remove_typed S False guid selector word st)"

fun remove_words ::
  "(string \<Rightarrow> special) \<Rightarrow> nat option option \<Rightarrow> string option \<Rightarrow> string list
    \<Rightarrow> ('h, 'd) elem_events \<Rightarrow> ('h, 'd) elem_events result" where
  "remove_words S guid selector [] st = Inr st"
| "remove_words S guid selector (w # ws) st =
     bind_result (remove_word S guid selector w st) (remove_words S guid selector ws)"

definition event_remove ::
  "(string \<Rightarrow> special) \<Rightarrow> string \<Rightarrow> nat option option \<Rightarrow> string option
    \<Rightarrow> ('h, 'd) elem_events \<Rightarrow> ('h, 'd) elem_events result" where
  "event_remove S types guid selector st =
     (if \<not> has_handle st then Inr st
      else bind_result (remove_words S guid selector
             (rev (if rnotwhite_words types = [] then [''''] else rnotwhite_words types)) st)
             (\<lambda>st'. Inr (clean_up st')))"

section \<open>Namespaces\<close>

text \<open>A name that can be a part of a namespace.\<close>

definition ns_name :: "string \<Rightarrow> bool" where
  "ns_name n \<longleftrightarrow> CHR ''.'' \<notin> set n"

fun ns_language :: "string list \<Rightarrow> string \<Rightarrow> bool" where
  "ns_language [] u \<longleftrightarrow> u = []"
| "ns_language [n] u \<longleftrightarrow> u = n"
| "ns_language (n # ns) u \<longleftrightarrow>
     (\<exists>y v. u = n @ ''.'' @ y @ v \<and> (y = [] \<or> (\<exists>z. y = z @ ''.'' \<and> (\<forall>c\<in>set z. code c \<noteq> 10 \<and> code c \<noteq> 13))) \<and>
       ns_language ns v)"

lemma recognizes_mono: "recognizes r L \<Longrightarrow> (\<And>u. L u \<longleftrightarrow> M u) \<Longrightarrow> recognizes r M"
  by (simp add: recognizes_def)

lemma recognizes_ns: "recognizes (ns_body ns) (ns_language ns)"
proof (induction ns rule: ns_body.induct)
  case 1
  show ?case unfolding ns_body.simps by (rule recognizes_mono [OF recognizes_Eps]) simp
next
  case (2 n)
  show ?case unfolding ns_body.simps by (rule recognizes_mono [OF recognizes_Lit]) simp
next
  case (3 n m ns)
  have r: "recognizes (ns_body (n # m # ns)) (\<lambda>u. \<exists>v w. u = v @ w \<and> v = n \<and>
      (\<exists>v' w'. w = v' @ w' \<and> (\<exists>c. v' = [c] \<and> c = CHR ''.'') \<and>
        (\<exists>y x. w' = y @ x \<and>
          ((\<exists>z e. y = z @ e \<and> (\<forall>c\<in>set z. code c \<noteq> 10 \<and> code c \<noteq> 13) \<and> (\<exists>c. e = [c] \<and> c = CHR ''.'')) \<or> y = []) \<and>
          ns_language (m # ns) x)))"
    unfolding ns_body.simps Dot_def
    by (intro recognizes_Seq recognizes_Lit recognizes_Cls recognizes_Alt recognizes_Star_Cls recognizes_Eps 3)
  then show ?case
  proof (rule recognizes_mono)
    fix u
    define A where "A y \<longleftrightarrow> (\<exists>z. y = z @ ''.'' \<and> (\<forall>c\<in>set z. code c \<noteq> 10 \<and> code c \<noteq> 13))" for y
    have y: "(\<exists>z e. y = z @ e \<and> (\<forall>c\<in>set z. code c \<noteq> 10 \<and> code c \<noteq> 13) \<and> (\<exists>c. e = [c] \<and> c = CHR ''.'')) \<longleftrightarrow> A y"
      for y
      by (auto simp: A_def)
    have "ns_language (n # m # ns) u \<longleftrightarrow> (\<exists>y v. u = n @ ''.'' @ y @ v \<and> (A y \<or> y = []) \<and> ns_language (m # ns) v)"
      by (simp only: ns_language.simps A_def disj_commute)
    then show "(\<exists>v w. u = v @ w \<and> v = n \<and> (\<exists>v' w'. w = v' @ w' \<and> (\<exists>c. v' = [c] \<and> c = CHR ''.'') \<and>
        (\<exists>y x. w' = y @ x \<and>
          ((\<exists>z e. y = z @ e \<and> (\<forall>c\<in>set z. code c \<noteq> 10 \<and> code c \<noteq> 13) \<and> (\<exists>c. e = [c] \<and> c = CHR ''.'')) \<or> y = []) \<and>
          ns_language (m # ns) x))) \<longleftrightarrow> ns_language (n # m # ns) u"
      unfolding y by (simp, intro iffI; elim exE conjE; blast)
  qed
qed

lemma split1_append_sep: "split1 c (x @ c # y) = split1 c x @ split1 c y"
proof (induction x)
  case (Cons d x)
  then show ?case using split1_nonempty [of c x] by (auto split: list.splits)
qed simp

lemma split1_name: "ns_name n \<Longrightarrow> split1 (CHR ''.'') n = [n]"
  by (rule split1_piece) (simp add: ns_name_def)

lemma subseq_sandwich: "subseq ns ms \<Longrightarrow> subseq ns (as @ ms @ bs)"
  by (meson list_emb_append2 subseq_append_iff list_emb_prefix)

lemma ns_language_subseq:
  "ns_language ns u \<Longrightarrow> \<forall>n\<in>set ns. ns_name n \<Longrightarrow> ns \<noteq> [] \<Longrightarrow> subseq ns (split1 (CHR ''.'') u)"
proof (induction ns u rule: ns_language.induct)
  case (2 n u)
  then show ?case by (simp add: split1_name)
next
  case (3 n m ns u)
  then obtain y v where u: "u = n @ ''.'' @ y @ v" "y = [] \<or> (\<exists>z. y = z @ ''.'')" "ns_language (m # ns) v" by auto
  have v: "subseq (m # ns) (split1 (CHR ''.'') v)" using 3 u(3) by simp
  have "split1 (CHR ''.'') u = [n] @ split1 (CHR ''.'') (y @ v)"
    using split1_append_sep [of "CHR ''.''" n "y @ v"] split1_name [of n] 3(3) u(1) by simp
  moreover have "subseq (m # ns) (split1 (CHR ''.'') (y @ v))"
  proof (cases "y = []")
    case False
    then obtain z where "y = z @ ''.''" using u(2) by blast
    then have "split1 (CHR ''.'') (y @ v) = split1 (CHR ''.'') z @ split1 (CHR ''.'') v @ []"
      using split1_append_sep [of "CHR ''.''" z v] by simp
    then show ?thesis using subseq_sandwich [OF v] by metis
  qed (simp add: v)
  ultimately show ?case by simp
qed simp

lemma join1_names: "p \<noteq> [] \<Longrightarrow> q \<noteq> [] \<Longrightarrow> join1 s (p @ q) = join1 s p @ s @ join1 s q"
proof (induction p rule: list_nonempty_induct)
  case (single w)
  then show ?case by (cases q) auto
next
  case (cons w p)
  then show ?case by (cases p) auto
qed

text \<open>The text before a part of a joined list, and after it, with the separators.\<close>

definition before_part :: "string list \<Rightarrow> string" where
  "before_part p = (if p = [] then [] else join_ns p @ ''.'')"

definition after_part :: "string list \<Rightarrow> string" where
  "after_part q = (if q = [] then [] else ''.'' @ join_ns q)"

lemma join_parts: "m \<noteq> [] \<Longrightarrow> join_ns (p @ m @ q) = before_part p @ join_ns m @ after_part q"
  by (cases "p = []"; cases "q = []") (simp_all add: before_part_def after_part_def join_ns_def join1_names)

lemma before_part_dot: "before_part p = [] \<or> last (before_part p) = CHR ''.''"
  by (simp add: before_part_def)

lemma after_part_dot: "after_part q = [] \<or> hd (after_part q) = CHR ''.''"
  by (simp add: after_part_def)

definition one_line :: "string \<Rightarrow> bool" where
  "one_line s \<longleftrightarrow> (\<forall>c\<in>set s. code c \<noteq> 10 \<and> code c \<noteq> 13)"

lemma subseq_ns_language:
  "subseq ns ms \<Longrightarrow> ns \<noteq> [] \<Longrightarrow> one_line (join_ns ms) \<Longrightarrow>
   \<exists>a u b. join_ns ms = a @ u @ b \<and> ns_language ns u \<and> (a = [] \<or> last a = CHR ''.'') \<and> (b = [] \<or> hd b = CHR ''.'')"
proof (induction ns arbitrary: ms)
  case (Cons n ns)
  then obtain p q where ms: "ms = p @ n # q" "subseq ns q" by (auto dest: list_emb_ConsD)
  have join: "join_ns ms = before_part p @ n @ after_part q"
    using join_parts [of "[n]" p q] ms(1) by (simp add: join_ns_def)
  show ?case
  proof (cases ns)
    case Nil
    then show ?thesis using join before_part_dot after_part_dot by (metis ns_language.simps(2))
  next
    case (Cons m ms')
    then have q: "q \<noteq> []" using ms(2) by auto
    then have after: "after_part q = ''.'' @ join_ns q" by (simp add: after_part_def)
    have line: "one_line (join_ns q)" using Cons.prems(3) join after by (auto simp: one_line_def)
    obtain a u b where aub: "join_ns q = a @ u @ b" "ns_language ns u" "a = [] \<or> last a = CHR ''.''"
      "b = [] \<or> hd b = CHR ''.''"
      using Cons.IH [OF ms(2) _ line] Cons by blast
    have "a = [] \<or> (\<exists>z. a = z @ ''.'' \<and> (\<forall>c\<in>set z. code c \<noteq> 10 \<and> code c \<noteq> 13))"
    proof (cases "a = []")
      case False
      then have "a = butlast a @ ''.''" using aub(3) append_butlast_last_id [OF False] by simp
      moreover have "\<forall>c\<in>set (butlast a). code c \<noteq> 10 \<and> code c \<noteq> 13"
        using line aub(1) by (auto simp: one_line_def dest: in_set_butlastD)
      ultimately show ?thesis by blast
    qed simp
    then have "ns_language (n # ns) (n @ ''.'' @ a @ u)" using aub(2) Cons by auto
    moreover have "join_ns ms = before_part p @ (n @ ''.'' @ a @ u) @ b" using join after aub(1) by simp
    ultimately show ?thesis using before_part_dot aub(4) by metis
  qed
qed simp

lemma split_join_ns: "ms \<noteq> [] \<Longrightarrow> \<forall>m\<in>set ms. ns_name m \<Longrightarrow> split1 (CHR ''.'') (join_ns ms) = ms"
proof (induction ms rule: list_nonempty_induct)
  case (single w)
  then show ?case by (simp add: join_ns_def split1_name)
next
  case (cons w ms)
  then show ?case using split1_append [of "CHR ''.''" w] by (cases ms) (auto simp: join_ns_def ns_name_def)
qed

lemma ns_pattern_iff:
  assumes "\<forall>n\<in>set ns. ns_name n" "ns \<noteq> []" "\<forall>m\<in>set ms. ns_name m" "ms \<noteq> []" "one_line (join_ns ms)"
  shows "test (ns_pattern ns) (join_ns ms) \<longleftrightarrow> subseq ns ms"
proof -
  have t: "test (ns_pattern ns) (join_ns ms) \<longleftrightarrow>
    (\<exists>a u b. join_ns ms = a @ u @ b \<and> ns_language ns u \<and> (a = [] \<or> last a = CHR ''.'') \<and> (b = [] \<or> hd b = CHR ''.''))"
    using bounded_test [OF recognizes_ns [of ns], of "\<lambda>c. c = CHR ''.''" "join_ns ms"]
    by (simp add: ns_pattern_def bounded_def)
  show ?thesis
  proof
    assume "test (ns_pattern ns) (join_ns ms)"
    then obtain a u b where aub: "join_ns ms = a @ u @ b" "ns_language ns u" "a = [] \<or> last a = CHR ''.''"
      "b = [] \<or> hd b = CHR ''.''"
      unfolding t by blast
    have ub: "subseq ns (split1 (CHR ''.'') (u @ b))"
    proof (cases "b = []")
      case False
      then have "b = CHR ''.'' # tl b" using aub(4) by (cases b) auto
      then have "split1 (CHR ''.'') (u @ b) = [] @ split1 (CHR ''.'') u @ split1 (CHR ''.'') (tl b)"
        using split1_append_sep [of "CHR ''.''" u "tl b"] by simp
      then show ?thesis using subseq_sandwich [OF ns_language_subseq [OF aub(2) assms(1,2)]] by metis
    qed (simp add: ns_language_subseq [OF aub(2) assms(1,2)])
    have "subseq ns (split1 (CHR ''.'') (a @ u @ b))"
    proof (cases "a = []")
      case False
      then obtain z where "a = z @ ''.''" using aub(3) append_butlast_last_id [OF False] by metis
      then have "split1 (CHR ''.'') (a @ u @ b) = split1 (CHR ''.'') z @ split1 (CHR ''.'') (u @ b) @ []"
        using split1_append_sep [of "CHR ''.''" z "u @ b"] by simp
      then show ?thesis using subseq_sandwich [OF ub] by metis
    qed (simp add: ub)
    then show "subseq ns ms" using split_join_ns [OF assms(4,3)] aub(1) by simp
  next
    assume "subseq ns ms"
    from subseq_ns_language [OF this assms(2,5)] show "test (ns_pattern ns) (join_ns ms)" unfolding t .
  qed
qed

subsection \<open>The sort of the namespaces\<close>

lemma str_cmp_flip: "str_cmp t s = - str_cmp s t"
  by (induction s t rule: str_cmp.induct) auto

lemma str_cmp_eq: "str_cmp s t = 0 \<longleftrightarrow> s = t"
  by (induction s t rule: str_cmp.induct) (auto simp: code_eq_iff [symmetric])

lemma str_cmp_trans: "str_cmp s t \<le> 0 \<Longrightarrow> str_cmp t u \<le> 0 \<Longrightarrow> str_cmp s u \<le> 0"
proof (induction s t arbitrary: u rule: str_cmp.induct)
  case (1 u)
  then show ?case by simp
next
  case (2 b t u)
  then show ?case by (cases u) auto
next
  case (4 a s b t u)
  show ?case
  proof (cases u)
    case Nil
    with 4(3) show ?thesis by simp
  next
    case (Cons c v)
    have ab: "code a \<le> code b" "code a = code b \<Longrightarrow> str_cmp s t \<le> 0" using 4(2) by (simp_all split: if_split_asm)
    have bc: "code b \<le> code c" "code b = code c \<Longrightarrow> str_cmp t v \<le> 0"
      using 4(3) Cons by (simp_all split: if_split_asm)
    show ?thesis
    proof (cases "code a = code c")
      case True
      with ab bc have "code a = code b" "code b = code c" by simp_all
      with ab(2) bc(2) 4(1) [of v] Cons True show ?thesis by simp
    next
      case False
      with ab(1) bc(1) Cons show ?thesis by simp
    qed
  qed
qed simp

lemma str_cmp_flip_le: "0 < str_cmp s t \<Longrightarrow> str_cmp t s \<le> 0"
  by (simp add: str_cmp_flip [of t s])

interpretation names: comparator str_cmp "\<lambda>s. True"
  by unfold_locales (erule str_cmp_flip_le, erule (1) str_cmp_trans)

lemma sorted_names: "sorted_wrt (\<lambda>a b. str_cmp a b \<le> 0) (sort_cmp str_cmp ns)"
  by (rule names.sorted_sort) (simp add: list_all_iff)

lemma sorted_subseq:
  "sorted_wrt (\<lambda>a b. str_cmp a b \<le> 0) ns \<Longrightarrow> sorted_wrt (\<lambda>a b. str_cmp a b \<le> 0) ms \<Longrightarrow> mset ns \<subseteq># mset ms \<Longrightarrow>
   subseq ns ms"
proof (induction ms arbitrary: ns)
  case (Cons m ms)
  show ?case
  proof (cases ns)
    case (Cons n ns')
    show ?thesis
    proof (cases "n = m")
      case True
      with Cons Cons.prems Cons.IH [of ns'] show ?thesis by auto
    next
      case False
      have "m \<notin> set ns'"
      proof
        assume "m \<in> set ns'"
        then have "str_cmp n m \<le> 0" using Cons.prems(1) Cons by simp
        moreover have "n \<in> set ms" using mset_subset_eqD [OF Cons.prems(3), of n] Cons False by auto
        then have "str_cmp m n \<le> 0" using Cons.prems(2) by simp
        ultimately have "str_cmp n m = 0" using str_cmp_flip [of m n] by simp
        with False str_cmp_eq show False by blast
      qed
      then have zero: "count (mset ns) m = 0" using Cons False by (simp add: count_mset_0_iff)
      have "count (mset ns) a \<le> count (mset ms) a" for a
        using mset_subset_eq_count [OF Cons.prems(3), of a] by (cases "a = m") (simp only: zero le0, simp)
      then have "mset ns \<subseteq># mset ms" by (rule mset_subset_eqI)
      then have "subseq ns ms" using Cons.IH [of ns] Cons.prems by simp
      then show ?thesis by (rule list_emb_Cons)
    qed
  qed simp
qed simp

lemma subseq_mset: "subseq ns ms \<Longrightarrow> mset ns \<subseteq># mset ms"
  by (induction rule: list_emb.induct) (auto simp: subseteq_mset_def le_SucI)

lemma split1_chars: "w \<in> set (split1 c s) \<Longrightarrow> x \<in> set w \<Longrightarrow> x \<in> set s"
proof (induction s arbitrary: w)
  case (Cons d s)
  obtain v vs where v: "split1 c s = v # vs" using split1_nonempty [of c s] by (meson neq_Nil_conv)
  show ?case
  proof (cases "d = c")
    case True
    with Cons show ?thesis by auto
  next
    case False
    with Cons.prems(1) v have "w = d # v \<or> w \<in> set vs" by auto
    then show ?thesis using Cons.IH [of v] Cons.IH [of w] Cons.prems(2) v by auto
  qed
qed simp

lemma removes_namespaces:
  assumes "ns \<noteq> []" "one_line m"
  shows "test (ns_pattern (namespaces_of (Some ns))) (join_ns (namespaces_of (Some m))) \<longleftrightarrow>
    mset (split1 (CHR ''.'') ns) \<subseteq># mset (split1 (CHR ''.'') m)"
proof -
  let ?ns = "split1 (CHR ''.'') ns" and ?ms = "split1 (CHR ''.'') m"
  have names: "\<forall>n\<in>set (sort_cmp str_cmp (split1 (CHR ''.'') x)). ns_name n" for x
    using split1_no_sep [of _ "CHR ''.''" x] by (auto simp: ns_name_def)
  have ne: "sort_cmp str_cmp (split1 (CHR ''.'') x) \<noteq> []" for x
    by (metis length_0_conv length_sort_cmp split1_nonempty)
  have "set (join_ns xs) \<subseteq> \<Union> (set ` set xs) \<union> {CHR ''.''}" for xs
    unfolding join_ns_def by (induction "''.''" xs rule: join1.induct) auto
  moreover have "\<Union> (set ` set ?ms) \<subseteq> set m"
    using split1_chars by fastforce
  ultimately have "set (join_ns (sort_cmp str_cmp ?ms)) \<subseteq> set m \<union> {CHR ''.''}" by fastforce
  then have line: "one_line (join_ns (sort_cmp str_cmp ?ms))"
    using assms(2) by (auto simp: one_line_def code_def)
  have "test (ns_pattern (namespaces_of (Some ns))) (join_ns (namespaces_of (Some m))) \<longleftrightarrow>
      subseq (sort_cmp str_cmp ?ns) (sort_cmp str_cmp ?ms)"
    using ns_pattern_iff [OF names ne names ne line] by (simp add: namespaces_of_def)
  also have "\<dots> \<longleftrightarrow> mset ?ns \<subseteq># mset ?ms"
    using subseq_mset [of "sort_cmp str_cmp ?ns" "sort_cmp str_cmp ?ms"]
      sorted_subseq [OF sorted_names sorted_names, of ?ns ?ms] by (auto simp: mset_sort_cmp)
  finally show ?thesis .
qed

section \<open>The tables stay well formed\<close>

text \<open>The delegated handlers come first, and \<open>delegateCount\<close> counts them.\<close>

definition hlist_ok :: "('h, 'd) hlist \<Rightarrow> bool" where
  "hlist_ok l \<longleftrightarrow> (\<exists>as bs. hs l = as @ bs \<and> length as = delegateCount l \<and>
     (\<forall>h\<in>set as. given (h_selector h)) \<and> (\<forall>h\<in>set bs. \<not> given (h_selector h)))"

lemma insert_handle_ok:
  assumes "hlist_ok l"
  shows "hlist_ok (insert_handle h l)"
proof -
  obtain as bs where l: "hs l = as @ bs" "length as = delegateCount l" "\<forall>h\<in>set as. given (h_selector h)"
    "\<forall>h\<in>set bs. \<not> given (h_selector h)"
    using assms by (auto simp: hlist_ok_def)
  show ?thesis
  proof (cases "\<not> given (h_selector h)")
    case True
    with l show ?thesis unfolding hlist_ok_def insert_handle_def
      by (intro exI [of _ as] exI [of _ "bs @ [h]"]) auto
  next
    case False
    with l show ?thesis unfolding hlist_ok_def insert_handle_def
      by (intro exI [of _ "as @ [h]"] exI [of _ bs]) auto
  qed
qed

lemma set_insert_handle: "set (hs (insert_handle h l)) = insert h (set (hs l))"
proof -
  have "set (take (delegateCount l) (hs l)) \<union> set (drop (delegateCount l) (hs l)) = set (hs l)"
    by (metis append_take_drop_id set_append)
  then show ?thesis by (auto simp: insert_handle_def)
qed

lemma remove_loop_hs:
  "j \<le> length (hs l) \<Longrightarrow>
   hs (remove_loop r j l) = filter (\<lambda>h. \<not> removes r h) (take j (hs l)) @ drop j (hs l) \<and>
   delegateCount (remove_loop r j l) =
     delegateCount l - length (filter (\<lambda>h. removes r h \<and> given (h_selector h)) (take j (hs l)))"
proof (induction j arbitrary: l)
  case (Suc j)
  then have j: "j < length (hs l)" by simp
  then have take: "take (Suc j) (hs l) = take j (hs l) @ [hs l ! j]" by (rule take_Suc_conv_app_nth)
  have drop: "drop j (hs l) = hs l ! j # drop (Suc j) (hs l)" using j by (rule Cons_nth_drop_Suc [symmetric])
  show ?case
  proof (cases "removes r (hs l ! j)")
    case True
    define l' where "l' = \<lparr>delegateCount = (if given (h_selector (hs l ! j)) then delegateCount l - 1 else delegateCount l),
         hs = take j (hs l) @ drop (Suc j) (hs l)\<rparr>"
    have "remove_loop r (Suc j) l = remove_loop r j l'" using True by (simp add: l'_def)
    moreover have "take j (hs l') = take j (hs l)" "drop j (hs l') = drop (Suc j) (hs l)" "j \<le> length (hs l')"
      using j by (simp_all add: l'_def)
    ultimately show ?thesis using Suc.IH [of l'] True by (simp add: take l'_def)
  next
    case False
    then show ?thesis using Suc.IH [of l] j by (simp add: take drop)
  qed
qed simp

lemma remove_all_hs: "hs (remove_loop r (length (hs l)) l) = filter (\<lambda>h. \<not> removes r h) (hs l)"
  using remove_loop_hs [of "length (hs l)" l r] by simp

lemma length_filter_not: "length (filter (\<lambda>x. \<not> P x) xs) = length xs - length (filter P xs)"
  using sum_length_filter_compl [of P xs] by simp

lemma remove_all_ok:
  assumes "hlist_ok l"
  shows "hlist_ok (remove_loop r (length (hs l)) l)"
proof -
  obtain as bs where l: "hs l = as @ bs" "length as = delegateCount l" "\<forall>h\<in>set as. given (h_selector h)"
    "\<forall>h\<in>set bs. \<not> given (h_selector h)"
    using assms by (auto simp: hlist_ok_def)
  have "filter (\<lambda>h. removes r h \<and> given (h_selector h)) as = filter (removes r) as"
    "filter (\<lambda>h. removes r h \<and> given (h_selector h)) bs = []"
    using l(3,4) by (auto simp: filter_empty_conv intro: filter_cong)
  then have "delegateCount (remove_loop r (length (hs l)) l) = length (filter (\<lambda>h. \<not> removes r h) as)"
    using remove_loop_hs [of "length (hs l)" l r] l(1,2) by (simp add: length_filter_not)
  moreover have "hs (remove_loop r (length (hs l)) l) =
      filter (\<lambda>h. \<not> removes r h) as @ filter (\<lambda>h. \<not> removes r h) bs"
    by (subst remove_all_hs) (simp add: l(1))
  ultimately show ?thesis using l(3,4) unfolding hlist_ok_def
    by (intro exI [of _ "filter (\<lambda>h. \<not> removes r h) as"] exI [of _ "filter (\<lambda>h. \<not> removes r h) bs"]) auto
qed

text \<open>A type with a \<open>setup\<close> and a \<open>teardown\<close> is not mapped to another.\<close>

definition special_ok :: "(string \<Rightarrow> special) \<Rightarrow> bool" where
  "special_ok S \<longleftrightarrow> (\<forall>t. handled (S t) \<longrightarrow> delegateType (S t) = None \<and> bindType (S t) = None)"

lemma handled_types: "handled (special_of b t) \<longleftrightarrow> \<not> b \<and> (t = ''focusin'' \<or> t = ''focusout'')"
  by (simp add: special_of_def plain_special_def split: option.split)

lemma special_of_ok: "special_ok (special_of b)"
  by (auto simp: special_ok_def special_of_def plain_special_def hover_types_def)

text \<open>
  A table has a list of handlers, not empty, under each of its types, the handlers being of that type; the host
  listens to those types, but for the special events that listen themselves, which are set up.
\<close>

definition table_ok :: "(string \<Rightarrow> special) \<Rightarrow> ('h, 'd) elem_events \<Rightarrow> bool" where
  "table_ok S st \<longleftrightarrow>
     (\<forall>t l. obj_get (events st) t = Some l \<longrightarrow> hlist_ok l \<and> hs l \<noteq> [] \<and> (\<forall>h\<in>set (hs l). h_type h = t)) \<and>
     listening st = {t. obj_get (events st) t \<noteq> None \<and> \<not> handled (S t)} \<and>
     {t. obj_get (events st) t \<noteq> None \<and> handled (S t)} \<subseteq> set_up st \<and>
     (has_handle st \<or> events st = [])"

lemma obj_put_nonempty: "obj_put k v m \<noteq> []"
  using obj_keys_put [of k v m] by (cases m) (auto simp: obj_keys_def split: if_splits)

lemma table_ok_put:
  assumes "table_ok S st" "hlist_ok l" "hs l \<noteq> []" "\<forall>h\<in>set (hs l). h_type h = t" "has_handle st"
    "L = (if obj_get (events st) t = None \<and> \<not> handled (S t) then insert t (listening st) else listening st)"
    "U = (if obj_get (events st) t = None \<and> handled (S t) then insert t (set_up st) else set_up st)"
  shows "table_ok S (st\<lparr>events := obj_put t l (events st), listening := L, set_up := U\<rparr>)"
proof -
  have "L = {t'. obj_get (obj_put t l (events st)) t' \<noteq> None \<and> \<not> handled (S t')}"
    using assms(1,6) by (auto simp: table_ok_def js_obj)
  moreover have "{t'. obj_get (obj_put t l (events st)) t' \<noteq> None \<and> handled (S t')} \<subseteq> U"
    using assms(1) unfolding assms(7) by (cases "obj_get (events st) t"; cases "handled (S t)") (auto simp: table_ok_def js_obj)
  ultimately show ?thesis using assms(1-5) by (simp add: table_ok_def js_obj)
qed

lemma keep_listening: "st\<lparr>events := m, listening := listening st, set_up := set_up st\<rparr> = st\<lparr>events := m\<rparr>"
  by (cases st) simp

lemma add_word_ok:
  assumes "table_ok S st" "has_handle st" "add_word S needs f n x selector w st = Inr st'"
  shows "table_ok S st' \<and> has_handle st'"
proof -
  obtain origType ns where w: "split_type w = (origType, ns)" by (cases "split_type w")
  define type where "type = bound_type S selector origType"
  define h where "h = \<lparr>h_type = type, h_origType = origType, h_data = x, h_handler = f, h_guid = n,
    h_selector = selector, h_needsContext = (given selector \<and> needs (the selector)),
    h_namespace = join_ns (namespaces_of ns)\<rparr>"
  show ?thesis
  proof (cases "origType = []")
    case True
    with assms w show ?thesis by (simp add: add_word_def)
  next
    case False
    show ?thesis
    proof (cases "obj_get (events st) type")
      case (Some l)
      have "st' = st\<lparr>events := obj_put type (insert_handle h l) (events st)\<rparr>"
        using assms(3) w False Some by (simp add: add_word_def Let_def type_def [symmetric] h_def)
      moreover have "hlist_ok l" "\<forall>g\<in>set (hs l). h_type g = type"
        using assms(1) Some by (auto simp: table_ok_def)
      moreover have "hs (insert_handle h l) \<noteq> []" using set_insert_handle [of h l] by auto
      moreover have "h_type h = type" by (simp add: h_def)
      ultimately show ?thesis
        using table_ok_put [OF assms(1) insert_handle_ok [of l h], of type "listening st" "set_up st"] assms(2) Some
        by (simp add: set_insert_handle keep_listening)
    next
      case None
      define l where "l = insert_handle h \<lparr>delegateCount = 0, hs = []\<rparr>"
      have l: "hlist_ok l" "hs l = [h]" unfolding l_def
        by (rule insert_handle_ok, simp add: hlist_ok_def, simp add: insert_handle_def)
      have "st' = st\<lparr>events := obj_put type l (events st),
          listening := (if handled (S type) then listening st else insert type (listening st)),
          set_up := (if handled (S type) then insert type (set_up st) else set_up st)\<rparr>"
        using assms(3) w False None
        by (simp add: add_word_def Let_def type_def [symmetric] h_def l_def split: if_split_asm)
      moreover have "h_type h = type" by (simp add: h_def)
      ultimately show ?thesis
        using table_ok_put [OF assms(1) l(1), of type "if handled (S type) then listening st else insert type (listening st)"
            "if handled (S type) then insert type (set_up st) else set_up st"]
          l(2) assms(2) None by auto
    qed
  qed
qed

lemma add_words_ok:
  "table_ok S st \<Longrightarrow> has_handle st \<Longrightarrow> add_words S needs f n x selector ws st = Inr st' \<Longrightarrow> table_ok S st' \<and> has_handle st'"
proof (induction ws arbitrary: st)
  case (Cons w ws)
  then obtain st1 where st1: "add_word S needs f n x selector w st = Inr st1"
    "add_words S needs f n x selector ws st1 = Inr st'"
    by (auto simp: bind_result_eq_Inr)
  from add_word_ok [OF Cons.prems(1,2) st1(1)] Cons.IH [OF _ _ st1(2)] show ?case by simp
qed simp

text \<open>What a removal does to the lists of the types.\<close>

definition handlers_of :: "('h, 'd) elem_events \<Rightarrow> string \<Rightarrow> ('h, 'd) handleObj list" where
  "handlers_of st t = (case obj_get (events st) t of None \<Rightarrow> [] | Some l \<Rightarrow> hs l)"

definition removal_of :: "bool \<Rightarrow> nat option option \<Rightarrow> string option \<Rightarrow> string \<Rightarrow> removal" where
  "removal_of mapped guid selector word =
     \<lparr>r_mapped = mapped, r_origType = fst (split_type word), r_guid = guid,
      r_namespaces = map_option (\<lambda>s. namespaces_of (Some s)) (snd (split_type word)), r_selector = selector\<rparr>"

lemma remove_typed_ok:
  assumes S: "special_ok S" and ok: "table_ok S st" and r: "remove_typed S mapped guid selector w st = Inr st'"
  shows "table_ok S st' \<and> has_handle st' = has_handle st \<and>
    (\<forall>t. handlers_of st' t =
      (if t = bound_type S selector (fst (split_type w))
       then filter (\<lambda>h. \<not> removes (removal_of mapped guid selector w) h) (handlers_of st t) else handlers_of st t))"
proof -
  define orig where "orig = fst (split_type w)"
  define type where "type = bound_type S selector orig"
  have orig: "handled (S orig) \<Longrightarrow> type = orig" using S by (auto simp: special_ok_def type_def bound_type_def)
  define q where "q = removal_of mapped guid selector w"
  have eq: "remove_typed S mapped guid selector w st =
     (case obj_get (events st) type of
           None \<Rightarrow> (case map_of object_prototype type of
                Some n \<Rightarrow> if 0 < n then Inl TypeError else Inr st
              | None \<Rightarrow> Inr st)
         | Some l \<Rightarrow>
             (let l' = remove_loop q (length (hs l)) l
              in if hs l \<noteq> [] \<and> hs l' = []
                 then Inr (st\<lparr>events := obj_del type (events st),
                              listening := (if handled (S orig) then listening st else listening st - {type}),
                              set_up := (if handled (S orig) then set_up st - {orig} else set_up st)\<rparr>)
                 else Inr (st\<lparr>events := obj_put type l' (events st)\<rparr>)))"
    unfolding type_def orig_def q_def removal_of_def remove_typed_def Let_def by (simp add: split_def)
  show ?thesis
  proof (cases "obj_get (events st) type")
    case None
    then have "st' = st" using r eq by (auto split: option.splits if_splits)
    with None ok show ?thesis by (simp add: handlers_of_def type_def orig_def)
  next
    case (Some l)
    let ?l = "remove_loop q (length (hs l)) l"
    have l: "hlist_ok l" "hs l \<noteq> []" "\<forall>h\<in>set (hs l). h_type h = type" using ok Some by (auto simp: table_ok_def)
    have hs: "hs ?l = filter (\<lambda>h. \<not> removes q h) (hs l)" by (rule remove_all_hs)
    show ?thesis
    proof (cases "hs ?l = []")
      case True
      then have st': "st' = st\<lparr>events := obj_del type (events st),
          listening := (if handled (S orig) then listening st else listening st - {type}),
          set_up := (if handled (S orig) then set_up st - {orig} else set_up st)\<rparr>"
        using r eq Some l(2) by simp
      have "listening st' = {t. obj_get (events st') t \<noteq> None \<and> \<not> handled (S t)}"
        using ok orig by (cases "handled (S orig)") (auto simp: st' table_ok_def js_obj)
      moreover have "{t. obj_get (events st') t \<noteq> None \<and> handled (S t)} \<subseteq> set_up st'"
        using ok orig by (cases "handled (S orig)") (auto simp: st' table_ok_def js_obj)
      moreover have "has_handle st' \<or> events st' = []"
        using ok Some by (auto simp: st' table_ok_def js_obj)
      ultimately show ?thesis using ok True hs Some
        by (auto simp: table_ok_def st' js_obj handlers_of_def orig_def [symmetric] type_def [symmetric] q_def [symmetric])
    next
      case False
      then have st': "st' = st\<lparr>events := obj_put type ?l (events st)\<rparr>" using r eq Some by simp
      have "has_handle st" using ok Some by (auto simp: table_ok_def js_obj)
      then have "table_ok S st'" unfolding st'
        using l(3) hs Some table_ok_put [OF ok remove_all_ok [OF l(1)] False, of type "listening st" "set_up st"]
        by (simp add: keep_listening)
      then show ?thesis using hs Some
        by (auto simp: st' js_obj handlers_of_def orig_def [symmetric] type_def [symmetric] q_def [symmetric])
    qed
  qed
qed

lemma clean_up_ok: "table_ok S st \<Longrightarrow> table_ok S (clean_up st)"
  by (auto simp: clean_up_def table_ok_def)

lemma remove_keys_ok:
  "special_ok S \<Longrightarrow> table_ok S st \<Longrightarrow> remove_keys S g selector w ks st = Inr st' \<Longrightarrow> table_ok S st'"
proof (induction ks arbitrary: st)
  case (Cons k ks)
  then obtain st1 where st1: "remove_typed S True g selector (k @ w) st = Inr st1"
    "remove_keys S g selector w ks (clean_up st1) = Inr st'"
    by (auto simp: bind_result_eq_Inr)
  show ?case
    by (rule Cons.IH [OF Cons.prems(1) clean_up_ok st1(2)]) (use remove_typed_ok [OF Cons.prems(1,2) st1(1)] in simp)
qed simp

lemma remove_words_ok:
  "special_ok S \<Longrightarrow> table_ok S st \<Longrightarrow> remove_words S g selector ws st = Inr st' \<Longrightarrow> table_ok S st'"
proof (induction ws arbitrary: st)
  case (Cons w ws)
  then obtain st1 where st1: "remove_word S g selector w st = Inr st1" "remove_words S g selector ws st1 = Inr st'"
    by (auto simp: bind_result_eq_Inr)
  have "table_ok S st1"
    using st1(1) remove_keys_ok [OF Cons.prems(1,2)] remove_typed_ok [OF Cons.prems(1,2)]
    by (auto simp: remove_word_def split: if_splits)
  then show ?case by (rule Cons.IH [OF Cons.prems(1) _ st1(2)])
qed simp

lemma event_add_ok:
  assumes "table_ok S st" "event_add S needs types f x selector g st = Inr (g', st')"
  shows "table_ok S st' \<and> has_handle st'"
proof -
  obtain n g1 where n: "take_guid f g = (n, g1)" by (cases "take_guid f g")
  have ok: "table_ok S (st\<lparr>has_handle := True\<rparr>)" using assms(1) by (simp add: table_ok_def)
  have "add_words S needs f n x selector (rev (rnotwhite_words types)) (st\<lparr>has_handle := True\<rparr>) = Inr st'"
    using assms(2) n by (auto simp: event_add_def bind_result_eq_Inr)
  from add_words_ok [OF ok _ this] show ?thesis by simp
qed

lemma event_remove_ok:
  assumes "special_ok S" "table_ok S st" "event_remove S types g selector st = Inr st'"
  shows "table_ok S st'"
proof (cases "has_handle st")
  case True
  define ws where "ws = rev (if rnotwhite_words types = [] then [''''] else rnotwhite_words types)"
  have "event_remove S types g selector st =
      bind_result (remove_words S g selector ws st) (\<lambda>st'. Inr (clean_up st'))"
    using True unfolding event_remove_def ws_def by simp
  then obtain st1 where "remove_words S g selector ws st = Inr st1" "st' = clean_up st1"
    using assms(3) by (cases "remove_words S g selector ws st") simp_all
  then show ?thesis using clean_up_ok remove_words_ok [OF assms(1,2)] by blast
next
  case False
  then show ?thesis using assms(2,3) by (simp add: event_remove_def)
qed

lemma no_events_ok: "table_ok S no_events"
  by (simp add: table_ok_def no_events_def js_obj)

text \<open>Adding one word, and taking it away again.\<close>

lemma words_from_no_space: "(\<forall>c\<in>set w. \<not> is_space c) \<Longrightarrow> words_from v w = (if v @ w = [] then [] else [v @ w])"
  by (induction w arbitrary: v) auto

lemma one_word: "(\<forall>c\<in>set w. \<not> is_space c) \<Longrightarrow> w \<noteq> [] \<Longrightarrow> rnotwhite_words w = [w]"
  by (simp add: rnotwhite_words_def words_from_no_space)

lemma filter_insert_handle:
  assumes "removes r h" "\<forall>g\<in>set (hs l). \<not> removes r g"
  shows "filter (\<lambda>h. \<not> removes r h) (hs (insert_handle h l)) = hs l"
proof -
  have "filter (\<lambda>h. \<not> removes r h) xs = xs" if "set xs \<subseteq> set (hs l)" for xs
    using that assms(2) by (auto simp: filter_id_conv)
  then have "filter (\<lambda>h. \<not> removes r h) (take n (hs l)) = take n (hs l)"
    "filter (\<lambda>h. \<not> removes r h) (drop n (hs l)) = drop n (hs l)"
    "filter (\<lambda>h. \<not> removes r h) (hs l) = hs l" for n
    by (simp_all add: set_take_subset set_drop_subset)
  with assms(1) show ?thesis by (simp add: insert_handle_def)
qed

lemma add_one_word:
  assumes "table_ok S st" "add_word S needs f n x selector w st = Inr st'" "fst (split_type w) \<noteq> []"
  shows "\<exists>h l. h_origType h = fst (split_type w) \<and> h_guid h = n \<and> h_selector h = selector \<and>
    h_namespace h = join_ns (namespaces_of (snd (split_type w))) \<and>
    hs l = handlers_of st (bound_type S selector (fst (split_type w))) \<and>
    obj_get (events st') (bound_type S selector (fst (split_type w))) = Some (insert_handle h l) \<and>
    (\<forall>t. t \<noteq> bound_type S selector (fst (split_type w)) \<longrightarrow> handlers_of st' t = handlers_of st t)"
proof -
  obtain origType ns where w: "split_type w = (origType, ns)" by (cases "split_type w")
  define type where "type = bound_type S selector origType"
  define h where "h = \<lparr>h_type = type, h_origType = origType, h_data = x, h_handler = f, h_guid = n,
    h_selector = selector, h_needsContext = (given selector \<and> needs (the selector)),
    h_namespace = join_ns (namespaces_of ns)\<rparr>"
  define l where "l = (case obj_get (events st) type of Some l \<Rightarrow> l | None \<Rightarrow> \<lparr>delegateCount = 0, hs = []\<rparr>)"
  have "events st' = obj_put type (insert_handle h l) (events st)"
    using assms(2,3) w
    by (auto simp: add_word_def Let_def type_def [symmetric] h_def l_def split: if_splits option.splits)
  then have e: "obj_get (events st') type = Some (insert_handle h l)"
    "\<forall>t. t \<noteq> type \<longrightarrow> handlers_of st' t = handlers_of st t"
    by (simp_all add: handlers_of_def js_obj)
  have "hs l = handlers_of st type" by (simp add: l_def handlers_of_def split: option.split)
  moreover have "h_origType h = origType" "h_guid h = n" "h_selector h = selector"
    "h_namespace h = join_ns (namespaces_of ns)" by (simp_all add: h_def)
  ultimately show ?thesis using e unfolding w type_def fst_conv snd_conv by blast
qed

text \<open>The guids of a table were given out.\<close>

definition guids_below :: "nat \<Rightarrow> ('h, 'd) elem_events \<Rightarrow> bool" where
  "guids_below n st \<longleftrightarrow> (\<forall>t. \<forall>h\<in>set (handlers_of st t). h_guid h < n)"

lemma self_removes:
  assumes h: "h_origType h = fst (split_type w)" "h_guid h = n" "h_selector h = selector"
      "h_namespace h = join_ns (namespaces_of (snd (split_type w)))"
    and w: "\<forall>c\<in>set w. \<not> is_space c"
  shows "removes (removal_of False (Some (Some n)) selector w) h"
proof -
  have "test (ns_pattern (namespaces_of (Some ns))) (h_namespace h)" if ns: "snd (split_type w) = Some ns" for ns
  proof -
    have "ns \<noteq> []" "ns = tl (dropWhile (\<lambda>c. c \<noteq> CHR ''.'') w)"
      using ns by (auto simp: split_type_def Let_def split: if_splits)
    moreover have "set (tl (dropWhile (\<lambda>c. c \<noteq> CHR ''.'') w)) \<subseteq> set w"
      by (metis append_Nil list.sel(2) list.set_sel(2) set_append set_dropWhileD subsetI)
    moreover have "one_line ns" using calculation(2,3) w by (fastforce simp: one_line_def is_space_def)
    ultimately show ?thesis using removes_namespaces [of ns ns] ns h(4) by simp
  qed
  with h(1-3) show ?thesis
    by (auto simp: removes_def removal_of_def split: option.split)
qed

lemma remove_typed_total:
  "obj_get (events st) (bound_type S selector (fst (split_type w))) = Some l \<Longrightarrow>
   \<exists>st'. remove_typed S mapped guid selector w st = Inr st'"
  by (auto simp: remove_typed_def Let_def split_def)

lemma add_remove:
  assumes S: "special_ok S" and ok: "table_ok S st" and fresh: "guid_of g f = None" "guids_below (next_guid g) st"
    and w: "\<forall>c\<in>set w. \<not> is_space c" "fst (split_type w) \<noteq> []"
    and add: "event_add S needs w f x selector g st = Inr (g', st1)"
  shows "\<exists>st2. event_remove S w (Some (guid_of g' f)) selector st1 = Inr st2 \<and> (\<forall>t. handlers_of st2 t = handlers_of st t)"
proof -
  define n where "n = next_guid g"
  define type where "type = bound_type S selector (fst (split_type w))"
  define q where "q = removal_of False (Some (Some n)) selector w"
  define st0 where "st0 = st\<lparr>has_handle := True\<rparr>"
  have words: "rnotwhite_words w = [w]" using w(2) by (intro one_word [OF w(1)]) (auto simp: split_type_def Let_def)
  have ok0: "table_ok S st0" using ok by (simp add: st0_def table_ok_def)
  have g': "guid_of g' f = Some n" and a: "add_word S needs f n x selector w st0 = Inr st1"
    using add fresh(1) by (auto simp: event_add_def take_guid_def words bind_result_eq_Inr n_def st0_def)
  obtain h l where h: "h_origType h = fst (split_type w)" "h_guid h = n" "h_selector h = selector"
      "h_namespace h = join_ns (namespaces_of (snd (split_type w)))"
    and l: "hs l = handlers_of st0 type" "obj_get (events st1) type = Some (insert_handle h l)"
      "\<forall>t. t \<noteq> type \<longrightarrow> handlers_of st1 t = handlers_of st0 t"
    using add_one_word [OF ok0 a w(2)] unfolding type_def [symmetric] by blast
  have same: "handlers_of st0 = handlers_of st" by (rule ext) (simp add: st0_def handlers_of_def)
  have "\<forall>h\<in>set (hs l). h_guid h < n" using fresh(2) by (simp add: l(1) same guids_below_def n_def)
  then have "\<forall>h\<in>set (hs l). \<not> removes q h" by (auto simp: q_def removal_of_def removes_def)
  then have restored: "filter (\<lambda>h. \<not> removes q h) (handlers_of st1 type) = handlers_of st type"
    using filter_insert_handle [OF self_removes [OF h w(1)], of l] by (simp add: handlers_of_def l q_def same)
  have "has_handle st1" using event_add_ok [OF ok add] by simp
  obtain st2 where r: "remove_typed S False (Some (Some n)) selector w st1 = Inr st2"
    using remove_typed_total l(2) unfolding type_def by blast
  have "table_ok S st1" using event_add_ok [OF ok add] by simp
  then have "\<forall>t. handlers_of st2 t = handlers_of st t"
    using remove_typed_ok [OF S _ r] restored l(3) by (simp add: type_def [symmetric] q_def [symmetric] same)
  moreover have "handlers_of (clean_up st2) = handlers_of st2" by (rule ext) (simp add: clean_up_def handlers_of_def)
  moreover have "event_remove S w (Some (guid_of g' f)) selector st1 = Inr (clean_up st2)"
    using \<open>has_handle st1\<close> r w(2) by (simp add: event_remove_def words remove_word_def g')
  ultimately show ?thesis by metis
qed

section \<open>Properties\<close>

text \<open>
  C12: Adding and removing handlers keep the table of an element well formed: each type has a list of handlers
  of that type that is not empty, its delegated handlers in front and counted, and the host listens to exactly
  the types of the table (but for the special events that listen themselves, which are set up).
\<close>

theorem event_table_ok:
  assumes "special_ok S" "table_ok S st"
  shows "(\<forall>needs types f x selector g g' st'. event_add S needs types f x selector g st = Inr (g', st') \<longrightarrow> table_ok S st') \<and>
    (\<forall>types guid selector st'. event_remove S types guid selector st = Inr st' \<longrightarrow> table_ok S st')"
  using event_add_ok [OF assms(2)] event_remove_ok [OF assms] by blast

definition demo_guids :: "nat guids" where
  "demo_guids = \<lparr>guid_of = (\<lambda>f. None), next_guid = 1\<rparr>"

definition demo_events :: "(nat guids \<times> (nat, unit) elem_events) result" where
  "demo_events = event_add (special_of True) (\<lambda>s. False) ''click.a focus'' (7::nat) () (Some ''p'')
     demo_guids no_events"

lemma bind_pair_Inr: "bind_result r (\<lambda>(g, st). Inr (F g st)) = Inr y \<Longrightarrow> \<exists>g st. r = Inr (g, st) \<and> F g st = y"
  by (cases r) auto

lemma demo_events_table:
  "\<exists>g st. demo_events = Inr (g, st) \<and> obj_keys (events st) = [''focusin'', ''click''] \<and> has_handle st"
proof -
  have "bind_result demo_events (\<lambda>(g, st). Inr (obj_keys (events st), has_handle st)) = Inr ([''focusin'', ''click''], True)"
    by code_simp
  from bind_pair_Inr [OF this] show ?thesis unfolding prod.inject by simp
qed

lemma event_table_ok_witness:
  "\<exists>g st. demo_events = Inr (g, st) \<and> table_ok (special_of True) st \<and> listening st = {''click'', ''focusin''}"
proof -
  obtain g st where r: "demo_events = Inr (g, st)" and k: "obj_keys (events st) = [''focusin'', ''click'']"
    using demo_events_table by blast
  have ok: "table_ok (special_of True) st"
    using event_table_ok [OF special_of_ok no_events_ok, of True] r unfolding demo_events_def by metis
  have "listening st = {t. t \<in> set (obj_keys (events st)) \<and> \<not> handled (special_of True t)}"
    using ok by (simp add: table_ok_def obj_in_keys)
  also have "\<dots> = {''click'', ''focusin''}"
    unfolding k by (auto simp: handled_types)
  finally show ?thesis using r ok by blast
qed

text \<open>
  C10: A removal by a word with a type, whose namespaces are plain names, takes out of the list of that type exactly the
  handlers that agree with the word's type, the function and the selector where they are given, and have the namespaces
  of the word; the other handlers keep their order, and the other types are untouched. A handler has the namespaces of
  the word when those of the word are among its own, in any order, one that is repeated as often at least. The handlers
  of the table have namespaces as \<open>add\<close> writes them, on one line.
\<close>

theorem remove_exact:
  assumes "special_ok S" "table_ok S st" "remove_word S guid selector w st = Inr st'" "fst (split_type w) = origType"
    "origType \<noteq> []" "\<forall>ns. snd (split_type w) = Some ns \<longrightarrow> plain ns"
    "\<forall>t. \<forall>h\<in>set (handlers_of st t). \<exists>m. one_line m \<and> h_namespace h = join_ns (namespaces_of (Some m))"
  shows "\<forall>t. handlers_of st' t =
    (if t = bound_type S selector origType
     then filter (\<lambda>h. \<not> ((h_origType h = origType) \<and>
       (\<forall>n. guid = Some n \<longrightarrow> n = Some (h_guid h)) \<and>
       (given selector \<longrightarrow> h_selector h = selector \<or> selector = Some ''**'' \<and> given (h_selector h)) \<and>
       (\<forall>ns m. snd (split_type w) = Some ns \<longrightarrow> one_line m \<longrightarrow> h_namespace h = join_ns (namespaces_of (Some m)) \<longrightarrow>
          mset (split1 (CHR ''.'') ns) \<subseteq># mset (split1 (CHR ''.'') m)))) (handlers_of st t)
     else handlers_of st t)"
proof -
  have "remove_typed S False guid selector w st = Inr st'" using assms(3-5) by (simp add: remove_word_def)
  note r = remove_typed_ok [OF assms(1,2) this]
  define q where "q = removal_of False guid selector w"
  have spaces: "test (ns_pattern (namespaces_of (Some ns))) (h_namespace h) \<longleftrightarrow>
      (\<forall>m. one_line m \<longrightarrow> h_namespace h = join_ns (namespaces_of (Some m)) \<longrightarrow>
        mset (split1 (CHR ''.'') ns) \<subseteq># mset (split1 (CHR ''.'') m))"
    if ns: "snd (split_type w) = Some ns" and h: "h \<in> set (handlers_of st t)" for ns t h
  proof -
    have ne: "ns \<noteq> []" using ns by (auto simp: split_type_def Let_def split: if_splits)
    obtain m where m: "one_line m" "h_namespace h = join_ns (namespaces_of (Some m))" using assms(7) h by blast
    show ?thesis using removes_namespaces [OF ne] ns m by metis
  qed
  have "removes q h \<longleftrightarrow> (h_origType h = origType) \<and>
       (\<forall>n. guid = Some n \<longrightarrow> n = Some (h_guid h)) \<and>
       (given selector \<longrightarrow> h_selector h = selector \<or> selector = Some ''**'' \<and> given (h_selector h)) \<and>
       (\<forall>ns m. snd (split_type w) = Some ns \<longrightarrow> one_line m \<longrightarrow> h_namespace h = join_ns (namespaces_of (Some m)) \<longrightarrow>
          mset (split1 (CHR ''.'') ns) \<subseteq># mset (split1 (CHR ''.'') m))"
    if "h \<in> set (handlers_of st t)" for t h
    using spaces [OF _ that] assms(4)
    by (cases "snd (split_type w)"; cases guid) (auto simp: q_def removes_def removal_of_def)
  note same = this
  have "filter (\<lambda>h. \<not> removes q h) (handlers_of st t) = filter (\<lambda>h. \<not> ((h_origType h = origType) \<and>
       (\<forall>n. guid = Some n \<longrightarrow> n = Some (h_guid h)) \<and>
       (given selector \<longrightarrow> h_selector h = selector \<or> selector = Some ''**'' \<and> given (h_selector h)) \<and>
       (\<forall>ns m. snd (split_type w) = Some ns \<longrightarrow> one_line m \<longrightarrow> h_namespace h = join_ns (namespaces_of (Some m)) \<longrightarrow>
          mset (split1 (CHR ''.'') ns) \<subseteq># mset (split1 (CHR ''.'') m)))) (handlers_of st t)" for t
    by (rule filter_cong [OF refl]) (simp only: same)
  with r assms(4) show ?thesis unfolding q_def by simp
qed

lemma demo_events_handlers:
  "\<exists>g st. demo_events = Inr (g, st) \<and> table_ok (special_of True) st \<and>
    (\<forall>t. handlers_of st t =
      (if t = ''click'' then [\<lparr>h_type = ''click'', h_origType = ''click'', h_data = (), h_handler = 7, h_guid = 1,
         h_selector = Some ''p'', h_needsContext = False, h_namespace = ''a''\<rparr>]
       else if t = ''focusin'' then [\<lparr>h_type = ''focusin'', h_origType = ''focus'', h_data = (), h_handler = 7, h_guid = 1,
         h_selector = Some ''p'', h_needsContext = False, h_namespace = ''''\<rparr>]
       else []))"
proof -
  have "bind_result demo_events (\<lambda>(g, st). Inr (obj_keys (events st), handlers_of st ''click'', handlers_of st ''focusin'')) =
      Inr ([''focusin'', ''click''], [\<lparr>h_type = ''click'', h_origType = ''click'', h_data = (), h_handler = 7, h_guid = 1,
         h_selector = Some ''p'', h_needsContext = False, h_namespace = ''a''\<rparr>],
       [\<lparr>h_type = ''focusin'', h_origType = ''focus'', h_data = (), h_handler = 7, h_guid = 1,
         h_selector = Some ''p'', h_needsContext = False, h_namespace = ''''\<rparr>])"
    by code_simp
  from bind_pair_Inr [OF this] obtain g st where r: "demo_events = Inr (g, st)"
    and k: "obj_keys (events st) = [''focusin'', ''click'']"
    and h: "handlers_of st ''click'' = [\<lparr>h_type = ''click'', h_origType = ''click'', h_data = (), h_handler = 7, h_guid = 1,
         h_selector = Some ''p'', h_needsContext = False, h_namespace = ''a''\<rparr>]"
      "handlers_of st ''focusin'' = [\<lparr>h_type = ''focusin'', h_origType = ''focus'', h_data = (), h_handler = 7, h_guid = 1,
         h_selector = Some ''p'', h_needsContext = False, h_namespace = ''''\<rparr>]"
    unfolding prod.inject by blast
  have "table_ok (special_of True) st" using event_add_ok [OF no_events_ok] r unfolding demo_events_def by metis
  moreover have "handlers_of st t = []" if "t \<noteq> ''click''" "t \<noteq> ''focusin''" for t
    using obj_in_keys [of t "events st"] that unfolding k by (simp add: handlers_of_def)
  ultimately show ?thesis using r h by (intro exI [of _ g] exI [of _ st]) simp
qed

lemma remove_exact_witness:
  "\<exists>g st st'. demo_events = Inr (g, st) \<and> remove_word (special_of True) (Some (Some 1)) (Some ''p'') ''focus'' st = Inr st' \<and>
    handlers_of st' ''focusin'' = []"
proof -
  obtain g st where r: "demo_events = Inr (g, st)" and ok: "table_ok (special_of True) st"
    and h: "\<forall>t. handlers_of st t =
      (if t = ''click'' then [\<lparr>h_type = ''click'', h_origType = ''click'', h_data = (), h_handler = 7, h_guid = 1,
         h_selector = Some ''p'', h_needsContext = False, h_namespace = ''a''\<rparr>]
       else if t = ''focusin'' then [\<lparr>h_type = ''focusin'', h_origType = ''focus'', h_data = (), h_handler = 7, h_guid = 1,
         h_selector = Some ''p'', h_needsContext = False, h_namespace = ''''\<rparr>]
       else [])"
    using demo_events_handlers by blast
  have w: "split_type ''focus'' = (''focus'', None)" "bound_type (special_of True) (Some ''p'') ''focus'' = ''focusin''"
    by code_simp+
  have "obj_get (events st) ''focusin'' \<noteq> None" using spec [OF h, of "''focusin''"] by (auto simp: handlers_of_def split: option.splits)
  then obtain l where "obj_get (events st) (bound_type (special_of True) (Some ''p'') (fst (split_type ''focus''))) = Some l"
    by (auto simp: w)
  then obtain st' where rm: "remove_word (special_of True) (Some (Some 1)) (Some ''p'') ''focus'' st = Inr st'"
    using remove_typed_total by (fastforce simp: remove_word_def w)
  have names: "\<forall>t. \<forall>h\<in>set (handlers_of st t). \<exists>m. one_line m \<and> h_namespace h = join_ns (namespaces_of (Some m))"
  proof -
    have "one_line ''a'' \<and> ''a'' = join_ns (namespaces_of (Some ''a''))" "one_line '''' \<and> '''' = join_ns (namespaces_of (Some ''''))"
      by code_simp+
    moreover have "h_namespace hh = ''a'' \<or> h_namespace hh = ''''" if "hh \<in> set (handlers_of st t)" for t hh
      using that by (auto simp: h split: if_splits)
    ultimately show ?thesis by metis
  qed
  have "handlers_of st' ''focusin'' = []"
    by (subst remove_exact [OF special_of_ok ok rm _ _ _ names, of "''focus''", THEN spec]) (simp_all add: w h)
  with r rm show ?thesis by blast
qed

text \<open>
  C20: What one handler brought, taking it away brings back: adding a function that has no guid yet under one word, whose
  namespaces are plain names, and removing that word with the function and the selector gives every type the handlers it
  had.
\<close>

theorem add_remove_restores:
  assumes "special_ok S" "table_ok S st" "guid_of g f = None" "guids_below (next_guid g) st"
    "\<forall>c\<in>set w. \<not> is_space c" "fst (split_type w) \<noteq> []"
    "\<forall>ns. snd (split_type w) = Some ns \<longrightarrow> plain ns" "event_add S needs w f x selector g st = Inr (g', st1)"
  shows "\<exists>st2. event_remove S w (Some (guid_of g' f)) selector st1 = Inr st2 \<and>
    (\<forall>t. handlers_of st2 t = handlers_of st t)"
  using assms(1-6,8) by (rule add_remove)

lemma add_remove_restores_witness:
  "\<exists>g st st2. event_add (special_of True) (\<lambda>s. False) ''mouseenter.b.a'' (3::nat) () None demo_guids no_events = Inr (g, st) \<and>
    event_remove (special_of True) ''mouseenter.b.a'' (Some (guid_of g 3)) None st = Inr st2 \<and>
    (\<forall>t. handlers_of st2 t = [])"
proof -
  have "bind_result (event_add (special_of True) (\<lambda>s. False) ''mouseenter.b.a'' (3::nat) () None demo_guids no_events)
      (\<lambda>(g, st). Inr True) = Inr True"
    by code_simp
  from bind_pair_Inr [OF this] obtain g st where
    r: "event_add (special_of True) (\<lambda>s. False) ''mouseenter.b.a'' (3::nat) () None demo_guids no_events = Inr (g, st)"
    by blast
  have w: "split_type ''mouseenter.b.a'' = (''mouseenter'', Some ''b.a'')" "plain ''b.a''"
    "\<forall>c\<in>set ''mouseenter.b.a''. \<not> is_space c" "guid_of demo_guids 3 = None"
    by code_simp+
  have e: "handlers_of (no_events :: (nat, unit) elem_events) t = []" for t by (simp add: handlers_of_def no_events_def js_obj)
  show ?thesis
    using add_remove_restores [OF special_of_ok no_events_ok w(4) _ w(3) _ _ r] w(1,2) r
    by (auto simp: e guids_below_def)
qed

text \<open>
  A delegated \<open>focus\<close> is kept under \<open>focusin\<close>, whose \<open>setup\<close> attaches a capturing listener to the document where the
  host has no \<open>focusin\<close>; the removal asks the \<open>teardown\<close> of \<open>focus\<close>, which has none: the table is empty, and
  the set up of \<open>focusin\<close> is still counted.
\<close>

lemma focus_left_set_up:
  "bind_result (event_add (special_of False) (\<lambda>s. False) ''focus'' (3::nat) () (Some ''p'') demo_guids no_events)
     (\<lambda>(g, st). bind_result (event_remove (special_of False) ''focus'' None (Some ''p'') st)
        (\<lambda>st. Inr (obj_keys (events st), has_handle st, ''focusin'' \<in> set_up st))) = Inr ([], False, True)"
  by code_simp

lemma focusin_torn_down:
  "bind_result (event_add (special_of False) (\<lambda>s. False) ''focusin'' (3::nat) () (Some ''p'') demo_guids no_events)
     (\<lambda>(g, st). bind_result (event_remove (special_of False) ''focusin'' None (Some ''p'') st)
        (\<lambda>st. Inr (obj_keys (events st), has_handle st, ''focusin'' \<in> set_up st))) = Inr ([], False, False)"
  by code_simp

text \<open>The expression that the language makes of the name \<open>a+b\<close> does not find that name.\<close>

lemma special_name_left:
  "\<not> test (Seq (Grp 1 (Alt Bol (Ch CHR ''.''))) (Seq (Seq (Plus (Ch CHR ''a'')) (Ch CHR ''b'')) (Grp 2 (Alt (Ch CHR ''.'') Eol))))
     (join_ns (namespaces_of (snd (split_type ''click.a+b''))))"
  "\<not> plain ''a+b''"
  by code_simp+

text \<open>A type with the name of an inherited property finds a function in place of a list.\<close>

lemma inherited_type_throws:
  "(case event_add (special_of True) (\<lambda>s. False) ''toString'' (3::nat) () None demo_guids no_events of
      Inl e \<Rightarrow> Some e | Inr x \<Rightarrow> None) = Some TypeError"
  by code_simp

end
