(* ===== verification/J_Dispatch.thy ===== *)
theory J_Dispatch
  imports J_Events J_Select
begin

text \<open>
  How an event runs its handlers (\<open>jquery-3.1.0.js\<close>): the object \<open>jQuery.Event\<close>, \<open>jQuery.event.handlers\<close>,
  \<open>dispatch\<close> and \<open>trigger\<close>. A handler is a function of the page: what it does to the event and to the world (the
  tables of the elements among it) is the parameter \<open>call\<close>.
\<close>

section \<open>The event object\<close>

text \<open>What a handler returns; \<open>False\<close> is set apart.\<close>

datatype 'v ret = Undefined | Falsum | Val 'v

text \<open>
  \<open>native\<close> is \<open>originalEvent\<close>: its own flags are those of the host. The namespaces are those of a trigger,
  sorted; none is no \<open>rnamespace\<close>. \<open>result_sent\<close> is \<open>originalEvent.returnValue\<close>.
\<close>

record native =
  defaultPrevented :: bool
  propagation_stopped :: bool
  immediate_stopped :: bool

record ('h, 'd, 'v) event =
  e_type :: string
  target :: nat
  currentTarget :: "nat option"
  delegateTarget :: "nat option"
  relatedTarget :: "nat option"
  button :: "int option"
  originalEvent :: "native option"
  isSimulated :: bool
  isDefaultPrevented :: bool
  isPropagationStopped :: bool
  isImmediatePropagationStopped :: bool
  rnamespace :: "string list"
  e_handleObj :: "('h, 'd) handleObj option"
  result :: "'v ret"
  result_sent :: "'v ret"

definition new_event :: "string \<Rightarrow> nat \<Rightarrow> ('h, 'd, 'v) event" where
  "new_event type t =
     \<lparr>e_type = type, target = t, currentTarget = None, delegateTarget = None, relatedTarget = None, button = None,
      originalEvent = None, isSimulated = False, isDefaultPrevented = False, isPropagationStopped = False,
      isImmediatePropagationStopped = False, rnamespace = [], e_handleObj = None, result = Undefined,
      result_sent = Undefined\<rparr>"

text \<open>
  \<open>new jQuery.Event(src)\<close> of an event of the host that has \<open>defaultPrevented\<close>: a text node as target gives way to
  its parent.
\<close>

definition event_of :: "dom \<Rightarrow> string \<Rightarrow> native \<Rightarrow> nat \<Rightarrow> nat option \<Rightarrow> nat option \<Rightarrow> int option \<Rightarrow> ('h, 'd, 'v) event" where
  "event_of d type src t current related but =
     (new_event type (if t < length d \<and> node_type_of (d ! t) = 3 then (case parentNode d t of Some p \<Rightarrow> p | None \<Rightarrow> t) else t))
       \<lparr>originalEvent := Some src, isDefaultPrevented := defaultPrevented src, currentTarget := current,
        relatedTarget := related, button := but\<rparr>"

definition on_native :: "(native \<Rightarrow> native) \<Rightarrow> ('h, 'd, 'v) event \<Rightarrow> ('h, 'd, 'v) event" where
  "on_native f e = (if isSimulated e then e else e\<lparr>originalEvent := map_option f (originalEvent e)\<rparr>)"

definition preventDefault :: "('h, 'd, 'v) event \<Rightarrow> ('h, 'd, 'v) event" where
  "preventDefault e = on_native (\<lambda>n. n\<lparr>defaultPrevented := True\<rparr>) (e\<lparr>isDefaultPrevented := True\<rparr>)"

definition stopPropagation :: "('h, 'd, 'v) event \<Rightarrow> ('h, 'd, 'v) event" where
  "stopPropagation e = on_native (\<lambda>n. n\<lparr>propagation_stopped := True\<rparr>) (e\<lparr>isPropagationStopped := True\<rparr>)"

definition stopImmediatePropagation :: "('h, 'd, 'v) event \<Rightarrow> ('h, 'd, 'v) event" where
  "stopImmediatePropagation e =
     stopPropagation (on_native (\<lambda>n. n\<lparr>immediate_stopped := True\<rparr>) (e\<lparr>isImmediatePropagationStopped := True\<rparr>))"

section \<open>The queue of an element\<close>

text \<open>
  Whether a delegated handler asks for \<open>cur\<close>. Without \<open>needsContext\<close> the selector is run on the seed \<open>[cur]\<close>,
  otherwise it is searched below \<open>this\<close>. A search from a node that is no element, document or fragment finds
  nothing. \<open>F\<close>, \<open>finder\<close> and the counter \<open>dn\<close> are those of the selector engine.
\<close>

definition search_from :: "dom \<Rightarrow> nat \<Rightarrow> bool" where
  "search_from d c \<longleftrightarrow> c < length d \<and> node_type_of (d ! c) \<in> {1, 9, 11}"

definition delegate_matches ::
  "dom \<Rightarrow> (token \<Rightarrow> nat \<Rightarrow> bool) \<Rightarrow> (token \<Rightarrow> nat \<Rightarrow> nat list option) \<Rightarrow> nat \<Rightarrow> nat \<Rightarrow> string \<Rightarrow> bool \<Rightarrow> nat \<Rightarrow> cstate
    \<Rightarrow> sizzle_error + bool \<times> cstate" where
  "delegate_matches d F finder dn this sel needs cur s =
     (let sel' = replace_all rtrim (group 1) sel
      in if \<not> search_from d this then Inr (False, s)
         else if needs then
           (case select d F finder sel' this False dn s of Inl e \<Rightarrow> Inl e | Inr (es, s') \<Rightarrow> Inr (cur \<in> set es, s'))
         else
           (case tokenize sel' of
              Inl e \<Rightarrow> Inl e
            | Inr gs \<Rightarrow> (case run_selector d F gs (Some [cur]) this False sel' dn s of (es, s') \<Rightarrow> Inr (es \<noteq> [], s'))))"

text \<open>
  The delegated handlers for one node: the answer for a selector is kept in \<open>matches\<close> under the selector and a
  space.
\<close>

definition memo_key :: "('h, 'd) handleObj \<Rightarrow> string" where
  "memo_key h = (case h_selector h of Some s \<Rightarrow> s | None \<Rightarrow> ''undefined'') @ '' ''"

fun match_delegates ::
  "dom \<Rightarrow> (token \<Rightarrow> nat \<Rightarrow> bool) \<Rightarrow> (token \<Rightarrow> nat \<Rightarrow> nat list option) \<Rightarrow> nat \<Rightarrow> nat \<Rightarrow> nat
    \<Rightarrow> ('h, 'd) handleObj list \<Rightarrow> (string, bool) jsobj \<Rightarrow> cstate \<Rightarrow> sizzle_error + ('h, 'd) handleObj list \<times> cstate" where
  "match_delegates d F finder dn this cur [] matches s = Inr ([], s)"
| "match_delegates d F finder dn this cur (h # others) matches s =
     (let sel = memo_key h
      in case (case obj_get matches sel of
                 Some b \<Rightarrow> Inr (b, s)
               | None \<Rightarrow> delegate_matches d F finder dn this sel (h_needsContext h) cur s) of
           Inl e \<Rightarrow> Inl e
         | Inr (b, s') \<Rightarrow>
             (case match_delegates d F finder dn this cur others (obj_put sel b matches) s' of
                Inl e \<Rightarrow> Inl e
              | Inr (ms, s'') \<Rightarrow> Inr (if b then h # ms else ms, s'')))"

text \<open>The nodes from the target up to \<open>this\<close>, which is not among them.\<close>

function nodes_to :: "dom \<Rightarrow> nat \<Rightarrow> nat \<Rightarrow> nat list" where
  "nodes_to d this cur =
     (if cur = this then []
      else cur # (case parentNode d cur of Some p \<Rightarrow> nodes_to d this p | None \<Rightarrow> []))"
  by pat_completeness auto
termination by (relation "measure (\<lambda>(d, this, cur). cur)") (auto simp: parentNode_def split: if_splits option.splits)

declare nodes_to.simps [simp del]

fun delegate_queue ::
  "dom \<Rightarrow> (token \<Rightarrow> nat \<Rightarrow> bool) \<Rightarrow> (token \<Rightarrow> nat \<Rightarrow> nat list option) \<Rightarrow> nat \<Rightarrow> (nat \<Rightarrow> bool) \<Rightarrow> nat
    \<Rightarrow> ('h, 'd) handleObj list \<Rightarrow> nat list \<Rightarrow> cstate \<Rightarrow> sizzle_error + (nat \<times> ('h, 'd) handleObj list) list \<times> cstate" where
  "delegate_queue d F finder dn skip this ds [] s = Inr ([], s)"
| "delegate_queue d F finder dn skip this ds (cur # curs) s =
     (if is_element d cur \<and> \<not> skip cur
      then (case match_delegates d F finder dn this cur ds [] s of
              Inl e \<Rightarrow> Inl e
            | Inr (ms, s') \<Rightarrow>
                (case delegate_queue d F finder dn skip this ds curs s' of
                   Inl e \<Rightarrow> Inl e
                 | Inr (q, s'') \<Rightarrow> Inr (if ms \<noteq> [] then (cur, ms) # q else q, s'')))
      else delegate_queue d F finder dn skip this ds curs s)"

text \<open>\<open>no_clicks\<close> is the property \<open>disabled\<close> of the host.\<close>

definition handlers ::
  "dom \<Rightarrow> (token \<Rightarrow> nat \<Rightarrow> bool) \<Rightarrow> (token \<Rightarrow> nat \<Rightarrow> nat list option) \<Rightarrow> nat \<Rightarrow> (nat \<Rightarrow> bool) \<Rightarrow> nat
    \<Rightarrow> ('h, 'd, 'v) event \<Rightarrow> ('h, 'd) hlist \<Rightarrow> cstate
    \<Rightarrow> sizzle_error + (nat \<times> ('h, 'd) handleObj list) list \<times> cstate" where
  "handlers d F finder dn no_clicks this e l s =
     (let direct = (if delegateCount l < length (hs l) then [(this, drop (delegateCount l) (hs l))] else [])
      in if delegateCount l \<noteq> 0 \<and> target e < length d \<and>
            (e_type e \<noteq> ''click'' \<or> (case button e of None \<Rightarrow> True | Some b \<Rightarrow> b < 1))
         then (case delegate_queue d F finder dn (\<lambda>cur. no_clicks cur \<and> e_type e = ''click'') this
                      (take (delegateCount l) (hs l)) (nodes_to d this (target e)) s of
                 Inl x \<Rightarrow> Inl x
               | Inr (q, s') \<Rightarrow> Inr (q @ direct, s'))
         else Inr (direct, s))"

section \<open>dispatch\<close>

text \<open>
  What the page's handlers do: \<open>call f this e w\<close> is the value of the handler, the event it leaves and the world
  it leaves. The special handle of \<open>mouseenter\<close> and its like calls the handler only when the pointer came from
  outside, with the type put back for the time of the call.
\<close>

type_synonym ('h, 'd, 'v, 'w) page =
  "'h \<Rightarrow> nat \<Rightarrow> ('h, 'd, 'v) event \<Rightarrow> 'w \<Rightarrow> 'v ret \<times> ('h, 'd, 'v) event \<times> 'w"

definition contains :: "dom \<Rightarrow> nat \<Rightarrow> nat \<Rightarrow> bool" where
  "contains d a b \<longleftrightarrow> a \<in> set (path d Up b)"

definition hover_handle ::
  "dom \<Rightarrow> ('h, 'd, 'v, 'w) page \<Rightarrow> string \<Rightarrow> ('h, 'd) handleObj \<Rightarrow> nat \<Rightarrow> ('h, 'd, 'v) event \<Rightarrow> 'w
    \<Rightarrow> 'v ret \<times> ('h, 'd, 'v) event \<times> 'w" where
  "hover_handle d call fix' h this e w =
     (if (case relatedTarget e of None \<Rightarrow> True | Some r \<Rightarrow> r \<noteq> this \<and> \<not> contains d this r)
      then (case call (h_handler h) this (e\<lparr>e_type := h_origType h\<rparr>) w of (ret, e', w') \<Rightarrow> (ret, e'\<lparr>e_type := fix'\<rparr>, w'))
      else (Undefined, e, w))"

definition run_handler ::
  "dom \<Rightarrow> ('h, 'd, 'v, 'w) page \<Rightarrow> ('h, 'd) handleObj \<Rightarrow> nat \<Rightarrow> ('h, 'd, 'v) event \<Rightarrow> 'w
    \<Rightarrow> 'v ret \<times> ('h, 'd, 'v) event \<times> 'w" where
  "run_handler d call h this e w =
     (case map_of hover_types (h_origType h) of
        Some fix' \<Rightarrow> hover_handle d call fix' h this e w
      | None \<Rightarrow> call (h_handler h) this e w)"

text \<open>\<open>event.result = ret\<close>, and \<open>return false\<close>.\<close>

definition take_result :: "'v ret \<Rightarrow> ('h, 'd, 'v) event \<Rightarrow> ('h, 'd, 'v) event" where
  "take_result ret e =
     (if ret = Undefined then e
      else if ret = Falsum then stopPropagation (preventDefault (e\<lparr>result := ret\<rparr>))
      else e\<lparr>result := ret\<rparr>)"

definition namespace_agrees :: "('h, 'd, 'v) event \<Rightarrow> ('h, 'd) handleObj \<Rightarrow> bool" where
  "namespace_agrees e h \<longleftrightarrow> rnamespace e = [] \<or> test (ns_pattern (rnamespace e)) (h_namespace h)"

text \<open>
  The loops over the queue, with a record of the calls they made: the node, the handler, the value it returned and
  how the event stood after.
\<close>

record ('h, 'd, 'v) invocation =
  c_node :: nat
  c_handler :: "('h, 'd) handleObj"
  c_value :: "'v ret"
  c_stopped :: bool
  c_immediate :: bool

definition invoked :: "nat \<Rightarrow> ('h, 'd) handleObj \<Rightarrow> 'v ret \<Rightarrow> ('h, 'd, 'v) event \<Rightarrow> ('h, 'd, 'v) invocation" where
  "invoked this h ret e =
     \<lparr>c_node = this, c_handler = h, c_value = ret, c_stopped = isPropagationStopped e,
      c_immediate = isImmediatePropagationStopped e\<rparr>"

fun run_matched ::
  "dom \<Rightarrow> ('h, 'd, 'v, 'w) page \<Rightarrow> nat \<Rightarrow> ('h, 'd) handleObj list \<Rightarrow> ('h, 'd, 'v) event \<Rightarrow> 'w
    \<Rightarrow> ('h, 'd, 'v) invocation list \<times> ('h, 'd, 'v) event \<times> 'w" where
  "run_matched d call this [] e w = ([], e, w)"
| "run_matched d call this (h # others) e w =
     (if isImmediatePropagationStopped e then ([], e, w)
      else if namespace_agrees e h then
        (case run_handler d call h this (e\<lparr>e_handleObj := Some h\<rparr>) w of (ret, e', w') \<Rightarrow>
         case run_matched d call this others (take_result ret e') w' of (log, e'', w'') \<Rightarrow>
           (invoked this h ret (take_result ret e') # log, e'', w''))
      else run_matched d call this others e w)"

fun run_queue ::
  "dom \<Rightarrow> ('h, 'd, 'v, 'w) page \<Rightarrow> (nat \<times> ('h, 'd) handleObj list) list \<Rightarrow> ('h, 'd, 'v) event \<Rightarrow> 'w
    \<Rightarrow> ('h, 'd, 'v) invocation list \<times> ('h, 'd, 'v) event \<times> 'w" where
  "run_queue d call [] e w = ([], e, w)"
| "run_queue d call ((elem, matched) # q) e w =
     (if isPropagationStopped e then ([], e, w)
      else
        (case run_matched d call elem matched (e\<lparr>currentTarget := Some elem\<rparr>) w of (log, e', w') \<Rightarrow>
         case run_queue d call q e' w' of (log', e'', w'') \<Rightarrow> (log @ log', e'', w'')))"

text \<open>The \<open>postDispatch\<close> of \<open>beforeunload\<close>; no special event of the library has a \<open>preDispatch\<close>.\<close>

definition postDispatch :: "('h, 'd, 'v) event \<Rightarrow> ('h, 'd, 'v) event" where
  "postDispatch e =
     (if result e \<noteq> Undefined \<and> originalEvent e \<noteq> None then e\<lparr>result_sent := result e\<rparr> else e)"

text \<open>\<open>dispatch\<close> for an event that is a \<open>jQuery.Event\<close> already; \<open>st\<close> is the table of \<open>this\<close>.\<close>

definition dispatch ::
  "dom \<Rightarrow> (token \<Rightarrow> nat \<Rightarrow> bool) \<Rightarrow> (token \<Rightarrow> nat \<Rightarrow> nat list option) \<Rightarrow> nat \<Rightarrow> (nat \<Rightarrow> bool)
    \<Rightarrow> ('h, 'd, 'v, 'w) page \<Rightarrow> nat \<Rightarrow> ('h, 'd) elem_events \<Rightarrow> ('h, 'd, 'v) event \<Rightarrow> 'w \<Rightarrow> cstate
    \<Rightarrow> sizzle_error + ('h, 'd, 'v) invocation list \<times> ('h, 'd, 'v) event \<times> 'w \<times> cstate" where
  "dispatch d F finder dn no_clicks call this st e w s =
     (let e1 = e\<lparr>delegateTarget := Some this\<rparr>;
          l = (case obj_get (events st) (e_type e) of Some l \<Rightarrow> l | None \<Rightarrow> \<lparr>delegateCount = 0, hs = []\<rparr>)
      in case handlers d F finder dn no_clicks this e1 l s of
           Inl x \<Rightarrow> Inl x
         | Inr (q, s') \<Rightarrow> (case run_queue d call q e1 w of (log, e2, w') \<Rightarrow>
             Inr (log, (if e_type e = ''beforeunload'' then postDispatch e2 else e2), w', s')))"

section \<open>trigger\<close>

text \<open>
  The window is a number that is no node of the document; \<open>text\<close> nodes take no events. The path is the element, its
  ancestors, and the window when the last of them is the document (the node 0).
\<close>

fun up_path :: "dom \<Rightarrow> nat option \<Rightarrow> nat list" where
  "up_path d None = []"
| "up_path d (Some c) = c # path d Up c"

definition focus_morph :: "string \<Rightarrow> bool" where
  "focus_morph s \<longleftrightarrow> s = ''focusinfocus'' \<or> s = ''focusoutblur''"

definition event_path :: "dom \<Rightarrow> nat \<Rightarrow> special \<Rightarrow> string \<Rightarrow> bool \<Rightarrow> nat \<Rightarrow> nat list" where
  "event_path d window special type onlyHandlers elem =
     (if onlyHandlers \<or> noBubble special \<or> elem = window then [elem]
      else
        (let bubbleType = (case delegateType special of Some t \<Rightarrow> t | None \<Rightarrow> type);
             above = up_path d (if focus_morph (bubbleType @ type) then Some elem else parentNode d elem);
             tmp = last (elem # above)
         in elem # above @ (if tmp = 0 then [window] else [])))"

text \<open>
  The parts of the host: \<open>tables\<close> reads the tables of the elements in the world (\<open>data\<close> that is \<open>handle\<close> and
  \<open>events\<close>), \<open>onhandler w c t\<close> is a function in the property \<open>on\<close>t of a node that accepts data.
\<close>

record ('h, 'd, 'v, 'w) host =
  page_call :: "('h, 'd, 'v, 'w) page"
  tables :: "'w \<Rightarrow> nat \<Rightarrow> ('h, 'd) elem_events"
  onhandler :: "'w \<Rightarrow> nat \<Rightarrow> string \<Rightarrow> (('h, 'd, 'v) event \<Rightarrow> 'w \<Rightarrow> 'v ret \<times> ('h, 'd, 'v) event \<times> 'w) option"
  no_clicks_of :: "nat \<Rightarrow> bool"
  has_method :: "'w \<Rightarrow> nat \<Rightarrow> string \<Rightarrow> bool"
  active :: "'w \<Rightarrow> nat option"
  is_checkbox :: "'w \<Rightarrow> nat \<Rightarrow> bool"
  triggered :: "'w \<Rightarrow> string option"

text \<open>\<open>acceptData\<close>; what is not a node of the document is the window.\<close>

definition accepts_data :: "dom \<Rightarrow> nat \<Rightarrow> bool" where
  "accepts_data d elem \<longleftrightarrow> (elem < length d \<longrightarrow> node_type_of (d ! elem) \<in> {1, 9})"

text \<open>
  One element of the path; the type is already that of the place in the path. The handle of the element does
  nothing for the event whose default action is under way, \<open>triggered\<close>, which triggers inside handlers may change.
\<close>

definition fire_native ::
  "dom \<Rightarrow> ('h, 'd, 'v, 'w) host \<Rightarrow> string option \<Rightarrow> nat \<Rightarrow> ('h, 'd, 'v) event \<Rightarrow> 'w \<Rightarrow> ('h, 'd, 'v) event \<times> 'w" where
  "fire_native d H ontype cur e w =
     (case (if accepts_data d cur then Option.bind ontype (onhandler H w cur) else None) of
        None \<Rightarrow> (e, w)
      | Some f \<Rightarrow> (case f e w of (ret, e', w') \<Rightarrow>
          (if ret = Falsum then preventDefault (e'\<lparr>result := ret\<rparr>) else e'\<lparr>result := ret\<rparr>, w')))"

definition fire_at ::
  "dom \<Rightarrow> (token \<Rightarrow> nat \<Rightarrow> bool) \<Rightarrow> (token \<Rightarrow> nat \<Rightarrow> nat list option) \<Rightarrow> nat \<Rightarrow> ('h, 'd, 'v, 'w) host
    \<Rightarrow> string option \<Rightarrow> nat \<Rightarrow> ('h, 'd, 'v) event \<Rightarrow> 'w \<Rightarrow> cstate
    \<Rightarrow> sizzle_error + ('h, 'd, 'v) invocation list \<times> ('h, 'd, 'v) event \<times> 'w \<times> cstate" where
  "fire_at d F finder dn H ontype cur e w s =
     (case (if obj_get (events (tables H w cur)) (e_type e) \<noteq> None \<and> has_handle (tables H w cur) \<and>
               triggered H w \<noteq> Some (e_type e)
            then dispatch d F finder dn (no_clicks_of H) (page_call H) cur (tables H w cur) e w s
            else Inr ([], e, w, s)) of
        Inl x \<Rightarrow> Inl x
      | Inr (log, e', w', s') \<Rightarrow> (case fire_native d H ontype cur e' w' of (e'', w'') \<Rightarrow> Inr (log, e'', w'', s')))"

fun fire_path ::
  "dom \<Rightarrow> (token \<Rightarrow> nat \<Rightarrow> bool) \<Rightarrow> (token \<Rightarrow> nat \<Rightarrow> nat list option) \<Rightarrow> nat \<Rightarrow> ('h, 'd, 'v, 'w) host
    \<Rightarrow> string option \<Rightarrow> string \<Rightarrow> string \<Rightarrow> nat list \<Rightarrow> ('h, 'd, 'v) event \<Rightarrow> 'w \<Rightarrow> cstate
    \<Rightarrow> sizzle_error + nat list \<times> ('h, 'd, 'v) invocation list \<times> ('h, 'd, 'v) event \<times> 'w \<times> cstate" where
  "fire_path d F finder dn H ontype type bubbleType [] e w s = Inr ([], [], e, w, s)"
| "fire_path d F finder dn H ontype type bubbleType (cur # curs) e w s =
     (if isPropagationStopped e then Inr ([], [], e, w, s)
      else
        (case fire_at d F finder dn H ontype cur (e\<lparr>e_type := type\<rparr>) w s of
           Inl x \<Rightarrow> Inl x
         | Inr (log, e', w', s') \<Rightarrow>
             (case fire_path d F finder dn H ontype bubbleType bubbleType curs e' w' s' of
                Inl x \<Rightarrow> Inl x
              | Inr (vs, log', e'', w'', s'') \<Rightarrow> Inr (cur # vs, log @ log', e'', w'', s''))))"

text \<open>The type and the namespaces of a trigger given as a string, and the attribute \<open>on\<close>type.\<close>

definition trigger_type :: "string \<Rightarrow> string \<times> string list" where
  "trigger_type type =
     (if CHR ''.'' \<in> set type
      then (let ns = split1 (CHR ''.'') type in (hd ns, sort_cmp str_cmp (tl ns)))
      else (type, []))"

definition ontype_of :: "string \<Rightarrow> string option" where
  "ontype_of type = (if CHR '':'' \<in> set type then None else Some (''on'' @ type))"

text \<open>
  \<open>special.trigger\<close> of \<open>focus\<close>, \<open>blur\<close> and \<open>click\<close>, when it calls the method of the host and ends the trigger, and
  \<open>special._default\<close> of \<open>click\<close>.
\<close>

definition special_trigger :: "dom \<Rightarrow> ('h, 'd, 'v, 'w) host \<Rightarrow> 'w \<Rightarrow> string \<Rightarrow> nat \<Rightarrow> bool" where
  "special_trigger d H w type elem \<longleftrightarrow>
     (type = ''focus'' \<and> active H w \<noteq> Some elem \<or> type = ''blur'' \<and> active H w = Some elem \<or>
      type = ''click'' \<and> is_checkbox H w elem \<and> toLowerCase (node_name d elem) = ''input'') \<and> has_method H w elem type"

definition special_default :: "dom \<Rightarrow> string \<Rightarrow> ('h, 'd, 'v) event \<Rightarrow> bool" where
  "special_default d type e \<longleftrightarrow> type = ''click'' \<and> toLowerCase (node_name d (target e)) = ''a''"

text \<open>
  \<open>jQuery.event.trigger(type, null, elem, onlyHandlers)\<close> with a string: the call may be ignored, or end with the
  method of the host that \<open>special.trigger\<close> calls; otherwise the outcome has the visited nodes, the calls, the
  event, and whether the default action of the host, \<open>elem[type]()\<close>, is asked for.
\<close>

record ('h, 'd, 'v) firing_record =
  visited :: "nat list"
  called :: "('h, 'd, 'v) invocation list"
  left_event :: "('h, 'd, 'v) event"
  default_action :: bool

datatype ('h, 'd, 'v) outcome = Ignored | Native_method | Fired "('h, 'd, 'v) firing_record"

definition trigger ::
  "dom \<Rightarrow> (token \<Rightarrow> nat \<Rightarrow> bool) \<Rightarrow> (token \<Rightarrow> nat \<Rightarrow> nat list option) \<Rightarrow> nat \<Rightarrow> ('h, 'd, 'v, 'w) host
    \<Rightarrow> (string \<Rightarrow> special) \<Rightarrow> nat \<Rightarrow> string \<Rightarrow> nat \<Rightarrow> bool \<Rightarrow> 'w \<Rightarrow> cstate
    \<Rightarrow> sizzle_error + ('h, 'd, 'v) outcome \<times> 'w \<times> cstate" where
  "trigger d F finder dn H S window word elem onlyHandlers w s =
     (if elem < length d \<and> node_type_of (d ! elem) \<in> {3, 8} \<or>
         focus_morph (word @ (case triggered H w of Some t \<Rightarrow> t | None \<Rightarrow> ''undefined''))
      then Inr (Ignored, w, s)
      else
        (let (type, ns) = trigger_type word;
             e = (new_event type elem)\<lparr>rnamespace := (if join_ns ns = '''' then [] else ns)\<rparr>
         in if \<not> onlyHandlers \<and> special_trigger d H w type elem then Inr (Native_method, w, s)
            else
              (let path = event_path d window (S type) type onlyHandlers elem;
                   bubbleType = (case delegateType (S type) of Some t \<Rightarrow> t | None \<Rightarrow> type);
                   first = (case bindType (S type) of Some t \<Rightarrow> t | None \<Rightarrow> type)
               in case fire_path d F finder dn H (ontype_of type) first bubbleType path e w s of
                    Inl x \<Rightarrow> Inl x
                  | Inr (vs, log, e', w', s') \<Rightarrow>
                      (let e'' = e'\<lparr>e_type := type\<rparr>
                       in Inr (Fired \<lparr>visited = vs, called = log, left_event = e'',
                        default_action = (\<not> onlyHandlers \<and> \<not> isDefaultPrevented e'' \<and> \<not> special_default d type e'' \<and>
                          accepts_data d elem \<and> ontype_of type \<noteq> None \<and> has_method H w' elem type \<and> elem \<noteq> window)\<rparr>, w', s')))))"

section \<open>The queue is that of the selectors\<close>

definition delegate_groups :: "string \<Rightarrow> token list list" where
  "delegate_groups sel = (case tokenize (replace_all rtrim (group 1) sel) of Inl e \<Rightarrow> [] | Inr gs \<Rightarrow> gs)"

definition delegate_selects :: "dom \<Rightarrow> (token \<Rightarrow> nat \<Rightarrow> bool) \<Rightarrow> nat \<Rightarrow> nat \<Rightarrow> ('h, 'd) handleObj \<Rightarrow> bool" where
  "delegate_selects d F this cur h \<longleftrightarrow>
     (\<exists>g\<in>set (delegate_groups (memo_key h)). selects d F (context_env this) g cur)"

text \<open>A handler with a selector that can be read, run without a context.\<close>

definition plain_delegate :: "('h, 'd) handleObj \<Rightarrow> bool" where
  "plain_delegate h \<longleftrightarrow> \<not> h_needsContext h \<and> (\<exists>gs. tokenize (replace_all rtrim (group 1) (memo_key h)) = Inr gs)"

definition delegate_runs ::
  "dom \<Rightarrow> (token \<Rightarrow> nat \<Rightarrow> bool) \<Rightarrow> nat \<Rightarrow> ('h, 'd) handleObj list \<Rightarrow> nat list \<Rightarrow> (nat \<times> ('h, 'd) handleObj list) list" where
  "delegate_runs d F this ds curs =
     filter (\<lambda>(cur, ms). ms \<noteq> []) (map (\<lambda>cur. (cur, filter (delegate_selects d F this cur) ds)) curs)"

lemma run_selector_groups:
  assumes "runs_ok s" "run_selector d F gs (Some es) c False sel dn s = (rs, s')"
  shows "rs = filter (\<lambda>e. \<exists>g\<in>set gs. selects d F (context_env c) g e) es \<and> runs_ok s'"
proof -
  obtain ms dn' where ms: "compile d F gs dn = (ms, dn')" by (cases "compile d F gs dn")
  have "superMatcher ms es (Some (One c)) False (Outer (One (or_parent d (rsibling sel) c))) s = (rs, s')"
    using assms(2) ms by (simp add: run_selector_def Let_def)
  then show ?thesis
    using superMatcher_run [OF assms(1) ms, of es "Some (One c)" False "Outer (One (or_parent d (rsibling sel) c))"]
    by (simp add: run_env_context)
qed

lemma delegate_matches_ok:
  assumes "plain_delegate h" "search_from d this" "runs_ok s"
  shows "\<exists>s'. delegate_matches d F finder dn this (memo_key h) (h_needsContext h) cur s =
    Inr (delegate_selects d F this cur h, s') \<and> runs_ok s'"
proof -
  obtain gs where gs: "tokenize (replace_all rtrim (group 1) (memo_key h)) = Inr gs" and n: "\<not> h_needsContext h"
    using assms(1) by (auto simp: plain_delegate_def)
  define sel where "sel = replace_all rtrim (group 1) (memo_key h)"
  obtain es s' where r: "run_selector d F gs (Some [cur]) this False sel dn s = (es, s')"
    by (cases "run_selector d F gs (Some [cur]) this False sel dn s")
  note ok = run_selector_groups [OF assms(3) r]
  have "es \<noteq> [] \<longleftrightarrow> delegate_selects d F this cur h"
    using ok unfolding delegate_selects_def delegate_groups_def gs by simp
  moreover have "delegate_matches d F finder dn this (memo_key h) (h_needsContext h) cur s = Inr (es \<noteq> [], s')"
    using n assms(2) r gs unfolding sel_def by (simp add: delegate_matches_def)
  ultimately show ?thesis using ok by simp
qed

text \<open>The answers kept for a selector are the answers of the selector.\<close>

lemma match_delegates_ok:
  fixes ds :: "('h, 'd) handleObj list"
  assumes "\<forall>h\<in>set ds. plain_delegate h" "search_from d this" "runs_ok s"
    "\<forall>(h::('h, 'd) handleObj) b. plain_delegate h \<longrightarrow> obj_get matches (memo_key h) = Some b \<longrightarrow> b = delegate_selects d F this cur h"
  shows "\<exists>s'. match_delegates d F finder dn this cur ds matches s = Inr (filter (delegate_selects d F this cur) ds, s') \<and> runs_ok s'"
  using assms
proof (induction ds arbitrary: matches s)
  case (Cons h ds)
  define b where "b = delegate_selects d F this cur h"
  have "\<exists>s'. (case obj_get matches (memo_key h) of Some b \<Rightarrow> Inr (b, s)
      | None \<Rightarrow> delegate_matches d F finder dn this (memo_key h) (h_needsContext h) cur s) = Inr (b, s') \<and> runs_ok s'"
  proof (cases "obj_get matches (memo_key h)")
    case None
    then show ?thesis using delegate_matches_ok [of h d this s F finder dn cur] Cons.prems(1-3) by (simp add: b_def)
  next
    case (Some c)
    moreover have "plain_delegate h" using Cons.prems(1) by simp
    ultimately have "c = b" using Cons.prems(4) unfolding b_def by blast
    with Some Cons.prems(3) show ?thesis by simp
  qed
  then obtain s1 where s1: "(case obj_get matches (memo_key h) of Some b \<Rightarrow> Inr (b, s)
      | None \<Rightarrow> delegate_matches d F finder dn this (memo_key h) (h_needsContext h) cur s) = Inr (b, s1)" "runs_ok s1"
    by blast
  have same: "delegate_selects d F this cur g = b" if "memo_key g = memo_key h" for g :: "('h, 'd) handleObj"
    using that by (simp add: delegate_selects_def b_def)
  have "\<forall>g c. plain_delegate g \<longrightarrow> obj_get (obj_put (memo_key h) b matches) (memo_key g) = Some c \<longrightarrow>
      c = delegate_selects d F this cur (g :: ('h, 'd) handleObj)"
    using Cons.prems(4) same by (auto simp: js_obj)
  moreover have "\<forall>h\<in>set ds. plain_delegate h" using Cons.prems(1) by simp
  ultimately obtain s2 where s2: "match_delegates d F finder dn this cur ds (obj_put (memo_key h) b matches) s1 =
      Inr (filter (delegate_selects d F this cur) ds, s2)" "runs_ok s2"
    using Cons.IH [OF _ Cons.prems(2) s1(2)] by blast
  have "match_delegates d F finder dn this cur (h # ds) matches s =
      Inr (if b then h # filter (delegate_selects d F this cur) ds else filter (delegate_selects d F this cur) ds, s2)"
    unfolding match_delegates.simps Let_def s1(1) by (simp add: s2(1))
  with s2(2) show ?case by (simp add: b_def)
qed simp

lemma delegate_queue_ok:
  assumes "\<forall>h\<in>set ds. plain_delegate h" "search_from d this" "runs_ok s"
  shows "\<exists>s'. delegate_queue d F finder dn skip this ds curs s =
    Inr (delegate_runs d F this ds (filter (\<lambda>cur. is_element d cur \<and> \<not> skip cur) curs), s') \<and> runs_ok s'"
  using assms(3)
proof (induction curs arbitrary: s)
  case (Cons cur curs)
  show ?case
  proof (cases "is_element d cur \<and> \<not> skip cur")
    case True
    obtain s1 where s1: "match_delegates d F finder dn this cur ds [] s = Inr (filter (delegate_selects d F this cur) ds, s1)"
      "runs_ok s1"
      using match_delegates_ok [OF assms(1,2) Cons.prems, of "[]" F cur finder dn] by (auto simp: js_obj)
    from Cons.IH [OF s1(2)] obtain s2 where s2: "delegate_queue d F finder dn skip this ds curs s1 =
        Inr (delegate_runs d F this ds (filter (\<lambda>cur. is_element d cur \<and> \<not> skip cur) curs), s2)" "runs_ok s2"
      by blast
    with True s1(1) show ?thesis by (simp add: delegate_runs_def)
  next
    case False
    then show ?thesis using Cons.IH [OF Cons.prems] by auto
  qed
qed (simp add: delegate_runs_def)

lemma delegate_runs_Nil [simp]: "delegate_runs d F this [] curs = []"
  by (simp add: delegate_runs_def filter_empty_conv)

lemma nodes_to_path: "nodes_to d this cur = takeWhile (\<lambda>n. n \<noteq> this) (cur # path d Up cur)"
proof (induction d this cur rule: nodes_to.induct)
  case (1 d this cur)
  then show ?case
    by (cases "parentNode d cur") (auto simp: nodes_to.simps [of d this cur] path.simps [of d Up cur] go_def)
qed

text \<open>
  The queue of an element, read from what the selectors mean: from the target up to the element, which comes
  last with the handlers bound to it.
\<close>

definition takes_delegates :: "dom \<Rightarrow> ('h, 'd, 'v) event \<Rightarrow> bool" where
  "takes_delegates d e \<longleftrightarrow>
     target e < length d \<and> (e_type e \<noteq> ''click'' \<or> (case button e of None \<Rightarrow> True | Some b \<Rightarrow> b < 1))"

definition delegated_queue ::
  "dom \<Rightarrow> (token \<Rightarrow> nat \<Rightarrow> bool) \<Rightarrow> (nat \<Rightarrow> bool) \<Rightarrow> nat \<Rightarrow> ('h, 'd, 'v) event \<Rightarrow> ('h, 'd) hlist
    \<Rightarrow> (nat \<times> ('h, 'd) handleObj list) list" where
  "delegated_queue d F no_clicks this e l =
     (if takes_delegates d e
      then delegate_runs d F this (take (delegateCount l) (hs l))
        (filter (\<lambda>cur. is_element d cur \<and> \<not> (no_clicks cur \<and> e_type e = ''click''))
          (takeWhile (\<lambda>n. n \<noteq> this) (target e # path d Up (target e))))
      else [])"

definition direct_queue :: "nat \<Rightarrow> ('h, 'd) hlist \<Rightarrow> (nat \<times> ('h, 'd) handleObj list) list" where
  "direct_queue this l = (if delegateCount l < length (hs l) then [(this, drop (delegateCount l) (hs l))] else [])"

lemma handlers_ok:
  assumes "\<forall>h\<in>set (take (delegateCount l) (hs l)). plain_delegate h" "search_from d this" "runs_ok s"
  shows "\<exists>s'. handlers d F finder dn no_clicks this e l s =
      Inr (delegated_queue d F no_clicks this e l @ direct_queue this l, s') \<and> runs_ok s'"
proof (cases "delegateCount l \<noteq> 0 \<and> takes_delegates d e")
  case False
  then have "handlers d F finder dn no_clicks this e l s = Inr (direct_queue this l, s)"
    unfolding handlers_def Let_def direct_queue_def takes_delegates_def by auto
  moreover have "delegated_queue d F no_clicks this e l = []" using False by (auto simp: delegated_queue_def)
  ultimately show ?thesis using assms(3) by simp
next
  case True
  define q where "q = delegate_queue d F finder dn (\<lambda>cur. no_clicks cur \<and> e_type e = ''click'') this
      (take (delegateCount l) (hs l)) (nodes_to d this (target e)) s"
  have "handlers d F finder dn no_clicks this e l s =
      (case q of Inl x \<Rightarrow> Inl x | Inr (q, s') \<Rightarrow> Inr (q @ direct_queue this l, s'))"
    using True unfolding handlers_def Let_def direct_queue_def takes_delegates_def q_def by simp
  moreover obtain s1 where "q = Inr (delegate_runs d F this (take (delegateCount l) (hs l))
      (filter (\<lambda>cur. is_element d cur \<and> \<not> (no_clicks cur \<and> e_type e = ''click'')) (nodes_to d this (target e))), s1)"
    "runs_ok s1"
    using delegate_queue_ok [OF assms] unfolding q_def by blast
  ultimately show ?thesis using True unfolding nodes_to_path by (simp add: delegated_queue_def)
qed

section \<open>The order of the calls\<close>

text \<open>
  A page whose handlers change the flags of an event by its methods only, and neither its target nor the namespaces
  of its trigger.
\<close>

definition keeps_flags :: "('h, 'd, 'v) event \<Rightarrow> ('h, 'd, 'v) event \<Rightarrow> bool" where
  "keeps_flags e e' \<longleftrightarrow>
     rnamespace e' = rnamespace e \<and> target e' = target e \<and>
     (isDefaultPrevented e \<longrightarrow> isDefaultPrevented e') \<and> (isPropagationStopped e \<longrightarrow> isPropagationStopped e') \<and>
     (isImmediatePropagationStopped e' \<longrightarrow> isImmediatePropagationStopped e \<or> isPropagationStopped e')"

definition page_ok :: "('h, 'd, 'v, 'w) page \<Rightarrow> bool" where
  "page_ok call \<longleftrightarrow> (\<forall>f this e w. keeps_flags e (fst (snd (call f this e w))))"

lemma keeps_flags_refl: "keeps_flags e e"
  by (simp add: keeps_flags_def)

lemma keeps_flags_trans: "keeps_flags a b \<Longrightarrow> keeps_flags b c \<Longrightarrow> keeps_flags a c"
  by (auto simp: keeps_flags_def)

lemma keeps_flags_fields [simp]:
  "keeps_flags e (e'\<lparr>e_type := t\<rparr>) \<longleftrightarrow> keeps_flags e e'" "keeps_flags (e\<lparr>e_type := t\<rparr>) e' \<longleftrightarrow> keeps_flags e e'"
  "keeps_flags (e\<lparr>e_handleObj := h\<rparr>) e' \<longleftrightarrow> keeps_flags e e'" "keeps_flags (e\<lparr>currentTarget := c\<rparr>) e' \<longleftrightarrow> keeps_flags e e'"
  "keeps_flags (e\<lparr>delegateTarget := c\<rparr>) e' \<longleftrightarrow> keeps_flags e e'" "keeps_flags e (e'\<lparr>result := r\<rparr>) \<longleftrightarrow> keeps_flags e e'"
  "keeps_flags e (e'\<lparr>result_sent := r\<rparr>) \<longleftrightarrow> keeps_flags e e'"
  by (simp_all add: keeps_flags_def)

lemma run_handler_keeps: "page_ok call \<Longrightarrow> run_handler d call h this e w = (ret, e', w') \<Longrightarrow> keeps_flags e e'"
proof -
  assume c: "page_ok call" and r: "run_handler d call h this e w = (ret, e', w')"
  have k: "call f t a b = (x, y, z) \<Longrightarrow> keeps_flags a y" for f t a b x y z
    using c by (metis fst_conv snd_conv page_ok_def)
  show ?thesis
    using r k [of "h_handler h" this e w ret e' w'] k [of "h_handler h" this "e\<lparr>e_type := h_origType h\<rparr>" w]
    by (auto simp: run_handler_def hover_handle_def keeps_flags_refl split: option.splits if_splits prod.splits)
qed

lemma take_result_keeps: "keeps_flags e (take_result ret e)"
  by (auto simp: keeps_flags_def take_result_def preventDefault_def stopPropagation_def on_native_def)

lemma take_result_false: "isDefaultPrevented (take_result Falsum e)" "isPropagationStopped (take_result Falsum e)"
  by (simp_all add: take_result_def preventDefault_def stopPropagation_def on_native_def)

text \<open>
  What the calls of a run look like, \<open>e\<close> being the event at the end: after one that stopped the propagation only handlers
  of the same node run, after one that stopped it at once none runs, and to return false is to stop the propagation
  and to prevent the default.
\<close>

fun stops_hold :: "('h, 'd, 'v) invocation list \<Rightarrow> ('h, 'd, 'v) event \<Rightarrow> bool" where
  "stops_hold [] e \<longleftrightarrow> True"
| "stops_hold (c # log) e \<longleftrightarrow>
     (c_stopped c \<longrightarrow> isPropagationStopped e \<and> (\<forall>c'\<in>set log. c_node c' = c_node c)) \<and>
     (c_immediate c \<longrightarrow> c_stopped c \<and> log = []) \<and>
     (c_value c = Falsum \<longrightarrow> c_stopped c \<and> isDefaultPrevented e) \<and> stops_hold log e"

definition agreeing :: "('h, 'd, 'v) event \<Rightarrow> nat \<times> ('h, 'd) handleObj list \<Rightarrow> (nat \<times> ('h, 'd) handleObj) list" where
  "agreeing e x = map (Pair (fst x)) (filter (namespace_agrees e) (snd x))"

definition calls_of :: "('h, 'd, 'v) invocation list \<Rightarrow> (nat \<times> ('h, 'd) handleObj) list" where
  "calls_of log = map (\<lambda>c. (c_node c, c_handler c)) log"

lemma stops_hold_append:
  assumes "stops_hold log e" "stops_hold log' e'" "keeps_flags e e'" "log' = [] \<or> \<not> isPropagationStopped e"
  shows "stops_hold (log @ log') e'"
  using assms by (induction log) (auto simp: keeps_flags_def)

lemma agrees_keeps: "keeps_flags e e' \<Longrightarrow> namespace_agrees e' = namespace_agrees e"
  by (rule ext) (simp add: keeps_flags_def namespace_agrees_def)

lemma agreeing_keeps: "keeps_flags e e' \<Longrightarrow> agreeing e' = agreeing e"
  by (rule ext) (simp add: agreeing_def agrees_keeps)

lemma run_matched_ok:
  assumes page: "page_ok call"
  shows "run_matched d call this ms e w = (log, e', w') \<Longrightarrow>
    (isImmediatePropagationStopped e \<longrightarrow> isPropagationStopped e) \<Longrightarrow>
    keeps_flags e e' \<and> stops_hold log e' \<and> (\<forall>c\<in>set log. c_node c = this) \<and>
    prefix (calls_of log) (agreeing e (this, ms)) \<and>
    (calls_of log = agreeing e (this, ms) \<or> isPropagationStopped e')"
proof (induction ms arbitrary: e w log e' w')
  case Nil
  then show ?case by (simp add: keeps_flags_refl calls_of_def agreeing_def)
next
  case (Cons h ms)
  consider (stop) "isImmediatePropagationStopped e" | (skip) "\<not> isImmediatePropagationStopped e" "\<not> namespace_agrees e h"
    | (run) "\<not> isImmediatePropagationStopped e" "namespace_agrees e h" by blast
  then show ?case
  proof cases
    case stop
    with Cons.prems show ?thesis by (auto simp: keeps_flags_refl calls_of_def)
  next
    case skip
    with Cons.prems Cons.IH [of e w log e' w'] show ?thesis by (simp add: agreeing_def)
  next
    case run
    obtain ret e1 w1 where h: "run_handler d call h this (e\<lparr>e_handleObj := Some h\<rparr>) w = (ret, e1, w1)"
      by (metis prod_cases3)
    define e2 where "e2 = take_result ret e1"
    obtain log' where r: "run_matched d call this ms e2 w1 = (log', e', w')" and log: "log = invoked this h ret e2 # log'"
      using Cons.prems(1) run h by (auto simp: e2_def split: prod.splits)
    have k: "keeps_flags e e2"
      using keeps_flags_trans [OF run_handler_keeps [OF page h] take_result_keeps [of e1 ret]] by (simp add: e2_def)
    then have imm: "isImmediatePropagationStopped e2 \<longrightarrow> isPropagationStopped e2"
      using run(1) by (auto simp: keeps_flags_def)
    note ih = Cons.IH [OF r imm]
    have stopped: "isImmediatePropagationStopped e2 \<Longrightarrow> log' = []" using r by (cases ms) auto
    have "ret = Falsum \<longrightarrow> isPropagationStopped e2 \<and> isDefaultPrevented e2"
      using take_result_false [of e1] by (simp add: e2_def)
    then have "stops_hold log e'"
      using ih imm stopped unfolding log by (auto simp: invoked_def keeps_flags_def)
    moreover have "keeps_flags e e'" using keeps_flags_trans [OF k] ih by blast
    ultimately show ?thesis using ih run(2) unfolding log agreeing_keeps [OF k]
      by (auto simp: calls_of_def agreeing_def invoked_def)
  qed
qed

lemma run_queue_ok:
  assumes page: "page_ok call"
  shows "run_queue d call q e w = (log, e', w') \<Longrightarrow>
    (isImmediatePropagationStopped e \<longrightarrow> isPropagationStopped e) \<Longrightarrow>
    keeps_flags e e' \<and> stops_hold log e' \<and>
    prefix (calls_of log) (concat (map (agreeing e) q)) \<and>
    (calls_of log = concat (map (agreeing e) q) \<or> isPropagationStopped e')"
proof (induction q arbitrary: e w log e' w')
  case Nil
  then show ?case by (simp add: keeps_flags_refl calls_of_def)
next
  case (Cons x q)
  obtain elem ms where x: "x = (elem, ms)" by (cases x)
  show ?case
  proof (cases "isPropagationStopped e")
    case True
    with Cons.prems x show ?thesis by (auto simp: keeps_flags_refl calls_of_def)
  next
    case False
    obtain log1 e1 w1 where m: "run_matched d call elem ms (e\<lparr>currentTarget := Some elem\<rparr>) w = (log1, e1, w1)"
      by (metis prod_cases3)
    obtain log2 where r: "run_queue d call q e1 w1 = (log2, e', w')" and log: "log = log1 @ log2"
      using Cons.prems(1) False m x by (auto split: prod.splits)
    have m': "keeps_flags e e1 \<and> stops_hold log1 e1 \<and> prefix (calls_of log1) (agreeing e (elem, ms)) \<and>
        (calls_of log1 = agreeing e (elem, ms) \<or> isPropagationStopped e1)"
    proof -
      have "keeps_flags (e\<lparr>currentTarget := Some elem\<rparr>) e" by (simp add: keeps_flags_refl)
      from agreeing_keeps [OF this] show ?thesis
        using run_matched_ok [OF page m] Cons.prems(2) by simp
    qed
    then have imm: "isImmediatePropagationStopped e1 \<longrightarrow> isPropagationStopped e1"
      using Cons.prems(2) False by (auto simp: keeps_flags_def)
    have ih: "keeps_flags e1 e' \<and> stops_hold log2 e' \<and> prefix (calls_of log2) (concat (map (agreeing e) q)) \<and>
        (calls_of log2 = concat (map (agreeing e) q) \<or> isPropagationStopped e')"
      using Cons.IH [OF r imm] agreeing_keeps [of e e1] m' by simp
    have stop: "isPropagationStopped e1 \<Longrightarrow> log2 = []" using r by (cases q) auto
    have calls: "calls_of log = calls_of log1 @ calls_of log2" by (simp add: log calls_of_def)
    have "stops_hold log e'"
      unfolding log using stops_hold_append [of log1 e1 log2 e'] m' ih stop by blast
    moreover have "keeps_flags e e'" using keeps_flags_trans m' ih by blast
    moreover have "prefix (calls_of log) (concat (map (agreeing e) (x # q))) \<and>
        (calls_of log = concat (map (agreeing e) (x # q)) \<or> isPropagationStopped e')"
    proof (cases "isPropagationStopped e1")
      case True
      then have "isPropagationStopped e'" "calls_of log = calls_of log1"
        using ih stop by (simp_all add: keeps_flags_def log calls_of_def)
      then show ?thesis using m' by (simp add: x)
    next
      case False
      then show ?thesis using m' ih by (simp add: x calls)
    qed
    ultimately show ?thesis by blast
  qed
qed

definition list_of :: "('h, 'd) elem_events \<Rightarrow> string \<Rightarrow> ('h, 'd) hlist" where
  "list_of st t = (case obj_get (events st) t of Some l \<Rightarrow> l | None \<Rightarrow> \<lparr>delegateCount = 0, hs = []\<rparr>)"

lemma postDispatch_keeps: "keeps_flags e e' \<Longrightarrow> keeps_flags e (postDispatch e')"
  by (simp add: postDispatch_def)

lemma stops_hold_flags:
  "stops_hold log e \<Longrightarrow> isPropagationStopped e' = isPropagationStopped e \<Longrightarrow> isDefaultPrevented e' = isDefaultPrevented e \<Longrightarrow>
   stops_hold log e'"
  by (induction log) auto

lemma dispatch_eq:
  assumes "handlers d F finder dn nc this (e\<lparr>delegateTarget := Some this\<rparr>) (list_of st (e_type e)) s = Inr (q, s')"
    "run_queue d call q (e\<lparr>delegateTarget := Some this\<rparr>) w = (log, e2, w')"
  shows "dispatch d F finder dn nc call this st e w s =
    Inr (log, (if e_type e = ''beforeunload'' then postDispatch e2 else e2), w', s')"
  using assms unfolding dispatch_def Let_def list_of_def by simp

lemma dispatch_run:
  assumes page: "page_ok call" and imm: "isImmediatePropagationStopped e \<longrightarrow> isPropagationStopped e"
    and h: "handlers d F finder dn nc this (e\<lparr>delegateTarget := Some this\<rparr>) (list_of st (e_type e)) s = Inr (q, s')"
  shows "\<exists>log e' w'. dispatch d F finder dn nc call this st e w s = Inr (log, e', w', s') \<and>
    keeps_flags e e' \<and> stops_hold log e' \<and> prefix (calls_of log) (concat (map (agreeing e) q)) \<and>
    (calls_of log = concat (map (agreeing e) q) \<or> isPropagationStopped e')"
proof -
  obtain log e2 w' where r: "run_queue d call q (e\<lparr>delegateTarget := Some this\<rparr>) w = (log, e2, w')" by (metis prod_cases3)
  have "agreeing (e\<lparr>delegateTarget := Some this\<rparr>) = agreeing e" by (rule agreeing_keeps) (simp add: keeps_flags_def)
  then have o: "keeps_flags e e2 \<and> stops_hold log e2 \<and> prefix (calls_of log) (concat (map (agreeing e) q)) \<and>
      (calls_of log = concat (map (agreeing e) q) \<or> isPropagationStopped e2)"
    using run_queue_ok [OF page r] imm by simp
  define e' where "e' = (if e_type e = ''beforeunload'' then postDispatch e2 else e2)"
  have f: "isPropagationStopped e' = isPropagationStopped e2" "isDefaultPrevented e' = isDefaultPrevented e2"
    by (simp_all add: e'_def postDispatch_def)
  have "keeps_flags e e'" using o by (auto simp: e'_def intro: postDispatch_keeps)
  then show ?thesis
    using dispatch_eq [OF h r] o stops_hold_flags [OF _ f, of log] f unfolding e'_def [symmetric] by blast
qed

lemma dispatch_core:
  assumes "page_ok call" "isImmediatePropagationStopped e \<longrightarrow> isPropagationStopped e"
    and "\<forall>h\<in>set (take (delegateCount (list_of st (e_type e))) (hs (list_of st (e_type e)))). plain_delegate h"
    and "search_from d this" "runs_ok s"
  shows "\<exists>log e' w' s'. dispatch d F finder dn no_clicks call this st e w s = Inr (log, e', w', s') \<and> runs_ok s' \<and>
    keeps_flags e e' \<and> stops_hold log e' \<and>
    prefix (calls_of log) (concat (map (agreeing e)
      (delegated_queue d F no_clicks this e (list_of st (e_type e)) @ direct_queue this (list_of st (e_type e))))) \<and>
    (calls_of log = concat (map (agreeing e)
      (delegated_queue d F no_clicks this e (list_of st (e_type e)) @ direct_queue this (list_of st (e_type e)))) \<or>
     isPropagationStopped e')"
proof -
  have f: "target (e\<lparr>delegateTarget := Some this\<rparr>) = target e" "e_type (e\<lparr>delegateTarget := Some this\<rparr>) = e_type e"
    "button (e\<lparr>delegateTarget := Some this\<rparr>) = button e" by simp_all
  have same: "delegated_queue d F no_clicks this (e\<lparr>delegateTarget := Some this\<rparr>) l = delegated_queue d F no_clicks this e l" for l
    unfolding delegated_queue_def takes_delegates_def f ..
  obtain s' where s': "handlers d F finder dn no_clicks this (e\<lparr>delegateTarget := Some this\<rparr>) (list_of st (e_type e)) s =
      Inr (delegated_queue d F no_clicks this e (list_of st (e_type e)) @ direct_queue this (list_of st (e_type e)), s')" "runs_ok s'"
    using handlers_ok [OF assms(3-5), of F finder dn no_clicks "e\<lparr>delegateTarget := Some this\<rparr>"] unfolding same by blast
  from dispatch_run [OF assms(1,2) s'(1), of w] s'(2) show ?thesis by blast
qed

section \<open>The path of a trigger\<close>

definition host_ok :: "('h, 'd, 'v, 'w) host \<Rightarrow> bool" where
  "host_ok H \<longleftrightarrow> page_ok (page_call H) \<and>
     (\<forall>w c t f e w'. onhandler H w c t = Some f \<longrightarrow> keeps_flags e (fst (snd (f e w'))))"

text \<open>Where the handlers of a queue are called, whatever their selectors.\<close>

lemma delegate_queue_nodes:
  "delegate_queue d F finder dn skip this ds curs s = Inr (q, s') \<Longrightarrow> fst ` set q \<subseteq> set curs"
proof (induction curs arbitrary: s q s')
  case (Cons cur curs)
  show ?case
  proof (cases "is_element d cur \<and> \<not> skip cur")
    case True
    with Cons.prems obtain ms s1 q1 where q1: "delegate_queue d F finder dn skip this ds curs s1 = Inr (q1, s')"
      and q: "q = (if ms \<noteq> [] then (cur, ms) # q1 else q1)"
      by (auto split: sum.splits prod.splits)
    from Cons.IH [OF q1] show ?thesis by (auto simp: q split: if_splits)
  next
    case False
    then have "delegate_queue d F finder dn skip this ds curs s = Inr (q, s')" using Cons.prems by auto
    from Cons.IH [OF this] show ?thesis by auto
  qed
qed simp

lemma handlers_nodes:
  assumes "handlers d F finder dn no_clicks this e l s = Inr (q, s')"
  shows "fst ` set q \<subseteq> insert this (insert (target e) (set (path d Up (target e))))"
proof -
  have "fst ` set q1 \<subseteq> insert (target e) (set (path d Up (target e)))"
    if "delegate_queue d F finder dn skip this ds (nodes_to d this (target e)) s = Inr (q1, s1)" for skip ds q1 s1
    using delegate_queue_nodes [OF that] unfolding nodes_to_path
    by (metis (no_types, lifting) list.set(2) order_trans set_takeWhileD subsetI)
  then show ?thesis
    using assms unfolding handlers_def Let_def by (fastforce split: if_splits sum.splits prod.splits)
qed

lemma dispatch_nodes:
  assumes "dispatch d F finder dn nc call this st e w s = Inr (log, e', w', s')" "page_ok call"
    "isImmediatePropagationStopped e \<longrightarrow> isPropagationStopped e"
  shows "keeps_flags e e' \<and> stops_hold log e' \<and>
    c_node ` set log \<subseteq> insert this (insert (target e) (set (path d Up (target e))))"
proof -
  obtain q s1 where q: "handlers d F finder dn nc this (e\<lparr>delegateTarget := Some this\<rparr>) (list_of st (e_type e)) s = Inr (q, s1)"
    using assms(1) unfolding dispatch_def Let_def list_of_def by (auto split: sum.splits)
  from dispatch_run [OF assms(2,3) q, of w] assms(1) have r: "keeps_flags e e'" "stops_hold log e'"
    "prefix (calls_of log) (concat (map (agreeing e) q))" by auto
  have "c_node c \<in> fst ` set q" if "c \<in> set log" for c
  proof -
    have "(c_node c, c_handler c) \<in> set (calls_of log)" using that by (auto simp: calls_of_def)
    then have "(c_node c, c_handler c) \<in> set (concat (map (agreeing e) q))" using r(3) by (meson set_mono_prefix subsetD)
    then show ?thesis by (force simp: agreeing_def)
  qed
  moreover have "fst ` set q \<subseteq> insert this (insert (target e) (set (path d Up (target e))))"
    using handlers_nodes [OF q] by simp
  ultimately show ?thesis using r(1,2) by blast
qed

lemma fire_at_ok:
  assumes H: "host_ok H" and imm: "isImmediatePropagationStopped e \<longrightarrow> isPropagationStopped e"
    and r: "fire_at d F finder dn H ontype cur e w s = Inr (log, e', w', s')"
  shows "keeps_flags e e' \<and> (\<forall>c\<in>set log. c_value c = Falsum \<longrightarrow> isDefaultPrevented e') \<and>
    c_node ` set log \<subseteq> insert cur (insert (target e) (set (path d Up (target e))))"
proof -
  define r1 where "r1 = (if obj_get (events (tables H w cur)) (e_type e) \<noteq> None \<and> has_handle (tables H w cur) \<and>
               triggered H w \<noteq> Some (e_type e)
            then dispatch d F finder dn (no_clicks_of H) (page_call H) cur (tables H w cur) e w s
            else Inr ([], e, w, s))"
  obtain e1 w1 where r1: "r1 = Inr (log, e1, w1, s')" and n: "fire_native d H ontype cur e1 w1 = (e', w')"
    using r unfolding fire_at_def r1_def [symmetric] by (auto split: sum.splits prod.splits)
  have page: "page_ok (page_call H)" using H by (simp add: host_ok_def)
  have k: "keeps_flags e e1 \<and> stops_hold log e1 \<and> c_node ` set log \<subseteq> insert cur (insert (target e) (set (path d Up (target e))))"
    using r1 dispatch_nodes [OF _ page imm] unfolding r1_def by (auto simp: keeps_flags_refl split: if_splits)
  have "keeps_flags e1 e'"
  proof (cases "if accepts_data d cur then Option.bind ontype (onhandler H w1 cur) else None")
    case None
    with n show ?thesis by (simp add: fire_native_def keeps_flags_refl)
  next
    case (Some f)
    then obtain t where "onhandler H w1 cur t = Some f" by (auto simp: bind_eq_Some_conv split: if_splits)
    then have "keeps_flags e1 (fst (snd (f e1 w1)))" using H by (auto simp: host_ok_def)
    then show ?thesis
      using n Some by (auto simp: fire_native_def keeps_flags_def preventDefault_def on_native_def split: prod.splits if_splits)
  qed
  moreover have "\<forall>c\<in>set log. c_value c = Falsum \<longrightarrow> isDefaultPrevented e1"
    using k by (induction log) auto
  ultimately show ?thesis using k keeps_flags_trans by (auto simp: keeps_flags_def)
qed

lemma fire_path_ok:
  assumes H: "host_ok H"
  shows "fire_path d F finder dn H ontype type bubbleType curs e w s = Inr (vs, log, e', w', s') \<Longrightarrow>
    (isImmediatePropagationStopped e \<longrightarrow> isPropagationStopped e) \<Longrightarrow>
    keeps_flags e e' \<and> prefix vs curs \<and> (vs = curs \<or> isPropagationStopped e') \<and>
    (\<forall>c\<in>set log. c_value c = Falsum \<longrightarrow> isDefaultPrevented e') \<and>
    c_node ` set log \<subseteq> set vs \<union> insert (target e) (set (path d Up (target e)))"
proof (induction curs arbitrary: type e w s vs log e' w' s')
  case Nil
  then show ?case by (simp add: keeps_flags_refl)
next
  case (Cons cur curs)
  show ?case
  proof (cases "isPropagationStopped e")
    case True
    with Cons.prems show ?thesis by (auto simp: keeps_flags_refl)
  next
    case False
    with Cons.prems(1) obtain log1 e1 w1 s1 vs2 log2 where
      a: "fire_at d F finder dn H ontype cur (e\<lparr>e_type := type\<rparr>) w s = Inr (log1, e1, w1, s1)" and
      r: "fire_path d F finder dn H ontype bubbleType bubbleType curs e1 w1 s1 = Inr (vs2, log2, e', w', s')" and
      v: "vs = cur # vs2" "log = log1 @ log2"
      by (auto split: sum.splits prod.splits)
    have a1: "keeps_flags e e1 \<and> (\<forall>c\<in>set log1. c_value c = Falsum \<longrightarrow> isDefaultPrevented e1) \<and>
        c_node ` set log1 \<subseteq> insert cur (insert (target e) (set (path d Up (target e))))"
      using fire_at_ok [OF H _ a] Cons.prems(2) by simp
    then have "isImmediatePropagationStopped e1 \<longrightarrow> isPropagationStopped e1" "target e1 = target e"
      using Cons.prems(2) False by (auto simp: keeps_flags_def)
    from Cons.IH [OF r this(1)] this(2) have ih: "keeps_flags e1 e'" "prefix vs2 curs" "vs2 = curs \<or> isPropagationStopped e'"
      "\<forall>c\<in>set log2. c_value c = Falsum \<longrightarrow> isDefaultPrevented e'"
      "c_node ` set log2 \<subseteq> set vs2 \<union> insert (target e) (set (path d Up (target e)))" by simp_all
    have "isDefaultPrevented e1 \<Longrightarrow> isDefaultPrevented e'" using ih(1) by (simp add: keeps_flags_def)
    then have "\<forall>c\<in>set log. c_value c = Falsum \<longrightarrow> isDefaultPrevented e'" using a1 ih(4) unfolding v by auto
    moreover have "c_node ` set log \<subseteq> set vs \<union> insert (target e) (set (path d Up (target e)))"
      using a1 ih(5) unfolding v by auto
    ultimately show ?thesis using keeps_flags_trans [of e e1 e'] a1 ih(1-3) by (simp add: v(1))
  qed
qed

section \<open>Properties\<close>

text \<open>
  C9: When the handlers of a page change an event by its methods only and no delegated handler of the type needs a
  context (its selector can be read, and has neither a leading combinator nor a positional pseudo), \<open>dispatch\<close> calls, from the target up to
  the element, the delegated handlers whose selectors select the node, then the handlers bound to the element,
  those that agree with the namespaces of the trigger (plain names, as \<open>ns_pattern\<close> has them), in this order and without a gap, up to the end or until
  the propagation is stopped. After a handler that returned false or stopped the propagation only handlers of
  the same node run, after one that stopped it at once none, and false also prevents the default.
\<close>

theorem dispatch_order:
  assumes "page_ok call" "isImmediatePropagationStopped e \<longrightarrow> isPropagationStopped e"
    and "\<forall>h\<in>set (take (delegateCount (list_of st (e_type e))) (hs (list_of st (e_type e)))). plain_delegate h"
    and "search_from d this" "runs_ok s"
  shows "\<exists>log e' w' s'. dispatch d F finder dn no_clicks call this st e w s = Inr (log, e', w', s') \<and> runs_ok s' \<and>
    keeps_flags e e' \<and> stops_hold log e' \<and>
    prefix (calls_of log) (concat (map (agreeing e)
      (delegated_queue d F no_clicks this e (list_of st (e_type e)) @ direct_queue this (list_of st (e_type e))))) \<and>
    (calls_of log = concat (map (agreeing e)
      (delegated_queue d F no_clicks this e (list_of st (e_type e)) @ direct_queue this (list_of st (e_type e)))) \<or>
     isPropagationStopped e')"
  using assms by (rule dispatch_core)

text \<open>A page with four handlers: 1 returns false, 2 returns a value, 3 stops at once, others return nothing.\<close>

definition demo_page :: "(nat, unit, nat, nat list) page" where
  "demo_page f this e w =
     (if f = 1 then (Falsum, e, w @ [f])
      else if f = 2 then (Val 5, e, w @ [f])
      else if f = 3 then (Undefined, stopImmediatePropagation e, w @ [f])
      else (Undefined, e, w @ [f]))"

lemma demo_page_ok: "page_ok demo_page"
  by (auto simp: page_ok_def demo_page_def keeps_flags_def stopImmediatePropagation_def stopPropagation_def on_native_def)

definition demo_handle :: "nat \<Rightarrow> string option \<Rightarrow> (nat, unit) handleObj" where
  "demo_handle f sel =
     \<lparr>h_type = ''click'', h_origType = ''click'', h_data = (), h_handler = f, h_guid = f, h_selector = sel,
      h_needsContext = False, h_namespace = ''''\<rparr>"

definition demo_table :: "(nat, unit) elem_events" where
  "demo_table = no_events\<lparr>has_handle := True, events :=
     [(''click'', \<lparr>delegateCount = 2, hs = [demo_handle 1 (Some ''p''), demo_handle 2 (Some ''p,b''), demo_handle 4 None]\<rparr>)]\<rparr>"

lemma demo_delegates:
  "map_option (\<lambda>l. (delegateCount l, hs l)) (obj_get (events demo_table) ''click'') =
     Some (2, [demo_handle 1 (Some ''p''), demo_handle 2 (Some ''p,b''), demo_handle 4 None])"
  by (simp add: demo_table_def obj_get_def)

lemma demo_plain: "\<forall>h\<in>{demo_handle 1 (Some ''p''), demo_handle 2 (Some ''p,b'')}. plain_delegate h"
proof -
  have "(case tokenize (replace_all rtrim (group 1) (memo_key (demo_handle 1 (Some ''p'')))) of Inl e \<Rightarrow> False | Inr gs \<Rightarrow> True)"
    "(case tokenize (replace_all rtrim (group 1) (memo_key (demo_handle 2 (Some ''p,b'')))) of Inl e \<Rightarrow> False | Inr gs \<Rightarrow> True)"
    by code_simp+
  then show ?thesis by (simp add: plain_delegate_def demo_handle_def split: sum.splits)
qed

lemma demo_list: "list_of demo_table ''click'' =
  \<lparr>delegateCount = 2, hs = [demo_handle 1 (Some ''p''), demo_handle 2 (Some ''p,b''), demo_handle 4 None]\<rparr>"
  by (simp add: list_of_def demo_table_def obj_get_def)

lemma dispatch_order_witness:
  "\<exists>log e' w' s'. dispatch demo_doc (\<lambda>t e. node_name demo_doc e = tok_value t) (\<lambda>t c. None) 0 (\<lambda>n. False) demo_page 1
      demo_table (new_event ''click'' 3) [] no_runs = Inr (log, e', w', s') \<and> stops_hold log e'"
proof -
  have e: "e_type (new_event ''click'' 3 :: (nat, unit, nat) event) = ''click''" by (simp add: new_event_def)
  have "search_from demo_doc 1" by code_simp
  moreover have "isImmediatePropagationStopped (new_event ''click'' 3 :: (nat, unit, nat) event) \<longrightarrow>
      isPropagationStopped (new_event ''click'' 3 :: (nat, unit, nat) event)" by (simp add: new_event_def)
  moreover have "\<forall>h\<in>set (take (delegateCount (list_of demo_table ''click'')) (hs (list_of demo_table ''click''))). plain_delegate h"
    using demo_plain by (simp add: demo_list numeral_2_eq_2)
  ultimately show ?thesis
    using dispatch_order [of demo_page "new_event ''click'' 3" demo_table demo_doc 1 no_runs
        "\<lambda>t e. node_name demo_doc e = tok_value t" "\<lambda>t c. None" 0 "\<lambda>n. False" "[]"]
      demo_page_ok no_runs_ok unfolding e by blast
qed

text \<open>
  C21: A trigger visits the nodes of its path from the element up to the window, in order, until the propagation is
  stopped; the handlers it calls are called for the element, its ancestors or visited nodes; with \<open>onlyHandlers\<close>
  it visits the element only and asks for no default action; and no default action is asked for when a handler
  returned false.
\<close>

theorem trigger_path:
  assumes "host_ok H" "trigger d F finder dn H S window word elem onlyHandlers w s = Inr (Fired r, w', s')"
  shows "(let type = fst (trigger_type word); p = event_path d window (S type) type onlyHandlers elem
      in prefix (visited r) p \<and> (visited r = p \<or> isPropagationStopped (left_event r))) \<and>
    (onlyHandlers \<longrightarrow> visited r = [elem] \<and> \<not> default_action r) \<and>
    c_node ` set (called r) \<subseteq> set (visited r) \<union> insert elem (set (path d Up elem)) \<and>
    ((\<exists>c\<in>set (called r). c_value c = Falsum) \<longrightarrow> \<not> default_action r)"
proof -
  obtain type ns where t: "trigger_type word = (type, ns)" by (cases "trigger_type word")
  define e where "e = (new_event type elem :: ('a, 'b, 'c) event)\<lparr>rnamespace := (if join_ns ns = '''' then [] else ns)\<rparr>"
  define p where "p = event_path d window (S type) type onlyHandlers elem"
  obtain first bubble vs log e' where
    f: "fire_path d F finder dn H (ontype_of type) first bubble p e w s = Inr (vs, log, e', w', s')" and
    r: "visited r = vs" "called r = log" "left_event r = e'\<lparr>e_type := type\<rparr>"
      "default_action r \<longrightarrow> \<not> onlyHandlers \<and> \<not> isDefaultPrevented e'"
    using assms(2) unfolding trigger_def t Let_def prod.case e_def [symmetric] p_def [symmetric]
    by (auto split: if_splits sum.splits prod.splits)
  have e: "\<not> isPropagationStopped e" "\<not> isImmediatePropagationStopped e" "target e = elem"
    by (simp_all add: e_def new_event_def)
  note ok = fire_path_ok [OF assms(1) f]
  have "onlyHandlers \<longrightarrow> vs = [elem]"
    using f e(1) by (auto simp: p_def event_path_def split: sum.splits prod.splits)
  with ok e r show ?thesis unfolding t fst_conv p_def [symmetric] Let_def by auto
qed

definition demo_host :: "(nat, unit, nat, nat list) host" where
  "demo_host =
     \<lparr>page_call = demo_page,
      tables = (\<lambda>w c. if c = 2 then no_events\<lparr>has_handle := True, events := [(''click'', \<lparr>delegateCount = 0, hs = [demo_handle 1 None]\<rparr>)]\<rparr>
                      else no_events),
      onhandler = (\<lambda>w c t. None), no_clicks_of = (\<lambda>n. False), has_method = (\<lambda>w n t. True), active = (\<lambda>w. None),
      is_checkbox = (\<lambda>w n. False), triggered = (\<lambda>w. None)\<rparr>"

lemma trigger_path_witness:
  "\<exists>r w s. trigger demo_doc (\<lambda>t e. False) (\<lambda>t c. None) 0 demo_host (special_of True) 99 ''click'' 3 False [] no_runs =
      Inr (Fired r, w, s) \<and> visited r = [3, 2] \<and> w = [1] \<and> \<not> default_action r"
proof -
  let ?t = "trigger demo_doc (\<lambda>t e. False) (\<lambda>t c. None) 0 demo_host (special_of True) 99 ''click'' 3 False [] no_runs"
  have "(case ?t of Inr (Fired r, w, s) \<Rightarrow> visited r = [3, 2] \<and> w = [1] \<and> map c_value (called r) = [Falsum] | _ \<Rightarrow> False)"
    by code_simp
  then obtain r w s where r: "?t = Inr (Fired r, w, s)" "visited r = [3, 2]" "w = [1]" "map c_value (called r) = [Falsum]"
    by (auto split: sum.splits prod.splits outcome.splits)
  have "host_ok demo_host" using demo_page_ok by (simp add: host_ok_def demo_host_def)
  from trigger_path [OF this r(1)] have "(\<exists>c\<in>set (called r). c_value c = Falsum) \<longrightarrow> \<not> default_action r" by blast
  moreover have "\<exists>c\<in>set (called r). c_value c = Falsum" using r(4) by auto
  ultimately show ?thesis using r(1-3) by blast
qed

end
