(* ===== verification/J_Request.thy ===== *)
theory J_Request
  imports JS_Regex J_Callbacks U_Objects
begin

text \<open>
  \<open>jQuery.ajax\<close> of \<open>jquery-3.1.0.js\<close>: the url and the headers of a request, and the life of requests from the call
  to completion. The transports of the host, the prefilters and the handlers of the page decide what happens
  between the stretches of the code.
\<close>

section \<open>The url\<close>

text \<open>\<open>replace(rhash, "")\<close>, for a url has no line breaks; \<open>rts\<close> and \<open>rquery\<close>.\<close>

definition without_hash :: "string \<Rightarrow> string" where
  "without_hash url = takeWhile (\<lambda>c. c \<noteq> CHR ''#'') url"

definition rts :: re where
  "rts = Seq (Grp 1 (Cls (\<lambda>c. c = CHR ''?'' \<or> c = CHR ''&''))) (Seq (Lit ''_='') (Star (Cls (\<lambda>c. c \<noteq> CHR ''&''))))"

definition rquery :: "string \<Rightarrow> bool" where
  "rquery s \<longleftrightarrow> CHR ''?'' \<in> set s"

definition glue :: "string \<Rightarrow> string" where
  "glue url = (if rquery url then ''&'' else ''?'')"

definition has_content :: "string \<Rightarrow> bool" where
  "has_content type \<longleftrightarrow> map upper_ascii type \<noteq> ''GET'' \<and> map upper_ascii type \<noteq> ''HEAD''"

record url_settings =
  u_type :: string
  u_url :: string
  u_data :: string
  u_processData :: bool
  u_no_cache :: bool
  u_contentType :: string

text \<open>
  The url that is requested, the data that is sent, the url as a key of \<open>lastModified\<close>, and the \<open>nonce\<close> after;
  no data is the empty string.
\<close>

definition request_url :: "url_settings \<Rightarrow> nat \<Rightarrow> string \<times> string \<times> string \<times> nat" where
  "request_url s nonce =
     (let cacheURL = without_hash (u_url s)
      in if \<not> has_content (u_type s)
         then
           (let uncached = drop (length cacheURL) (u_url s);
                cacheURL = (if u_data s \<noteq> '''' then cacheURL @ glue cacheURL @ u_data s else cacheURL)
            in if u_no_cache s
               then
                 (let cacheURL = replace1 rts (\<lambda>cs. '''') cacheURL
                  in (cacheURL @ glue cacheURL @ ''_='' @ show_nat nonce @ uncached, '''', cacheURL, Suc nonce))
               else (cacheURL @ uncached, '''', cacheURL, nonce))
         else
           (u_url s,
            (if u_data s \<noteq> '''' \<and> u_processData s \<and>
                indexOf (u_contentType s) ''application/x-www-form-urlencoded'' = 0
             then replace_all (Lit ''%20'') (\<lambda>cs. ''+'') (u_data s) else u_data s),
            cacheURL, nonce))"

section \<open>The headers\<close>

text \<open>
  \<open>requestHeadersNames\<close> and \<open>responseHeaders\<close> are object literals: a name in lower case that is inherited finds a
  function, \<open>Native\<close>.
\<close>

datatype hname = Given string | Native string

definition inherited_name :: "string \<Rightarrow> bool" where
  "inherited_name k \<longleftrightarrow> k \<in> fst ` set object_prototype \<or> k = ''__proto__''"

record headers =
  names :: "(string, hname) jsobj"
  sent :: "(hname, string) jsobj"

definition no_headers :: headers where
  "no_headers = \<lparr>names = [], sent = []\<rparr>"

definition setRequestHeader :: "bool \<Rightarrow> string \<Rightarrow> string \<Rightarrow> headers \<Rightarrow> headers" where
  "setRequestHeader completed_undefined name value h =
     (if \<not> completed_undefined then h
      else
        (let low = toLowerCase name;
             name' = (case obj_get (names h) low of
                        Some n \<Rightarrow> n
                      | None \<Rightarrow> if inherited_name low then Native low else Given name)
         in \<lparr>names = obj_put low name' (names h), sent = obj_put name' value (sent h)\<rparr>))"

text \<open>
  The headers the call sets itself: \<open>content_type\<close> is \<open>None\<close> where the setting is false, \<open>own_type\<close> is
  \<open>options.contentType\<close> and empty without one, \<open>modified\<close> and \<open>etag\<close> are what earlier requests left for the url. The
  data type is none that \<open>accepts\<close> inherits.
\<close>

record header_settings =
  ifModified :: bool
  modified :: string
  etag :: string
  has_data :: bool
  hasContent :: bool
  content_type :: "string option"
  own_type :: string
  dataType :: string
  accepts :: "(string, string) jsobj"
  more_headers :: "(string \<times> string) list"

definition accept_of :: "header_settings \<Rightarrow> string" where
  "accept_of s =
     (case obj_get (accepts s) (dataType s) of
        Some a \<Rightarrow> if dataType s \<noteq> '''' \<and> a \<noteq> ''''
          then a @ (if dataType s \<noteq> ''*'' then '', */*; q=0.01'' else '''')
          else (case obj_get (accepts s) ''*'' of Some b \<Rightarrow> b | None \<Rightarrow> ''undefined'')
      | None \<Rightarrow> (case obj_get (accepts s) ''*'' of Some b \<Rightarrow> b | None \<Rightarrow> ''undefined''))"

definition initial_headers :: "header_settings \<Rightarrow> (string \<times> string) list" where
  "initial_headers s =
     (if ifModified s \<and> modified s \<noteq> '''' then [(''If-Modified-Since'', modified s)] else []) @
     (if ifModified s \<and> etag s \<noteq> '''' then [(''If-None-Match'', etag s)] else []) @
     (if has_data s \<and> hasContent s \<and> content_type s \<noteq> None \<or> own_type s \<noteq> ''''
      then [(''Content-Type'', case content_type s of None \<Rightarrow> ''false'' | Some c \<Rightarrow> c)] else []) @
     [(''Accept'', accept_of s)] @ more_headers s"

definition set_headers :: "bool \<Rightarrow> header_settings \<Rightarrow> headers \<Rightarrow> headers" where
  "set_headers completed_undefined s h = fold (\<lambda>(n, v). setRequestHeader completed_undefined n v) (initial_headers s) h"

text \<open>\<open>rheaders\<close>: the lines with a colon, the name before the first one, blanks after it skipped.\<close>

fun lines_from :: "string \<Rightarrow> string \<Rightarrow> string list" where
  "lines_from l [] = [l]"
| "lines_from l (c # s) = (if code c = 10 \<or> code c = 13 then l # lines_from [] s else lines_from (l @ [c]) s)"

definition header_line :: "string \<Rightarrow> (string \<times> string) option" where
  "header_line l =
     (let v = dropWhile (\<lambda>c. c \<noteq> CHR '':'') l
      in if v = [] then None
         else Some (takeWhile (\<lambda>c. c \<noteq> CHR '':'') l, dropWhile (\<lambda>c. code c = 32 \<or> code c = 9) (tl v)))"

definition response_table :: "string \<Rightarrow> (string, string) jsobj" where
  "response_table text =
     foldl (\<lambda>m l. case header_line l of None \<Rightarrow> m
       | Some (n, v) \<Rightarrow> if toLowerCase n = ''__proto__'' then m else obj_put (toLowerCase n) v m) [] (lines_from [] text)"

datatype hvalue = Null | Text string | Inherited

definition getResponseHeader :: "bool \<Rightarrow> string \<Rightarrow> string \<Rightarrow> hvalue" where
  "getResponseHeader completed text key =
     (if \<not> completed then Null
      else case obj_get (response_table text) (toLowerCase key) of
             Some v \<Rightarrow> Text v
           | None \<Rightarrow> if inherited_name (toLowerCase key) then Inherited else Null)"

section \<open>jsonp\<close>

text \<open>
  What a global name stands for: nothing, a function or another value of the page, or the callback of a request, which
  puts what it is called with into the variable \<open>responseContainer\<close> of that request.
\<close>

datatype global = Nothing | Function nat | Value nat | Callback nat

text \<open>
  \<open>oldCallbacks\<close> are the names free to be used again, \<open>nonce_of\<close> is the number for new names, which requests without
  cache take too. \<open>page_calls\<close> are the calls of functions of the page by the clean up.
\<close>

record jsonp =
  oldCallbacks :: "string list"
  nonce_of :: nat
  globals :: "string \<Rightarrow> global"
  next_id :: nat
  page_calls :: "(nat \<times> nat) list"

text \<open>\<open>jsonpCallback\<close>; \<open>expando\<close> is \<open>jQuery.expando\<close> and an underscore.\<close>

definition jsonpCallback :: "string \<Rightarrow> jsonp \<Rightarrow> string \<times> jsonp" where
  "jsonpCallback expando s =
     (if oldCallbacks s = [] then (expando @ show_nat (nonce_of s), s\<lparr>nonce_of := Suc (nonce_of s)\<rparr>)
      else (last (oldCallbacks s), s\<lparr>oldCallbacks := butlast (oldCallbacks s)\<rparr>))"

text \<open>
  The variables of the prefilter for a request. \<open>jr_marked\<close> says whether the settings have a property with the name of
  the callback, which \<open>jsonpCallback\<close> gives them.
\<close>

record jsonp_request =
  jr_id :: nat
  jr_name :: string
  jr_overwritten :: global
  jr_marked :: bool
  jr_response :: "nat option"

text \<open>
  The prefilter: \<open>choice\<close> is the setting \<open>jsonpCallback\<close>, the string itself or what the function returns, and \<open>None\<close>
  where it is left alone; \<open>has_setting\<close> tells the properties of the settings that are true.
\<close>

definition jsonp_install ::
  "string \<Rightarrow> string option \<Rightarrow> (string \<Rightarrow> bool) \<Rightarrow> jsonp \<Rightarrow> jsonp_request \<times> jsonp" where
  "jsonp_install expando choice has_setting s =
     (let (name, s1) = (case choice of None \<Rightarrow> jsonpCallback expando s | Some n \<Rightarrow> (n, s))
      in (\<lparr>jr_id = next_id s1, jr_name = name, jr_overwritten = globals s1 name,
           jr_marked = (choice = None \<or> has_setting name), jr_response = None\<rparr>,
          s1\<lparr>globals := (globals s1)(name := Callback (next_id s1)), next_id := Suc (next_id s1)\<rparr>))"

text \<open>The script of a response calls a global name with the data \<open>v\<close>.\<close>

definition set_response :: "nat \<Rightarrow> nat \<Rightarrow> jsonp_request list \<Rightarrow> jsonp_request list" where
  "set_response i v rs = map (\<lambda>r. if jr_id r = i then r\<lparr>jr_response := Some v\<rparr> else r) rs"

definition jsonp_call :: "global \<Rightarrow> nat \<Rightarrow> jsonp_request list \<times> jsonp \<Rightarrow> jsonp_request list \<times> jsonp" where
  "jsonp_call g v st =
     (case st of (rs, s) \<Rightarrow>
        (case g of Function f \<Rightarrow> (rs, s\<lparr>page_calls := page_calls s @ [(f, v)]\<rparr>)
         | Callback i \<Rightarrow> (set_response i v rs, s)
         | _ \<Rightarrow> (rs, s)))"

text \<open>The function given to \<open>always\<close>, for the request at place \<open>j\<close> of those in flight.\<close>

definition jsonp_clean :: "nat \<Rightarrow> jsonp_request list \<times> jsonp \<Rightarrow> jsonp_request list \<times> jsonp" where
  "jsonp_clean j st =
     (case st of (rs, s) \<Rightarrow>
        (let r = rs ! j;
             s1 = s\<lparr>globals := (globals s)(jr_name r := jr_overwritten r)\<rparr>;
             s2 = (if jr_marked r then s1\<lparr>oldCallbacks := oldCallbacks s1 @ [jr_name r]\<rparr> else s1);
             st' = (take j rs @ drop (Suc j) rs, s2)
         in (case jr_response r of None \<Rightarrow> st' | Some v \<Rightarrow> jsonp_call (jr_overwritten r) v st')))"

section \<open>The life of a request\<close>

text \<open>
  Where the call of \<open>ajax\<close> stands, always just before or in a function that is not its own: the prefilters, the
  handlers of \<open>ajaxStart\<close> and \<open>beforeSend\<close>, those of \<open>ajaxSend\<close>, the method \<open>send\<close> of the transport. And where \<open>done\<close>
  stands: in the callbacks of the deferred, in those of \<open>complete\<close> and \<open>ajaxComplete\<close>, or at its end.
\<close>

datatype stage = In_prefilters | In_start | In_send_event | In_send | Returned

datatype closing = Not_done | In_callbacks | In_complete | Finished

record settings =
  is_global :: bool
  has_transport :: bool
  has_timeout :: bool
  is_head :: bool

record request =
  conf :: settings
  stage :: stage
  completed :: "bool option"
  transport :: bool
  timer :: bool
  fireGlobals :: bool
  readyState :: nat
  strAbort :: string
  closing :: closing
  success :: bool
  status :: int
  statusText :: string

datatype notice = Start | Stop | Settled nat bool | Completed nat

text \<open>\<open>active\<close> is \<open>jQuery.active\<close>; the notices are the global events and the callbacks run, in order.\<close>

record world =
  active :: int
  requests :: "request list"
  notices :: "notice list"

definition new_request :: "settings \<Rightarrow> request" where
  "new_request c =
     \<lparr>conf = c, stage = In_prefilters, completed = None, transport = False, timer = False, fireGlobals = False,
      readyState = 0, strAbort = ''canceled'', closing = Not_done, success = False, status = 0, statusText = ''''\<rparr>"

definition change :: "nat \<Rightarrow> (request \<Rightarrow> request) \<Rightarrow> world \<Rightarrow> world" where
  "change i f w = w\<lparr>requests := (requests w)[i := f (requests w ! i)]\<rparr>"

definition add_notice :: "notice \<Rightarrow> world \<Rightarrow> world" where
  "add_notice n w = w\<lparr>notices := notices w @ [n]\<rparr>"

text \<open>
  How a response ends: success, \<open>statusText\<close> and status. \<open>state\<close> and \<open>error\<close> are those of \<open>ajaxConvert\<close>.
\<close>

definition outcome_of :: "int \<Rightarrow> string \<Rightarrow> bool \<Rightarrow> string \<Rightarrow> bool \<Rightarrow> bool \<times> string \<times> int" where
  "outcome_of st native head state error =
     (if 200 \<le> st \<and> st < 300 \<or> st = 304 then
        (if st = 204 \<or> head then (True, ''nocontent'', st)
         else if st = 304 then (True, ''notmodified'', st)
         else (\<not> error, state, st))
      else if st \<noteq> 0 \<or> native = '''' then (False, ''error'', if st < 0 then 0 else st)
      else (False, native, st))"

text \<open>\<open>done\<close>, up to the callbacks of the deferred.\<close>

definition done_request :: "nat \<Rightarrow> int \<Rightarrow> string \<Rightarrow> string \<Rightarrow> bool \<Rightarrow> world \<Rightarrow> world" where
  "done_request i st native state error w =
     (let r = requests w ! i
      in if completed r = Some True then w
         else
           (let (ok, text, st') = outcome_of st native (is_head (conf r)) state error
            in add_notice (Settled i ok)
                 (change i (\<lambda>r. r\<lparr>completed := Some True, timer := False, transport := False,
                    readyState := (if 0 < st then 4 else 0), closing := In_callbacks, success := ok, status := st',
                    statusText := (if native \<noteq> '''' then native else text)\<rparr>) w)))"

text \<open>The rest of \<open>done\<close>, once the callbacks of the deferred have returned, and once those of \<open>complete\<close> have.\<close>

definition run_complete :: "nat \<Rightarrow> world \<Rightarrow> world" where
  "run_complete i w = add_notice (Completed i) (change i (\<lambda>r. r\<lparr>closing := In_complete\<rparr>) w)"

definition leave_done :: "nat \<Rightarrow> world \<Rightarrow> world" where
  "leave_done i w =
     (let w1 = change i (\<lambda>r. r\<lparr>closing := Finished\<rparr>) w
      in if fireGlobals (requests w ! i)
         then (let w2 = w1\<lparr>active := active w1 - 1\<rparr> in if active w2 = 0 then add_notice Stop w2 else w2)
         else w1)"

text \<open>\<open>abort\<close>; the method of the transport is called just before.\<close>

definition abort_request :: "nat \<Rightarrow> string \<Rightarrow> world \<Rightarrow> world" where
  "abort_request i text w = done_request i 0 (if text \<noteq> '''' then text else strAbort (requests w ! i)) '''' False w"

text \<open>The call itself, stretch by stretch.\<close>

definition begin_ajax :: "settings \<Rightarrow> world \<Rightarrow> world" where
  "begin_ajax c w = w\<lparr>requests := requests w @ [new_request c]\<rparr>"

definition after_prefilters :: "nat \<Rightarrow> world \<Rightarrow> world" where
  "after_prefilters i w =
     (let r = requests w ! i
      in if completed r = Some True then change i (\<lambda>r. r\<lparr>stage := Returned\<rparr>) w
         else if is_global (conf r)
         then (let w1 = change i (\<lambda>r. r\<lparr>fireGlobals := True, stage := In_start\<rparr>) (w\<lparr>active := active w + 1\<rparr>)
               in if active w = 0 then add_notice Start w1 else w1)
         else change i (\<lambda>r. r\<lparr>stage := In_start\<rparr>) w)"

text \<open>\<open>asked\<close> says whether there is a \<open>beforeSend\<close>, and whether it returned false.\<close>

definition after_start :: "nat \<Rightarrow> bool option \<Rightarrow> world \<Rightarrow> world" where
  "after_start i asked w =
     (let r = requests w ! i
      in if (case asked of None \<Rightarrow> False | Some refused \<Rightarrow> refused \<or> completed r = Some True) then change i (\<lambda>r. r\<lparr>stage := Returned\<rparr>) (abort_request i '''' w)
         else if has_transport (conf r)
         then change i (\<lambda>r. r\<lparr>strAbort := ''abort'', transport := True, readyState := 1, stage := In_send_event\<rparr>) w
         else change i (\<lambda>r. r\<lparr>stage := Returned\<rparr>)
           (done_request i (-1) ''No Transport'' '''' False (change i (\<lambda>r. r\<lparr>strAbort := ''abort''\<rparr>) w)))"

definition after_send_event :: "nat \<Rightarrow> world \<Rightarrow> world" where
  "after_send_event i w =
     (let r = requests w ! i
      in if completed r = Some True then change i (\<lambda>r. r\<lparr>stage := Returned\<rparr>) w
         else change i (\<lambda>r. r\<lparr>timer := has_timeout (conf r), completed := Some False, stage := In_send\<rparr>) w)"

text \<open>\<open>send\<close> has returned, or has thrown the error with the text \<open>e\<close>.\<close>

definition after_send :: "nat \<Rightarrow> string option \<Rightarrow> world \<Rightarrow> world" where
  "after_send i e w =
     change i (\<lambda>r. r\<lparr>stage := Returned\<rparr>)
       (case e of None \<Rightarrow> w | Some text \<Rightarrow> done_request i (-1) text '''' False w)"

section \<open>Requests in any order\<close>

text \<open>
  Any number of requests, each of them between two stretches of its code: a handler of the page may start, abort or
  settle others while one waits for it. A transport may complete a request it was given, more than once too.
\<close>

inductive ajax_step :: "world \<Rightarrow> world \<Rightarrow> bool" where
  step_begin: "ajax_step w (begin_ajax c w)"
| step_prefilters: "i < length (requests w) \<Longrightarrow> stage (requests w ! i) = In_prefilters \<Longrightarrow> ajax_step w (after_prefilters i w)"
| step_start: "i < length (requests w) \<Longrightarrow> stage (requests w ! i) = In_start \<Longrightarrow> ajax_step w (after_start i asked w)"
| step_send_event: "i < length (requests w) \<Longrightarrow> stage (requests w ! i) = In_send_event \<Longrightarrow> ajax_step w (after_send_event i w)"
| step_send: "i < length (requests w) \<Longrightarrow> stage (requests w ! i) = In_send \<Longrightarrow> ajax_step w (after_send i e w)"
| step_abort: "i < length (requests w) \<Longrightarrow> ajax_step w (abort_request i text w)"
| step_done: "i < length (requests w) \<Longrightarrow> completed (requests w ! i) \<noteq> None \<Longrightarrow> ajax_step w (done_request i st native state error w)"
| step_timeout: "i < length (requests w) \<Longrightarrow> timer (requests w ! i) \<Longrightarrow> ajax_step w (abort_request i ''timeout'' w)"
| step_complete: "i < length (requests w) \<Longrightarrow> closing (requests w ! i) = In_callbacks \<Longrightarrow> ajax_step w (run_complete i w)"
| step_leave: "i < length (requests w) \<Longrightarrow> closing (requests w ! i) = In_complete \<Longrightarrow> ajax_step w (leave_done i w)"

definition no_requests :: world where
  "no_requests = \<lparr>active = 0, requests = [], notices = []\<rparr>"

inductive ajax_reach :: "world \<Rightarrow> bool" where
  reach_none: "ajax_reach no_requests"
| reach_step: "ajax_reach w \<Longrightarrow> ajax_step w w' \<Longrightarrow> ajax_reach w'"

text \<open>A single request is consistent.\<close>

definition request_ok :: "request \<Rightarrow> bool" where
  "request_ok r \<longleftrightarrow>
     (completed r = Some True \<longleftrightarrow> closing r \<noteq> Not_done) \<and>
     (timer r \<longrightarrow> completed r = Some False) \<and>
     (completed r = Some False \<longrightarrow> transport r) \<and>
     (stage r = In_prefilters \<longrightarrow> \<not> fireGlobals r \<and> completed r \<noteq> Some False) \<and>
     (stage r = In_start \<longrightarrow> completed r \<noteq> Some False) \<and>
     (stage r = In_send_event \<longrightarrow> completed r \<noteq> Some False \<and> (completed r = None \<longrightarrow> transport r)) \<and>
     (stage r = In_send \<or> stage r = Returned \<longrightarrow> completed r \<noteq> None) \<and>
     (fireGlobals r \<longrightarrow> is_global (conf r))"

text \<open>A request that the counter counts.\<close>

definition counted_open :: "request \<Rightarrow> bool" where
  "counted_open r \<longleftrightarrow> fireGlobals r \<and> closing r \<noteq> Finished"

text \<open>\<open>ajaxStart\<close> and \<open>ajaxStop\<close> alternate; the state after is whether a start is open.\<close>

fun brackets :: "bool \<Rightarrow> notice list \<Rightarrow> bool option" where
  "brackets b [] = Some b"
| "brackets b (Start # ns) = (if b then None else brackets True ns)"
| "brackets b (Stop # ns) = (if b then brackets False ns else None)"
| "brackets b (_ # ns) = brackets b ns"

lemma brackets_append: "brackets b (ns @ ms) = (case brackets b ns of None \<Rightarrow> None | Some c \<Rightarrow> brackets c ms)"
  by (induction b ns rule: brackets.induct) auto

definition settled_times :: "nat \<Rightarrow> notice list \<Rightarrow> nat" where
  "settled_times i ns = length (filter (\<lambda>n. n = Settled i True \<or> n = Settled i False) ns)"

definition completed_times :: "nat \<Rightarrow> notice list \<Rightarrow> nat" where
  "completed_times i ns = length (filter (\<lambda>n. n = Completed i) ns)"

definition world_ok :: "world \<Rightarrow> bool" where
  "world_ok w \<longleftrightarrow>
     (\<forall>r\<in>set (requests w). request_ok r) \<and>
     active w = int (length (filter counted_open (requests w))) \<and>
     brackets False (notices w) = Some (0 < active w) \<and>
     (\<forall>i. settled_times i (notices w) = (if i < length (requests w) \<and> closing (requests w ! i) \<noteq> Not_done then 1 else 0)) \<and>
     (\<forall>i. completed_times i (notices w) =
        (if i < length (requests w) \<and> (closing (requests w ! i) = In_complete \<or> closing (requests w ! i) = Finished) then 1 else 0))"

lemma filter_change:
  assumes "i < length rs"
  shows "int (length (filter p (rs[i := r]))) =
    int (length (filter p rs)) - (if p (rs ! i) then 1 else 0) + (if p r then 1 else 0)"
proof -
  have rs: "rs = take i rs @ rs ! i # drop (Suc i) rs" using assms by (rule id_take_nth_drop)
  have "rs[i := r] = take i rs @ r # drop (Suc i) rs" using assms by (rule upd_conv_take_nth_drop)
  moreover have "length (filter p rs) = length (filter p (take i rs @ rs ! i # drop (Suc i) rs))" using rs by simp
  ultimately show ?thesis by simp
qed

lemma counted_positive:
  assumes "i < length rs" "counted_open (rs ! i)"
  shows "0 < length (filter counted_open rs)"
  using assms by (auto simp: filter_empty_conv)

text \<open>A change of one request that says neither start nor stop.\<close>

lemma world_ok_change:
  assumes w: "world_ok w" and i: "i < length (requests w)" and r: "request_ok (f (requests w ! i))"
    and same: "counted_open (f (requests w ! i)) = counted_open (requests w ! i)"
      "closing (f (requests w ! i)) = closing (requests w ! i)"
  shows "world_ok (change i f w)"
proof -
  have "int (length (filter counted_open ((requests w)[i := f (requests w ! i)]))) = int (length (filter counted_open (requests w)))"
    using filter_change [OF i, of counted_open] same(1) by simp
  moreover have "closing ((requests w)[i := f (requests w ! i)] ! j) = closing (requests w ! j)" if "j < length (requests w)" for j
    using same(2) that by (cases "j = i") auto
  ultimately show ?thesis using w r i
    unfolding world_ok_def change_def by (auto dest: set_update_subset_insert [THEN subsetD])
qed

lemma world_ok_request: "world_ok w \<Longrightarrow> i < length (requests w) \<Longrightarrow> request_ok (requests w ! i)"
  by (simp add: world_ok_def)

lemma notice_counts:
  "settled_times i (ns @ [n]) = settled_times i ns + (if n = Settled i True \<or> n = Settled i False then 1 else 0)"
  "completed_times i (ns @ [n]) = completed_times i ns + (if n = Completed i then 1 else 0)"
  by (simp_all add: settled_times_def completed_times_def)

lemma done_request_ok:
  assumes w: "world_ok w" and i: "i < length (requests w)"
  shows "world_ok (done_request i st native state error w)"
proof (cases "completed (requests w ! i) = Some True")
  case True
  then show ?thesis using w by (simp add: done_request_def)
next
  case False
  obtain ok phrase st' where o: "outcome_of st native (is_head (conf (requests w ! i))) state error = (ok, phrase, st')"
    by (metis prod_cases3)
  define f :: "request \<Rightarrow> request" where "f = (\<lambda>r. r\<lparr>completed := Some True, timer := False, transport := False,
      readyState := (if 0 < st then 4 else 0), closing := In_callbacks, success := ok, status := st',
      statusText := (if native \<noteq> '''' then native else phrase)\<rparr>)"
  have eq: "done_request i st native state error w = add_notice (Settled i ok) (change i f w)"
    using False o by (simp add: done_request_def f_def)
  have r: "request_ok (requests w ! i)" by (rule world_ok_request [OF w i])
  then have nd: "closing (requests w ! i) = Not_done" using False by (simp add: request_ok_def)
  have "request_ok (f (requests w ! i))" using r by (auto simp: request_ok_def f_def)
  moreover have "counted_open (f (requests w ! i)) = counted_open (requests w ! i)"
    by (simp add: counted_open_def f_def nd)
  then have "int (length (filter counted_open ((requests w)[i := f (requests w ! i)]))) = int (length (filter counted_open (requests w)))"
    using filter_change [OF i, of counted_open] by simp
  moreover have "closing ((requests w)[i := f (requests w ! i)] ! j) =
      (if j = i then In_callbacks else closing (requests w ! j))" if "j < length (requests w)" for j
    using that by (auto simp: f_def)
  ultimately show ?thesis using w i nd
    unfolding world_ok_def eq add_notice_def change_def
    by (auto simp: notice_counts brackets_append dest: set_update_subset_insert [THEN subsetD])
qed

lemma abort_request_ok: "world_ok w \<Longrightarrow> i < length (requests w) \<Longrightarrow> world_ok (abort_request i text w)"
  unfolding abort_request_def by (rule done_request_ok)

lemma change_fields [simp]:
  "requests (change i f w) = (requests w)[i := f (requests w ! i)]" "active (change i f w) = active w"
  "notices (change i f w) = notices w" "requests (add_notice n w) = requests w" "active (add_notice n w) = active w"
  by (simp_all add: change_def add_notice_def)

lemma begin_ok: "world_ok w \<Longrightarrow> world_ok (begin_ajax c w)"
  by (auto simp: world_ok_def begin_ajax_def new_request_def request_ok_def counted_open_def nth_append)

lemma move_ok:
  assumes "world_ok w" "i < length (requests w)" "request_ok (f (requests w ! i))"
    "fireGlobals (f (requests w ! i)) = fireGlobals (requests w ! i)" "closing (f (requests w ! i)) = closing (requests w ! i)"
  shows "world_ok (change i f w)"
  by (rule world_ok_change [where f = f]) (use assms in \<open>simp_all add: counted_open_def\<close>)

lemma done_request_length [simp]: "length (requests (done_request i st native state error w)) = length (requests w)"
  by (simp add: done_request_def Let_def split: prod.splits)

lemma done_request_completed [simp]:
  "i < length (requests w) \<Longrightarrow> completed (requests (done_request i st native state error w) ! i) = Some True"
  by (simp add: done_request_def Let_def split: prod.splits)

lemma return_ok:
  assumes "world_ok w" "i < length (requests w)" "completed (requests w ! i) \<noteq> None"
  shows "world_ok (change i (\<lambda>r. r\<lparr>stage := Returned\<rparr>) w)"
  by (rule move_ok [OF assms(1,2)]) (use world_ok_request [OF assms(1,2)] assms(3) in \<open>auto simp: request_ok_def\<close>)

lemma after_prefilters_ok:
  assumes w: "world_ok w" and i: "i < length (requests w)" "stage (requests w ! i) = In_prefilters"
  shows "world_ok (after_prefilters i w)"
proof -
  have r: "request_ok (requests w ! i)" by (rule world_ok_request [OF w i(1)])
  have "completed (requests w ! i) = None \<or> completed (requests w ! i) = Some True"
    using r i(2) by (cases "completed (requests w ! i)") (auto simp: request_ok_def)
  then consider (aborted) "completed (requests w ! i) = Some True"
    | (plain) "completed (requests w ! i) = None" "\<not> is_global (conf (requests w ! i))"
    | (counted) "completed (requests w ! i) = None" "is_global (conf (requests w ! i))" by metis
  then show ?thesis
  proof cases
    case aborted
    then show ?thesis using r i unfolding after_prefilters_def Let_def
      by (simp, intro move_ok [OF w]) (auto simp: request_ok_def)
  next
    case plain
    then show ?thesis using r i unfolding after_prefilters_def Let_def
      by (simp, intro move_ok [OF w]) (auto simp: request_ok_def)
  next
    case counted
    define f :: "request \<Rightarrow> request" where "f = (\<lambda>r. r\<lparr>fireGlobals := True, stage := In_start\<rparr>)"
    define w1 where "w1 = change i f (w\<lparr>active := active w + 1\<rparr>)"
    have eq: "after_prefilters i w = (if active w = 0 then add_notice Start w1 else w1)"
      using counted by (simp add: after_prefilters_def f_def w1_def)
    have nd: "closing (requests w ! i) = Not_done" "\<not> fireGlobals (requests w ! i)" using r i(2) counted(1) by (auto simp: request_ok_def)
    have "request_ok (f (requests w ! i))" using r counted by (auto simp: request_ok_def f_def)
    moreover have "int (length (filter counted_open ((requests w)[i := f (requests w ! i)]))) =
        int (length (filter counted_open (requests w))) + 1"
      using filter_change [OF i(1), of counted_open] nd by (simp add: counted_open_def f_def)
    moreover have "closing ((requests w)[i := f (requests w ! i)] ! j) = closing (requests w ! j)" if "j < length (requests w)" for j
      using that by (cases "j = i") (auto simp: f_def)
    moreover have "0 \<le> active w" using w by (simp add: world_ok_def)
    ultimately show ?thesis using w i unfolding world_ok_def eq w1_def
      by (auto simp: add_notice_def change_def notice_counts brackets_append dest: set_update_subset_insert [THEN subsetD])
  qed
qed

lemma after_start_ok:
  assumes w: "world_ok w" and i: "i < length (requests w)" "stage (requests w ! i) = In_start"
  shows "world_ok (after_start i asked w)"
proof -
  have r: "request_ok (requests w ! i)" by (rule world_ok_request [OF w i(1)])
  define stop where
    "stop \<longleftrightarrow> (case asked of None \<Rightarrow> False | Some refused \<Rightarrow> refused \<or> completed (requests w ! i) = Some True)"
  consider (no) "stop" | (send) "\<not> stop" "has_transport (conf (requests w ! i))"
    | (lost) "\<not> stop" "\<not> has_transport (conf (requests w ! i))" by blast
  then show ?thesis
  proof cases
    case send
    then show ?thesis using r i unfolding after_start_def Let_def stop_def [symmetric]
      by (simp, intro move_ok [OF w]) (auto simp: request_ok_def)
  next
    case no
    from return_ok [OF abort_request_ok [OF w i(1), of "''''"], of i] show ?thesis using no i
      unfolding after_start_def Let_def stop_def [symmetric] by (simp add: abort_request_def)
  next
    case lost
    have "world_ok (change i (\<lambda>r. r\<lparr>strAbort := ''abort''\<rparr>) w)"
      using r i by (intro move_ok [OF w]) (auto simp: request_ok_def)
    from return_ok [OF done_request_ok [OF this, of i "-1" "''No Transport''" "''''" False], of i]
    show ?thesis using lost i unfolding after_start_def Let_def stop_def [symmetric] by simp
  qed
qed

lemma after_send_event_ok:
  assumes w: "world_ok w" and i: "i < length (requests w)" "stage (requests w ! i) = In_send_event"
  shows "world_ok (after_send_event i w)"
proof (cases "completed (requests w ! i) = None")
  case True
  then show ?thesis using world_ok_request [OF w i(1)] i unfolding after_send_event_def Let_def
    by (simp, intro move_ok [OF w]) (auto simp: request_ok_def)
next
  case False
  then have "completed (requests w ! i) = Some True"
    using world_ok_request [OF w i(1)] i(2) by (cases "completed (requests w ! i)") (auto simp: request_ok_def)
  then show ?thesis using return_ok [OF w i(1)] by (simp add: after_send_event_def)
qed

lemma after_send_ok:
  assumes w: "world_ok w" and i: "i < length (requests w)" "stage (requests w ! i) = In_send"
  shows "world_ok (after_send i e w)"
proof (cases e)
  case None
  have "completed (requests w ! i) \<noteq> None" using world_ok_request [OF w i(1)] i(2) by (simp add: request_ok_def)
  with None show ?thesis using return_ok [OF w i(1)] by (simp add: after_send_def)
next
  case (Some a)
  have "world_ok (done_request i (-1) a '''' False w)" by (rule done_request_ok [OF w i(1)])
  from return_ok [OF this, of i] Some i show ?thesis by (simp add: after_send_def)
qed

lemma run_complete_ok:
  assumes w: "world_ok w" and i: "i < length (requests w)" "closing (requests w ! i) = In_callbacks"
  shows "world_ok (run_complete i w)"
proof -
  have r: "request_ok (requests w ! i)" by (rule world_ok_request [OF w i(1)])
  define f :: "request \<Rightarrow> request" where "f = (\<lambda>r. r\<lparr>closing := In_complete\<rparr>)"
  have "request_ok (f (requests w ! i))" using r i(2) by (auto simp: request_ok_def f_def)
  moreover have "int (length (filter counted_open ((requests w)[i := f (requests w ! i)]))) =
      int (length (filter counted_open (requests w)))"
    using filter_change [OF i(1), of counted_open] i(2) by (simp add: counted_open_def f_def)
  moreover have "closing ((requests w)[i := f (requests w ! i)] ! j) =
      (if j = i then In_complete else closing (requests w ! j))" if "j < length (requests w)" for j
    using that by (auto simp: f_def)
  ultimately show ?thesis using w i
    unfolding world_ok_def run_complete_def f_def [symmetric] add_notice_def change_def
    by (auto simp: notice_counts brackets_append dest: set_update_subset_insert [THEN subsetD])
qed

lemma leave_done_ok:
  assumes w: "world_ok w" and i: "i < length (requests w)" "closing (requests w ! i) = In_complete"
  shows "world_ok (leave_done i w)"
proof -
  have r: "request_ok (requests w ! i)" by (rule world_ok_request [OF w i(1)])
  define f :: "request \<Rightarrow> request" where "f = (\<lambda>r. r\<lparr>closing := Finished\<rparr>)"
  have ok: "request_ok (f (requests w ! i))" using r i(2) by (auto simp: request_ok_def f_def)
  have n: "int (length (filter counted_open ((requests w)[i := f (requests w ! i)]))) =
      int (length (filter counted_open (requests w))) - (if fireGlobals (requests w ! i) then 1 else 0)"
    using filter_change [OF i(1), of counted_open] i(2) by (simp add: counted_open_def f_def)
  have c: "closing ((requests w)[i := f (requests w ! i)] ! j) =
      (if j = i then Finished else closing (requests w ! j))" if "j < length (requests w)" for j
    using that by (auto simp: f_def)
  have pos: "fireGlobals (requests w ! i) \<Longrightarrow> 0 < active w"
    using counted_positive [OF i(1)] i(2) w by (simp add: world_ok_def counted_open_def)
  show ?thesis
  proof (cases "fireGlobals (requests w ! i)")
    case True
    then show ?thesis using w i ok n c pos
      unfolding world_ok_def leave_done_def f_def [symmetric] add_notice_def change_def Let_def
      by (auto simp: notice_counts brackets_append dest: set_update_subset_insert [THEN subsetD])
  next
    case False
    then show ?thesis using w i ok n c
      unfolding world_ok_def leave_done_def f_def [symmetric] add_notice_def change_def Let_def
      by (auto dest: set_update_subset_insert [THEN subsetD])
  qed
qed

lemma ajax_step_ok: "ajax_step w w' \<Longrightarrow> world_ok w \<Longrightarrow> world_ok w'"
  by (induction rule: ajax_step.induct)
    (auto intro: begin_ok after_prefilters_ok after_start_ok after_send_event_ok after_send_ok abort_request_ok
      done_request_ok run_complete_ok leave_done_ok)

lemma ajax_reach_ok: "ajax_reach w \<Longrightarrow> world_ok w"
proof (induction rule: ajax_reach.induct)
  case reach_none
  then show ?case by (simp add: world_ok_def no_requests_def settled_times_def completed_times_def)
qed (rule ajax_step_ok)

text \<open>A settled request stays as it was settled.\<close>

definition same_outcome :: "request \<Rightarrow> request \<Rightarrow> bool" where
  "same_outcome r r' \<longleftrightarrow>
     completed r' = Some True \<and> success r' = success r \<and> status r' = status r \<and> statusText r' = statusText r"

lemma done_request_other:
  "i \<noteq> j \<Longrightarrow> requests (done_request j st native state error w) ! i = requests w ! i"
  by (simp add: done_request_def Let_def split: prod.splits)

lemma done_request_settled:
  "completed (requests w ! i) = Some True \<Longrightarrow> done_request i st native state error w = w"
  by (simp add: done_request_def)

lemma settled_done:
  "i < length (requests w) \<Longrightarrow> completed (requests w ! i) = Some True \<Longrightarrow>
   requests (done_request j st native state error w) ! i = requests w ! i"
  by (cases "i = j") (simp_all add: done_request_other done_request_settled)

lemma settled_change:
  assumes "i < length (requests w)" "completed (requests w ! i) = Some True"
    "same_outcome (requests w ! i) (f (requests w ! i))"
  shows "same_outcome (requests w ! i) (requests (change j f w) ! i)"
  using assms by (cases "i = j") (auto simp: same_outcome_def)

lemma outcome_step:
  assumes "ajax_step w w'" "i < length (requests w)" "completed (requests w ! i) = Some True"
  shows "i < length (requests w') \<and> same_outcome (requests w ! i) (requests w' ! i)"
  using assms
proof (induction rule: ajax_step.induct)
  case (step_begin w c)
  then show ?case by (simp add: begin_ajax_def nth_append same_outcome_def)
next
  case (step_prefilters j w)
  then show ?case by (cases "i = j") (auto simp: after_prefilters_def same_outcome_def Let_def)
next
  case (step_start j w asked)
  then show ?case
    by (cases "i = j") (auto simp: after_start_def same_outcome_def abort_request_def settled_done done_request_other Let_def)
next
  case (step_send_event j w)
  then show ?case by (cases "i = j") (auto simp: after_send_event_def same_outcome_def Let_def)
next
  case (step_send j w e)
  then show ?case
    by (cases "i = j"; cases e) (auto simp: after_send_def same_outcome_def settled_done done_request_other)
next
  case (step_abort j w a)
  then show ?case by (simp add: abort_request_def settled_done same_outcome_def)
next
  case (step_done j w)
  then show ?case by (simp add: settled_done same_outcome_def)
next
  case (step_timeout j w)
  then show ?case by (simp add: abort_request_def settled_done same_outcome_def)
next
  case (step_complete j w)
  then show ?case by (cases "i = j") (auto simp: run_complete_def same_outcome_def)
next
  case (step_leave j w)
  then show ?case by (cases "i = j") (auto simp: leave_done_def same_outcome_def Let_def)
qed

lemma settled_for_good:
  "rtranclp ajax_step w w' \<Longrightarrow> i < length (requests w) \<Longrightarrow> completed (requests w ! i) = Some True \<Longrightarrow>
   i < length (requests w') \<and> same_outcome (requests w ! i) (requests w' ! i)"
proof (induction rule: rtranclp_induct)
  case base
  then show ?case by (simp add: same_outcome_def)
next
  case (step y z)
  then have y: "i < length (requests y) \<and> same_outcome (requests w ! i) (requests y ! i)" by simp
  then have "completed (requests y ! i) = Some True" by (simp add: same_outcome_def)
  with outcome_step [OF step.hyps(2)] y show ?case by (auto simp: same_outcome_def)
qed

section \<open>Headers by their names\<close>

text \<open>What is sent under a name, in whatever case.\<close>

definition header_value :: "headers \<Rightarrow> string \<Rightarrow> string option" where
  "header_value h name = (case obj_get (names h) (toLowerCase name) of None \<Rightarrow> None | Some n \<Rightarrow> obj_get (sent h) n)"

text \<open>The name in lower case that a spelling is kept for, and whether it is an inherited one as it should be.\<close>

fun spelled :: "hname \<Rightarrow> string" where
  "spelled (Given m) = toLowerCase m"
| "spelled (Native l) = l"

fun spelling_ok :: "hname \<Rightarrow> bool" where
  "spelling_ok (Given m) \<longleftrightarrow> \<not> inherited_name (toLowerCase m)"
| "spelling_ok (Native l) \<longleftrightarrow> inherited_name l"

definition headers_ok :: "headers \<Rightarrow> bool" where
  "headers_ok h \<longleftrightarrow>
     (\<forall>k n. obj_get (names h) k = Some n \<longrightarrow> spelled n = k \<and> spelling_ok n) \<and>
     (\<forall>n. obj_get (sent h) n \<noteq> None \<longrightarrow> obj_get (names h) (spelled n) = Some n) \<and>
     distinct (obj_keys (sent h))"

lemma setRequestHeader_ok:
  assumes "headers_ok h"
  shows "headers_ok (setRequestHeader True name v h) \<and>
    header_value (setRequestHeader True name v h) k =
      (if toLowerCase k = toLowerCase name then Some v else header_value h k)"
proof -
  obtain m where m: "spelled m = toLowerCase name" "spelling_ok m" "setRequestHeader True name v h =
      \<lparr>names = obj_put (toLowerCase name) m (names h), sent = obj_put m v (sent h)\<rparr>"
    "obj_get (names h) (toLowerCase name) = Some m \<or> obj_get (names h) (toLowerCase name) = None"
  proof (cases "obj_get (names h) (toLowerCase name)")
    case None
    then show ?thesis
      by (intro that [of "if inherited_name (toLowerCase name) then Native (toLowerCase name) else Given name"])
        (simp_all add: setRequestHeader_def Let_def)
  next
    case (Some n)
    then have "spelled n = toLowerCase name \<and> spelling_ok n" using assms by (auto simp: headers_ok_def)
    with Some show ?thesis by (intro that [of n]) (simp_all add: setRequestHeader_def Let_def)
  qed
  define h' where "h' = setRequestHeader True name v h"
  have h': "obj_get (names h') k = (if k = toLowerCase name then Some m else obj_get (names h) k)"
    "obj_get (sent h') n = (if n = m then Some v else obj_get (sent h) n)" for k n
    unfolding h'_def m(3) by (simp_all add: js_obj)
  have "obj_get (names h') (spelled n) = Some n" if n: "obj_get (sent h') n \<noteq> None" for n
  proof (cases "n = m")
    case False
    with n have n': "obj_get (names h) (spelled n) = Some n" using assms by (auto simp: h' headers_ok_def)
    then have "spelled n \<noteq> toLowerCase name" using m(4) False by auto
    with n' show ?thesis by (simp add: h')
  qed (simp add: h' m(1))
  moreover have "spelled n = k \<and> spelling_ok n" if "obj_get (names h') k = Some n" for k n
    using assms that m(1,2) by (auto simp: h' headers_ok_def split: if_split_asm)
  moreover have "distinct (obj_keys (sent h'))"
    using assms unfolding h'_def m(3) headers_ok_def by (auto simp: js_obj obj_in_keys split: if_split_asm)
  ultimately have ok: "headers_ok h'" unfolding headers_ok_def by blast
  have "obj_get (names h) (toLowerCase k) \<noteq> Some m" if "toLowerCase k \<noteq> toLowerCase name"
    using assms m(1) that unfolding headers_ok_def by metis
  then have "header_value h' k = (if toLowerCase k = toLowerCase name then Some v else header_value h k)"
    unfolding header_value_def by (auto simp: h' split: option.splits)
  with ok show ?thesis unfolding h'_def by blast
qed

lemma headers_last:
  "headers_ok (fold (\<lambda>(n, v). setRequestHeader True n v) hs no_headers) \<and>
    header_value (fold (\<lambda>(n, v). setRequestHeader True n v) hs no_headers) k =
      map_of (rev (map (\<lambda>(n, v). (toLowerCase n, v)) hs)) (toLowerCase k)"
proof (induction hs arbitrary: k rule: rev_induct)
  case Nil
  then show ?case by (simp add: headers_ok_def header_value_def no_headers_def js_obj obj_keys_def)
next
  case (snoc x hs)
  obtain n v where x: "x = (n, v)" by (cases x)
  from setRequestHeader_ok [OF snoc [THEN conjunct1], of n v k] snoc [THEN conjunct2] show ?case by (simp add: x)
qed

section \<open>The names of jsonp callbacks\<close>

text \<open>
  The requests in flight and what happens to them: one more, a script that calls a name, the one at a place is settled;
  another request takes a number.
\<close>

datatype jsonp_op = Install "string option" | Respond string nat | Clean nat | Take_number

definition jsonp_step :: "string \<Rightarrow> (string \<Rightarrow> bool) \<Rightarrow> jsonp_op \<Rightarrow> jsonp_request list \<times> jsonp \<Rightarrow> jsonp_request list \<times> jsonp" where
  "jsonp_step expando has_setting op st =
     (case st of (rs, s) \<Rightarrow>
        (case op of
           Install choice \<Rightarrow> (let (r, s') = jsonp_install expando choice has_setting s in (rs @ [r], s'))
         | Respond name v \<Rightarrow> jsonp_call (globals s name) v (rs, s)
         | Clean j \<Rightarrow> if j < length rs then jsonp_clean j (rs, s) else (rs, s)
         | Take_number \<Rightarrow> (rs, s\<lparr>nonce_of := Suc (nonce_of s)\<rparr>)))"

definition jsonp_run ::
  "string \<Rightarrow> (string \<Rightarrow> bool) \<Rightarrow> jsonp_op list \<Rightarrow> jsonp_request list \<times> jsonp \<Rightarrow> jsonp_request list \<times> jsonp" where
  "jsonp_run expando has_setting ops st = foldl (\<lambda>st op. jsonp_step expando has_setting op st) st ops"

text \<open>
  A name that the settings give: nobody in flight has it, it is not one that \<open>jsonpCallback\<close> makes, nor the name of a
  setting that is true.
\<close>

fun own_names :: "string \<Rightarrow> (string \<Rightarrow> bool) \<Rightarrow> jsonp_op list \<Rightarrow> jsonp_request list \<times> jsonp \<Rightarrow> bool" where
  "own_names expando has_setting [] st \<longleftrightarrow> True"
| "own_names expando has_setting (op # ops) st \<longleftrightarrow>
     (case op of
        Install (Some n) \<Rightarrow> n \<notin> jr_name ` set (fst st) \<and> take (length expando) n \<noteq> expando \<and> \<not> has_setting n
      | _ \<Rightarrow> True) \<and> own_names expando has_setting ops (jsonp_step expando has_setting op st)"

definition made_name :: "string \<Rightarrow> jsonp \<Rightarrow> string \<Rightarrow> bool" where
  "made_name expando s n \<longleftrightarrow> (\<exists>k<nonce_of s. n = expando @ show_nat k)"

definition in_place :: "string \<Rightarrow> (string \<Rightarrow> global) \<Rightarrow> jsonp \<Rightarrow> jsonp_request \<Rightarrow> bool" where
  "in_place expando page s r \<longleftrightarrow>
     jr_overwritten r = page (jr_name r) \<and> globals s (jr_name r) = Callback (jr_id r) \<and>
     (if jr_marked r then made_name expando s (jr_name r) else take (length expando) (jr_name r) \<noteq> expando)"

definition jsonp_ok :: "string \<Rightarrow> (string \<Rightarrow> global) \<Rightarrow> jsonp_request list \<times> jsonp \<Rightarrow> bool" where
  "jsonp_ok expando page = (\<lambda>(rs, s).
     distinct (map jr_name rs @ oldCallbacks s) \<and> (\<forall>n\<in>set (oldCallbacks s). made_name expando s n) \<and>
     (\<forall>r\<in>set rs. in_place expando page s r) \<and>
     (\<forall>n. n \<notin> jr_name ` set rs \<longrightarrow> globals s n = page n))"

lemma set_response_names [simp]: "map jr_name (set_response i v rs) = map jr_name rs"
  by (simp add: set_response_def)

lemma set_response_image [simp]: "jr_name ` set (set_response i v rs) = jr_name ` set rs"
  by (metis set_map set_response_names)

lemma set_response_in_place:
  "\<forall>r\<in>set rs. in_place expando page s r \<Longrightarrow> \<forall>r\<in>set (set_response i v rs). in_place expando page s r"
  by (auto simp: set_response_def in_place_def)

lemma in_place_calls [simp]:
  "made_name expando (s\<lparr>page_calls := x\<rparr>) n = made_name expando s n"
  "in_place expando page (s\<lparr>page_calls := x\<rparr>) r = in_place expando page s r"
  by (simp_all add: in_place_def made_name_def)

lemma jsonp_call_ok: "jsonp_ok expando page st \<Longrightarrow> jsonp_ok expando page (jsonp_call g v st)"
proof -
  obtain rs s where st: "st = (rs, s)" by (cases st)
  assume ok: "jsonp_ok expando page st"
  show ?thesis
  proof (cases g)
    case (Callback i)
    with ok show ?thesis using set_response_in_place [of rs expando page s i v] by (simp add: st jsonp_call_def jsonp_ok_def)
  qed (use ok in \<open>simp_all add: st jsonp_call_def jsonp_ok_def\<close>)
qed

lemma in_place_install:
  assumes "in_place expando page s q" "jr_name q \<noteq> name" "nonce_of s \<le> nonce_of s'" "globals s' = (globals s)(name := g)"
  shows "in_place expando page s' q"
  using assms unfolding in_place_def made_name_def by (auto intro: less_le_trans split: if_splits)

lemma jsonp_install_ok:
  assumes ok: "jsonp_ok expando page (rs, s)" and i: "jsonp_install expando choice has_setting s = (r, s')"
    and own: "\<forall>n. choice = Some n \<longrightarrow> n \<notin> jr_name ` set rs \<and> take (length expando) n \<noteq> expando \<and> \<not> has_setting n"
  shows "jsonp_ok expando page (rs @ [r], s')"
proof -
  obtain name s1 where n: "(case choice of None \<Rightarrow> jsonpCallback expando s | Some n \<Rightarrow> (n, s)) = (name, s1)" by fastforce
  have d: "distinct (map jr_name rs @ oldCallbacks s)" and old: "\<forall>n\<in>set (oldCallbacks s). made_name expando s n"
    and pl: "\<forall>q\<in>set rs. in_place expando page s q" and rest: "\<forall>n. n \<notin> jr_name ` set rs \<longrightarrow> globals s n = page n"
    using ok by (auto simp: jsonp_ok_def)
  have r: "r = \<lparr>jr_id = next_id s1, jr_name = name, jr_overwritten = globals s1 name, jr_marked = (choice = None \<or> has_setting name),
      jr_response = None\<rparr>" "s' = s1\<lparr>globals := (globals s1)(name := Callback (next_id s1)), next_id := Suc (next_id s1)\<rparr>"
    using i n by (simp_all add: jsonp_install_def)
  have used: "\<exists>k<nonce_of s. m = expando @ show_nat k" if "m \<in> jr_name ` set rs \<union> set (oldCallbacks s)" "take (length expando) m = expando" for m
    using that pl old by (auto simp: in_place_def made_name_def split: if_splits)
  have new: "name \<notin> jr_name ` set rs \<and> distinct (map jr_name rs @ [name] @ oldCallbacks s1) \<and>
      (\<forall>n\<in>set (oldCallbacks s1). made_name expando s1 n) \<and> nonce_of s \<le> nonce_of s1 \<and> globals s1 = globals s \<and>
      (\<forall>m. choice = Some m \<longrightarrow> name = m) \<and>
      (if choice = None then made_name expando s1 name else take (length expando) name \<noteq> expando)"
  proof (cases choice)
    case None
    show ?thesis
    proof (cases "oldCallbacks s = []")
      case True
      then have s1: "name = expando @ show_nat (nonce_of s)" "s1 = s\<lparr>nonce_of := Suc (nonce_of s)\<rparr>"
        using n None by (simp_all add: jsonpCallback_def)
      have "name \<notin> jr_name ` set rs" using used [of name] s1(1) by (auto simp: show_nat_inj)
      then show ?thesis using d True s1 None by (auto simp: made_name_def)
    next
      case False
      then have s1: "name = last (oldCallbacks s)" "s1 = s\<lparr>oldCallbacks := butlast (oldCallbacks s)\<rparr>"
        using n None by (simp_all add: jsonpCallback_def)
      have eq: "oldCallbacks s = butlast (oldCallbacks s) @ [name]" using False s1(1) by simp
      have "name \<in> set (oldCallbacks s)" using False s1(1) by simp
      moreover have "distinct (map jr_name rs @ butlast (oldCallbacks s) @ [name])" using d eq by metis
      ultimately show ?thesis using old None s1(2) by (auto simp: made_name_def dest: in_set_butlastD)
    qed
  next
    case (Some m)
    then have s1: "name = m" "s1 = s" using n by simp_all
    have "m \<notin> set (oldCallbacks s)" using own Some old by (auto simp: made_name_def)
    then show ?thesis using d own Some s1 old by auto
  qed
  have g: "globals s1 name = page name" "globals s' = (globals s)(name := Callback (next_id s1))" "nonce_of s' = nonce_of s1"
    using new rest by (simp_all add: r(2))
  have "in_place expando page s' r"
  proof (cases choice)
    case None
    with new g show ?thesis by (simp add: in_place_def made_name_def r)
  next
    case (Some m)
    with new own g show ?thesis by (simp add: in_place_def r)
  qed
  moreover have "in_place expando page s' q" if q: "q \<in> set rs" for q
  proof -
    have "jr_name q \<noteq> name" using new q by (auto simp: image_iff)
    moreover have "in_place expando page s q" using pl q by blast
    moreover have "nonce_of s \<le> nonce_of s'" using new by (simp add: r(2))
    ultimately show ?thesis using in_place_install g(2) by blast
  qed
  then have "\<forall>q\<in>set rs. in_place expando page s' q" by blast
  ultimately have "\<forall>q\<in>set (rs @ [r]). in_place expando page s' q" by simp
  moreover have "\<forall>n. n \<notin> jr_name ` set (rs @ [r]) \<longrightarrow> globals s' n = page n" using rest new r by auto
  moreover have "distinct (map jr_name (rs @ [r]) @ oldCallbacks s')" "\<forall>n\<in>set (oldCallbacks s'). made_name expando s' n"
    using new r by (auto simp: made_name_def)
  ultimately show ?thesis unfolding jsonp_ok_def prod.case by blast
qed

lemma jsonp_clean_ok:
  assumes ok: "jsonp_ok expando page (rs, s)" and j: "j < length rs"
  shows "jsonp_ok expando page (jsonp_clean j (rs, s))"
proof -
  define as where "as = take j rs"
  define bs where "bs = drop (Suc j) rs"
  define r where "r = rs ! j"
  have rs: "rs = as @ r # bs" unfolding as_def bs_def r_def by (rule id_take_nth_drop [OF j])
  have d: "distinct (map jr_name (as @ r # bs) @ oldCallbacks s)" and old: "\<forall>n\<in>set (oldCallbacks s). made_name expando s n"
    and pl: "\<forall>q\<in>set (as @ r # bs). in_place expando page s q" and rest: "\<forall>n. n \<notin> jr_name ` set (as @ r # bs) \<longrightarrow> globals s n = page n"
    using ok unfolding rs by (auto simp: jsonp_ok_def)
  have others: "jr_name q \<noteq> jr_name r" if "q \<in> set (as @ bs)" for q
    using d that by (auto simp: image_iff)
  define s2 where "s2 = (let s1 = s\<lparr>globals := (globals s)(jr_name r := jr_overwritten r)\<rparr>
    in if jr_marked r then s1\<lparr>oldCallbacks := oldCallbacks s1 @ [jr_name r]\<rparr> else s1)"
  have s2: "globals s2 = (globals s)(jr_name r := page (jr_name r))" "nonce_of s2 = nonce_of s"
    "oldCallbacks s2 = oldCallbacks s @ (if jr_marked r then [jr_name r] else [])"
    using pl by (simp_all add: s2_def Let_def in_place_def)
  have "\<forall>q\<in>set (as @ bs). in_place expando page s2 q"
  proof
    fix q assume q: "q \<in> set (as @ bs)"
    have "in_place expando page s q" using pl q by auto
    then show "in_place expando page s2 q" by (rule in_place_install [OF _ others [OF q] _ s2(1)]) (simp add: s2(2))
  qed
  moreover have "\<forall>n. n \<notin> jr_name ` set (as @ bs) \<longrightarrow> globals s2 n = page n" using rest by (auto simp: s2)
  moreover have "\<forall>n\<in>set (oldCallbacks s2). made_name expando s2 n" using old pl by (auto simp: s2 made_name_def in_place_def)
  moreover have "distinct (map jr_name (as @ bs) @ oldCallbacks s2)" using d by (auto simp: s2)
  ultimately have "jsonp_ok expando page (as @ bs, s2)" unfolding jsonp_ok_def prod.case by blast
  then show ?thesis
    using jsonp_call_ok by (auto simp: jsonp_clean_def Let_def s2_def as_def bs_def r_def split: option.split)
qed

lemma jsonp_step_ok:
  assumes "jsonp_ok expando page st" "own_names expando has_setting (op # ops) st"
  shows "jsonp_ok expando page (jsonp_step expando has_setting op st)"
proof -
  obtain rs s where st: "st = (rs, s)" by (cases st)
  show ?thesis
  proof (cases op)
    case (Install choice)
    obtain r s' where r: "jsonp_install expando choice has_setting s = (r, s')" by fastforce
    from jsonp_install_ok [OF assms(1) [unfolded st] r] assms(2) show ?thesis
      by (simp add: Install st jsonp_step_def r split: option.splits)
  next
    case (Respond n v)
    with jsonp_call_ok assms(1) show ?thesis by (simp add: st jsonp_step_def)
  next
    case (Clean j)
    with jsonp_clean_ok assms(1) show ?thesis by (simp add: st jsonp_step_def)
  next
    case Take_number
    with assms(1) show ?thesis by (auto simp: st jsonp_step_def jsonp_ok_def in_place_def made_name_def less_Suc_eq split: if_splits)
  qed
qed

lemma jsonp_run_ok:
  "jsonp_ok expando page st \<Longrightarrow> own_names expando has_setting ops st \<Longrightarrow> jsonp_ok expando page (jsonp_run expando has_setting ops st)"
proof (induction ops arbitrary: st)
  case (Cons op ops)
  from Cons.IH [OF jsonp_step_ok [OF Cons.prems]] Cons.prems(2) show ?case by (simp add: jsonp_run_def)
qed (simp add: jsonp_run_def)

section \<open>Requests as a whole\<close>

text \<open>
  C7: The callbacks of a request run at most once, however its transport, its timer, \<open>abort\<close> and the handlers
  interleave; once they have run, nothing that follows changes what it was settled with; and a request whose call has
  returned unsettled still has its transport.
\<close>

theorem request_settles_once:
  assumes "ajax_reach w" "i < length (requests w)"
  shows "settled_times i (notices w) = (if completed (requests w ! i) = Some True then 1 else 0) \<and>
    completed_times i (notices w) \<le> settled_times i (notices w) \<and>
    (stage (requests w ! i) = Returned \<longrightarrow> completed (requests w ! i) = Some True \<or>
       completed (requests w ! i) = Some False \<and> transport (requests w ! i)) \<and>
    (\<forall>w'. rtranclp ajax_step w w' \<longrightarrow> completed (requests w ! i) = Some True \<longrightarrow>
       same_outcome (requests w ! i) (requests w' ! i))"
proof -
  have w: "world_ok w" using assms(1) by (rule ajax_reach_ok)
  have r: "request_ok (requests w ! i)" using w assms(2) by (rule world_ok_request)
  have n: "settled_times i (notices w) = (if closing (requests w ! i) \<noteq> Not_done then 1 else 0)"
    "completed_times i (notices w) =
      (if closing (requests w ! i) = In_complete \<or> closing (requests w ! i) = Finished then 1 else 0)"
    using w assms(2) unfolding world_ok_def by metis+
  have "settled_times i (notices w) = (if completed (requests w ! i) = Some True then 1 else 0)"
    using n(1) r by (simp add: request_ok_def)
  moreover have "completed_times i (notices w) \<le> settled_times i (notices w)" using n by auto
  moreover have "completed (requests w ! i) = Some True \<or> completed (requests w ! i) = Some False \<and> transport (requests w ! i)"
    if "stage (requests w ! i) = Returned"
    using r that unfolding request_ok_def by (cases "completed (requests w ! i)") auto
  ultimately show ?thesis using settled_for_good [OF _ assms(2)] by blast
qed

text \<open>
  A request that is aborted in its \<open>ajaxStart\<close> handler, and whose transport would answer too late: with its steps.
\<close>

definition demo_settings :: settings where
  "demo_settings = \<lparr>is_global = True, has_transport = True, has_timeout = True, is_head = False\<rparr>"

definition demo_sent :: world where
  "demo_sent = after_send 0 None (after_send_event 0 (after_start 0 None (after_prefilters 0 (begin_ajax demo_settings no_requests))))"

definition demo_late :: world where
  "demo_late = done_request 0 200 ''OK'' ''success'' False (abort_request 0 ''timeout'' demo_sent)"

lemmas ajax_code = begin_ajax_def after_prefilters_def after_start_def after_send_event_def after_send_def done_request_def
  abort_request_def run_complete_def leave_done_def change_def add_notice_def new_request_def no_requests_def
  outcome_of_def demo_settings_def Let_def

lemma demo_sent_value:
  "demo_sent = \<lparr>active = 1,
     requests = [\<lparr>conf = demo_settings, stage = Returned, completed = Some False, transport = True, timer = True,
       fireGlobals = True, readyState = 1, strAbort = ''abort'', closing = Not_done, success = False, status = 0,
       statusText = ''''\<rparr>],
     notices = [Start]\<rparr>"
  by (simp add: demo_sent_def ajax_code)

lemma demo_late_value:
  "demo_late = \<lparr>active = 1,
     requests = [\<lparr>conf = demo_settings, stage = Returned, completed = Some True, transport = False, timer = False,
       fireGlobals = True, readyState = 0, strAbort = ''abort'', closing = In_callbacks, success = False, status = 0,
       statusText = ''timeout''\<rparr>],
     notices = [Start, Settled 0 False]\<rparr>"
  by (simp add: demo_late_def demo_sent_value ajax_code)

lemma demo_sent_reach: "ajax_reach demo_sent"
proof -
  have "ajax_reach (begin_ajax demo_settings no_requests)" by (rule reach_step [OF reach_none step_begin])
  then have "ajax_reach (after_prefilters 0 (begin_ajax demo_settings no_requests))"
    by (rule reach_step [OF _ step_prefilters]) (simp_all add: ajax_code)
  then have "ajax_reach (after_start 0 None (after_prefilters 0 (begin_ajax demo_settings no_requests)))"
    by (rule reach_step [OF _ step_start]) (simp_all add: ajax_code)
  then have "ajax_reach (after_send_event 0 (after_start 0 None (after_prefilters 0 (begin_ajax demo_settings no_requests))))"
    by (rule reach_step [OF _ step_send_event]) (simp_all add: ajax_code)
  then show ?thesis unfolding demo_sent_def
    by (rule reach_step [OF _ step_send]) (simp_all add: ajax_code)
qed

lemma demo_late_reach: "ajax_reach demo_late"
proof -
  have "ajax_reach (abort_request 0 ''timeout'' demo_sent)"
    by (rule reach_step [OF demo_sent_reach step_timeout]) (simp_all add: demo_sent_value)
  then show ?thesis unfolding demo_late_def
    by (rule reach_step [OF _ step_done]) (simp_all add: demo_sent_value ajax_code)
qed


theorem request_settles_once_witness:
  "settled_times 0 (notices demo_late) = 1 \<and> completed_times 0 (notices demo_late) \<le> 1 \<and>
   same_outcome (requests demo_late ! 0) (requests (leave_done 0 (run_complete 0 demo_late)) ! 0)"
proof -
  have 1: "ajax_step demo_late (run_complete 0 demo_late)" by (rule step_complete) (simp_all add: demo_late_value)
  have 2: "ajax_step (run_complete 0 demo_late) (leave_done 0 (run_complete 0 demo_late))"
    by (rule step_leave) (simp_all add: demo_late_value ajax_code)
  have "rtranclp ajax_step demo_late (leave_done 0 (run_complete 0 demo_late))"     by (rule converse_rtranclp_into_rtranclp [OF 1 r_into_rtranclp [of ajax_step, OF 2]])
  with request_settles_once [OF demo_late_reach, of 0] show ?thesis by (simp add: demo_late_value)
qed

text \<open>
  C26: \<open>jQuery.active\<close> is the number of the global requests that have begun and have not run their last callback; so it
  is never negative; and \<open>ajaxStart\<close> and \<open>ajaxStop\<close> fire alternately, a start being open exactly while it is positive.
\<close>

theorem active_counts:
  "ajax_reach w \<Longrightarrow>
   active w = int (length (filter (\<lambda>r. fireGlobals r \<and> closing r \<noteq> Finished) (requests w))) \<and>
   brackets False (notices w) = Some (0 < active w)"
  using ajax_reach_ok [of w] by (simp add: world_ok_def counted_open_def [abs_def])

theorem active_counts_witness: "active demo_sent = 1 \<and> brackets False (notices demo_sent) = Some True"
  using active_counts [OF demo_sent_reach] by (simp add: demo_sent_value)

text \<open>
  C28: What is sent for a header, when prefilters have set the headers \<open>hs\<close>, is what the call or the prefilters have set
  last under that name, in whatever case: a header among the settings wins over \<open>Content-Type\<close>, \<open>Accept\<close> and the conditions
  of the cache. Each header is sent under one spelling; that is the text of what an object literal inherits exactly when
  the literal inherits the name in lower case, as it does \<open>constructor\<close>.
\<close>

theorem last_header_sent:
  "let h = set_headers True s (fold (\<lambda>(n, v). setRequestHeader True n v) hs no_headers)
   in header_value h k = map_of (rev (map (\<lambda>(n, v). (toLowerCase n, v)) (hs @ initial_headers s))) (toLowerCase k) \<and>
     distinct (obj_keys (sent h)) \<and> inj_on spelled (set (obj_keys (sent h))) \<and> (\<forall>n\<in>set (obj_keys (sent h)). spelling_ok n)"
proof -
  define h where "h = fold (\<lambda>(n, v). setRequestHeader True n v) (hs @ initial_headers s) no_headers"
  have ok: "headers_ok h" using headers_last unfolding h_def by blast
  have keys: "obj_get (names h) (spelled n) = Some n" if "n \<in> set (obj_keys (sent h))" for n
    using ok that unfolding headers_ok_def by (simp add: obj_in_keys)
  then have "inj_on spelled (set (obj_keys (sent h)))" by (metis inj_onI option.inject)
  moreover have "\<forall>n\<in>set (obj_keys (sent h)). spelling_ok n" using keys ok unfolding headers_ok_def by blast
  moreover have "set_headers True s (fold (\<lambda>(n, v). setRequestHeader True n v) hs no_headers) = h"
    by (simp add: h_def set_headers_def)
  ultimately show ?thesis using headers_last [of "hs @ initial_headers s" k] ok unfolding headers_ok_def h_def Let_def by simp
qed

definition demo_headers :: header_settings where
  "demo_headers = \<lparr>ifModified = True, modified = '''', etag = ''x'', has_data = True, hasContent = True,
     content_type = Some ''text/plain'', own_type = '''', dataType = ''json'',
     accepts = [(''*'', ''*/*''), (''json'', ''application/json'')], more_headers = [(''ACCEPT'', ''c'')]\<rparr>"

theorem last_header_sent_witness:
  "header_value (set_headers True demo_headers (fold (\<lambda>(n, v). setRequestHeader True n v) [(''Accept'', ''a'')] no_headers))
     ''accept'' = Some ''c''"
proof -
  have "map_of (rev (map (\<lambda>(n, v). (toLowerCase n, v)) ([(''Accept'', ''a'')] @ initial_headers demo_headers)))
    (toLowerCase ''accept'') = Some ''c''" by code_simp
  then show ?thesis using last_header_sent [of demo_headers "[(''Accept'', ''a'')]" "''accept''"] by (simp only: Let_def)
qed

text \<open>
  C27: However requests for jsonp overlap, when each leaves \<open>jsonpCallback\<close> alone or gives a name that no request in flight
  has, that does not begin like the names jQuery makes and is not the name of a setting: those in flight have different
  callbacks, none of them among the free names; the name of each stands for its own callback; and each name that is not
  in use stands for what the page itself had under it.
\<close>

theorem jsonp_names_apart:
  assumes "oldCallbacks s = []" "own_names expando has_setting ops ([], s)"
  shows "case jsonp_run expando has_setting ops ([], s) of (rs, s') \<Rightarrow>
    distinct (map jr_name rs @ oldCallbacks s') \<and>
    (\<forall>r\<in>set rs. globals s' (jr_name r) = Callback (jr_id r)) \<and>
    (\<forall>n. n \<notin> jr_name ` set rs \<longrightarrow> globals s' n = globals s n)"
proof -
  have "jsonp_ok expando (globals s) ([], s)" using assms(1) by (simp add: jsonp_ok_def)
  from jsonp_run_ok [OF this assms(2)] show ?thesis
    by (cases "jsonp_run expando has_setting ops ([], s)") (simp add: jsonp_ok_def in_place_def)
qed

definition no_jsonp :: jsonp where
  "no_jsonp = \<lparr>oldCallbacks = [], nonce_of = 5, globals = (\<lambda>n. if n = ''mine'' then Function 7 else Nothing), next_id = 0, page_calls = []\<rparr>"

theorem jsonp_names_apart_witness:
  "case jsonp_run ''jq_'' (\<lambda>n. n = ''url'') [Install None, Install (Some ''mine''), Respond ''mine'' 3, Clean 0, Install None, Clean 0] ([], no_jsonp)
   of (rs, s') \<Rightarrow> distinct (map jr_name rs @ oldCallbacks s') \<and> map jr_name rs = [''jq_5''] \<and> page_calls s' = [(7, 3)] \<and>
    globals s' ''mine'' = Function 7"
proof -
  let ?ops = "[Install None, Install (Some ''mine''), Respond ''mine'' 3, Clean 0, Install None, Clean 0]"
  let ?r = "jsonp_run ''jq_'' (\<lambda>n. n = ''url'') ?ops ([], no_jsonp)"
  obtain rs s' where r: "?r = (rs, s')" by (cases ?r)
  have "map jr_name (fst ?r) = [''jq_5''] \<and> page_calls (snd ?r) = [(7, 3)]" by code_simp
  moreover have "own_names ''jq_'' (\<lambda>n. n = ''url'') ?ops ([], no_jsonp)" by code_simp
  from jsonp_names_apart [OF _ this] have "distinct (map jr_name rs @ oldCallbacks s') \<and>
    (\<forall>n. n \<notin> jr_name ` set rs \<longrightarrow> globals s' n = globals no_jsonp n)" unfolding r by (simp add: no_jsonp_def)
  moreover have "globals no_jsonp ''mine'' = Function 7" by (simp add: no_jsonp_def)
  moreover have "jr_name ` set rs = set (map jr_name rs)" by simp
  ultimately show ?thesis unfolding r by simp
qed

section \<open>Findings\<close>

text \<open>With \<open>cache: false\<close> the first parameter goes together with its question mark when it is the old \<open>_\<close>.\<close>

lemma old_parameter_takes_mark:
  "request_url \<lparr>u_type = ''GET'', u_url = ''/a?_=1&b=2'', u_data = '''', u_processData = True, u_no_cache = True,
     u_contentType = ''''\<rparr> 7 = (''/a&b=2?_=7'', '''', ''/a&b=2'', 8)"
  by code_simp

text \<open>A header with the name of an inherited property is sent under the text of a function.\<close>

lemma inherited_header: "sent (setRequestHeader True ''constructor'' ''v'' no_headers) = [(Native ''constructor'', ''v'')]"
  by code_simp

lemma inherited_response_header: "getResponseHeader True '''' ''constructor'' = Inherited"
  by code_simp

text \<open>
  Two requests at once with one name of their own: when the first is settled the callback of the second is gone, and when
  the second is settled the callback of the first is put back, to stay.
\<close>

lemma same_name_left:
  "(case jsonp_run ''jq_'' (\<lambda>n. False) [Install (Some ''cb''), Install (Some ''cb''), Clean 0] ([], no_jsonp) of
      (rs, s) \<Rightarrow> globals s ''cb'' = Nothing \<and> length rs = 1) \<and>
   (case jsonp_run ''jq_'' (\<lambda>n. False) [Install (Some ''cb''), Install (Some ''cb''), Clean 0, Clean 0] ([], no_jsonp) of
      (rs, s) \<Rightarrow> globals s ''cb'' = Callback 0 \<and> rs = [])"
  by code_simp

text \<open>A name of its own that is the name of a setting is given to later requests.\<close>

lemma setting_name_reused:
  "(case jsonp_run ''jq_'' (\<lambda>n. n = ''url'') [Install (Some ''url''), Clean 0, Install None] ([], no_jsonp) of
      (rs, s) \<Rightarrow> map jr_name rs = [''url''])"
  by code_simp

end
