(* ===== verification/J_Traverse.thy ===== *)
theory J_Traverse
  imports J_Select J_Order
begin

text \<open>
  The sets of nodes of \<open>jquery-3.1.0.js\<close> and the walks over the document: \<open>winnow\<close> with \<open>filter\<close>, \<open>not\<close> and \<open>is\<close>,
  \<open>find\<close>, \<open>has\<close>, \<open>closest\<close>, \<open>index\<close>, \<open>add\<close>, and the methods from \<open>parent\<close> to \<open>contents\<close> with their filter, their
  removal of duplicates and their order.
\<close>

section \<open>Sets of nodes\<close>

text \<open>
  The selector engine as these methods call it: \<open>jQuery.find\<close> below a node, \<open>jQuery.find.matches\<close>,
  \<open>jQuery.find.matchesSelector\<close>, and \<open>jQuery\<close> of a string that is not markup. \<open>contentDocument\<close> belongs to the host.
\<close>

record engine =
  find_in :: "string \<Rightarrow> nat \<Rightarrow> nat list"
  find_matches :: "string \<Rightarrow> nat list \<Rightarrow> nat list"
  matchesSelector :: "nat \<Rightarrow> string \<Rightarrow> bool"
  query :: "string \<Rightarrow> nat list"
  contentDocument :: "nat \<Rightarrow> nat option"
  source_index :: "nat \<Rightarrow> int option"
  detects_duplicates :: bool

text \<open>A jQuery object: its nodes, and those of the objects before it, \<open>prevObject\<close> first.\<close>

record jq =
  nodes :: "nat list"
  stack :: "nat list list"

definition pushStack :: "jq \<Rightarrow> nat list \<Rightarrow> jq" where
  "pushStack this elems = \<lparr>nodes = elems, stack = nodes this # stack this\<rparr>"

definition jq_end :: "jq \<Rightarrow> jq" where
  "jq_end this = (case stack this of [] \<Rightarrow> \<lparr>nodes = [], stack = []\<rparr> | ns # st \<Rightarrow> \<lparr>nodes = ns, stack = st\<rparr>)"

definition jq_get :: "jq \<Rightarrow> int \<Rightarrow> nat option" where
  "jq_get this num =
     (let i = (if num < 0 then num + int (length (nodes this)) else num)
      in if 0 \<le> i \<and> i < int (length (nodes this)) then Some (nodes this ! nat i) else None)"

definition eq :: "jq \<Rightarrow> int \<Rightarrow> jq" where
  "eq this i =
     (let len = int (length (nodes this)); j = i + (if i < 0 then len else 0)
      in pushStack this (if 0 \<le> j \<and> j < len then [nodes this ! nat j] else []))"

definition jq_first :: "jq \<Rightarrow> jq" where
  "jq_first this = eq this 0"

definition jq_last :: "jq \<Rightarrow> jq" where
  "jq_last this = eq this (-1)"

text \<open>\<open>merge\<close>, \<open>grep\<close>, \<open>inArray\<close> and \<open>map\<close> of lists; a callback of \<open>map\<close> gives the values to add, none for null.\<close>

definition merge :: "'a list \<Rightarrow> 'a list \<Rightarrow> 'a list" where
  "merge first second = first @ second"

fun grep_from :: "nat \<Rightarrow> 'a list \<Rightarrow> ('a \<Rightarrow> nat \<Rightarrow> bool) \<Rightarrow> bool \<Rightarrow> 'a list" where
  "grep_from i [] callback invert = []"
| "grep_from i (x # xs) callback invert =
     (let callbackInverse = \<not> callback x i; callbackExpect = \<not> invert
      in if callbackInverse \<noteq> callbackExpect then x # grep_from (Suc i) xs callback invert
         else grep_from (Suc i) xs callback invert)"

definition grep :: "'a list \<Rightarrow> ('a \<Rightarrow> nat \<Rightarrow> bool) \<Rightarrow> bool \<Rightarrow> 'a list" where
  "grep elems callback invert = grep_from 0 elems callback invert"

fun index_from :: "nat \<Rightarrow> nat list \<Rightarrow> nat \<Rightarrow> int" where
  "index_from i [] e = -1"
| "index_from i (x # xs) e = (if x = e then int i else index_from (Suc i) xs e)"

definition inArray :: "nat \<Rightarrow> nat list \<Rightarrow> int" where
  "inArray e xs = index_from 0 xs e"

definition map_flat :: "'a list \<Rightarrow> ('a \<Rightarrow> 'b list) \<Rightarrow> 'b list" where
  "map_flat elems callback = concat (map callback elems)"

section \<open>winnow\<close>

text \<open>What a method is given: a function of the element and its place, a node, a string, or a set of nodes.\<close>

datatype qualifier = Predicate "nat \<Rightarrow> nat \<Rightarrow> bool" | Node nat | Selector string | Nodes "nat list"

definition risSimple :: "string \<Rightarrow> bool" where
  "risSimple s \<longleftrightarrow> s \<noteq> [] \<and> code (hd s) \<noteq> 10 \<and> code (hd s) \<noteq> 13 \<and> (\<forall>c\<in>set (tl s). c \<notin> set '':#[.,'')"

definition jq_filter :: "dom \<Rightarrow> engine \<Rightarrow> string \<Rightarrow> nat list \<Rightarrow> bool \<Rightarrow> nat list" where
  "jq_filter d en expr elems no =
     (let expr = (if no then '':not('' @ expr @ '')'' else expr)
      in case elems of
           [e] \<Rightarrow> if is_element d e then (if matchesSelector en e expr then [e] else [])
                  else find_matches en expr (grep elems (\<lambda>e i. is_element d e) False)
         | _ \<Rightarrow> find_matches en expr (grep elems (\<lambda>e i. is_element d e) False))"

definition in_set :: "dom \<Rightarrow> nat list \<Rightarrow> nat list \<Rightarrow> bool \<Rightarrow> nat list" where
  "in_set d qualifier elements no =
     grep elements (\<lambda>e i. (-1 < inArray e qualifier) \<noteq> no \<and> is_element d e) False"

definition winnow :: "dom \<Rightarrow> engine \<Rightarrow> nat list \<Rightarrow> qualifier \<Rightarrow> bool \<Rightarrow> nat list" where
  "winnow d en elements q no =
     (case q of
        Predicate f \<Rightarrow> grep elements (\<lambda>e i. f i e \<noteq> no) False
      | Node n \<Rightarrow> grep elements (\<lambda>e i. (e = n) \<noteq> no) False
      | Selector s \<Rightarrow>
          if risSimple s then jq_filter d en s elements no
          else in_set d (jq_filter d en s elements False) elements no
      | Nodes ns \<Rightarrow> in_set d ns elements no)"

text \<open>Without an argument, or with an empty string, the set is empty.\<close>

definition or_none :: "qualifier option \<Rightarrow> qualifier" where
  "or_none q = (case q of None \<Rightarrow> Nodes [] | Some q \<Rightarrow> if q = Selector '''' then Nodes [] else q)"

definition filter_set :: "dom \<Rightarrow> engine \<Rightarrow> jq \<Rightarrow> qualifier option \<Rightarrow> jq" where
  "filter_set d en this q = pushStack this (winnow d en (nodes this) (or_none q) False)"

definition not_set :: "dom \<Rightarrow> engine \<Rightarrow> jq \<Rightarrow> qualifier option \<Rightarrow> jq" where
  "not_set d en this q = pushStack this (winnow d en (nodes this) (or_none q) True)"

definition is_set :: "dom \<Rightarrow> engine \<Rightarrow> nat list \<Rightarrow> qualifier option \<Rightarrow> bool" where
  "is_set d en this q =
     (winnow d en this
        (case q of
           Some (Selector s) \<Rightarrow> if test needsContext s then Nodes (query en s) else or_none q
         | _ \<Rightarrow> or_none q) False \<noteq> [])"

section \<open>Searches from a set\<close>

text \<open>What a selector or a set of nodes stands for, \<open>jQuery( selector )\<close>; a function is none of them.\<close>

datatype target = Of_selector string | Of_nodes "nat list"

definition nodes_of :: "engine \<Rightarrow> target \<Rightarrow> nat list" where
  "nodes_of en t = (case t of Of_selector s \<Rightarrow> query en s | Of_nodes ns \<Rightarrow> ns)"

definition contained :: "dom \<Rightarrow> nat \<Rightarrow> nat \<Rightarrow> bool" where
  "contained d a b \<longleftrightarrow> a \<in> set (path d Up b)"

definition find_set :: "dom \<Rightarrow> engine \<Rightarrow> jq \<Rightarrow> target \<Rightarrow> jq" where
  "find_set d en this t =
     (case t of
        Of_nodes ns \<Rightarrow> pushStack this (winnow d en ns (Predicate (\<lambda>i e. \<exists>a\<in>set (nodes this). contained d a e)) False)
      | Of_selector s \<Rightarrow>
          (let ret = foldl (\<lambda>ret a. merge ret (find_in en s a)) [] (nodes this)
           in pushStack this
                (if 1 < length (nodes this) then uniqueSort d (source_index en) (detects_duplicates en) ret else ret)))"

text \<open>\<open>jQuery( target, this )\<close> searches a string in the set.\<close>

definition has_set :: "dom \<Rightarrow> engine \<Rightarrow> jq \<Rightarrow> target \<Rightarrow> jq" where
  "has_set d en this t =
     (let targets = (case t of Of_selector s \<Rightarrow> nodes (find_set d en this t) | Of_nodes ns \<Rightarrow> ns)
      in filter_set d en this (Some (Predicate (\<lambda>i e. \<exists>b\<in>set targets. contained d e b))))"

definition node_type :: "dom \<Rightarrow> nat \<Rightarrow> nat" where
  "node_type d i = (if i < length d then node_type_of (d ! i) else 0)"

text \<open>The loop of \<open>closest\<close> from the node \<open>cur\<close>.\<close>

function closest_from :: "dom \<Rightarrow> engine \<Rightarrow> target \<Rightarrow> nat option \<Rightarrow> nat \<Rightarrow> nat option" where
  "closest_from d en t context cur =
     (if Some cur = context then None
      else if node_type d cur < 11 \<and>
        (case t of
           Of_nodes ns \<Rightarrow> -1 < inArray cur ns
         | Of_selector s \<Rightarrow> node_type d cur = 1 \<and> matchesSelector en cur s)
      then Some cur
      else (case parentNode d cur of None \<Rightarrow> None | Some p \<Rightarrow> closest_from d en t context p))"
  by pat_completeness auto
termination
  by (relation "measure (\<lambda>(d, en, t, context, cur). cur)") (auto dest: parent_less)

declare closest_from.simps [simp del]

definition closest :: "dom \<Rightarrow> engine \<Rightarrow> jq \<Rightarrow> target \<Rightarrow> nat option \<Rightarrow> jq" where
  "closest d en this t context =
     (let positional = (case t of Of_selector s \<Rightarrow> test needsContext s | Of_nodes ns \<Rightarrow> False);
          matched = (if positional then []
                     else List.map_filter (closest_from d en t context) (nodes this))
      in pushStack this
           (if 1 < length matched then uniqueSort d (source_index en) (detects_duplicates en) matched else matched))"

definition add_set :: "dom \<Rightarrow> engine \<Rightarrow> jq \<Rightarrow> nat list \<Rightarrow> jq" where
  "add_set d en this others =
     pushStack this (uniqueSort d (source_index en) (detects_duplicates en) (merge (nodes this) others))"

definition addBack :: "dom \<Rightarrow> engine \<Rightarrow> jq \<Rightarrow> qualifier option \<Rightarrow> jq" where
  "addBack d en this q =
     add_set d en this
       (case q of
          None \<Rightarrow> nodes (jq_end this)
        | Some _ \<Rightarrow> nodes (filter_set d en (jq_end this) q))"

section \<open>Walks of the document\<close>

datatype move = To_parent | To_next | To_previous

definition step_to :: "dom \<Rightarrow> move \<Rightarrow> nat \<Rightarrow> nat option" where
  "step_to d m i =
     (case m of To_parent \<Rightarrow> parentNode d i | To_next \<Rightarrow> nextSibling d i | To_previous \<Rightarrow> previousSibling d i)"

definition steps_left :: "dom \<Rightarrow> move \<Rightarrow> nat \<Rightarrow> nat" where
  "steps_left d m i = (case m of To_next \<Rightarrow> length d - i | _ \<Rightarrow> i)"

lemma step_to_left: "step_to d m i = Some j \<Longrightarrow> steps_left d m j < steps_left d m i"
  by (cases m) (auto simp: step_to_def steps_left_def previousSibling_def nextSibling_Some find_rev_less dest: parent_less)

text \<open>\<open>dir\<close>; \<open>until\<close> is what \<open>is\<close> tests, if anything.\<close>

function dir_walk :: "dom \<Rightarrow> engine \<Rightarrow> nat \<Rightarrow> move \<Rightarrow> qualifier option \<Rightarrow> nat list" where
  "dir_walk d en e m until =
     (case step_to d m e of
        None \<Rightarrow> []
      | Some a \<Rightarrow>
          if node_type d a = 9 then []
          else if node_type d a = 1 then
            (if until \<noteq> None \<and> is_set d en [a] until then [] else a # dir_walk d en a m until)
          else dir_walk d en a m until)"
  by pat_completeness auto
termination
  by (relation "measure (\<lambda>(d, en, e, m, until). steps_left d m e)") (auto dest: step_to_left)

declare dir_walk.simps [simp del]

text \<open>\<open>siblings\<close>, from the node \<open>n\<close> on, and \<open>sibling\<close>.\<close>

function siblings_from :: "dom \<Rightarrow> nat option \<Rightarrow> nat option \<Rightarrow> nat list" where
  "siblings_from d None e = []"
| "siblings_from d (Some n) e =
     (if node_type d n = 1 \<and> Some n \<noteq> e then n # siblings_from d (nextSibling d n) e
      else siblings_from d (nextSibling d n) e)"
  by pat_completeness auto
termination
  by (relation "measure (\<lambda>(d, n, e). case n of None \<Rightarrow> 0 | Some n \<Rightarrow> Suc (length d - n))")
    (auto simp: nextSibling_def find_Some_iff split: option.splits)

function sibling :: "dom \<Rightarrow> nat \<Rightarrow> move \<Rightarrow> nat option" where
  "sibling d cur m =
     (case step_to d m cur of
        None \<Rightarrow> None
      | Some a \<Rightarrow> if node_type d a = 1 then Some a else sibling d a m)"
  by pat_completeness auto
termination by (relation "measure (\<lambda>(d, cur, m). steps_left d m cur)") (auto dest: step_to_left)

declare sibling.simps [simp del]

definition firstChild :: "dom \<Rightarrow> nat \<Rightarrow> nat option" where
  "firstChild d e = (case childNodes d e of [] \<Rightarrow> None | c # cs \<Rightarrow> Some c)"

text \<open>The table of the methods: what each finds for a node.\<close>

datatype traversal = Parent | Parents | ParentsUntil | Next | Prev | NextAll | PrevAll | NextUntil | PrevUntil
  | Siblings | Children | Contents

definition found :: "dom \<Rightarrow> engine \<Rightarrow> traversal \<Rightarrow> qualifier option \<Rightarrow> nat \<Rightarrow> nat list" where
  "found d en name until e =
     (case name of
        Parent \<Rightarrow> (case parentNode d e of Some p \<Rightarrow> if node_type d p \<noteq> 11 then [p] else [] | None \<Rightarrow> [])
      | Parents \<Rightarrow> dir_walk d en e To_parent None
      | ParentsUntil \<Rightarrow> dir_walk d en e To_parent until
      | Next \<Rightarrow> (case sibling d e To_next of Some a \<Rightarrow> [a] | None \<Rightarrow> [])
      | Prev \<Rightarrow> (case sibling d e To_previous of Some a \<Rightarrow> [a] | None \<Rightarrow> [])
      | NextAll \<Rightarrow> dir_walk d en e To_next None
      | PrevAll \<Rightarrow> dir_walk d en e To_previous None
      | NextUntil \<Rightarrow> dir_walk d en e To_next until
      | PrevUntil \<Rightarrow> dir_walk d en e To_previous until
      | Siblings \<Rightarrow> (case parentNode d e of Some p \<Rightarrow> siblings_from d (firstChild d p) (Some e) | None \<Rightarrow> [])
      | Children \<Rightarrow> siblings_from d (firstChild d e) None
      | Contents \<Rightarrow> (case contentDocument en e of Some c \<Rightarrow> [c] | None \<Rightarrow> childNodes d e))"

definition guaranteedUnique :: "traversal \<Rightarrow> bool" where
  "guaranteedUnique name \<longleftrightarrow> name \<in> {Children, Contents, Next, Prev}"

definition rparentsprev :: "traversal \<Rightarrow> bool" where
  "rparentsprev name \<longleftrightarrow> name \<in> {Parents, ParentsUntil, PrevUntil, PrevAll}"

definition is_until :: "traversal \<Rightarrow> bool" where
  "is_until name \<longleftrightarrow> name \<in> {ParentsUntil, NextUntil, PrevUntil}"

text \<open>A method of the table, with its arguments \<open>until\<close> and \<open>selector\<close>.\<close>

definition traverse :: "dom \<Rightarrow> engine \<Rightarrow> traversal \<Rightarrow> jq \<Rightarrow> qualifier option \<Rightarrow> qualifier option \<Rightarrow> jq" where
  "traverse d en name this until selector =
     (let matched = map_flat (nodes this) (found d en name until);
          selector = (if is_until name then selector else until);
          matched = (case selector of
             Some (Selector s) \<Rightarrow> if s \<noteq> '''' then jq_filter d en s matched False else matched
           | _ \<Rightarrow> matched);
          unique = (if 1 < length (nodes this) \<and> \<not> guaranteedUnique name
                    then uniqueSort d (source_index en) (detects_duplicates en) matched else matched)
      in pushStack this (if 1 < length (nodes this) \<and> rparentsprev name then rev unique else unique))"

text \<open>\<open>index\<close> without an argument, of a selector, and of a node.\<close>

definition index_in_parent :: "dom \<Rightarrow> engine \<Rightarrow> jq \<Rightarrow> int" where
  "index_in_parent d en this =
     (case nodes this of
        [] \<Rightarrow> -1
      | e # es \<Rightarrow>
          if parentNode d e = None then -1
          else int (length (nodes (traverse d en PrevAll (jq_first this) None None))))"

definition index_of_selector :: "engine \<Rightarrow> jq \<Rightarrow> string \<Rightarrow> int" where
  "index_of_selector en this s = (case nodes this of [] \<Rightarrow> -1 | e # es \<Rightarrow> inArray e (query en s))"

definition index_of_node :: "jq \<Rightarrow> nat \<Rightarrow> int" where
  "index_of_node this e = inArray e (nodes this)"


section \<open>What the methods find\<close>

text \<open>The relation of a method between a node and what it finds, \<open>until\<close> being what ends a walk.\<close>

definition stops :: "dom \<Rightarrow> engine \<Rightarrow> qualifier option \<Rightarrow> nat \<Rightarrow> bool" where
  "stops d en until b \<longleftrightarrow> until \<noteq> None \<and> is_set d en [b] until"

definition until_of :: "traversal \<Rightarrow> qualifier option \<Rightarrow> qualifier option" where
  "until_of name until = (if is_until name then until else None)"

definition walked :: "dom \<Rightarrow> move \<Rightarrow> nat \<Rightarrow> nat \<Rightarrow> bool" where
  "walked d m e x \<longleftrightarrow>
     (case m of To_parent \<Rightarrow> contained d x e | To_next \<Rightarrow> siblings d e x \<and> e < x \<and> x < length d
      | To_previous \<Rightarrow> siblings d e x \<and> x < e)"

definition nearer :: "move \<Rightarrow> nat \<Rightarrow> nat \<Rightarrow> bool" where
  "nearer m b x \<longleftrightarrow> (case m of To_next \<Rightarrow> b < x | _ \<Rightarrow> x < b)"

text \<open>All elements on a walk before one that stops it, or the first.\<close>

definition all_walked :: "dom \<Rightarrow> engine \<Rightarrow> move \<Rightarrow> qualifier option \<Rightarrow> nat \<Rightarrow> nat \<Rightarrow> bool" where
  "all_walked d en m until e x \<longleftrightarrow> walked d m e x \<and> is_element d x \<and>
     (\<forall>b. walked d m e b \<and> is_element d b \<and> (b = x \<or> nearer m b x) \<longrightarrow> \<not> stops d en until b)"

definition first_walked :: "dom \<Rightarrow> move \<Rightarrow> nat \<Rightarrow> nat \<Rightarrow> bool" where
  "first_walked d m e x \<longleftrightarrow> walked d m e x \<and> is_element d x \<and>
     (\<forall>b. walked d m e b \<and> is_element d b \<longrightarrow> \<not> nearer m b x)"

definition related :: "dom \<Rightarrow> engine \<Rightarrow> traversal \<Rightarrow> qualifier option \<Rightarrow> nat \<Rightarrow> nat \<Rightarrow> bool" where
  "related d en name until e x \<longleftrightarrow>
     (case name of
        Parent \<Rightarrow> parentNode d e = Some x \<and> node_type d x \<noteq> 11
      | Next \<Rightarrow> first_walked d To_next e x
      | Prev \<Rightarrow> first_walked d To_previous e x
      | Parents \<Rightarrow> all_walked d en To_parent None e x
      | NextAll \<Rightarrow> all_walked d en To_next None e x
      | PrevAll \<Rightarrow> all_walked d en To_previous None e x
      | ParentsUntil \<Rightarrow> all_walked d en To_parent until e x
      | NextUntil \<Rightarrow> all_walked d en To_next until e x
      | PrevUntil \<Rightarrow> all_walked d en To_previous until e x
      | Siblings \<Rightarrow> siblings d e x \<and> x \<noteq> e \<and> is_element d x
      | Children \<Rightarrow> parentNode d x = Some e \<and> is_element d x
      | Contents \<Rightarrow> parentNode d x = Some e)"

section \<open>Walks as lists\<close>

function walk_list :: "dom \<Rightarrow> move \<Rightarrow> nat \<Rightarrow> nat list" where
  "walk_list d m e = (case step_to d m e of None \<Rightarrow> [] | Some a \<Rightarrow> a # walk_list d m a)"
  by pat_completeness auto
termination by (relation "measure (\<lambda>(d, m, e). steps_left d m e)") (auto dest: step_to_left)

declare walk_list.simps [simp del]

lemma walk_None: "step_to d m e = None \<Longrightarrow> walk_list d m e = []"
  by (simp add: walk_list.simps)

lemma walk_Some: "step_to d m e = Some a \<Longrightarrow> walk_list d m e = a # walk_list d m a"
  by (simp add: walk_list.simps [of d m e])

lemma node_type_1: "node_type d a = 1 \<longleftrightarrow> is_element d a" "node_type d a = Suc 0 \<longleftrightarrow> is_element d a"
  by (simp_all add: node_type_def is_element_def)

lemma previousSibling_Some:
  "previousSibling d a = Some n \<longleftrightarrow> siblings d a n \<and> n < a \<and> (\<forall>j. n < j \<longrightarrow> j < a \<longrightarrow> \<not> siblings d a j)"
proof
  assume "previousSibling d a = Some n"
  then obtain i where i: "i < a" "siblings d a (rev [0..<a] ! i)" "n = rev [0..<a] ! i" "\<forall>j<i. \<not> siblings d a (rev [0..<a] ! j)"
    by (auto simp: previousSibling_def find_Some_iff)
  then have n: "n = a - Suc i" by (simp add: rev_nth)
  have "\<not> siblings d a j" if "n < j" "j < a" for j
  proof -
    have "a - Suc j < i" "rev [0..<a] ! (a - Suc j) = j" using that n i(1) by (auto simp: rev_nth)
    with i(4) show ?thesis by metis
  qed
  with i n show "siblings d a n \<and> n < a \<and> (\<forall>j. n < j \<longrightarrow> j < a \<longrightarrow> \<not> siblings d a j)" by auto
next
  assume n: "siblings d a n \<and> n < a \<and> (\<forall>j. n < j \<longrightarrow> j < a \<longrightarrow> \<not> siblings d a j)"
  then have "a - Suc n < length (rev [0..<a])" "rev [0..<a] ! (a - Suc n) = n" by (simp_all add: rev_nth)
  moreover have "\<not> siblings d a (rev [0..<a] ! j)" if "j < a - Suc n" for j
    using n that by (simp add: rev_nth)
  ultimately show "previousSibling d a = Some n"
    using n unfolding previousSibling_def find_Some_iff by (intro exI [of _ "a - Suc n"]) auto
qed

lemma previousSibling_None: "previousSibling d a = None \<longleftrightarrow> (\<forall>j<a. \<not> siblings d a j)"
  by (auto simp: previousSibling_def find_None_iff)

lemma walk_set: "set (walk_list d m e) = {x. walked d m e x}"
proof (induction d m e rule: walk_list.induct)
  case (1 d m e)
  show ?case
  proof (cases "step_to d m e")
    case None
    have "\<not> walked d m e x" for x
    proof (cases m)
      case To_parent
      with None have "path d Up e = []" by (intro path_None) (simp add: step_to_def go_def)
      with To_parent show ?thesis by (simp add: walked_def contained_def)
    next
      case To_next
      with None show ?thesis by (auto simp: step_to_def nextSibling_None walked_def)
    next
      case To_previous
      with None show ?thesis by (auto simp: step_to_def previousSibling_None walked_def)
    qed
    then show ?thesis by (simp add: walk_None [OF None])
  next
    case (Some a)
    have "x = a \<or> walked d m a x \<longleftrightarrow> walked d m e x" for x
    proof (cases m)
      case To_parent
      with Some have "path d Up e = a # path d Up a" by (intro path_Some) (simp add: step_to_def go_def)
      with To_parent show ?thesis by (simp add: walked_def contained_def)
    next
      case To_next
      with Some have a: "siblings d e a" "e < a" "a < length d" "\<And>j. e < j \<Longrightarrow> j < a \<Longrightarrow> \<not> siblings d e j"
        by (auto simp: step_to_def nextSibling_Some)
      have "siblings d a x \<longleftrightarrow> siblings d e x" by (rule siblings_trans [OF a(1)])
      moreover have "x < a \<or> x = a \<or> a < x" by auto
      ultimately show ?thesis using a(1-3) a(4) [of x] To_next by (auto simp: walked_def)
    next
      case To_previous
      with Some have a: "siblings d e a" "a < e" "\<And>j. a < j \<Longrightarrow> j < e \<Longrightarrow> \<not> siblings d e j"
        by (auto simp: step_to_def previousSibling_Some)
      have "siblings d a x \<longleftrightarrow> siblings d e x" by (rule siblings_trans [OF a(1)])
      moreover have "x < a \<or> x = a \<or> a < x" by auto
      ultimately show ?thesis using a(1,2) a(3) [of x] To_previous by (auto simp: walked_def)
    qed
    with 1 Some show ?thesis by (auto simp: walk_Some)
  qed
qed

lemma walk_beyond: "x \<in> set (walk_list d m e) \<Longrightarrow> nearer m e x"
  unfolding walk_set using path_reaches tree.reaches_less
  by (cases m) (auto simp: walked_def nearer_def contained_def)

lemma walk_sorted: "sorted_wrt (nearer m) (walk_list d m e)"
proof (induction d m e rule: walk_list.induct)
  case (1 d m e)
  then show ?case by (cases "step_to d m e") (auto simp: walk_None walk_Some dest: walk_beyond)
qed

lemma nearer_asym: "nearer m a b \<Longrightarrow> \<not> nearer m b a"
  by (cases m) (auto simp: nearer_def)

lemma sorted_nearer_distinct: "sorted_wrt (nearer m) xs \<Longrightarrow> distinct xs"
  by (induction xs) (auto dest: nearer_asym)

lemma takeWhile_sorted:
  "sorted_wrt (nearer m) xs \<Longrightarrow>
   x \<in> set (takeWhile P xs) \<longleftrightarrow> x \<in> set xs \<and> (\<forall>b\<in>set xs. b = x \<or> nearer m b x \<longrightarrow> P b)"
  by (induction xs) (auto dest: nearer_asym)

lemma sorted_wrt_takeWhile: "sorted_wrt r xs \<Longrightarrow> sorted_wrt r (takeWhile P xs)"
  by (induction xs) (auto dest: set_takeWhileD)

text \<open>A document node has no parent, so a walk that comes to it ends there.\<close>

definition roots_ok :: "dom \<Rightarrow> bool" where
  "roots_ok d \<longleftrightarrow> (\<forall>i. node_type d i = 9 \<longrightarrow> parentNode d i = None)"

lemma root_stuck: "roots_ok d \<Longrightarrow> node_type d a = 9 \<Longrightarrow> step_to d m a = None"
  by (cases m) (auto simp: roots_ok_def step_to_def nextSibling_None previousSibling_None siblings_def)

lemma dir_walk_list:
  assumes "roots_ok d"
  shows "dir_walk d en e m until = takeWhile (\<lambda>a. \<not> stops d en until a) (filter (is_element d) (walk_list d m e))"
  using assms
proof (induction d en e m until rule: dir_walk.induct)
  case (1 d en e m until)
  show ?case
  proof (cases "step_to d m e")
    case None
    then show ?thesis by (simp add: walk_None dir_walk.simps)
  next
    case (Some a)
    show ?thesis
    proof (cases "node_type d a = 9")
      case True
      have "walk_list d m a = []" using root_stuck [OF 1(3) True] by (rule walk_None)
      moreover have "\<not> is_element d a" using True by (simp add: node_type_1(1) [symmetric])
      ultimately show ?thesis using Some True by (simp add: walk_Some dir_walk.simps [of d en e])
    next
      case False
      with 1 Some show ?thesis
        by (cases until) (simp_all add: walk_Some dir_walk.simps [of d en e] node_type_1 stops_def)
    qed
  qed
qed


lemma dir_walk_ok:
  assumes "roots_ok d"
  shows "set (dir_walk d en e m until) = {x. all_walked d en m until e x}" "distinct (dir_walk d en e m until)"
proof -
  have s: "sorted_wrt (nearer m) (filter (is_element d) (walk_list d m e))"
    using walk_sorted by (rule sorted_wrt_filter)
  show "set (dir_walk d en e m until) = {x. all_walked d en m until e x}"
    unfolding dir_walk_list [OF assms] using takeWhile_sorted [OF s] walk_set [of d m e] by (auto simp: all_walked_def)
  show "distinct (dir_walk d en e m until)"
    unfolding dir_walk_list [OF assms] using s by (intro sorted_nearer_distinct sorted_wrt_takeWhile)
qed

lemma sibling_list:
  "sibling d e m = (case filter (is_element d) (walk_list d m e) of [] \<Rightarrow> None | a # as \<Rightarrow> Some a)"
proof (induction d e m rule: sibling.induct)
  case (1 d e m)
  then show ?case
    by (cases "step_to d m e") (simp_all add: walk_None walk_Some sibling.simps [of d e] node_type_1)
qed

lemma sibling_ok: "sibling d e m = Some x \<longleftrightarrow> first_walked d m e x"
proof -
  let ?w = "filter (is_element d) (walk_list d m e)"
  have s: "sorted_wrt (nearer m) ?w" using walk_sorted by (rule sorted_wrt_filter)
  have mem: "b \<in> set ?w \<longleftrightarrow> walked d m e b \<and> is_element d b" for b using walk_set [of d m e] by auto
  show ?thesis
  proof (cases ?w)
    case Nil
    with mem show ?thesis by (auto simp: sibling_list first_walked_def)
  next
    case (Cons a as)
    then have first: "nearer m a b" if "b \<in> set as" for b using s that by simp
    have "first_walked d m e x \<longleftrightarrow> x \<in> set ?w \<and> (\<forall>b\<in>set ?w. \<not> nearer m b x)"
      unfolding first_walked_def using mem by blast
    also have "\<dots> \<longleftrightarrow> x = a" using Cons first nearer_asym [of m] by auto
    finally show ?thesis using Cons by (auto simp: sibling_list)
  qed
qed

declare siblings_from.simps [simp del]

lemma siblings_from_list:
  "siblings_from d (Some n) e = filter (\<lambda>x. is_element d x \<and> Some x \<noteq> e) (n # walk_list d To_next n)"
proof (induction "length d - n" arbitrary: n rule: less_induct)
  case less
  show ?case
  proof (cases "nextSibling d n")
    case None
    then show ?thesis
      by (simp add: node_type_1 walk_None step_to_def siblings_from.simps(1) siblings_from.simps(2) [of d n])
  next
    case (Some a)
    then have "length d - a < length d - n" by (auto simp: nextSibling_Some)
    from less [OF this] Some show ?thesis
      by (simp add: node_type_1 walk_Some [of d To_next n a] step_to_def siblings_from.simps(2) [of d n])
  qed
qed

lemma childNodes_set: "x \<in> set (childNodes d p) \<longleftrightarrow> parentNode d x = Some p"
  by (auto simp: childNodes_def parentNode_def split: if_splits)

lemma first_child_walk:
  assumes "childNodes d p = c # cs"
  shows "set (c # walk_list d To_next c) = {x. parentNode d x = Some p}"
proof -
  have "sorted (childNodes d p)" by (simp add: childNodes_def sorted_wrt_filter sorted_upt)
  then have le: "\<forall>x\<in>set (childNodes d p). c \<le> x" by (simp add: assms)
  have c: "parentNode d c = Some p" using assms childNodes_set [of c d p] by simp
  have "x = c \<or> walked d To_next c x \<longleftrightarrow> parentNode d x = Some p" for x
  proof
    assume "parentNode d x = Some p"
    moreover from this have "c \<le> x" using le by (simp add: childNodes_set)
    moreover have "x < length d" using \<open>parentNode d x = Some p\<close> by (auto simp: parentNode_def split: if_splits)
    ultimately show "x = c \<or> walked d To_next c x" using c by (auto simp: walked_def siblings_def)
  qed (use c in \<open>auto simp: walked_def siblings_def\<close>)
  then show ?thesis by (auto simp: walk_set)
qed

lemma siblings_from_ok:
  "set (siblings_from d (firstChild d p) e) = {x. parentNode d x = Some p \<and> is_element d x \<and> Some x \<noteq> e} \<and>
   distinct (siblings_from d (firstChild d p) e)"
proof (cases "childNodes d p")
  case Nil
  then show ?thesis using childNodes_set [of _ d p] by (auto simp: firstChild_def siblings_from.simps)
next
  case (Cons c cs)
  have "sorted_wrt (nearer To_next) (c # walk_list d To_next c)" using walk_sorted walk_beyond by simp
  then have "distinct (c # walk_list d To_next c)" by (rule sorted_nearer_distinct)
  then show ?thesis using first_child_walk [OF Cons] by (auto simp: firstChild_def Cons siblings_from_list)
qed

lemma found_ok:
  assumes "roots_ok d" "contentDocument en = (\<lambda>_. None)"
  shows "set (found d en name until e) = {x. related d en name until e x} \<and> distinct (found d en name until e)"
proof (cases name)
  case Siblings
  then show ?thesis using siblings_from_ok [of d _ "Some e"]
    by (auto simp: found_def related_def siblings_def split: option.splits)
next
  case Contents
  then show ?thesis using childNodes_set [of _ d e] assms(2) by (auto simp: found_def related_def childNodes_def)
qed (use dir_walk_ok [OF assms(1)] siblings_from_ok [of d e None] in
  \<open>auto simp: found_def related_def sibling_ok [symmetric] split: option.splits\<close>)


section \<open>Order and duplicates\<close>

lemma related_in_doc:
  assumes "in_doc d e" "related d en name until e x"
  shows "in_doc d x"
proof -
  have up: "in_doc d p" if "parentNode d a = Some p" "in_doc d a" for a p
    using that parent_less [OF that(1)] by (simp add: in_doc_def ancestors_parent [OF that(1)])
  have down: "in_doc d a" if "parentNode d a = Some p" "in_doc d p" for a p
    using that by (auto simp: in_doc_def ancestors_parent [OF that(1)] parentNode_def split: if_splits)
  have "a \<in> set (path d Up b) \<Longrightarrow> in_doc d b \<Longrightarrow> in_doc d a" for a b
  proof (induction b rule: less_induct)
    case (less b)
    show ?case
    proof (cases "parentNode d b")
      case None
      then show ?thesis using less.prems by (simp add: path_None go_def)
    next
      case (Some p)
      then have "a = p \<or> a \<in> set (path d Up p)" using less.prems by (simp add: path_Some [of d Up b p] go_def)
      with less.IH [OF parent_less [OF Some]] up [OF Some less.prems(2)] show ?thesis by blast
    qed
  qed
  note above = this
  have same: "in_doc d x" if "siblings d e x"
  proof -
    obtain p where "parentNode d e = Some p" "parentNode d x = Some p"
      using \<open>siblings d e x\<close> unfolding siblings_def by force
    then show ?thesis using up [of e p] down [of x p] assms(1) by blast
  qed
  show ?thesis using assms up down above same
    by (cases name) (auto simp: related_def all_walked_def first_walked_def walked_def contained_def)
qed

text \<open>The methods that the code takes to be unique find different nodes for different elements.\<close>

lemma guaranteed_disjoint:
  assumes "guaranteedUnique name" "a \<noteq> b" "name \<in> {Next, Prev} \<Longrightarrow> is_element d a \<and> is_element d b"
    "related d en name until a x" "related d en name until b x"
  shows False
proof -
  have both: "siblings d a b" if "siblings d a x" "siblings d b x" using that unfolding siblings_def by metis
  then have both': "siblings d b a" if "siblings d a x" "siblings d b x" using that unfolding siblings_def by metis
  have len: "is_element d c \<Longrightarrow> c < length d" for c by (simp add: is_element_def)
  have "a < b \<or> b < a" using assms(2) by auto
  then show ?thesis using assms both both' len [of a] len [of b]
    by (cases name) (auto simp: guaranteedUnique_def related_def first_walked_def walked_def nearer_def)
qed

lemma distinct_concat_map:
  assumes "distinct xs" "\<forall>x\<in>set xs. distinct (f x)" "\<forall>x\<in>set xs. \<forall>y\<in>set xs. x \<noteq> y \<longrightarrow> set (f x) \<inter> set (f y) = {}"
  shows "distinct (concat (map f xs))"
  using assms by (induction xs) auto

lemma grep_filter: "grep elems (\<lambda>e i. p e) no = filter (\<lambda>e. p e \<noteq> no) elems"
proof -
  have "grep_from i xs (\<lambda>e i. p e) no = filter (\<lambda>e. p e \<noteq> no) xs" for i and xs :: "'a list"
    by (induction xs arbitrary: i) (auto simp: Let_def)
  then show ?thesis by (simp add: grep_def)
qed

text \<open>
  What the methods ask of the selector engine: a set is filtered by a test of its elements, the one of
  \<open>matchesSelector\<close>. Selectors with positional pseudos have no such test.
\<close>

locale selector_engine =
  fixes matches_of :: "string \<Rightarrow> nat list \<Rightarrow> nat list" and test_of :: "nat \<Rightarrow> string \<Rightarrow> bool"
  assumes matches_filter: "matches_of s es = filter (\<lambda>e. test_of e s) es"
begin

lemma matches_distinct: "distinct es \<Longrightarrow> distinct (matches_of s es)"
  by (simp add: matches_filter)

lemma matches_twice: "matches_of s (matches_of s es) = matches_of s es"
  by (simp add: matches_filter)

lemma filter_is_filter:
  assumes "find_matches en = matches_of" "matchesSelector en = test_of"
  shows "jq_filter d en s es no =
    filter (\<lambda>e. is_element d e \<and> test_of e (if no then '':not('' @ s @ '')'' else s)) es"
  using assms
  by (auto simp: jq_filter_def grep_filter matches_filter conj_commute split: list.splits)

end


text \<open>The compiled matchers of the engine, run on a set from the document, are such a filter.\<close>

lemma run_on_set:
  assumes "runs_ok st"
  shows "fst (run_selector d F gs (Some es) 0 False s dn st) =
    filter (\<lambda>e. \<exists>g\<in>set gs. selects d F (run_env (Some (One 0)) False (Outer (One (or_parent d (rsibling s) 0)))) g e) es"
  using superMatcher_run [OF assms, of d F gs dn "fst (compile d F gs dn)" "snd (compile d F gs dn)" es "Some (One 0)" False]
  by (simp add: run_selector_def Let_def)

interpretation sizzle: selector_engine
  "\<lambda>s es. fst (run_selector d F (groups s) (Some es) 0 False s dn no_runs)"
  "\<lambda>e s. fst (run_selector d F (groups s) (Some [e]) 0 False s dn no_runs) \<noteq> []" for d F groups dn
  by unfold_locales (simp add: run_on_set [OF no_runs_ok])

text \<open>The filter at the end of a method.\<close>

definition accepted :: "dom \<Rightarrow> engine \<Rightarrow> qualifier option \<Rightarrow> nat \<Rightarrow> bool" where
  "accepted d en q x \<longleftrightarrow>
     (case q of Some (Selector s) \<Rightarrow> s \<noteq> '''' \<longrightarrow> is_element d x \<and> matchesSelector en x s | _ \<Rightarrow> True)"

definition engine_ok :: "engine \<Rightarrow> bool" where
  "engine_ok en \<longleftrightarrow> (\<forall>s es. find_matches en s es = filter (\<lambda>e. matchesSelector en e s) es) \<and>
     contentDocument en = (\<lambda>_. None) \<and> index_ok (source_index en)"

lemma filter_accepted:
  assumes "engine_ok en"
  shows "(case q of Some (Selector s) \<Rightarrow> if s \<noteq> '''' then jq_filter d en s xs False else xs | _ \<Rightarrow> xs) =
    filter (accepted d en q) xs"
proof -
  have "selector_engine (find_matches en) (matchesSelector en)"
    using assms by unfold_locales (simp add: engine_ok_def)
  from selector_engine.filter_is_filter [OF this refl refl, of d] show ?thesis
    by (auto simp: accepted_def split: option.splits qualifier.splits intro!: filter_cong)
qed


lemma traverse_nodes:
  assumes "engine_ok en" "roots_ok d"
  shows "nodes (traverse d en name this until selector) =
    (let xs = filter (accepted d en (if is_until name then selector else until)) (map_flat (nodes this) (found d en name until));
         ys = (if 1 < length (nodes this) \<and> \<not> guaranteedUnique name
               then uniqueSort d (source_index en) (detects_duplicates en) xs else xs)
     in if 1 < length (nodes this) \<and> rparentsprev name then rev ys else ys)"
  unfolding traverse_def Let_def filter_accepted [OF assms(1), symmetric] by (simp add: pushStack_def)

text \<open>
  C23: A method of the table finds for a set of nodes of the document all that it finds for one of them and the selector
  accepts, each once; for more than one node in document order, the reverse for \<open>parents\<close> and what is before. The methods
  that are taken to be unique without a sort, \<open>children\<close>, \<open>contents\<close>, \<open>next\<close> and \<open>prev\<close>, find no node twice when the set has
  no node twice and, for the last two, only elements. The filter of the engine judges each node by itself, as it does for
  selectors without positional pseudos.
\<close>

theorem traverse_correct:
  fixes until selector
  assumes "engine_ok en" "roots_ok d" "doc_order d" "\<forall>e\<in>set (nodes this). in_doc d e" "distinct (nodes this)"
    and "name \<in> {Next, Prev} \<Longrightarrow> \<forall>e\<in>set (nodes this). is_element d e"
  defines "r \<equiv> nodes (traverse d en name this until selector)"
  shows "set r = {x. (\<exists>e\<in>set (nodes this). related d en name until e x) \<and>
      accepted d en (if is_until name then selector else until) x} \<and> distinct r \<and>
    (1 < length (nodes this) \<longrightarrow> \<not> guaranteedUnique name \<longrightarrow> sorted (if rparentsprev name then rev r else r))"
proof -
  define xs where "xs = filter (accepted d en (if is_until name then selector else until))
    (map_flat (nodes this) (found d en name until))"
  have f: "set (found d en name until e) = {x. related d en name until e x}" "distinct (found d en name until e)" for e
    using found_ok [OF assms(2), of en name until e] assms(1) by (simp_all add: engine_ok_def)
  have set: "set xs = {x. (\<exists>e\<in>set (nodes this). related d en name until e x) \<and>
      accepted d en (if is_until name then selector else until) x}"
    by (auto simp: xs_def map_flat_def f)
  have "\<forall>x\<in>set xs. in_doc d x" using assms(4) related_in_doc by (auto simp: set)
  then have sort: "uniqueSort d (source_index en) (detects_duplicates en) xs = sorted_list_of_set (set xs)"
    using assms(1,3) by (intro uniqueSort_sorted) (simp_all add: engine_ok_def)
  have unique: "distinct xs" if "length (nodes this) \<le> 1 \<or> guaranteedUnique name"
    unfolding xs_def map_flat_def
  proof (intro distinct_filter distinct_concat_map ballI impI)
    fix a b assume ab: "a \<in> set (nodes this)" "b \<in> set (nodes this)" "a \<noteq> b"
    then have "\<not> length (nodes this) \<le> 1" by (cases "nodes this") auto
    with that have "guaranteedUnique name" by simp
    moreover have "name \<in> {Next, Prev} \<Longrightarrow> is_element d a \<and> is_element d b" using assms(6) ab(1,2) by blast
    ultimately have "\<not> (related d en name until a x \<and> related d en name until b x)" for x
      using guaranteed_disjoint [of name a b d en until x] ab(3) by blast
    then show "set (found d en name until a) \<inter> set (found d en name until b) = {}" by (auto simp: f)
  qed (use assms(5) f in auto)
  have r: "r = (let ys = (if 1 < length (nodes this) \<and> \<not> guaranteedUnique name then sorted_list_of_set (set xs) else xs)
      in if 1 < length (nodes this) \<and> rparentsprev name then rev ys else ys)"
    unfolding r_def traverse_nodes [OF assms(1,2)] xs_def [symmetric] by (simp add: Let_def sort)
  have "set r = set xs" "distinct r" using unique by (auto simp: r Let_def)
  moreover have "sorted (if rparentsprev name then rev r else r)" if "1 < length (nodes this)" "\<not> guaranteedUnique name"
    using that by (simp add: r Let_def)
  ultimately show ?thesis using set by simp
qed


definition plain_engine :: engine where
  "plain_engine = \<lparr>find_in = \<lambda>s e. [], find_matches = \<lambda>s es. es, matchesSelector = \<lambda>e s. True, query = \<lambda>s. [],
     contentDocument = \<lambda>_. None, source_index = \<lambda>_. None, detects_duplicates = True\<rparr>"

lemma plain_engine_ok: "engine_ok plain_engine"
  by (simp add: engine_ok_def plain_engine_def index_ok_def)

lemma order_doc_ok: "doc_order order_doc" "roots_ok order_doc" "in_doc order_doc 1" "in_doc order_doc 2"
proof -
  have p: "parentNode order_doc b = (if b = 1 then Some 0 else if b = 2 then Some 1 else None)" for b
    by (auto simp: parentNode_def order_doc_def nth_Cons' numeral_2_eq_2)
  have "\<not> (siblings order_doc x y \<and> x < y)" for x y by (auto simp: siblings_def p split: if_splits)
  then show "doc_order order_doc" by (auto simp: doc_order_def)
  show "in_doc order_doc 1" "in_doc order_doc 2"
    by (simp add: in_doc_def order_doc_ancestors, simp add: order_doc_def)+
  show "roots_ok order_doc" unfolding roots_ok_def p
    by (auto simp: node_type_def order_doc_def nth_Cons' split: if_split_asm)
qed

theorem traverse_correct_witness:
  "distinct (nodes (traverse order_doc plain_engine Parents \<lparr>nodes = [2, 1], stack = []\<rparr> None None)) \<and>
   sorted (rev (nodes (traverse order_doc plain_engine Parents \<lparr>nodes = [2, 1], stack = []\<rparr> None None)))"
  using traverse_correct [OF plain_engine_ok order_doc_ok(2,1), of "\<lparr>nodes = [2, 1], stack = []\<rparr>" Parents None None]
    order_doc_ok(3,4)
  by (simp add: guaranteedUnique_def rparentsprev_def)

section \<open>Finding\<close>

text \<open>\<open>next\<close> of text nodes, as \<open>contents\<close> gives them, finds one element twice: the set is not made unique.\<close>

definition mixed_doc :: dom where
  "mixed_doc = [\<lparr>node_type_of = 9, node_name_of = ''#document'', parent_of = None, attributes_of = []\<rparr>,
     \<lparr>node_type_of = 1, node_name_of = ''p'', parent_of = Some 0, attributes_of = []\<rparr>,
     \<lparr>node_type_of = 3, node_name_of = ''#text'', parent_of = Some 1, attributes_of = []\<rparr>,
     \<lparr>node_type_of = 8, node_name_of = ''#comment'', parent_of = Some 1, attributes_of = []\<rparr>,
     \<lparr>node_type_of = 1, node_name_of = ''b'', parent_of = Some 1, attributes_of = []\<rparr>]"

lemma next_twice:
  "nodes (traverse mixed_doc plain_engine Contents \<lparr>nodes = [1], stack = []\<rparr> None None) = [2, 3, 4]"
  "nodes (traverse mixed_doc plain_engine Next \<lparr>nodes = [2, 3, 4], stack = []\<rparr> None None) = [4, 4]"
proof -
  have len: "length mixed_doc = 5" by (simp add: mixed_doc_def)
  have p: "parentNode mixed_doc b = (if b = 1 then Some 0 else if b \<in> {2, 3, 4} then Some 1 else None)" for b
    by (auto simp: parentNode_def mixed_doc_def nth_Cons' numeral_eq_Suc)
  have sib: "siblings mixed_doc a b \<longleftrightarrow> a \<in> {2, 3, 4} \<and> b \<in> {2, 3, 4} \<or> a = 1 \<and> b = 1" for a b
    by (auto simp: siblings_def p)
  have "childNodes mixed_doc 1 = [2, 3, 4]" by (simp add: childNodes_def p len upt_rec)
  then show "nodes (traverse mixed_doc plain_engine Contents \<lparr>nodes = [1], stack = []\<rparr> None None) = [2, 3, 4]"
    by (simp add: traverse_def map_flat_def found_def plain_engine_def is_until_def pushStack_def Let_def)
  have n: "nextSibling mixed_doc 2 = Some 3" "nextSibling mixed_doc 3 = Some 4" "nextSibling mixed_doc 4 = None"
    by (auto simp: nextSibling_Some nextSibling_None sib len)
  have t: "node_type mixed_doc 3 = 8" "node_type mixed_doc 4 = 1" by (simp_all add: node_type_def mixed_doc_def)
  have "sibling mixed_doc 2 To_next = Some 4" "sibling mixed_doc 3 To_next = Some 4" "sibling mixed_doc 4 To_next = None"
    by (simp_all add: sibling.simps [of mixed_doc 2] sibling.simps [of mixed_doc 3] sibling.simps [of mixed_doc 4] step_to_def n t)
  then show "nodes (traverse mixed_doc plain_engine Next \<lparr>nodes = [2, 3, 4], stack = []\<rparr> None None) = [4, 4]"
    by (simp add: traverse_def map_flat_def found_def is_until_def pushStack_def guaranteedUnique_def rparentsprev_def Let_def)
qed

end
