(* ===== verification/J_Extend.thy ===== *)
theory J_Extend
  imports JS_Prelude
begin

text \<open>
  \<open>jQuery.extend\<close> of \<open>jquery-3.1.0.js\<close>, shallow and deep, over a store of objects with prototypes: what is shared,
  what is copied and what is changed.
\<close>

section \<open>The store\<close>

text \<open>
  \<open>Empty\<close> stands for the other false values (zero, not a number, the empty string), \<open>Prim\<close> for the other values that are
  no objects; a string among the options, whose characters would be enumerated, is left out.
\<close>

datatype jvalue = Undefined | Null | Bool bool | Empty | Prim string | Ref nat

text \<open>The tag of \<open>toString\<close>; \<open>Function_class True\<close> is \<open>Object\<close> itself, by the text of its source.\<close>

datatype kind = Object_class | Array_class | Function_class bool | Other_class

text \<open>\<open>shown\<close> are the own properties that are enumerated, \<open>hidden\<close> the others.\<close>

record obj =
  kind :: kind
  proto :: "nat option"
  shown :: "(string, jvalue) jsobj"
  hidden :: "(string, jvalue) jsobj"

type_synonym store = "obj list"

text \<open>\<open>Object.prototype\<close> is the object 0, \<open>Array.prototype\<close> the object 1.\<close>

definition truthy :: "jvalue \<Rightarrow> bool" where
  "truthy v \<longleftrightarrow> v \<notin> {Undefined, Null, Bool False, Empty}"

definition own :: "store \<Rightarrow> nat \<Rightarrow> string \<Rightarrow> jvalue option" where
  "own s a k = (case obj_get (shown (s ! a)) k of Some v \<Rightarrow> Some v | None \<Rightarrow> obj_get (hidden (s ! a)) k)"

text \<open>A property by the chain of prototypes, which has no cycle; the accessor \<open>__proto__\<close> lives in \<open>Object.prototype\<close>.\<close>

fun lookup :: "nat \<Rightarrow> store \<Rightarrow> nat \<Rightarrow> string \<Rightarrow> jvalue option" where
  "lookup 0 s a k = None"
| "lookup (Suc n) s a k =
     (case own s a k of
        Some v \<Rightarrow> Some v
      | None \<Rightarrow> (case proto (s ! a) of None \<Rightarrow> None | Some p \<Rightarrow> lookup n s p k))"

fun has_accessor :: "nat \<Rightarrow> store \<Rightarrow> nat \<Rightarrow> bool" where
  "has_accessor 0 s a \<longleftrightarrow> False"
| "has_accessor (Suc n) s a \<longleftrightarrow> own s a ''__proto__'' = None \<and>
     (a = 0 \<or> (case proto (s ! a) of None \<Rightarrow> False | Some p \<Rightarrow> has_accessor n s p))"

definition get :: "store \<Rightarrow> nat \<Rightarrow> string \<Rightarrow> jvalue" where
  "get s a k =
     (if k = ''__proto__'' \<and> has_accessor (length s) s a
      then (case proto (s ! a) of None \<Rightarrow> Null | Some p \<Rightarrow> Ref p)
      else (case lookup (length s) s a k of Some v \<Rightarrow> v | None \<Rightarrow> Undefined))"

text \<open>The names that \<open>for in\<close> goes through.\<close>

fun enumerated :: "nat \<Rightarrow> store \<Rightarrow> string list \<Rightarrow> nat \<Rightarrow> string list" where
  "enumerated 0 s seen a = []"
| "enumerated (Suc n) s seen a =
     filter (\<lambda>k. k \<notin> set seen) (obj_keys (shown (s ! a))) @
     (case proto (s ! a) of
        None \<Rightarrow> []
      | Some p \<Rightarrow> enumerated n s (seen @ obj_keys (shown (s ! a)) @ obj_keys (hidden (s ! a))) p)"

definition for_in :: "store \<Rightarrow> nat \<Rightarrow> string list" where
  "for_in s a = enumerated (length s) s [] a"

text \<open>An assignment; a chain of prototypes that would be a cycle is an error.\<close>

datatype error = Stack_overflow | Cyclic_proto

fun in_chain :: "nat \<Rightarrow> store \<Rightarrow> nat \<Rightarrow> nat \<Rightarrow> bool" where
  "in_chain 0 s a b \<longleftrightarrow> False"
| "in_chain (Suc n) s a b \<longleftrightarrow> a = b \<or> (case proto (s ! a) of None \<Rightarrow> False | Some p \<Rightarrow> in_chain n s p b)"

definition put :: "store \<Rightarrow> nat \<Rightarrow> string \<Rightarrow> jvalue \<Rightarrow> error + store" where
  "put s a k v =
     (let ob = s ! a
      in if obj_get (shown ob) k = None \<and> obj_get (hidden ob) k \<noteq> None
         then Inr (s[a := ob\<lparr>hidden := obj_put k v (hidden ob)\<rparr>])
         else if k = ''__proto__'' \<and> has_accessor (length s) s a then
           (case v of
              Ref p \<Rightarrow> if in_chain (length s) s p a then Inl Cyclic_proto else Inr (s[a := ob\<lparr>proto := Some p\<rparr>])
            | Null \<Rightarrow> Inr (s[a := ob\<lparr>proto := None\<rparr>])
            | _ \<Rightarrow> Inr s)
         else Inr (s[a := ob\<lparr>shown := obj_put k v (shown ob)\<rparr>]))"

section \<open>The tests\<close>

definition isArray :: "store \<Rightarrow> jvalue \<Rightarrow> bool" where
  "isArray s v \<longleftrightarrow> (case v of Ref a \<Rightarrow> kind (s ! a) = Array_class | _ \<Rightarrow> False)"

definition is_function :: "store \<Rightarrow> jvalue \<Rightarrow> bool" where
  "is_function s v \<longleftrightarrow> (case v of Ref a \<Rightarrow> (case kind (s ! a) of Function_class b \<Rightarrow> True | _ \<Rightarrow> False) | _ \<Rightarrow> False)"

definition isPlainObject :: "store \<Rightarrow> jvalue \<Rightarrow> bool" where
  "isPlainObject s v \<longleftrightarrow>
     (case v of
        Ref a \<Rightarrow> kind (s ! a) = Object_class \<and>
          (case proto (s ! a) of
             None \<Rightarrow> True
           | Some p \<Rightarrow> (case own s p ''constructor'' of
                Some (Ref c) \<Rightarrow> kind (s ! c) = Function_class True
              | _ \<Rightarrow> False))
      | _ \<Rightarrow> False)"

section \<open>extend\<close>

definition new_object :: obj where
  "new_object = \<lparr>kind = Object_class, proto = Some 0, shown = [], hidden = []\<rparr>"

definition new_array :: obj where
  "new_array = \<lparr>kind = Array_class, proto = Some 1, shown = [], hidden = []\<rparr>"

text \<open>What is copied into: the value that is there if it is of the same sort, or a new object or array.\<close>

definition clone_for :: "jvalue \<Rightarrow> jvalue \<Rightarrow> store \<Rightarrow> nat \<times> store" where
  "clone_for src copy s =
     (if isPlainObject s copy
      then (case src of
              Ref b \<Rightarrow> if isPlainObject s src then (b, s) else (length s, s @ [new_object])
            | _ \<Rightarrow> (length s, s @ [new_object]))
      else (case src of
              Ref b \<Rightarrow> if isArray s src then (b, s) else (length s, s @ [new_array])
            | _ \<Rightarrow> (length s, s @ [new_array])))"

text \<open>
  The loop over the names of the options \<open>o\<close>, for the target \<open>t\<close>; the first argument is the room that is left on the
  stack for calls inside.
\<close>

fun extend_names :: "nat \<Rightarrow> bool \<Rightarrow> nat \<Rightarrow> nat \<Rightarrow> string list \<Rightarrow> store \<Rightarrow> error + store" where
  "extend_names n deep t opts [] s = Inr s"
| "extend_names n deep t opts (name # names) s =
     (let src = get s t name; copy = get s opts name
      in if copy = Ref t then extend_names n deep t opts names s
         else if deep \<and> truthy copy \<and> (isPlainObject s copy \<or> isArray s copy) then
           (case (copy, n) of
              (Ref c, Suc m) \<Rightarrow>
                (let (clone, s1) = clone_for src copy s
                 in case extend_names m deep clone c (for_in s1 c) s1 of
                      Inl e \<Rightarrow> Inl e
                    | Inr s2 \<Rightarrow>
                        (case put s2 t name (Ref clone) of
                           Inl e \<Rightarrow> Inl e
                         | Inr s3 \<Rightarrow> extend_names n deep t opts names s3))
            | _ \<Rightarrow> Inl Stack_overflow)
         else if copy \<noteq> Undefined then
           (case put s t name copy of
              Inl e \<Rightarrow> Inl e
            | Inr s1 \<Rightarrow> extend_names n deep t opts names s1)
         else extend_names n deep t opts names s)"

fun extend_all :: "nat \<Rightarrow> bool \<Rightarrow> nat \<Rightarrow> jvalue list \<Rightarrow> store \<Rightarrow> error + store" where
  "extend_all n deep t [] s = Inr s"
| "extend_all n deep t (v # vs) s =
     (case v of
        Ref a \<Rightarrow>
          (case extend_names n deep t a (for_in s a) s of Inl e \<Rightarrow> Inl e | Inr s' \<Rightarrow> extend_all n deep t vs s')
      | _ \<Rightarrow> extend_all n deep t vs s)"

definition argument :: "jvalue list \<Rightarrow> nat \<Rightarrow> jvalue" where
  "argument args i = (if i < length args then args ! i else Undefined)"

text \<open>\<open>x || {}\<close>, and the target that is used: a new object in place of one that cannot have properties.\<close>

definition or_new :: "jvalue \<Rightarrow> store \<Rightarrow> jvalue \<times> store" where
  "or_new v s = (if truthy v then (v, s) else (Ref (length s), s @ [new_object]))"

definition target_of :: "jvalue \<Rightarrow> store \<Rightarrow> nat \<times> store" where
  "target_of v s = (case v of Ref a \<Rightarrow> (a, s) | _ \<Rightarrow> (length s, s @ [new_object]))"

definition extend :: "nat \<Rightarrow> nat \<Rightarrow> jvalue list \<Rightarrow> store \<Rightarrow> error + nat \<times> store" where
  "extend n this args s =
     (let (target, s1) = or_new (argument args 0) s;
          (deep, target, s2, i) =
            (case target of
               Bool b \<Rightarrow> (let (target, s2) = or_new (argument args 1) s1 in (b, target, s2, 2))
             | _ \<Rightarrow> (False, target, s1, 1));
          (t, s3) = target_of target s2;
          (t, i) = (if i = length args then (this, i - 1) else (t, i))
      in case extend_all n deep t (drop i args) s3 of Inl e \<Rightarrow> Inl e | Inr s' \<Rightarrow> Inr (t, s'))"

section \<open>Pollution of the prototype\<close>

text \<open>A page with the parsed text \<open>{"__proto__": {"admin": true}}\<close>, an own property of that name.\<close>

definition polluting :: store where
  "polluting =
     [\<lparr>kind = Object_class, proto = None, shown = [], hidden = [(''constructor'', Ref 2)]\<rparr>,
      \<lparr>kind = Array_class, proto = Some 0, shown = [], hidden = []\<rparr>,
      \<lparr>kind = Function_class True, proto = Some 0, shown = [], hidden = []\<rparr>,
      \<lparr>kind = Object_class, proto = Some 0, shown = [(''__proto__'', Ref 4)], hidden = []\<rparr>,
      \<lparr>kind = Object_class, proto = Some 0, shown = [(''admin'', Bool True)], hidden = []\<rparr>,
      \<lparr>kind = Object_class, proto = Some 0, shown = [], hidden = []\<rparr>]"

lemma deep_extend_pollutes:
  "case extend 10 0 [Bool True, Undefined, Ref 3] polluting of
     Inr (t, s) \<Rightarrow> get polluting 5 ''admin'' = Undefined \<and> get s 5 ''admin'' = Bool True
   | Inl e \<Rightarrow> False"
  by code_simp


section \<open>Stores without surprises\<close>

text \<open>
  Prototypes are older than what inherits from them, values exist, no property is called \<open>__proto__\<close>, and the prototypes
  of literals have no properties that are enumerated.
\<close>

definition store_ok :: "store \<Rightarrow> bool" where
  "store_ok s \<longleftrightarrow> 2 \<le> length s \<and>
     (\<forall>a<length s. (\<forall>p. proto (s ! a) = Some p \<longrightarrow> p < a) \<and>
        (\<forall>k b. own s a k = Some (Ref b) \<longrightarrow> b < length s) \<and> own s a ''__proto__'' = None)"

definition mergeable :: "store \<Rightarrow> jvalue \<Rightarrow> bool" where
  "mergeable s v \<longleftrightarrow> isPlainObject s v \<or> isArray s v"

text \<open>What deep copying can reach from an object.\<close>

inductive reached :: "store \<Rightarrow> nat \<Rightarrow> nat \<Rightarrow> bool" for s t where
  reached_here: "reached s t t"
| reached_property: "reached s t b \<Longrightarrow> k \<noteq> ''__proto__'' \<Longrightarrow> get s b k = Ref c \<Longrightarrow> mergeable s (Ref c) \<Longrightarrow> reached s t c"

lemma lookup_fuel:
  assumes "store_ok s"
  shows "a < n \<Longrightarrow> a < m \<Longrightarrow> a < length s \<Longrightarrow> lookup n s a k = lookup m s a k"
proof (induction n arbitrary: a m)
  case (Suc n)
  then obtain m' where m: "m = Suc m'" by (cases m) auto
  have "lookup n s p k = lookup m' s p k" if "proto (s ! a) = Some p" for p
  proof -
    have "p < a" using assms Suc.prems(3) that by (simp add: store_ok_def)
    then have "p < n" "p < m'" "p < length s" using Suc.prems m by simp_all
    then show ?thesis by (rule Suc.IH)
  qed
  then show ?case by (simp add: m split: option.splits)
qed simp

lemma get_own:
  assumes "store_ok s" "a < length s" "k \<noteq> ''__proto__''"
  shows "get s a k = (case own s a k of Some v \<Rightarrow> v
    | None \<Rightarrow> (case proto (s ! a) of None \<Rightarrow> Undefined | Some p \<Rightarrow> get s p k))"
proof -
  obtain n where n: "length s = Suc n" using assms(2) by (cases "length s") auto
  have "lookup n s p k = lookup (Suc n) s p k" if "proto (s ! a) = Some p" for p
  proof -
    have "p < a" using assms(1,2) that by (simp add: store_ok_def)
    then show ?thesis using lookup_fuel [OF assms(1), of p n "Suc n"] assms(2) n by simp
  qed
  then have l: "lookup (Suc n) s a k = (case own s a k of Some v \<Rightarrow> Some v
    | None \<Rightarrow> (case proto (s ! a) of None \<Rightarrow> None | Some p \<Rightarrow> lookup (Suc n) s p k))"
    by (simp add: lookup.simps(2) [of n s a] del: lookup.simps split: option.split)
  have g: "get s b k = (case lookup (Suc n) s b k of Some v \<Rightarrow> v | None \<Rightarrow> Undefined)" for b
    using assms(3) by (simp add: get_def n del: lookup.simps)
  show ?thesis unfolding g l by (simp split: option.split del: lookup.simps)
qed

lemma get_bounded: "store_ok s \<Longrightarrow> a < length s \<Longrightarrow> k \<noteq> ''__proto__'' \<Longrightarrow> get s a k = Ref b \<Longrightarrow> b < length s"
proof (induction a rule: less_induct)
  case (less a)
  show ?case
  proof (cases "own s a k")
    case (Some v)
    with less show ?thesis by (simp add: get_own store_ok_def)
  next
    case None
    then obtain p where p: "proto (s ! a) = Some p" "get s p k = Ref b"
      using less.prems by (auto simp: get_own split: option.splits)
    then have "p < a" using less.prems by (simp add: store_ok_def)
    with less p show ?thesis by simp
  qed
qed

lemma enumerated_own:
  "k \<in> set (enumerated n s seen a) \<Longrightarrow> store_ok s \<Longrightarrow> a < length s \<Longrightarrow> k \<noteq> ''__proto__''"
proof (induction n arbitrary: seen a)
  case (Suc n)
  show ?case
  proof (cases "k \<in> set (obj_keys (shown (s ! a)))")
    case True
    then have "own s a k \<noteq> None" by (auto simp: own_def obj_in_keys split: option.splits)
    then show ?thesis using Suc.prems(2,3) by (auto simp: store_ok_def)
  next
    case False
    show ?thesis
    proof (cases "proto (s ! a)")
      case None
      with Suc.prems(1) False show ?thesis by simp
    next
      case (Some p)
      then obtain seen' where p: "k \<in> set (enumerated n s seen' p)" using Suc.prems(1) False by auto
      have "p < length s" using Suc.prems(2,3) Some unfolding store_ok_def by (metis less_trans)
      with Suc.IH p Suc.prems(2) show ?thesis by blast
    qed
  qed
qed simp

text \<open>An assignment to a property of another name.\<close>

lemma put_ok:
  assumes "store_ok s" "a < length s" "k \<noteq> ''__proto__''" "\<forall>b. v = Ref b \<longrightarrow> b < length s"
  shows "\<exists>s'. put s a k v = Inr s' \<and> length s' = length s \<and> (\<forall>b. b \<noteq> a \<longrightarrow> s' ! b = s ! b) \<and>
    kind (s' ! a) = kind (s ! a) \<and> proto (s' ! a) = proto (s ! a) \<and>
    (\<forall>b l. own s' b l = (if b = a \<and> l = k then Some v else own s b l)) \<and> store_ok s'"
proof -
  define hid where "hid = (obj_get (shown (s ! a)) k = None \<and> obj_get (hidden (s ! a)) k \<noteq> None)"
  define ob where "ob = (if hid then (s ! a)\<lparr>hidden := obj_put k v (hidden (s ! a))\<rparr>
    else (s ! a)\<lparr>shown := obj_put k v (shown (s ! a))\<rparr>)"
  define s' where "s' = s[a := ob]"
  have put: "put s a k v = Inr s'" using assms(3) by (simp add: put_def Let_def s'_def ob_def hid_def)
  have own: "own s' b l = (if b = a \<and> l = k then Some v else own s b l)" for b l
    using assms(2) by (auto simp: own_def s'_def ob_def hid_def js_obj nth_list_update split: option.splits)
  have same: "kind (s' ! b) = kind (s ! b)" "proto (s' ! b) = proto (s ! b)" for b
    using assms(2) by (cases "b = a"; simp add: s'_def ob_def)+
  have len: "length s' = length s" by (simp add: s'_def)
  moreover have "store_ok s'" using assms unfolding store_ok_def own same len by auto
  ultimately show ?thesis using put own same by (intro exI [of _ s']) (auto simp: s'_def)
qed


section \<open>What a deep copy changes\<close>

text \<open>
  \<open>M\<close> is the region that may be changed: nothing inherits from it, and it has all that can be merged and is found through
  the prototypes of its objects or of literals.
\<close>

definition region_ok :: "store \<Rightarrow> nat set \<Rightarrow> bool" where
  "region_ok s0 M \<longleftrightarrow> store_ok s0 \<and> M \<subseteq> {..<length s0} \<and> 0 \<notin> M \<and> 1 \<notin> M \<and>
     (\<forall>a<length s0. \<forall>p. proto (s0 ! a) = Some p \<longrightarrow> p \<notin> M) \<and>
     (\<forall>p k b. (p \<le> 1 \<or> (\<exists>a\<in>M. proto (s0 ! a) = Some p)) \<longrightarrow> k \<noteq> ''__proto__'' \<longrightarrow>
        get s0 p k = Ref b \<longrightarrow> mergeable s0 (Ref b) \<longrightarrow> b \<in> M)"

text \<open>Afterwards the rest is as it was, and the region with the new objects has all that it can reach.\<close>

definition separate :: "store \<Rightarrow> nat set \<Rightarrow> store \<Rightarrow> bool" where
  "separate s0 M s \<longleftrightarrow> store_ok s \<and> length s0 \<le> length s \<and>
     (\<forall>a<length s0. kind (s ! a) = kind (s0 ! a) \<and> proto (s ! a) = proto (s0 ! a) \<and> (a \<notin> M \<longrightarrow> s ! a = s0 ! a)) \<and>
     (\<forall>a. length s0 \<le> a \<longrightarrow> a < length s \<longrightarrow>
        kind (s ! a) = Object_class \<and> proto (s ! a) = Some 0 \<or> kind (s ! a) = Array_class \<and> proto (s ! a) = Some 1) \<and>
     (\<forall>a k b. a \<in> M \<or> length s0 \<le> a \<and> a < length s \<longrightarrow> own s a k = Some (Ref b) \<longrightarrow> b < length s0 \<longrightarrow>
        mergeable s0 (Ref b) \<longrightarrow> b \<in> M)"

definition owned :: "store \<Rightarrow> nat set \<Rightarrow> store \<Rightarrow> nat set" where
  "owned s0 M s = M \<union> {length s0..<length s}"

lemma separateD:
  assumes "separate s0 M s"
  shows "store_ok s" "length s0 \<le> length s" "a < length s0 \<Longrightarrow> kind (s ! a) = kind (s0 ! a)"
    "a < length s0 \<Longrightarrow> proto (s ! a) = proto (s0 ! a)" "a < length s0 \<Longrightarrow> a \<notin> M \<Longrightarrow> s ! a = s0 ! a"
    "length s0 \<le> a \<Longrightarrow> a < length s \<Longrightarrow>
      kind (s ! a) = Object_class \<and> proto (s ! a) = Some 0 \<or> kind (s ! a) = Array_class \<and> proto (s ! a) = Some 1"
    "a \<in> owned s0 M s \<Longrightarrow> own s a k = Some (Ref b) \<Longrightarrow> b < length s0 \<Longrightarrow> mergeable s0 (Ref b) \<Longrightarrow> b \<in> M"
  using assms unfolding separate_def owned_def by auto

lemma region_okD:
  assumes "region_ok s0 M"
  shows "store_ok s0" "a \<in> M \<Longrightarrow> a < length s0" "0 \<notin> M" "1 \<notin> M"
    "a < length s0 \<Longrightarrow> proto (s0 ! a) = Some p \<Longrightarrow> p \<notin> M"
    "p \<le> 1 \<or> (\<exists>a\<in>M. proto (s0 ! a) = Some p) \<Longrightarrow> k \<noteq> ''__proto__'' \<Longrightarrow> get s0 p k = Ref b \<Longrightarrow> mergeable s0 (Ref b) \<Longrightarrow>
      b \<in> M"
  using assms unfolding region_ok_def by blast+

lemma store_okD:
  assumes "store_ok s" "a < length s"
  shows "proto (s ! a) = Some p \<Longrightarrow> p < a" "own s a k = Some (Ref b) \<Longrightarrow> b < length s" "own s a ''__proto__'' = None"
  using assms unfolding store_ok_def by blast+

lemma own_same: "s ! a = s' ! a \<Longrightarrow> own s a k = own s' a k"
  by (simp only: own_def)

lemma mergeable_same:
  assumes M: "region_ok s0 M" and s: "separate s0 M s" and b: "b < length s0"
  shows "isPlainObject s (Ref b) = isPlainObject s0 (Ref b)" "isArray s (Ref b) = isArray s0 (Ref b)"
    "mergeable s (Ref b) = mergeable s0 (Ref b)"
proof -
  have "own s p ''constructor'' = own s0 p ''constructor'' \<and>
      (\<forall>c. own s0 p ''constructor'' = Some (Ref c) \<longrightarrow> kind (s ! c) = kind (s0 ! c))" if p: "proto (s0 ! b) = Some p" for p
  proof -
    have "p < length s0" using store_okD(1) [OF region_okD(1) [OF M] b p] b by simp
    then show ?thesis
      using own_same [OF separateD(5) [OF s _ region_okD(5) [OF M b p]]] store_okD(2) [OF region_okD(1) [OF M]]
        separateD(3) [OF s] by blast
  qed
  then show "isPlainObject s (Ref b) = isPlainObject s0 (Ref b)"
    using separateD(3,4) [OF s b] by (auto simp: isPlainObject_def split: option.splits jvalue.splits)
  moreover show "isArray s (Ref b) = isArray s0 (Ref b)" using separateD(3) [OF s b] by (simp add: isArray_def)
  ultimately show "mergeable s (Ref b) = mergeable s0 (Ref b)" by (simp add: mergeable_def)
qed

lemma get_static:
  assumes M: "region_ok s0 M" and s: "separate s0 M s" and k: "k \<noteq> ''__proto__''"
  shows "p < length s0 \<Longrightarrow> p \<notin> M \<Longrightarrow> get s p k = get s0 p k"
proof (induction p rule: less_induct)
  case (less p)
  have "p < length s" using less.prems separateD(2) [OF s] by simp
  moreover have "s ! p = s0 ! p" by (rule separateD(5) [OF s less.prems])
  moreover have "get s q k = get s0 q k" if "proto (s0 ! p) = Some q" for q
    using less.IH [of q] store_okD(1) [OF region_okD(1) [OF M] less.prems(1) that] region_okD(5) [OF M less.prems(1) that]
      less.prems(1) by simp
  ultimately show ?case
    using get_own [OF separateD(1) [OF s] _ k, of p] get_own [OF region_okD(1) [OF M] less.prems(1) k] own_same [of s p s0 k]
    by (simp split: option.splits)
qed

lemma get_owned:
  assumes M: "region_ok s0 M" and s: "separate s0 M s" and k: "k \<noteq> ''__proto__''"
    and a: "a \<in> owned s0 M s" and g: "get s a k = Ref b" "mergeable s (Ref b)"
  shows "b \<in> owned s0 M s"
proof -
  have al: "a < length s" using a region_okD(2) [OF M] separateD(2) [OF s] by (fastforce simp: owned_def)
  have bl: "b < length s" by (rule get_bounded [OF separateD(1) [OF s] al k g(1)])
  show ?thesis
  proof (cases "b < length s0")
    case True
    with g(2) mergeable_same(3) [OF M s] have m: "mergeable s0 (Ref b)" by simp
    show ?thesis
    proof (cases "own s a k")
      case None
      then obtain p where p: "proto (s ! a) = Some p" "get s p k = Ref b"
        using get_own [OF separateD(1) [OF s] al k] g(1) by (auto split: option.splits)
      have "(p \<le> 1 \<or> (\<exists>a\<in>M. proto (s0 ! a) = Some p)) \<and> p \<notin> M"
      proof (cases "a \<in> M")
        case True
        then show ?thesis using separateD(4) [OF s] region_okD(2,5) [OF M] p(1) by metis
      next
        case False
        with a separateD(6) [OF s, of a] p(1) region_okD(3,4) [OF M] show ?thesis by (auto simp: owned_def)
      qed
      moreover have "p < length s0"
        using p(1) al a separateD(4) [OF s] store_okD(1) [OF separateD(1) [OF s] al] region_okD(1,2) [OF M]
          separateD(6) [OF s, of a] by (fastforce simp: owned_def store_ok_def)
      ultimately have "b \<in> M" using region_okD(6) [OF M _ k _ m, of p] get_static [OF M s k, of p] p(2) by auto
      then show ?thesis by (simp add: owned_def)
    next
      case (Some v)
      then have "own s a k = Some (Ref b)" using g(1) get_own [OF separateD(1) [OF s] al k] by simp
      from separateD(7) [OF s a this True m] show ?thesis by (simp add: owned_def)
    qed
  next
    case False
    with bl show ?thesis by (simp add: owned_def)
  qed
qed


lemma own_append: "a < length s \<Longrightarrow> own (s @ xs) a k = own s a k"
  by (simp add: own_def nth_append split: option.split)

lemma store_ok_new:
  assumes "store_ok s" "x = new_object \<or> x = new_array"
  shows "store_ok (s @ [x])"
proof -
  have "own (s @ [x]) (length s) k = None" for k
    using assms(2) by (auto simp: own_def nth_append new_object_def new_array_def js_obj)
  then show ?thesis
    using assms unfolding store_ok_def
    by (auto simp: less_Suc_eq own_append nth_append new_object_def new_array_def)
qed

lemma separate_new:
  assumes s: "separate s0 M s" and M: "region_ok s0 M" and x: "x = new_object \<or> x = new_array"
  shows "separate s0 M (s @ [x])"
proof -
  have new: "own (s @ [x]) (length s) k = None" for k
    using x by (auto simp: own_def nth_append new_object_def new_array_def js_obj)
  have "store_ok (s @ [x])" by (rule store_ok_new [OF separateD(1) [OF s] x])
  moreover have "b \<in> M" if "a \<in> M \<or> length s0 \<le> a \<and> a < Suc (length s)" "own (s @ [x]) a k = Some (Ref b)"
    "b < length s0" "mergeable s0 (Ref b)" for a k b
  proof -
    have "a \<noteq> length s" using that(2) new by auto
    then have "a \<in> owned s0 M s" "a < length s"
      using that(1) region_okD(2) [OF M] separateD(2) [OF s] by (fastforce simp: owned_def)+
    then show ?thesis using separateD(7) [OF s _ _ that(3,4)] that(2) by (simp add: own_append)
  qed
  moreover have "length s0 \<le> length (s @ [x])" using separateD(2) [OF s] by simp
  moreover have "(s @ [x]) ! a = s ! a" if "a < length s" for a using that by (simp add: nth_append)
  moreover have "kind ((s @ [x]) ! a) = Object_class \<and> proto ((s @ [x]) ! a) = Some 0 \<or>
      kind ((s @ [x]) ! a) = Array_class \<and> proto ((s @ [x]) ! a) = Some 1" if "length s0 \<le> a" "a < length (s @ [x])" for a
  proof (cases "a = length s")
    case True
    then show ?thesis using x by (auto simp: new_object_def new_array_def)
  next
    case False
    with that separateD(6) [OF s, of a] show ?thesis by (simp add: nth_append)
  qed
  moreover have "a < length s" if "a < length s0" for a using that separateD(2) [OF s] by simp
  ultimately show ?thesis
    using separateD(3-5) [OF s] unfolding separate_def length_append_singleton by simp
qed

lemma separate_put:
  assumes s: "separate s0 M s" and M: "region_ok s0 M" and t: "t \<in> owned s0 M s" and k: "k \<noteq> ''__proto__''"
    and v: "\<forall>b. v = Ref b \<longrightarrow> b < length s \<and> (mergeable s v \<longrightarrow> b \<in> owned s0 M s)"
  shows "\<exists>s'. put s t k v = Inr s' \<and> separate s0 M s' \<and> length s' = length s"
proof -
  have tl: "t < length s" using t region_okD(2) [OF M] separateD(2) [OF s] by (fastforce simp: owned_def)
  obtain s' where s': "put s t k v = Inr s'" "length s' = length s" "\<And>b. b \<noteq> t \<Longrightarrow> s' ! b = s ! b"
    "kind (s' ! t) = kind (s ! t)" "proto (s' ! t) = proto (s ! t)"
    "\<And>b l. own s' b l = (if b = t \<and> l = k then Some v else own s b l)" "store_ok s'"
    using put_ok [OF separateD(1) [OF s] tl k] v by blast
  have same: "kind (s' ! b) = kind (s ! b)" "proto (s' ! b) = proto (s ! b)" for b
    using s'(3) [of b] s'(4,5) by (cases "b = t"; simp)+
  have "s' ! a = s0 ! a" if "a < length s0" "a \<notin> M" for a
  proof -
    have "a \<noteq> t" using t that by (auto simp: owned_def)
    then show ?thesis using s'(3) separateD(5) [OF s that] by simp
  qed
  moreover have "b \<in> M" if "a \<in> owned s0 M s" "own s' a l = Some (Ref b)" "b < length s0" "mergeable s0 (Ref b)" for a l b
  proof (cases "a = t \<and> l = k")
    case True
    then have "v = Ref b" using that(2) s'(6) by simp
    with v mergeable_same(3) [OF M s that(3)] that(3,4) show ?thesis by (auto simp: owned_def)
  next
    case False
    then have "own s a l = Some (Ref b)" using that(2) s'(6) [of a l] by (simp only: if_False)
    then show ?thesis by (rule separateD(7) [OF s that(1) _ that(3,4)])
  qed
  ultimately have "separate s0 M s'"
    using s'(2,7) separateD(2-4,6) [OF s] unfolding separate_def same owned_def by simp
  with s'(1,2) show ?thesis by blast
qed

lemma clone_ok:
  assumes s: "separate s0 M s" and M: "region_ok s0 M" and t: "t \<in> owned s0 M s" and k: "k \<noteq> ''__proto__''"
    and c: "clone_for (get s t k) copy s = (clone, s1)"
  shows "separate s0 M s1 \<and> clone \<in> owned s0 M s1 \<and> length s \<le> length s1"
proof -
  have "s1 = s \<and> (\<exists>b. get s t k = Ref b \<and> mergeable s (Ref b) \<and> clone = b) \<or>
      clone = length s \<and> (s1 = s @ [new_object] \<or> s1 = s @ [new_array])"
    using c by (auto simp: clone_for_def mergeable_def split: if_splits jvalue.splits)
  then show ?thesis
    using get_owned [OF M s k t] separate_new [OF s M, of new_object] separate_new [OF s M, of new_array] s separateD(2) [OF s]
    by (auto simp: owned_def)
qed

lemma owned_mono: "length s \<le> length s' \<Longrightarrow> owned s0 M s \<subseteq> owned s0 M s'"
  by (auto simp: owned_def)

lemma extend_skip:
  "get s opts name = Ref t \<or> get s opts name = Undefined \<Longrightarrow>
   extend_names n deep t opts (name # names) s = extend_names n deep t opts names s"
  by (auto simp: truthy_def Let_def)

lemma extend_set:
  "get s opts name \<noteq> Ref t \<Longrightarrow> get s opts name \<noteq> Undefined \<Longrightarrow> \<not> (deep \<and> mergeable s (get s opts name)) \<Longrightarrow>
   extend_names n deep t opts (name # names) s =
     (case put s t name (get s opts name) of Inl e \<Rightarrow> Inl e | Inr s1 \<Rightarrow> extend_names n deep t opts names s1)"
  by (auto simp: mergeable_def Let_def)

lemma extend_merge:
  "get s opts name = Ref c \<Longrightarrow> c \<noteq> t \<Longrightarrow> mergeable s (Ref c) \<Longrightarrow>
   extend_names n True t opts (name # names) s =
     (case n of
        0 \<Rightarrow> Inl Stack_overflow
      | Suc m \<Rightarrow>
          (case clone_for (get s t name) (Ref c) s of (clone, s1) \<Rightarrow>
             (case extend_names m True clone c (for_in s1 c) s1 of
                Inl e \<Rightarrow> Inl e
              | Inr s2 \<Rightarrow>
                  (case put s2 t name (Ref clone) of Inl e \<Rightarrow> Inl e | Inr s3 \<Rightarrow> extend_names n True t opts names s3))))"
  by (auto simp: mergeable_def truthy_def Let_def split: nat.split)

lemma mergeable_Ref: "mergeable s v \<Longrightarrow> \<exists>c. v = Ref c"
  by (cases v) (auto simp: mergeable_def isPlainObject_def isArray_def)

declare extend_names.simps(2) [simp del]

lemma for_in_names: "store_ok s \<Longrightarrow> a < length s \<Longrightarrow> ''__proto__'' \<notin> set (for_in s a)"
  unfolding for_in_def using enumerated_own by blast

lemma extend_names_ok:
  assumes M: "region_ok s0 M"
  shows "extend_names n True t opts names s = Inr s' \<Longrightarrow> separate s0 M s \<Longrightarrow> t \<in> owned s0 M s \<Longrightarrow>
    opts < length s \<Longrightarrow> ''__proto__'' \<notin> set names \<Longrightarrow> separate s0 M s' \<and> length s \<le> length s'"
proof (induction n arbitrary: t opts names s s' rule: less_induct)
  case (less n)
  note calls = less.IH
  show ?case using less.prems
  proof (induction names arbitrary: s)
    case (Cons name names)
    note k = Cons.prems(5)
    then have k': "name \<noteq> ''__proto__''" "''__proto__'' \<notin> set names" by auto
    note s = Cons.prems(2)
    let ?copy = "get s opts name"
    have put: "\<exists>s2. put s1 t name v = Inr s2 \<and> separate s0 M s2 \<and> length s2 = length s1"
      if "separate s0 M s1" "length s \<le> length s1" "\<forall>b. v = Ref b \<longrightarrow> b < length s1 \<and> (mergeable s1 v \<longrightarrow> b \<in> owned s0 M s1)"
      for v s1
      using separate_put [OF that(1) M _ k'(1) that(3)] owned_mono [OF that(2)] Cons.prems(3) by blast
    have go_on: ?case if "extend_names n True t opts names s1 = Inr s'" "separate s0 M s1" "length s \<le> length s1" for s1
      using Cons.IH [OF that(1,2) _ _ k'(2)] that(3) Cons.prems(3,4) owned_mono [OF that(3)] by fastforce
    have bounded: "c < length s" if "?copy = Ref c" for c
      by (rule get_bounded [OF separateD(1) [OF s] Cons.prems(4) k'(1) that])
    show ?case
    proof (cases "?copy = Ref t \<or> ?copy = Undefined")
      case True
      with Cons.prems(1) show ?thesis by (intro go_on [OF _ s]) (simp_all add: extend_skip)
    next
      case False
      show ?thesis
      proof (cases "mergeable s ?copy")
        case True
        then obtain c where c: "?copy = Ref c" using mergeable_Ref by blast
        with Cons.prems(1) False True obtain m where m: "n = Suc m" by (cases n) (auto simp: extend_merge)
        obtain clone s1 where cl: "clone_for (get s t name) (Ref c) s = (clone, s1)" by (rule prod.exhaust)
        note cl' = clone_ok [OF s M Cons.prems(3) k'(1) cl]
        with Cons.prems(1) False True c m cl obtain s2 s3 where s2: "extend_names m True clone c (for_in s1 c) s1 = Inr s2"
          "put s2 t name (Ref clone) = Inr s3" "extend_names n True t opts names s3 = Inr s'"
          by (auto simp: extend_merge split: sum.splits)
        have "c < length s1" using bounded [OF c] cl' by simp
        then have s2': "separate s0 M s2 \<and> length s1 \<le> length s2"
          using calls [of m, OF _ s2(1)] cl' m for_in_names [OF separateD(1)] by blast
        then have "clone \<in> owned s0 M s2" using cl' owned_mono by blast
        moreover from this have "clone < length s2"
          using region_okD(2) [OF M] separateD(2) s2' by (fastforce simp: owned_def)
        ultimately have "separate s0 M s3 \<and> length s3 = length s2"
          using put [of s2 "Ref clone"] s2' cl' s2(2) by auto
        then show ?thesis using go_on [OF s2(3)] s2' cl' by simp
      next
        case not_merge: False
        with Cons.prems(1) False obtain s1 where s1: "put s t name ?copy = Inr s1"
          "extend_names n True t opts names s1 = Inr s'"
          by (auto simp: extend_set split: sum.splits)
        have "\<forall>b. ?copy = Ref b \<longrightarrow> b < length s \<and> (mergeable s ?copy \<longrightarrow> b \<in> owned s0 M s)"
          using not_merge bounded by blast
        from put [OF s le_refl this] s1(1) have "separate s0 M s1 \<and> length s1 = length s" by auto
        then show ?thesis using go_on [OF s1(2)] by simp
      qed
    qed
  qed simp
qed


lemma extend_all_ok:
  assumes M: "region_ok s0 M"
  shows "extend_all n True t vs s = Inr s' \<Longrightarrow> separate s0 M s \<Longrightarrow> t \<in> owned s0 M s \<Longrightarrow>
    \<forall>b. Ref b \<in> set vs \<longrightarrow> b < length s \<Longrightarrow> separate s0 M s' \<and> length s \<le> length s'"
proof (induction vs arbitrary: s)
  case (Cons v vs)
  show ?case
  proof (cases "\<exists>a. v = Ref a")
    case True
    then obtain a where a: "v = Ref a" by blast
    with Cons.prems(1) obtain s1 where s1: "extend_names n True t a (for_in s a) s = Inr s1" "extend_all n True t vs s1 = Inr s'"
      by (auto split: sum.splits)
    have "a < length s" using Cons.prems(4) a by simp
    from extend_names_ok [OF M s1(1) Cons.prems(2,3) this for_in_names [OF separateD(1) [OF Cons.prems(2)] this]]
    have ok: "separate s0 M s1 \<and> length s \<le> length s1" .
    then have "t \<in> owned s0 M s1" using owned_mono Cons.prems(3) by blast
    with Cons.IH [OF s1(2)] ok Cons.prems(4) show ?thesis by fastforce
  next
    case False
    then have "extend_all n True t vs s = Inr s'" using Cons.prems(1) by (cases v) auto
    with Cons show ?thesis by simp
  qed
qed simp

lemma separate_start: "store_ok s \<Longrightarrow> \<forall>a k b. a \<in> M \<longrightarrow> own s a k = Some (Ref b) \<longrightarrow> mergeable s (Ref b) \<longrightarrow> b \<in> M \<Longrightarrow> separate s M s"
  by (auto simp: separate_def)

lemma extend_deep_call:
  "extend n this (Bool True # Ref t # v # vs) s =
     (case extend_all n True t (v # vs) s of Inl e \<Rightarrow> Inl e | Inr s' \<Rightarrow> Inr (t, s'))"
  by (simp add: extend_def or_new_def argument_def truthy_def target_of_def del: extend_all.simps)

text \<open>
  C22: A deep copy into an object changes nothing but what could be reached from it through plain objects and arrays, and what
  can be reached from it afterwards is that or new: no object of the sources is moved or shared. It is asked that no property
  is called \<open>__proto__\<close>, that nothing inherits from what is reached, and that literals inherit nothing that can be merged.
\<close>

theorem deep_extend_separates:
  assumes "store_ok s" "t < length s" "\<forall>b. Ref b \<in> set (v # vs) \<longrightarrow> b < length s"
    and "\<forall>a. reached s t a \<longrightarrow> 1 < a \<and> proto (s ! a) \<in> {None, Some 0, Some 1} \<and> (\<forall>b<length s. proto (s ! b) \<noteq> Some a)"
    and "\<forall>p k b. p \<le> 1 \<longrightarrow> k \<noteq> ''__proto__'' \<longrightarrow> get s p k = Ref b \<longrightarrow> \<not> mergeable s (Ref b)"
    and "extend n this (Bool True # Ref t # v # vs) s = Inr (t', s')"
  shows "t' = t \<and> (\<forall>a<length s. \<not> reached s t a \<longrightarrow> s' ! a = s ! a) \<and>
    (\<forall>a. reached s' t a \<longrightarrow> reached s t a \<or> length s \<le> a)"
proof -
  define M where "M = {a. reached s t a}"
  have bounded: "reached s t a \<Longrightarrow> a < length s" for a
    by (induction rule: reached.induct) (use assms(2) get_bounded [OF assms(1)] in auto)
  have M: "region_ok s M"
  proof -
    have "p \<le> 1" if "reached s t a" "proto (s ! a) = Some p" for a p using that assms(4) by fastforce
    moreover have "p \<notin> M" if "a < length s" "proto (s ! a) = Some p" for a p using that assms(4) by (auto simp: M_def)
    moreover have "0 \<notin> M" "1 \<notin> M" using assms(4) by (auto simp: M_def)
    ultimately show ?thesis using assms(1,5) bounded unfolding region_ok_def M_def by blast
  qed
  have "own s a k = Some (Ref b) \<Longrightarrow> a \<in> M \<Longrightarrow> mergeable s (Ref b) \<Longrightarrow> b \<in> M" for a k b
  proof -
    assume b: "own s a k = Some (Ref b)" "a \<in> M" "mergeable s (Ref b)"
    then have "k \<noteq> ''__proto__''" using store_okD(3) [OF assms(1), of a] bounded by (auto simp: M_def)
    then have "get s a k = Ref b" using get_own [OF assms(1)] b bounded by (simp add: M_def)
    with b \<open>k \<noteq> ''__proto__''\<close> show "b \<in> M" unfolding M_def by (blast intro: reached_property)
  qed
  then have start: "separate s M s" using assms(1) by (intro separate_start) blast+
  have t: "t \<in> owned s M s" by (simp add: owned_def M_def reached_here)
  from assms(6) have t': "t' = t" "extend_all n True t (v # vs) s = Inr s'"
    by (auto simp: extend_deep_call simp del: extend_all.simps split: sum.splits)
  from extend_all_ok [OF M t'(2) start t assms(3)] have s': "separate s M s'" "length s \<le> length s'" by simp_all
  have "reached s' t a \<Longrightarrow> a \<in> owned s M s'" for a
  proof (induction rule: reached.induct)
    case reached_here
    then show ?case using t owned_mono [OF s'(2)] by blast
  next
    case (reached_property b k c)
    then show ?case using get_owned [OF M s'(1)] by blast
  qed
  then show ?thesis using t'(1) separateD(5) [OF s'(1)] by (auto simp: owned_def M_def)
qed


definition demo_store :: store where
  "demo_store =
     [\<lparr>kind = Object_class, proto = None, shown = [], hidden = [(''constructor'', Ref 2)]\<rparr>,
      \<lparr>kind = Array_class, proto = Some 0, shown = [], hidden = []\<rparr>,
      \<lparr>kind = Function_class True, proto = Some 0, shown = [], hidden = []\<rparr>,
      \<lparr>kind = Object_class, proto = Some 0, shown = [(''a'', Ref 4)], hidden = []\<rparr>,
      \<lparr>kind = Object_class, proto = Some 0, shown = [(''x'', Prim ''1'')], hidden = []\<rparr>,
      \<lparr>kind = Object_class, proto = Some 0, shown = [(''a'', Ref 6)], hidden = []\<rparr>,
      \<lparr>kind = Object_class, proto = Some 0, shown = [(''y'', Prim ''2'')], hidden = []\<rparr>]"

lemma demo_store_table:
  "length demo_store = 7"
  "a < 7 \<Longrightarrow> proto (demo_store ! a) = (if a = 0 then None else Some 0)"
  "a < 7 \<Longrightarrow> own demo_store a k =
     (if a = 0 \<and> k = ''constructor'' then Some (Ref 2) else if a = 3 \<and> k = ''a'' then Some (Ref 4)
      else if a = 4 \<and> k = ''x'' then Some (Prim ''1'') else if a = 5 \<and> k = ''a'' then Some (Ref 6)
      else if a = 6 \<and> k = ''y'' then Some (Prim ''2'') else None)"
proof -
  have a: "a < 7 \<Longrightarrow> a \<in> {0, 1, 2, 3, 4, 5, 6}" by auto
  show "length demo_store = 7" by (simp add: demo_store_def)
  show "a < 7 \<Longrightarrow> proto (demo_store ! a) = (if a = 0 then None else Some 0)"
    using a by (auto simp: demo_store_def)
  show "a < 7 \<Longrightarrow> own demo_store a k =
     (if a = 0 \<and> k = ''constructor'' then Some (Ref 2) else if a = 3 \<and> k = ''a'' then Some (Ref 4)
      else if a = 4 \<and> k = ''x'' then Some (Prim ''1'') else if a = 5 \<and> k = ''a'' then Some (Ref 6)
      else if a = 6 \<and> k = ''y'' then Some (Prim ''2'') else None)"
    using a by (auto simp: own_def demo_store_def obj_get_def)
qed

lemma demo_store_ok: "store_ok demo_store"
  unfolding store_ok_def demo_store_table(1) by (auto simp: demo_store_table split: if_split_asm)

lemma demo_store_get:
  "a < 7 \<Longrightarrow> k \<noteq> ''__proto__'' \<Longrightarrow> get demo_store a k =
     (case own demo_store a k of Some v \<Rightarrow> v | None \<Rightarrow> if k = ''constructor'' then Ref 2 else Undefined)"
  using get_own [OF demo_store_ok, of a k] get_own [OF demo_store_ok, of 0 k]
  by (auto simp: demo_store_table split: option.split)

lemma demo_store_function: "\<not> mergeable demo_store (Ref 2)"
  by (simp add: mergeable_def isPlainObject_def isArray_def demo_store_def)

lemma demo_store_reached: "reached demo_store 3 a \<Longrightarrow> a \<in> {3, 4}"
proof (induction rule: reached.induct)
  case (reached_property b k c)
  then show ?case using demo_store_function by (auto simp: demo_store_get demo_store_table split: if_split_asm)
qed simp

theorem deep_extend_separates_witness:
  "case extend 5 0 [Bool True, Ref 3, Ref 5] demo_store of
     Inr (t, s') \<Rightarrow> t = 3 \<and> s' ! 6 = demo_store ! 6 \<and> \<not> reached s' 3 6
   | Inl e \<Rightarrow> False"
proof -
  have "case extend 5 0 [Bool True, Ref 3, Ref 5] demo_store of Inr x \<Rightarrow> True | Inl e \<Rightarrow> False" by code_simp
  then obtain t s' where s': "extend 5 0 [Bool True, Ref 3, Ref 5] demo_store = Inr (t, s')"
    by (cases "extend 5 0 [Bool True, Ref 3, Ref 5] demo_store") auto
  have "\<forall>a. reached demo_store 3 a \<longrightarrow> 1 < a \<and> proto (demo_store ! a) \<in> {None, Some 0, Some 1} \<and>
      (\<forall>b<length demo_store. proto (demo_store ! b) \<noteq> Some a)"
  proof (intro allI impI)
    fix a assume "reached demo_store 3 a"
    then have "a = 3 \<or> a = 4" using demo_store_reached [of a] by simp
    then show "1 < a \<and> proto (demo_store ! a) \<in> {None, Some 0, Some 1} \<and>
        (\<forall>b<length demo_store. proto (demo_store ! b) \<noteq> Some a)"
      by (auto simp: demo_store_table)
  qed
  moreover have "\<forall>p k b. p \<le> 1 \<longrightarrow> k \<noteq> ''__proto__'' \<longrightarrow> get demo_store p k = Ref b \<longrightarrow> \<not> mergeable demo_store (Ref b)"
    using demo_store_function by (auto simp: demo_store_get demo_store_table split: if_split_asm)
  ultimately have "t = 3 \<and> (\<forall>a<length demo_store. \<not> reached demo_store 3 a \<longrightarrow> s' ! a = demo_store ! a) \<and>
    (\<forall>a. reached s' 3 a \<longrightarrow> reached demo_store 3 a \<or> length demo_store \<le> a)"
    using s' by (intro deep_extend_separates [OF demo_store_ok, of 3 "Ref 5" "[]"]) (simp_all add: demo_store_table)
  moreover have "\<not> reached demo_store 3 6" using demo_store_reached [of 6] by auto
  moreover have "6 < length demo_store" by (simp add: demo_store_table)
  ultimately show ?thesis unfolding s' sum.case prod.case by force
qed


section \<open>A deep copy is a copy\<close>

text \<open>What can be seen of a value down to a depth, without the properties that are undefined.\<close>

datatype tree = Cut | Leaf jvalue | Node kind "(string \<times> tree) list"

definition defined :: "(string, jvalue) jsobj \<Rightarrow> (string, jvalue) jsobj" where
  "defined es = filter (\<lambda>(k, w). w \<noteq> Undefined) es"

fun view :: "nat \<Rightarrow> store \<Rightarrow> jvalue \<Rightarrow> tree" where
  "view 0 s v = Cut"
| "view (Suc d) s v =
     (case v of
        Ref a \<Rightarrow> if mergeable s v then Node (kind (s ! a)) (map (\<lambda>(k, w). (k, view d s w)) (defined (shown (s ! a)))) else Leaf v
      | _ \<Rightarrow> Leaf v)"

fun within :: "nat \<Rightarrow> store \<Rightarrow> jvalue \<Rightarrow> bool" where
  "within 0 s v \<longleftrightarrow> \<not> mergeable s v"
| "within (Suc n) s v \<longleftrightarrow> (case v of Ref a \<Rightarrow> mergeable s v \<longrightarrow> (\<forall>(k, w)\<in>set (shown (s ! a)). within n s w) | _ \<Rightarrow> True)"

text \<open>Literals: nothing that inherits from them is enumerated or merged, and \<open>{}\<close> is plain.\<close>

definition literals_ok :: "store \<Rightarrow> bool" where
  "literals_ok s \<longleftrightarrow> store_ok s \<and> shown (s ! 0) = [] \<and> shown (s ! 1) = [] \<and> proto (s ! 0) = None \<and> proto (s ! 1) = Some 0 \<and>
     (\<forall>p k b. p \<le> 1 \<longrightarrow> k \<noteq> ''__proto__'' \<longrightarrow> get s p k = Ref b \<longrightarrow> \<not> mergeable s (Ref b)) \<and>
     (\<exists>c. own s 0 ''constructor'' = Some (Ref c) \<and> kind (s ! c) = Function_class True)"

text \<open>A set of objects of literals that has what its objects refer to and that can be merged.\<close>

definition source_ok :: "store \<Rightarrow> nat set \<Rightarrow> bool" where
  "source_ok s R \<longleftrightarrow>
     (\<forall>a\<in>R. a < length s \<and> proto (s ! a) \<in> {None, Some 0, Some 1} \<and> distinct (map fst (shown (s ! a))) \<and>
        (\<forall>k b. (k, Ref b) \<in> set (shown (s ! a)) \<longrightarrow> mergeable s (Ref b) \<longrightarrow> b \<in> R))"

text \<open>A new object as a target.\<close>

definition fresh_ok :: "store \<Rightarrow> nat \<Rightarrow> bool" where
  "fresh_ok s t \<longleftrightarrow> 1 < t \<and> t < length s \<and> (s ! t = new_object \<or> s ! t = new_array) \<and>
     (\<forall>a<length s. proto (s ! a) \<noteq> Some t)"

lemma view_same:
  assumes "\<And>a. a \<in> A \<Longrightarrow> s' ! a = s ! a" "\<And>v. mergeable s v \<Longrightarrow> v \<in> Ref ` A \<Longrightarrow> mergeable s' v"
    "\<And>a k v. a \<in> A \<Longrightarrow> (k, v) \<in> set (shown (s ! a)) \<Longrightarrow> mergeable s v \<Longrightarrow> v \<in> Ref ` A"
    "\<And>a k v. a \<in> A \<Longrightarrow> (k, v) \<in> set (shown (s ! a)) \<Longrightarrow> mergeable s' v \<Longrightarrow> mergeable s v"
  shows "v \<in> Ref ` A \<Longrightarrow> mergeable s v \<Longrightarrow> view d s' v = view d s v"
proof (induction d arbitrary: v)
  case (Suc d)
  then obtain a where a: "v = Ref a" "a \<in> A" by blast
  have leaf: "\<not> mergeable st w \<Longrightarrow> view d st w = (if d = 0 then Cut else Leaf w)" for st w
    by (cases d; cases w) auto
  have "view d s' w = view d s w" if "(k, w) \<in> set (shown (s ! a))" for k w
  proof (cases "mergeable s w")
    case True
    then show ?thesis using Suc.IH assms(3) [OF a(2) that] by blast
  next
    case False
    then have "\<not> mergeable s' w" using assms(4) [OF a(2) that] by blast
    with False leaf show ?thesis by metis
  qed
  then have "map (\<lambda>(k, w). (k, view d s' w)) (defined (shown (s ! a))) = map (\<lambda>(k, w). (k, view d s w)) (defined (shown (s ! a)))"
    by (auto simp: defined_def)
  with Suc.prems assms(1) [OF a(2)] assms(2) show ?case by (simp add: a(1))
qed simp

lemma literals_region: "literals_ok s \<Longrightarrow> fresh_ok s t \<Longrightarrow> region_ok s {t}"
  unfolding literals_ok_def fresh_ok_def region_ok_def by (auto simp: new_object_def new_array_def)

lemma fresh_start: "literals_ok s \<Longrightarrow> fresh_ok s t \<Longrightarrow> separate s {t} s"
  by (rule separate_start)
    (auto simp: literals_ok_def fresh_ok_def own_def new_object_def new_array_def js_obj)

lemma literals_get:
  assumes "literals_ok s" "a < length s" "proto (s ! a) \<in> {None, Some 0, Some 1}" "k \<noteq> ''__proto__''" "own s a k = None"
  shows "\<not> mergeable s (get s a k)"
proof (cases "proto (s ! a)")
  case None
  then show ?thesis
    using assms get_own [of s a k] by (auto simp: literals_ok_def mergeable_def isPlainObject_def isArray_def)
next
  case (Some p)
  then have "get s a k = get s p k" using assms get_own [of s a k] by (simp add: literals_ok_def)
  moreover have "p \<le> 1" using Some assms(3) by auto
  ultimately show ?thesis using assms(1,4) unfolding literals_ok_def by (metis mergeable_Ref)
qed

lemma literals_for_in:
  assumes "literals_ok s" "a < length s" "proto (s ! a) \<in> {None, Some 0, Some 1}"
  shows "for_in s a = map fst (shown (s ! a))"
proof -
  have e: "enumerated n s seen p = []" if "p \<le> 1" for n seen p
  proof -
    have "p = 0 \<or> p = 1" using that by auto
    moreover have "enumerated n s seen 0 = []" for n seen
      using assms(1) by (cases n) (auto simp: literals_ok_def obj_keys_def)
    ultimately show ?thesis using assms(1) by (cases n) (auto simp: literals_ok_def obj_keys_def)
  qed
  obtain n where "length s = Suc n" using assms(2) by (cases "length s") auto
  then show ?thesis using assms(3) e [of 0] e [of 1] by (auto simp: for_in_def obj_keys_def)
qed


lemma put_new:
  assumes "own s t k = None" "k \<noteq> ''__proto__''"
  shows "put s t k v = Inr (s[t := (s ! t)\<lparr>shown := shown (s ! t) @ [(k, v)]\<rparr>])"
proof -
  have n: "obj_get (shown (s ! t)) k = None" "obj_get (hidden (s ! t)) k = None"
    using assms(1) by (auto simp: own_def split: option.splits)
  have "obj_put k v es = es @ [(k, v)]" if "obj_get es k = None" for es :: "(string, jvalue) jsobj"
    using that by (induction es) (auto simp: obj_put_def obj_get_def split: if_splits)
  with n assms(2) show ?thesis by (simp add: put_def Let_def)
qed

definition base_ok :: "store \<Rightarrow> nat \<Rightarrow> bool" where
  "base_ok s0 t \<longleftrightarrow> literals_ok s0 \<and> fresh_ok s0 t"

lemma base_okD:
  assumes "base_ok s0 t"
  shows "region_ok s0 {t}" "t < length s0" "1 < t" "store_ok s0" "literals_ok s0"
  using assms literals_region by (auto simp: base_ok_def fresh_ok_def literals_ok_def)

lemma keep_object: "separate s0 {t} s \<Longrightarrow> a < length s0 \<Longrightarrow> a \<noteq> t \<Longrightarrow> s ! a = s0 ! a"
  by (simp add: separateD(5))

lemma keep_literals:
  assumes B: "base_ok s0 t" and s: "separate s0 {t} s"
  shows "literals_ok s"
proof -
  have l: "0 < length s0" "1 < length s0" using base_okD(2,3) [OF B] by linarith+
  have 01: "s ! 0 = s0 ! 0" "s ! 1 = s0 ! 1"
    using keep_object [OF s l(1)] keep_object [OF s l(2)] base_okD(3) [OF B] by blast+
  have "\<not> mergeable s (Ref b)" if "p \<le> 1" "k \<noteq> ''__proto__''" "get s p k = Ref b" for p k b
  proof -
    have p: "p < length s0" "p \<notin> {t}" using that(1) base_okD(2,3) [OF B] by auto
    then have g: "get s0 p k = Ref b" using get_static [OF base_okD(1) [OF B] s that(2)] that(3) by simp
    then have "b < length s0" by (rule get_bounded [OF base_okD(4) [OF B] p(1) that(2)])
    then show ?thesis
      using mergeable_same(3) [OF base_okD(1) [OF B] s] base_okD(5) [OF B] that(1,2) g by (auto simp: literals_ok_def)
  qed
  moreover obtain c where c: "own s0 0 ''constructor'' = Some (Ref c)" "kind (s0 ! c) = Function_class True"
    using base_okD(5) [OF B] by (auto simp: literals_ok_def)
  moreover have "c < length s0" by (rule store_okD(2) [OF base_okD(4) [OF B] l(1) c(1)])
  ultimately show ?thesis
    using base_okD(5) [OF B] 01 separateD(1,3) [OF s] own_same [OF 01(1)] unfolding literals_ok_def by auto
qed

lemma new_mergeable:
  assumes B: "base_ok s0 t" and s: "separate s0 {t} s" and b: "length s0 \<le> b" "b < length s"
  shows "mergeable s (Ref b)"
proof -
  obtain c where "own s 0 ''constructor'' = Some (Ref c)" "kind (s ! c) = Function_class True"
    using keep_literals [OF B s] by (auto simp: literals_ok_def)
  with separateD(6) [OF s b] show ?thesis by (auto simp: mergeable_def isPlainObject_def isArray_def)
qed

lemma mergeable_keep:
  assumes B: "base_ok s0 t" and s: "separate s0 {t} s" "separate s0 {t} s'" "length s \<le> length s'"
    and v: "\<forall>b. v = Ref b \<longrightarrow> b < length s"
  shows "mergeable s' v = mergeable s v"
proof (cases "\<exists>b. v = Ref b")
  case True
  then obtain b where b: "v = Ref b" "b < length s" using v by blast
  show ?thesis
  proof (cases "b < length s0")
    case True
    then show ?thesis
      using mergeable_same(3) [OF base_okD(1) [OF B] s(1) True] mergeable_same(3) [OF base_okD(1) [OF B] s(2) True] b by simp
  next
    case False
    then show ?thesis using new_mergeable [OF B s(1), of b] new_mergeable [OF B s(2), of b] b s(3) by simp
  qed
next
  case False
  then show ?thesis using mergeable_Ref by blast
qed

lemma source_bounded:
  assumes "store_ok s" "source_ok s R" "a \<in> R" "(k, v) \<in> set (shown (s ! a))"
  shows "own s a k = Some v" "v = Ref b \<Longrightarrow> b < length s" "k \<noteq> ''__proto__''"
proof -
  have "obj_get (shown (s ! a)) k = Some v" using assms(2-4) by (simp add: source_ok_def obj_get_def)
  then show o: "own s a k = Some v" by (simp add: own_def)
  have a: "a < length s" using assms(2,3) by (simp add: source_ok_def)
  show "v = Ref b \<Longrightarrow> b < length s" using store_okD(2) [OF assms(1) a] o by blast
  show "k \<noteq> ''__proto__''" using store_okD(3) [OF assms(1) a] o by auto
qed

lemma source_keep:
  assumes B: "base_ok s0 t" and s: "separate s0 {t} s" and R: "source_ok s0 R" "t \<notin> R"
  shows "source_ok s R" "a \<in> R \<Longrightarrow> s ! a = s0 ! a" "b < length s0 \<Longrightarrow> mergeable s (Ref b) = mergeable s0 (Ref b)"
proof -
  have l: "a < length s0" if "a \<in> R" for a using R(1) that by (simp add: source_ok_def)
  show o: "a \<in> R \<Longrightarrow> s ! a = s0 ! a" for a using keep_object [OF s l] R(2) by blast
  show m: "b < length s0 \<Longrightarrow> mergeable s (Ref b) = mergeable s0 (Ref b)" for b
    by (rule mergeable_same(3) [OF base_okD(1) [OF B] s])
  have "b \<in> R" if "a \<in> R" "(k, Ref b) \<in> set (shown (s0 ! a))" "mergeable s (Ref b)" for a k b
    using m [OF source_bounded(2) [OF base_okD(4) [OF B] R(1) that(1,2) refl]] that R(1) unfolding source_ok_def by blast
  note closed = this
  show "source_ok s R"
    unfolding source_ok_def
  proof
    fix a assume a: "a \<in> R"
    have "a < length s" using l [OF a] separateD(2) [OF s] by simp
    moreover have "proto (s0 ! a) \<in> {None, Some 0, Some 1} \<and> distinct (map fst (shown (s0 ! a)))"
      using R(1) a unfolding source_ok_def by blast
    ultimately show "a < length s \<and> proto (s ! a) \<in> {None, Some 0, Some 1} \<and> distinct (map fst (shown (s ! a))) \<and>
        (\<forall>k b. (k, Ref b) \<in> set (shown (s ! a)) \<longrightarrow> mergeable s (Ref b) \<longrightarrow> b \<in> R)"
      unfolding o [OF a] using closed [OF a] by blast
  qed
qed

lemma mergeable_value: "mergeable s v = (\<exists>b. v = Ref b \<and> mergeable s (Ref b))"
  using mergeable_Ref by blast

lemma view_leaf: "\<not> mergeable s v \<Longrightarrow> view d s v = (if d = 0 then Cut else Leaf v)"
  by (cases d; cases v) auto

text \<open>What is seen of a source does not change.\<close>

lemma view_source:
  assumes B: "base_ok s0 t" and s: "separate s0 {t} s" and R: "source_ok s0 R" "t \<notin> R"
    and a: "a \<in> R" "(k, v) \<in> set (shown (s0 ! a))"
  shows "view d s v = view d s0 v" "within n s v = within n s0 v"
proof -
  note keep = source_keep [OF B s R]
  have m: "mergeable s v = mergeable s0 v" if "a \<in> R" "(k, v) \<in> set (shown (s0 ! a))" for a k v
    using source_bounded(2) [OF base_okD(4) [OF B] R(1) that] keep(3) mergeable_value [of s v] mergeable_value [of s0 v] by auto
  have R': "v \<in> Ref ` R" if "a \<in> R" "(k, v) \<in> set (shown (s0 ! a))" "mergeable s0 v" for a k v
    using that R(1) mergeable_Ref [OF that(3)] unfolding source_ok_def by blast
  have "v \<in> Ref ` R \<Longrightarrow> mergeable s0 v \<Longrightarrow> view d s v = view d s0 v" for d v
  proof (rule view_same [of R])
    fix v assume "mergeable s0 v" "v \<in> Ref ` R"
    then show "mergeable s v" using keep(3) R(1) by (auto simp: source_ok_def)
  qed (use keep(2) m R' in blast)+
  then show "view d s v = view d s0 v"
  proof (cases "mergeable s0 v")
    case False
    then have "\<not> mergeable s v" using m [OF a] by simp
    with False show ?thesis by (metis view_leaf)
  qed (use R' [OF a] in blast)
  have "v \<in> Ref ` R \<Longrightarrow> within n s v = within n s0 v" for n v
  proof (induction n arbitrary: v)
    case 0
    then show ?case using keep(3) R(1) by (auto simp: source_ok_def)
  next
    case (Suc n)
    then obtain b where b: "v = Ref b" "b \<in> R" by blast
    have "within n s w = within n s0 w" if "(k, w) \<in> set (shown (s0 ! b))" for k w
    proof (cases "mergeable s0 w")
      case True
      then show ?thesis using Suc.IH R' [OF b(2) that] by blast
    next
      case False
      then have "\<not> mergeable s w" using m [OF b(2) that] by simp
      with False show ?thesis by (cases n; cases w) auto
    qed
    then show ?case using b keep(2,3) R(1) by (auto simp: source_ok_def)
  qed
  then show "within n s v = within n s0 v"
  proof (cases "mergeable s0 v")
    case False
    then have "\<not> mergeable s v" using m [OF a] by simp
    with False show ?thesis by (cases n; cases v) auto
  qed (use R' [OF a] in blast)
qed


text \<open>A property and its copy, and new objects that refer to nothing old that can be merged.\<close>

definition copied :: "store \<Rightarrow> store \<Rightarrow> string \<times> jvalue \<Rightarrow> string \<times> jvalue \<Rightarrow> bool" where
  "copied s0 s e e' \<longleftrightarrow> fst e' = fst e \<and> snd e' \<noteq> Undefined \<and> (\<forall>d. view d s (snd e') = view d s0 (snd e)) \<and>
     (\<forall>b. snd e' = Ref b \<longrightarrow> b < length s \<and> (mergeable s (Ref b) \<longrightarrow> length s0 \<le> b))"

definition closed_new :: "store \<Rightarrow> store \<Rightarrow> bool" where
  "closed_new s0 s \<longleftrightarrow> (\<forall>a k b. length s0 \<le> a \<longrightarrow> a < length s \<longrightarrow> (k, Ref b) \<in> set (shown (s ! a)) \<longrightarrow>
     b < length s \<and> (mergeable s (Ref b) \<longrightarrow> length s0 \<le> b))"

text \<open>What is seen of new objects does not change when more objects are added.\<close>

lemma view_new:
  assumes B: "base_ok s0 t" and s: "separate s0 {t} s" "separate s0 {t} s'" "length s \<le> length s'"
    and same: "\<And>a. length s0 \<le> a \<Longrightarrow> a < length s \<Longrightarrow> s' ! a = s ! a" and c: "closed_new s0 s"
    and v: "\<forall>b. v = Ref b \<longrightarrow> b < length s \<and> (mergeable s (Ref b) \<longrightarrow> length s0 \<le> b)"
  shows "view d s' v = view d s v"
proof (cases "mergeable s v")
  case True
  then obtain b where b: "v = Ref b" "length s0 \<le> b" "b < length s" using v mergeable_Ref [OF True] by blast
  let ?A = "{length s0..<length s}"
  show ?thesis
  proof (rule view_same [of ?A])
    show "a \<in> ?A \<Longrightarrow> s' ! a = s ! a" for a using same by simp
    show "mergeable s v \<Longrightarrow> v \<in> Ref ` ?A \<Longrightarrow> mergeable s' v" for v using mergeable_keep [OF B s, of v] by auto
    have new: "\<forall>b. v = Ref b \<longrightarrow> b < length s \<and> (mergeable s (Ref b) \<longrightarrow> length s0 \<le> b)"
      if "a \<in> ?A" "(k, v) \<in> set (shown (s ! a))" for a k v
      using c that unfolding closed_new_def by auto
    show "v \<in> Ref ` ?A" if "a \<in> ?A" "(k, v) \<in> set (shown (s ! a))" "mergeable s v" for a k v
      using new [OF that(1,2)] mergeable_Ref [OF that(3)] that(3) by auto
    show "mergeable s v" if "a \<in> ?A" "(k, v) \<in> set (shown (s ! a))" "mergeable s' v" for a k v
      using mergeable_keep [OF B s, of v] new [OF that(1,2)] that(3) by blast
    show "v \<in> Ref ` ?A" using b by simp
  qed (rule True)
next
  case False
  moreover have "\<not> mergeable s' v" using False mergeable_keep [OF B s, of v] v by simp
  ultimately show ?thesis by (metis view_leaf)
qed

lemma copied_keep:
  assumes "base_ok s0 t" "separate s0 {t} s" "separate s0 {t} s'" "length s \<le> length s'"
    and "\<And>a. length s0 \<le> a \<Longrightarrow> a < length s \<Longrightarrow> s' ! a = s ! a" "closed_new s0 s" "copied s0 s e e'"
  shows "copied s0 s' e e'"
proof -
  have v: "\<forall>b. snd e' = Ref b \<longrightarrow> b < length s \<and> (mergeable s (Ref b) \<longrightarrow> length s0 \<le> b)"
    using assms(7) by (simp add: copied_def)
  have "view d s' (snd e') = view d s (snd e')" for d by (rule view_new [OF assms(1-6) v])
  moreover have "b < length s' \<and> (mergeable s' (Ref b) \<longrightarrow> length s0 \<le> b)" if "snd e' = Ref b" for b
    using v that assms(4) mergeable_keep [OF assms(1-4), of "Ref b"] by auto
  ultimately show ?thesis using assms(7) unfolding copied_def by auto
qed

lemma closed_put:
  assumes "base_ok s0 t" "separate s0 {t} s" "separate s0 {t} s'" "length s = length s'"
    and "\<And>a. a \<noteq> t \<Longrightarrow> s' ! a = s ! a" "closed_new s0 s"
  shows "closed_new s0 s'"
proof -
  have "b < length s' \<and> (mergeable s' (Ref b) \<longrightarrow> length s0 \<le> b)"
    if "length s0 \<le> a" "a < length s'" "(k, Ref b) \<in> set (shown (s' ! a))" for a k b
  proof -
    have "a \<noteq> t" using that(1) base_okD(2) [OF assms(1)] by auto
    then have "b < length s \<and> (mergeable s (Ref b) \<longrightarrow> length s0 \<le> b)"
      using assms(4-6) that unfolding closed_new_def by metis
    then show ?thesis using mergeable_keep [OF assms(1-3), of "Ref b"] assms(4) by auto
  qed
  then show ?thesis unfolding closed_new_def by blast
qed

lemma copied_keys: "list_all2 (copied s0 s) es es' \<Longrightarrow> map fst es' = map fst es"
  by (induction rule: list_all2_induct) (simp_all add: copied_def)

lemma copied_defined: "list_all2 (copied s0 s) es es' \<Longrightarrow> defined es' = es'"
  by (induction rule: list_all2_induct) (auto simp: copied_def defined_def)

lemma copied_view:
  "list_all2 (copied s0 s) es es' \<Longrightarrow>
   map (\<lambda>(k, w). (k, view d s w)) es' = map (\<lambda>(k, w). (k, view d s0 w)) es"
  by (induction rule: list_all2_induct) (auto simp: copied_def)

text \<open>The state of the loop: the target with the copies of what has been gone through.\<close>

definition loop_ok :: "store \<Rightarrow> nat \<Rightarrow> (string, jvalue) jsobj \<Rightarrow> store \<Rightarrow> bool" where
  "loop_ok s0 t es s \<longleftrightarrow> separate s0 {t} s \<and> closed_new s0 s \<and>
     (\<exists>es'. s ! t = (s0 ! t)\<lparr>shown := es'\<rparr> \<and> list_all2 (copied s0 s) (defined es) es')"

lemma loop_put:
  assumes B: "base_ok s0 t" and L: "loop_ok s0 t es s" and s2: "separate s0 {t} s2" "length s \<le> length s2" "closed_new s0 s2"
      "\<And>a. a < length s \<Longrightarrow> s2 ! a = s ! a"
    and k: "k \<notin> fst ` set es" "k \<noteq> ''__proto__''" "v \<noteq> Undefined"
    and v: "v' \<noteq> Undefined" "\<forall>b. v' = Ref b \<longrightarrow> b < length s2 \<and> (mergeable s2 (Ref b) \<longrightarrow> length s0 \<le> b)"
      "\<And>d. view d s2 v' = view d s0 v"
  shows "\<exists>s3. put s2 t k v' = Inr s3 \<and> loop_ok s0 t (es @ [(k, v)]) s3 \<and> length s3 = length s2"
proof -
  from L obtain es' where es': "s ! t = (s0 ! t)\<lparr>shown := es'\<rparr>" "list_all2 (copied s0 s) (defined es) es'"
    and s: "separate s0 {t} s" "closed_new s0 s" by (auto simp: loop_ok_def)
  have t: "t < length s" using base_okD(2) [OF B] separateD(2) [OF s(1)] by simp
  have t2: "s2 ! t = (s0 ! t)\<lparr>shown := es'\<rparr>" using s2(4) [OF t] es'(1) by simp
  have "hidden (s0 ! t) = []" using B by (auto simp: base_ok_def fresh_ok_def new_object_def new_array_def)
  moreover have "k \<notin> set (map fst es')" using copied_keys [OF es'(2)] k(1) by (auto simp: defined_def)
  then have "obj_get es' k = None" by (simp add: obj_get_def map_of_eq_None_iff)
  ultimately have own: "own s2 t k = None" by (simp add: own_def t2 js_obj)
  define s3 where "s3 = s2[t := (s2 ! t)\<lparr>shown := shown (s2 ! t) @ [(k, v')]\<rparr>]"
  have put: "put s2 t k v' = Inr s3" unfolding s3_def by (rule put_new [OF own k(2)])
  have len: "length s3 = length s2" and same: "\<And>a. a \<noteq> t \<Longrightarrow> s3 ! a = s2 ! a" by (simp_all add: s3_def)
  have s3: "separate s0 {t} s3"
  proof -
    have "\<forall>b. v' = Ref b \<longrightarrow> b < length s2 \<and> (mergeable s2 v' \<longrightarrow> b \<in> owned s0 {t} s2)"
      using v(2) by (auto simp: owned_def)
    from separate_put [OF s2(1) base_okD(1) [OF B] _ k(2) this, of t] put show ?thesis by (auto simp: owned_def)
  qed
  have closed: "closed_new s0 s3" by (rule closed_put [OF B s2(1) s3 len [symmetric] same s2(3)])
  have old: "s3 ! a = s ! a" if "length s0 \<le> a" "a < length s" for a
    using same [of a] s2(4) that base_okD(2) [OF B] by simp
  have "list_all2 (copied s0 s3) (defined es) es'"
    by (rule list_all2_mono [OF es'(2)]) (rule copied_keep [OF B s(1) s3 _ old s(2)], use len s2(2) in auto)
  moreover have "copied s0 s3 (k, v) (k, v')"
  proof -
    have "view d s3 v' = view d s0 v" for d
      using view_new [OF B s2(1) s3 _ same s2(3) v(2)] v(3) len base_okD(2) [OF B] by simp
    moreover have "b < length s3 \<and> (mergeable s3 (Ref b) \<longrightarrow> length s0 \<le> b)" if "v' = Ref b" for b
      using v(2) that len mergeable_keep [OF B s2(1) s3, of "Ref b"] by auto
    ultimately show ?thesis using v(1) by (simp add: copied_def)
  qed
  ultimately have "list_all2 (copied s0 s3) (defined (es @ [(k, v)])) (es' @ [(k, v')])"
    using k(3) by (simp add: defined_def list_all2_appendI)
  moreover have "s3 ! t = (s0 ! t)\<lparr>shown := es' @ [(k, v')]\<rparr>"
    using t s2(2) by (simp add: s3_def t2)
  ultimately show ?thesis using put s3 closed len unfolding loop_ok_def by blast
qed


lemma fresh_new:
  assumes "store_ok s" "x = new_object \<or> x = new_array"
  shows "fresh_ok (s @ [x]) (length s)"
proof -
  have "proto ((s @ [x]) ! a) \<noteq> Some (length s)" if "a < length (s @ [x])" for a
    using store_okD(1) [OF store_ok_new [OF assms] that, of "length s"] that by auto
  then show ?thesis using assms by (auto simp: fresh_ok_def store_ok_def)
qed

lemma fresh_mergeable: "base_ok s0 t \<Longrightarrow> mergeable s0 (Ref t)"
  by (auto simp: base_ok_def fresh_ok_def literals_ok_def mergeable_def isPlainObject_def isArray_def new_object_def new_array_def)

text \<open>A call inside: the copy of an object into a new one, seen from the call outside.\<close>

lemma inner_call:
  assumes B: "base_ok s0 t" and L: "loop_ok s0 t es s" and R: "source_ok s0 R" "t \<notin> R" and c: "c \<in> R"
    and x: "x = new_object \<or> x = new_array" "mergeable s0 (Ref c)" "kind x = kind (s0 ! c)"
    and call: "extend_names m True (length s) c (map fst (shown (s0 ! c))) (s @ [x]) = Inr s2"
    and fin: "loop_ok (s @ [x]) (length s) (shown (s0 ! c)) s2"
  shows "separate s0 {t} s2 \<and> length s < length s2 \<and> closed_new s0 s2 \<and> (\<forall>a<length s. s2 ! a = s ! a) \<and>
    (\<forall>d. view d s2 (Ref (length s)) = view d s0 (Ref c))"
proof -
  let ?s1 = "s @ [x]"
  from L have s: "separate s0 {t} s" "closed_new s0 s" by (auto simp: loop_ok_def)
  note M = base_okD(1) [OF B]
  have s1: "separate s0 {t} ?s1" by (rule separate_new [OF s(1) M x(1)])
  have B1: "base_ok ?s1 (length s)"
    using keep_literals [OF B s1] fresh_new [OF separateD(1) [OF s(1)] x(1)] by (simp add: base_ok_def)
  from fin obtain es2 where s2: "separate ?s1 {length s} s2" "closed_new ?s1 s2"
    "s2 ! length s = (?s1 ! length s)\<lparr>shown := es2\<rparr>" "list_all2 (copied ?s1 s2) (defined (shown (s0 ! c))) es2"
    by (auto simp: loop_ok_def)
  have c0: "c < length s0" using R(1) c by (simp add: source_ok_def)
  have "''__proto__'' \<notin> set (map fst (shown (s0 ! c)))"
    using source_bounded(3) [OF base_okD(4) [OF B] R(1) c, of "''__proto__''"] by auto
  moreover have "length s \<in> owned s0 {t} ?s1" using separateD(2) [OF s(1)] by (auto simp: owned_def)
  moreover have "c < length ?s1" using c0 separateD(2) [OF s(1)] by simp
  ultimately have s2': "separate s0 {t} s2" "length ?s1 \<le> length s2"
    using extend_names_ok [OF M call s1] by blast+
  have same: "s2 ! a = s ! a" if "a < length s" for a
    using separateD(5) [OF s2(1), of a] that by (simp add: nth_append)
  have "b < length s2 \<and> (mergeable s2 (Ref b) \<longrightarrow> length s0 \<le> b)"
    if a: "length s0 \<le> a" "a < length s2" "(k, Ref b) \<in> set (shown (s2 ! a))" for a k b
  proof -
    consider "a < length s" | "a = length s" | "length ?s1 \<le> a" by fastforce
    then show ?thesis
    proof cases
      case 1
      then have "b < length s \<and> (mergeable s (Ref b) \<longrightarrow> length s0 \<le> b)"
        using s(2) a same unfolding closed_new_def by metis
      then show ?thesis using mergeable_keep [OF B s(1) s2'(1), of "Ref b"] s2'(2) by auto
    next
      case 2
      then have "(k, Ref b) \<in> set es2" using a(3) s2(3) by simp
      then obtain e where "copied ?s1 s2 e (k, Ref b)"        using s2(4) unfolding list_all2_conv_all_nth in_set_conv_nth by metis
      then show ?thesis using separateD(2) [OF s(1)] by (auto simp: copied_def)
    next
      case 3
      then have "b < length s2 \<and> (mergeable s2 (Ref b) \<longrightarrow> length ?s1 \<le> b)"
        using s2(2) a(2,3) unfolding closed_new_def by blast
      then show ?thesis using separateD(2) [OF s(1)] by auto
    qed
  qed
  then have closed: "closed_new s0 s2" unfolding closed_new_def by blast
  have "view d s2 (Ref (length s)) = view d s0 (Ref c)" for d
  proof (cases d)
    case (Suc d')
    have "mergeable s2 (Ref (length s))"
      using new_mergeable [OF B s2'(1), of "length s"] separateD(2) [OF s(1)] s2'(2) by simp
    moreover have "map (\<lambda>(k, w). (k, view d' s2 w)) es2 = map (\<lambda>(k, w). (k, view d' ?s1 w)) (defined (shown (s0 ! c)))"
      by (rule copied_view [OF s2(4)])
    moreover have "map (\<lambda>(k, w). (k, view d' ?s1 w)) (defined (shown (s0 ! c))) =
        map (\<lambda>(k, w). (k, view d' s0 w)) (defined (shown (s0 ! c)))"
      using view_source(1) [OF B s1 R c] by (auto simp: defined_def)
    ultimately show ?thesis using x(2,3) s2(3) copied_defined [OF s2(4)] by (simp add: Suc)
  qed simp
  with s2' same closed show ?thesis by simp
qed


lemma copy_names:
  "base_ok s0 t \<Longrightarrow> source_ok s0 R \<Longrightarrow> t \<notin> R \<Longrightarrow> opts \<in> R \<Longrightarrow> \<forall>(k, w)\<in>set (shown (s0 ! opts)). within n s0 w \<Longrightarrow>
   \<exists>s'. extend_names n True t opts (map fst (shown (s0 ! opts))) s0 = Inr s' \<and> loop_ok s0 t (shown (s0 ! opts)) s'"
proof (induction n arbitrary: s0 t opts rule: less_induct)
  case (less n)
  note B = less.prems(1) and R = less.prems(2,3) and o = less.prems(4) and calls = less.IH
  note M = base_okD(1) [OF B] and store0 = base_okD(4) [OF B]
  have o': "opts < length s0" "opts \<noteq> t" using R o by (auto simp: source_ok_def)
  have dist: "distinct (map fst (shown (s0 ! opts)))" using R(1) o by (simp add: source_ok_def)
  have "shown (s0 ! opts) = pre @ es \<Longrightarrow> loop_ok s0 t pre s \<Longrightarrow>
      \<exists>s'. extend_names n True t opts (map fst es) s = Inr s' \<and> loop_ok s0 t (pre @ es) s'" for pre es s
  proof (induction es arbitrary: pre s)
    case (Cons e es)
    obtain k w where e: "e = (k, w)" by (cases e)
    note L = Cons.prems(2)
    then have s: "separate s0 {t} s" "closed_new s0 s" by (auto simp: loop_ok_def)
    have mem: "(k, w) \<in> set (shown (s0 ! opts))" using Cons.prems(1) e by simp
    note k = source_bounded(3) [OF store0 R(1) o mem]
    have kpre: "k \<notin> fst ` set pre" using dist Cons.prems(1) e by auto
    have so: "s ! opts = s0 ! opts" by (rule keep_object [OF s(1) o'])
    have "own s opts k = Some w" using own_same [OF so] source_bounded(1) [OF store0 R(1) o mem] by simp
    then have gw: "get s opts k = w"
      using get_own [OF separateD(1) [OF s(1)] _ k, of opts] o'(1) separateD(2) [OF s(1)] by simp
    have go_on: ?case if "loop_ok s0 t (pre @ [e]) s1"
      "extend_names n True t opts (map fst (e # es)) s = extend_names n True t opts (map fst es) s1" for s1
      using Cons.IH [of "pre @ [e]" s1] Cons.prems(1) that by simp
    have notT: "w \<noteq> Ref t"
      using R o mem fresh_mergeable [OF B] unfolding source_ok_def by blast
    show ?case
    proof (cases "w = Undefined")
      case True
      have "loop_ok s0 t (pre @ [e]) s" using L True e by (simp add: loop_ok_def defined_def)
      then show ?thesis by (rule go_on) (use True e gw in \<open>simp add: extend_skip\<close>)
    next
      case w: False
      show ?thesis
      proof (cases "mergeable s0 w")
        case False
        then have nm: "\<not> mergeable s w"
          using mergeable_value [of s w] mergeable_value [of s0 w] source_bounded(2) [OF store0 R(1) o mem] mergeable_same(3) [OF M s(1)]
          by blast
        have "\<forall>b. w = Ref b \<longrightarrow> b < length s \<and> (mergeable s (Ref b) \<longrightarrow> length s0 \<le> b)"
          using source_bounded(2) [OF store0 R(1) o mem] separateD(2) [OF s(1)] nm by fastforce
        moreover have "view d s w = view d s0 w" for d using view_source(1) [OF B s(1) R o mem] .
        ultimately obtain s3 where s3: "put s t k w = Inr s3" "loop_ok s0 t (pre @ [(k, w)]) s3"
          using loop_put [OF B L s(1) _ s(2) _ kpre k w, of w] w by auto
        then show ?thesis using e gw notT w nm by (intro go_on [of s3]) (simp_all add: extend_set)
      next
        case True
        then obtain c where c: "w = Ref c" "c \<in> R" using mergeable_Ref [OF True] R(1) o mem unfolding source_ok_def by blast
        then have cl: "c < length s0" using R(1) by (simp add: source_ok_def)
        have "within n s0 w" using less.prems(5) mem by blast
        then obtain m where m: "n = Suc m" "\<forall>(k, w)\<in>set (shown (s0 ! c)). within m s0 w"
          using True c(1) by (cases n) auto
        define x where "x = (if isPlainObject s0 (Ref c) then new_object else new_array)"
        have x: "x = new_object \<or> x = new_array" "kind x = kind (s0 ! c)"
          using True c(1) by (auto simp: x_def mergeable_def isPlainObject_def isArray_def new_object_def new_array_def)
        have t: "t < length s" using base_okD(2) [OF B] separateD(2) [OF s(1)] by simp
        have "own s t k = None"
        proof -
          obtain es' where es': "s ! t = (s0 ! t)\<lparr>shown := es'\<rparr>" "list_all2 (copied s0 s) (defined pre) es'"
            using L by (auto simp: loop_ok_def)
          have "k \<notin> set (map fst es')" using copied_keys [OF es'(2)] kpre by (auto simp: defined_def)
          then have "obj_get es' k = None" by (simp add: obj_get_def map_of_eq_None_iff)
          moreover have "hidden (s0 ! t) = []" using B by (auto simp: base_ok_def fresh_ok_def new_object_def new_array_def)
          ultimately show ?thesis using es'(1) by (simp add: own_def js_obj)
        qed
        moreover have "proto (s ! t) \<in> {None, Some 0, Some 1}"
          using B separateD(4) [OF s(1) base_okD(2) [OF B]] by (auto simp: base_ok_def fresh_ok_def new_object_def new_array_def)
        ultimately have src: "\<not> mergeable s (get s t k)"
          using literals_get [OF keep_literals [OF B s(1)] t _ k] by blast
        have clone: "clone_for (get s t k) (Ref c) s = (length s, s @ [x])"
          using src mergeable_same(1) [OF M s(1) cl]
          by (auto simp: clone_for_def x_def mergeable_def split: jvalue.splits)
        let ?s1 = "s @ [x]"
        have s1: "separate s0 {t} ?s1" by (rule separate_new [OF s(1) M x(1)])
        note lit1 = keep_literals [OF B s1] and keep1 = source_keep [OF B s1 R]
        have B1: "base_ok ?s1 (length s)"
          using lit1 fresh_new [OF separateD(1) [OF s(1)] x(1)] by (simp add: base_ok_def)
        have "length s \<notin> R" using R(1) separateD(2) [OF s(1)] by (auto simp: source_ok_def)
        moreover have "\<forall>(k, w)\<in>set (shown (?s1 ! c)). within m ?s1 w"
          using m(2) view_source(2) [OF B s1 R c(2)] keep1(2) [OF c(2)] by auto
        ultimately obtain s2 where s2: "extend_names m True (length s) c (map fst (shown (s0 ! c))) ?s1 = Inr s2"
          "loop_ok ?s1 (length s) (shown (s0 ! c)) s2"
          using calls [of m ?s1 "length s" c, OF _ B1 keep1(1) _ c(2)] m(1) keep1(2) [OF c(2)] by auto
        note inner = inner_call [OF B L R c(2) x(1) _ x(2) s2] 
        have names: "for_in ?s1 c = map fst (shown (s0 ! c))"
          using literals_for_in [OF lit1, of c] keep1(1,2) c(2) by (auto simp: source_ok_def)
        have i: "separate s0 {t} s2" "length s < length s2" "closed_new s0 s2" "\<And>a. a < length s \<Longrightarrow> s2 ! a = s ! a"
          "\<And>d. view d s2 (Ref (length s)) = view d s0 w"
          using inner True c(1) by auto
        have "\<forall>b. Ref (length s) = Ref b \<longrightarrow> b < length s2 \<and> (mergeable s2 (Ref b) \<longrightarrow> length s0 \<le> b)"
          using i(2) separateD(2) [OF s(1)] by simp
        from loop_put [OF B L i(1) _ i(3,4) kpre k w _ this i(5)] i(2) obtain s3 where
          s3: "put s2 t k (Ref (length s)) = Inr s3" "loop_ok s0 t (pre @ [(k, w)]) s3" by auto
        have "mergeable s (Ref c)" using True c(1) mergeable_same(3) [OF M s(1) cl] by simp
        then have "extend_names n True t opts (map fst (e # es)) s = extend_names n True t opts (map fst es) s3"
          using e c(1) gw notT m(1) clone names s2(1) s3(1) by (simp add: extend_merge)
        then show ?thesis using s3(2) e by (intro go_on [of s3]) simp_all
      qed
    qed
  qed simp
  moreover have "loop_ok s0 t [] s0"
    using fresh_start [of s0 t] B
    by (auto simp: loop_ok_def closed_new_def defined_def base_ok_def fresh_ok_def new_object_def new_array_def)
  ultimately show ?case by (metis append_Nil)
qed


lemma mergeable_append:
  assumes "store_ok s" "b < length s"
  shows "mergeable (s @ [x]) (Ref b) = mergeable s (Ref b)"
proof -
  have "(case own (s @ [x]) p ''constructor'' of Some (Ref c) \<Rightarrow> kind ((s @ [x]) ! c) = Function_class True | _ \<Rightarrow> False) =
      (case own s p ''constructor'' of Some (Ref c) \<Rightarrow> kind (s ! c) = Function_class True | _ \<Rightarrow> False)"
    if "proto (s ! b) = Some p" for p
  proof -
    have p: "p < length s" using store_okD(1) [OF assms that] assms(2) by simp
    show ?thesis using own_append [OF p] store_okD(2) [OF assms(1) p]
      by (auto simp: nth_append split: option.split jvalue.split)
  qed
  then show ?thesis
    using assms(2) by (auto simp: mergeable_def isPlainObject_def isArray_def nth_append split: option.split)
qed

lemma literals_append:
  assumes "literals_ok s" "x = new_object \<or> x = new_array"
  shows "literals_ok (s @ [x])"
proof -
  have store: "store_ok s" "2 \<le> length s" using assms(1) by (auto simp: literals_ok_def store_ok_def)
  have l: "0 < length s" "1 < length s" using store(2) by linarith+
  have same: "(s @ [x]) ! a = s ! a" if "a < length s" for a using that by (simp add: nth_append)
  have get: "get (s @ [x]) p k = get s p k" if "p \<le> 1" "k \<noteq> ''__proto__''" for p k
  proof -
    have "get (s @ [x]) 0 k = get s 0 k"
      using get_own [OF store_ok_new [OF store(1) assms(2)] _ that(2), of 0] get_own [OF store(1) l(1) that(2)]
        own_append [OF l(1)] same [OF l(1)] assms(1) l by (simp add: literals_ok_def split: option.split)
    moreover have "get (s @ [x]) 1 k = (case own s 1 k of Some v \<Rightarrow> v | None \<Rightarrow> get (s @ [x]) 0 k)"
      "get s 1 k = (case own s 1 k of Some v \<Rightarrow> v | None \<Rightarrow> get s 0 k)"
      using get_own [OF store_ok_new [OF store(1) assms(2)] _ that(2), of 1] get_own [OF store(1) l(2) that(2)]
        own_append [OF l(2)] same [OF l(2)] assms(1) l by (simp_all add: literals_ok_def split: option.split)
    moreover have "p = 0 \<or> p = 1" using that(1) by auto
    ultimately show ?thesis by (auto split: option.split)
  qed
  have "\<not> mergeable (s @ [x]) (Ref b)" if "p \<le> 1" "k \<noteq> ''__proto__''" "get (s @ [x]) p k = Ref b" for p k b
  proof -
    have g: "get s p k = Ref b" using get [OF that(1,2)] that(3) by simp
    have "b < length s" using get_bounded [OF store(1) _ that(2) g] that(1) l(2) by simp
    then show ?thesis using mergeable_append [OF store(1)] assms(1) that(1,2) g by (simp add: literals_ok_def)
  qed
  moreover obtain c where c: "own s 0 ''constructor'' = Some (Ref c)" "kind (s ! c) = Function_class True"
    using assms(1) by (auto simp: literals_ok_def)
  moreover have "c < length s" by (rule store_okD(2) [OF store(1) l(1) c(1)])
  ultimately show ?thesis
    using assms(1) store_ok_new [OF store(1) assms(2)] same own_append [OF l(1)] l unfolding literals_ok_def by auto
qed

text \<open>A new object is put at the end of the store: what can be reached from a source does not change.\<close>

lemma source_at_new:
  assumes "source_ok s R" "a \<in> R"
  shows "(s @ [new_object]) ! a = s ! a" "a < length s"
  using assms by (auto simp: source_ok_def nth_append)

lemma source_mergeable_new:
  assumes "store_ok s" "source_ok s R"
  shows "a \<in> R \<Longrightarrow> (k, v) \<in> set (shown (s ! a)) \<Longrightarrow> mergeable (s @ [new_object]) v = mergeable s v"
    and "v \<in> Ref ` R \<Longrightarrow> mergeable (s @ [new_object]) v = mergeable s v"
    and "a \<in> R \<Longrightarrow> (k, v) \<in> set (shown (s ! a)) \<Longrightarrow> mergeable s v \<Longrightarrow> v \<in> Ref ` R"
proof -
  let ?s1 = "s @ [new_object]"
  show "a \<in> R \<Longrightarrow> (k, v) \<in> set (shown (s ! a)) \<Longrightarrow> mergeable ?s1 v = mergeable s v"
    using source_bounded(2) [OF assms] mergeable_append [OF assms(1)] mergeable_value [of s v] mergeable_value [of ?s1 v]
    by blast
  show "v \<in> Ref ` R \<Longrightarrow> mergeable ?s1 v = mergeable s v"
    using source_at_new(2) [OF assms(2)] mergeable_append [OF assms(1)] by auto
  show "a \<in> R \<Longrightarrow> (k, v) \<in> set (shown (s ! a)) \<Longrightarrow> mergeable s v \<Longrightarrow> v \<in> Ref ` R"
    using mergeable_Ref [of s v] assms(2) unfolding source_ok_def by blast
qed

lemma source_view_new:
  assumes "store_ok s" "source_ok s R" "v \<in> Ref ` R" "mergeable s v"
  shows "view d (s @ [new_object]) v = view d s v"
  by (rule view_same [of R])
    (use source_at_new(1) [OF assms(2)] source_mergeable_new [OF assms(1,2)] assms(3,4) in blast)+

lemma source_within_new:
  assumes "store_ok s" "source_ok s R"
  shows "v \<in> Ref ` R \<Longrightarrow> within k (s @ [new_object]) v = within k s v"
proof (induction k arbitrary: v)
  case (Suc k)
  let ?s1 = "s @ [new_object]"
  obtain b where b: "v = Ref b" "b \<in> R" using Suc.prems by blast
  have "within k ?s1 w = within k s w" if "(l, w) \<in> set (shown (s ! b))" for l w
  proof (cases "mergeable s w")
    case True
    then show ?thesis using Suc.IH source_mergeable_new(3) [OF assms b(2) that] by blast
  next
    case False
    then have "\<not> mergeable ?s1 w" using source_mergeable_new(1) [OF assms b(2) that] by simp
    with False show ?thesis by (cases k; cases w) auto
  qed
  then show ?case using b source_at_new(1) [OF assms(2)] source_mergeable_new(2) [OF assms, of v] by auto
qed (use source_mergeable_new(2) [OF assms] in simp)

lemma source_ok_new:
  assumes "store_ok s" "source_ok s R"
  shows "source_ok (s @ [new_object]) R"
  unfolding source_ok_def
proof
  fix a assume a: "a \<in> R"
  let ?s1 = "s @ [new_object]"
  have "b \<in> R" if "(k, Ref b) \<in> set (shown (s ! a))" "mergeable ?s1 (Ref b)" for k b
    using that source_mergeable_new(1) [OF assms a that(1)] a assms(2) unfolding source_ok_def by blast
  note closed = this
  have "proto (s ! a) \<in> {None, Some 0, Some 1} \<and> distinct (map fst (shown (s ! a)))"
    using assms(2) a unfolding source_ok_def by blast
  moreover have "a < length ?s1" using source_at_new(2) [OF assms(2) a] by simp
  ultimately show "a < length ?s1 \<and> proto (?s1 ! a) \<in> {None, Some 0, Some 1} \<and> distinct (map fst (shown (?s1 ! a))) \<and>
      (\<forall>k b. (k, Ref b) \<in> set (shown (?s1 ! a)) \<longrightarrow> mergeable ?s1 (Ref b) \<longrightarrow> b \<in> R)"
    unfolding source_at_new(1) [OF assms(2) a] using closed by blast
qed

lemma reached_owned:
  assumes "region_ok s {t}" "separate s {t} s'" "reached s' t a"
  shows "a \<in> owned s {t} s'"
  using assms(3)
proof (induction rule: reached.induct)
  case (reached_property b k c)
  then show ?case using get_owned [OF assms(1,2)] by blast
qed (simp add: owned_def)

text \<open>
  C6: A deep copy of a literal into a new object returns when its objects and arrays are nested no deeper than the stack has
  room, the copy looks like the original at every depth, everything else is as it was, and nothing that can be reached from
  the copy is old. The literal may share parts but has no cycle, and no property is called \<open>__proto__\<close>.
\<close>

theorem deep_copy:
  assumes "literals_ok s" "source_ok s R" "opts \<in> R" "kind (s ! opts) = Object_class" "mergeable s (Ref opts)"
    and "within (Suc n) s (Ref opts)"
  shows "\<exists>s'. extend n this [Bool True, Undefined, Ref opts] s = Inr (length s, s') \<and>
    (\<forall>d. view d s' (Ref (length s)) = view d s (Ref opts)) \<and> (\<forall>a<length s. s' ! a = s ! a) \<and>
    (\<forall>a. reached s' (length s) a \<longrightarrow> length s \<le> a)"
proof -
  let ?s1 = "s @ [new_object]" and ?t = "length s"
  have store: "store_ok s" using assms(1) by (simp add: literals_ok_def)
  note new = source_mergeable_new [OF store assms(2)] and R = source_at_new [OF assms(2)]
  have B: "base_ok ?s1 ?t" using literals_append [OF assms(1)] fresh_new [OF store] by (simp add: base_ok_def)
  have R1: "source_ok ?s1 R" "?t \<notin> R" using source_ok_new [OF store assms(2)] R(2) by blast+
  have "\<forall>(k, w)\<in>set (shown (?s1 ! opts)). within n ?s1 w"
    using source_within_new [OF store assms(2), of "Ref opts" "Suc n"] assms(3,5,6) new(2) [of "Ref opts"] by simp
  from copy_names [OF B R1 assms(3) this] obtain s' where
    s': "extend_names n True ?t opts (map fst (shown (s ! opts))) ?s1 = Inr s'" "loop_ok ?s1 ?t (shown (s ! opts)) s'"
    using R(1) [OF assms(3)] by auto
  then obtain es where sep: "separate ?s1 {?t} s'" and es: "s' ! ?t = (?s1 ! ?t)\<lparr>shown := es\<rparr>"
    "list_all2 (copied ?s1 s') (defined (shown (s ! opts))) es" by (auto simp: loop_ok_def)
  have "for_in ?s1 opts = map fst (shown (s ! opts))"
    using literals_for_in [OF base_okD(5) [OF B], of opts] R1(1) assms(3) R(1) by (auto simp: source_ok_def)
  then have "extend n this [Bool True, Undefined, Ref opts] s = Inr (?t, s')"
    using s'(1) by (simp add: extend_def or_new_def argument_def truthy_def target_of_def)
  moreover have "view d s' (Ref ?t) = view d s (Ref opts)" for d
  proof (cases d)
    case (Suc d')
    have "mergeable s' (Ref ?t)"
      using mergeable_same(3) [OF base_okD(1) [OF B] sep, of ?t] fresh_mergeable [OF B] by simp
    moreover have "view d' ?s1 w = view d' s w" if "(k, w) \<in> set (shown (s ! opts))" for k w
      using new(1,3) [OF assms(3) that] source_view_new [OF store assms(2), of w d'] by (metis view_leaf)
    then have "map (\<lambda>(k, w). (k, view d' s' w)) es = map (\<lambda>(k, w). (k, view d' s w)) (defined (shown (s ! opts)))"
      using copied_view [OF es(2), of d'] by (auto simp: defined_def)
    ultimately show ?thesis
      using assms(4,5) es(1) copied_defined [OF es(2)] by (simp add: Suc new_object_def)
  qed simp
  moreover have "s' ! a = s ! a" if "a < length s" for a
    using separateD(5) [OF sep, of a] that by (simp add: nth_append)
  moreover have "length s \<le> a" if "reached s' ?t a" for a
    using reached_owned [OF base_okD(1) [OF B] sep that] by (auto simp: owned_def)
  ultimately show ?thesis by blast
qed

lemma demo_literals: "literals_ok demo_store"
proof -
  have "shown (demo_store ! 0) = []" "shown (demo_store ! 1) = []" "proto (demo_store ! 0) = None"
    "proto (demo_store ! 1) = Some 0" "kind (demo_store ! 2) = Function_class True"
    by (simp_all add: demo_store_def)
  moreover have "\<forall>p k b. p \<le> 1 \<longrightarrow> k \<noteq> ''__proto__'' \<longrightarrow> get demo_store p k = Ref b \<longrightarrow> \<not> mergeable demo_store (Ref b)"
    using demo_store_function by (auto simp: demo_store_get demo_store_table split: if_split_asm)
  ultimately show ?thesis using demo_store_ok by (simp add: literals_ok_def demo_store_table)
qed

theorem deep_copy_witness:
  "\<exists>s'. extend 1 0 [Bool True, Undefined, Ref 5] demo_store = Inr (7, s') \<and> s' ! 5 = demo_store ! 5 \<and>
     view 2 s' (Ref 7) = view 2 demo_store (Ref 5)"
proof -
  have "source_ok demo_store {5, 6}" by (simp add: source_ok_def demo_store_def)
  moreover have "kind (demo_store ! 5) = Object_class" by (simp add: demo_store_def)
  moreover have "mergeable demo_store (Ref 5)" by code_simp
  moreover have "within (Suc 1) demo_store (Ref 5)" by code_simp
  ultimately have "\<exists>s'. extend 1 0 [Bool True, Undefined, Ref 5] demo_store = Inr (length demo_store, s') \<and>
    (\<forall>d. view d s' (Ref (length demo_store)) = view d demo_store (Ref 5)) \<and>
    (\<forall>a<length demo_store. s' ! a = demo_store ! a) \<and> (\<forall>a. reached s' (length demo_store) a \<longrightarrow> length demo_store \<le> a)"
    using deep_copy [OF demo_literals, of "{5, 6}" 5 1 0] by blast
  then show ?thesis by (auto simp: demo_store_table)
qed

end
