(* ===== verification/J_Effects.thy ===== *)
theory J_Effects
  imports Complex_Main JS_Prelude
begin

text \<open>
  The animations of \<open>jquery-3.1.0.js\<close>: tweens, the timers that \<open>jQuery.fx.tick\<close> goes through, \<open>stop\<close> and \<open>finish\<close>, and
  the handlers of the page that start and stop animations when others end. The styles of elements, the queues and the
  prefilter for showing and hiding are not here.
\<close>

section \<open>Tweens\<close>

record tween =
  t_start :: rat
  t_end :: rat
  t_now :: "rat option"

text \<open>
  \<open>Tween.run\<close>; \<open>ease\<close> is the easing of the animation at its duration. No percent is minus infinity, which is used as it is
  since the duration is zero then, and no \<open>now\<close> is a value that is not a finite number.
\<close>

definition run_tween :: "(rat \<Rightarrow> rat) \<Rightarrow> rat \<Rightarrow> rat option \<Rightarrow> tween \<Rightarrow> tween" where
  "run_tween ease duration percent t =
     (case percent of
        None \<Rightarrow> t\<lparr>t_now := None\<rparr>
      | Some p \<Rightarrow>
          (let eased = (if duration \<noteq> 0 then ease p else p)
           in t\<lparr>t_now := Some ((t_end t - t_start t) * eased + t_start t)\<rparr>))"

section \<open>Animations\<close>

text \<open>
  What handlers do: begin an animation of an element, with its queue, duration, tweens and its handlers for success and
  failure, or stop those of an element, of one queue or of all, with or without going to the end.
\<close>

datatype act = Begin nat string rat "(rat \<times> rat) list" "act list" "act list" | Stop_fx nat "string option" bool

text \<open>
  \<open>elem\<close> is that of the timer, which \<open>delete tick.elem\<close> removes, \<open>outcome\<close> the state of the deferred, \<open>attached\<close> that the
  handlers of the options have been added.
\<close>

record anim =
  elem :: "nat option"
  queue :: string
  startTime :: rat
  duration :: rat
  tweens :: "tween list"
  stopped :: bool
  outcome :: "bool option"
  attached :: bool
  on_done :: "act list"
  on_fail :: "act list"

text \<open>\<open>fxNow\<close> is the time of the step that runs; \<open>handled\<close> records the ends whose handlers have been run.\<close>

record fx =
  anims :: "anim list"
  timers :: "nat list"
  timerId :: bool
  fxNow :: rat
  handled :: "nat list"

datatype failure = No_room | Type_error

definition change_anim :: "nat \<Rightarrow> (anim \<Rightarrow> anim) \<Rightarrow> fx \<Rightarrow> fx" where
  "change_anim i f s = s\<lparr>anims := (anims s)[i := f (anims s ! i)]\<rparr>"

definition run_tweens :: "(rat \<Rightarrow> rat) \<Rightarrow> nat \<Rightarrow> rat option \<Rightarrow> fx \<Rightarrow> fx" where
  "run_tweens ease i percent s =
     change_anim i (\<lambda>a. a\<lparr>tweens := map (run_tween ease (duration a) percent) (tweens a)\<rparr>) s"

definition remaining :: "rat \<Rightarrow> anim \<Rightarrow> rat" where
  "remaining now a = max 0 (startTime a + duration a - now)"

text \<open>
  Zero divided by zero gives zero here as \<open>|| 0\<close> makes of not a number. An animation without a duration that starts after
  the time of the step, the clock having gone back, is at minus infinity.
\<close>

definition percent_of :: "rat \<Rightarrow> anim \<Rightarrow> rat option" where
  "percent_of now a =
     (if duration a = 0 \<and> remaining now a \<noteq> 0 then None else Some (1 - remaining now a / duration a))"

definition before_end :: "rat option \<Rightarrow> bool" where
  "before_end percent \<longleftrightarrow> (case percent of None \<Rightarrow> True | Some p \<Rightarrow> p < 1)"

definition drop_timer :: "nat \<Rightarrow> fx \<Rightarrow> fx" where
  "drop_timer i s = s\<lparr>timers := take i (timers s) @ drop (Suc i) (timers s)\<rparr>"

definition matches :: "nat \<Rightarrow> string option \<Rightarrow> anim \<Rightarrow> bool" where
  "matches e type a \<longleftrightarrow> elem a = Some e \<and> (type = None \<or> type = Some (queue a))"

definition new_anim :: "nat \<Rightarrow> string \<Rightarrow> rat \<Rightarrow> (rat \<times> rat) list \<Rightarrow> act list \<Rightarrow> act list \<Rightarrow> fx \<Rightarrow> anim" where
  "new_anim e q dur tws dn fl s =
     \<lparr>elem = Some e, queue = q, startTime = fxNow s, duration = dur,
      tweens = map (\<lambda>(a, b). \<lparr>t_start = a, t_end = b, t_now = Some a\<rparr>) tws,
      stopped = False, outcome = None, attached = False, on_done = dn, on_fail = fl\<rparr>"

definition handlers_of :: "anim \<Rightarrow> act list" where
  "handlers_of a = (case outcome a of Some True \<Rightarrow> on_done a | Some False \<Rightarrow> on_fail a | None \<Rightarrow> [])"

section \<open>The operations\<close>

text \<open>
  The operations call one another through the handlers of the page: each is written with \<open>call\<close> for the calls it makes,
  and \<open>exec\<close> ties them together with the room that is left on the stack. A call returns whether a timer is to stay;
  a failure, an error that is thrown or a stack that overflows, leaves the state as it was then.
\<close>

datatype cmd = Acts "act list" | Act act | Stop_loop nat "string option" bool nat | Stop_anim nat bool | Settle nat bool
  | Tick nat | Loop nat

type_synonym result = "(failure \<times> fx) + bool \<times> fx"

type_synonym caller = "cmd \<Rightarrow> fx \<Rightarrow> result"

text \<open>
  \<open>resolveWith\<close> and \<open>rejectWith\<close> of the deferred of an animation: the timer loses its \<open>elem\<close>, and then the handlers of
  the options run.
\<close>

definition settle :: "caller \<Rightarrow> nat \<Rightarrow> bool \<Rightarrow> fx \<Rightarrow> result" where
  "settle call i ok s =
     (if outcome (anims s ! i) \<noteq> None then Inr (False, s)
      else
        (let s1 = change_anim i (\<lambda>a. a\<lparr>outcome := Some ok, elem := None\<rparr>) s
         in if attached (anims s1 ! i) then call (Acts (handlers_of (anims s1 ! i))) (s1\<lparr>handled := handled s1 @ [i]\<rparr>)
            else Inr (False, s1)))"

text \<open>The function \<open>tick\<close> of an animation.\<close>

definition tick :: "(rat \<Rightarrow> rat) \<Rightarrow> caller \<Rightarrow> nat \<Rightarrow> fx \<Rightarrow> result" where
  "tick ease call i s =
     (let a = anims s ! i
      in if stopped a then Inr (False, s)
         else
           (let percent = percent_of (fxNow s) a; s1 = run_tweens ease i percent s
            in if before_end percent \<and> tweens a \<noteq> [] then Inr (remaining (fxNow s) a \<noteq> 0, s1)
               else (case call (Settle i True) s1 of Inl e \<Rightarrow> Inl e | Inr (_, s2) \<Rightarrow> Inr (False, s2))))"

text \<open>The method \<open>stop\<close> of an animation.\<close>

definition anim_stop :: "(rat \<Rightarrow> rat) \<Rightarrow> caller \<Rightarrow> nat \<Rightarrow> bool \<Rightarrow> fx \<Rightarrow> result" where
  "anim_stop ease call i gotoEnd s =
     (if stopped (anims s ! i) then Inr (False, s)
      else
        (let s1 = change_anim i (\<lambda>a. a\<lparr>stopped := True\<rparr>) s
         in call (Settle i gotoEnd) (if gotoEnd then run_tweens ease i (Some 1) s1 else s1)))"

text \<open>\<open>Animation\<close>: \<open>jQuery.fx.timer\<close>, and then the handlers of the options.\<close>

definition attach :: "caller \<Rightarrow> nat \<Rightarrow> fx \<Rightarrow> result" where
  "attach call i s =
     (let s1 = change_anim i (\<lambda>a. a\<lparr>attached := True\<rparr>) s
      in if outcome (anims s1 ! i) \<noteq> None
         then call (Acts (handlers_of (anims s1 ! i))) (s1\<lparr>handled := handled s1 @ [i]\<rparr>)
         else Inr (False, s1))"

definition fx_timer :: "caller \<Rightarrow> nat \<Rightarrow> fx \<Rightarrow> result" where
  "fx_timer call i s =
     (case call (Tick i) (s\<lparr>timers := timers s @ [i]\<rparr>) of
        Inl e \<Rightarrow> Inl e
      | Inr (stays, s1) \<Rightarrow>
          Inr (stays, if stays then s1\<lparr>timerId := True\<rparr> else s1\<lparr>timers := butlast (timers s1)\<rparr>))"

definition begin_anim :: "caller \<Rightarrow> anim \<Rightarrow> fx \<Rightarrow> result" where
  "begin_anim call a s =
     (let i = length (anims s)
      in case fx_timer call i (s\<lparr>anims := anims s @ [a]\<rparr>) of
           Inl e \<Rightarrow> Inl e
         | Inr (_, s1) \<Rightarrow> attach call i s1)"

text \<open>The loop of \<open>stop\<close> and of \<open>finish\<close> over the timers, from the last; \<open>k\<close> is the place after the next.\<close>

definition stop_loop :: "caller \<Rightarrow> nat \<Rightarrow> string option \<Rightarrow> bool \<Rightarrow> nat \<Rightarrow> fx \<Rightarrow> result" where
  "stop_loop call e type gotoEnd k s =
     (case k of
        0 \<Rightarrow> Inr (False, s)
      | Suc j \<Rightarrow>
          if length (timers s) \<le> j then Inl (Type_error, s)
          else if matches e type (anims s ! (timers s ! j)) then
            (case call (Stop_anim (timers s ! j) gotoEnd) s of
               Inl er \<Rightarrow> Inl er
             | Inr (_, s1) \<Rightarrow> call (Stop_loop e type gotoEnd j) (drop_timer j s1))
          else call (Stop_loop e type gotoEnd j) s)"

text \<open>The loop of \<open>jQuery.fx.tick\<close>, with its test that the timer is still where it was.\<close>

definition fx_loop :: "caller \<Rightarrow> nat \<Rightarrow> fx \<Rightarrow> result" where
  "fx_loop call i s =
     (if length (timers s) \<le> i then Inr (False, s)
      else
        (case call (Tick (timers s ! i)) s of
           Inl e \<Rightarrow> Inl e
         | Inr (stays, s1) \<Rightarrow>
             if \<not> stays \<and> i < length (timers s1) \<and> timers s1 ! i = timers s ! i then call (Loop i) (drop_timer i s1)
             else call (Loop (Suc i)) s1))"

definition do_act :: "caller \<Rightarrow> act \<Rightarrow> fx \<Rightarrow> result" where
  "do_act call a s =
     (case a of
        Begin e q dur tws dn fl \<Rightarrow> begin_anim call (new_anim e q dur tws dn fl s) s
      | Stop_fx e type gotoEnd \<Rightarrow> call (Stop_loop e type gotoEnd (length (timers s))) s)"

definition do_acts :: "caller \<Rightarrow> act list \<Rightarrow> fx \<Rightarrow> result" where
  "do_acts call as s =
     (case as of
        [] \<Rightarrow> Inr (False, s)
      | a # as' \<Rightarrow> (case call (Act a) s of Inl e \<Rightarrow> Inl e | Inr (_, s1) \<Rightarrow> call (Acts as') s1))"

fun exec :: "(rat \<Rightarrow> rat) \<Rightarrow> nat \<Rightarrow> caller" where
  "exec ease 0 c s = Inl (No_room, s)"
| "exec ease (Suc n) c s =
     (case c of
        Acts as \<Rightarrow> do_acts (exec ease n) as s
      | Act a \<Rightarrow> do_act (exec ease n) a s
      | Stop_loop e type gotoEnd k \<Rightarrow> stop_loop (exec ease n) e type gotoEnd k s
      | Stop_anim i gotoEnd \<Rightarrow> anim_stop ease (exec ease n) i gotoEnd s
      | Settle i ok \<Rightarrow> settle (exec ease n) i ok s
      | Tick i \<Rightarrow> tick ease (exec ease n) i s
      | Loop i \<Rightarrow> fx_loop (exec ease n) i s)"

definition fx_tick :: "(rat \<Rightarrow> rat) \<Rightarrow> nat \<Rightarrow> rat \<Rightarrow> fx \<Rightarrow> (failure \<times> fx) + fx" where
  "fx_tick ease n now s =
     (case exec ease n (Loop 0) (s\<lparr>fxNow := now\<rparr>) of
        Inl e \<Rightarrow> Inl e
      | Inr (_, s') \<Rightarrow> Inr (if timers s' = [] then s'\<lparr>timerId := False\<rparr> else s'))"

definition no_fx :: fx where
  "no_fx = \<lparr>anims = [], timers = [], timerId = False, fxNow = 0, handled = []\<rparr>"

section \<open>Findings\<close>

text \<open>
  A handler stops animations of its own element while they are being stopped: the loop outside goes on with places that
  have moved. Here the timer of another element is removed, and that animation never goes on; below, with a third queue,
  \<open>timers[index]\<close> is undefined.
\<close>

lemma stop_in_handler_loses_timer:
  "case exec (\<lambda>p. p) 50 (Acts [Begin 0 ''fx'' 100 [(0, 1)] [] [],
       Begin 0 ''other'' 100 [(0, 1)] [Stop_fx 0 None False] [], Begin 1 ''fx'' 100 [(0, 1)] [] [], Stop_fx 0 None True]) no_fx of
     Inr (_, s) \<Rightarrow> 2 \<notin> set (timers s) \<and> outcome (anims s ! 2) = None \<and> \<not> stopped (anims s ! 2) | Inl e \<Rightarrow> False"
  by code_simp

lemma stop_in_handler_throws:
  "case exec (\<lambda>p. p) 50 (Acts [Begin 0 ''fx'' 100 [(0, 1)] [] [], Begin 0 ''other'' 100 [(0, 1)] [] [],
       Begin 0 ''third'' 100 [(0, 1)] [Stop_fx 0 None False] [], Stop_fx 0 None True]) no_fx of
     Inl (e, s) \<Rightarrow> e = Type_error | Inr x \<Rightarrow> False"
  by code_simp


section \<open>What every step keeps\<close>

text \<open>
  An animation has lost the \<open>elem\<close> of its timer when it has ended and not before; one that has succeeded shows its end, and
  a timer that is left over cannot change that.
\<close>

definition at_end :: "anim \<Rightarrow> bool" where
  "at_end a \<longleftrightarrow> (\<forall>t\<in>set (tweens a). t_now t = Some (t_end t))"

definition is_over :: "rat \<Rightarrow> anim \<Rightarrow> bool" where
  "is_over now a \<longleftrightarrow> tweens a = [] \<or> percent_of now a = Some 1"

definition anim_ok :: "rat \<Rightarrow> anim \<Rightarrow> bool" where
  "anim_ok now a \<longleftrightarrow> startTime a \<le> now \<and> (elem a = None \<longleftrightarrow> outcome a \<noteq> None) \<and>
     (outcome a = Some True \<longrightarrow> at_end a \<and> (stopped a \<or> is_over now a))"

definition fx_ok :: "fx \<Rightarrow> bool" where
  "fx_ok s \<longleftrightarrow> (\<forall>i\<in>set (timers s). i < length (anims s)) \<and> (\<forall>a\<in>set (anims s). anim_ok (fxNow s) a) \<and>
     (\<forall>i. count_list (handled s) i =
        (if i < length (anims s) \<and> attached (anims s ! i) \<and> outcome (anims s ! i) \<noteq> None then 1 else 0))"

lemma percent_same [simp]:
  "percent_of now (a\<lparr>tweens := ts\<rparr>) = percent_of now a" "percent_of now (a\<lparr>outcome := r\<rparr>) = percent_of now a"
  "percent_of now (a\<lparr>elem := e\<rparr>) = percent_of now a" "percent_of now (a\<lparr>attached := b\<rparr>) = percent_of now a"
  "remaining now (a\<lparr>tweens := ts\<rparr>) = remaining now a"
proof -
  have "remaining now (a\<lparr>tweens := ts\<rparr>) = remaining now a" "remaining now (a\<lparr>outcome := r\<rparr>) = remaining now a"
    "remaining now (a\<lparr>elem := e\<rparr>) = remaining now a" "remaining now (a\<lparr>attached := b\<rparr>) = remaining now a"
    by (simp_all add: remaining_def)
  then show "percent_of now (a\<lparr>tweens := ts\<rparr>) = percent_of now a" "percent_of now (a\<lparr>outcome := r\<rparr>) = percent_of now a"
    "percent_of now (a\<lparr>elem := e\<rparr>) = percent_of now a" "percent_of now (a\<lparr>attached := b\<rparr>) = percent_of now a"
    "remaining now (a\<lparr>tweens := ts\<rparr>) = remaining now a"
    by (simp_all add: percent_of_def)
qed

text \<open>What a later state keeps: the ends, the handlers, and nobody else adds the handlers of an animation.\<close>

definition later_fx :: "fx \<Rightarrow> fx \<Rightarrow> bool" where
  "later_fx s s' \<longleftrightarrow> length (anims s) \<le> length (anims s') \<and> fxNow s' = fxNow s \<and>
     (\<forall>i<length (anims s). attached (anims s' ! i) = attached (anims s ! i) \<and>
        (outcome (anims s ! i) \<noteq> None \<longrightarrow> outcome (anims s' ! i) = outcome (anims s ! i)) \<and>
        (stopped (anims s ! i) \<longrightarrow> stopped (anims s' ! i)))"

lemma later_refl: "later_fx s s"
  by (simp add: later_fx_def)

lemma later_trans: "later_fx s t \<Longrightarrow> later_fx t u \<Longrightarrow> later_fx s u"
  by (fastforce simp: later_fx_def)

text \<open>The state a call leaves, whether it returns or fails.\<close>

definition state_of :: "result \<Rightarrow> fx" where
  "state_of r = (case r of Inl (_, s) \<Rightarrow> s | Inr (_, s) \<Rightarrow> s)"

definition keeps :: "fx \<Rightarrow> result \<Rightarrow> bool" where
  "keeps s r \<longleftrightarrow> fx_ok (state_of r) \<and> later_fx s (state_of r)"

lemma keeps_returns: "fx_ok t \<Longrightarrow> later_fx s t \<Longrightarrow> keeps s (Inr (b, t))"
  by (simp add: keeps_def state_of_def)

lemma keeps_fails: "fx_ok s \<Longrightarrow> keeps s (Inl (e, s))"
  by (simp add: keeps_def state_of_def later_refl)

lemma keeps_after: "later_fx s t \<Longrightarrow> keeps t r \<Longrightarrow> keeps s r"
  using later_trans by (auto simp: keeps_def)

lemma keeps_bind:
  assumes "keeps s r" "\<And>b t. r = Inr (b, t) \<Longrightarrow> fx_ok t \<Longrightarrow> later_fx s t \<Longrightarrow> keeps s (f b t)"
  shows "keeps s (case r of Inl e \<Rightarrow> Inl e | Inr (b, t) \<Rightarrow> f b t)"
  using assms by (cases r) (auto simp: keeps_def state_of_def)

fun cmd_ok :: "cmd \<Rightarrow> fx \<Rightarrow> bool" where
  "cmd_ok (Stop_anim i g) s \<longleftrightarrow> i < length (anims s)"
| "cmd_ok (Tick i) s \<longleftrightarrow> i < length (anims s)"
| "cmd_ok (Settle i ok) s \<longleftrightarrow> i < length (anims s) \<and>
     (ok \<longrightarrow> at_end (anims s ! i) \<and> (stopped (anims s ! i) \<or> is_over (fxNow s) (anims s ! i)))"
| "cmd_ok c s \<longleftrightarrow> True"

text \<open>One animation is changed: what is asked of the change, with the record of handlers run.\<close>

lemma change_ok:
  assumes "fx_ok s" "i < length (anims s)" "anim_ok (fxNow s) (f (anims s ! i))"
    and "hs = handled s @ (if attached (f (anims s ! i)) \<and> outcome (f (anims s ! i)) \<noteq> None \<and>
      \<not> (attached (anims s ! i) \<and> outcome (anims s ! i) \<noteq> None) then [i] else [])"
    and "attached (anims s ! i) \<and> outcome (anims s ! i) \<noteq> None \<longrightarrow>
      attached (f (anims s ! i)) \<and> outcome (f (anims s ! i)) \<noteq> None"
  shows "fx_ok (change_anim i f s\<lparr>handled := hs\<rparr>)"
proof -
  have "count_list hs j = (if j < length (anims s) \<and> attached ((anims s)[i := f (anims s ! i)] ! j) \<and>
      outcome ((anims s)[i := f (anims s ! i)] ! j) \<noteq> None then 1 else 0)" for j
    using assms(1,2,4,5) by (cases "j = i") (auto simp: fx_ok_def)
  moreover have "\<forall>a\<in>set ((anims s)[i := f (anims s ! i)]). anim_ok (fxNow s) a"
    using assms(1,3) by (auto simp: fx_ok_def dest: set_update_subset_insert [THEN subsetD])
  ultimately show ?thesis using assms(1) by (simp add: fx_ok_def change_anim_def)
qed

lemma change_later:
  assumes "i < length (anims s)" "attached (f (anims s ! i)) = attached (anims s ! i)"
    "outcome (anims s ! i) \<noteq> None \<Longrightarrow> outcome (f (anims s ! i)) = outcome (anims s ! i)"
    "stopped (anims s ! i) \<Longrightarrow> stopped (f (anims s ! i))"
  shows "later_fx s (change_anim i f s\<lparr>handled := hs\<rparr>)"
  using assms by (auto simp: later_fx_def change_anim_def nth_list_update)

lemma change_quiet:
  assumes "fx_ok s" "i < length (anims s)" "anim_ok (fxNow s) (f (anims s ! i))"
    and "attached (f (anims s ! i)) = attached (anims s ! i)" "outcome (f (anims s ! i)) = outcome (anims s ! i)"
    "stopped (anims s ! i) \<Longrightarrow> stopped (f (anims s ! i))"
  shows "fx_ok (change_anim i f s)" "later_fx s (change_anim i f s)"
proof -
  have "change_anim i f s\<lparr>handled := handled s\<rparr> = change_anim i f s" by (simp add: change_anim_def)
  moreover have "fx_ok (change_anim i f s\<lparr>handled := handled s\<rparr>)"
    by (rule change_ok [OF assms(1,2), of f]) (use assms(3-5) in auto)
  ultimately show "fx_ok (change_anim i f s)" "later_fx s (change_anim i f s)"
    using change_later [of i s f "handled s"] assms(2,4-6) by simp_all
qed

lemma fx_okD:
  assumes "fx_ok s"
  shows "i \<in> set (timers s) \<Longrightarrow> i < length (anims s)" "i < length (anims s) \<Longrightarrow> anim_ok (fxNow s) (anims s ! i)"
  using assms by (auto simp: fx_ok_def)

text \<open>At a time that is not before the start, a tick that does not end the animation finds it before its end.\<close>

lemma end_is_over:
  assumes "startTime a \<le> now" "\<not> (before_end (percent_of now a) \<and> tweens a \<noteq> [])"
  shows "is_over now a"
proof -
  have "duration a < 0 \<Longrightarrow> remaining now a = 0" "0 \<le> remaining now a" using assms(1) by (simp_all add: remaining_def)
  then have "0 < duration a \<Longrightarrow> 0 \<le> remaining now a / duration a" by simp
  with \<open>duration a < 0 \<Longrightarrow> remaining now a = 0\<close> show ?thesis using assms(2)
    by (cases "duration a" "0 :: rat" rule: linorder_cases)
      (auto simp: percent_of_def before_end_def is_over_def not_less split: if_splits)
qed

lemma run_to_end: "ease 1 = 1 \<Longrightarrow> t_now (run_tween ease d (Some 1) t) = Some (t_end (run_tween ease d (Some 1) t))"
  by (simp add: run_tween_def Let_def)

lemma timers_ok: "fx_ok s \<Longrightarrow> set ts \<subseteq> set (timers s) \<Longrightarrow> fx_ok (s\<lparr>timers := ts\<rparr>)"
  by (auto simp: fx_ok_def)

lemma timers_later: "later_fx s (s\<lparr>timers := ts\<rparr>)" "later_fx s (s\<lparr>timerId := b\<rparr>)"
  by (simp_all add: later_fx_def)

lemma drop_timer_ok: "fx_ok s \<Longrightarrow> fx_ok (drop_timer i s)"
  unfolding drop_timer_def by (rule timers_ok) (auto dest: in_set_takeD in_set_dropD)

lemma drop_timer_later: "later_fx s (drop_timer i s)"
  unfolding drop_timer_def by (rule timers_later)

text \<open>The contract of the calls inside, and the operations under it.\<close>

locale fx_caller =
  fixes ease :: "rat \<Rightarrow> rat" and call :: caller
  assumes ease_one: "ease 1 = 1"
    and call_ok: "fx_ok s \<Longrightarrow> cmd_ok c s \<Longrightarrow> keeps s (call c s)"
begin

lemma then_call: "fx_ok t \<Longrightarrow> later_fx s t \<Longrightarrow> cmd_ok c t \<Longrightarrow> keeps s (call c t)"
  by (rule keeps_after [OF _ call_ok])

lemma settle_ok:
  assumes "fx_ok s" "cmd_ok (Settle i ok) s"
  shows "keeps s (settle call i ok s)"
proof (cases "outcome (anims s ! i)")
  case None
  let ?f = "\<lambda>a. a\<lparr>outcome := Some ok, elem := None\<rparr>"
  have i: "i < length (anims s)" using assms(2) by simp
  have a: "anim_ok (fxNow s) (?f (anims s ! i))"
    using fx_okD(2) [OF assms(1) i] assms(2)
    by (auto simp: anim_ok_def at_end_def is_over_def)
  define hs where "hs = handled s @ (if attached (anims s ! i) then [i] else [])"
  let ?s = "change_anim i ?f s\<lparr>handled := hs\<rparr>"
  have ok: "fx_ok ?s" by (rule change_ok [OF assms(1) i, of ?f]) (use a None in \<open>simp_all add: hs_def\<close>)
  have later: "later_fx s ?s" by (rule change_later [OF i, of ?f]) (use None in simp_all)
  have "settle call i ok s =
      (if attached (anims s ! i) then call (Acts (handlers_of (?f (anims s ! i)))) ?s else Inr (False, ?s))"
    using None i by (simp add: settle_def Let_def change_anim_def hs_def)
  then show ?thesis using then_call [OF ok later] keeps_returns [OF ok later] by simp
next
  case (Some b)
  then show ?thesis using assms by (simp add: settle_def keeps_returns later_refl)
qed

lemma tick_ok:
  assumes "fx_ok s" "i < length (anims s)"
  shows "keeps s (tick ease call i s)"
proof (cases "stopped (anims s ! i)")
  case False
  let ?a = "anims s ! i" and ?p = "percent_of (fxNow s) (anims s ! i)"
  let ?f = "\<lambda>a. a\<lparr>tweens := map (run_tween ease (duration a) ?p) (tweens a)\<rparr>"
  define s1 where "s1 = run_tweens ease i ?p s"
  have ok: "anim_ok (fxNow s) ?a" by (rule fx_okD(2) [OF assms])
  have over: "is_over (fxNow s) (?f ?a) = is_over (fxNow s) ?a" by (simp add: is_over_def)
  have ends: "is_over (fxNow s) ?a \<Longrightarrow> at_end (?f ?a)"
    by (auto simp: is_over_def at_end_def run_to_end [of ease, OF ease_one])
  have "anim_ok (fxNow s) (?f ?a)" using ok ends over False by (auto simp: anim_ok_def)
  then have s1: "fx_ok s1" "later_fx s s1"
    using change_quiet [OF assms, of ?f] by (simp_all add: s1_def run_tweens_def)
  have "keeps s (case call (Settle i True) s1 of Inl e \<Rightarrow> Inl e | Inr (_, s2) \<Rightarrow> Inr (False, s2))"
    if "\<not> (before_end ?p \<and> tweens ?a \<noteq> [])"
  proof (rule keeps_bind)
    have "is_over (fxNow s) ?a" using ok that by (intro end_is_over) (simp add: anim_ok_def)
    then have "cmd_ok (Settle i True) s1" using assms(2) over ends by (simp add: s1_def run_tweens_def change_anim_def)
    then show "keeps s (call (Settle i True) s1)" by (rule then_call [OF s1])
  qed (rule keeps_returns)
  then show ?thesis using False keeps_returns [OF s1] by (simp add: tick_def Let_def s1_def)
next
  case True
  then show ?thesis using assms by (simp add: tick_def keeps_returns later_refl)
qed

lemma anim_stop_ok:
  assumes "fx_ok s" "i < length (anims s)"
  shows "keeps s (anim_stop ease call i gotoEnd s)"
proof (cases "stopped (anims s ! i)")
  case False
  let ?a = "anims s ! i"
  let ?f = "\<lambda>a. if gotoEnd then a\<lparr>stopped := True, tweens := map (run_tween ease (duration a) (Some 1)) (tweens a)\<rparr>
    else a\<lparr>stopped := True\<rparr>"
  define s1 where "s1 = change_anim i ?f s"
  have ends: "gotoEnd \<Longrightarrow> at_end (?f ?a)" by (auto simp: at_end_def run_to_end [of ease, OF ease_one])
  have "anim_ok (fxNow s) (?f ?a)"
    using fx_okD(2) [OF assms] ends by (auto simp: anim_ok_def at_end_def)
  then have s1: "fx_ok s1" "later_fx s s1" using change_quiet [OF assms, of ?f] by (auto simp: s1_def)
  have "cmd_ok (Settle i gotoEnd) s1" using assms(2) ends by (simp add: s1_def change_anim_def)
  from then_call [OF s1 this] show ?thesis
    using assms(2) False by (auto simp: anim_stop_def Let_def s1_def run_tweens_def change_anim_def)
next
  case True
  then show ?thesis using assms by (simp add: anim_stop_def keeps_returns later_refl)
qed

lemma fx_timer_ok:
  assumes "fx_ok s" "i < length (anims s)"
  shows "keeps s (fx_timer call i s)"
  unfolding fx_timer_def
proof (rule keeps_bind)
  have "fx_ok (s\<lparr>timers := timers s @ [i]\<rparr>)" using assms by (simp add: fx_ok_def)
  then show "keeps s (call (Tick i) (s\<lparr>timers := timers s @ [i]\<rparr>))"
    by (rule then_call) (use assms(2) timers_later in simp_all)
next
  fix stays s1 assume s1: "fx_ok s1" "later_fx s s1"
  have "fx_ok (s1\<lparr>timerId := True\<rparr>)" "fx_ok (s1\<lparr>timers := butlast (timers s1)\<rparr>)"
    using s1(1) timers_ok [OF s1(1)] by (auto simp: fx_ok_def dest: in_set_butlastD)
  then show "keeps s (Inr (stays, if stays then s1\<lparr>timerId := True\<rparr> else s1\<lparr>timers := butlast (timers s1)\<rparr>))"
    using later_trans [OF s1(2) timers_later(1)] later_trans [OF s1(2) timers_later(2)] by (simp add: keeps_returns)
qed

lemma begin_anim_ok:
  assumes "fx_ok s" "startTime a \<le> fxNow s" "outcome a = None" "elem a \<noteq> None" "\<not> attached a"
  shows "keeps s (begin_anim call a s)"
proof -
  let ?i = "length (anims s)" and ?s = "s\<lparr>anims := anims s @ [a]\<rparr>" and ?f = "\<lambda>a. a\<lparr>attached := True\<rparr>"
  have "count_list (handled s) ?i = 0" using assms(1) unfolding fx_ok_def by auto
  then have s: "fx_ok ?s" using assms by (auto simp: fx_ok_def anim_ok_def nth_append less_Suc_eq)
  have later: "later_fx s s1" if "later_fx ?s s1" for s1 using that by (auto simp: later_fx_def nth_append)
  have timer: "keeps ?s (fx_timer call ?i ?s)" by (rule fx_timer_ok [OF s]) simp
  have "keeps s (attach call ?i s1)" if s1: "fx_ok s1" "later_fx ?s s1" for s1
  proof -
    have i: "?i < length (anims s1)" "\<not> attached (anims s1 ! ?i)" using s1(2) assms(5) by (auto simp: later_fx_def)
    have a: "anim_ok (fxNow s1) (?f (anims s1 ! ?i))"
      using fx_okD(2) [OF s1(1) i(1)] by (simp add: anim_ok_def at_end_def is_over_def)
    define hs where "hs = handled s1 @ (if outcome (anims s1 ! ?i) \<noteq> None then [?i] else [])"
    define s2 where "s2 = change_anim ?i ?f s1\<lparr>handled := hs\<rparr>"
    have s2: "fx_ok s2" unfolding s2_def
      by (rule change_ok [OF s1(1) i(1), of ?f]) (use a i in \<open>simp_all add: hs_def\<close>)
    have l2: "later_fx s s2" using s1(2) by (auto simp: later_fx_def s2_def change_anim_def nth_append)
    have "attach call ?i s1 =
        (if outcome (anims s1 ! ?i) \<noteq> None then call (Acts (handlers_of (?f (anims s1 ! ?i)))) s2 else Inr (False, s2))"
      using i(1) by (auto simp: attach_def Let_def change_anim_def s2_def hs_def)
    then show ?thesis using then_call [OF s2 l2] keeps_returns [OF s2 l2] by simp
  qed
  then show ?thesis using timer later
    by (cases "fx_timer call ?i ?s") (auto simp: begin_anim_def Let_def keeps_def state_of_def)
qed

lemma stop_loop_ok:
  assumes "fx_ok s"
  shows "keeps s (stop_loop call e type gotoEnd k s)"
proof (cases k)
  case (Suc j)
  show ?thesis
  proof (cases "j < length (timers s)")
    case True
    have "keeps s (case call (Stop_anim (timers s ! j) gotoEnd) s of Inl er \<Rightarrow> Inl er
      | Inr (_, s1) \<Rightarrow> call (Stop_loop e type gotoEnd j) (drop_timer j s1))"
      by (rule keeps_bind)
        (use assms fx_okD(1) [OF assms] True in \<open>auto intro!: call_ok then_call drop_timer_ok later_trans [OF _ drop_timer_later]\<close>)
    then show ?thesis using True Suc call_ok [OF assms] by (simp add: stop_loop_def)
  qed (use Suc assms in \<open>simp add: stop_loop_def keeps_fails\<close>)
qed (use assms in \<open>simp add: stop_loop_def keeps_returns later_refl\<close>)

lemma fx_loop_ok:
  assumes "fx_ok s"
  shows "keeps s (fx_loop call i s)"
proof (cases "length (timers s) \<le> i")
  case False
  have "keeps s (case call (Tick (timers s ! i)) s of Inl e \<Rightarrow> Inl e
    | Inr (stays, s1) \<Rightarrow> if \<not> stays \<and> i < length (timers s1) \<and> timers s1 ! i = timers s ! i
        then call (Loop i) (drop_timer i s1) else call (Loop (Suc i)) s1)"
    by (rule keeps_bind)
      (use assms fx_okD(1) [OF assms] False in \<open>auto intro!: call_ok then_call drop_timer_ok later_trans [OF _ drop_timer_later]\<close>)
  then show ?thesis using False by (simp add: fx_loop_def)
qed (use assms in \<open>simp add: fx_loop_def keeps_returns later_refl\<close>)

lemma do_act_ok:
  assumes "fx_ok s"
  shows "keeps s (do_act call a s)"
proof (cases a)
  case (Begin e q dur tws dn fl)
  then show ?thesis using begin_anim_ok [OF assms, of "new_anim e q dur tws dn fl s"] by (simp add: do_act_def new_anim_def)
qed (use call_ok [OF assms] in \<open>simp add: do_act_def\<close>)

lemma do_acts_ok:
  assumes "fx_ok s"
  shows "keeps s (do_acts call as s)"
proof (cases as)
  case (Cons a as')
  have "keeps s (case call (Act a) s of Inl e \<Rightarrow> Inl e | Inr (_, s1) \<Rightarrow> call (Acts as') s1)"
    by (rule keeps_bind) (use assms in \<open>auto intro: call_ok then_call\<close>)
  then show ?thesis using Cons by (simp add: do_acts_def)
qed (use assms in \<open>simp add: do_acts_def keeps_returns later_refl\<close>)

end

lemma exec_contract:
  assumes "(ease :: rat \<Rightarrow> rat) 1 = 1"
  shows "fx_ok s \<Longrightarrow> cmd_ok c s \<Longrightarrow> keeps s (exec ease n c s)"
proof (induction n arbitrary: c s)
  case 0
  then show ?case by (simp add: keeps_fails)
next
  case (Suc n)
  then have call: "fx_caller ease (exec ease n)" using assms by unfold_locales
  note ops = fx_caller.do_acts_ok [OF call] fx_caller.do_act_ok [OF call] fx_caller.stop_loop_ok [OF call]
    fx_caller.anim_stop_ok [OF call] fx_caller.settle_ok [OF call] fx_caller.tick_ok [OF call] fx_caller.fx_loop_ok [OF call]
  show ?case using Suc.prems ops by (cases c) simp_all
qed

interpretation fx_exec: fx_caller "\<lambda>p. p" "exec (\<lambda>p. p) n" for n
  using exec_contract [of "\<lambda>p. p" _ _ n] by unfold_locales simp_all


section \<open>Runs\<close>

text \<open>
  What happens to a page: handlers act at a time, or a frame comes. An error ends what runs then, and the page goes on
  with the next event.
\<close>

datatype event = Do rat "act list" | Frame rat

fun fx_event :: "(rat \<Rightarrow> rat) \<Rightarrow> nat \<Rightarrow> event \<Rightarrow> fx \<Rightarrow> fx" where
  "fx_event ease n (Do now as) s = state_of (exec ease n (Acts as) (s\<lparr>fxNow := now\<rparr>))"
| "fx_event ease n (Frame now) s = (case fx_tick ease n now s of Inl (_, s') \<Rightarrow> s' | Inr s' \<Rightarrow> s')"

fun fx_run :: "(rat \<Rightarrow> rat) \<Rightarrow> nat \<Rightarrow> event list \<Rightarrow> fx \<Rightarrow> fx" where
  "fx_run ease n [] s = s"
| "fx_run ease n (e # es) s = fx_run ease n es (fx_event ease n e s)"

definition time_of :: "event \<Rightarrow> rat" where
  "time_of e = (case e of Do now as \<Rightarrow> now | Frame now \<Rightarrow> now)"

lemma over_later: "is_over now a \<Longrightarrow> startTime a \<le> now \<Longrightarrow> now \<le> now' \<Longrightarrow> is_over now' a"
  by (auto simp: is_over_def percent_of_def remaining_def max_def split: if_splits)

lemma fx_ok_later: "fx_ok s \<Longrightarrow> fxNow s \<le> now \<Longrightarrow> fx_ok (s\<lparr>fxNow := now\<rparr>)"
  using over_later by (fastforce simp: fx_ok_def anim_ok_def)

definition keeps_ends :: "fx \<Rightarrow> fx \<Rightarrow> bool" where
  "keeps_ends s s' \<longleftrightarrow> length (anims s) \<le> length (anims s') \<and>
     (\<forall>i<length (anims s). outcome (anims s ! i) \<noteq> None \<longrightarrow> outcome (anims s' ! i) = outcome (anims s ! i))"

lemma fx_event_ok:
  assumes "ease 1 = 1" "fx_ok s" "fxNow s \<le> time_of e"
  shows "fx_ok (fx_event ease n e s)" "later_fx (s\<lparr>fxNow := time_of e\<rparr>) (fx_event ease n e s)"
proof -
  let ?s = "s\<lparr>fxNow := time_of e\<rparr>"
  have ok: "fx_ok ?s" by (rule fx_ok_later [OF assms(2,3)])
  have "fx_ok (fx_event ease n e s) \<and> later_fx ?s (fx_event ease n e s)"
  proof (cases e)
    case (Do now as)
    then show ?thesis using exec_contract [of ease, OF assms(1) ok, of "Acts as" n] by (simp add: time_of_def keeps_def)
  next
    case (Frame now)
    have "keeps ?s (exec ease n (Loop 0) ?s)" by (rule exec_contract [of ease, OF assms(1) ok]) simp
    moreover have "fx_event ease n e s = state_of (exec ease n (Loop 0) ?s) \<or>
        fx_event ease n e s = state_of (exec ease n (Loop 0) ?s)\<lparr>timerId := False\<rparr>"
      using Frame by (auto simp: fx_tick_def state_of_def time_of_def split: sum.splits prod.splits)
    ultimately show ?thesis using later_trans [OF _ timers_later(2)] by (auto simp: keeps_def fx_ok_def)
  qed
  then show "fx_ok (fx_event ease n e s)" "later_fx ?s (fx_event ease n e s)" by simp_all
qed

lemma fx_run_ok:
  assumes "ease 1 = 1"
  shows "fx_ok s \<Longrightarrow> sorted (fxNow s # map time_of es) \<Longrightarrow> fx_ok (fx_run ease n es s) \<and> keeps_ends s (fx_run ease n es s)"
proof (induction es arbitrary: s)
  case Nil
  then show ?case by (simp add: keeps_ends_def)
next
  case (Cons e es)
  define s1 where "s1 = fx_event ease n e s"
  have s1: "fx_ok s1" "later_fx (s\<lparr>fxNow := time_of e\<rparr>) s1"
    using fx_event_ok [of ease, OF assms Cons.prems(1)] Cons.prems(2) by (simp_all add: s1_def)
  then have "sorted (fxNow s1 # map time_of es)" using Cons.prems(2) by (auto simp: later_fx_def)
  from Cons.IH [OF s1(1) this] show ?case
    using s1(2) by (fastforce simp: keeps_ends_def later_fx_def simp flip: s1_def)
qed

text \<open>
  C24: Whatever the handlers of the page begin and stop, at times that do not go back and with an easing that is one at
  one, and whether or not an error or a stack that overflows ends some of the events: an animation ends at most once, its
  handlers run once when it has ended and not before, its timer has lost its element exactly when it has ended, an end is
  never changed, and an animation that has succeeded shows the end of each of its tweens from then on.
\<close>

theorem animations_end_once:
  assumes "ease 1 = 1" "fx_ok s" "sorted (fxNow s # map time_of es)"
  shows "let s' = fx_run ease n es s
    in (\<forall>i. count_list (handled s') i =
        (if i < length (anims s') \<and> attached (anims s' ! i) \<and> outcome (anims s' ! i) \<noteq> None then 1 else 0)) \<and>
      (\<forall>a\<in>set (anims s'). (elem a = None \<longleftrightarrow> outcome a \<noteq> None) \<and>
        (outcome a = Some True \<longrightarrow> (\<forall>t\<in>set (tweens a). t_now t = Some (t_end t)))) \<and> keeps_ends s s'"
proof -
  have "fx_ok (fx_run ease n es s)" "keeps_ends s (fx_run ease n es s)" using fx_run_ok [of ease, OF assms(1,2,3)] by simp_all
  then show ?thesis by (auto simp: fx_ok_def anim_ok_def at_end_def Let_def)
qed

theorem animations_end_once_witness:
  "let s' = fx_run (\<lambda>p. p) 50
       [Do 0 [Begin 0 ''fx'' 100 [(0, 1)] [Begin 0 ''fx'' 0 [(1, 2)] [] []] []], Frame 50, Frame 120] no_fx
   in (\<forall>i. count_list (handled s') i \<le> 1) \<and> length (anims s') = 2 \<and> outcome (anims s' ! 1) = Some True"
proof -
  let ?es = "[Do 0 [Begin 0 ''fx'' 100 [(0, 1)] [Begin 0 ''fx'' 0 [(1, 2)] [] []] []], Frame 50, Frame 120]"
  have "length (anims (fx_run (\<lambda>p. p) 50 ?es no_fx)) = 2 \<and> outcome (anims (fx_run (\<lambda>p. p) 50 ?es no_fx) ! 1) = Some True"
    by code_simp
  moreover have "fx_ok no_fx" "sorted (fxNow no_fx # map time_of ?es)" by (simp_all add: fx_ok_def no_fx_def time_of_def)
  from animations_end_once [of "\<lambda>p. p", OF refl this, of 50] have "\<forall>i. count_list (handled (fx_run (\<lambda>p. p) 50 ?es no_fx)) i \<le> 1"
    by (simp add: Let_def)
  ultimately show ?thesis by (simp add: Let_def)
qed


section \<open>A frame ends what is due\<close>

text \<open>Handlers that begin animations only, and the room they need.\<close>

fun begins :: "act \<Rightarrow> bool" where
  "begins (Begin e q dur tws dn fl) \<longleftrightarrow> (\<forall>a\<in>set dn. begins a) \<and> (\<forall>a\<in>set fl. begins a)"
| "begins (Stop_fx e type g) \<longleftrightarrow> False"


definition due :: "rat \<Rightarrow> anim \<Rightarrow> bool" where
  "due now a \<longleftrightarrow> \<not> (before_end (percent_of now a) \<and> tweens a \<noteq> [])"


lemma begins_all: "begins (Begin e q dur tws dn fl) \<longleftrightarrow> list_all begins dn \<and> list_all begins fl"
  by (simp add: list_all_iff)

















declare exec.simps [simp del]






















lemma due_now: "due now (anims (s\<lparr>fxNow := x\<rparr>) ! j) = due now (anims s ! j)"
  by simp



end
